(* ===== verification/Prelude.thy ===== *)
theory Prelude
  imports Main "HOL-Library.Word" "HOL-Library.List_Lexorder"
begin

text \<open>
  What every component shares: the machine types, the outcome type of fallible
  operations (\<open>src/src/errors.rs\<close> and the panics of the language), three-way
  comparison as in \<open>std::cmp::Ordering\<close>, and the big-endian integer codec that
  the standard library calls \<open>to_be_bytes\<close> / \<open>from_be_bytes\<close> and the \<open>Buf\<close> /
  \<open>BufMut\<close> accessors \<open>get_u16\<close>, \<open>get_u32\<close>, \<open>get_u64\<close>, \<open>put_u16\<close>, \<open>put_u32\<close>,
  \<open>put_u64\<close> expose on byte buffers. Generic list lemmas are collected in \<open>list_facts\<close>,
  codec lemmas in \<open>codec\<close>.
\<close>

named_theorems codec \<open>facts on the byte-level encodings\<close>
named_theorems list_facts \<open>facts on slices and lookups\<close>

type_synonym byte = "8 word"
type_synonym bytes = "byte list"
type_synonym u16 = "16 word"
type_synonym u32 = "32 word"
type_synonym u64 = "64 word"

section \<open>Errors\<close>

text \<open>The enum \<open>DBError\<close> of \<open>errors.rs\<close>.\<close>

datatype db_error =
    ValuelogSize
  | KeyNotFound
  | TxnTooBig
  | Conflict
  | ReadOnlyTxn
  | DiscardedTxn
  | EmptyKey
  | InvalidKey
  | BannedKey
  | ThresholdZero
  | InvalidEncryptionKey
  | EncryptionKeyMismatch
  | InvalidDataKeyID
  | DBClosed
  | TruncateNeeded nat nat
  | BlockedWrites

text \<open>
  How an operation can fail: with a \<open>DBError\<close>, with another \<open>anyhow\<close> error
  (whose text is of no interest to callers), or by a panic of the language
  (\<open>unwrap\<close> on nothing, an index out of range, a failed \<open>assert!\<close>).
\<close>

datatype failure = Bail db_error | Anyhow string | Panic

type_synonym 'a outcome = "failure + 'a"

definition is_ok :: "'a outcome \<Rightarrow> bool" where
  "is_ok r \<longleftrightarrow> (case r of Inl _ \<Rightarrow> False | Inr _ \<Rightarrow> True)"

lemma is_ok_simps [simp]: "is_ok (Inr x)" "\<not> is_ok (Inl e)"
  by (simp_all add: is_ok_def)

lemma is_ok_iff: "is_ok r \<longleftrightarrow> (\<exists>x. r = Inr x)"
  by (cases r) auto

text \<open>The operator \<open>?\<close>: the first failure ends the computation.\<close>

definition and_then :: "'a outcome \<Rightarrow> ('a \<Rightarrow> 'b outcome) \<Rightarrow> 'b outcome" where
  "and_then r f = (case r of Inl e \<Rightarrow> Inl e | Inr x \<Rightarrow> f x)"

lemma and_then_simps [simp]: "and_then (Inl e) f = Inl e" "and_then (Inr x) f = f x"
  by (simp_all add: and_then_def)

lemma and_then_Inr: "and_then r f = Inr y \<longleftrightarrow> (\<exists>x. r = Inr x \<and> f x = Inr y)"
  by (cases r) auto

lemma and_then_cong [fundef_cong]:
  "r = r' \<Longrightarrow> (\<And>x. r' = Inr x \<Longrightarrow> f x = g x) \<Longrightarrow> and_then r f = and_then r' g"
  by (cases r') auto

text \<open>\<open>unwrap\<close> and \<open>Option::ok_or\<close>.\<close>

definition unwrap :: "'a option \<Rightarrow> 'a outcome" where
  "unwrap x = (case x of None \<Rightarrow> Inl Panic | Some y \<Rightarrow> Inr y)"

lemma unwrap_simps [simp]: "unwrap None = Inl Panic" "unwrap (Some y) = Inr y"
  by (simp_all add: unwrap_def)

text \<open>Addition and subtraction that panic when they leave the type.\<close>

definition add_checked :: "'a::len word \<Rightarrow> 'a word \<Rightarrow> 'a word outcome" where
  "add_checked a b = (if a + b < a then Inl Panic else Inr (a + b))"

definition sub_checked :: "'a::len word \<Rightarrow> 'a word \<Rightarrow> 'a word outcome" where
  "sub_checked a b = (if a < b then Inl Panic else Inr (a - b))"

lemma word_incr_less: "x \<noteq> - 1 \<Longrightarrow> t < x + 1 \<longleftrightarrow> t \<le> x" for x :: "'a::len word"
proof -
  assume "x \<noteq> - 1"
  then have "1 + x \<noteq> 0" by (metis add.commute add_eq_0_iff)
  then have "unat (x + 1) = Suc (unat x)" using unatSuc [of x] by (simp add: add.commute)
  then show ?thesis by (simp add: word_less_nat_alt word_le_nat_alt less_Suc_eq_le)
qed

lemma word_decr_le: "x \<noteq> 0 \<Longrightarrow> t \<le> x - 1 \<longleftrightarrow> t < x" for x :: "'a::len word"
  using word_incr_less [of "x - 1" t] by simp

lemma add_one_checked: "add_checked x 1 = Inr y \<longleftrightarrow> x \<noteq> - 1 \<and> y = x + 1"
  using word_incr_less [of x x]
  by (cases "x = - 1") (auto simp: add_checked_def word_gt_0)

lemma sub_one_checked: "sub_checked x 1 = Inr y \<longleftrightarrow> x \<noteq> 0 \<and> y = x - 1"
  by (auto simp: sub_checked_def)

section \<open>Three-way comparison\<close>

datatype ordering = Less | Equal | Greater

definition compare :: "'a::linorder \<Rightarrow> 'a \<Rightarrow> ordering" where
  "compare x y = (if x < y then Less else if x = y then Equal else Greater)"

lemma compare_iff [simp]:
  "compare x y = Less \<longleftrightarrow> x < y"
  "compare x y = Equal \<longleftrightarrow> x = y"
  "compare x y = Greater \<longleftrightarrow> y < x"
  by (auto simp: compare_def)

lemma compare_refl [simp]: "compare x x = Equal"
  by simp

section \<open>Byte strings\<close>

text \<open>The byte literal \<open>b"..."\<close>.\<close>

definition bytes_of :: "string \<Rightarrow> bytes" where
  "bytes_of s = map of_char s"

lemma length_bytes_of [simp]: "length (bytes_of s) = length s"
  by (simp add: bytes_of_def)

section \<open>Slices\<close>

text \<open>\<open>&v[from..to]\<close>, with the panic of an index out of range as \<open>None\<close>.\<close>

definition slice :: "'a list \<Rightarrow> nat \<Rightarrow> nat \<Rightarrow> 'a list option" where
  "slice xs i j = (if i \<le> j \<and> j \<le> length xs then Some (take (j - i) (drop i xs)) else None)"

lemma slice_append [list_facts]:
  assumes "i = length xs" "j = length xs + length ys"
  shows "slice (xs @ ys @ zs) i j = Some ys"
  using assms by (simp add: slice_def)

lemma slice_Some_length: "slice xs i j = Some ys \<Longrightarrow> length ys = j - i"
  by (auto simp: slice_def split: if_splits)

lemma length_filter_update [list_facts]:
  "i < length xs \<Longrightarrow> length (filter P (xs[i := y])) + (if P (xs ! i) then 1 else 0)
     = length (filter P xs) + (if P y then 1 else 0)"
proof (induction xs arbitrary: i)
  case (Cons x xs)
  then show ?case using Cons.IH [of "i - 1"] by (cases i) auto
qed simp

lemma take_map_fst_find: "map_of xs k = Some v \<Longrightarrow> k \<in> fst ` set xs"
  by (auto dest: map_of_SomeD intro: rev_image_eqI)

section \<open>Big-endian integers\<close>

lemma unat_bound: "unat w < 2 ^ LENGTH('a)" for w :: "'a::len word"
  by simp

primrec from_be :: "bytes \<Rightarrow> nat" where
  "from_be [] = 0"
| "from_be (x # xs) = unat x * 256 ^ length xs + from_be xs"

primrec to_be :: "nat \<Rightarrow> nat \<Rightarrow> bytes" where
  "to_be 0 v = []"
| "to_be (Suc n) v = to_be n (v div 256) @ [word_of_nat v]"

lemma length_to_be [simp]: "length (to_be n v) = n"
  by (induction n arbitrary: v) auto

lemma from_be_append: "from_be (xs @ ys) = from_be xs * 256 ^ length ys + from_be ys"
  by (induction xs) (auto simp: algebra_simps power_add)

lemma from_be_less: "from_be xs < 256 ^ length xs"
proof (induction xs)
  case Nil
  show ?case by simp
next
  case (Cons x xs)
  have "unat x \<le> 255" using unat_bound [of x] by simp
  then have "unat x * 256 ^ length xs \<le> 255 * 256 ^ length xs" by (rule mult_le_mono1)
  with Cons have "unat x * 256 ^ length xs + from_be xs < 256 * 256 ^ length xs" by linarith
  then show ?case by simp
qed

lemma from_be_to_be [codec]: "from_be (to_be n v) = v mod 256 ^ n"
proof (induction n arbitrary: v)
  case 0
  show ?case by simp
next
  case (Suc n)
  have "v mod (256 * 256 ^ n) = 256 * (v div 256 mod 256 ^ n) + v mod 256"
    by (rule mod_mult2_eq)
  with Suc show ?case
    by (simp add: from_be_append unat_of_nat take_bit_eq_mod algebra_simps)
qed

lemma from_be_less_iff:
  "length xs = length ys \<Longrightarrow> from_be xs < from_be ys \<longleftrightarrow> xs < ys"
proof (induction xs ys rule: list_induct2)
  case Nil
  show ?case by simp
next
  case (Cons x xs y ys)
  let ?p = "256 ^ length ys :: nat"
  have bx: "from_be xs < ?p" and by': "from_be ys < ?p"
    using from_be_less [of xs] from_be_less [of ys] Cons.hyps by auto
  consider "x < y" | "x = y" | "y < x" by fastforce
  then show ?case
  proof cases
    case 1
    then have "Suc (unat x) * ?p \<le> unat y * ?p"
      by (intro mult_le_mono1) (simp add: word_less_nat_alt)
    with bx 1 Cons.hyps show ?thesis by simp
  next
    case 2
    with Cons show ?thesis by simp
  next
    case 3
    then have "Suc (unat y) * ?p \<le> unat x * ?p"
      by (intro mult_le_mono1) (simp add: word_less_nat_alt)
    with by' 3 Cons.hyps show ?thesis by auto
  qed
qed

definition put_u16 :: "u16 \<Rightarrow> bytes" where "put_u16 w = to_be 2 (unat w)"
definition put_u32 :: "u32 \<Rightarrow> bytes" where "put_u32 w = to_be 4 (unat w)"
definition put_u64 :: "u64 \<Rightarrow> bytes" where "put_u64 w = to_be 8 (unat w)"

text \<open>Reading advances the buffer; an exhausted buffer panics (\<open>None\<close>).\<close>

definition get_u16 :: "bytes \<Rightarrow> (u16 \<times> bytes) option" where
  "get_u16 bs = (if length bs < 2 then None
     else Some (word_of_nat (from_be (take 2 bs)), drop 2 bs))"
definition get_u32 :: "bytes \<Rightarrow> (u32 \<times> bytes) option" where
  "get_u32 bs = (if length bs < 4 then None
     else Some (word_of_nat (from_be (take 4 bs)), drop 4 bs))"
definition get_u64 :: "bytes \<Rightarrow> (u64 \<times> bytes) option" where
  "get_u64 bs = (if length bs < 8 then None
     else Some (word_of_nat (from_be (take 8 bs)), drop 8 bs))"

lemma length_put [simp]:
  "length (put_u16 a) = 2" "length (put_u32 b) = 4" "length (put_u64 c) = 8"
  by (simp_all add: put_u16_def put_u32_def put_u64_def)

lemma from_be_put [codec]:
  "from_be (put_u16 a) = unat a" "from_be (put_u32 b) = unat b" "from_be (put_u64 c) = unat c"
  using unat_bound [of a] unat_bound [of b] unat_bound [of c]
  by (simp_all add: put_u16_def put_u32_def put_u64_def from_be_to_be)

lemma get_put [simp, codec]:
  "get_u16 (put_u16 a @ r) = Some (a, r)"
  "get_u32 (put_u32 b @ r) = Some (b, r)"
  "get_u64 (put_u64 c @ r) = Some (c, r)"
  by (simp_all add: get_u16_def get_u32_def get_u64_def from_be_put)

lemma get_put_nil [simp, codec]:
  "get_u16 (put_u16 a) = Some (a, [])"
  "get_u32 (put_u32 b) = Some (b, [])"
  "get_u64 (put_u64 c) = Some (c, [])"
  using get_put [where r = "[]"] by simp_all

lemma put_u64_less_iff [codec]: "put_u64 a < put_u64 b \<longleftrightarrow> a < b"
  using from_be_less_iff [of "put_u64 a" "put_u64 b"]
  by (simp add: from_be_put word_less_nat_alt)

lemma put_u64_eq_iff [codec, simp]: "put_u64 a = put_u64 b \<longleftrightarrow> a = b"
  by (metis from_be_put(3) word_unat_eq_iff)

lemma compare_put_u64 [codec]: "compare (put_u64 a) (put_u64 b) = compare a b"
  by (simp add: compare_def put_u64_less_iff)

end
