(* ===== verification/KV.thy ===== *)
theory KV
  imports Prelude
begin

text \<open>
  The data model of \<open>src/src/kv.rs\<close>: versioned keys (\<open>KeyTs\<close>, owned, and
  \<open>KeyTsBorrow\<close>, a byte slice whose last eight bytes are the version), the metadata
  bits \<open>Meta\<close>, values (\<open>ValueMeta\<close>), pointers into the value log (\<open>ValuePointer\<close>) and
  \<open>Entry\<close>. A \<open>TxnTs\<close> and a \<open>PhyTs\<close> are their \<open>u64\<close>; a \<open>usize\<close> length is a \<open>nat\<close>.
  The variable-length integer codec of the \<open>integer-encoding\<close> crate is a parameter
  (\<open>enc\<close>, \<open>dec\<close>) of the definitions that use it; \<open>required_space\<close> of that crate is by its
  documentation the length of the encoding.
  The lemmas show the order on keys to be linear with newer versions first, the byte-level
  comparison to agree with it on encoded keys, and the encodings to be invertible.
\<close>

unbundle bit_operations_syntax

section \<open>Versioned keys\<close>

datatype key_ts = KeyTs (kt_key: bytes) (kt_txn_ts: u64)

definition KeyTs_default :: key_ts where "KeyTs_default = KeyTs [] 0"

definition KeyTs_cmp :: "key_ts \<Rightarrow> key_ts \<Rightarrow> ordering" where
  "KeyTs_cmp a b =
     (case compare (kt_key a) (kt_key b) of
        Equal \<Rightarrow> compare (kt_txn_ts b) (kt_txn_ts a)
      | ord \<Rightarrow> ord)"

text \<open>\<open>partial_cmp\<close> is written out beside \<open>cmp\<close>; the operators \<open><\<close> and \<open><=\<close> of the code go through it.\<close>

definition KeyTs_partial_cmp :: "key_ts \<Rightarrow> key_ts \<Rightarrow> ordering option" where
  "KeyTs_partial_cmp a b =
     (case Some (compare (kt_key a) (kt_key b)) of
        Some Equal \<Rightarrow> Some (compare (kt_txn_ts b) (kt_txn_ts a))
      | ord \<Rightarrow> ord)"

definition KeyTs_from :: "bytes \<Rightarrow> key_ts" where
  "KeyTs_from value =
     (let len = length value in
      if len \<le> 8 then KeyTs value 0
      else KeyTs (take (len - 8) value) (word_of_nat (from_be (drop (len - 8) value))))"

definition KeyTs_serialize :: "key_ts \<Rightarrow> bytes" where
  "KeyTs_serialize k = kt_key k @ put_u64 (kt_txn_ts k)"

definition KeyTs_set_key :: "bytes \<Rightarrow> key_ts \<Rightarrow> key_ts" where
  "KeyTs_set_key key k = KeyTs key (kt_txn_ts k)"

definition KeyTs_set_txn_ts :: "u64 \<Rightarrow> key_ts \<Rightarrow> key_ts" where
  "KeyTs_set_txn_ts ts k = KeyTs (kt_key k) ts"

definition KeyTs_len :: "key_ts \<Rightarrow> nat" where
  "KeyTs_len k = length (kt_key k) + 8"

definition KeyTs_is_empty :: "key_ts \<Rightarrow> bool" where
  "KeyTs_is_empty k \<longleftrightarrow> k = KeyTs_default"

lemma KeyTs_is_empty_iff: "KeyTs_is_empty k \<longleftrightarrow> kt_key k = [] \<and> kt_txn_ts k = 0"
  by (cases k) (auto simp: KeyTs_is_empty_def KeyTs_default_def)

lemma KeyTs_partial_cmp_total: "KeyTs_partial_cmp a b = Some (KeyTs_cmp a b)"
  by (auto simp: KeyTs_partial_cmp_def KeyTs_cmp_def split: ordering.split)

lemma KeyTs_cmp_Less:
  "KeyTs_cmp a b = Less \<longleftrightarrow>
     kt_key a < kt_key b \<or> kt_key a = kt_key b \<and> kt_txn_ts b < kt_txn_ts a"
  by (auto simp: KeyTs_cmp_def split: ordering.splits)

lemma KeyTs_cmp_Equal: "KeyTs_cmp a b = Equal \<longleftrightarrow> a = b"
  by (cases a; cases b) (auto simp: KeyTs_cmp_def split: ordering.splits)

lemma KeyTs_cmp_Greater: "KeyTs_cmp a b = Greater \<longleftrightarrow> KeyTs_cmp b a = Less"
  unfolding KeyTs_cmp_Less by (auto simp: KeyTs_cmp_def split: ordering.splits)

text \<open>The order of \<open>KeyTs\<close> makes it a linear order: by key, newest version first.\<close>

instantiation key_ts :: linorder
begin

definition less_eq_key_ts :: "key_ts \<Rightarrow> key_ts \<Rightarrow> bool" where
  "less_eq_key_ts a b \<longleftrightarrow> KeyTs_partial_cmp a b \<in> {Some Less, Some Equal}"

definition less_key_ts :: "key_ts \<Rightarrow> key_ts \<Rightarrow> bool" where
  "less_key_ts a b \<longleftrightarrow> KeyTs_partial_cmp a b = Some Less"

lemma less_eq_key_ts_iff:
  "a \<le> b \<longleftrightarrow> kt_key a < kt_key b \<or> kt_key a = kt_key b \<and> kt_txn_ts b \<le> kt_txn_ts a"
  for a b :: key_ts
  unfolding less_eq_key_ts_def KeyTs_partial_cmp_total by (auto simp: KeyTs_cmp_Less KeyTs_cmp_Equal intro: key_ts.expand)

instance
proof
  fix x y z :: key_ts
  show "x < y \<longleftrightarrow> x \<le> y \<and> \<not> y \<le> x"
    unfolding less_key_ts_def KeyTs_partial_cmp_total less_eq_key_ts_iff by (auto simp: KeyTs_cmp_Less)
  show "x \<le> x" unfolding less_eq_key_ts_iff by simp
  show "x \<le> z" if "x \<le> y" "y \<le> z" using that unfolding less_eq_key_ts_iff by auto
  show "x = y" if "x \<le> y" "y \<le> x"
    using that unfolding less_eq_key_ts_iff by (intro key_ts.expand) auto
  show "x \<le> y \<or> y \<le> x" unfolding less_eq_key_ts_iff by auto
qed

end

lemma less_key_ts_iff:
  "a < b \<longleftrightarrow> kt_key a < kt_key b \<or> kt_key a = kt_key b \<and> kt_txn_ts b < kt_txn_ts a"
  for a b :: key_ts
  unfolding less_key_ts_def KeyTs_partial_cmp_total by (simp add: KeyTs_cmp_Less)

lemma KeyTs_cmp_compare: "KeyTs_cmp a b = compare a b"
proof -
  consider "a < b" | "a = b" | "b < a" by fastforce
  then show ?thesis
    by cases (auto simp: less_key_ts_def KeyTs_partial_cmp_total KeyTs_cmp_Equal KeyTs_cmp_Greater compare_def)
qed

section \<open>Borrowed keys: byte slices\<close>

type_synonym key_ts_borrow = bytes

definition KeyTsBorrow_key :: "key_ts_borrow \<Rightarrow> bytes" where
  "KeyTsBorrow_key b = (if length b \<ge> 8 then take (length b - 8) b else b)"

definition KeyTsBorrow_txn_ts :: "key_ts_borrow \<Rightarrow> u64" where
  "KeyTsBorrow_txn_ts b =
     (if length b \<ge> 8 then word_of_nat (from_be (drop (length b - 8) b)) else 0)"

definition KeyTsBorrow_is_empty :: "key_ts_borrow \<Rightarrow> bool" where
  "KeyTsBorrow_is_empty b \<longleftrightarrow> KeyTsBorrow_key b = []"

text \<open>
  \<open>partial_cmp\<close> on two borrowed keys subtracts 8 from both lengths first: a slice shorter
  than eight bytes panics (\<open>None\<close>).
\<close>

definition KeyTsBorrow_partial_cmp :: "key_ts_borrow \<Rightarrow> key_ts_borrow \<Rightarrow> ordering option" where
  "KeyTsBorrow_partial_cmp a b =
     (if length a < 8 \<or> length b < 8 then None
      else let a_split = length a - 8; b_split = length b - 8 in
        Some (case compare (take a_split a) (take b_split b) of
                Equal \<Rightarrow> compare (drop b_split b) (drop a_split a)
              | ord \<Rightarrow> ord))"

definition KeyTsBorrow_cmp :: "bytes \<Rightarrow> bytes \<Rightarrow> ordering" where
  "KeyTsBorrow_cmp left right =
     (if length left > 8 \<and> length right > 8 then
        let left_split = length left - 8; right_split = length right - 8 in
        case compare (take left_split left) (take right_split right) of
          Equal \<Rightarrow> compare (drop right_split right) (drop left_split left)
        | ord \<Rightarrow> ord
      else compare left right)"

definition KeyTsBorrow_equal_key :: "bytes \<Rightarrow> bytes \<Rightarrow> bool" where
  "KeyTsBorrow_equal_key left right =
     (if length left > 8 \<and> length right > 8
      then take (length left - 8) left = take (length right - 8) right
      else left = right)"

text \<open>Comparing an owned with a borrowed key goes through the borrowed key's parts.\<close>

definition KeyTs_partial_cmp_borrow :: "key_ts \<Rightarrow> key_ts_borrow \<Rightarrow> ordering" where
  "KeyTs_partial_cmp_borrow a b =
     (case compare (kt_key a) (KeyTsBorrow_key b) of
        Equal \<Rightarrow> compare (KeyTsBorrow_txn_ts b) (kt_txn_ts a)
      | ord \<Rightarrow> ord)"

definition KeyTsBorrow_partial_cmp_owned :: "key_ts_borrow \<Rightarrow> key_ts \<Rightarrow> ordering" where
  "KeyTsBorrow_partial_cmp_owned a b =
     (case compare (KeyTsBorrow_key a) (kt_key b) of
        Equal \<Rightarrow> compare (kt_txn_ts b) (KeyTsBorrow_txn_ts a)
      | ord \<Rightarrow> ord)"

definition KeyTs_from_borrow :: "key_ts_borrow \<Rightarrow> key_ts" where
  "KeyTs_from_borrow b = KeyTs (KeyTsBorrow_key b) (KeyTsBorrow_txn_ts b)"

lemma length_serialize [simp]: "length (KeyTs_serialize k) = length (kt_key k) + 8"
  by (simp add: KeyTs_serialize_def)

lemma serialize_parts [codec, simp]:
  "KeyTsBorrow_key (KeyTs_serialize k) = kt_key k"
  "KeyTsBorrow_txn_ts (KeyTs_serialize k) = kt_txn_ts k"
  by (simp_all add: KeyTsBorrow_key_def KeyTsBorrow_txn_ts_def KeyTs_serialize_def codec)

lemma serialize_inj [simp]: "KeyTs_serialize a = KeyTs_serialize b \<longleftrightarrow> a = b"
  by (metis serialize_parts key_ts.expand)

lemma KeyTs_from_serialize: "kt_key k \<noteq> [] \<Longrightarrow> KeyTs_from (KeyTs_serialize k) = k"
  by (cases k) (simp add: KeyTs_from_def KeyTs_serialize_def codec)

lemma serialize_from_borrow: "KeyTs_from_borrow (KeyTs_serialize k) = k"
  by (simp add: KeyTs_from_borrow_def)

lemma KeyTsBorrow_cmp_serialize:
  assumes "kt_key a \<noteq> []" "kt_key b \<noteq> []"
  shows "KeyTsBorrow_cmp (KeyTs_serialize a) (KeyTs_serialize b) = compare a b"
proof -
  from assms have "length (KeyTs_serialize a) > 8" "length (KeyTs_serialize b) > 8" by simp_all
  then have "KeyTsBorrow_cmp (KeyTs_serialize a) (KeyTs_serialize b) = KeyTs_cmp a b"
    by (auto simp: KeyTsBorrow_cmp_def KeyTs_cmp_def KeyTs_serialize_def codec
        split: ordering.split)
  then show ?thesis by (simp add: KeyTs_cmp_compare)
qed

lemma KeyTs_partial_cmp_borrow_serialize:
  "KeyTs_partial_cmp_borrow a (KeyTs_serialize b) = compare a b"
  by (auto simp: KeyTs_partial_cmp_borrow_def KeyTs_cmp_compare [symmetric] KeyTs_cmp_def
      split: ordering.split)

lemma equal_key_serialize:
  assumes "kt_key a \<noteq> []" "kt_key b \<noteq> []"
  shows "KeyTsBorrow_equal_key (KeyTs_serialize a) (KeyTs_serialize b) \<longleftrightarrow> kt_key a = kt_key b"
  using assms by (simp add: KeyTsBorrow_equal_key_def KeyTs_serialize_def)

section \<open>Metadata bits\<close>

type_synonym meta = byte

definition DELETE :: meta where "DELETE = push_bit 0 1"
definition VALUE_POINTER :: meta where "VALUE_POINTER = push_bit 1 1"
definition DISCARD_EARLIER_VERSIONS :: meta where "DISCARD_EARLIER_VERSIONS = push_bit 2 1"
definition MERGE_ENTRY :: meta where "MERGE_ENTRY = push_bit 3 1"
definition TXN :: meta where "TXN = push_bit 6 1"
definition FIN_TXN :: meta where "FIN_TXN = push_bit 7 1"

lemmas meta_flags = DELETE_def VALUE_POINTER_def DISCARD_EARLIER_VERSIONS_def MERGE_ENTRY_def
  TXN_def FIN_TXN_def

text \<open>The operations that \<open>bitflags!\<close> generates for \<open>Meta\<close>.\<close>

definition meta_contains :: "meta \<Rightarrow> meta \<Rightarrow> bool" where
  "meta_contains m flag \<longleftrightarrow> m AND flag = flag"
definition meta_insert :: "meta \<Rightarrow> meta \<Rightarrow> meta" where "meta_insert m flag = m OR flag"
definition meta_remove :: "meta \<Rightarrow> meta \<Rightarrow> meta" where "meta_remove m flag = m AND NOT flag"
definition meta_is_empty :: "meta \<Rightarrow> bool" where "meta_is_empty m \<longleftrightarrow> m = 0"

lemmas meta_ops = meta_contains_def meta_insert_def meta_remove_def meta_is_empty_def

lemma meta_contains_insert [simp]: "meta_contains (meta_insert m f) f"
  unfolding meta_ops by (auto simp: bit_eq_iff bit_simps)

lemma meta_contains_insert_other:
  "f AND g = 0 \<Longrightarrow> meta_contains (meta_insert m g) f = meta_contains m f"
  unfolding meta_ops by (auto simp: bit_eq_iff bit_simps)

section \<open>Values\<close>

record value_meta =
  vm_value :: bytes
  vm_expires_at :: u64
  vm_user_meta :: byte
  vm_meta :: meta

definition ValueMeta_default :: value_meta where
  "ValueMeta_default = \<lparr>vm_value = [], vm_expires_at = 0, vm_user_meta = 0, vm_meta = 0\<rparr>"

type_synonym var_enc = "u64 \<Rightarrow> bytes"
type_synonym var_dec = "bytes \<Rightarrow> (u64 \<times> nat) option"

definition ValueMeta_serialized_size :: "var_enc \<Rightarrow> value_meta \<Rightarrow> nat" where
  "ValueMeta_serialized_size enc v = 2 + length (enc (vm_expires_at v)) + length (vm_value v)"

definition ValueMeta_serialize :: "var_enc \<Rightarrow> value_meta \<Rightarrow> bytes" where
  "ValueMeta_serialize enc v =
     vm_user_meta v # vm_meta v # enc (vm_expires_at v) @ vm_value v"

definition VALUEMETA_MIN_SERIALIZED_SIZE :: "var_enc \<Rightarrow> nat" where
  "VALUEMETA_MIN_SERIALIZED_SIZE enc = ValueMeta_serialized_size enc ValueMeta_default"

definition ValueMeta_deserialize :: "var_enc \<Rightarrow> var_dec \<Rightarrow> bytes \<Rightarrow> value_meta option" where
  "ValueMeta_deserialize enc dec data =
     (if length data < VALUEMETA_MIN_SERIALIZED_SIZE enc then None
      else case dec (drop 2 data) of
        Some (expires_at, sz) \<Rightarrow>
          Some \<lparr>vm_value = drop (2 + sz) data, vm_expires_at = expires_at,
                vm_user_meta = data ! 0, vm_meta = data ! 1\<rparr>
      | None \<Rightarrow> None)"

definition ValueMeta_is_deleted_or_expired :: "u64 \<Rightarrow> value_meta \<Rightarrow> bool" where
  "ValueMeta_is_deleted_or_expired now v =
     (if meta_contains (vm_meta v) DELETE then True
      else if vm_expires_at v = 0 then False
      else vm_expires_at v \<le> now)"

text \<open>
  What the code relies on from the variable-length integers: a decoder reads back what was
  encoded and its length, whatever follows, and zero has a shortest encoding.
\<close>

definition varint_laws :: "var_enc \<Rightarrow> var_dec \<Rightarrow> bool" where
  "varint_laws enc dec \<longleftrightarrow>
     (\<forall>x rest. dec (enc x @ rest) = Some (x, length (enc x))) \<and>
     (\<forall>x. length (enc 0) \<le> length (enc x))"

lemma ValueMeta_serialized_size_length:
  "length (ValueMeta_serialize enc v) = ValueMeta_serialized_size enc v"
  by (simp add: ValueMeta_serialize_def ValueMeta_serialized_size_def)

lemma ValueMeta_deserialize_serialize:
  assumes "varint_laws enc dec"
  shows "ValueMeta_deserialize enc dec (ValueMeta_serialize enc v) = Some v"
proof -
  from assms have len: "length (enc 0) \<le> length (enc (vm_expires_at v))"
    and rd: "dec (enc (vm_expires_at v) @ vm_value v)
               = Some (vm_expires_at v, length (enc (vm_expires_at v)))"
    by (auto simp: varint_laws_def)
  from len have "\<not> length (ValueMeta_serialize enc v) < VALUEMETA_MIN_SERIALIZED_SIZE enc"
    by (simp add: ValueMeta_serialize_def VALUEMETA_MIN_SERIALIZED_SIZE_def
        ValueMeta_serialized_size_def ValueMeta_default_def)
  then show ?thesis
    using rd by (simp add: ValueMeta_deserialize_def ValueMeta_serialize_def)
qed

section \<open>Value pointers\<close>

record value_pointer =
  vp_fid :: u32
  vp_len :: u32
  vp_offset :: u32

definition ValuePointer_default :: value_pointer where
  "ValuePointer_default = \<lparr>vp_fid = 0, vp_len = 0, vp_offset = 0\<rparr>"

definition ValuePointer_new :: "u32 \<Rightarrow> nat \<Rightarrow> nat \<Rightarrow> value_pointer" where
  "ValuePointer_new fid len offset =
     \<lparr>vp_fid = fid, vp_len = word_of_nat len, vp_offset = word_of_nat offset\<rparr>"

definition ValuePointer_is_empty :: "value_pointer \<Rightarrow> bool" where
  "ValuePointer_is_empty p \<longleftrightarrow> p = ValuePointer_default"

definition ValuePointer_serialize :: "value_pointer \<Rightarrow> bytes" where
  "ValuePointer_serialize p = put_u32 (vp_fid p) @ put_u32 (vp_len p) @ put_u32 (vp_offset p)"

definition ValuePointer_deserialize :: "bytes \<Rightarrow> value_pointer option" where
  "ValuePointer_deserialize bytes =
     (case get_u32 bytes of None \<Rightarrow> None | Some (fid, p) \<Rightarrow>
      (case get_u32 p of None \<Rightarrow> None | Some (len, p) \<Rightarrow>
       (case get_u32 p of None \<Rightarrow> None | Some (offset, _) \<Rightarrow>
          Some \<lparr>vp_fid = fid, vp_len = len, vp_offset = offset\<rparr>)))"

section \<open>Entries\<close>

record entry =
  e_key_ts :: key_ts
  e_value_meta :: value_meta
  e_offset :: nat
  e_header_len :: nat
  e_value_threshold :: nat

definition Entry_default :: entry where
  "Entry_default = \<lparr>e_key_ts = KeyTs_default, e_value_meta = ValueMeta_default, e_offset = 0,
     e_header_len = 0, e_value_threshold = 0\<rparr>"

definition Entry_new :: "bytes \<Rightarrow> bytes \<Rightarrow> entry" where
  "Entry_new key value =
     \<lparr>e_key_ts = KeyTs key 0,
      e_value_meta = \<lparr>vm_value = value, vm_expires_at = 0, vm_user_meta = 0, vm_meta = 0\<rparr>,
      e_offset = 0, e_header_len = 0, e_value_threshold = 0\<rparr>"

abbreviation Entry_key :: "entry \<Rightarrow> bytes" where "Entry_key e \<equiv> kt_key (e_key_ts e)"
abbreviation Entry_value :: "entry \<Rightarrow> bytes" where "Entry_value e \<equiv> vm_value (e_value_meta e)"
abbreviation Entry_version :: "entry \<Rightarrow> u64" where "Entry_version e \<equiv> kt_txn_ts (e_key_ts e)"
abbreviation Entry_meta :: "entry \<Rightarrow> meta" where "Entry_meta e \<equiv> vm_meta (e_value_meta e)"

definition Entry_set_key :: "bytes \<Rightarrow> entry \<Rightarrow> entry" where
  "Entry_set_key key e = e\<lparr>e_key_ts := KeyTs_set_key key (e_key_ts e)\<rparr>"
definition Entry_set_value :: "bytes \<Rightarrow> entry \<Rightarrow> entry" where
  "Entry_set_value v e = e\<lparr>e_value_meta := (e_value_meta e)\<lparr>vm_value := v\<rparr>\<rparr>"
definition Entry_set_meta :: "meta \<Rightarrow> entry \<Rightarrow> entry" where
  "Entry_set_meta m e = e\<lparr>e_value_meta := (e_value_meta e)\<lparr>vm_meta := m\<rparr>\<rparr>"
definition Entry_set_version :: "u64 \<Rightarrow> entry \<Rightarrow> entry" where
  "Entry_set_version ts e = e\<lparr>e_key_ts := KeyTs_set_txn_ts ts (e_key_ts e)\<rparr>"

definition Entry_estimate_size :: "entry \<Rightarrow> nat \<Rightarrow> nat" where
  "Entry_estimate_size e threshold =
     (if length (Entry_value e) < threshold
      then length (Entry_key e) + length (Entry_value e) + 2
      else length (Entry_key e) + 12 + 2)"

definition Entry_try_set_value_threshold :: "nat \<Rightarrow> entry \<Rightarrow> entry" where
  "Entry_try_set_value_threshold threshold e =
     (if e_value_threshold e = 0 then e\<lparr>e_value_threshold := threshold\<rparr> else e)"

text \<open>
  \<open>Entry::new_ts\<close> builds the entry of a log record. It takes the record's header and does
  not use it: the metadata, the expiry and the user byte of the result are the defaults.
\<close>

definition Entry_new_ts :: "bytes \<Rightarrow> bytes \<Rightarrow> 'header \<Rightarrow> nat \<Rightarrow> nat \<Rightarrow> entry" where
  "Entry_new_ts key_ts value header offset header_len =
     \<lparr>e_key_ts = KeyTs_from key_ts,
      e_value_meta = \<lparr>vm_value = value, vm_expires_at = 0, vm_user_meta = 0, vm_meta = 0\<rparr>,
      e_offset = offset, e_header_len = header_len, e_value_threshold = 0\<rparr>"

definition Entry_is_deleted :: "entry \<Rightarrow> bool" where
  "Entry_is_deleted e \<longleftrightarrow> meta_contains (Entry_meta e) DELETE"

definition Entry_is_expired :: "u64 \<Rightarrow> entry \<Rightarrow> bool" where
  "Entry_is_expired now e =
     (if vm_expires_at (e_value_meta e) = 0 then False else vm_expires_at (e_value_meta e) \<le> now)"

lemma Entry_set_simps [simp]:
  "Entry_key (Entry_set_key key e) = key"
  "Entry_version (Entry_set_key key e) = Entry_version e"
  "Entry_meta (Entry_set_key key e) = Entry_meta e"
  "Entry_value (Entry_set_key key e) = Entry_value e"
  "Entry_key (Entry_set_value v e) = Entry_key e"
  "Entry_version (Entry_set_value v e) = Entry_version e"
  "Entry_value (Entry_set_value v e) = v"
  "Entry_key (Entry_set_meta m e) = Entry_key e"
  "Entry_version (Entry_set_meta m e) = Entry_version e"
  "Entry_meta (Entry_set_meta m e) = m"
  "Entry_value (Entry_set_meta m e) = Entry_value e"
  "Entry_key (Entry_set_version ts e) = Entry_key e"
  "Entry_version (Entry_set_version ts e) = ts"
  "Entry_meta (Entry_set_version ts e) = Entry_meta e"
  "Entry_value (Entry_set_version ts e) = Entry_value e"
  "Entry_key (Entry_try_set_value_threshold n e) = Entry_key e"
  "Entry_version (Entry_try_set_value_threshold n e) = Entry_version e"
  "Entry_meta (Entry_try_set_value_threshold n e) = Entry_meta e"
  "Entry_value (Entry_try_set_value_threshold n e) = Entry_value e"
  by (simp_all add: Entry_set_key_def Entry_set_value_def Entry_set_meta_def
      Entry_set_version_def KeyTs_set_key_def KeyTs_set_txn_ts_def
      Entry_try_set_value_threshold_def)

section \<open>A variable-length codec that satisfies the laws\<close>

text \<open>
  Little-endian groups of seven bits, the format \<open>integer-encoding\<close> documents; used to
  show that the hypothesis \<open>varint_laws\<close> can hold.
\<close>

fun leb :: "nat \<Rightarrow> bytes" where
  "leb n = (if n < 128 then [word_of_nat n] else word_of_nat (n mod 128 + 128) # leb (n div 128))"

fun unleb :: "bytes \<Rightarrow> (nat \<times> nat) option" where
  "unleb [] = None"
| "unleb (b # bs) =
     (if unat b < 128 then Some (unat b, 1)
      else case unleb bs of
        None \<Rightarrow> None
      | Some (n, k) \<Rightarrow> Some (unat b - 128 + 128 * n, Suc k))"

declare leb.simps [simp del]

definition leb_enc :: var_enc where "leb_enc w = leb (unat w)"
definition leb_dec :: var_dec where
  "leb_dec bs = map_option (\<lambda>(n, k). (word_of_nat n, k)) (unleb bs)"

lemma unat_byte: "n < 256 \<Longrightarrow> unat (word_of_nat n :: byte) = n"
  by (simp add: unat_of_nat take_bit_eq_mod)

lemma unleb_leb: "unleb (leb n @ r) = Some (n, length (leb n))"
proof (induction n rule: leb.induct)
  case (1 n)
  show ?case
  proof (cases "n < 128")
    case True
    then show ?thesis by (simp add: leb.simps [of n] unat_byte)
  next
    case False
    moreover have "unat (word_of_nat (n mod 128) + 128 :: byte) = n mod 128 + 128"
      using unat_byte [of "n mod 128 + 128"] by simp
    ultimately show ?thesis
      using 1 by (simp add: leb.simps [of n])
  qed
qed

lemma leb_length_pos: "1 \<le> length (leb n)"
  by (subst leb.simps) simp

lemma leb_laws: "varint_laws leb_enc leb_dec"
  using leb_length_pos
  by (auto simp: varint_laws_def leb_enc_def leb_dec_def unleb_leb leb.simps [of 0])

section \<open>Properties\<close>

text \<open>
  encoding a versioned key and decoding it again gives the same key and version,
  for every key that is not the empty string (the only keys a transaction accepts).
\<close>

theorem key_ts_roundtrip:
  assumes "kt_key k \<noteq> []"
  shows "KeyTs_from (KeyTs_serialize k) = k"
  by (rule KeyTs_from_serialize [OF assms])

theorem key_ts_roundtrip_witness:
  "KeyTs_from (KeyTs_serialize (KeyTs [97] 1)) = KeyTs [97] 1"
  by (rule key_ts_roundtrip) simp

text \<open>
  the comparisons on encoded keys (\<open>KeyTsBorrow::cmp\<close>, \<open>partial_cmp\<close> in its three
  shapes, \<open>equal_key\<close>) agree with the order of \<open>KeyTs\<close>: by key bytes, and newest version first.
\<close>

theorem encoded_key_order:
  assumes "kt_key a \<noteq> []" "kt_key b \<noteq> []"
  shows "KeyTsBorrow_cmp (KeyTs_serialize a) (KeyTs_serialize b) = KeyTs_cmp a b
    \<and> KeyTsBorrow_partial_cmp (KeyTs_serialize a) (KeyTs_serialize b) = Some (KeyTs_cmp a b)
    \<and> KeyTs_partial_cmp_borrow a (KeyTs_serialize b) = KeyTs_cmp a b
    \<and> KeyTsBorrow_partial_cmp_owned (KeyTs_serialize a) b = KeyTs_cmp a b
    \<and> (KeyTsBorrow_equal_key (KeyTs_serialize a) (KeyTs_serialize b) \<longleftrightarrow> kt_key a = kt_key b)"
proof (intro conjI)
  show "KeyTsBorrow_cmp (KeyTs_serialize a) (KeyTs_serialize b) = KeyTs_cmp a b"
    using assms by (simp add: KeyTsBorrow_cmp_serialize KeyTs_cmp_compare)
  show "KeyTsBorrow_partial_cmp (KeyTs_serialize a) (KeyTs_serialize b) = Some (KeyTs_cmp a b)"
    by (auto simp: KeyTsBorrow_partial_cmp_def KeyTs_cmp_def KeyTs_serialize_def codec
        split: ordering.split)
  show "KeyTs_partial_cmp_borrow a (KeyTs_serialize b) = KeyTs_cmp a b"
    by (simp add: KeyTs_partial_cmp_borrow_serialize KeyTs_cmp_compare)
  show "KeyTsBorrow_partial_cmp_owned (KeyTs_serialize a) b = KeyTs_cmp a b"
    by (auto simp: KeyTsBorrow_partial_cmp_owned_def KeyTs_cmp_def split: ordering.split)
  show "KeyTsBorrow_equal_key (KeyTs_serialize a) (KeyTs_serialize b) \<longleftrightarrow> kt_key a = kt_key b"
    using assms by (rule equal_key_serialize)
qed

theorem encoded_key_order_witness:
  "KeyTsBorrow_cmp (KeyTs_serialize (KeyTs [97] 1)) (KeyTs_serialize (KeyTs [97] 2)) = Greater"
  using encoded_key_order [of "KeyTs [97] 1" "KeyTs [97] 2"] by (simp add: KeyTs_cmp_def)

text \<open>
  an encoded key whose key part is empty is not read back: \<open>KeyTs::from\<close> takes its eight
  version bytes for the key and the version for zero.
\<close>

theorem key_ts_empty_key_misread:
  "KeyTs_from (KeyTs_serialize (KeyTs [] ts)) = KeyTs (put_u64 ts) 0"
  by (simp add: KeyTs_from_def KeyTs_serialize_def)

text \<open>
  a value with its metadata, user byte and expiry survives \<open>ValueMeta::serialize\<close> and
  \<open>deserialize\<close>, and \<open>serialized_size\<close> is the length of what \<open>serialize\<close> produces.
\<close>

theorem value_meta_roundtrip:
  assumes "varint_laws enc dec"
  shows "ValueMeta_deserialize enc dec (ValueMeta_serialize enc v) = Some v
    \<and> length (ValueMeta_serialize enc v) = ValueMeta_serialized_size enc v"
  using ValueMeta_deserialize_serialize [OF assms] ValueMeta_serialized_size_length by blast

theorem value_meta_roundtrip_witness:
  "ValueMeta_deserialize leb_enc leb_dec (ValueMeta_serialize leb_enc ValueMeta_default)
     = Some ValueMeta_default"
  using value_meta_roundtrip [OF leb_laws, of ValueMeta_default] by blast

text \<open>
  a value pointer survives \<open>serialize\<close> and \<open>deserialize\<close>, whatever bytes follow it; the
  encoding takes twelve bytes, the size \<open>estimate_size\<close> charges for a pointer.
\<close>

theorem value_pointer_roundtrip:
  "ValuePointer_deserialize (ValuePointer_serialize p @ rest) = Some p
    \<and> length (ValuePointer_serialize p) = 12"
  by (cases p) (simp add: ValuePointer_deserialize_def ValuePointer_serialize_def)

end
