(* ===== verification/Arena.thy ===== *)
theory Arena
  imports Prelude
begin

text \<open>
  The bump allocator of \<open>src/src/util/arena.rs\<close>. Addresses are offsets from the
  start of the arena. Byte slices live in \<open>ar_mem\<close>; the fixed-size objects written
  by \<open>alloc_with\<close> live in \<open>ar_nodes\<close> at the offset they were allocated at. An arena
  that is too small panics. The unsafe reads of the source return what was last
  written at the offset.
\<close>

record 'n arena =
  ar_ptr_offset :: nat
  ar_limit :: nat
  ar_mem :: "nat \<Rightarrow> byte"
  ar_nodes :: "nat \<Rightarrow> 'n option"

definition CHUNK_ALIGN :: nat where "CHUNK_ALIGN = 16"
definition DEFAULT_ALIGN :: nat where "DEFAULT_ALIGN = 8"

definition round_up_to :: "nat \<Rightarrow> nat \<Rightarrow> nat option" where
  "round_up_to n divisor =
     (if n + (divisor - 1) < 2 ^ 64 then Some ((n + (divisor - 1)) div divisor * divisor) else None)"

definition alloc_layout :: "nat \<Rightarrow> 'n arena \<Rightarrow> (nat \<times> 'n arena) outcome" where
  "alloc_layout sz ar =
     and_then (unwrap (round_up_to sz DEFAULT_ALIGN)) (\<lambda>alloc_size.
       let old = ar_ptr_offset ar in
       if old + alloc_size > ar_limit ar then Inl Panic
       else Inr (old, ar\<lparr>ar_ptr_offset := old + alloc_size\<rparr>))"

definition alloc_with :: "nat \<Rightarrow> 'n \<Rightarrow> 'n arena \<Rightarrow> (nat \<times> 'n arena) outcome" where
  "alloc_with sz v ar =
     and_then (alloc_layout sz ar) (\<lambda>(p, ar1). Inr (p, ar1\<lparr>ar_nodes := (ar_nodes ar1)(p \<mapsto> v)\<rparr>))"

definition write_mem :: "nat \<Rightarrow> bytes \<Rightarrow> (nat \<Rightarrow> byte) \<Rightarrow> nat \<Rightarrow> byte" where
  "write_mem p src mem a = (if p \<le> a \<and> a < p + length src then src ! (a - p) else mem a)"

definition alloc_slice_copy :: "bytes \<Rightarrow> 'n arena \<Rightarrow> (nat \<times> 'n arena) outcome" where
  "alloc_slice_copy src ar =
     and_then (alloc_layout (length src) ar) (\<lambda>(p, ar1).
       Inr (p, ar1\<lparr>ar_mem := write_mem p src (ar_mem ar1)\<rparr>))"

definition arena_offset :: "nat \<Rightarrow> nat" where
  "arena_offset p = p mod 2 ^ 32"

definition arena_get :: "nat \<Rightarrow> 'n arena \<Rightarrow> 'n option" where
  "arena_get off ar = (if off < 8 then None else ar_nodes ar off)"

definition get_slice :: "nat \<Rightarrow> nat \<Rightarrow> 'n arena \<Rightarrow> bytes option" where
  "get_slice off len ar = (if off < 8 then None else Some (map (ar_mem ar) [off ..< off + len]))"

definition arena_len :: "'n arena \<Rightarrow> nat" where "arena_len ar = ar_ptr_offset ar"

definition Arena_new :: "nat \<Rightarrow> nat \<Rightarrow> 'n arena outcome" where
  "Arena_new page sz =
     and_then (unwrap (round_up_to (sz + 8) CHUNK_ALIGN)) (\<lambda>req.
     and_then (if req \<ge> page then unwrap (round_up_to req page) else Inr req) (\<lambda>request_size.
     if request_size mod CHUNK_ALIGN \<noteq> 0 then Inl Panic
     else let ar = \<lparr>ar_ptr_offset = 0, ar_limit = request_size, ar_mem = (\<lambda>_. 0), ar_nodes = Map.empty\<rparr>
       in and_then (alloc_layout 8 ar) (\<lambda>(_, ar1). Inr ar1)))"

section \<open>Facts\<close>

text \<open>A well-formed arena: the first word is taken and offsets fit in 32 bits.\<close>

definition arena_ok :: "'n arena \<Rightarrow> bool" where
  "arena_ok ar \<longleftrightarrow> 8 \<le> ar_ptr_offset ar \<and> ar_ptr_offset ar mod 8 = 0 \<and>
     ar_ptr_offset ar \<le> ar_limit ar \<and> ar_limit ar < 2 ^ 32"

definition rounded :: "nat \<Rightarrow> nat" where "rounded n = (n + 7) div 8 * 8"

lemma rounded_ge: "n \<le> rounded n" and rounded_mod: "rounded n mod 8 = 0"
  by (simp_all add: rounded_def)

lemma alloc_layout_ok:
  assumes "alloc_layout sz ar = Inr (p, ar')" "arena_ok ar"
  shows "p = ar_ptr_offset ar" "ar' = ar\<lparr>ar_ptr_offset := p + rounded sz\<rparr>" "arena_ok ar'"
  using assms
  by (auto simp: alloc_layout_def round_up_to_def DEFAULT_ALIGN_def arena_ok_def rounded_def Let_def
      unwrap_def and_then_Inr mod_add_eq split: if_splits option.splits)

lemma alloc_layout_total:
  assumes "arena_ok ar" "ar_ptr_offset ar + rounded sz \<le> ar_limit ar"
  shows "alloc_layout sz ar = Inr (ar_ptr_offset ar, ar\<lparr>ar_ptr_offset := ar_ptr_offset ar + rounded sz\<rparr>)"
proof -
  have "sz + 7 < 2 ^ 64"
    using assms rounded_ge [of sz] by (auto simp: arena_ok_def)
  with assms(2) show ?thesis
    by (simp add: alloc_layout_def round_up_to_def DEFAULT_ALIGN_def rounded_def Let_def)
qed

lemma read_written:
  "map (write_mem p src mem) [p ..< p + length src] = src"
  by (rule nth_equalityI) (auto simp: write_mem_def)

lemma read_other:
  "q + n \<le> p \<Longrightarrow> map (write_mem p src mem) [q ..< q + n] = map mem [q ..< q + n]"
  by (auto simp: write_mem_def)

text \<open>Two allocations never overlap: what was readable stays what it was.\<close>

lemma get_slice_alloc:
  assumes "alloc_slice_copy src ar = Inr (p, ar')" "arena_ok ar"
  shows "get_slice p (length src) ar' = Some src"
    and "q + n \<le> ar_ptr_offset ar \<Longrightarrow> get_slice q n ar' = get_slice q n ar"
    and "p = ar_ptr_offset ar" "ar_ptr_offset ar' = p + rounded (length src)" "arena_ok ar'"
      "ar_nodes ar' = ar_nodes ar"
proof -
  from assms(1) obtain ar1 where 1: "alloc_layout (length src) ar = Inr (p, ar1)"
    and ar': "ar' = ar1\<lparr>ar_mem := write_mem p src (ar_mem ar1)\<rparr>"
    by (auto simp: alloc_slice_copy_def and_then_Inr)
  note a = alloc_layout_ok [OF 1 assms(2)]
  show p: "p = ar_ptr_offset ar" and "ar_ptr_offset ar' = p + rounded (length src)" "arena_ok ar'"
    "ar_nodes ar' = ar_nodes ar"
    using a by (auto simp: ar' arena_ok_def)
  show "get_slice p (length src) ar' = Some src"
    using p assms(2) by (simp add: get_slice_def ar' read_written arena_ok_def)
  show "q + n \<le> ar_ptr_offset ar \<Longrightarrow> get_slice q n ar' = get_slice q n ar"
    using p a(2) by (simp add: get_slice_def ar' read_other)
qed

lemma alloc_slice_total:
  assumes "arena_ok ar" "ar_ptr_offset ar + rounded (length src) \<le> ar_limit ar"
  shows "\<exists>ar'. alloc_slice_copy src ar = Inr (ar_ptr_offset ar, ar')"
  using alloc_layout_total [OF assms] by (simp add: alloc_slice_copy_def)

lemma round_up_ge: "0 < d \<Longrightarrow> n \<le> (n + (d - 1)) div d * d" for n d :: nat
proof -
  assume "0 < d"
  then have "(n + (d - 1)) mod d \<le> d - 1" using mod_less_divisor [of d "n + (d - 1)"] by linarith
  then show ?thesis using div_mult_mod_eq [of "n + (d - 1)" d] by linarith
qed

lemma Arena_new_ok:
  assumes "Arena_new page sz = Inr ar" "ar_limit ar < 2 ^ 32" "0 < page"
  shows "arena_ok ar" "ar_ptr_offset ar = 8" "ar_nodes ar = Map.empty" "sz + 8 \<le> ar_limit ar"
proof -
  let ?r = "(sz + 8 + (16 - 1)) div 16 * 16"
  have r: "sz + 8 \<le> ?r" by (rule round_up_ge) simp
  have p: "?r \<le> (?r + (page - 1)) div page * page" by (rule round_up_ge [OF assms(3)])
  have "\<exists>L. ar = \<lparr>ar_ptr_offset = 8, ar_limit = L, ar_mem = (\<lambda>_. 0), ar_nodes = Map.empty\<rparr> \<and>
      8 \<le> L \<and> (L = ?r \<or> L = (?r + (page - 1)) div page * page)"
    using assms(1)
    by (auto simp: Arena_new_def and_then_Inr alloc_layout_def round_up_to_def unwrap_def Let_def
        DEFAULT_ALIGN_def CHUNK_ALIGN_def split: if_splits option.splits)
  then obtain L where "ar = \<lparr>ar_ptr_offset = 8, ar_limit = L, ar_mem = (\<lambda>_. 0), ar_nodes = Map.empty\<rparr>"
      "8 \<le> L" "?r \<le> L"
    using p by (metis order_refl)
  with assms(2) r show "arena_ok ar" "ar_ptr_offset ar = 8" "ar_nodes ar = Map.empty" "sz + 8 \<le> ar_limit ar"
    by (simp_all add: arena_ok_def)
qed

end
