(* ===== verification/Iter.thy ===== *)
theory Iter
  imports Prelude
begin

text \<open>
  The iterator traits of \<open>src/src/iter.rs\<close> as a contract, and the adapter
  \<open>SinkIterRev\<close>. A cursor moves over a finite sequence from both ends: \<open>at c As Ms Bs\<close>
  says that the forward end has passed \<open>As\<close>, the backward end \<open>Bs\<close> (its current item
  first) and that \<open>Ms\<close> lies between them. A step is \<open>None\<close> where the code panics or
  does not return.
\<close>

type_synonym 'c cursor_step = "'c \<Rightarrow> (bool \<times> 'c) option"

locale double_ended_cursor =
  fixes at :: "'c \<Rightarrow> 'x list \<Rightarrow> 'x list \<Rightarrow> 'x list \<Rightarrow> bool"
    and step :: "'c cursor_step"
    and step_back :: "'c cursor_step"
    and item :: "'c \<Rightarrow> 'x option"
    and item_back :: "'c \<Rightarrow> 'x option"
  assumes step_more: "at c As (x # Ms) Bs \<Longrightarrow> \<exists>c'. step c = Some (True, c') \<and> at c' (As @ [x]) Ms Bs"
    and step_end: "at c As [] Bs \<Longrightarrow> As \<noteq> [] \<Longrightarrow> step c = Some (False, c)"
    and step_back_more: "at c As (Ms @ [x]) Bs \<Longrightarrow> \<exists>c'. step_back c = Some (True, c') \<and> at c' As Ms (x # Bs)"
    and step_back_end: "at c As [] Bs \<Longrightarrow> Bs \<noteq> [] \<Longrightarrow> step_back c = Some (False, c)"
    and item_at: "at c (As @ [x]) Ms Bs \<Longrightarrow> item c = Some x"
    and item_back_at: "at c As Ms (x # Bs) \<Longrightarrow> item_back c = Some x"

text \<open>The items a loop \<open>while iter.next()?\<close> sees within \<open>n\<close> rounds.\<close>

primrec collect :: "'c cursor_step \<Rightarrow> ('c \<Rightarrow> 'x option) \<Rightarrow> nat \<Rightarrow> 'c \<Rightarrow> 'x option list" where
  "collect step item 0 c = []"
| "collect step item (Suc n) c =
     (case step c of Some (True, c') \<Rightarrow> item c' # collect step item n c' | _ \<Rightarrow> [])"

context double_ended_cursor
begin

lemma collect_all:
  assumes "at c As Ms Bs" "length Ms \<le> n" "As \<noteq> [] \<or> Ms \<noteq> []"
  shows "collect step item n c = map Some Ms"
  using assms
proof (induction n arbitrary: c As Ms)
  case (Suc n)
  show ?case
  proof (cases Ms)
    case Nil
    then show ?thesis using Suc.prems step_end by simp
  next
    case (Cons x Ms')
    then obtain c' where c': "step c = Some (True, c')" "at c' (As @ [x]) Ms' Bs"
      using step_more Suc.prems(1) by blast
    with Suc.IH [OF c'(2)] Suc.prems Cons item_at [OF c'(2)] show ?thesis by simp
  qed
qed simp

lemma collect_back_all:
  assumes "at c As Ms Bs" "length Ms \<le> n" "Bs \<noteq> [] \<or> Ms \<noteq> []"
  shows "collect step_back item_back n c = map Some (rev Ms)"
  using assms
proof (induction n arbitrary: c Bs Ms)
  case (Suc n)
  show ?case
  proof (cases Ms rule: rev_cases)
    case Nil
    then show ?thesis using Suc.prems step_back_end by simp
  next
    case (snoc Ms' x)
    then obtain c' where c': "step_back c = Some (True, c')" "at c' As Ms' (x # Bs)"
      using step_back_more Suc.prems(1) by blast
    with Suc.IH [OF c'(2)] Suc.prems snoc item_back_at [OF c'(2)] show ?thesis by simp
  qed
qed simp

text \<open>Forward steps followed by backward steps meet without gap or overlap.\<close>

lemma meet_in_the_middle:
  assumes "at c As (Ms @ x # Ns) Bs"
  shows "\<exists>c'. at c' (As @ Ms) (x # Ns) Bs \<and> collect step item (length Ms) c = map Some Ms \<and>
    collect step_back item_back (Suc (length Ns)) c' = map Some (rev (x # Ns))"
  using assms
proof (induction Ms arbitrary: c As)
  case Nil
  have "collect step_back item_back (Suc (length Ns)) c = map Some (rev (x # Ns))"
    using Nil by (intro collect_back_all) auto
  with Nil show ?case by auto
next
  case (Cons m Ms)
  then obtain c' where c': "step c = Some (True, c')" "at c' (As @ [m]) (Ms @ x # Ns) Bs"
    using step_more by fastforce
  from Cons.IH [OF c'(2)] item_at [OF c'(2)] c'(1) show ?case by auto
qed

end

section \<open>Reversing an iterator\<close>

datatype 'c sink_iter_rev = SinkIterRev (rev_iter: 'c)

definition rev_step :: "'c cursor_step \<Rightarrow> 'c sink_iter_rev cursor_step" where
  "rev_step step_back r = map_option (\<lambda>(b, c). (b, SinkIterRev c)) (step_back (rev_iter r))"

definition rev_item :: "('c \<Rightarrow> 'x option) \<Rightarrow> 'c sink_iter_rev \<Rightarrow> 'x option" where
  "rev_item item_back r = item_back (rev_iter r)"

text \<open>A reversed double-ended cursor is a double-ended cursor over the reversed sequence.\<close>

context double_ended_cursor
begin

lemma reversed_cursor:
  "double_ended_cursor (\<lambda>r As Ms Bs. at (rev_iter r) (rev Bs) (rev Ms) (rev As))
    (rev_step step_back) (rev_step step) (rev_item item_back) (rev_item item)"
proof (unfold_locales, goal_cases)
  case (1 c As x Ms Bs)
  then have "at (rev_iter c) (rev Bs) (rev Ms @ [x]) (rev As)" by simp
  from step_back_more [OF this] show ?case by (auto simp: rev_step_def)
next
  case (2 c As Bs)
  then show ?case using step_back_end by (cases c) (auto simp: rev_step_def)
next
  case (3 c As Ms x Bs)
  then have "at (rev_iter c) (rev Bs) (x # rev Ms) (rev As)" by simp
  from step_more [OF this] show ?case by (auto simp: rev_step_def)
next
  case (4 c As Bs)
  then show ?case using step_end by (cases c) (auto simp: rev_step_def)
next
  case (5 c As x Ms Bs)
  then show ?case using item_back_at by (fastforce simp: rev_item_def)
next
  case (6 c As Ms x Bs)
  then show ?case using item_at by (fastforce simp: rev_item_def)
qed

end

end
