(* ===== verification/SkipList.thy ===== *)
theory SkipList
  imports KV Arena Iter
begin

text \<open>
  The skip list of \<open>src/src/util/skip_list.rs\<close> over the arena. A node is addressed by
  its offset, 0 is the null pointer; \<open>head\<close> is the first node allocated. The code
  runs under the write lock of its memtable, so a push is one sequential run: a
  \<open>compare_exchange\<close> compares and stores, and one that finds another value (a race
  with a second writer, where the source searches again) ends the run with the
  failure \<open>contended\<close>, which is shown not to happen. Loops that follow pointers are
  partial functions; that they return is part of what is proved.
\<close>

section \<open>Nodes\<close>

definition SKL_MAX_HEIGHT :: nat where "SKL_MAX_HEIGHT = 20"

definition SKL_MAX_NODE_SIZE :: nat where "SKL_MAX_NODE_SIZE = 104"

record node =
  nd_value_slice :: u64
  nd_key_offset :: nat
  nd_key_len :: nat
  nd_height :: nat
  nd_prev :: nat
  nd_tower :: "nat list"

definition Node_default :: node where
  "Node_default = \<lparr>nd_value_slice = 0, nd_key_offset = 0, nd_key_len = 0, nd_height = 0, nd_prev = 0,
     nd_tower = replicate SKL_MAX_HEIGHT 0\<rparr>"

type_synonym key_cmp = "bytes \<Rightarrow> bytes \<Rightarrow> ordering"

definition upd_node :: "nat \<Rightarrow> (node \<Rightarrow> node) \<Rightarrow> node arena \<Rightarrow> node arena" where
  "upd_node p f ar = (case ar_nodes ar p of None \<Rightarrow> ar
     | Some nd \<Rightarrow> ar\<lparr>ar_nodes := (ar_nodes ar)(p \<mapsto> f nd)\<rparr>)"

definition pack_slice :: "nat \<Rightarrow> nat \<Rightarrow> u64" where
  "pack_slice offset len = push_bit 32 (word_of_nat offset) OR word_of_nat len"

definition value_slice :: "node \<Rightarrow> nat \<times> nat" where
  "value_slice nd = (unat (drop_bit 32 (nd_value_slice nd)) mod 2 ^ 32, unat (nd_value_slice nd) mod 2 ^ 32)"

definition node_set_value :: "nat \<Rightarrow> bytes \<Rightarrow> node arena \<Rightarrow> node arena outcome" where
  "node_set_value p value ar =
     and_then (alloc_slice_copy value ar) (\<lambda>(vp, ar1).
       Inr (upd_node p (\<lambda>nd. nd\<lparr>nd_value_slice := pack_slice (arena_offset vp) (length value)\<rparr>) ar1))"

definition Node_new :: "bytes \<Rightarrow> bytes \<Rightarrow> nat \<Rightarrow> node arena \<Rightarrow> (nat \<times> node arena) outcome" where
  "Node_new key value height ar =
     and_then (alloc_with SKL_MAX_NODE_SIZE Node_default ar) (\<lambda>(p, ar1).
     and_then (alloc_slice_copy key ar1) (\<lambda>(key_p, ar2).
     and_then (node_set_value p value
       (upd_node p (\<lambda>nd. nd\<lparr>nd_key_offset := arena_offset key_p, nd_key_len := length key mod 2 ^ 16,
          nd_height := height mod 2 ^ 16, nd_prev := 8\<rparr>) ar2)) (\<lambda>ar3.
     Inr (p, ar3))))"

definition get_key :: "node \<Rightarrow> node arena \<Rightarrow> bytes option" where
  "get_key nd ar = get_slice (nd_key_offset nd) (nd_key_len nd) ar"

definition get_value :: "node \<Rightarrow> node arena \<Rightarrow> bytes option" where
  "get_value nd ar = (case value_slice nd of (offset, len) \<Rightarrow> get_slice offset len ar)"

text \<open>Following a pointer of the tower (a level below \<open>SKL_MAX_HEIGHT\<close>) or back.\<close>

definition node_next :: "node \<Rightarrow> nat \<Rightarrow> node arena \<Rightarrow> (nat \<times> node) option" where
  "node_next nd level ar = map_option (Pair (nd_tower nd ! level)) (arena_get (nd_tower nd ! level) ar)"

definition node_prev :: "node \<Rightarrow> node arena \<Rightarrow> (nat \<times> node) option" where
  "node_prev nd ar = map_option (Pair (nd_prev nd)) (arena_get (nd_prev nd) ar)"

section \<open>The list\<close>

record skip_list =
  sk_height :: nat
  sk_head :: nat
  sk_arena :: "node arena"

definition SkipList_new :: "nat \<Rightarrow> nat \<Rightarrow> skip_list outcome" where
  "SkipList_new page arena_size =
     and_then (Arena_new page arena_size) (\<lambda>ar.
     and_then (alloc_with SKL_MAX_NODE_SIZE Node_default ar) (\<lambda>(head, ar1).
     Inr \<lparr>sk_height = 1, sk_head = head,
          sk_arena = upd_node head (\<lambda>nd. nd\<lparr>nd_height := SKL_MAX_HEIGHT\<rparr>) ar1\<rparr>))"

definition mem_size :: "skip_list \<Rightarrow> nat" where "mem_size sk = arena_len (sk_arena sk)"

partial_function (option) find_splice_for_level ::
  "key_cmp \<Rightarrow> node arena \<Rightarrow> bytes \<Rightarrow> nat \<Rightarrow> nat \<Rightarrow> (nat \<times> nat) option" where
  "find_splice_for_level cmp ar key before_ptr h =
     (case ar_nodes ar before_ptr of None \<Rightarrow> Some (before_ptr, 0) | Some b \<Rightarrow>
      (case node_next b h ar of None \<Rightarrow> Some (before_ptr, 0) | Some (nx, nd) \<Rightarrow>
       (case get_key nd ar of None \<Rightarrow> Some (before_ptr, 0) | Some next_key \<Rightarrow>
        (case cmp key next_key of
           Less \<Rightarrow> Some (before_ptr, nx)
         | Equal \<Rightarrow> Some (nx, nx)
         | Greater \<Rightarrow> find_splice_for_level cmp ar key nx h))))"

text \<open>The loop of \<open>random_height\<close>; \<open>coins\<close> are the results of \<open>gen_ratio\<close>.\<close>

fun random_height_loop :: "nat \<Rightarrow> bool list \<Rightarrow> nat" where
  "random_height_loop h (c # cs) = (if h < SKL_MAX_HEIGHT \<and> c then random_height_loop (h + 1) cs else h)"
| "random_height_loop h [] = h"

definition random_height :: "bool list \<Rightarrow> nat" where "random_height coins = random_height_loop 1 coins"

definition try_set_value :: "nat \<Rightarrow> bytes \<Rightarrow> skip_list \<Rightarrow> skip_list outcome" where
  "try_set_value ptr value sk =
     (case ar_nodes (sk_arena sk) ptr of
        None \<Rightarrow> Inl Panic
      | Some nd \<Rightarrow>
          if get_value nd (sk_arena sk) = Some value then Inr sk
          else and_then (node_set_value ptr value (sk_arena sk)) (\<lambda>ar. Inr (sk\<lparr>sk_arena := ar\<rparr>)))"

text \<open>The first loop of \<open>push\<close>: \<open>Inl p\<close> when the key is already at node \<open>p\<close>.\<close>

fun find_splices ::
  "key_cmp \<Rightarrow> node arena \<Rightarrow> bytes \<Rightarrow> nat \<Rightarrow> nat list \<Rightarrow> nat list \<Rightarrow> (nat + nat list \<times> nat list) option" where
  "find_splices cmp ar key 0 prev nxt = Some (Inr (prev, nxt))"
| "find_splices cmp ar key (Suc h) prev nxt =
     (case find_splice_for_level cmp ar key (prev ! Suc h) h of
        None \<Rightarrow> None
      | Some (p, n) \<Rightarrow> if p = n then Some (Inl p)
                      else find_splices cmp ar key h (prev[h := p]) (nxt[h := n]))"

definition contended :: failure where "contended = Anyhow ''compare_exchange lost a race''"

definition store_tower :: "nat \<Rightarrow> nat \<Rightarrow> nat \<Rightarrow> node arena \<Rightarrow> node arena" where
  "store_tower p h off = upd_node p (\<lambda>nd. nd\<lparr>nd_tower := (nd_tower nd)[h := off]\<rparr>)"

text \<open>One level of the second loop: link \<open>node\<close> between \<open>p\<close> and \<open>n\<close>.\<close>

definition link_level :: "nat \<Rightarrow> nat \<Rightarrow> nat \<Rightarrow> nat \<Rightarrow> nat \<Rightarrow> node arena \<Rightarrow> node arena outcome" where
  "link_level head node h p n ar =
     (let next_offset = arena_offset n;
          ar1 = store_tower node h next_offset ar;
          prev_offset = (if p = 0 then arena_offset head else arena_offset p)
      in and_then
        (if h = 0 then
           let ar2 = upd_node node (\<lambda>nd. nd\<lparr>nd_prev := prev_offset\<rparr>) ar1 in
           if n \<noteq> 0 then
             (case ar_nodes ar2 n of None \<Rightarrow> Inl Panic | Some nx \<Rightarrow>
                if nd_prev nx = prev_offset
                then Inr (upd_node n (\<lambda>nd. nd\<lparr>nd_prev := arena_offset node\<rparr>) ar2)
                else Inl contended)
           else Inr ar2
         else Inr ar1)
        (\<lambda>ar3. case ar_nodes ar3 p of None \<Rightarrow> Inl Panic | Some pn \<Rightarrow>
           if nd_tower pn ! h = next_offset then Inr (store_tower p h (arena_offset node) ar3)
           else Inl contended))"

fun link_levels ::
  "key_cmp \<Rightarrow> nat \<Rightarrow> bytes \<Rightarrow> nat \<Rightarrow> nat list \<Rightarrow> nat list \<Rightarrow> nat list \<Rightarrow> node arena
    \<Rightarrow> node arena outcome option" where
  "link_levels cmp head key node prev nxt [] ar = Some (Inr ar)"
| "link_levels cmp head key node prev nxt (h # hs) ar =
     (case (if prev ! h \<noteq> 0 then Some (Inr (prev ! h, nxt ! h))
            else if \<not> h > 1 then Some (Inl Panic)
            else (case find_splice_for_level cmp ar key head h of
                    None \<Rightarrow> None
                  | Some (p, n) \<Rightarrow> Some (if p = n then Inl Panic else Inr (p, n)))) of
        None \<Rightarrow> None
      | Some (Inl e) \<Rightarrow> Some (Inl e)
      | Some (Inr (p, n)) \<Rightarrow>
          (case link_level head node h p n ar of
             Inl e \<Rightarrow> Some (Inl e)
           | Inr ar' \<Rightarrow> link_levels cmp head key node prev nxt hs ar'))"

definition skl_push :: "key_cmp \<Rightarrow> bool list \<Rightarrow> bytes \<Rightarrow> bytes \<Rightarrow> skip_list \<Rightarrow> skip_list outcome option" where
  "skl_push cmp coins key value sk =
     (let null = replicate (SKL_MAX_HEIGHT + 1) 0 in
      case find_splices cmp (sk_arena sk) key (sk_height sk) (null[sk_height sk := sk_head sk]) null of
        None \<Rightarrow> None
      | Some (Inl p) \<Rightarrow> Some (try_set_value p value sk)
      | Some (Inr (prev, nxt)) \<Rightarrow>
          (case Node_new key value (random_height coins) (sk_arena sk) of
             Inl e \<Rightarrow> Some (Inl e)
           | Inr (node, ar) \<Rightarrow>
               (case link_levels cmp (sk_head sk) key node prev nxt [0 ..< random_height coins] ar of
                  None \<Rightarrow> None
                | Some (Inl e) \<Rightarrow> Some (Inl e)
                | Some (Inr ar') \<Rightarrow>
                    Some (Inr (sk\<lparr>sk_height := max (sk_height sk) (random_height coins),
                                  sk_arena := ar'\<rparr>)))))"

section \<open>Searching\<close>

partial_function (option) find_or_near_from ::
  "key_cmp \<Rightarrow> node arena \<Rightarrow> bytes \<Rightarrow> bool \<Rightarrow> node \<Rightarrow> nat \<Rightarrow> (nat \<times> node) option outcome option" where
  "find_or_near_from cmp ar key allow_near nd level =
     (case node_next nd level ar of
        Some (nx, next) \<Rightarrow>
          (case get_key next ar of None \<Rightarrow> Some (Inl Panic) | Some next_key \<Rightarrow>
           (case cmp key next_key of
              Less \<Rightarrow> if level > 0 then find_or_near_from cmp ar key allow_near nd (level - 1)
                      else if allow_near then Some (Inr (Some (nx, next)))
                      else Some (Inr None)
            | Equal \<Rightarrow> Some (Inr (Some (nx, next)))
            | Greater \<Rightarrow> find_or_near_from cmp ar key allow_near next level))
      | None \<Rightarrow> if level > 0 then find_or_near_from cmp ar key allow_near nd (level - 1)
                else Some (Inr None))"

partial_function (option) find_next_from ::
  "key_cmp \<Rightarrow> node arena \<Rightarrow> bytes \<Rightarrow> node \<Rightarrow> nat \<Rightarrow> (nat \<times> node) option outcome option" where
  "find_next_from cmp ar key nd level =
     (case node_next nd level ar of
        Some (nx, next) \<Rightarrow>
          (case get_key next ar of None \<Rightarrow> Some (Inl Panic) | Some next_key \<Rightarrow>
           (case cmp key next_key of
              Less \<Rightarrow> if level > 0 then find_next_from cmp ar key nd (level - 1)
                      else Some (Inr (Some (nx, next)))
            | Equal \<Rightarrow> Some (Inr (node_next next 0 ar))
            | Greater \<Rightarrow> find_next_from cmp ar key next level))
      | None \<Rightarrow> if level > 0 then find_next_from cmp ar key nd (level - 1)
                else Some (Inr None))"

text \<open>\<open>p\<close> is the address of \<open>nd\<close>, compared with the head's at the end.\<close>

partial_function (option) find_prev_from ::
  "key_cmp \<Rightarrow> nat \<Rightarrow> node arena \<Rightarrow> bytes \<Rightarrow> nat \<Rightarrow> node \<Rightarrow> nat \<Rightarrow> (nat \<times> node) option outcome option" where
  "find_prev_from cmp head ar key p nd level =
     (case node_next nd level ar of
        Some (nx, next) \<Rightarrow>
          (case get_key next ar of None \<Rightarrow> Some (Inl Panic) | Some next_key \<Rightarrow>
             if cmp key next_key = Greater then find_prev_from cmp head ar key nx next level
             else if level > 0 then find_prev_from cmp head ar key p nd (level - 1)
             else Some (Inr (if p = head then None else Some (p, nd))))
      | None \<Rightarrow> if level > 0 then find_prev_from cmp head ar key p nd (level - 1)
                else Some (Inr (if p = head then None else Some (p, nd))))"

partial_function (option) find_last_from :: "node arena \<Rightarrow> nat \<Rightarrow> node \<Rightarrow> nat \<Rightarrow> (nat \<times> node) option" where
  "find_last_from ar p nd level =
     (case node_next nd level ar of
        Some (nx, next) \<Rightarrow> find_last_from ar nx next level
      | None \<Rightarrow> if level > 0 then find_last_from ar p nd (level - 1) else Some (p, nd))"

declare find_splice_for_level.simps [code] find_or_near_from.simps [code] find_next_from.simps [code]
  find_prev_from.simps [code] find_last_from.simps [code]

definition head_node :: "skip_list \<Rightarrow> node" where
  "head_node sk = (case ar_nodes (sk_arena sk) (sk_head sk) of Some nd \<Rightarrow> nd | None \<Rightarrow> Node_default)"

definition find_or_near :: "key_cmp \<Rightarrow> bytes \<Rightarrow> bool \<Rightarrow> skip_list \<Rightarrow> (nat \<times> node) option outcome option" where
  "find_or_near cmp key allow_near sk =
     find_or_near_from cmp (sk_arena sk) key allow_near (head_node sk) (sk_height sk - 1)"

definition find_next :: "key_cmp \<Rightarrow> bytes \<Rightarrow> skip_list \<Rightarrow> (nat \<times> node) option outcome option" where
  "find_next cmp key sk = find_next_from cmp (sk_arena sk) key (head_node sk) (sk_height sk - 1)"

definition find_prev :: "key_cmp \<Rightarrow> bytes \<Rightarrow> skip_list \<Rightarrow> (nat \<times> node) option outcome option" where
  "find_prev cmp key sk =
     find_prev_from cmp (sk_head sk) (sk_arena sk) key (sk_head sk) (head_node sk) (sk_height sk - 1)"

text \<open>\<open>find_last\<close> always answers with a node, the head when the list is empty.\<close>

definition find_last :: "skip_list \<Rightarrow> (nat \<times> node) option option" where
  "find_last sk = map_option Some (find_last_from (sk_arena sk) (sk_head sk) (head_node sk) (sk_height sk - 1))"

definition skl_is_empty :: "skip_list \<Rightarrow> bool option" where
  "skl_is_empty sk = map_option (\<lambda>r. r = None) (find_last sk)"

definition skl_get :: "key_cmp \<Rightarrow> bytes \<Rightarrow> bool \<Rightarrow> skip_list \<Rightarrow> bytes option outcome option" where
  "skl_get cmp key allow_near sk =
     map_option (\<lambda>r. and_then r (\<lambda>f. Inr (case f of None \<Rightarrow> None | Some (_, nd) \<Rightarrow> get_value nd (sk_arena sk))))
       (find_or_near cmp key allow_near sk)"

definition get_key_value :: "key_cmp \<Rightarrow> bytes \<Rightarrow> bool \<Rightarrow> skip_list \<Rightarrow> (bytes \<times> bytes) option outcome option" where
  "get_key_value cmp key allow_near sk =
     map_option (\<lambda>r. and_then r (\<lambda>f. case f of None \<Rightarrow> Inr None | Some (_, nd) \<Rightarrow>
         and_then (unwrap (get_key nd (sk_arena sk))) (\<lambda>k.
         and_then (unwrap (get_value nd (sk_arena sk))) (\<lambda>v. Inr (Some (k, v))))))
       (find_or_near cmp key allow_near sk)"

section \<open>The iterator\<close>

record skl_iter =
  it_node :: "nat option"
  it_node_back :: "nat option"

definition SkipListIter_new :: "skip_list \<Rightarrow> skl_iter" where
  "SkipListIter_new sk = \<lparr>it_node = Some (sk_head sk), it_node_back = None\<rparr>"

definition iter_item :: "skip_list \<Rightarrow> skl_iter \<Rightarrow> nat option" where
  "iter_item sk it = (if it_node it = Some (sk_head sk) then None else it_node it)"

definition iter_item_back :: "skip_list \<Rightarrow> skl_iter \<Rightarrow> nat option" where
  "iter_item_back sk it = it_node_back it"

definition iter_next :: "skip_list \<Rightarrow> skl_iter \<Rightarrow> bool \<times> skl_iter" where
  "iter_next sk it =
     (case it_node it of None \<Rightarrow> (False, it) | Some now \<Rightarrow>
      (case ar_nodes (sk_arena sk) now of None \<Rightarrow> (False, it) | Some nd \<Rightarrow>
       (case node_next nd 0 (sk_arena sk) of None \<Rightarrow> (False, it) | Some (new, _) \<Rightarrow>
          if it_node_back it = Some new then (False, it) else (True, it\<lparr>it_node := Some new\<rparr>))))"

definition iter_next_back :: "skip_list \<Rightarrow> skl_iter \<Rightarrow> (bool \<times> skl_iter) option" where
  "iter_next_back sk it =
     (case it_node_back it of
        Some now \<Rightarrow>
          Some (case ar_nodes (sk_arena sk) now of None \<Rightarrow> (False, it) | Some nd \<Rightarrow>
            (case node_prev nd (sk_arena sk) of None \<Rightarrow> (False, it) | Some (new, _) \<Rightarrow>
               if it_node it = Some new then (False, it) else (True, it\<lparr>it_node_back := Some new\<rparr>)))
      | None \<Rightarrow>
          (case find_last sk of None \<Rightarrow> None
           | Some None \<Rightarrow> Some (False, it)
           | Some (Some (l, _)) \<Rightarrow>
               Some (if l \<noteq> sk_head sk then (True, it\<lparr>it_node_back := Some l\<rparr>) else (False, it))))"

definition iter_key :: "skip_list \<Rightarrow> skl_iter \<Rightarrow> bytes option" where
  "iter_key sk it = (case iter_item sk it of None \<Rightarrow> None | Some p \<Rightarrow>
     (case ar_nodes (sk_arena sk) p of None \<Rightarrow> None | Some nd \<Rightarrow> get_key nd (sk_arena sk)))"

definition iter_seek :: "key_cmp \<Rightarrow> bytes \<Rightarrow> skip_list \<Rightarrow> skl_iter \<Rightarrow> (bool \<times> skl_iter) outcome option" where
  "iter_seek cmp k sk it =
     map_option (\<lambda>r. and_then r (\<lambda>f. Inr (case f of None \<Rightarrow> (False, it)
        | Some (p, _) \<Rightarrow> (True, it\<lparr>it_node := Some p\<rparr>))))
       (find_or_near cmp k True sk)"

section \<open>What a skip list represents\<close>

definition nkey :: "node arena \<Rightarrow> nat \<Rightarrow> bytes" where
  "nkey ar p = (case ar_nodes ar p of None \<Rightarrow> [] | Some nd \<Rightarrow>
     (case get_key nd ar of None \<Rightarrow> [] | Some k \<Rightarrow> k))"

definition nval :: "node arena \<Rightarrow> nat \<Rightarrow> bytes" where
  "nval ar p = (case ar_nodes ar p of None \<Rightarrow> [] | Some nd \<Rightarrow>
     (case get_value nd ar of None \<Rightarrow> [] | Some v \<Rightarrow> v))"

definition nheight :: "node arena \<Rightarrow> nat \<Rightarrow> nat" where
  "nheight ar p = (case ar_nodes ar p of None \<Rightarrow> 0 | Some nd \<Rightarrow> nd_height nd)"

definition tower :: "node arena \<Rightarrow> nat \<Rightarrow> nat \<Rightarrow> nat" where
  "tower ar p h = (case ar_nodes ar p of None \<Rightarrow> 0 | Some nd \<Rightarrow> nd_tower nd ! h)"

primrec is_path :: "node arena \<Rightarrow> nat \<Rightarrow> nat \<Rightarrow> nat list \<Rightarrow> bool" where
  "is_path ar h p [] \<longleftrightarrow> tower ar p h = 0"
| "is_path ar h p (x # xs) \<longleftrightarrow> tower ar p h = x \<and> is_path ar h x xs"

primrec is_back :: "node arena \<Rightarrow> nat \<Rightarrow> nat list \<Rightarrow> bool" where
  "is_back ar q [] \<longleftrightarrow> True"
| "is_back ar q (x # xs) \<longleftrightarrow> map_option nd_prev (ar_nodes ar x) = Some q \<and> is_back ar x xs"

text \<open>A node in the arena: its key and value lie below the allocation pointer.\<close>

definition node_ok :: "node arena \<Rightarrow> nat \<Rightarrow> bool" where
  "node_ok ar p \<longleftrightarrow> 8 < p \<and> p < ar_ptr_offset ar \<and>
     (\<exists>nd. ar_nodes ar p = Some nd \<and> length (nd_tower nd) = SKL_MAX_HEIGHT \<and>
        8 \<le> nd_key_offset nd \<and> nd_key_offset nd + nd_key_len nd \<le> ar_ptr_offset ar \<and>
        8 \<le> fst (value_slice nd) \<and> fst (value_slice nd) + snd (value_slice nd) \<le> ar_ptr_offset ar \<and>
        1 \<le> nd_height nd \<and> nd_height nd \<le> SKL_MAX_HEIGHT)"

definition level_list :: "node arena \<Rightarrow> nat \<Rightarrow> nat list \<Rightarrow> nat list" where
  "level_list ar h L = filter (\<lambda>p. h < nheight ar p) L"

text \<open>\<open>L\<close> are the nodes of the bottom level, in order.\<close>

definition skl_repr :: "key_cmp \<Rightarrow> (bytes \<Rightarrow> bool) \<Rightarrow> skip_list \<Rightarrow> nat list \<Rightarrow> bool" where
  "skl_repr cmp valid sk L \<longleftrightarrow>
     arena_ok (sk_arena sk) \<and> sk_head sk = 8 \<and> 8 < ar_ptr_offset (sk_arena sk) \<and>
     (\<exists>hd. ar_nodes (sk_arena sk) 8 = Some hd \<and> length (nd_tower hd) = SKL_MAX_HEIGHT) \<and>
     (\<forall>p \<in> set L. node_ok (sk_arena sk) p) \<and>
     (\<forall>h < SKL_MAX_HEIGHT. is_path (sk_arena sk) h 8 (level_list (sk_arena sk) h L)) \<and>
     sorted_wrt (\<lambda>p q. cmp (nkey (sk_arena sk) p) (nkey (sk_arena sk) q) = Less) L \<and>
     (\<forall>p \<in> set L. valid (nkey (sk_arena sk) p)) \<and>
     1 \<le> sk_height sk \<and> sk_height sk \<le> SKL_MAX_HEIGHT \<and>
     (\<forall>p \<in> set L. nheight (sk_arena sk) p \<le> sk_height sk) \<and>
     is_back (sk_arena sk) 8 L"

definition skl_inv :: "key_cmp \<Rightarrow> (bytes \<Rightarrow> bool) \<Rightarrow> skip_list \<Rightarrow> (bytes \<times> bytes) list \<Rightarrow> bool" where
  "skl_inv cmp valid sk m \<longleftrightarrow> (\<exists>L. skl_repr cmp valid sk L \<and>
     m = map (\<lambda>p. (nkey (sk_arena sk) p, nval (sk_arena sk) p)) L)"

lemma is_path_split: "is_path ar h p (xs @ ys) \<Longrightarrow> is_path ar h (last (p # xs)) ys"
  by (induction xs arbitrary: p) auto

lemma node_okD:
  assumes "node_ok ar p"
  obtains nd where "ar_nodes ar p = Some nd" "arena_get p ar = Some nd" "length (nd_tower nd) = SKL_MAX_HEIGHT"
    "get_key nd ar = Some (nkey ar p)" "get_value nd ar = Some (nval ar p)" "8 < p"
    "1 \<le> nd_height nd" "nd_height nd \<le> SKL_MAX_HEIGHT" "nheight ar p = nd_height nd"
proof -
  from assms obtain nd where nd: "ar_nodes ar p = Some nd" "length (nd_tower nd) = SKL_MAX_HEIGHT"
    "8 < p" "8 \<le> nd_key_offset nd" "8 \<le> fst (value_slice nd)" "1 \<le> nd_height nd"
    "nd_height nd \<le> SKL_MAX_HEIGHT" by (auto simp: node_ok_def)
  obtain vo vl where vs: "value_slice nd = (vo, vl)" by fastforce
  show thesis
    by (rule that [of nd])
      (use nd vs in \<open>auto simp: nkey_def nval_def arena_get_def get_key_def get_value_def
        get_slice_def nheight_def\<close>)
qed

lemma node_next_path:
  assumes "ar_nodes ar p = Some nd" "is_path ar h p xs" "\<forall>x \<in> set xs. node_ok ar x"
  shows "node_next nd h ar = (case xs of [] \<Rightarrow> None | x # _ \<Rightarrow> Some (x, the (ar_nodes ar x)))"
proof (cases xs)
  case Nil
  with assms show ?thesis by (simp add: node_next_def tower_def arena_get_def)
next
  case (Cons x xs')
  with assms have "node_ok ar x" "nd_tower nd ! h = x" by (auto simp: tower_def)
  then show ?thesis using Cons by (auto simp: node_next_def elim: node_okD)
qed

locale key_order =
  fixes cmp :: key_cmp and valid :: "bytes \<Rightarrow> bool"
  assumes cmp_Equal: "valid a \<Longrightarrow> valid b \<Longrightarrow> cmp a b = Equal \<longleftrightarrow> a = b"
    and cmp_flip: "valid a \<Longrightarrow> valid b \<Longrightarrow> cmp a b = Greater \<longleftrightarrow> cmp b a = Less"
    and cmp_trans: "valid a \<Longrightarrow> valid b \<Longrightarrow> valid c \<Longrightarrow> cmp a b = Less \<Longrightarrow> cmp b c = Less \<Longrightarrow> cmp a c = Less"
begin

lemma not_less_self: "valid a \<Longrightarrow> cmp a a = Equal"
  using cmp_Equal by blast

definition splice_pick :: "node arena \<Rightarrow> bytes \<Rightarrow> nat \<Rightarrow> nat list \<Rightarrow> nat \<times> nat" where
  "splice_pick ar k p zs = (case zs of [] \<Rightarrow> (p, 0) | x # _ \<Rightarrow> if nkey ar x = k then (x, x) else (p, x))"

lemma find_splice_path:
  assumes "ar_nodes ar p = Some nd" "is_path ar h p xs" "\<forall>x \<in> set xs. node_ok ar x \<and> valid (nkey ar x)" "valid k"
  shows "find_splice_for_level cmp ar k p h =
    Some (splice_pick ar k (last (p # takeWhile (\<lambda>x. cmp (nkey ar x) k = Less) xs))
      (dropWhile (\<lambda>x. cmp (nkey ar x) k = Less) xs))"
  using assms
proof (induction xs arbitrary: p nd)
  case Nil
  then show ?case
    using node_next_path [OF Nil(1,2)] by (subst find_splice_for_level.simps) (simp add: splice_pick_def)
next
  case (Cons x xs)
  from Cons.prems(3) have ok: "node_ok ar x" "valid (nkey ar x)" by auto
  from ok(1) obtain nx where nx: "ar_nodes ar x = Some nx" "get_key nx ar = Some (nkey ar x)"
    by (rule node_okD)
  have nn: "node_next nd h ar = Some (x, nx)"
    using node_next_path [OF Cons.prems(1,2)] Cons.prems(3) nx by simp
  have path: "is_path ar h x xs" using Cons.prems(2) by simp
  note IH = Cons.IH [OF nx(1) path _ Cons.prems(4)]
  show ?case
  proof (cases "cmp k (nkey ar x)")
    case Less
    then have "nkey ar x \<noteq> k" "cmp (nkey ar x) k \<noteq> Less"
      using ok Cons.prems(4) cmp_flip [of "nkey ar x" k] not_less_self by fastforce+
    with Less Cons.prems(1) nn nx show ?thesis
      by (subst find_splice_for_level.simps) (simp add: splice_pick_def)
  next
    case Equal
    then have "nkey ar x = k" using cmp_Equal ok Cons.prems(4) by blast
    with Equal Cons.prems(1,4) nn nx show ?thesis
      by (subst find_splice_for_level.simps) (simp add: not_less_self splice_pick_def)
  next
    case Greater
    then have "cmp (nkey ar x) k = Less" using cmp_flip ok Cons.prems(4) by blast
    with Greater Cons.prems(1,3) nn nx IH show ?thesis
      by (subst find_splice_for_level.simps) simp
  qed
qed

abbreviation lt :: "node arena \<Rightarrow> bytes \<Rightarrow> nat \<Rightarrow> bool" where
  "lt ar k \<equiv> (\<lambda>x. cmp (nkey ar x) k = Less)"

abbreviation ascending :: "node arena \<Rightarrow> nat list \<Rightarrow> bool" where
  "ascending ar xs \<equiv> sorted_wrt (\<lambda>p q. cmp (nkey ar p) (nkey ar q) = Less) xs \<and>
     (\<forall>x \<in> set xs. valid (nkey ar x))"

lemma ascending_level: "ascending ar L \<Longrightarrow> ascending ar (level_list ar h L)"
  by (auto simp: level_list_def sorted_wrt_filter)

text \<open>In an ascending list the smaller elements come first.\<close>

lemma ascending_split:
  assumes "ascending ar xs" "valid k"
  shows "takeWhile (lt ar k) xs = filter (lt ar k) xs" "dropWhile (lt ar k) xs = filter (\<lambda>x. \<not> lt ar k x) xs"
proof -
  have "takeWhile (lt ar k) xs = filter (lt ar k) xs \<and> dropWhile (lt ar k) xs = filter (\<lambda>x. \<not> lt ar k x) xs"
    using assms(1)
  proof (induction xs)
    case (Cons x xs)
    have "\<not> lt ar k x \<Longrightarrow> y \<in> set xs \<Longrightarrow> \<not> lt ar k y" for y
      using Cons.prems cmp_trans [of "nkey ar x" "nkey ar y" k] assms(2) by auto
    then show ?case using Cons by (auto simp: filter_empty_conv filter_id_conv)
  qed simp
  then show "takeWhile (lt ar k) xs = filter (lt ar k) xs" "dropWhile (lt ar k) xs = filter (\<lambda>x. \<not> lt ar k x) xs"
    by auto
qed

lemma split_at:
  assumes "ascending ar xs" "p \<in> set xs" "lt ar k p" "valid k"
  shows "\<exists>As ys. xs = As @ ys \<and> p = last (8 # As) \<and> (\<forall>a \<in> set As. lt ar k a)"
proof -
  from assms(2) obtain us vs where x: "xs = us @ p # vs" by (meson split_list)
  have "lt ar k a" if "a \<in> set us" for a
    using assms that cmp_trans [of "nkey ar a" "nkey ar p" k] by (auto simp: x sorted_wrt_append)
  then show ?thesis using assms(3) by (intro exI [of _ "us @ [p]"] exI [of _ vs]) (auto simp: x)
qed

lemma dropWhile_key:
  assumes "ascending ar xs" "y \<in> set xs" "nkey ar y = k"
  shows "\<exists>r. dropWhile (lt ar k) xs = y # r"
proof -
  from assms(2) obtain us vs where x: "xs = us @ y # vs" by (meson split_list)
  have "\<forall>a \<in> set us. lt ar k a" using assms by (auto simp: x sorted_wrt_append)
  moreover have "\<not> lt ar k y" using assms not_less_self by fastforce
  ultimately show ?thesis by (simp add: x dropWhile_append2)
qed

lemma dropWhile_hd_key:
  "dropWhile (lt ar k) xs = y # r \<Longrightarrow> y \<in> set xs"
  by (metis list.set_intros(1) set_dropWhileD)

definition splice_at :: "node arena \<Rightarrow> nat list \<Rightarrow> bytes \<Rightarrow> nat \<Rightarrow> nat \<times> nat" where
  "splice_at ar L k h = splice_pick ar k (last (8 # takeWhile (lt ar k) (level_list ar h L)))
     (dropWhile (lt ar k) (level_list ar h L))"

lemma reprD:
  assumes "skl_repr cmp valid sk L"
  shows repr_ascending: "ascending (sk_arena sk) L"
    and repr_nodes: "p \<in> set L \<Longrightarrow> node_ok (sk_arena sk) p"
    and repr_path: "h < SKL_MAX_HEIGHT \<Longrightarrow> is_path (sk_arena sk) h 8 (level_list (sk_arena sk) h L)"
    and repr_head: "sk_head sk = 8" "\<exists>hd. ar_nodes (sk_arena sk) 8 = Some hd \<and> length (nd_tower hd) = SKL_MAX_HEIGHT"
    and repr_height: "1 \<le> sk_height sk" "sk_height sk \<le> SKL_MAX_HEIGHT"
    and repr_back: "is_back (sk_arena sk) 8 L"
    and repr_arena: "arena_ok (sk_arena sk)"
  using assms unfolding skl_repr_def by blast+

lemma repr_level_0: "skl_repr cmp valid sk L \<Longrightarrow> level_list (sk_arena sk) 0 L = L"
  using repr_nodes by (fastforce simp: level_list_def filter_id_conv elim: node_okD)

lemma repr_level_top:
  "skl_repr cmp valid sk L \<Longrightarrow> sk_height sk \<le> h \<Longrightarrow> level_list (sk_arena sk) h L = []"
  by (fastforce simp: level_list_def filter_empty_conv skl_repr_def)

lemma find_splice_from:
  assumes repr: "skl_repr cmp valid sk L" and h: "h < SKL_MAX_HEIGHT"
    and lev: "level_list (sk_arena sk) h L = As @ xs" "p = last (8 # As)" "\<forall>a \<in> set As. lt (sk_arena sk) k a"
    and k: "valid k"
  shows "find_splice_for_level cmp (sk_arena sk) k p h = Some (splice_at (sk_arena sk) L k h)"
proof -
  let ?ar = "sk_arena sk"
  have path: "is_path ?ar h p xs"
    using repr_path [OF repr h] is_path_split [of ?ar h 8 As xs] lev by simp
  have mem: "set As \<subseteq> set L" "set xs \<subseteq> set L"
    using arg_cong [OF lev(1), of set] by (auto simp: level_list_def)
  obtain nd where nd: "ar_nodes ?ar p = Some nd"
  proof (cases "As = []")
    case True
    with repr_head(2) [OF repr] lev(2) that show ?thesis by auto
  next
    case False
    then have "p \<in> set L" using lev(2) mem(1) by (metis last.simps last_in_set subsetD)
    with repr_nodes [OF repr] that show ?thesis by (auto elim: node_okD)
  qed
  have ok: "\<forall>x \<in> set xs. node_ok ?ar x \<and> valid (nkey ?ar x)"
    using mem(2) repr_nodes [OF repr] repr_ascending [OF repr] by blast
  have "last (p # ys) = last (8 # As @ ys)" for ys using lev(2) by (cases ys) auto
  then show ?thesis
    using find_splice_path [OF nd path ok k]
    by (simp add: splice_at_def lev(1) takeWhile_append2 [OF lev(3) [rule_format]]
        dropWhile_append2 [OF lev(3) [rule_format]] del: last.simps)
qed

text \<open>The position found on the level above is on the list of the level below.\<close>

lemma descend_start:
  assumes repr: "skl_repr cmp valid sk L" and k: "valid k"
    and p: "p = last (8 # takeWhile (lt (sk_arena sk) k) (level_list (sk_arena sk) h' L))" and h: "h \<le> h'"
  shows "\<exists>As xs. level_list (sk_arena sk) h L = As @ xs \<and> p = last (8 # As) \<and>
    (\<forall>a \<in> set As. lt (sk_arena sk) k a)"
proof (cases "takeWhile (lt (sk_arena sk) k) (level_list (sk_arena sk) h' L) = []")
  case True
  with p show ?thesis by (intro exI [of _ "[]"] exI [of _ "level_list (sk_arena sk) h L"]) simp
next
  case False
  then have "p \<in> set (takeWhile (lt (sk_arena sk) k) (level_list (sk_arena sk) h' L))"
    using p by (metis last.simps last_in_set)
  then have "lt (sk_arena sk) k p" "p \<in> set (level_list (sk_arena sk) h' L)"
    by (auto dest: set_takeWhileD)
  then have "p \<in> set (level_list (sk_arena sk) h L)" using h by (auto simp: level_list_def)
  with split_at [OF ascending_level [OF repr_ascending [OF repr]] this _ k] \<open>lt (sk_arena sk) k p\<close>
  show ?thesis by blast
qed

lemma splice_at_key:
  assumes repr: "skl_repr cmp valid sk L" and k: "valid k"
  shows "fst (splice_at (sk_arena sk) L k h) = snd (splice_at (sk_arena sk) L k h) \<longleftrightarrow>
      (\<exists>x \<in> set (level_list (sk_arena sk) h L). nkey (sk_arena sk) x = k)"
    and "x \<in> set (level_list (sk_arena sk) h L) \<Longrightarrow> nkey (sk_arena sk) x = k \<Longrightarrow>
      splice_at (sk_arena sk) L k h = (x, x)"
proof -
  let ?ar = "sk_arena sk" and ?lev = "level_list (sk_arena sk) h L"
  note asc = ascending_level [OF repr_ascending [OF repr], of h]
  show eq: "splice_at ?ar L k h = (x, x)" if "x \<in> set ?lev" "nkey ?ar x = k" for x
    using dropWhile_key [OF asc that] that(2) by (auto simp: splice_at_def splice_pick_def)
  have gt8: "8 < x" if "x \<in> set ?lev" for x
    using that repr_nodes [OF repr] by (auto simp: level_list_def node_ok_def)
  have ge8: "8 \<le> last (8 # takeWhile (lt ?ar k) ?lev)"
    using gt8 by (auto dest!: last_in_set set_takeWhileD intro: less_imp_le)
  show "fst (splice_at ?ar L k h) = snd (splice_at ?ar L k h) \<longleftrightarrow> (\<exists>x \<in> set ?lev. nkey ?ar x = k)"
  proof
    assume *: "fst (splice_at ?ar L k h) = snd (splice_at ?ar L k h)"
    show "\<exists>x \<in> set ?lev. nkey ?ar x = k"
    proof (cases "dropWhile (lt ?ar k) ?lev")
      case Nil
      with * ge8 show ?thesis by (simp add: splice_at_def splice_pick_def)
    next
      case (Cons y r)
      then have "\<not> lt ?ar k y" by (simp add: dropWhile_eq_Cons_conv)
      have "y \<in> set ?lev" using Cons by (rule dropWhile_hd_key)
      moreover note \<open>\<not> lt ?ar k y\<close>
      moreover have "last (8 # takeWhile (lt ?ar k) ?lev) \<noteq> y" if "nkey ?ar y \<noteq> k"
      proof
        assume "last (8 # takeWhile (lt ?ar k) ?lev) = y"
        then show False using \<open>\<not> lt ?ar k y\<close> gt8 [OF \<open>y \<in> set ?lev\<close>]
          by (auto split: if_splits dest!: last_in_set set_takeWhileD)
      qed
      ultimately show ?thesis using * Cons
        by (auto simp: splice_at_def splice_pick_def split: if_splits)
    qed
  next
    assume "\<exists>x \<in> set ?lev. nkey ?ar x = k"
    then show "fst (splice_at ?ar L k h) = snd (splice_at ?ar L k h)" using eq by fastforce
  qed
qed

lemma find_splices_spec:
  assumes repr: "skl_repr cmp valid sk L" and k: "valid k"
  shows "n \<le> SKL_MAX_HEIGHT \<Longrightarrow> length prev = SKL_MAX_HEIGHT + 1 \<Longrightarrow> length nxt = SKL_MAX_HEIGHT + 1 \<Longrightarrow>
    prev ! n = last (8 # takeWhile (lt (sk_arena sk) k) (level_list (sk_arena sk) n L)) \<Longrightarrow>
    (case find_splices cmp (sk_arena sk) k n prev nxt of
       None \<Rightarrow> False
     | Some (Inl x) \<Rightarrow> x \<in> set L \<and> nkey (sk_arena sk) x = k
     | Some (Inr (prev', nxt')) \<Rightarrow>
         (\<forall>h < n. (prev' ! h, nxt' ! h) = splice_at (sk_arena sk) L k h \<and>
            (\<forall>x \<in> set (level_list (sk_arena sk) h L). nkey (sk_arena sk) x \<noteq> k)) \<and>
         (\<forall>h. n \<le> h \<longrightarrow> prev' ! h = prev ! h \<and> nxt' ! h = nxt ! h))"
proof (induction n arbitrary: prev nxt)
  case 0
  then show ?case by simp
next
  case (Suc n)
  let ?ar = "sk_arena sk"
  obtain As xs where st: "level_list ?ar n L = As @ xs" "prev ! Suc n = last (8 # As)" "\<forall>a \<in> set As. lt ?ar k a"
    using descend_start [OF repr k Suc.prems(4), of n] by auto
  obtain p q where pq: "splice_at ?ar L k n = (p, q)" by fastforce
  have fs: "find_splice_for_level cmp ?ar k (prev ! Suc n) n = Some (p, q)"
    using find_splice_from [OF repr _ st k] Suc.prems(1) pq by simp
  show ?case
  proof (cases "p = q")
    case True
    then obtain x where "x \<in> set (level_list ?ar n L)" "nkey ?ar x = k"
      using splice_at_key(1) [OF repr k, of n] pq by auto
    moreover from this have "p = x" using splice_at_key(2) [OF repr k] pq by simp
    ultimately show ?thesis using fs True by (auto simp: level_list_def)
  next
    case False
    then have no: "\<forall>x \<in> set (level_list ?ar n L). nkey ?ar x \<noteq> k"
      using splice_at_key(1) [OF repr k, of n] pq by auto
    have p: "p = last (8 # takeWhile (lt ?ar k) (level_list ?ar n L))"
      using pq False by (auto simp: splice_at_def splice_pick_def split: list.splits if_splits)
    have IH: "case find_splices cmp ?ar k n (prev[n := p]) (nxt[n := q]) of
       None \<Rightarrow> False
     | Some (Inl x) \<Rightarrow> x \<in> set L \<and> nkey ?ar x = k
     | Some (Inr (prev', nxt')) \<Rightarrow>
         (\<forall>h < n. (prev' ! h, nxt' ! h) = splice_at ?ar L k h \<and>
            (\<forall>x \<in> set (level_list ?ar h L). nkey ?ar x \<noteq> k)) \<and>
         (\<forall>h. n \<le> h \<longrightarrow> prev' ! h = (prev[n := p]) ! h \<and> nxt' ! h = (nxt[n := q]) ! h)"
      using Suc.prems by (intro Suc.IH) (auto simp: p)
    show ?thesis
      using IH fs False no pq Suc.prems(1-3)
      by (auto split: option.splits sum.splits simp: less_Suc_eq)
  qed
qed

subsection \<open>Searching\<close>

text \<open>The start of a search: the head, whose level list is ahead.\<close>

lemma head_node_repr: "skl_repr cmp valid sk L \<Longrightarrow> ar_nodes (sk_arena sk) 8 = Some (head_node sk)"
  using repr_head by (fastforce simp: head_node_def)

lemma repr_node_at:
  assumes repr: "skl_repr cmp valid sk L" and lev: "level_list (sk_arena sk) h L = As @ xs"
    and h: "h < SKL_MAX_HEIGHT" and p: "p = last (8 # As)" and nd: "ar_nodes (sk_arena sk) p = Some nd"
  shows "node_next nd h (sk_arena sk) = (case xs of [] \<Rightarrow> None | x # _ \<Rightarrow> Some (x, the (ar_nodes (sk_arena sk) x)))"
    and "xs = x # ys \<Longrightarrow> \<exists>nx. ar_nodes (sk_arena sk) x = Some nx \<and> get_key nx (sk_arena sk) = Some (nkey (sk_arena sk) x)
      \<and> x \<in> set L \<and> valid (nkey (sk_arena sk) x)"
proof -
  have mem: "set xs \<subseteq> set L" using arg_cong [OF lev, of set] by (auto simp: level_list_def)
  have path: "is_path (sk_arena sk) h p xs"
    using repr_path [OF repr h] is_path_split [of _ h 8 As xs] lev p by simp
  show "node_next nd h (sk_arena sk) = (case xs of [] \<Rightarrow> None | x # _ \<Rightarrow> Some (x, the (ar_nodes (sk_arena sk) x)))"
    using node_next_path [OF nd path] mem repr_nodes [OF repr] by blast
  assume xs: "xs = x # ys"
  then have "x \<in> set L" using mem by auto
  moreover from this obtain nx where "ar_nodes (sk_arena sk) x = Some nx" "get_key nx (sk_arena sk) = Some (nkey (sk_arena sk) x)"
    using repr_nodes [OF repr] by (metis node_okD)
  ultimately show "\<exists>nx. ar_nodes (sk_arena sk) x = Some nx \<and> get_key nx (sk_arena sk) = Some (nkey (sk_arena sk) x)
      \<and> x \<in> set L \<and> valid (nkey (sk_arena sk) x)"
    using repr_ascending [OF repr] by blast
qed

text \<open>A position on a level is also one on the level below.\<close>

lemma lower_level:
  assumes repr: "skl_repr cmp valid sk L" and k: "valid k" and h: "h \<le> h'"
    and lev: "level_list (sk_arena sk) h' L = As @ xs" "p = last (8 # As)" "\<forall>a \<in> set As. lt (sk_arena sk) k a"
  shows "\<exists>As' xs'. level_list (sk_arena sk) h L = As' @ xs' \<and> p = last (8 # As') \<and>
    (\<forall>a \<in> set As'. lt (sk_arena sk) k a)"
proof (cases "As = []")
  case True
  with lev show ?thesis by (intro exI [of _ "[]"] exI [of _ "level_list (sk_arena sk) h L"]) simp
next
  case False
  then have pA: "p \<in> set As" using lev(2) by simp
  then have "p \<in> set (level_list (sk_arena sk) h' L)" by (simp add: lev(1))
  then have "p \<in> set (level_list (sk_arena sk) h L)" using h by (auto simp: level_list_def)
  with split_at [OF ascending_level [OF repr_ascending [OF repr]] this _ k] lev(3) pA show ?thesis by blast
qed

definition near_result :: "skip_list \<Rightarrow> nat list \<Rightarrow> bytes \<Rightarrow> bool \<Rightarrow> (nat \<times> node) option" where
  "near_result sk L k allow_near = (case dropWhile (lt (sk_arena sk) k) L of
      [] \<Rightarrow> None
    | x # _ \<Rightarrow> if nkey (sk_arena sk) x = k \<or> allow_near then Some (x, the (ar_nodes (sk_arena sk) x)) else None)"

lemma find_or_near_from_spec:
  assumes repr: "skl_repr cmp valid sk L" and k: "valid k"
  shows "h < SKL_MAX_HEIGHT \<Longrightarrow> level_list (sk_arena sk) h L = As @ xs \<Longrightarrow> p = last (8 # As) \<Longrightarrow>
    \<forall>a \<in> set As. lt (sk_arena sk) k a \<Longrightarrow> ar_nodes (sk_arena sk) p = Some nd \<Longrightarrow>
    find_or_near_from cmp (sk_arena sk) k near nd h = Some (Inr (near_result sk L k near))"
proof (induction h arbitrary: As xs p nd rule: less_induct)
  case (less h)
  let ?ar = "sk_arena sk"
  have lower: "find_or_near_from cmp ?ar k near nd (h - 1) = Some (Inr (near_result sk L k near))"
    if "0 < h" "level_list ?ar h L = As @ xs" "p = last (8 # As)" "\<forall>a \<in> set As. lt ?ar k a"
      "ar_nodes ?ar p = Some nd" for As xs p nd
    using lower_level [OF repr k _ that(2-4), of "h - 1"] less.IH [of "h - 1"] less.prems(1) that(1,5)
    by fastforce
  show ?case using less.prems(2-5)
  proof (induction xs arbitrary: As p nd)
    case Nil
    have nn: "node_next nd h ?ar = None"
      using repr_node_at(1) [OF repr Nil(1) less.prems(1) Nil(2,4)] by simp
    show ?case
    proof (cases "h = 0")
      case True
      with Nil repr_level_0 [OF repr] have "dropWhile (lt ?ar k) L = []" by simp
      then have "near_result sk L k near = None" unfolding near_result_def by (simp del: dropWhile_eq_Nil_conv)
      with nn True show ?thesis by (subst find_or_near_from.simps) simp
    next
      case False
      with nn lower [OF _ Nil] show ?thesis by (subst find_or_near_from.simps) simp
    qed
  next
    case (Cons x xs)
    obtain nx where nx: "ar_nodes ?ar x = Some nx" "get_key nx ?ar = Some (nkey ?ar x)" "x \<in> set L" "valid (nkey ?ar x)"
      using repr_node_at(2) [OF repr Cons.prems(1) less.prems(1) Cons.prems(2,4)] by blast
    have nn: "node_next nd h ?ar = Some (x, nx)"
      using repr_node_at(1) [OF repr Cons.prems(1) less.prems(1) Cons.prems(2,4)] nx by simp
    show ?case
    proof (cases "cmp k (nkey ?ar x)")
      case Less
      then have ne: "nkey ?ar x \<noteq> k" "\<not> lt ?ar k x"
        using cmp_flip [OF nx(4) k] k not_less_self by fastforce+
      show ?thesis
      proof (cases "h = 0")
        case True
        with Cons.prems repr_level_0 [OF repr] ne have "dropWhile (lt ?ar k) L = x # xs"
          by (simp add: dropWhile_append2)
        with True Less nn nx ne show ?thesis
          by (subst find_or_near_from.simps) (simp add: near_result_def)
      next
        case False
        with Less nn nx lower [OF _ Cons.prems] show ?thesis by (subst find_or_near_from.simps) simp
      qed
    next
      case Equal
      then have eq: "nkey ?ar x = k" using cmp_Equal nx(4) k by blast
      obtain r where "dropWhile (lt ?ar k) L = x # r"
        using dropWhile_key [OF repr_ascending [OF repr] nx(3) eq] by blast
      with Equal nn nx eq show ?thesis by (subst find_or_near_from.simps) (simp add: near_result_def)
    next
      case Greater
      then have "lt ?ar k x" using cmp_flip nx(4) k by blast
      with Cons.IH [of "As @ [x]" x nx] Cons.prems nx(1)
      have "find_or_near_from cmp ?ar k near nx h = Some (Inr (near_result sk L k near))" by simp
      with Greater nn nx show ?thesis by (subst find_or_near_from.simps) simp
    qed
  qed
qed

lemma find_or_near_spec:
  assumes repr: "skl_repr cmp valid sk L" and k: "valid k"
  shows "find_or_near cmp k near sk = Some (Inr (near_result sk L k near))"
  unfolding find_or_near_def
  using repr_height [OF repr] head_node_repr [OF repr]
  by (intro find_or_near_from_spec [OF repr k, where As = "[]" and p = 8]) auto


end

subsection \<open>Linking a node\<close>

text \<open>Updates that touch only links keep the data of every node.\<close>

definition node_data :: "node \<Rightarrow> u64 \<times> nat \<times> nat \<times> nat \<times> nat" where
  "node_data nd = (nd_value_slice nd, nd_key_offset nd, nd_key_len nd, nd_height nd, length (nd_tower nd))"

definition links_only :: "node arena \<Rightarrow> node arena \<Rightarrow> bool" where
  "links_only ar ar' \<longleftrightarrow> ar_ptr_offset ar' = ar_ptr_offset ar \<and> ar_limit ar' = ar_limit ar \<and>
     ar_mem ar' = ar_mem ar \<and>
     (\<forall>p. map_option node_data (ar_nodes ar' p) = map_option node_data (ar_nodes ar p))"

lemma links_only_refl: "links_only ar ar"
  by (simp add: links_only_def)

lemma links_only_trans: "links_only a b \<Longrightarrow> links_only b c \<Longrightarrow> links_only a c"
  by (simp add: links_only_def)

lemma links_only_upd:
  "(\<And>nd. node_data (f nd) = node_data nd) \<Longrightarrow> links_only ar (upd_node p f ar)"
  by (auto simp: links_only_def upd_node_def split: option.splits)

lemma links_only_store: "links_only ar (store_tower p h off ar)"
  unfolding store_tower_def by (rule links_only_upd) (simp add: node_data_def)

lemma links_only_prev: "links_only ar (upd_node p (\<lambda>nd. nd\<lparr>nd_prev := x\<rparr>) ar)"
  by (rule links_only_upd) (simp add: node_data_def)

lemma links_only_data:
  assumes "links_only ar ar'"
  shows "nkey ar' p = nkey ar p" "nval ar' p = nval ar p" "nheight ar' p = nheight ar p"
    "node_ok ar' p = node_ok ar p" "arena_ok ar' = arena_ok ar"
    "(\<exists>nd. ar_nodes ar' p = Some nd \<and> length (nd_tower nd) = n) \<longleftrightarrow>
     (\<exists>nd. ar_nodes ar p = Some nd \<and> length (nd_tower nd) = n)"
proof -
  have p: "map_option node_data (ar_nodes ar' p) = map_option node_data (ar_nodes ar p)"
    and mem: "ar_mem ar' = ar_mem ar" "ar_ptr_offset ar' = ar_ptr_offset ar" "ar_limit ar' = ar_limit ar"
    using assms by (auto simp: links_only_def)
  consider (N) "ar_nodes ar p = None" "ar_nodes ar' p = None"
    | (S) nd nd' where "ar_nodes ar p = Some nd" "ar_nodes ar' p = Some nd'"
      "get_key nd' ar' = get_key nd ar" "get_value nd' ar' = get_value nd ar"
      "nd_height nd' = nd_height nd" "length (nd_tower nd') = length (nd_tower nd)"
      "value_slice nd' = value_slice nd" "nd_key_offset nd' = nd_key_offset nd" "nd_key_len nd' = nd_key_len nd"
    using p by (cases "ar_nodes ar p"; cases "ar_nodes ar' p")
      (auto simp: node_data_def get_key_def get_value_def get_slice_def value_slice_def mem)
  note c = this
  from c show "nkey ar' p = nkey ar p" by cases (simp_all add: nkey_def)
  from c show "nval ar' p = nval ar p" by cases (simp_all add: nval_def)
  from c show "nheight ar' p = nheight ar p" by cases (simp_all add: nheight_def)
  from c show "node_ok ar' p = node_ok ar p" by cases (simp_all add: node_ok_def mem)
  from c show "(\<exists>nd. ar_nodes ar' p = Some nd \<and> length (nd_tower nd) = n) \<longleftrightarrow>
     (\<exists>nd. ar_nodes ar p = Some nd \<and> length (nd_tower nd) = n)" by cases simp_all
  show "arena_ok ar' = arena_ok ar" by (simp add: arena_ok_def mem)
qed

lemma tower_store:
  assumes "ar_nodes ar p = Some nd" "h < length (nd_tower nd)"
  shows "tower (store_tower p h off ar) q i = (if q = p \<and> i = h then off else tower ar q i)"
  using assms by (simp add: tower_def store_tower_def upd_node_def)

definition nprev :: "node arena \<Rightarrow> nat \<Rightarrow> nat option" where
  "nprev ar p = map_option nd_prev (ar_nodes ar p)"

lemma tower_upd_prev [simp]: "tower (upd_node p (\<lambda>nd. nd\<lparr>nd_prev := x\<rparr>) ar) q i = tower ar q i"
  by (simp add: tower_def upd_node_def split: option.splits)

lemma nprev_store [simp]: "nprev (store_tower p h off ar) q = nprev ar q"
  by (simp add: nprev_def store_tower_def upd_node_def split: option.splits)

lemma nprev_upd_prev:
  "ar_nodes ar p \<noteq> None \<Longrightarrow> nprev (upd_node p (\<lambda>nd. nd\<lparr>nd_prev := x\<rparr>) ar) q = (if q = p then Some x else nprev ar q)"
  by (auto simp: nprev_def upd_node_def split: option.splits)

lemma nodes_upd: "ar_nodes (upd_node p f ar) q = (if q = p then map_option f (ar_nodes ar p) else ar_nodes ar q)"
  by (auto simp: upd_node_def split: option.splits)

text \<open>Linking one level between \<open>p\<close> and \<open>n\<close>.\<close>

lemma link_level_ok:
  assumes nodes: "ar_nodes ar p = Some pn" "h < length (nd_tower pn)" "ar_nodes ar q = Some qn" "h < length (nd_tower qn)"
    and small: "p < 2 ^ 32" "q < 2 ^ 32" "n < 2 ^ 32" "p \<noteq> q" "p \<noteq> 0" "n \<noteq> q"
    and tw: "tower ar p h = n"
    and nx: "h = 0 \<Longrightarrow> n \<noteq> 0 \<Longrightarrow> nprev ar n = Some p"
  shows "\<exists>ar'. link_level 8 q h p n ar = Inr ar' \<and> links_only ar ar' \<and>
    (\<forall>r i. tower ar' r i = (if r = p \<and> i = h then q else if r = q \<and> i = h then n else tower ar r i)) \<and>
    (\<forall>r. nprev ar' r = (if h = 0 \<and> r = q then Some p else if h = 0 \<and> n \<noteq> 0 \<and> r = n then Some q else nprev ar r))"
proof -
  have off: "arena_offset p = p" "arena_offset q = q" "arena_offset n = n"
    using small by (simp_all add: arena_offset_def)
  define ar1 where "ar1 = store_tower q h n ar"
  define ar2 where "ar2 = upd_node q (\<lambda>nd. nd\<lparr>nd_prev := p\<rparr>) ar1"
  define ar3 where "ar3 = (if h = 0 then if n \<noteq> 0 then upd_node n (\<lambda>nd. nd\<lparr>nd_prev := q\<rparr>) ar2 else ar2 else ar1)"
  have q1: "ar_nodes ar1 q \<noteq> None" using nodes by (simp add: ar1_def store_tower_def nodes_upd)
  have np2: "nprev ar2 r = (if r = q then Some p else nprev ar r)" for r
    using q1 by (simp add: ar2_def nprev_upd_prev) (simp add: ar1_def)
  have n2: "h = 0 \<Longrightarrow> n \<noteq> 0 \<Longrightarrow> \<exists>nx. ar_nodes ar2 n = Some nx \<and> nd_prev nx = p"
    using nx np2 [of n] small by (auto simp: nprev_def)
  have np3: "nprev ar3 r = (if h = 0 \<and> n \<noteq> 0 \<and> r = n then Some q else if h = 0 \<and> r = q then Some p else nprev ar r)" for r
    using n2 by (auto simp: ar3_def np2 nprev_upd_prev) (simp_all add: ar1_def)
  have t1: "tower ar1 r i = (if r = q \<and> i = h then n else tower ar r i)" for r i
    unfolding ar1_def by (rule tower_store [OF nodes(3,4)])
  have t3: "tower ar3 r i = (if r = q \<and> i = h then n else tower ar r i)" for r i
    using t1 by (simp add: ar3_def ar2_def)
  have l1: "links_only ar ar1" unfolding ar1_def by (rule links_only_store)
  then have l2: "links_only ar ar2" unfolding ar2_def using links_only_prev links_only_trans by blast
  then have "links_only ar (upd_node n (\<lambda>nd. nd\<lparr>nd_prev := q\<rparr>) ar2)" using links_only_prev links_only_trans by blast
  with l1 l2 have l3: "links_only ar ar3" by (simp add: ar3_def)
  then obtain pn3 where p3: "ar_nodes ar3 p = Some pn3" "length (nd_tower pn3) = length (nd_tower pn)"
    using links_only_data(6) [OF l3, of p "length (nd_tower pn)"] nodes(1) by auto
  have "nd_tower pn3 ! h = n" using t3 [of p h] tw small p3(1) by (simp add: tower_def)
  then have "link_level 8 q h p n ar = Inr (store_tower p h q ar3)"
    using n2 p3 small unfolding link_level_def off ar3_def
    by (auto simp: ar1_def ar2_def Let_def and_then_def off)
  moreover have "tower (store_tower p h q ar3) r i =
      (if r = p \<and> i = h then q else if r = q \<and> i = h then n else tower ar r i)" for r i
    using tower_store [OF p3(1), of h q r i] p3(2) nodes(2) t3 by simp
  ultimately show ?thesis
    using links_only_trans [OF l3 links_only_store] np3 small by auto
qed

definition hd0 :: "nat list \<Rightarrow> nat" where "hd0 xs = (case xs of [] \<Rightarrow> 0 | x # _ \<Rightarrow> x)"

lemma hd0_simps [simp]: "hd0 [] = 0" "hd0 (x # xs) = x"
  by (simp_all add: hd0_def)

lemma is_path_frame:
  "\<forall>r \<in> set (s # xs). tower ar' r h = tower ar r h \<Longrightarrow> is_path ar' h s xs = is_path ar h s xs"
  by (induction xs arbitrary: s) auto

lemma is_path_hd: "is_path ar h s xs \<Longrightarrow> tower ar s h = hd0 xs"
  by (cases xs) auto

lemma is_path_insert:
  assumes "is_path ar h s (X @ Y)" "distinct (s # X @ Y)" "q \<notin> set (s # X @ Y)"
    and "\<And>r. tower ar' r h = (if r = last (s # X) then q else if r = q then hd0 Y else tower ar r h)"
  shows "is_path ar' h s (X @ q # Y)"
  using assms
proof (induction X arbitrary: s)
  case Nil
  have "is_path ar' h q Y"
  proof (cases Y)
    case (Cons y ys)
    have "is_path ar' h y ys = is_path ar h y ys"
      by (rule is_path_frame) (use Nil Cons in auto)
    with Nil Cons show ?thesis by auto
  qed (use Nil in auto)
  with Nil show ?case by simp
next
  case (Cons x X)
  have "last (s # x # X) \<noteq> s" using Cons.prems(2) last_in_set [of "x # X"] by auto
  moreover have "is_path ar' h x (X @ q # Y)"
    using Cons.prems by (intro Cons.IH) auto
  ultimately show ?case using Cons.prems by auto
qed

lemma is_back_nprev: "is_back ar s (X @ y # Y) \<Longrightarrow> nprev ar y = Some (last (s # X))"
  by (induction X arbitrary: s) (auto simp: nprev_def)

lemma is_back_frame:
  "\<forall>r \<in> set xs. nprev ar' r = nprev ar r \<Longrightarrow> is_back ar' s xs = is_back ar s xs"
  by (induction xs arbitrary: s) (auto simp: nprev_def)

lemma is_back_insert:
  assumes "is_back ar s (X @ Y)" "distinct (X @ Y)" "q \<notin> set (X @ Y)" "0 \<notin> set Y"
    and "\<And>r. nprev ar' r = (if r = q then Some (last (s # X)) else if hd0 Y \<noteq> 0 \<and> r = hd0 Y then Some q else nprev ar r)"
  shows "is_back ar' s (X @ q # Y)"
  using assms
proof (induction X arbitrary: s)
  case Nil
  have "is_back ar' q Y"
  proof (cases Y)
    case (Cons y ys)
    have "is_back ar' y ys = is_back ar y ys"
      by (rule is_back_frame) (use Nil Cons in auto)
    with Nil Cons show ?thesis by (auto simp: nprev_def)
  qed simp
  with Nil(5) [of q] show ?case by (simp add: nprev_def)
next
  case (Cons x X)
  have "nprev ar' x = nprev ar x" using Cons.prems by (cases Y) auto
  moreover have "is_back ar' x (X @ q # Y)" using Cons.prems by (intro Cons.IH) auto
  ultimately show ?case using Cons.prems(1) by (simp add: nprev_def)
qed

context key_order
begin

abbreviation X :: "node arena \<Rightarrow> nat list \<Rightarrow> bytes \<Rightarrow> nat \<Rightarrow> nat list" where
  "X ar L k h \<equiv> filter (lt ar k) (level_list ar h L)"

abbreviation Y :: "node arena \<Rightarrow> nat list \<Rightarrow> bytes \<Rightarrow> nat \<Rightarrow> nat list" where
  "Y ar L k h \<equiv> filter (\<lambda>x. \<not> lt ar k x) (level_list ar h L)"

lemma ascending_distinct: "ascending ar xs \<Longrightarrow> distinct xs"
  by (induction xs) (use not_less_self in force)+

text \<open>The state of the arena when the levels below \<open>j\<close> have been linked.\<close>

definition linked :: "node arena \<Rightarrow> nat list \<Rightarrow> bytes \<Rightarrow> nat \<Rightarrow> nat \<Rightarrow> node arena \<Rightarrow> bool" where
  "linked ar0 L k q j ar \<longleftrightarrow> links_only ar0 ar \<and>
     (\<forall>h < SKL_MAX_HEIGHT. is_path ar h 8 (X ar0 L k h @ (if h < j then [q] else []) @ Y ar0 L k h)) \<and>
     is_back ar 8 (X ar0 L k 0 @ (if 0 < j then [q] else []) @ Y ar0 L k 0)"

lemma link_step:
  assumes lk: "linked ar0 L k q j ar" and j: "j < SKL_MAX_HEIGHT"
    and asc: "ascending ar0 L" and ok: "\<forall>p \<in> set L. node_ok ar0 p" "node_ok ar0 q" "q \<notin> set L" "arena_ok ar0"
    and hd: "\<exists>nd. ar_nodes ar0 8 = Some nd \<and> length (nd_tower nd) = SKL_MAX_HEIGHT" "8 < ar_ptr_offset ar0"
  shows "\<exists>ar'. link_level 8 q j (last (8 # X ar0 L k j)) (hd0 (Y ar0 L k j)) ar = Inr ar' \<and>
    linked ar0 L k q (Suc j) ar'"
proof -
  let ?X = "X ar0 L k" and ?Y = "Y ar0 L k" and ?p = "last (8 # X ar0 L k j)" and ?n = "hd0 (Y ar0 L k j)"
  have lo: "links_only ar0 ar" and path: "\<And>h. h < SKL_MAX_HEIGHT \<Longrightarrow>
      is_path ar h 8 (?X h @ (if h < j then [q] else []) @ ?Y h)"
    and bk: "is_back ar 8 (?X 0 @ (if 0 < j then [q] else []) @ ?Y 0)"
    using lk by (auto simp: linked_def)
  have mem: "set (?X h) \<subseteq> set L" "set (?Y h) \<subseteq> set L" for h by (auto simp: level_list_def)
  have gt8: "8 < x" "x < 2 ^ 32" if "x \<in> set L \<or> x = q" for x
    using ok that by (auto simp: node_ok_def arena_ok_def)
  have dst: "distinct (8 # ?X h @ ?Y h)" for h
    using ascending_distinct [OF asc] gt8 mem by (force simp: level_list_def)
  have q8: "q \<notin> set (8 # ?X h @ ?Y h)" for h using mem ok(3) gt8 [of q] by force
  have node: "\<exists>nd. ar_nodes ar x = Some nd \<and> length (nd_tower nd) = SKL_MAX_HEIGHT" if "x \<in> set (8 # q # L)" for x
    unfolding links_only_data(6) [OF lo] using that ok hd by (auto simp: node_ok_def)
  have pmem: "?p \<in> set (8 # L)" using mem(1) [of j] by (auto dest!: last_in_set)
  obtain pn where pn: "ar_nodes ar ?p = Some pn" "length (nd_tower pn) = SKL_MAX_HEIGHT"
    using node [of ?p] pmem by auto
  obtain qn where qn: "ar_nodes ar q = Some qn" "length (nd_tower qn) = SKL_MAX_HEIGHT"
    using node [of q] by auto
  have n: "?n = 0 \<or> ?n \<in> set L" using mem(2) [of j] by (cases "?Y j") auto
  have tw: "tower ar ?p j = ?n"
    using path [OF j] is_path_split [of ar j 8 "?X j" "?Y j"] is_path_hd by simp
  have np: "nprev ar ?n = Some ?p" if "j = 0" "?n \<noteq> 0"
    using bk that is_back_nprev [of ar 8 "?X 0" ?n "tl (?Y 0)"] by (cases "?Y 0") auto
  have small: "?p < 2 ^ 32" "q < 2 ^ 32" "?n < 2 ^ 32" "?p \<noteq> q" "?p \<noteq> 0" "?n \<noteq> q"
    using pmem n gt8 [of ?p] gt8 [of q] gt8 [of ?n] ok(3) by auto
  obtain ar' where ar': "link_level 8 q j ?p ?n ar = Inr ar'" "links_only ar ar'"
    "\<And>r i. tower ar' r i = (if r = ?p \<and> i = j then q else if r = q \<and> i = j then ?n else tower ar r i)"
    "\<And>r. nprev ar' r = (if j = 0 \<and> r = q then Some ?p else if j = 0 \<and> ?n \<noteq> 0 \<and> r = ?n then Some q else nprev ar r)"
    using link_level_ok [OF pn(1) _ qn(1) _ small tw np] j pn(2) qn(2) by auto
  have "is_path ar' h 8 (?X h @ (if h < Suc j then [q] else []) @ ?Y h)" if h: "h < SKL_MAX_HEIGHT" for h
  proof (cases "h = j")
    case True
    have "is_path ar' j 8 (?X j @ q # ?Y j)"
      by (rule is_path_insert [where ar = ar]) (use path [OF j] dst q8 ar'(3) in auto)
    with True show ?thesis by simp
  next
    case False
    have "is_path ar' h 8 zs = is_path ar h 8 zs" for zs by (rule is_path_frame) (use False ar'(3) in auto)
    moreover have "h < Suc j \<longleftrightarrow> h < j" using False by auto
    ultimately show ?thesis using path [OF h] by simp
  qed
  moreover have "is_back ar' 8 (?X 0 @ q # ?Y 0)"
  proof (cases "j = 0")
    case True
    have "0 \<notin> set (?Y 0)" using mem(2) [of 0] gt8 by fastforce
    then show ?thesis
      using bk dst [of 0] q8 [of 0] ar'(4) True by (intro is_back_insert [where ar = ar]) auto
  next
    case False
    have "is_back ar' 8 zs = is_back ar 8 zs" for zs by (rule is_back_frame) (use False ar'(4) in auto)
    with False bk show ?thesis by simp
  qed
  ultimately show ?thesis
    using ar'(1) links_only_trans [OF lo ar'(2)] by (auto simp: linked_def)
qed

lemma link_levels_ok:
  assumes asc: "ascending ar0 L" and ok: "\<forall>p \<in> set L. node_ok ar0 p" "node_ok ar0 q" "q \<notin> set L" "arena_ok ar0"
    and hd: "\<exists>nd. ar_nodes ar0 8 = Some nd \<and> length (nd_tower nd) = SKL_MAX_HEIGHT" "8 < ar_ptr_offset ar0"
    and k: "valid k" and H: "1 \<le> H" "\<And>h. H \<le> h \<Longrightarrow> level_list ar0 h L = []" and r: "r \<le> SKL_MAX_HEIGHT"
    and pv: "\<And>h. h \<le> H \<Longrightarrow> prev ! h = last (8 # X ar0 L k h) \<and> nxt ! h = hd0 (Y ar0 L k h)"
      "\<And>h. H < h \<Longrightarrow> h < r \<Longrightarrow> prev ! h = 0"
  shows "j \<le> r \<Longrightarrow> linked ar0 L k q j ar \<Longrightarrow>
    \<exists>ar'. link_levels cmp 8 k q prev nxt [j ..< r] ar = Some (Inr ar') \<and> linked ar0 L k q r ar'"
proof (induction "r - j" arbitrary: j ar)
  case 0
  then show ?case by simp
next
  case (Suc d)
  then have j: "j < r" "j < SKL_MAX_HEIGHT" using r by auto
  let ?p = "last (8 # X ar0 L k j)" and ?n = "hd0 (Y ar0 L k j)"
  obtain ar1 where 1: "link_level 8 q j ?p ?n ar = Inr ar1" "linked ar0 L k q (Suc j) ar1"
    using link_step [OF Suc.prems(2) j(2) asc ok hd] by blast
  have rest: "\<exists>ar'. link_levels cmp 8 k q prev nxt [Suc j ..< r] ar1 = Some (Inr ar') \<and> linked ar0 L k q r ar'"
    by (rule Suc.hyps(1)) (use Suc.hyps(2) j 1(2) in auto)
  have ge8: "?p \<noteq> 0" using ok(1) by (force simp: level_list_def node_ok_def dest!: last_in_set)
  have pn: "(if prev ! j \<noteq> 0 then Some (Inr (prev ! j, nxt ! j))
            else if \<not> j > 1 then Some (Inl Panic)
            else (case find_splice_for_level cmp ar k 8 j of
                    None \<Rightarrow> None
                  | Some (p, n) \<Rightarrow> Some (if p = n then Inl Panic else Inr (p, n)))) = Some (Inr (?p, ?n))"
  proof (cases "j \<le> H")
    case True
    with pv(1) [OF True] ge8 show ?thesis by simp
  next
    case False
    have lev: "level_list ar0 j L = []" using H(2) False by simp
    have lo: "links_only ar0 ar" and path: "is_path ar j 8 []"
      using Suc.prems(2) j(2) lev by (auto simp: linked_def)
    obtain nd where "ar_nodes ar 8 = Some nd"
      using hd(1) links_only_data(6) [OF lo, of 8] by blast
    from find_splice_path [OF this path _ k]
    have "find_splice_for_level cmp ar k 8 j = Some (8, 0)" by (simp add: splice_pick_def)
    with False pv(2) [of j] j H(1) lev show ?thesis by simp
  qed
  have "link_levels cmp 8 k q prev nxt (j # [Suc j ..< r]) ar
      = link_levels cmp 8 k q prev nxt [Suc j ..< r] ar1"
    unfolding link_levels.simps pn by (simp add: 1(1) del: last.simps)
  then show ?case using rest j(1) by (simp add: upt_conv_Cons)
qed

end

text \<open>The packed offset and length of a value can be read back.\<close>

lemma pack_slice_read:
  assumes "off < 2 ^ 32" "len < 2 ^ 32"
  shows "unat (drop_bit 32 (pack_slice off len)) mod 2 ^ 32 = off" "unat (pack_slice off len) mod 2 ^ 32 = len"
proof -
  have small: "bit m n \<Longrightarrow> n < 32" if "m < 2 ^ 32" for m n :: nat
    using take_bit_nat_eq_self [OF that] bit_take_bit_iff [of 32 m n] by auto
  note hi = small [OF assms(1)] small [OF assms(2)]
  have "drop_bit 32 (pack_slice off len) = word_of_nat off"
    by (rule bit_eqI) (auto simp: pack_slice_def bit_simps dest: hi)
  then show "unat (drop_bit 32 (pack_slice off len)) mod 2 ^ 32 = off"
    using assms(1) by (simp add: unat_of_nat take_bit_eq_mod)
  have "take_bit 32 (pack_slice off len) = word_of_nat len"
    by (rule bit_eqI) (auto simp: pack_slice_def bit_simps dest: hi)
  then have "unat (take_bit 32 (pack_slice off len)) = len"
    using assms(2) by (simp add: unat_of_nat take_bit_eq_mod)
  then have "take_bit 32 (unat (pack_slice off len)) = len" by (simp only: unsigned_take_bit_eq)
  then show "unat (pack_slice off len) mod 2 ^ 32 = len" by (simp add: take_bit_eq_mod)
qed

subsection \<open>Allocating\<close>

text \<open>\<open>ar'\<close> has grown from \<open>ar\<close>: what was allocated can still be read.\<close>

definition grows :: "node arena \<Rightarrow> node arena \<Rightarrow> bool" where
  "grows ar ar' \<longleftrightarrow> ar_ptr_offset ar \<le> ar_ptr_offset ar' \<and>
     (\<forall>a n. a + n \<le> ar_ptr_offset ar \<longrightarrow> get_slice a n ar' = get_slice a n ar)"

lemma grows_trans: "grows a b \<Longrightarrow> grows b c \<Longrightarrow> grows a c"
  unfolding grows_def by auto

lemma grows_upd: "grows ar (upd_node p f ar)"
  by (auto simp: grows_def upd_node_def get_slice_def split: option.splits)

lemma grows_slice:
  assumes "alloc_slice_copy src ar = Inr (p, ar')" "arena_ok ar"
  shows "grows ar ar'"
  using get_slice_alloc [OF assms] by (auto simp: grows_def)

lemma grows_data:
  assumes "grows ar ar'" "node_ok ar p" "ar_nodes ar' p = ar_nodes ar p"
  shows "node_ok ar' p" "nkey ar' p = nkey ar p" "nval ar' p = nval ar p"
proof -
  from assms(2) obtain nd where nd: "ar_nodes ar p = Some nd"
      "nd_key_offset nd + nd_key_len nd \<le> ar_ptr_offset ar"
      "fst (value_slice nd) + snd (value_slice nd) \<le> ar_ptr_offset ar" by (auto simp: node_ok_def)
  then have "get_key nd ar' = get_key nd ar" "get_value nd ar' = get_value nd ar"
    using assms(1) by (auto simp: grows_def get_key_def get_value_def split: prod.splits)
  then show "nkey ar' p = nkey ar p" "nval ar' p = nval ar p"
    using assms(3) nd(1) by (simp_all add: nkey_def nval_def)
  show "node_ok ar' p"
    using assms unfolding node_ok_def grows_def by auto
qed

lemma value_slice_pack:
  "off < 2 ^ 32 \<Longrightarrow> len < 2 ^ 32 \<Longrightarrow> value_slice (nd\<lparr>nd_value_slice := pack_slice off len\<rparr>) = (off, len)"
  using pack_slice_read by (simp add: value_slice_def)

lemma node_set_value_ok:
  assumes ok: "arena_ok ar" and room: "ar_ptr_offset ar + rounded (length value) \<le> ar_limit ar"
    and p: "ar_nodes ar p = Some nd"
  shows "\<exists>ar' vs. node_set_value p value ar = Inr ar' \<and> arena_ok ar' \<and> grows ar ar' \<and>
    ar_ptr_offset ar' = ar_ptr_offset ar + rounded (length value) \<and>
    ar_nodes ar' = (ar_nodes ar)(p \<mapsto> nd\<lparr>nd_value_slice := vs\<rparr>) \<and>
    value_slice (nd\<lparr>nd_value_slice := vs\<rparr>) = (ar_ptr_offset ar, length value) \<and>
    get_slice (ar_ptr_offset ar) (length value) ar' = Some value"
proof -
  obtain ar1 where 1: "alloc_slice_copy value ar = Inr (ar_ptr_offset ar, ar1)"
    using alloc_slice_total [OF ok room] by blast
  note a = get_slice_alloc [OF 1 ok]
  let ?vs = "pack_slice (arena_offset (ar_ptr_offset ar)) (length value)"
  let ?ar = "upd_node p (\<lambda>nd. nd\<lparr>nd_value_slice := ?vs\<rparr>) ar1"
  have small: "ar_ptr_offset ar < 2 ^ 32" "length value < 2 ^ 32"
    using ok room rounded_ge [of "length value"] by (auto simp: arena_ok_def)
  have vs: "value_slice (nd\<lparr>nd_value_slice := ?vs\<rparr>) = (ar_ptr_offset ar, length value)"
    using small by (simp add: value_slice_pack arena_offset_def)
  have u: "?ar = ar1\<lparr>ar_nodes := (ar_nodes ar)(p \<mapsto> nd\<lparr>nd_value_slice := ?vs\<rparr>)\<rparr>"
    using a(6) p by (simp add: upd_node_def)
  have "node_set_value p value ar = Inr ?ar" by (simp add: node_set_value_def 1)
  moreover have "arena_ok ?ar" "ar_ptr_offset ?ar = ar_ptr_offset ar + rounded (length value)"
    "get_slice (ar_ptr_offset ar) (length value) ?ar = Some value"
    using a by (auto simp: u arena_ok_def get_slice_def)
  moreover have "grows ar ?ar" using grows_trans [OF grows_slice [OF 1 ok] grows_upd] .
  ultimately show ?thesis using vs by (intro exI [of _ ?ar] exI [of _ ?vs]) (simp add: u)
qed

lemma Node_new_ok:
  assumes ok: "arena_ok ar" "8 < ar_ptr_offset ar"
    and room: "ar_ptr_offset ar + SKL_MAX_NODE_SIZE + rounded (length key) + rounded (length value) \<le> ar_limit ar"
    and key: "length key < 2 ^ 16" and ht: "1 \<le> height" "height \<le> SKL_MAX_HEIGHT"
  shows "\<exists>ar'. Node_new key value height ar = Inr (ar_ptr_offset ar, ar') \<and> arena_ok ar' \<and> grows ar ar' \<and>
    (\<forall>p. p \<noteq> ar_ptr_offset ar \<longrightarrow> ar_nodes ar' p = ar_nodes ar p) \<and> node_ok ar' (ar_ptr_offset ar) \<and>
    nkey ar' (ar_ptr_offset ar) = key \<and> nval ar' (ar_ptr_offset ar) = value \<and>
    nheight ar' (ar_ptr_offset ar) = height"
proof -
  let ?q = "ar_ptr_offset ar"
  have r: "rounded SKL_MAX_NODE_SIZE = SKL_MAX_NODE_SIZE" by (simp add: rounded_def SKL_MAX_NODE_SIZE_def)
  let ?ar1 = "ar\<lparr>ar_ptr_offset := ?q + SKL_MAX_NODE_SIZE, ar_nodes := (ar_nodes ar)(?q \<mapsto> Node_default)\<rparr>"
  have 1: "alloc_with SKL_MAX_NODE_SIZE Node_default ar = Inr (?q, ?ar1)"
    using alloc_layout_total [OF ok(1), of SKL_MAX_NODE_SIZE] room by (simp add: alloc_with_def r)
  have ok1: "arena_ok ?ar1"
    using ok room rounded_mod [of SKL_MAX_NODE_SIZE] by (auto simp: arena_ok_def r mod_add_eq)
  have g1: "grows ar ?ar1" by (auto simp: grows_def get_slice_def)
  obtain ar2 where 2: "alloc_slice_copy key ?ar1 = Inr (?q + SKL_MAX_NODE_SIZE, ar2)"
    using alloc_slice_total [OF ok1, of key] room by auto
  note a2 = get_slice_alloc [OF 2 ok1]
  define nd where "nd = Node_default\<lparr>nd_key_offset := ?q + SKL_MAX_NODE_SIZE, nd_key_len := length key,
    nd_height := height, nd_prev := 8\<rparr>"
  have small: "?q + SKL_MAX_NODE_SIZE < 2 ^ 32" using ok1 by (auto simp: arena_ok_def)
  define ar3 where "ar3 = upd_node ?q (\<lambda>nd. nd\<lparr>nd_key_offset := arena_offset (?q + SKL_MAX_NODE_SIZE),
    nd_key_len := length key mod 2 ^ 16, nd_height := height mod 2 ^ 16, nd_prev := 8\<rparr>) ar2"
  have u3: "ar3 = ar2\<lparr>ar_nodes := (ar_nodes ar)(?q \<mapsto> nd)\<rparr>"
    using small key ht unfolding ar3_def upd_node_def a2(6)
    by (simp add: nd_def arena_offset_def SKL_MAX_HEIGHT_def)
  have ok3: "arena_ok ar3" "ar_ptr_offset ar3 = ?q + SKL_MAX_NODE_SIZE + rounded (length key)"
    "ar_limit ar3 = ar_limit ar"
    using a2 2 ok1 alloc_layout_total [OF ok1, of "length key"] room
    by (auto simp: u3 arena_ok_def alloc_slice_copy_def)
  have g3: "grows ?ar1 ar3" unfolding ar3_def using grows_trans [OF grows_slice [OF 2 ok1] grows_upd] .
  have n3: "ar_nodes ar3 ?q = Some nd" by (simp add: u3)
  have room3: "ar_ptr_offset ar3 + rounded (length value) \<le> ar_limit ar3" using room by (simp add: ok3)
  obtain ar4 vs where 4: "node_set_value ?q value ar3 = Inr ar4" "arena_ok ar4" "grows ar3 ar4"
    "ar_ptr_offset ar4 = ar_ptr_offset ar3 + rounded (length value)"
    "ar_nodes ar4 = (ar_nodes ar3)(?q \<mapsto> nd\<lparr>nd_value_slice := vs\<rparr>)"
    "value_slice (nd\<lparr>nd_value_slice := vs\<rparr>) = (ar_ptr_offset ar3, length value)"
    "get_slice (ar_ptr_offset ar3) (length value) ar4 = Some value"
    using node_set_value_ok [OF ok3(1) room3 n3] by blast
  have nn: "Node_new key value height ar = Inr (?q, ar4)"
    using 4(1) by (simp add: Node_new_def 1 2 ar3_def)
  have n4: "ar_nodes ar4 ?q = Some (nd\<lparr>nd_value_slice := vs\<rparr>)" by (simp add: 4(5))
  have k4: "get_slice (?q + SKL_MAX_NODE_SIZE) (length key) ar4 = Some key"
  proof -
    have "get_slice (?q + SKL_MAX_NODE_SIZE) (length key) ar3 = Some key"
      using a2(1) by (simp add: u3 get_slice_def split: if_splits)
    moreover have "?q + SKL_MAX_NODE_SIZE + length key \<le> ar_ptr_offset ar3"
      using rounded_ge [of "length key"] by (simp add: ok3)
    ultimately show ?thesis using 4(3) by (simp add: grows_def)
  qed
  have "nkey ar4 ?q = key" using k4 by (simp add: nkey_def n4 get_key_def nd_def)
  moreover have "nval ar4 ?q = value" using 4(6,7) by (simp add: nval_def n4 get_value_def)
  moreover have "nheight ar4 ?q = height" by (simp add: nheight_def n4 nd_def)
  moreover have "node_ok ar4 ?q"
    unfolding node_ok_def n4 using ok ht 4(4,6) ok3(2) rounded_ge [of "length key"] rounded_ge [of "length value"]
    by (simp add: nd_def Node_default_def SKL_MAX_NODE_SIZE_def)
  moreover have "grows ar ar4" using grows_trans [OF grows_trans [OF g1 g3] 4(3)] .
  ultimately show ?thesis using nn 4(2,5) by (auto simp: u3)
qed

subsection \<open>Push\<close>

definition put_sorted :: "key_cmp \<Rightarrow> bytes \<Rightarrow> bytes \<Rightarrow> (bytes \<times> bytes) list \<Rightarrow> (bytes \<times> bytes) list" where
  "put_sorted cmp k v m = filter (\<lambda>e. cmp (fst e) k = Less) m @ (k, v) # filter (\<lambda>e. cmp k (fst e) = Less) m"

lemma random_height_bounds: "1 \<le> random_height coins" "random_height coins \<le> SKL_MAX_HEIGHT"
proof -
  have "1 \<le> h \<Longrightarrow> h \<le> SKL_MAX_HEIGHT \<Longrightarrow> h \<le> random_height_loop h coins \<and>
      random_height_loop h coins \<le> SKL_MAX_HEIGHT" for h
    by (induction h coins rule: random_height_loop.induct) force+
  from this [of 1] show "1 \<le> random_height coins" "random_height coins \<le> SKL_MAX_HEIGHT"
    by (auto simp: random_height_def SKL_MAX_HEIGHT_def)
qed

context key_order
begin

text \<open>Overwriting the value of a node that is there.\<close>

lemma try_set_value_repr:
  assumes repr: "skl_repr cmp valid sk L" and x: "x \<in> set L"
    and room: "ar_ptr_offset (sk_arena sk) + rounded (length value) \<le> ar_limit (sk_arena sk)"
  shows "\<exists>sk'. try_set_value x value sk = Inr sk' \<and> skl_repr cmp valid sk' L \<and>
    (\<forall>p \<in> set L. nkey (sk_arena sk') p = nkey (sk_arena sk) p \<and>
       nval (sk_arena sk') p = (if p = x then value else nval (sk_arena sk) p))"
proof -
  let ?ar = "sk_arena sk"
  obtain nd where nd: "ar_nodes ?ar x = Some nd" "get_value nd ?ar = Some (nval ?ar x)"
    using repr_nodes [OF repr x] by (metis node_okD)
  show ?thesis
  proof (cases "nval ?ar x = value")
    case True
    with nd repr show ?thesis by (auto simp: try_set_value_def)
  next
    case False
    obtain ar' vs where 1: "node_set_value x value ?ar = Inr ar'" "arena_ok ar'" "grows ?ar ar'"
      "ar_ptr_offset ar' = ar_ptr_offset ?ar + rounded (length value)"
      "ar_nodes ar' = (ar_nodes ?ar)(x \<mapsto> nd\<lparr>nd_value_slice := vs\<rparr>)"
      "value_slice (nd\<lparr>nd_value_slice := vs\<rparr>) = (ar_ptr_offset ?ar, length value)"
      "get_slice (ar_ptr_offset ?ar) (length value) ar' = Some value"
      using node_set_value_ok [OF repr_arena [OF repr] room nd(1)] by blast
    let ?sk = "sk\<lparr>sk_arena := ar'\<rparr>"
    have links: "tower ar' p h = tower ?ar p h" "nheight ar' p = nheight ?ar p" "nprev ar' p = nprev ?ar p" for p h
      using nd(1) by (simp_all add: tower_def nheight_def nprev_def 1(5))
    have kx: "nkey ar' x = nkey ?ar x" "node_ok ar' x"
    proof -
      have ok: "node_ok ?ar x" using repr_nodes [OF repr x] .
      then have "get_key nd ar' = get_key nd ?ar"
        using 1(3) nd(1) by (auto simp: node_ok_def grows_def get_key_def)
      then show "nkey ar' x = nkey ?ar x" using nd(1) by (simp add: nkey_def 1(5) get_key_def)
      show "node_ok ar' x"
        using ok 1(4,6) nd(1) rounded_ge [of "length value"] repr_arena [OF repr]
        by (auto simp: node_ok_def 1(5) arena_ok_def)
    qed
    have other: "node_ok ar' p" "nkey ar' p = nkey ?ar p" "nval ar' p = nval ?ar p" if "p \<in> set L" "p \<noteq> x" for p
      using grows_data [OF 1(3) repr_nodes [OF repr that(1)]] that(2) by (simp_all add: 1(5))
    have keys: "p \<in> set L \<Longrightarrow> nkey ar' p = nkey ?ar p" for p using kx(1) other(2) by (cases "p = x") auto
    have vx: "nval ar' x = value" using 1(6,7) by (simp add: nval_def 1(5) get_value_def)
    have lev: "level_list ar' h L = level_list ?ar h L" for h by (simp add: level_list_def links)
    have x8: "x \<noteq> 8" using kx(2) by (auto simp: node_ok_def)
    have "is_path ar' h 8 zs = is_path ?ar h 8 zs" "is_back ar' 8 zs = is_back ?ar 8 zs" for h zs
      by (rule is_path_frame, simp add: links) (rule is_back_frame, simp add: links)
    moreover have "sorted_wrt (\<lambda>p q. cmp (nkey ar' p) (nkey ar' q) = Less) L"
      using repr_ascending [OF repr] keys by (auto intro: sorted_wrt_mono_rel [rotated])
    ultimately have "skl_repr cmp valid ?sk L"
      using repr 1(2,4) kx other keys x8 unfolding skl_repr_def
      by (auto simp: lev links 1(5))
    then show ?thesis using False nd 1(1) keys vx other(3) by (auto simp: try_set_value_def)
  qed
qed

text \<open>The positions the first loop of \<open>push\<close> finds for a key that is not there.\<close>

lemma find_splices_new:
  assumes repr: "skl_repr cmp valid sk L" and k: "valid k" "k \<notin> nkey (sk_arena sk) ` set L"
    and null: "null = replicate (SKL_MAX_HEIGHT + 1) 0"
  shows "\<exists>prev nxt. find_splices cmp (sk_arena sk) k (sk_height sk) (null[sk_height sk := 8]) null = Some (Inr (prev, nxt)) \<and>
    (\<forall>h \<le> sk_height sk. prev ! h = last (8 # X (sk_arena sk) L k h) \<and> nxt ! h = hd0 (Y (sk_arena sk) L k h)) \<and>
    (\<forall>h. sk_height sk < h \<longrightarrow> h < SKL_MAX_HEIGHT \<longrightarrow> prev ! h = 0)"
proof -
  let ?ar = "sk_arena sk" and ?H = "sk_height sk"
  let ?pv = "null[?H := 8]"
  have H: "?H \<le> SKL_MAX_HEIGHT" by (rule repr_height [OF repr])
  have top: "level_list ?ar ?H L = []" by (rule repr_level_top [OF repr order_refl])
  have len: "length null = SKL_MAX_HEIGHT + 1" and nul: "\<And>h. h \<le> SKL_MAX_HEIGHT \<Longrightarrow> null ! h = 0"
    unfolding null length_replicate by (rule refl, rule nth_replicate) simp
  have st: "?pv ! ?H = last (8 # takeWhile (lt ?ar k) (level_list ?ar ?H L))"
    using H len by (simp add: top)
  have "case find_splices cmp ?ar k ?H ?pv null of
       None \<Rightarrow> False
     | Some (Inl x) \<Rightarrow> x \<in> set L \<and> nkey ?ar x = k
     | Some (Inr (prev', nxt')) \<Rightarrow>
         (\<forall>h < ?H. (prev' ! h, nxt' ! h) = splice_at ?ar L k h \<and>
            (\<forall>x \<in> set (level_list ?ar h L). nkey ?ar x \<noteq> k)) \<and>
         (\<forall>h. ?H \<le> h \<longrightarrow> prev' ! h = ?pv ! h \<and> nxt' ! h = null ! h)"
    by (rule find_splices_spec [OF repr k(1) H]) (use st len in simp_all)
  then obtain prev nxt where fs: "find_splices cmp ?ar k ?H ?pv null = Some (Inr (prev, nxt))"
    and lo: "\<And>h. h < ?H \<Longrightarrow> (prev ! h, nxt ! h) = splice_at ?ar L k h \<and> (\<forall>x \<in> set (level_list ?ar h L). nkey ?ar x \<noteq> k)"
    and hi: "\<And>h. ?H \<le> h \<Longrightarrow> prev ! h = ?pv ! h \<and> nxt ! h = null ! h"
    using k(2) by (auto split: option.splits sum.splits)
  have "prev ! h = last (8 # X ?ar L k h) \<and> nxt ! h = hd0 (Y ?ar L k h)" if "h \<le> ?H" for h
  proof (cases "h = ?H")
    case True
    then show ?thesis using hi [of h] H len nul [of h] by (simp add: top)
  next
    case False
    with that have "h < ?H" by simp
    note asc = ascending_split [OF ascending_level [OF repr_ascending [OF repr]] k(1), of h]
    have "\<forall>x \<in> set (Y ?ar L k h). nkey ?ar x \<noteq> k" using lo [OF \<open>h < ?H\<close>] by auto
    with lo [OF \<open>h < ?H\<close>] show ?thesis
      unfolding splice_at_def splice_pick_def asc by (cases "Y ?ar L k h") simp_all
  qed
  moreover have "\<forall>h. ?H < h \<longrightarrow> h < SKL_MAX_HEIGHT \<longrightarrow> prev ! h = 0" using hi nul by simp
  ultimately show ?thesis using fs by blast
qed

lemma find_splices_old:
  assumes repr: "skl_repr cmp valid sk L" and k: "valid k" and y: "y \<in> set L" "nkey (sk_arena sk) y = k"
    and null: "null = replicate (SKL_MAX_HEIGHT + 1) 0"
  shows "find_splices cmp (sk_arena sk) k (sk_height sk) (null[sk_height sk := 8]) null = Some (Inl y)"
proof -
  let ?ar = "sk_arena sk" and ?H = "sk_height sk"
  let ?pv = "null[?H := 8]"
  have H: "1 \<le> ?H" "?H \<le> SKL_MAX_HEIGHT" by (rule repr_height [OF repr])+
  have top: "level_list ?ar ?H L = []" by (rule repr_level_top [OF repr order_refl])
  have len: "length null = SKL_MAX_HEIGHT + 1" unfolding null by (rule length_replicate)
  have st: "?pv ! ?H = last (8 # takeWhile (lt ?ar k) (level_list ?ar ?H L))"
    using H len by (simp add: top)
  have "case find_splices cmp ?ar k ?H ?pv null of
       None \<Rightarrow> False
     | Some (Inl x) \<Rightarrow> x \<in> set L \<and> nkey ?ar x = k
     | Some (Inr (prev', nxt')) \<Rightarrow>
         (\<forall>h < ?H. (prev' ! h, nxt' ! h) = splice_at ?ar L k h \<and>
            (\<forall>x \<in> set (level_list ?ar h L). nkey ?ar x \<noteq> k)) \<and>
         (\<forall>h. ?H \<le> h \<longrightarrow> prev' ! h = ?pv ! h \<and> nxt' ! h = null ! h)"
    by (rule find_splices_spec [OF repr k H(2)]) (use st len in simp_all)
  moreover have "\<exists>x \<in> set (level_list ?ar 0 L). nkey ?ar x = k" using y repr_level_0 [OF repr] by auto
  moreover have "x = y" if "x \<in> set L" "nkey ?ar x = k" for x
    using dropWhile_key [OF repr_ascending [OF repr] that] dropWhile_key [OF repr_ascending [OF repr] y] by auto
  ultimately show ?thesis using H(1) by (auto split: option.splits sum.splits dest: spec [of _ 0])
qed

lemma ascending_insert:
  assumes asc: "ascending ar L" and k: "valid k" "k \<notin> nkey ar ` set L" and q: "nkey ar q = k"
  shows "ascending ar (filter (lt ar k) L @ q # filter (\<lambda>x. \<not> lt ar k x) L)"
    and "x \<in> set L \<Longrightarrow> \<not> lt ar k x \<longleftrightarrow> cmp k (nkey ar x) = Less"
proof -
  show gt: "\<not> lt ar k x \<longleftrightarrow> cmp k (nkey ar x) = Less" if "x \<in> set L" for x
  proof -
    have "valid (nkey ar x)" "nkey ar x \<noteq> k" using that asc k(2) by auto
    then show ?thesis
      using cmp_Equal [of "nkey ar x" k] cmp_flip [of "nkey ar x" k] k(1) by (cases "cmp (nkey ar x) k") auto
  qed
  have "sorted_wrt (\<lambda>p q. cmp (nkey ar p) (nkey ar q) = Less) (filter (lt ar k) L @ filter (\<lambda>x. \<not> lt ar k x) L)"
    using asc ascending_split [OF asc k(1)] by (metis takeWhile_dropWhile_id)
  then show "ascending ar (filter (lt ar k) L @ q # filter (\<lambda>x. \<not> lt ar k x) L)"
    using asc k(1) gt q by (auto simp: sorted_wrt_append)
qed

text \<open>\<open>ar0\<close> is the arena with a new node \<open>q\<close> that is not linked yet.\<close>

definition fresh_node :: "node arena \<Rightarrow> node arena \<Rightarrow> nat \<Rightarrow> bytes \<Rightarrow> nat \<Rightarrow> bool" where
  "fresh_node ar ar0 q k r \<longleftrightarrow> arena_ok ar0 \<and> grows ar ar0 \<and> (\<forall>p. p \<noteq> q \<longrightarrow> ar_nodes ar0 p = ar_nodes ar p) \<and>
     node_ok ar0 q \<and> nkey ar0 q = k \<and> nheight ar0 q = r \<and> 8 < q \<and> q = ar_ptr_offset ar"

lemma fresh_data:
  assumes "skl_repr cmp valid sk L" "fresh_node (sk_arena sk) ar0 q k r" "p \<in> set L"
  shows "p \<noteq> q" "node_ok ar0 p" "nkey ar0 p = nkey (sk_arena sk) p" "nval ar0 p = nval (sk_arena sk) p"
proof -
  show nq: "p \<noteq> q" using repr_nodes [OF assms(1,3)] assms(2) by (auto simp: node_ok_def fresh_node_def)
  have "grows (sk_arena sk) ar0" "ar_nodes ar0 p = ar_nodes (sk_arena sk) p" using assms(2) nq by (auto simp: fresh_node_def)
  from grows_data [OF this(1) repr_nodes [OF assms(1,3)] this(2)]
  show "node_ok ar0 p" "nkey ar0 p = nkey (sk_arena sk) p" "nval ar0 p = nval (sk_arena sk) p" by auto
qed

lemma fresh_links:
  assumes "fresh_node ar ar0 q k r" "p \<noteq> q"
  shows "tower ar0 p h = tower ar p h" "nheight ar0 p = nheight ar p" "nprev ar0 p = nprev ar p"
  using assms by (simp_all add: fresh_node_def tower_def nheight_def nprev_def)

lemma fresh_levels:
  assumes "skl_repr cmp valid sk L" "fresh_node (sk_arena sk) ar0 q k r"
  shows "level_list ar0 h L = level_list (sk_arena sk) h L" "X ar0 L k h = X (sk_arena sk) L k h" "Y ar0 L k h = Y (sk_arena sk) L k h"
    "filter (lt ar0 k) L = filter (lt (sk_arena sk) k) L" "filter (\<lambda>x. \<not> lt ar0 k x) L = filter (\<lambda>x. \<not> lt (sk_arena sk) k x) L"
    "ascending ar0 L"
proof -
  note d = fresh_data [OF assms]
  show l: "level_list ar0 h L = level_list (sk_arena sk) h L"
    unfolding level_list_def by (rule filter_cong) (use fresh_links(2) [OF assms(2)] d(1) in auto)
  show "X ar0 L k h = X (sk_arena sk) L k h" "Y ar0 L k h = Y (sk_arena sk) L k h"
    unfolding l by (rule filter_cong; use d(3) in \<open>auto simp: level_list_def\<close>)+
  show "filter (lt ar0 k) L = filter (lt (sk_arena sk) k) L" "filter (\<lambda>x. \<not> lt ar0 k x) L = filter (\<lambda>x. \<not> lt (sk_arena sk) k x) L"
    by (rule filter_cong; use d(3) in auto)+
  show "ascending ar0 L" using repr_ascending [OF assms(1)] d(3) by (auto intro: sorted_wrt_mono_rel [rotated])
qed

lemma fresh_linked:
  assumes "skl_repr cmp valid sk L" "fresh_node (sk_arena sk) ar0 q k r" "valid k"
  shows "linked ar0 L k q 0 ar0"
proof -
  let ?ar = "sk_arena sk"
  note lv = fresh_levels [OF assms(1,2)] and tw = fresh_links [OF assms(2)] and nq = fresh_data(1) [OF assms(1,2)]
  have split: "X ?ar L k h @ Y ?ar L k h = level_list ?ar h L" for h
    using ascending_split [OF ascending_level [OF repr_ascending [OF assms(1)]] assms(3), of h] by (metis takeWhile_dropWhile_id)
  have "8 \<noteq> q" using assms(2) by (auto simp: fresh_node_def)
  then have "is_path ar0 h 8 (level_list ?ar h L)" if "h < SKL_MAX_HEIGHT" for h
    using repr_path [OF assms(1) that] is_path_frame [of 8 "level_list ?ar h L" ar0 h ?ar] tw nq by (auto simp: level_list_def)
  moreover have "is_back ar0 8 L" using repr_back [OF assms(1)] is_back_frame [of L ar0 ?ar 8] tw nq by auto
  ultimately show ?thesis using repr_level_0 [OF assms(1)] split [of 0] by (simp add: linked_def links_only_refl lv(2-5) split)
qed

text \<open>The list with the node linked at all its levels.\<close>

lemma linked_repr:
  assumes repr: "skl_repr cmp valid sk L" and fr: "fresh_node (sk_arena sk) ar0 q k r" and k: "valid k" "k \<notin> nkey (sk_arena sk) ` set L"
    and r: "0 < r" "r \<le> SKL_MAX_HEIGHT" and lk: "linked ar0 L k q r ar'"
  shows "skl_repr cmp valid (sk\<lparr>sk_height := max (sk_height sk) r, sk_arena := ar'\<rparr>)
    (filter (lt (sk_arena sk) k) L @ q # filter (\<lambda>x. \<not> lt (sk_arena sk) k x) L)"
proof -
  let ?ar = "sk_arena sk" and ?sk = "sk\<lparr>sk_height := max (sk_height sk) r, sk_arena := ar'\<rparr>"
  let ?L = "filter (lt ?ar k) L @ q # filter (\<lambda>x. \<not> lt ?ar k x) L"
  note lv = fresh_levels [OF repr fr] and d = fresh_data [OF repr fr] and tw = fresh_links [OF fr]
  have q: "arena_ok ar0" "grows ?ar ar0" "node_ok ar0 q" "nkey ar0 q = k" "nheight ar0 q = r" "8 < q" "8 < ar_ptr_offset ar0"
    "ar_nodes ar0 8 = ar_nodes ?ar 8" using fr by (auto simp: fresh_node_def grows_def)
  have lo: "links_only ar0 ar'" and path: "\<And>h. h < SKL_MAX_HEIGHT \<Longrightarrow> is_path ar' h 8 (X ?ar L k h @ (if h < r then [q] else []) @ Y ?ar L k h)"
    and bk: "is_back ar' 8 ?L" using lk r(1) repr_level_0 [OF repr] by (auto simp: linked_def lv(2-5))
  note d' = links_only_data [OF lo]
  have lev': "level_list ar' h ?L = X ?ar L k h @ (if h < r then [q] else []) @ Y ?ar L k h" for h
  proof -
    have "filter (\<lambda>x. h < nheight ar0 x \<and> Q x) L = filter (\<lambda>x. h < nheight ?ar x \<and> Q x) L" for Q
      by (rule filter_cong) (use tw(2) d(1) in auto)
    from this [of "lt ?ar k"] this [of "\<lambda>x. \<not> lt ?ar k x"] show ?thesis by (simp add: level_list_def d'(3) q(5) conj_commute)
  qed
  have "k \<notin> nkey ar0 ` set L" using k(2) d(3) by force
  from ascending_insert(1) [OF lv(6) k(1) this q(4)] have asc: "ascending ar' ?L" unfolding lv(4,5) by (simp add: d'(1))
  show ?thesis
    unfolding skl_repr_def
  proof (intro conjI)
    show "arena_ok (sk_arena ?sk)" using q(1) by (simp add: d'(5))
    show "sk_head ?sk = 8" using repr_head(1) [OF repr] by simp
    show "8 < ar_ptr_offset (sk_arena ?sk)" using q(7) lo by (simp add: links_only_def)
    show "\<exists>hd. ar_nodes (sk_arena ?sk) 8 = Some hd \<and> length (nd_tower hd) = SKL_MAX_HEIGHT"
      using repr_head(2) [OF repr] q(8) d'(6) [of 8 SKL_MAX_HEIGHT] by simp
    show "\<forall>p \<in> set ?L. node_ok (sk_arena ?sk) p" using q(3) d(2) by (auto simp: d'(4))
    show "\<forall>h < SKL_MAX_HEIGHT. is_path (sk_arena ?sk) h 8 (level_list (sk_arena ?sk) h ?L)" using path lev' by simp
    show "sorted_wrt (\<lambda>p q. cmp (nkey (sk_arena ?sk) p) (nkey (sk_arena ?sk) q) = Less) ?L"
      "\<forall>p \<in> set ?L. valid (nkey (sk_arena ?sk) p)" using asc by simp_all
    show "1 \<le> sk_height ?sk" "sk_height ?sk \<le> SKL_MAX_HEIGHT" using repr_height [OF repr] r by simp_all
    have "\<forall>p \<in> set L. nheight ?ar p \<le> sk_height sk" using repr by (simp add: skl_repr_def)
    then show "\<forall>p \<in> set ?L. nheight (sk_arena ?sk) p \<le> sk_height ?sk" using tw(2) d(1) q(5) by (auto simp: d'(3) le_max_iff_disj)
    show "is_back (sk_arena ?sk) 8 ?L" using bk by simp
  qed
qed

lemma push_new_repr:
  assumes repr: "skl_repr cmp valid sk L" and k: "valid k" "k \<notin> nkey (sk_arena sk) ` set L" "length k < 2 ^ 16"
    and room: "ar_ptr_offset (sk_arena sk) + SKL_MAX_NODE_SIZE + rounded (length k) + rounded (length v)
      \<le> ar_limit (sk_arena sk)"
  shows "\<exists>sk' q. skl_push cmp coins k v sk = Some (Inr sk') \<and>
    skl_repr cmp valid sk' (filter (lt (sk_arena sk) k) L @ q # filter (\<lambda>x. \<not> lt (sk_arena sk) k x) L) \<and>
    nkey (sk_arena sk') q = k \<and> nval (sk_arena sk') q = v \<and>
    (\<forall>p \<in> set L. nkey (sk_arena sk') p = nkey (sk_arena sk) p \<and> nval (sk_arena sk') p = nval (sk_arena sk) p)"
proof -
  let ?ar = "sk_arena sk" and ?H = "sk_height sk" and ?q = "ar_ptr_offset (sk_arena sk)" and ?r = "random_height coins"
  let ?null = "replicate (SKL_MAX_HEIGHT + 1) 0 :: nat list"
  obtain prev nxt where fs: "find_splices cmp ?ar k ?H (?null[?H := 8]) ?null = Some (Inr (prev, nxt))"
    and pv: "\<And>h. h \<le> ?H \<Longrightarrow> prev ! h = last (8 # X ?ar L k h) \<and> nxt ! h = hd0 (Y ?ar L k h)"
      "\<And>h. ?H < h \<Longrightarrow> h < SKL_MAX_HEIGHT \<Longrightarrow> prev ! h = 0"
    using find_splices_new [OF repr k(1,2) refl] by blast
  have ptr: "8 < ?q" using repr by (simp add: skl_repr_def)
  obtain ar0 where 0: "Node_new k v ?r ?ar = Inr (?q, ar0)" "nval ar0 ?q = v" "fresh_node ?ar ar0 ?q k ?r"
    using Node_new_ok [OF repr_arena [OF repr] ptr room k(3) random_height_bounds] ptr unfolding fresh_node_def by blast
  note lv = fresh_levels [OF repr 0(3)] and d = fresh_data [OF repr 0(3)]
  have q: "node_ok ar0 ?q" "arena_ok ar0" "nkey ar0 ?q = k" using 0(3) by (auto simp: fresh_node_def)
  have h8: "\<exists>nd. ar_nodes ar0 8 = Some nd \<and> length (nd_tower nd) = SKL_MAX_HEIGHT" "8 < ar_ptr_offset ar0"
    using repr_head(2) [OF repr] 0(3) ptr by (auto simp: grows_def fresh_node_def)
  have tops: "level_list ar0 h L = []" if "?H \<le> h" for h using repr_level_top [OF repr that] by (simp add: lv(1))
  have "\<exists>ar'. link_levels cmp 8 k ?q prev nxt [0 ..< ?r] ar0 = Some (Inr ar') \<and> linked ar0 L k ?q ?r ar'"
  proof (rule link_levels_ok [OF lv(6) _ q(1) _ q(2) h8 k(1) repr_height(1) [OF repr] tops random_height_bounds(2)])
    show "\<forall>p \<in> set L. node_ok ar0 p" "?q \<notin> set L" using d by blast+
    show "prev ! h = last (8 # X ar0 L k h) \<and> nxt ! h = hd0 (Y ar0 L k h)" if "h \<le> ?H" for h
      unfolding lv(2,3) by (rule pv(1) [OF that])
    show "prev ! h = 0" if "?H < h" "h < ?r" for h using pv(2) [OF that(1)] that(2) random_height_bounds(2) [of coins] by simp
  qed (use fresh_linked [OF repr 0(3) k(1)] in simp_all)
  then obtain ar' where lk: "link_levels cmp 8 k ?q prev nxt [0 ..< ?r] ar0 = Some (Inr ar')" "linked ar0 L k ?q ?r ar'" by blast
  have push: "skl_push cmp coins k v sk = Some (Inr (sk\<lparr>sk_height := max ?H ?r, sk_arena := ar'\<rparr>))"
    using fs 0(1) lk(1) repr_head(1) [OF repr] by (simp add: skl_push_def)
  have rep: "skl_repr cmp valid (sk\<lparr>sk_height := max ?H ?r, sk_arena := ar'\<rparr>) (filter (lt ?ar k) L @ ?q # filter (\<lambda>x. \<not> lt ?ar k x) L)"
    by (rule linked_repr [OF repr 0(3) k(1,2) _ _ lk(2)]) (use random_height_bounds [of coins] in simp_all)
  have "links_only ar0 ar'" using lk(2) by (simp add: linked_def)
  from links_only_data(1,2) [OF this] push rep d(3,4) 0(2) q(3) show ?thesis
    by (intro exI [of _ "sk\<lparr>sk_height := max ?H ?r, sk_arena := ar'\<rparr>"] exI [of _ ?q]) simp
qed

lemma map_replace:
  assumes "ascending ar L" "x \<in> set L" "nkey ar x = k"
    and "\<forall>p \<in> set L. f p = (nkey ar p, if p = x then v else nval ar p)"
  shows "map f L = put_sorted cmp k v (map (\<lambda>p. (nkey ar p, nval ar p)) L)"
proof -
  from assms(2) obtain us vs where L: "L = us @ x # vs" by (meson split_list)
  have val: "valid k" "\<forall>a \<in> set us \<union> set vs. valid (nkey ar a)" using assms(1,3) by (auto simp: L)
  have flip: "cmp a b = Less \<Longrightarrow> cmp b a \<noteq> Less" if "valid a" "valid b" for a b
    using cmp_flip [OF that(2,1)] by auto
  have us: "\<forall>a \<in> set us. cmp (nkey ar a) k = Less \<and> cmp k (nkey ar a) \<noteq> Less"
    using assms(1,3) val flip by (simp add: L sorted_wrt_append)
  have vs: "\<forall>a \<in> set vs. cmp k (nkey ar a) = Less \<and> cmp (nkey ar a) k \<noteq> Less"
    using assms(1,3) val flip by (simp add: L sorted_wrt_append)
  have k: "cmp k k \<noteq> Less" using not_less_self [OF val(1)] by simp
  have "x \<notin> set us" "x \<notin> set vs" using ascending_distinct [OF assms(1)] by (auto simp: L)
  with assms(4) have "map f us = map (\<lambda>p. (nkey ar p, nval ar p)) us"
    "map f vs = map (\<lambda>p. (nkey ar p, nval ar p)) vs" "f x = (k, v)"
    using assms(3) by (auto simp: L)
  with us vs k assms(3) show ?thesis
    by (simp add: L put_sorted_def filter_map comp_def)
qed

lemma push_inv:
  assumes inv: "skl_inv cmp valid sk m" and k: "valid k" "length k < 2 ^ 16"
    and room: "ar_ptr_offset (sk_arena sk) + SKL_MAX_NODE_SIZE + rounded (length k) + rounded (length v)
      \<le> ar_limit (sk_arena sk)"
  shows "\<exists>sk'. skl_push cmp coins k v sk = Some (Inr sk') \<and> skl_inv cmp valid sk' (put_sorted cmp k v m)"
proof -
  let ?ar = "sk_arena sk"
  from inv obtain L where repr: "skl_repr cmp valid sk L" and m: "m = map (\<lambda>p. (nkey ?ar p, nval ?ar p)) L"
    by (auto simp: skl_inv_def)
  show ?thesis
  proof (cases "k \<in> nkey ?ar ` set L")
    case True
    then obtain y where y: "y \<in> set L" "nkey ?ar y = k" by auto
    let ?null = "replicate (SKL_MAX_HEIGHT + 1) 0 :: nat list" and ?H = "sk_height sk"
    have "find_splices cmp ?ar k ?H (?null[?H := 8]) ?null = Some (Inl y)"
      by (rule find_splices_old [OF repr k(1) y refl])
    moreover obtain sk' where 1: "try_set_value y v sk = Inr sk'" "skl_repr cmp valid sk' L"
      "\<forall>p \<in> set L. nkey (sk_arena sk') p = nkey ?ar p \<and> nval (sk_arena sk') p = (if p = y then v else nval ?ar p)"
      using try_set_value_repr [OF repr y(1), of v] room by auto
    ultimately have "skl_push cmp coins k v sk = Some (Inr sk')"
      using repr_head(1) [OF repr] by (simp add: skl_push_def)
    moreover have "skl_inv cmp valid sk' (put_sorted cmp k v m)"
      unfolding m using 1(2,3) map_replace [OF repr_ascending [OF repr] y, of "\<lambda>p. (nkey (sk_arena sk') p, nval (sk_arena sk') p)" v]
      by (auto simp: skl_inv_def)
    ultimately show ?thesis by blast
  next
    case False
    obtain sk' q where 1: "skl_push cmp coins k v sk = Some (Inr sk')"
      "skl_repr cmp valid sk' (filter (lt ?ar k) L @ q # filter (\<lambda>x. \<not> lt ?ar k x) L)"
      "nkey (sk_arena sk') q = k" "nval (sk_arena sk') q = v"
      "\<forall>p \<in> set L. nkey (sk_arena sk') p = nkey ?ar p \<and> nval (sk_arena sk') p = nval ?ar p"
      using push_new_repr [OF repr k(1) False k(2) room] by blast
    have gt: "filter (\<lambda>x. \<not> lt ?ar k x) L = filter (\<lambda>x. cmp k (nkey ?ar x) = Less) L"
    proof (rule filter_cong [OF refl])
      fix x assume x: "x \<in> set L"
      have "valid (nkey ?ar x)" "nkey ?ar x \<noteq> k" using x repr_ascending [OF repr] False by auto
      then show "\<not> lt ?ar k x \<longleftrightarrow> cmp k (nkey ?ar x) = Less"
        using cmp_Equal [of "nkey ?ar x" k] cmp_flip [of "nkey ?ar x" k] k(1) by (cases "cmp (nkey ?ar x) k") auto
    qed
    have "skl_inv cmp valid sk' (put_sorted cmp k v m)"
      unfolding skl_inv_def
      by (rule exI, rule conjI [OF 1(2)]) (use 1(3-5) in \<open>auto simp: m put_sorted_def filter_map comp_def gt\<close>)
    with 1(1) show ?thesis by blast
  qed
qed

lemma get_key_value_inv:
  assumes inv: "skl_inv cmp valid sk m" and k: "valid k"
  shows "get_key_value cmp k near sk = Some (Inr (case filter (\<lambda>e. cmp (fst e) k \<noteq> Less) m of
      [] \<Rightarrow> None | e # _ \<Rightarrow> if fst e = k \<or> near then Some e else None))"
proof -
  let ?ar = "sk_arena sk"
  from inv obtain L where repr: "skl_repr cmp valid sk L" and m: "m = map (\<lambda>p. (nkey ?ar p, nval ?ar p)) L"
    by (auto simp: skl_inv_def)
  have asc: "dropWhile (lt ?ar k) L = filter (\<lambda>x. \<not> lt ?ar k x) L"
    by (rule ascending_split [OF repr_ascending [OF repr] k])
  have fm: "filter (\<lambda>e. cmp (fst e) k \<noteq> Less) m = map (\<lambda>p. (nkey ?ar p, nval ?ar p)) (filter (\<lambda>x. \<not> lt ?ar k x) L)"
    by (simp add: m filter_map comp_def)
  show ?thesis
  proof (cases "filter (\<lambda>x. \<not> lt ?ar k x) L")
    case Nil
    then show ?thesis unfolding fm
      by (simp add: get_key_value_def find_or_near_spec [OF repr k] near_result_def asc Nil)
  next
    case (Cons x xs)
    then have "x \<in> set (filter (\<lambda>x. \<not> lt ?ar k x) L)" by simp
    then have "x \<in> set L" by simp
    then obtain nd where "ar_nodes ?ar x = Some nd" "get_key nd ?ar = Some (nkey ?ar x)"
      "get_value nd ?ar = Some (nval ?ar x)" using repr_nodes [OF repr] by (metis node_okD)
    then show ?thesis unfolding fm
      by (simp add: get_key_value_def find_or_near_spec [OF repr k] near_result_def asc Cons)
  qed
qed

end

lemma SkipList_new_inv:
  assumes "SkipList_new page sz = Inr sk" "ar_limit (sk_arena sk) < 2 ^ 32" "0 < page"
  shows "skl_inv cmp valid sk []" "ar_ptr_offset (sk_arena sk) = 112" "sz + 8 \<le> ar_limit (sk_arena sk)"
proof -
  from assms(1) obtain ar hd ar1 where 1: "Arena_new page sz = Inr ar" "alloc_with SKL_MAX_NODE_SIZE Node_default ar = Inr (hd, ar1)"
    "sk = \<lparr>sk_height = 1, sk_head = hd, sk_arena = upd_node hd (\<lambda>nd. nd\<lparr>nd_height := SKL_MAX_HEIGHT\<rparr>) ar1\<rparr>"
    by (auto simp: SkipList_new_def and_then_Inr)
  from 1(2) obtain ar2 where 2: "alloc_layout SKL_MAX_NODE_SIZE ar = Inr (hd, ar2)"
    "ar1 = ar2\<lparr>ar_nodes := (ar_nodes ar2)(hd \<mapsto> Node_default)\<rparr>"
    by (auto simp: alloc_with_def and_then_Inr)
  have lim: "ar_limit ar2 = ar_limit ar"
    using 2(1) by (auto simp: alloc_layout_def and_then_Inr Let_def split: if_splits)
  have l: "ar_limit (sk_arena sk) = ar_limit ar" by (simp add: 1(3) 2(2) lim upd_node_def)
  note a = Arena_new_ok [OF 1(1) _ assms(3)]
  have okar: "arena_ok ar" "ar_ptr_offset ar = 8" "ar_nodes ar = Map.empty" "sz + 8 \<le> ar_limit ar"
    using a assms(2) l by simp_all
  note b = alloc_layout_ok [OF 2(1) okar(1)]
  have hd: "hd = 8" using b(1) okar(2) by simp
  have ar: "sk_arena sk = ar\<lparr>ar_ptr_offset := 112, ar_nodes := [8 \<mapsto> Node_default\<lparr>nd_height := SKL_MAX_HEIGHT\<rparr>]\<rparr>"
    using b(2) okar(3) by (simp add: 1(3) 2(2) upd_node_def hd rounded_def SKL_MAX_NODE_SIZE_def)
  have "arena_ok (sk_arena sk)"
    using b(3) b(2) by (simp add: ar arena_ok_def hd rounded_def SKL_MAX_NODE_SIZE_def)
  moreover have "is_path (sk_arena sk) h 8 []" if "h < SKL_MAX_HEIGHT" for h
    using that by (simp add: ar tower_def Node_default_def)
  moreover have "sk_head sk = 8" "sk_height sk = 1" by (simp_all add: 1(3) hd)
  ultimately have "skl_repr cmp valid sk []"
    by (simp add: skl_repr_def level_list_def ar SKL_MAX_HEIGHT_def Node_default_def)
  then show "skl_inv cmp valid sk []" by (auto simp: skl_inv_def)
  show "ar_ptr_offset (sk_arena sk) = 112" "sz + 8 \<le> ar_limit (sk_arena sk)" using okar by (simp_all add: ar)
qed

subsection \<open>Iterating\<close>

context key_order
begin

lemma find_last_from_spec:
  assumes repr: "skl_repr cmp valid sk L"
  shows "h < SKL_MAX_HEIGHT \<Longrightarrow> level_list (sk_arena sk) h L = As @ xs \<Longrightarrow> p = last (8 # As) \<Longrightarrow>
    ar_nodes (sk_arena sk) p = Some nd \<Longrightarrow>
    find_last_from (sk_arena sk) p nd h = Some (last (8 # L), the (ar_nodes (sk_arena sk) (last (8 # L))))"
proof (induction h arbitrary: As xs p nd rule: less_induct)
  case (less h)
  let ?ar = "sk_arena sk"
  show ?case using less.prems(2-4)
  proof (induction xs arbitrary: As p nd)
    case Nil
    have nn: "node_next nd h ?ar = None"
      using repr_node_at(1) [OF repr Nil(1) less.prems(1) Nil(2,3)] by simp
    show ?case
    proof (cases "h = 0")
      case True
      with Nil repr_level_0 [OF repr] nn show ?thesis by (subst find_last_from.simps) simp
    next
      case False
      have "\<exists>As' xs'. level_list ?ar (h - 1) L = As' @ xs' \<and> p = last (8 # As')"
      proof (cases "As = []")
        case True
        with Nil show ?thesis by (intro exI [of _ "[]"] exI [of _ "level_list ?ar (h - 1) L"]) simp
      next
        case False
        then have "p \<in> set (level_list ?ar h L)" using Nil by simp
        then have "p \<in> set (level_list ?ar (h - 1) L)" by (auto simp: level_list_def)
        then obtain us vs where "level_list ?ar (h - 1) L = us @ p # vs" by (meson split_list)
        then show ?thesis by (intro exI [of _ "us @ [p]"] exI [of _ vs]) simp
      qed
      then obtain As' xs' where "level_list ?ar (h - 1) L = As' @ xs'" "p = last (8 # As')" by blast
      with less.IH [of "h - 1"] False less.prems(1) Nil(3)
      have "find_last_from ?ar p nd (h - 1) = Some (last (8 # L), the (ar_nodes ?ar (last (8 # L))))" by simp
      with nn False show ?thesis by (subst find_last_from.simps) simp
    qed
  next
    case (Cons x xs)
    obtain nx where nx: "ar_nodes ?ar x = Some nx"
      using repr_node_at(2) [OF repr Cons.prems(1) less.prems(1) Cons.prems(2,3)] by blast
    have nn: "node_next nd h ?ar = Some (x, nx)"
      using repr_node_at(1) [OF repr Cons.prems(1) less.prems(1) Cons.prems(2,3)] nx by simp
    with Cons.IH [of "As @ [x]" x nx] Cons.prems nx show ?case by (subst find_last_from.simps) simp
  qed
qed

lemma find_last_spec:
  assumes repr: "skl_repr cmp valid sk L"
  shows "find_last sk = Some (Some (last (8 # L), the (ar_nodes (sk_arena sk) (last (8 # L)))))"
proof -
  have "find_last_from (sk_arena sk) 8 (head_node sk) (sk_height sk - 1)
      = Some (last (8 # L), the (ar_nodes (sk_arena sk) (last (8 # L))))"
    using repr_height [OF repr] head_node_repr [OF repr]
    by (intro find_last_from_spec [OF repr, of _ "[]"]) auto
  then show ?thesis using repr_head(1) [OF repr] by (simp add: find_last_def del: last.simps)
qed

end

text \<open>The two ends of an iterator over the nodes \<open>As @ Ms @ Bs\<close>.\<close>

definition skl_at :: "key_cmp \<Rightarrow> (bytes \<Rightarrow> bool) \<Rightarrow> skip_list \<Rightarrow> skl_iter \<Rightarrow> nat list \<Rightarrow> nat list \<Rightarrow> nat list \<Rightarrow> bool" where
  "skl_at cmp valid sk it As Ms Bs \<longleftrightarrow> skl_repr cmp valid sk (As @ Ms @ Bs) \<and>
     it_node it = Some (last (8 # As)) \<and> it_node_back it = (if Bs = [] then None else Some (hd Bs))"

context key_order
begin

lemma skl_at_distinct: "skl_at cmp valid sk it As Ms Bs \<Longrightarrow> distinct (8 # As @ Ms @ Bs)"
  using ascending_distinct [OF repr_ascending] repr_nodes
  by (fastforce simp: skl_at_def node_ok_def)

text \<open>The node the forward end stands on, and what is behind it.\<close>

lemma skl_at_node:
  assumes "skl_repr cmp valid sk (As @ Bs)"
  obtains nd where "ar_nodes (sk_arena sk) (last (8 # As)) = Some nd"
    "node_next nd 0 (sk_arena sk) = (case Bs of [] \<Rightarrow> None | x # _ \<Rightarrow> Some (x, the (ar_nodes (sk_arena sk) x)))"
proof -
  obtain nd where nd: "ar_nodes (sk_arena sk) (last (8 # As)) = Some nd"
    using repr_nodes [OF assms] repr_head(2) [OF assms] by (cases As rule: rev_cases) (auto elim: node_okD)
  have "node_next nd 0 (sk_arena sk) = (case Bs of [] \<Rightarrow> None | x # _ \<Rightarrow> Some (x, the (ar_nodes (sk_arena sk) x)))"
    using repr_node_at(1) [OF assms repr_level_0 [OF assms] _ refl nd] by (simp add: SKL_MAX_HEIGHT_def)
  with nd show ?thesis by (rule that)
qed

lemma skl_next_more:
  assumes "skl_at cmp valid sk it As (x # Ms) Bs"
  shows "\<exists>it'. Some (iter_next sk it) = Some (True, it') \<and> skl_at cmp valid sk it' (As @ [x]) Ms Bs"
proof -
  have repr: "skl_repr cmp valid sk (As @ (x # Ms @ Bs))"
    and it: "it_node it = Some (last (8 # As))" "it_node_back it = (if Bs = [] then None else Some (hd Bs))"
    using assms by (auto simp: skl_at_def)
  obtain nd where nd: "ar_nodes (sk_arena sk) (last (8 # As)) = Some nd"
    "node_next nd 0 (sk_arena sk) = Some (x, the (ar_nodes (sk_arena sk) x))" using skl_at_node [OF repr] by auto
  have "it_node_back it \<noteq> Some x" using skl_at_distinct [OF assms] it(2) by (cases Bs) auto
  moreover have "last (8 # As @ [x]) = x" by simp
  ultimately show ?thesis using it nd assms by (auto simp: iter_next_def skl_at_def simp del: last.simps)
qed

lemma skl_next_end:
  assumes "skl_at cmp valid sk it As [] Bs" shows "Some (iter_next sk it) = Some (False, it)"
proof -
  have repr: "skl_repr cmp valid sk (As @ Bs)"
    and it: "it_node it = Some (last (8 # As))" "it_node_back it = (if Bs = [] then None else Some (hd Bs))"
    using assms by (auto simp: skl_at_def)
  obtain nd where "ar_nodes (sk_arena sk) (last (8 # As)) = Some nd"
    "node_next nd 0 (sk_arena sk) = (case Bs of [] \<Rightarrow> None | x # _ \<Rightarrow> Some (x, the (ar_nodes (sk_arena sk) x)))" by (rule skl_at_node [OF repr])
  then show ?thesis using it by (cases Bs) (auto simp: iter_next_def simp del: last.simps)
qed

text \<open>The node before \<open>b\<close>, by its back link.\<close>

lemma skl_prev_node:
  assumes "skl_repr cmp valid sk (As @ b # Bs)"
  obtains nb nx where "ar_nodes (sk_arena sk) b = Some nb" "node_prev nb (sk_arena sk) = Some (last (8 # As), nx)"
proof -
  have "nprev (sk_arena sk) b = Some (last (8 # As))" using is_back_nprev [of "sk_arena sk" 8 As b Bs] repr_back [OF assms] by simp
  then obtain nb where nb: "ar_nodes (sk_arena sk) b = Some nb" "nd_prev nb = last (8 # As)" by (auto simp: nprev_def simp del: last.simps)
  obtain nd where "ar_nodes (sk_arena sk) (last (8 # As)) = Some nd" using skl_at_node [OF assms] by blast
  moreover have "arena_get (last (8 # As)) (sk_arena sk) = ar_nodes (sk_arena sk) (last (8 # As))"
  proof (cases As rule: rev_cases)
    case (snoc ys y)
    then show ?thesis using repr_nodes [OF assms, of y] by (auto elim: node_okD simp: arena_get_def)
  qed (simp add: arena_get_def)
  ultimately show ?thesis using nb that by (simp add: node_prev_def del: last.simps)
qed

lemma skl_back_more:
  assumes "skl_at cmp valid sk it As (Ms @ [x]) Bs"
  shows "\<exists>it'. iter_next_back sk it = Some (True, it') \<and> skl_at cmp valid sk it' As Ms (x # Bs)"
proof -
  have repr: "skl_repr cmp valid sk (As @ Ms @ x # Bs)"
    and it: "it_node it = Some (last (8 # As))" "it_node_back it = (if Bs = [] then None else Some (hd Bs))"
    using assms by (auto simp: skl_at_def)
  have dst: "distinct (8 # As @ Ms @ x # Bs)" using skl_at_distinct [OF assms] by simp
  show ?thesis
  proof (cases Bs)
    case Nil
    have "last (8 # As @ Ms @ x # Bs) = x" using Nil by simp
    with find_last_spec [OF repr] have fl: "find_last sk = Some (Some (x, the (ar_nodes (sk_arena sk) x)))" by (simp del: last.simps)
    have "x \<noteq> sk_head sk" using dst repr_head(1) [OF repr] by auto
    with fl it Nil repr show ?thesis
      by (intro exI [of _ "it\<lparr>it_node_back := Some x\<rparr>"]) (simp add: iter_next_back_def skl_at_def)
  next
    case (Cons b Bs')
    have "skl_repr cmp valid sk ((As @ Ms @ [x]) @ b # Bs')" using repr Cons by simp
    then obtain nb nx where "ar_nodes (sk_arena sk) b = Some nb" "node_prev nb (sk_arena sk) = Some (x, nx)"
      by (elim skl_prev_node) simp
    moreover have "last (8 # As) \<noteq> x" using dst last_in_set [of As] by auto
    ultimately show ?thesis using it Cons repr
      by (intro exI [of _ "it\<lparr>it_node_back := Some x\<rparr>"]) (simp add: iter_next_back_def skl_at_def del: last.simps)
  qed
qed

lemma skl_back_end:
  assumes "skl_at cmp valid sk it As [] Bs" "Bs \<noteq> []" shows "iter_next_back sk it = Some (False, it)"
proof -
  obtain b Bs' where B: "Bs = b # Bs'" using assms(2) by (cases Bs) auto
  have repr: "skl_repr cmp valid sk (As @ b # Bs')" and it: "it_node it = Some (last (8 # As))" "it_node_back it = Some b"
    using assms B by (auto simp: skl_at_def)
  obtain nb nx where "ar_nodes (sk_arena sk) b = Some nb" "node_prev nb (sk_arena sk) = Some (last (8 # As), nx)" by (rule skl_prev_node [OF repr])
  with it show ?thesis by (simp add: iter_next_back_def del: last.simps)
qed

lemma skl_cursor:
  "double_ended_cursor (skl_at cmp valid sk) (\<lambda>it. Some (iter_next sk it)) (iter_next_back sk)
    (iter_item sk) (iter_item_back sk)"
proof (unfold_locales, goal_cases)
  case (5 it As x Ms Bs)
  then have "x \<noteq> 8" using skl_at_distinct [OF 5] by auto
  with 5 repr_head(1) show ?case by (auto simp: iter_item_def skl_at_def)
next
  case (6 it As Ms x Bs)
  then show ?case by (simp add: iter_item_back_def skl_at_def)
qed (erule skl_next_more skl_back_more | erule skl_next_end | erule (1) skl_back_end)+

end

section \<open>The list of a memtable\<close>

text \<open>The keys of a memtable: encoded versions of non-empty keys, ordered by \<open>KeyTsBorrow::cmp\<close>.\<close>

definition encoded_key :: "bytes \<Rightarrow> bool" where
  "encoded_key b \<longleftrightarrow> length b > 8"

lemma encoded_keyE:
  assumes "encoded_key b"
  obtains k where "b = KeyTs_serialize k" "kt_key k \<noteq> []"
proof
  let ?k = "KeyTs (take (length b - 8) b) (word_of_nat (from_be (drop (length b - 8) b)))"
  have len: "length (drop (length b - 8) b) = 8" using assms by (simp add: encoded_key_def)
  have "put_u64 (word_of_nat (from_be (drop (length b - 8) b))) = drop (length b - 8) b"
  proof -
    have "from_be (drop (length b - 8) b) < 2 ^ 64" using from_be_less [of "drop (length b - 8) b"] len by simp
    then have "from_be (put_u64 (word_of_nat (from_be (drop (length b - 8) b)))) = from_be (drop (length b - 8) b)"
      by (simp add: from_be_put unat_of_nat take_bit_eq_mod)
    then show ?thesis
      using from_be_less_iff [of "put_u64 (word_of_nat (from_be (drop (length b - 8) b)))" "drop (length b - 8) b"]
        from_be_less_iff [of "drop (length b - 8) b" "put_u64 (word_of_nat (from_be (drop (length b - 8) b)))"] len
      by (metis length_put(3) nat_neq_iff not_less_iff_gr_or_eq)
  qed
  then show "b = KeyTs_serialize ?k" by (simp add: KeyTs_serialize_def)
  show "kt_key ?k \<noteq> []" using assms by (auto simp: encoded_key_def)
qed

interpretation mem_order: key_order KeyTsBorrow_cmp encoded_key
proof (unfold_locales, goal_cases)
  case (1 a b)
  then show ?case by (auto elim!: encoded_keyE simp: KeyTsBorrow_cmp_serialize)
next
  case (2 a b)
  then show ?case by (auto elim!: encoded_keyE simp: KeyTsBorrow_cmp_serialize)
next
  case (3 a b c)
  then show ?case by (auto elim!: encoded_keyE simp: KeyTsBorrow_cmp_serialize)
qed

interpretation skl: double_ended_cursor "skl_at KeyTsBorrow_cmp encoded_key sk"
  "\<lambda>it. Some (iter_next sk it)" "iter_next_back sk" "iter_item sk" "iter_item_back sk" for sk
  by (rule mem_order.skl_cursor)

abbreviation mem_inv :: "skip_list \<Rightarrow> (bytes \<times> bytes) list \<Rightarrow> bool" where
  "mem_inv \<equiv> skl_inv KeyTsBorrow_cmp encoded_key"

text \<open>
  C6: A push into a skip list that represents the sorted map \<open>m\<close> ends, does not
  panic as long as the arena has room for the node, the key and the value, never
  loses a race, and gives a skip list that represents \<open>m\<close> with the entry put in its
  place, whatever height the node is given.
\<close>

theorem push_refines:
  assumes "mem_inv sk m" "encoded_key k" "length k < 2 ^ 16"
    and "ar_ptr_offset (sk_arena sk) + SKL_MAX_NODE_SIZE + rounded (length k) + rounded (length v)
      \<le> ar_limit (sk_arena sk)"
  shows "\<exists>sk'. skl_push KeyTsBorrow_cmp coins k v sk = Some (Inr sk') \<and>
    mem_inv sk' (put_sorted KeyTsBorrow_cmp k v m)"
  using mem_order.push_inv [OF assms] .

text \<open>
  A search in a skip list that represents \<open>m\<close> ends, does not panic and finds the
  first entry that is not before the key, or only an exact match when nearness is
  not allowed.
\<close>

theorem search_refines:
  assumes "mem_inv sk m" "encoded_key k"
  shows "get_key_value KeyTsBorrow_cmp k near sk =
    Some (Inr (case filter (\<lambda>e. KeyTsBorrow_cmp (fst e) k \<noteq> Less) m of
      [] \<Rightarrow> None | e # _ \<Rightarrow> if fst e = k \<or> near then Some e else None))"
  using mem_order.get_key_value_inv [OF assms] .

text \<open>
  Iterating over the list from the front sees every node of the bottom level
  once and in order; some steps from the front followed by steps from the back meet
  in the middle without gap or overlap.
\<close>

theorem iteration_complete:
  assumes "skl_repr KeyTsBorrow_cmp encoded_key sk (xs @ y # ys)"
  shows "collect (\<lambda>it. Some (iter_next sk it)) (iter_item sk) (length (xs @ y # ys)) (SkipListIter_new sk)
      = map Some (xs @ y # ys) \<and>
    (\<exists>it. collect (\<lambda>it. Some (iter_next sk it)) (iter_item sk) (length xs) (SkipListIter_new sk) = map Some xs \<and>
      skl_at KeyTsBorrow_cmp encoded_key sk it xs (y # ys) [] \<and>
      collect (iter_next_back sk) (iter_item_back sk) (Suc (length ys)) it = map Some (rev (y # ys)))"
proof -
  have at: "skl_at KeyTsBorrow_cmp encoded_key sk (SkipListIter_new sk) [] (xs @ y # ys) []"
    using assms mem_order.repr_head(1) [OF assms] by (simp add: skl_at_def SkipListIter_new_def)
  have "collect (\<lambda>it. Some (iter_next sk it)) (iter_item sk) (length (xs @ y # ys)) (SkipListIter_new sk)
      = map Some (xs @ y # ys)"
    by (rule skl.collect_all [OF at]) simp_all
  moreover obtain it where "skl_at KeyTsBorrow_cmp encoded_key sk it ([] @ xs) (y # ys) []"
    "collect (\<lambda>it. Some (iter_next sk it)) (iter_item sk) (length xs) (SkipListIter_new sk) = map Some xs"
    "collect (iter_next_back sk) (iter_item_back sk) (Suc (length ys)) it = map Some (rev (y # ys))"
    using skl.meet_in_the_middle [OF at] by blast
  ultimately show ?thesis by (metis append_Nil)
qed

text \<open>
  \<open>is_empty\<close> answers false for every skip list, the empty one included, because
  \<open>find_last\<close> falls back to the head.
\<close>

theorem is_empty_never:
  assumes "mem_inv sk m"
  shows "skl_is_empty sk = Some False"
  using assms mem_order.find_last_spec by (auto simp: skl_inv_def skl_is_empty_def)

definition demo_list :: skip_list where
  "demo_list = \<lparr>sk_height = 1, sk_head = 8, sk_arena = \<lparr>ar_ptr_offset = 112, ar_limit = 1008,
     ar_mem = (\<lambda>_. 0), ar_nodes = [8 \<mapsto> Node_default\<lparr>nd_height := SKL_MAX_HEIGHT\<rparr>]\<rparr>\<rparr>"

definition demo_key :: bytes where "demo_key = KeyTs_serialize (KeyTs [97] 3)"

lemma demo_list_new: "SkipList_new 4096 1000 = Inr demo_list"
  by (simp add: SkipList_new_def Arena_new_def round_up_to_def alloc_with_def alloc_layout_def
      upd_node_def demo_list_def CHUNK_ALIGN_def DEFAULT_ALIGN_def SKL_MAX_NODE_SIZE_def Let_def)

lemma demo_list_inv: "mem_inv demo_list []"
  by (rule SkipList_new_inv [OF demo_list_new]) (simp_all add: demo_list_def)

lemma demo_key_facts: "encoded_key demo_key" "length demo_key = 9"
  by (simp_all add: demo_key_def encoded_key_def)

lemma demo_pushed:
  obtains sk where "mem_inv sk [(demo_key, [1])]"
  using mem_order.push_inv [OF demo_list_inv demo_key_facts(1), of "[1]" "[True]"]
  by (auto simp: demo_key_facts demo_list_def rounded_def SKL_MAX_NODE_SIZE_def put_sorted_def)

theorem push_refines_witness:
  "\<exists>sk'. skl_push KeyTsBorrow_cmp [True] demo_key [1] demo_list = Some (Inr sk') \<and>
     mem_inv sk' [(demo_key, [1])]"
  using push_refines [OF demo_list_inv demo_key_facts(1), of "[1]" "[True]"]
  by (simp add: demo_key_facts demo_list_def rounded_def SKL_MAX_NODE_SIZE_def put_sorted_def)

theorem search_refines_witness:
  "\<exists>sk. mem_inv sk [(demo_key, [1])] \<and>
     get_key_value KeyTsBorrow_cmp demo_key False sk = Some (Inr (Some (demo_key, [1])))"
proof -
  obtain sk where sk: "mem_inv sk [(demo_key, [1])]" by (rule demo_pushed)
  have "KeyTsBorrow_cmp demo_key demo_key \<noteq> Less"
    using mem_order.not_less_self [OF demo_key_facts(1)] by simp
  with search_refines [OF sk demo_key_facts(1), of False] sk show ?thesis by auto
qed

theorem iteration_complete_witness:
  "\<exists>sk p. skl_repr KeyTsBorrow_cmp encoded_key sk [p] \<and>
     collect (\<lambda>it. Some (iter_next sk it)) (iter_item sk) 1 (SkipListIter_new sk) = [Some p]"
proof -
  obtain sk where "mem_inv sk [(demo_key, [1])]" by (rule demo_pushed)
  then obtain p where p: "skl_repr KeyTsBorrow_cmp encoded_key sk [p]"
    by (auto simp: skl_inv_def Cons_eq_map_conv)
  then have "skl_repr KeyTsBorrow_cmp encoded_key sk ([] @ p # [])" by simp
  from iteration_complete [OF this] p show ?thesis by auto
qed

theorem is_empty_never_witness: "skl_is_empty demo_list = Some False"
  by (rule is_empty_never [OF demo_list_inv])

end
