(* ===== verification/Mmap.thy ===== *)
theory Mmap
  imports Prelude
begin

text \<open>
  The memory-mapped file of \<open>src/src/util/mmap.rs\<close>: \<open>mm_raw\<close> is the mapped memory,
  in front of which sit a write buffer (\<open>w_buf\<close>, to be written at \<open>w_pos\<close>) and a read
  buffer (\<open>r_buf\<close>, the bytes before \<open>r_pos\<close>), both of the capacity \<open>mm_cap\<close>. Writing
  past the end of the mapping, undefined in the source, is the failure
  \<open>out_of_map\<close>; \<open>set_len\<close> resizes the file and maps it again (the variant for
  systems other than Linux, the one that type-checks).
\<close>

record mmap_file =
  mm_w_buf :: bytes
  mm_w_pos :: nat
  mm_r_buf :: bytes
  mm_r_pos :: nat
  mm_r_buf_pos :: nat
  mm_last_flush_pos :: nat
  mm_raw :: bytes
  mm_cap :: nat

definition out_of_map :: failure where "out_of_map = Anyhow ''access outside the mapping''"
definition unexpected_eof :: failure where "unexpected_eof = Anyhow ''unexpected end of file''"

definition MmapFile_open :: "nat \<Rightarrow> bytes \<Rightarrow> nat \<Rightarrow> mmap_file \<times> bool" where
  "MmapFile_open page file max_file_size =
     (let is_new = (max_file_size > 0 \<and> file = []);
          raw = (if is_new then replicate max_file_size 0 else file)
      in (\<lparr>mm_w_buf = [], mm_w_pos = 0, mm_r_buf = [], mm_r_pos = 0, mm_r_buf_pos = 0,
           mm_last_flush_pos = 0, mm_raw = raw, mm_cap = page\<rparr>, is_new))"

definition write_offset :: "mmap_file \<Rightarrow> nat" where
  "write_offset f = mm_w_pos f + length (mm_w_buf f)"

definition read_offset :: "mmap_file \<Rightarrow> nat" where
  "read_offset f = mm_r_pos f - (length (mm_r_buf f) - mm_r_buf_pos f)"

definition read_slice_ref :: "nat \<Rightarrow> nat \<Rightarrow> mmap_file \<Rightarrow> bytes outcome" where
  "read_slice_ref offset len f =
     (if offset > length (mm_raw f) then Inl Panic
      else if length (drop offset (mm_raw f)) < len then Inl unexpected_eof
      else Inr (take len (drop offset (mm_raw f))))"

definition set_len :: "nat \<Rightarrow> mmap_file \<Rightarrow> mmap_file" where
  "set_len sz f = f\<lparr>mm_raw := take sz (mm_raw f) @ replicate (sz - length (mm_raw f)) 0\<rparr>"

definition check_len_satisfied :: "nat \<Rightarrow> mmap_file \<Rightarrow> mmap_file" where
  "check_len_satisfied buf_len f =
     (let new_write_at = mm_w_pos f + buf_len in
      if new_write_at \<ge> length (mm_raw f)
      then set_len (new_write_at - new_write_at mod mm_cap f + 2 * mm_cap f) f
      else f)"

definition raw_write :: "nat \<Rightarrow> bytes \<Rightarrow> mmap_file \<Rightarrow> mmap_file outcome" where
  "raw_write offset data f =
     (if offset + length data > length (mm_raw f) then Inl out_of_map
      else Inr (f\<lparr>mm_raw := take offset (mm_raw f) @ data @ drop (offset + length data) (mm_raw f)\<rparr>))"

definition raw_read :: "nat \<Rightarrow> nat \<Rightarrow> mmap_file \<Rightarrow> bytes" where
  "raw_read offset n f = take n (drop offset (mm_raw f))"

definition flush_buf :: "mmap_file \<Rightarrow> mmap_file outcome" where
  "flush_buf f =
     (let f1 = check_len_satisfied (length (mm_w_buf f)) f in
      and_then (raw_write (mm_w_pos f1) (mm_w_buf f1) f1) (\<lambda>f2.
      Inr (f2\<lparr>mm_w_pos := mm_w_pos f2 + length (mm_w_buf f2), mm_w_buf := []\<rparr>)))"

definition write_cold :: "bytes \<Rightarrow> mmap_file \<Rightarrow> mmap_file outcome" where
  "write_cold buf f =
     and_then (if length buf + length (mm_w_buf f) > mm_cap f then flush_buf f else Inr f) (\<lambda>f1.
       if length buf \<ge> mm_cap f1 then
         let f2 = check_len_satisfied (length buf) f1 in
         and_then (raw_write (mm_w_pos f2) buf f2) (\<lambda>f3. Inr (f3\<lparr>mm_w_pos := mm_w_pos f3 + length buf\<rparr>))
       else Inr (f1\<lparr>mm_w_buf := mm_w_buf f1 @ buf\<rparr>))"

definition mm_write :: "bytes \<Rightarrow> mmap_file \<Rightarrow> mmap_file outcome" where
  "mm_write buf f =
     (if length (mm_w_buf f) + length buf < mm_cap f then Inr (f\<lparr>mm_w_buf := mm_w_buf f @ buf\<rparr>)
      else write_cold buf f)"

definition mm_flush :: "mmap_file \<Rightarrow> mmap_file outcome" where
  "mm_flush f = and_then (flush_buf f) (\<lambda>f1. Inr (f1\<lparr>mm_last_flush_pos := mm_w_pos f1\<rparr>))"

definition set_w_pos :: "nat \<Rightarrow> mmap_file \<Rightarrow> mmap_file" where
  "set_w_pos w_pos f = f\<lparr>mm_w_pos := w_pos\<rparr>"

text \<open>Closing leaves a file of \<open>max_sz\<close> bytes; dropping a file writes its buffer.\<close>

definition ready_to_close :: "nat \<Rightarrow> mmap_file \<Rightarrow> bytes outcome" where
  "ready_to_close max_sz f = and_then (mm_flush f) (\<lambda>f1. Inr (mm_raw (set_len max_sz f1)))"

definition mm_drop :: "mmap_file \<Rightarrow> bytes" where
  "mm_drop f = (case flush_buf f of Inl _ \<Rightarrow> mm_raw f | Inr f1 \<Rightarrow> mm_raw f1)"

definition split_at :: "nat \<Rightarrow> bytes \<Rightarrow> (bytes \<times> bytes) outcome" where
  "split_at n xs = (if n \<le> length xs then Inr (take n xs, drop n xs) else Inl Panic)"

definition write_slice :: "nat \<Rightarrow> bytes \<Rightarrow> mmap_file \<Rightarrow> mmap_file outcome" where
  "write_slice offset data f =
     (let buf_offset = mm_w_pos f + length (mm_w_buf f) in
      if offset = buf_offset then mm_write data f
      else if offset > buf_offset \<or> length data \<ge> mm_cap f then
        raw_write offset data (check_len_satisfied (length data) f)
      else
        and_then
          (if offset < mm_w_pos f then
             let s = mm_w_pos f - offset in
             and_then (split_at s data) (\<lambda>(l_data, r_data).
             and_then (raw_write offset l_data f) (\<lambda>f1. Inr (offset + s, r_data, f1)))
           else Inr (offset, data, f))
        (\<lambda>(offset, data, f).
          let end_offset = offset + length data in
          and_then
            (if buf_offset < end_offset then
               let s = end_offset - buf_offset in
               and_then (split_at s data) (\<lambda>(l_data, r_data).
               and_then (raw_write offset r_data (check_len_satisfied end_offset f)) (\<lambda>f1.
               Inr (l_data, f1)))
             else Inr (data, f))
          (\<lambda>(data, f).
            let start_offset = offset - mm_w_pos f; end_offset = start_offset + length data in
            if end_offset \<le> length (mm_w_buf f)
            then Inr (f\<lparr>mm_w_buf := take start_offset (mm_w_buf f) @ data @ drop end_offset (mm_w_buf f)\<rparr>)
            else Inl Panic)))"

section \<open>Reading\<close>

definition mm_read :: "nat \<Rightarrow> mmap_file \<Rightarrow> bytes \<times> mmap_file" where
  "mm_read n f =
     (if mm_r_buf_pos f = length (mm_r_buf f) then
        if n \<ge> mm_cap f then
          let got = raw_read (mm_r_pos f) n f in
          (got, f\<lparr>mm_r_buf := [], mm_r_buf_pos := 0, mm_r_pos := mm_r_pos f + length got\<rparr>)
        else
          let remain = min (length (mm_raw f) - mm_r_pos f) (mm_cap f);
              buf = take remain (drop (mm_r_pos f) (mm_raw f));
              got = take n buf
          in (got, f\<lparr>mm_r_buf := buf, mm_r_pos := mm_r_pos f + remain, mm_r_buf_pos := length got\<rparr>)
      else
        let got = take n (drop (mm_r_buf_pos f) (mm_r_buf f)) in
        (got, f\<lparr>mm_r_buf_pos := mm_r_buf_pos f + length got\<rparr>))"

text \<open>\<open>read_exact\<close> of the standard library: read until the buffer is full or nothing comes.\<close>

function read_exact :: "nat \<Rightarrow> mmap_file \<Rightarrow> (bytes \<times> mmap_file) outcome" where
  "read_exact n f =
     (if n = 0 then Inr ([], f)
      else case mm_read n f of (got, f1) \<Rightarrow>
        if got = [] then Inl unexpected_eof
        else and_then (read_exact (n - length got) f1) (\<lambda>(rest, f2). Inr (got @ rest, f2)))"
  by pat_completeness auto

termination
  by (relation "measure fst") (auto simp: neq_Nil_conv)

definition read_slice :: "nat \<Rightarrow> nat \<Rightarrow> mmap_file \<Rightarrow> (bytes \<times> mmap_file) outcome" where
  "read_slice offset n f =
     (if read_offset f = offset then read_exact n f
      else if offset > mm_r_pos f \<or> n \<ge> mm_cap f then
        if offset > length (mm_raw f) then Inl Panic
        else let got = raw_read offset n f in
          if length got < n then Inl unexpected_eof else Inr (got, f)
      else
        let buf_start_offset = mm_r_pos f - length (mm_r_buf f) in
        and_then
          (if offset < buf_start_offset then
             if buf_start_offset - offset > n then Inl Panic
             else let l = raw_read offset (buf_start_offset - offset) f in
               if length l < buf_start_offset - offset then Inl unexpected_eof
               else Inr (l, offset + length l, n - (buf_start_offset - offset))
           else Inr ([], offset, n))
        (\<lambda>(l, offset, n).
          let end_offset = offset + n in
          if mm_r_pos f \<ge> end_offset then
            Inr (l @ take n (drop (offset - buf_start_offset) (mm_r_buf f)), f)
          else let m = drop (offset - buf_start_offset) (mm_r_buf f);
                   r = raw_read (mm_r_pos f) (n - (mm_r_pos f - offset)) f
               in if length r < n - (mm_r_pos f - offset) then Inl unexpected_eof
                  else Inr (l @ m @ r, f)))"

section \<open>What a file holds\<close>

definition mm_ok :: "mmap_file \<Rightarrow> bool" where
  "mm_ok f \<longleftrightarrow> 0 < mm_cap f \<and> length (mm_w_buf f) \<le> mm_cap f \<and> mm_w_pos f \<le> length (mm_raw f)"

text \<open>The bytes written so far, in the mapping or still in the buffer.\<close>

definition mm_view :: "mmap_file \<Rightarrow> bytes" where
  "mm_view f = take (mm_w_pos f) (mm_raw f) @ mm_w_buf f"

lemma length_view: "mm_ok f \<Longrightarrow> length (mm_view f) = write_offset f"
  by (simp add: mm_ok_def mm_view_def write_offset_def)

lemma take_set_len: "n \<le> length (mm_raw f) \<Longrightarrow> n \<le> sz \<Longrightarrow> take n (mm_raw (set_len sz f)) = take n (mm_raw f)"
  by (simp add: set_len_def min_def)

lemma new_len_ge: "0 < cap \<Longrightarrow> n < n - n mod cap + 2 * cap" for n cap :: nat
  using mod_less_divisor [of cap n] mod_less_eq_dividend [of n cap] by linarith

lemma check_len_facts:
  assumes "mm_ok f" and g_def: "g = check_len_satisfied n f"
  shows "mm_w_pos g = mm_w_pos f" "mm_w_buf g = mm_w_buf f" "mm_cap g = mm_cap f"
    "mm_w_pos f + n \<le> length (mm_raw g)" "take (mm_w_pos f) (mm_raw g) = take (mm_w_pos f) (mm_raw f)"
    "mm_r_buf g = mm_r_buf f" "mm_r_pos g = mm_r_pos f" "mm_r_buf_pos g = mm_r_buf_pos f"
proof -
  let ?n = "mm_w_pos f + n"
  have cap: "0 < mm_cap f" and w: "mm_w_pos f \<le> length (mm_raw f)" using assms by (auto simp: mm_ok_def)
  note ge = new_len_ge [OF cap, of ?n]
  show "mm_w_pos g = mm_w_pos f" "mm_w_buf g = mm_w_buf f" "mm_cap g = mm_cap f"
    "mm_r_buf g = mm_r_buf f" "mm_r_pos g = mm_r_pos f" "mm_r_buf_pos g = mm_r_buf_pos f"
    by (simp_all add: g_def check_len_satisfied_def set_len_def Let_def)
  show "?n \<le> length (mm_raw g)"
    using ge by (auto simp: g_def check_len_satisfied_def set_len_def Let_def)
  show "take (mm_w_pos f) (mm_raw g) = take (mm_w_pos f) (mm_raw f)"
    using w ge by (auto simp: g_def check_len_satisfied_def Let_def intro!: take_set_len)
qed

lemma flush_buf_ok:
  assumes ok: "mm_ok f"
  shows "\<exists>g. flush_buf f = Inr g \<and> mm_ok g \<and> mm_view g = mm_view f \<and> mm_w_buf g = [] \<and>
    mm_cap g = mm_cap f \<and> mm_w_pos g = write_offset f"
proof -
  note c = check_len_facts [OF ok refl, of "length (mm_w_buf f)"]
  show ?thesis
    using ok c by (auto simp: flush_buf_def Let_def raw_write_def mm_ok_def mm_view_def write_offset_def)
qed

lemma write_cold_ok:
  assumes ok: "mm_ok f"
  shows "\<exists>g. write_cold buf f = Inr g \<and> mm_ok g \<and> mm_view g = mm_view f @ buf \<and> mm_cap g = mm_cap f"
proof -
  obtain f1 where f1: "(if length buf + length (mm_w_buf f) > mm_cap f then flush_buf f else Inr f) = Inr f1"
    "mm_ok f1" "mm_view f1 = mm_view f" "mm_cap f1 = mm_cap f" "length buf + length (mm_w_buf f1) \<le> mm_cap f \<or> mm_w_buf f1 = []"
    using flush_buf_ok [OF ok] ok by (cases "length buf + length (mm_w_buf f) > mm_cap f") auto
  show ?thesis
  proof (cases "length buf \<ge> mm_cap f1")
    case True
    then have nil: "mm_w_buf f1 = []" using f1(4,5) by (cases "mm_w_buf f1") auto
    note c = check_len_facts [OF f1(2) refl, of "length buf"]
    let ?f2 = "check_len_satisfied (length buf) f1" and ?p = "mm_w_pos f1"
    let ?raw = "take ?p (mm_raw ?f2) @ buf @ drop (?p + length buf) (mm_raw ?f2)"
    let ?g = "?f2\<lparr>mm_raw := ?raw, mm_w_pos := ?p + length buf\<rparr>"
    have "write_cold buf f = Inr ?g"
      unfolding write_cold_def f1(1) using True c by (simp add: Let_def raw_write_def)
    moreover have "mm_ok ?g" using f1(2) c by (simp add: mm_ok_def)
    moreover have "mm_view ?g = mm_view f1 @ buf"
      using c nil f1(2) by (simp add: mm_view_def mm_ok_def)
    ultimately show ?thesis using f1(3,4) c(3) by (intro exI [of _ ?g]) simp
  next
    case False
    then show ?thesis using f1 by (auto simp: write_cold_def mm_ok_def mm_view_def)
  qed
qed

lemma mm_write_ok:
  assumes "mm_ok f"
  obtains g where "mm_write buf f = Inr g" "mm_ok g" "mm_view g = mm_view f @ buf"
    "write_offset g = write_offset f + length buf" "mm_cap g = mm_cap f"
proof -
  obtain g where "mm_write buf f = Inr g" "mm_ok g" "mm_view g = mm_view f @ buf" "mm_cap g = mm_cap f"
    using write_cold_ok [OF assms, of buf] assms
    by (cases "length (mm_w_buf f) + length buf < mm_cap f") (auto simp: mm_write_def mm_ok_def mm_view_def)
  moreover from this have "write_offset g = write_offset f + length buf"
    using length_view [OF assms] length_view [of g] by (metis length_append)
  ultimately show ?thesis using that by blast
qed

lemma mm_flush_ok:
  assumes "mm_ok f"
  obtains g where "mm_flush f = Inr g" "mm_ok g" "mm_view g = mm_view f" "mm_w_buf g = []"
    "mm_w_pos g = write_offset f" "mm_cap g = mm_cap f"
proof -
  obtain g where "flush_buf f = Inr g" "mm_ok g" "mm_view g = mm_view f" "mm_w_buf g = []"
    "mm_w_pos g = write_offset f" "mm_cap g = mm_cap f" using flush_buf_ok [OF assms] by blast
  then show ?thesis
    by (intro that [of "g\<lparr>mm_last_flush_pos := mm_w_pos g\<rparr>"]) (simp_all add: mm_flush_def mm_ok_def mm_view_def)
qed

text \<open>Resizing the mapping beyond what has been flushed keeps what was written.\<close>

lemma set_len_view:
  assumes "mm_ok f" "mm_w_pos f \<le> sz"
  shows "mm_view (set_len sz f) = mm_view f" "mm_ok (set_len sz f)"
    "write_offset (set_len sz f) = write_offset f" "mm_cap (set_len sz f) = mm_cap f"
  using assms by (auto simp: mm_view_def set_len_def mm_ok_def write_offset_def min_def)

lemma write_slice_end: "write_slice (write_offset f) data f = mm_write data f"
  by (simp add: write_slice_def write_offset_def Let_def)

text \<open>
  Sequential writing appends. Whatever path the buffering takes, \<open>write\<close> on a
  well-formed file succeeds, and what has been written is what had been written
  before followed by the new data; the next write offset moves by its length.
\<close>

theorem mmap_write_appends:
  assumes "mm_ok f"
  shows "\<exists>g. mm_write buf f = Inr g \<and> mm_ok g \<and> mm_view g = mm_view f @ buf \<and>
    write_offset g = write_offset f + length buf"
  by (rule mm_write_ok [OF assms, of buf]) blast

theorem mmap_write_appends_witness:
  "\<exists>g. mm_write [1, 2, 3, 4, 5] (fst (MmapFile_open 4 [] 4)) = Inr g \<and> mm_view g = [1, 2, 3, 4, 5]"
  using mmap_write_appends [of "fst (MmapFile_open 4 [] 4)" "[1, 2, 3, 4, 5]"]
  by (auto simp: MmapFile_open_def mm_ok_def mm_view_def)

text \<open>
  Flushing succeeds and leaves everything written in the mapping itself.
\<close>

theorem mmap_flush_persists:
  assumes "mm_ok f"
  shows "\<exists>g. mm_flush f = Inr g \<and> take (write_offset f) (mm_raw g) = mm_view f"
proof -
  obtain g where g: "flush_buf f = Inr g" "mm_view g = mm_view f" "mm_w_buf g = []" "mm_w_pos g = write_offset f"
    using flush_buf_ok [OF assms] by blast
  then show ?thesis by (auto simp: mm_flush_def mm_view_def)
qed

theorem mmap_flush_persists_witness:
  "\<exists>g. mm_flush ((fst (MmapFile_open 4 [] 4))\<lparr>mm_w_buf := [1, 2]\<rparr>) = Inr g \<and> take 2 (mm_raw g) = [1, 2]"
  using mmap_flush_persists [of "(fst (MmapFile_open 4 [] 4))\<lparr>mm_w_buf := [1, 2]\<rparr>"]
  by (auto simp: MmapFile_open_def mm_ok_def mm_view_def write_offset_def numeral_2_eq_2)

text \<open>The read buffer holds the bytes of the mapping before \<open>r_pos\<close>.\<close>

definition read_ok :: "mmap_file \<Rightarrow> bool" where
  "read_ok f \<longleftrightarrow> 0 < mm_cap f \<and> mm_r_pos f \<le> length (mm_raw f) \<and> length (mm_r_buf f) \<le> mm_r_pos f \<and>
     mm_r_buf_pos f \<le> length (mm_r_buf f) \<and>
     mm_r_buf f = drop (mm_r_pos f - length (mm_r_buf f)) (take (mm_r_pos f) (mm_raw f))"

lemma drop_take_buf:
  assumes "read_ok f" "mm_r_pos f - length (mm_r_buf f) \<le> i"
  shows "drop (i - (mm_r_pos f - length (mm_r_buf f))) (mm_r_buf f) = drop i (take (mm_r_pos f) (mm_raw f))"
proof -
  have "drop (i - (mm_r_pos f - length (mm_r_buf f))) (mm_r_buf f) =
      drop (i - (mm_r_pos f - length (mm_r_buf f)))
        (drop (mm_r_pos f - length (mm_r_buf f)) (take (mm_r_pos f) (mm_raw f)))"
    using assms(1) by (simp add: read_ok_def)
  then show ?thesis using assms(2) by simp
qed

lemma read_ok_bounds:
  assumes "read_ok f"
  shows "0 < mm_cap f" "mm_r_pos f \<le> length (mm_raw f)" "length (mm_r_buf f) \<le> mm_r_pos f"
    "mm_r_buf_pos f \<le> length (mm_r_buf f)"
  using assms unfolding read_ok_def by blast+

lemma mm_read_ok:
  assumes ok: "read_ok f" and n: "0 < n"
  shows "\<exists>got g. mm_read n f = (got, g) \<and> read_ok g \<and> mm_raw g = mm_raw f \<and>
    read_offset g = read_offset f + length got \<and> length got \<le> n \<and>
    got = take (length got) (drop (read_offset f) (mm_raw f)) \<and>
    (got = [] \<longrightarrow> length (mm_raw f) \<le> read_offset f)"
proof (cases "mm_r_buf_pos f = length (mm_r_buf f)")
  case True
  have ro: "read_offset f = mm_r_pos f" using True ok by (simp add: read_offset_def)
  show ?thesis
  proof (cases "n \<ge> mm_cap f")
    case True2: True
    have "take n (drop (mm_r_pos f) (mm_raw f)) =
        take (min (length (mm_raw f) - mm_r_pos f) n) (drop (mm_r_pos f) (mm_raw f))"
      by (cases "n \<le> length (mm_raw f) - mm_r_pos f") (simp_all add: min_def)
    then show ?thesis
      using read_ok_bounds [OF ok] n True True2
      by (auto simp: mm_read_def Let_def raw_read_def read_ok_def ro read_offset_def)
  next
    case False
    define r where "r = min (length (mm_raw f) - mm_r_pos f) (mm_cap f)"
    define buf where "buf = take r (drop (mm_r_pos f) (mm_raw f))"
    define k where "k = min n r"
    have len: "length buf = r" by (simp add: buf_def r_def)
    have r: "r \<le> length (mm_raw f) - mm_r_pos f" "r = 0 \<longrightarrow> length (mm_raw f) \<le> mm_r_pos f"
      using read_ok_bounds [OF ok] by (auto simp: r_def)
    have k: "k \<le> r" "k \<le> n" "k = 0 \<longrightarrow> r = 0" using n by (auto simp: k_def)
    let ?g = "f\<lparr>mm_r_buf := buf, mm_r_pos := mm_r_pos f + r, mm_r_buf_pos := k\<rparr>"
    have buf: "take n buf = take k (drop (mm_r_pos f) (mm_raw f))"
      by (simp add: buf_def k_def)
    have "length (take n buf) = k" by (simp add: len k_def min.commute)
    moreover have "mm_read n f = (take n buf, ?g)"
      using True False by (simp add: mm_read_def Let_def len k_def r_def buf_def min.commute)
    moreover have "read_ok ?g"
      using read_ok_bounds [OF ok] r(1) k(1) by (auto simp: read_ok_def len) (simp add: buf_def drop_take)
    moreover have "read_offset ?g = mm_r_pos f + k"
      using k(1) by (simp add: read_offset_def len)
    ultimately show ?thesis
      using k r buf by (intro exI [of _ "take n buf"] exI [of _ ?g]) (auto simp: ro)
  qed
next
  case False
  let ?i = "mm_r_buf_pos f"
  have ro: "read_offset f = mm_r_pos f - (length (mm_r_buf f) - ?i)" by (simp add: read_offset_def)
  have d: "drop ?i (mm_r_buf f) = drop (read_offset f) (take (mm_r_pos f) (mm_raw f))"
    using drop_take_buf [OF ok, of "read_offset f"] read_ok_bounds [OF ok] by (simp add: ro)
  let ?got = "take n (drop ?i (mm_r_buf f))"
  have rd: "mm_read n f = (?got, f\<lparr>mm_r_buf_pos := ?i + length ?got\<rparr>)"
    using False by (simp add: mm_read_def Let_def)
  have got: "?got = take (length ?got) (drop (read_offset f) (mm_raw f))"
  proof -
    have "take n (drop m (take p xs)) = take (length (take n (drop m (take p xs)))) (drop m xs)"
      for m p and xs :: bytes by (simp add: drop_take min_def)
    then show ?thesis unfolding d .
  qed
  have ne: "?got \<noteq> []" using False read_ok_bounds [OF ok] n by simp
  have ok': "read_ok (f\<lparr>mm_r_buf_pos := ?i + length ?got\<rparr>)"
    using ok read_ok_bounds [OF ok] unfolding read_ok_def by simp
  have ro': "read_offset (f\<lparr>mm_r_buf_pos := ?i + length ?got\<rparr>) = read_offset f + length ?got"
    using read_ok_bounds [OF ok] by (simp add: read_offset_def)
  show ?thesis by (intro exI conjI, rule rd, rule ok', simp, rule ro', simp, rule got) (use ne in blast)
qed

lemma read_exact_ok:
  assumes "read_ok f" "read_offset f + n \<le> length (mm_raw f)"
  shows "\<exists>g. read_exact n f = Inr (take n (drop (read_offset f) (mm_raw f)), g) \<and> read_ok g \<and> mm_raw g = mm_raw f"
  using assms
proof (induction n arbitrary: f rule: less_induct)
  case (less n)
  show ?case
  proof (cases "n = 0")
    case False
    obtain got g where g: "mm_read n f = (got, g)" "read_ok g" "mm_raw g = mm_raw f"
      "read_offset g = read_offset f + length got" "length got \<le> n"
      "got = take (length got) (drop (read_offset f) (mm_raw f))" "got \<noteq> []"
      using mm_read_ok [OF less.prems(1), of n] less.prems(2) False by force
    have "n - length got < n" using g(7) False by (cases got) auto
    from less.IH [OF this g(2)] obtain h where h: "read_exact (n - length got) g
        = Inr (take (n - length got) (drop (read_offset g) (mm_raw g)), h)" "read_ok h" "mm_raw h = mm_raw f"
      using less.prems(2) g(3-5) by auto
    have "take n (drop (read_offset f) (mm_raw f)) =
        take (length got) (drop (read_offset f) (mm_raw f)) @
        take (n - length got) (drop (read_offset g) (mm_raw f))"
      using g(4,5) take_add [of "length got" "n - length got" "drop (read_offset f) (mm_raw f)"]
      by (simp add: add.commute)
    with False g h show ?thesis by (simp add: g(6) [symmetric])
  qed (use less.prems in auto)
qed

text \<open>
  Reading a slice gives the bytes of the mapping, whether it lies in the read
  buffer, before it or behind it, as long as it reaches up to the buffer's start
  when it begins before it.
\<close>

theorem read_slice_correct:
  assumes "read_ok f" "offset + n \<le> length (mm_raw f)"
    and "mm_r_pos f - length (mm_r_buf f) \<le> offset + n"
  shows "\<exists>g. read_slice offset n f = Inr (take n (drop offset (mm_raw f)), g) \<and> read_ok g \<and> mm_raw g = mm_raw f"
proof -
  consider (seq) "read_offset f = offset" | (raw) "read_offset f \<noteq> offset" "offset > mm_r_pos f \<or> n \<ge> mm_cap f"
    | (rnd) "read_offset f \<noteq> offset" "\<not> (offset > mm_r_pos f \<or> n \<ge> mm_cap f)" by blast
  then show ?thesis
  proof cases
    case seq
    with read_exact_ok [OF assms(1), of n] assms(2) show ?thesis by (auto simp: read_slice_def)
  next
    case raw
    with assms show ?thesis by (auto simp: read_slice_def raw_read_def Let_def)
  next
    case rnd
    let ?s = "mm_r_pos f - length (mm_r_buf f)"
    have le: "offset \<le> mm_r_pos f" and rok: "mm_r_pos f \<le> length (mm_raw f)"
      using rnd assms(1) by (auto simp: read_ok_def)
    have buf: "?s \<le> i \<Longrightarrow> drop (i - ?s) (mm_r_buf f) = drop i (take (mm_r_pos f) (mm_raw f))" for i
      by (rule drop_take_buf [OF assms(1)])
    define i where "i = max offset ?s"
    define l where "l = take (i - offset) (drop offset (mm_raw f))"
    have i: "offset \<le> i" "i \<le> offset + n" "?s \<le> i" "i \<le> mm_r_pos f"
      using assms(3) le by (auto simp: i_def)
    have ll: "length l = i - offset" using i assms(2) by (simp add: l_def)
    have whole: "take n (drop offset (mm_raw f)) = l @ take (n - (i - offset)) (drop i (mm_raw f))"
      using i take_add [of "i - offset" "n - (i - offset)" "drop offset (mm_raw f)"]
      by (simp add: l_def add.commute)
    have sl: "read_slice offset n f =
       (if mm_r_pos f \<ge> i + (n - (i - offset)) then
            Inr (l @ take (n - (i - offset)) (drop (i - ?s) (mm_r_buf f)), f)
          else let m = drop (i - ?s) (mm_r_buf f);
                   r = raw_read (mm_r_pos f) (n - (i - offset) - (mm_r_pos f - i)) f
               in if length r < n - (i - offset) - (mm_r_pos f - i) then Inl unexpected_eof
                  else Inr (l @ m @ r, f))"
      using rnd i assms ll
      by (cases "offset < ?s") (auto simp: read_slice_def raw_read_def Let_def i_def l_def)
    show ?thesis
    proof (cases "mm_r_pos f \<ge> i + (n - (i - offset))")
      case True
      then have "take (n - (i - offset)) (drop i (take (mm_r_pos f) (mm_raw f)))
          = take (n - (i - offset)) (drop i (mm_raw f))"
        by (simp add: take_drop min_def)
      with True sl whole buf [OF i(3)] assms(1) show ?thesis by simp
    next
      case False
      let ?k = "n - (i - offset)"
      have "drop i (take (mm_r_pos f) (mm_raw f)) @ take (?k - (mm_r_pos f - i)) (drop (mm_r_pos f) (mm_raw f))
          = take ?k (drop i (mm_raw f))"
        using False i take_add [of "mm_r_pos f - i" "?k - (mm_r_pos f - i)" "drop i (mm_raw f)"]
        by (simp add: drop_take)
      with False sl whole buf [OF i(3)] assms i show ?thesis
        by (simp add: raw_read_def Let_def)
    qed
  qed
qed

theorem read_slice_correct_witness:
  "\<exists>g. read_slice 1 3 (snd (mm_read 2 (fst (MmapFile_open 4 [1, 2, 3, 4, 5, 6] 0)))) = Inr ([2, 3, 4], g)"
  using read_slice_correct [of "snd (mm_read 2 (fst (MmapFile_open 4 [1, 2, 3, 4, 5, 6] 0)))" 1 3]
  by (auto simp: MmapFile_open_def mm_read_def read_ok_def Let_def numeral_eq_Suc)

text \<open>
  Overwriting across the end of the buffered region loses data: the part beyond
  the buffer is stored at the offset of the part before it (the slice is split at
  the wrong place), so that reading the file back does not give what was written.
\<close>

theorem write_slice_loses_data:
  "\<exists>f g. mm_ok f \<and> write_slice 2 [7, 8] f = Inr g \<and> mm_view f = [1, 2, 3] \<and>
     take 4 (mm_raw f) = [0, 0, 0, 0] \<and>
     mm_view g = [1, 2, 7] \<and> take 4 (mm_raw g) = [0, 0, 8, 0]"
proof -
  define f where "f = \<lparr>mm_w_buf = [1, 2, 3], mm_w_pos = 0, mm_r_buf = [], mm_r_pos = 0, mm_r_buf_pos = 0,
    mm_last_flush_pos = 0, mm_raw = replicate 16 0, mm_cap = 8\<rparr>"
  have "write_slice 2 [7, 8] f = Inr (f\<lparr>mm_w_buf := [1, 2, 7], mm_raw := [0, 0, 8] @ replicate 13 0\<rparr>)"
    by (simp add: f_def write_slice_def split_at_def raw_write_def check_len_satisfied_def Let_def
        numeral_eq_Suc)
  moreover have "mm_ok f" "mm_view f = [1, 2, 3]" "take 4 (mm_raw f) = [0, 0, 0, 0]"
    by (simp_all add: f_def mm_ok_def mm_view_def numeral_eq_Suc)
  ultimately show ?thesis by (auto simp: mm_view_def numeral_eq_Suc f_def)
qed

end
