(* ===== verification/KeyRegistry.thy ===== *)
theory KeyRegistry
  imports Prelude
begin

text \<open>
  The key registry of \<open>src/src/key_registry.rs\<close>: data keys, created on demand and rotated
  after a while, kept in memory and in a file of checksummed records whose key material
  is encrypted with the master key. The AES-GCM implementation, the checksum and the
  protobuf encoding of a data key are code of other crates: they are the fields of a
  record \<open>crypto\<close> that the definitions take as an argument, with the laws the
  registry relies on in \<open>crypto_laws\<close>. Random keys and nonces and the clock (in
  nanoseconds since the epoch) are arguments too.
\<close>

section \<open>Data\<close>

record data_key =
  dk_key_id :: u64
  dk_data :: bytes
  dk_iv :: bytes
  dk_created_at :: u64

record crypto =
  cr_encrypt128 :: "bytes \<Rightarrow> bytes \<Rightarrow> bytes \<Rightarrow> bytes option"
  cr_decrypt128 :: "bytes \<Rightarrow> bytes \<Rightarrow> bytes \<Rightarrow> bytes option"
  cr_encrypt256 :: "bytes \<Rightarrow> bytes \<Rightarrow> bytes \<Rightarrow> bytes option"
  cr_decrypt256 :: "bytes \<Rightarrow> bytes \<Rightarrow> bytes \<Rightarrow> bytes option"
  cr_crc32 :: "bytes \<Rightarrow> u32"
  cr_encode_key :: "data_key \<Rightarrow> bytes"
  cr_decode_key :: "bytes \<Rightarrow> data_key option"

text \<open>A cipher is known by its key and the id of the data key it was made from.\<close>

datatype aes_cipher = Aes128 (cipher_key: bytes) (cipher_key_id: u64)
  | Aes256 (cipher_key: bytes) (cipher_key_id: u64)

definition NONCE_SIZE :: nat where "NONCE_SIZE = 12"

definition AesCipher_new :: "bytes \<Rightarrow> u64 \<Rightarrow> aes_cipher outcome" where
  "AesCipher_new key kid =
     (if length key = 16 then Inr (Aes128 key kid)
      else if length key = 32 then Inr (Aes256 key kid)
      else Inl (Anyhow ''InvalidEncryptionKey During Create Aes Cipher''))"

text \<open>\<open>Nonce::from_slice\<close> panics unless it gets twelve bytes.\<close>

definition nonce_from_slice :: "bytes \<Rightarrow> bytes outcome" where
  "nonce_from_slice iv = (if length iv = NONCE_SIZE then Inr iv else Inl Panic)"

fun aes_encrypt :: "crypto \<Rightarrow> aes_cipher \<Rightarrow> bytes \<Rightarrow> bytes \<Rightarrow> bytes option" where
  "aes_encrypt cr (Aes128 key _) nonce plaintext = cr_encrypt128 cr key nonce plaintext"
| "aes_encrypt cr (Aes256 key _) nonce plaintext = cr_encrypt256 cr key nonce plaintext"

fun aes_decrypt :: "crypto \<Rightarrow> aes_cipher \<Rightarrow> bytes \<Rightarrow> bytes \<Rightarrow> bytes option" where
  "aes_decrypt cr (Aes128 key _) nonce ciphertext = cr_decrypt128 cr key nonce ciphertext"
| "aes_decrypt cr (Aes256 key _) nonce ciphertext = cr_decrypt256 cr key nonce ciphertext"

definition encrypt_with_slice :: "crypto \<Rightarrow> aes_cipher \<Rightarrow> bytes \<Rightarrow> bytes \<Rightarrow> bytes option outcome" where
  "encrypt_with_slice cr c nonce plaintext =
     and_then (nonce_from_slice nonce) (\<lambda>n. Inr (aes_encrypt cr c n plaintext))"

definition decrypt_with_slice :: "crypto \<Rightarrow> aes_cipher \<Rightarrow> bytes \<Rightarrow> bytes \<Rightarrow> bytes option outcome" where
  "decrypt_with_slice cr c nonce ciphertext =
     and_then (nonce_from_slice nonce) (\<lambda>n. Inr (aes_decrypt cr c n ciphertext))"

text \<open>The length of the keys \<open>generate_key\<close> draws.\<close>

fun key_size :: "aes_cipher \<Rightarrow> nat" where
  "key_size (Aes128 _ _) = 16"
| "key_size (Aes256 _ _) = 32"

record key_registry =
  kr_data_keys :: "u64 \<rightharpoonup> data_key"
  kr_last_created :: u64
  kr_next_key_id :: u64
  kr_fp :: "bytes option"
  kr_cipher :: "aes_cipher option"
  kr_rotation :: nat

definition SANITYTEXT :: bytes where
  "SANITYTEXT = [72, 101, 108, 108, 111, 32, 66, 97, 100, 103, 101, 114]"

definition KeyRegistry_new :: "bytes \<Rightarrow> nat \<Rightarrow> key_registry outcome" where
  "KeyRegistry_new encrypt_key rotation =
     (let keys_len = length encrypt_key in
      if keys_len > 0 \<and> keys_len \<noteq> 16 \<and> keys_len \<noteq> 32
      then Inl (Anyhow ''InvalidEncryptionKey During OpenKeyRegistry'')
      else Inr \<lparr>kr_data_keys = Map.empty, kr_last_created = 0, kr_next_key_id = 0, kr_fp = None,
        kr_cipher = (if keys_len > 0 then (case AesCipher_new encrypt_key 0 of Inl _ \<Rightarrow> None | Inr c \<Rightarrow> Some c)
                     else None),
        kr_rotation = rotation\<rparr>)"

section \<open>Writing\<close>

text \<open>
  \<open>store_data_key\<close> appends a record: the length and checksum of the encoded key, then the
  encoded key with its data encrypted; the data is decrypted again in memory.
\<close>

definition store_data_key ::
  "crypto \<Rightarrow> aes_cipher option \<Rightarrow> data_key \<Rightarrow> bytes \<Rightarrow> (bytes \<times> data_key) outcome" where
  "store_data_key cr cipher data_key buf =
     and_then (nonce_from_slice (dk_iv data_key)) (\<lambda>nonce.
     and_then
       (case cipher of None \<Rightarrow> Inr data_key
        | Some c \<Rightarrow> (case aes_encrypt cr c nonce (dk_data data_key) of
              Some e_data \<Rightarrow> Inr (data_key\<lparr>dk_data := e_data\<rparr>)
            | None \<Rightarrow> Inl (Anyhow ''Error while encrypting datakey in storeDataKey'')))
     (\<lambda>data_key.
       let e_data_key = cr_encode_key cr data_key;
           buf = buf @ put_u32 (word_of_nat (length e_data_key)) @ put_u32 (cr_crc32 cr e_data_key) @ e_data_key
       in and_then
         (case cipher of None \<Rightarrow> Inr data_key
          | Some c \<Rightarrow> (case aes_decrypt cr c nonce (dk_data data_key) of
                Some d_data \<Rightarrow> Inr (data_key\<lparr>dk_data := d_data\<rparr>)
              | None \<Rightarrow> Inl (Anyhow ''Error while decrypting datakey in storeDataKey'')))
       (\<lambda>data_key. Inr (buf, data_key))))"

text \<open>\<open>write_to_file\<close>; \<open>ids\<close> is the order in which the hash map is iterated.\<close>

fun store_data_keys ::
  "crypto \<Rightarrow> aes_cipher option \<Rightarrow> u64 list \<Rightarrow> (u64 \<rightharpoonup> data_key) \<Rightarrow> bytes \<Rightarrow> (bytes \<times> (u64 \<rightharpoonup> data_key)) outcome" where
  "store_data_keys cr cipher [] keys buf = Inr (buf, keys)"
| "store_data_keys cr cipher (i # ids) keys buf =
     (case keys i of None \<Rightarrow> store_data_keys cr cipher ids keys buf
      | Some dk \<Rightarrow> and_then (store_data_key cr cipher dk buf) (\<lambda>(buf, dk).
          store_data_keys cr cipher ids (keys(i \<mapsto> dk)) buf))"

definition write_to_file :: "crypto \<Rightarrow> bytes \<Rightarrow> u64 list \<Rightarrow> key_registry \<Rightarrow> (bytes \<times> key_registry) outcome" where
  "write_to_file cr nonce ids kr =
     (let e_sanity = (case kr_cipher kr of None \<Rightarrow> SANITYTEXT
            | Some c \<Rightarrow> (case aes_encrypt cr c nonce SANITYTEXT of None \<Rightarrow> SANITYTEXT | Some e \<Rightarrow> e));
          buf = nonce @ put_u32 (word_of_nat (length e_sanity)) @ e_sanity
      in and_then (store_data_keys cr (kr_cipher kr) ids (kr_data_keys kr) buf) (\<lambda>(buf, keys).
        Inr (buf, kr\<lparr>kr_data_keys := keys\<rparr>)))"

section \<open>Reading\<close>

definition take_exact :: "nat \<Rightarrow> bytes \<Rightarrow> (bytes \<times> bytes) option" where
  "take_exact n bs = (if n \<le> length bs then Some (take n bs, drop n bs) else None)"

lemma take_exact_append [simp]: "length a = n \<Longrightarrow> take_exact n (a @ b) = Some (a, b)"
  by (simp add: take_exact_def)

lemma take_exact_Some: "take_exact n bs = Some (a, r) \<Longrightarrow> length r + n = length bs"
  by (auto simp: take_exact_def split: if_splits)

text \<open>The header check of a registry file; the result is what follows the header.\<close>

definition registry_valid :: "crypto \<Rightarrow> aes_cipher option \<Rightarrow> bytes \<Rightarrow> bytes outcome" where
  "registry_valid cr cipher file =
     (case take_exact 12 file of None \<Rightarrow> Inl (Anyhow ''Error while reading IV for key registry'')
      | Some (nonce, r) \<Rightarrow>
     (case take_exact 4 r of None \<Rightarrow> Inl (Anyhow ''Error while reading saintytext.len for key registry'')
      | Some (len_buf, r) \<Rightarrow>
     (case take_exact (from_be len_buf) r of None \<Rightarrow> Inl (Anyhow ''Error while reading sanity text'')
      | Some (e_saintytext, r) \<Rightarrow>
       and_then
         (case cipher of
            Some c \<Rightarrow> (case aes_decrypt cr c nonce e_saintytext of
                Some d \<Rightarrow> Inr d
              | None \<Rightarrow> Inl (Anyhow ''Cannot decrypt saintytext during valid''))
          | None \<Rightarrow> Inr e_saintytext)
       (\<lambda>saintytext. if saintytext \<noteq> SANITYTEXT then Inl (Bail EncryptionKeyMismatch) else Inr r))))"

text \<open>The iterator over the records: a damaged record is skipped.\<close>

function registry_next :: "crypto \<Rightarrow> aes_cipher option \<Rightarrow> bytes \<Rightarrow> (data_key \<times> bytes) option outcome" where
  "registry_next cr cipher r =
     (case take_exact 8 r of None \<Rightarrow> Inr None
      | Some (len_crc_buf, r) \<Rightarrow>
        let e_data_key_len = from_be (take 4 len_crc_buf);
            e_data_key_crc = word_of_nat (from_be (drop 4 len_crc_buf))
        in case take_exact e_data_key_len r of None \<Rightarrow> Inr None
        | Some (e_data_key, r) \<Rightarrow>
          if cr_crc32 cr e_data_key \<noteq> e_data_key_crc then registry_next cr cipher r
          else case cr_decode_key cr e_data_key of None \<Rightarrow> registry_next cr cipher r
          | Some data_key \<Rightarrow>
            (case cipher of None \<Rightarrow> Inr (Some (data_key, r))
             | Some c \<Rightarrow> (case decrypt_with_slice cr c (dk_iv data_key) (dk_data data_key) of
                  Inl e \<Rightarrow> Inl e
                | Inr (Some data) \<Rightarrow> Inr (Some (data_key\<lparr>dk_data := data\<rparr>, r))
                | Inr None \<Rightarrow> registry_next cr cipher r)))"
  by pat_completeness auto

termination
  by (relation "measure (\<lambda>(cr, c, r). length r)") (auto dest!: take_exact_Some)

declare registry_next.simps [simp del]

lemma registry_next_shorter:
  "registry_next cr c r = Inr (Some (dk, r')) \<Longrightarrow> length r' < length r"
proof (induction "length r" arbitrary: c r rule: less_induct)
  case less
  have IH: "length r1 < length r \<Longrightarrow> registry_next cr c1 r1 = Inr (Some (dk, r')) \<Longrightarrow> length r' < length r" for c1 r1
    using less.hyps [of r1 c1] by simp
  from less.prems show ?case
    unfolding registry_next.simps [of cr c r]
    by (auto split: option.splits if_splits sum.splits simp: Let_def dest!: take_exact_Some)
      (rule IH [rotated], assumption, linarith)+
qed

definition add_data_key :: "data_key \<Rightarrow> key_registry \<Rightarrow> key_registry" where
  "add_data_key dk kr = kr\<lparr>kr_next_key_id := max (kr_next_key_id kr) (dk_key_id dk),
     kr_last_created := max (kr_last_created kr) (dk_created_at dk),
     kr_data_keys := (kr_data_keys kr)(dk_key_id dk \<mapsto> dk)\<rparr>"

function registry_read_loop :: "crypto \<Rightarrow> bytes \<Rightarrow> key_registry \<Rightarrow> key_registry outcome" where
  "registry_read_loop cr r kr =
     (case registry_next cr (kr_cipher kr) r of
        Inl e \<Rightarrow> Inl e
      | Inr None \<Rightarrow> Inr kr
      | Inr (Some (dk, r')) \<Rightarrow> registry_read_loop cr r' (add_data_key dk kr))"
  by pat_completeness auto

termination
  by (relation "measure (\<lambda>(cr, r, kr). length r)") (auto dest: registry_next_shorter)

declare registry_read_loop.simps [simp del]

definition registry_read :: "crypto \<Rightarrow> bytes \<Rightarrow> key_registry \<Rightarrow> key_registry outcome" where
  "registry_read cr file kr =
     and_then (registry_valid cr (kr_cipher kr) file) (\<lambda>r. registry_read_loop cr r kr)"

text \<open>
  \<open>KeyRegistryConfig::open\<close>. The file, if the directory has one, is given; the result is
  the registry and the file as it is afterwards.
\<close>

definition KeyRegistry_open ::
  "crypto \<Rightarrow> bytes \<Rightarrow> bytes \<Rightarrow> nat \<Rightarrow> bool \<Rightarrow> bytes option \<Rightarrow> key_registry outcome" where
  "KeyRegistry_open cr nonce encrypt_key rotation read_only disk =
     and_then (KeyRegistry_new encrypt_key rotation) (\<lambda>kr.
       if disk = None \<and> read_only then Inr kr
       else and_then
         (case disk of Some file \<Rightarrow> Inr (file, kr) | None \<Rightarrow> write_to_file cr nonce [] kr)
       (\<lambda>(file, kr). and_then (registry_read cr file kr) (\<lambda>kr.
          Inr (if read_only then kr else kr\<lparr>kr_fp := Some file\<rparr>))))"

section \<open>Keys on demand\<close>

definition valid_key :: "nat \<Rightarrow> key_registry \<Rightarrow> data_key option \<times> bool" where
  "valid_key now kr =
     (let last = unat (kr_last_created kr) * 10 ^ 9 in
      if last \<le> now \<and> now - last < kr_rotation kr then (kr_data_keys kr (kr_next_key_id kr), True)
      else (None, False))"

definition latest_datakey ::
  "crypto \<Rightarrow> bytes \<Rightarrow> bytes \<Rightarrow> nat \<Rightarrow> key_registry \<Rightarrow> (data_key option \<times> key_registry) outcome" where
  "latest_datakey cr key nonce now kr =
     (case kr_cipher kr of None \<Rightarrow> Inr (None, kr)
      | Some cipher \<Rightarrow>
        let (k, valid) = valid_key now kr in
        if valid then Inr (k, kr)
        else and_then (add_checked (kr_next_key_id kr) 1) (\<lambda>key_id.
          let created_at = word_of_nat (now div 10 ^ 9);
              data_key = \<lparr>dk_key_id = key_id, dk_data = key, dk_iv = nonce, dk_created_at = created_at\<rparr>
          in and_then (store_data_key cr (kr_cipher kr) data_key []) (\<lambda>(buf, data_key).
            Inr (Some data_key, kr\<lparr>kr_next_key_id := key_id,
              kr_fp := map_option (\<lambda>f. f @ buf) (kr_fp kr),
              kr_last_created := created_at,
              kr_data_keys := (kr_data_keys kr)(key_id \<mapsto> data_key)\<rparr>))))"

definition latest_cipher ::
  "crypto \<Rightarrow> bytes \<Rightarrow> bytes \<Rightarrow> nat \<Rightarrow> key_registry \<Rightarrow> (aes_cipher option \<times> key_registry) outcome" where
  "latest_cipher cr key nonce now kr =
     and_then (latest_datakey cr key nonce now kr) (\<lambda>(dk, kr).
       case dk of None \<Rightarrow> Inr (None, kr)
       | Some data_key \<Rightarrow> and_then (AesCipher_new (dk_data data_key) (dk_key_id data_key)) (\<lambda>c.
           Inr (Some c, kr)))"

definition get_data_key :: "u64 \<Rightarrow> key_registry \<Rightarrow> data_key option outcome" where
  "get_data_key kid kr =
     (if kid = 0 then Inr None
      else case kr_data_keys kr kid of Some s \<Rightarrow> Inr (Some s) | None \<Rightarrow> Inl (Anyhow ''InvalidDataKeyID Error for the KEY ID''))"

definition get_cipher :: "u64 \<Rightarrow> key_registry \<Rightarrow> aes_cipher option outcome" where
  "get_cipher kid kr =
     and_then (get_data_key kid kr) (\<lambda>dk.
       case dk of None \<Rightarrow> Inr None
       | Some dk \<Rightarrow> and_then (AesCipher_new (dk_data dk) kid) (\<lambda>c. Inr (Some c)))"

section \<open>The file mirrors the memory\<close>

text \<open>
  What the registry relies on: authenticated encryption adds a tag of sixteen bytes and
  decryption inverts it, and the protobuf encoding of a (small) key can be decoded and
  adds at most a few bytes to its two byte strings.
\<close>

definition crypto_laws :: "crypto \<Rightarrow> bool" where
  "crypto_laws cr \<longleftrightarrow>
     (\<forall>c nonce p. length nonce = 12 \<longrightarrow> (\<exists>e. aes_encrypt cr c nonce p = Some e \<and>
        length e = length p + 16 \<and> aes_decrypt cr c nonce e = Some p)) \<and>
     (\<forall>d. length (dk_data d) + length (dk_iv d) < 2 ^ 16 \<longrightarrow>
        cr_decode_key cr (cr_encode_key cr d) = Some d \<and>
        length (cr_encode_key cr d) \<le> length (dk_data d) + length (dk_iv d) + 64)"

text \<open>A data key as \<open>latest_datakey\<close> makes them.\<close>

definition key_ok :: "data_key \<Rightarrow> bool" where
  "key_ok d \<longleftrightarrow> length (dk_iv d) = 12 \<and> length (dk_data d) \<le> 32"

definition sealed :: "crypto \<Rightarrow> aes_cipher option \<Rightarrow> data_key \<Rightarrow> data_key" where
  "sealed cr cipher d = (case cipher of None \<Rightarrow> d
     | Some c \<Rightarrow> d\<lparr>dk_data := the (aes_encrypt cr c (dk_iv d) (dk_data d))\<rparr>)"

definition key_record :: "crypto \<Rightarrow> aes_cipher option \<Rightarrow> data_key \<Rightarrow> bytes" where
  "key_record cr cipher d =
     (let e = cr_encode_key cr (sealed cr cipher d)
      in put_u32 (word_of_nat (length e)) @ put_u32 (cr_crc32 cr e) @ e)"

lemma sealed_facts:
  assumes "crypto_laws cr" "key_ok d"
  shows "dk_iv (sealed cr cipher d) = dk_iv d" "length (dk_data (sealed cr cipher d)) \<le> 48"
    "cr_decode_key cr (cr_encode_key cr (sealed cr cipher d)) = Some (sealed cr cipher d)"
    "length (cr_encode_key cr (sealed cr cipher d)) < 2 ^ 32"
proof -
  show iv: "dk_iv (sealed cr cipher d) = dk_iv d"
    by (simp add: sealed_def split: option.split)
  have enc: "length (the (aes_encrypt cr c (dk_iv d) (dk_data d))) = length (dk_data d) + 16" for c
  proof -
    from assms obtain e where "aes_encrypt cr c (dk_iv d) (dk_data d) = Some e" "length e = length (dk_data d) + 16"
      unfolding crypto_laws_def key_ok_def by blast
    then show ?thesis by simp
  qed
  show len: "length (dk_data (sealed cr cipher d)) \<le> 48"
    using assms(2) enc by (cases cipher) (auto simp: sealed_def key_ok_def)
  have "length (dk_data (sealed cr cipher d)) + length (dk_iv (sealed cr cipher d)) < 2 ^ 16"
    using len iv assms(2) by (simp add: key_ok_def)
  with assms(1) have l: "cr_decode_key cr (cr_encode_key cr (sealed cr cipher d)) = Some (sealed cr cipher d)"
    "length (cr_encode_key cr (sealed cr cipher d)) \<le>
       length (dk_data (sealed cr cipher d)) + length (dk_iv (sealed cr cipher d)) + 64"
    unfolding crypto_laws_def by blast+
  show "cr_decode_key cr (cr_encode_key cr (sealed cr cipher d)) = Some (sealed cr cipher d)"
    by (fact l(1))
  show "length (cr_encode_key cr (sealed cr cipher d)) < 2 ^ 32"
    using l(2) len iv assms(2) by (simp add: key_ok_def)
qed

lemma store_data_key_ok:
  assumes "crypto_laws cr" "key_ok d"
  shows "store_data_key cr cipher d buf = Inr (buf @ key_record cr cipher d, d)"
proof (cases cipher)
  case None
  then show ?thesis using assms
    by (simp add: store_data_key_def nonce_from_slice_def NONCE_SIZE_def key_ok_def key_record_def sealed_def Let_def)
next
  case (Some c)
  from assms obtain e where "aes_encrypt cr c (dk_iv d) (dk_data d) = Some e"
    "aes_decrypt cr c (dk_iv d) e = Some (dk_data d)"
    unfolding crypto_laws_def key_ok_def by blast
  then show ?thesis using assms Some
    by (simp add: store_data_key_def nonce_from_slice_def NONCE_SIZE_def key_ok_def key_record_def sealed_def Let_def)
qed

lemma registry_next_record:
  assumes "crypto_laws cr" "key_ok d"
  shows "registry_next cr cipher (key_record cr cipher d @ r) = Inr (Some (d, r))"
proof -
  let ?s = "sealed cr cipher d"
  let ?e = "cr_encode_key cr ?s"
  note s = sealed_facts [OF assms, of cipher]
  have len: "unat (word_of_nat (length ?e) :: u32) = length ?e"
    using s(4) by (simp add: unat_of_nat take_bit_eq_mod)
  have dec: "(case cipher of None \<Rightarrow> Inr (Some (?s, r))
             | Some c \<Rightarrow> (case decrypt_with_slice cr c (dk_iv ?s) (dk_data ?s) of
                  Inl e \<Rightarrow> Inl e
                | Inr (Some data) \<Rightarrow> Inr (Some (?s\<lparr>dk_data := data\<rparr>, r))
                | Inr None \<Rightarrow> registry_next cr cipher r)) = Inr (Some (d, r))"
  proof (cases cipher)
    case (Some c)
    from assms obtain e where "aes_encrypt cr c (dk_iv d) (dk_data d) = Some e"
      "aes_decrypt cr c (dk_iv d) e = Some (dk_data d)"
      unfolding crypto_laws_def key_ok_def by blast
    then show ?thesis using Some assms(2)
      by (simp add: sealed_def decrypt_with_slice_def nonce_from_slice_def NONCE_SIZE_def key_ok_def)
  qed (simp add: sealed_def)
  have rec: "key_record cr cipher d @ r = (put_u32 (word_of_nat (length ?e)) @ put_u32 (cr_crc32 cr ?e)) @ ?e @ r"
    by (simp add: key_record_def Let_def)
  have "take_exact 8 (key_record cr cipher d @ r) =
      Some (put_u32 (word_of_nat (length ?e)) @ put_u32 (cr_crc32 cr ?e), ?e @ r)"
    unfolding rec by (rule take_exact_append) simp
  moreover have "take_exact (length ?e) (?e @ r) = Some (?e, r)" by simp
  ultimately show ?thesis
    using s(3) len dec by (subst registry_next.simps) (simp add: Let_def from_be_put)
qed

lemma registry_next_end: "registry_next cr cipher [] = Inr None"
  by (simp add: registry_next.simps take_exact_def)

text \<open>A record whose checksum does not match is skipped.\<close>

lemma registry_next_damaged:
  assumes "length e < 2 ^ 32" "cr_crc32 cr e \<noteq> x"
  shows "registry_next cr cipher (put_u32 (word_of_nat (length e)) @ put_u32 x @ e @ r) = registry_next cr cipher r"
proof -
  have "unat (word_of_nat (length e) :: u32) = length e"
    using assms(1) by (simp add: unat_of_nat take_bit_eq_mod)
  then show ?thesis
    using assms(2) by (subst registry_next.simps) (simp add: take_exact_def from_be_put Let_def)
qed

lemma registry_read_loop_records:
  assumes "crypto_laws cr" "list_all key_ok ds"
  shows "registry_read_loop cr (concat (map (key_record cr (kr_cipher kr)) ds)) kr = Inr (fold add_data_key ds kr)"
  using assms(2)
proof (induction ds arbitrary: kr)
  case (Cons d ds)
  have [simp]: "kr_cipher (add_data_key d kr) = kr_cipher kr" by (simp add: add_data_key_def)
  from Cons show ?case
    using registry_next_record [OF assms(1), of d] Cons.IH [of "add_data_key d kr"]
    by (subst registry_read_loop.simps) simp
qed (simp add: registry_read_loop.simps registry_next_end)

definition registry_header :: "crypto \<Rightarrow> aes_cipher option \<Rightarrow> bytes \<Rightarrow> bytes" where
  "registry_header cr cipher nonce =
     (let e = (case cipher of None \<Rightarrow> SANITYTEXT | Some c \<Rightarrow> the (aes_encrypt cr c nonce SANITYTEXT))
      in nonce @ put_u32 (word_of_nat (length e)) @ e)"

lemma registry_valid_header:
  assumes "crypto_laws cr" "length nonce = 12"
  shows "registry_valid cr cipher (registry_header cr cipher nonce @ r) = Inr r"
proof (cases cipher)
  case None
  then show ?thesis using assms(2)
    by (simp add: registry_valid_def registry_header_def from_be_put take_exact_def SANITYTEXT_def)
next
  case (Some c)
  from assms obtain e where e: "aes_encrypt cr c nonce SANITYTEXT = Some e"
    "length e = length SANITYTEXT + 16" "aes_decrypt cr c nonce e = Some SANITYTEXT"
    unfolding crypto_laws_def by blast
  from e(2) have "length e = 28" by (simp add: SANITYTEXT_def)
  with e Some assms(2) show ?thesis
    by (simp add: registry_valid_def registry_header_def from_be_put take_exact_def)
qed

lemma fold_add_rest:
  "kr_cipher (fold add_data_key ds a) = kr_cipher a \<and> kr_fp (fold add_data_key ds a) = kr_fp a \<and>
   kr_rotation (fold add_data_key ds a) = kr_rotation a"
  by (induction ds arbitrary: a) (simp_all add: add_data_key_def)

text \<open>
  The file holds the header and the records of the keys \<open>ds\<close>, in the order they were made,
  and the memory is what reading them gives; \<open>base\<close> is the registry before any key.
\<close>

definition registry_inv :: "crypto \<Rightarrow> bytes \<Rightarrow> data_key list \<Rightarrow> key_registry \<Rightarrow> key_registry \<Rightarrow> bool" where
  "registry_inv cr nonce ds base kr \<longleftrightarrow>
     length nonce = 12 \<and> list_all key_ok ds \<and> unat (kr_next_key_id kr) = length ds \<and>
     kr = (fold add_data_key ds base)\<lparr>kr_fp := Some (registry_header cr (kr_cipher kr) nonce @
        concat (map (key_record cr (kr_cipher kr)) ds))\<rparr>"

lemma registry_read_file:
  assumes "crypto_laws cr" "length nonce = 12" "list_all key_ok ds"
  shows "registry_read cr (registry_header cr (kr_cipher kr) nonce @
    concat (map (key_record cr (kr_cipher kr)) ds)) kr = Inr (fold add_data_key ds kr)"
  using registry_valid_header [OF assms(1,2)] registry_read_loop_records [OF assms(1,3), of kr]
  by (simp add: registry_read_def)

text \<open>A sequence of requests for the current key: each with the key and nonce drawn and the time.\<close>

fun request_keys :: "crypto \<Rightarrow> (bytes \<times> bytes \<times> nat) list \<Rightarrow> key_registry \<Rightarrow> key_registry outcome" where
  "request_keys cr [] kr = Inr kr"
| "request_keys cr ((key, nonce, now) # rs) kr =
     and_then (latest_datakey cr key nonce now kr) (\<lambda>(_, kr). request_keys cr rs kr)"

definition request_ok :: "bytes \<times> bytes \<times> nat \<Rightarrow> bool" where
  "request_ok r \<longleftrightarrow> (case r of (key, nonce, now) \<Rightarrow> length key \<le> 32 \<and> length nonce = 12 \<and> now div 10 ^ 9 < 2 ^ 64)"

lemma latest_datakey_inv:
  assumes laws: "crypto_laws cr" and inv: "registry_inv cr n0 ds base kr"
    and req: "request_ok (key, nonce, now)" and last: "unat (kr_last_created kr) \<le> now div 10 ^ 9"
    and room: "length ds + 1 < 2 ^ 64"
  shows "\<exists>k ds' kr'. latest_datakey cr key nonce now kr = Inr (k, kr') \<and> registry_inv cr n0 ds' base kr' \<and>
    length ds' \<le> length ds + 1 \<and> unat (kr_last_created kr') \<le> now div 10 ^ 9"
proof (cases "kr_cipher kr = None \<or> snd (valid_key now kr)")
  case True
  then have "\<exists>k. latest_datakey cr key nonce now kr = Inr (k, kr)"
    by (auto simp: latest_datakey_def split: option.splits prod.splits)
  then obtain k where "latest_datakey cr key nonce now kr = Inr (k, kr)" ..
  with inv last show ?thesis by (intro exI [of _ k] exI [of _ ds] exI [of _ kr]) simp
next
  case False
  define created :: u64 where "created = word_of_nat (now div 10 ^ 9)"
  define d where "d = \<lparr>dk_key_id = kr_next_key_id kr + 1, dk_data = key, dk_iv = nonce, dk_created_at = created\<rparr>"
  have uc: "unat created = now div 10 ^ 9"
    using req by (simp add: created_def request_ok_def unat_of_nat take_bit_eq_mod)
  have kd: "key_ok d" using req by (simp add: key_ok_def d_def request_ok_def)
  have un: "unat (kr_next_key_id kr) = length ds" using inv by (simp add: registry_inv_def)
  have nm: "kr_next_key_id kr \<noteq> - 1"
  proof
    assume "kr_next_key_id kr = - 1"
    with un have "length ds = 2 ^ 64 - 1" by (simp add: unsigned_minus_1_eq_mask mask_eq_exp_minus_1)
    with room show False by simp
  qed
  have un1: "unat (kr_next_key_id kr + 1) = length ds + 1"
    using un room by (simp add: unat_word_ariths)
  obtain c where c: "kr_cipher kr = Some c" "\<not> snd (valid_key now kr)" using False by auto
  let ?kr = "kr\<lparr>kr_next_key_id := kr_next_key_id kr + 1,
      kr_fp := map_option (\<lambda>f. f @ key_record cr (kr_cipher kr) d) (kr_fp kr),
      kr_last_created := created, kr_data_keys := (kr_data_keys kr)(kr_next_key_id kr + 1 \<mapsto> d)\<rparr>"
  have "add_checked (kr_next_key_id kr) 1 = Inr (kr_next_key_id kr + 1)"
    using nm by (simp add: add_one_checked)
  then have "latest_datakey cr key nonce now kr = Inr (Some d, ?kr)"
    using c store_data_key_ok [OF laws kd, of "kr_cipher kr" "[]"]
    by (auto simp: latest_datakey_def Let_def d_def created_def split: prod.splits)
  moreover have "registry_inv cr n0 (ds @ [d]) base ?kr"
  proof -
    let ?f = "fold add_data_key ds base"
    have kr: "kr = ?f\<lparr>kr_fp := Some (registry_header cr (kr_cipher kr) n0 @
        concat (map (key_record cr (kr_cipher kr)) ds))\<rparr>" using inv by (simp add: registry_inv_def)
    have f: "kr_next_key_id ?f = kr_next_key_id kr" "kr_last_created ?f = kr_last_created kr"
      "kr_data_keys ?f = kr_data_keys kr" "kr_cipher ?f = kr_cipher kr" "kr_rotation ?f = kr_rotation kr"
      "kr_fp kr = Some (registry_header cr (kr_cipher kr) n0 @ concat (map (key_record cr (kr_cipher kr)) ds))"
      using arg_cong [OF kr, of kr_next_key_id] arg_cong [OF kr, of kr_last_created]
        arg_cong [OF kr, of kr_data_keys] arg_cong [OF kr, of kr_cipher]
        arg_cong [OF kr, of kr_rotation] arg_cong [OF kr, of kr_fp] by simp_all
    have mx: "max (kr_next_key_id kr) (kr_next_key_id kr + 1) = kr_next_key_id kr + 1"
      "max (kr_last_created kr) created = created"
      using un un1 last uc by (auto simp: max_def word_le_nat_alt)
    have eq: "?kr = (fold add_data_key (ds @ [d]) base)\<lparr>kr_fp := Some (registry_header cr (kr_cipher kr) n0 @
        concat (map (key_record cr (kr_cipher kr)) (ds @ [d])))\<rparr>"
      by (rule key_registry.equality) (simp_all add: add_data_key_def f mx, simp_all add: d_def mx)
    have c': "kr_cipher ?kr = kr_cipher kr" by simp
    have "list_all key_ok (ds @ [d])" "length n0 = 12" using inv kd by (simp_all add: registry_inv_def)
    moreover have "unat (kr_next_key_id ?kr) = length (ds @ [d])" using un1 by simp
    ultimately show ?thesis unfolding registry_inv_def c' using eq by blast
  qed
  ultimately show ?thesis using uc by (intro exI [of _ "Some d"] exI [of _ "ds @ [d]"] exI [of _ ?kr]) simp
qed

lemma request_keys_inv:
  assumes laws: "crypto_laws cr"
  shows "registry_inv cr n0 ds base kr \<Longrightarrow> list_all request_ok rs \<Longrightarrow>
    sorted (map (\<lambda>(_, _, now). now) rs) \<Longrightarrow>
    \<forall>(_, _, now) \<in> set rs. unat (kr_last_created kr) \<le> now div 10 ^ 9 \<Longrightarrow>
    length ds + length rs < 2 ^ 64 \<Longrightarrow>
    \<exists>ds' kr'. request_keys cr rs kr = Inr kr' \<and> registry_inv cr n0 ds' base kr'"
proof (induction rs arbitrary: ds kr)
  case Nil
  then show ?case by auto
next
  case (Cons r rs)
  obtain key nonce now where r: "r = (key, nonce, now)" by (cases r)
  obtain k ds' kr' where s: "latest_datakey cr key nonce now kr = Inr (k, kr')" "registry_inv cr n0 ds' base kr'"
    "length ds' \<le> length ds + 1" "unat (kr_last_created kr') \<le> now div 10 ^ 9"
    using latest_datakey_inv [OF laws Cons.prems(1), of key nonce now] Cons.prems(2,4,5) r by auto
  have "\<forall>(_, _, now') \<in> set rs. unat (kr_last_created kr') \<le> now' div 10 ^ 9"
  proof clarify
    fix a b now' assume "(a, b, now') \<in> set rs"
    then have "now \<le> now'" using Cons.prems(3) r by force
    then show "unat (kr_last_created kr') \<le> now' div 10 ^ 9"
      using s(4) div_le_mono [of now now' "10 ^ 9"] by linarith
  qed
  from Cons.IH [OF s(2) _ _ this] s(1,3) Cons.prems(2,3,5) r show ?case by auto
qed

lemma KeyRegistry_new_ok:
  assumes "length ek \<in> {0, 16, 32}"
  obtains base where "KeyRegistry_new ek rot = Inr base" "kr_fp base = None" "kr_data_keys base = Map.empty"
    "kr_last_created base = 0" "kr_next_key_id base = 0"
  using assms by (auto simp: KeyRegistry_new_def)

lemma write_to_file_fresh:
  assumes "crypto_laws cr" "length nonce = 12"
  shows "write_to_file cr nonce [] kr = Inr (registry_header cr (kr_cipher kr) nonce, kr)"
proof (cases "kr_cipher kr")
  case (Some c)
  from assms obtain e where "aes_encrypt cr c nonce SANITYTEXT = Some e"
    unfolding crypto_laws_def by blast
  with Some show ?thesis by (simp add: write_to_file_def registry_header_def Let_def)
qed (simp add: write_to_file_def registry_header_def Let_def)

lemma open_fresh:
  assumes "crypto_laws cr" "length nonce = 12" "KeyRegistry_new ek rot = Inr base"
  shows "KeyRegistry_open cr nonce ek rot False None =
    Inr (base\<lparr>kr_fp := Some (registry_header cr (kr_cipher base) nonce)\<rparr>)"
  using assms(3) write_to_file_fresh [OF assms(1,2), of base] registry_read_file [OF assms(1,2), of "[]" base]
  by (simp add: KeyRegistry_open_def)

text \<open>
  C22: Reopening a registry restores it. A registry created in an empty directory that has
  served any number of requests for the current key, the clock not going backwards, is
  equal to the one that opening its file again with the same master key gives: all
  data keys, the next key id and the time of the last rotation.
\<close>

theorem registry_reopen:
  assumes laws: "crypto_laws cr" and ek: "length ek \<in> {0, 16, 32}" and n: "length nonce = 12"
    and rs: "list_all request_ok rs" "sorted (map (\<lambda>(_, _, now). now) rs)" "length rs < 2 ^ 64"
  shows "\<exists>kr0 kr. KeyRegistry_open cr nonce ek rot False None = Inr kr0 \<and>
    request_keys cr rs kr0 = Inr kr \<and> KeyRegistry_open cr nonce' ek rot False (kr_fp kr) = Inr kr"
proof -
  obtain base where base: "KeyRegistry_new ek rot = Inr base" "kr_fp base = None"
    "kr_last_created base = 0" "kr_next_key_id base = 0" using KeyRegistry_new_ok [OF ek] by metis
  let ?kr0 = "base\<lparr>kr_fp := Some (registry_header cr (kr_cipher base) nonce)\<rparr>"
  have op: "KeyRegistry_open cr nonce ek rot False None = Inr ?kr0"
    by (rule open_fresh [OF laws n base(1)])
  have "registry_inv cr nonce [] base ?kr0" using n base by (simp add: registry_inv_def)
  from request_keys_inv [OF laws this rs(1,2)] rs(3) base(3) obtain ds kr where
    kr: "request_keys cr rs ?kr0 = Inr kr" "registry_inv cr nonce ds base kr" by (auto split: prod.splits)
  have k: "kr_cipher kr = kr_cipher base" "list_all key_ok ds"
    "kr = (fold add_data_key ds base)\<lparr>kr_fp := Some (registry_header cr (kr_cipher base) nonce @
        concat (map (key_record cr (kr_cipher base)) ds))\<rparr>"
  proof -
    have e: "kr = (fold add_data_key ds base)\<lparr>kr_fp := Some (registry_header cr (kr_cipher kr) nonce @
        concat (map (key_record cr (kr_cipher kr)) ds))\<rparr>" and "list_all key_ok ds"
      using kr(2) by (simp_all add: registry_inv_def)
    then show "list_all key_ok ds" by simp
    show c: "kr_cipher kr = kr_cipher base" by (subst e) (simp add: fold_add_rest)
    show "kr = (fold add_data_key ds base)\<lparr>kr_fp := Some (registry_header cr (kr_cipher base) nonce @
        concat (map (key_record cr (kr_cipher base)) ds))\<rparr>" using e unfolding c .
  qed
  have fp: "kr_fp kr = Some (registry_header cr (kr_cipher base) nonce @
        concat (map (key_record cr (kr_cipher base)) ds))" by (subst k(3)) simp
  have "KeyRegistry_open cr nonce' ek rot False (kr_fp kr) = Inr kr"
    unfolding fp using base(1) registry_read_file [OF laws n k(2), of base] k(3)
    by (simp add: KeyRegistry_open_def)
  with op kr(1) show ?thesis by blast
qed

section \<open>Keys stay available\<close>

definition registry_wf :: "key_registry \<Rightarrow> bool" where
  "registry_wf kr \<longleftrightarrow> (\<forall>i d. kr_data_keys kr i = Some d \<longrightarrow> dk_key_id d = i \<and> 0 < i \<and> i \<le> kr_next_key_id kr)"

lemma store_data_key_id: "store_data_key cr c d buf = Inr (buf', d') \<Longrightarrow> dk_key_id d' = dk_key_id d"
  by (auto simp: store_data_key_def and_then_Inr Let_def split: option.splits)

lemma latest_datakey_cases:
  assumes "latest_datakey cr key nonce now kr = Inr (k, kr')"
  obtains (same) "kr' = kr" "k = None \<or> k = kr_data_keys kr (kr_next_key_id kr)"
  | (fresh) d where "k = Some d" "kr_next_key_id kr \<noteq> - 1" "dk_key_id d = kr_next_key_id kr + 1"
      "kr_next_key_id kr' = kr_next_key_id kr + 1"
      "kr_data_keys kr' = (kr_data_keys kr)(kr_next_key_id kr + 1 \<mapsto> d)"
  using assms store_data_key_id
  by (fastforce simp: latest_datakey_def valid_key_def Let_def and_then_Inr add_one_checked
      split: option.splits if_splits)

lemma latest_datakey_wf:
  assumes wf: "registry_wf kr" and s: "latest_datakey cr key nonce now kr = Inr (k, kr')"
  shows "registry_wf kr'" "kr_data_keys kr \<subseteq>\<^sub>m kr_data_keys kr'"
    "\<And>d. k = Some d \<Longrightarrow> kr_data_keys kr' (dk_key_id d) = Some d \<and> 0 < dk_key_id d"
proof -
  have up: "i \<le> x \<Longrightarrow> x \<noteq> - 1 \<Longrightarrow> i < x + 1" for i x :: u64
    using word_incr_less by blast
  have pos: "x \<noteq> - 1 \<Longrightarrow> 0 < x + 1" for x :: u64
    by (metis add_eq_0_iff word_gt_0 add.commute)
  from s show "registry_wf kr'"
  proof (cases rule: latest_datakey_cases)
    case (fresh d)
    with wf up pos show ?thesis by (fastforce simp: registry_wf_def less_imp_le)
  qed (use wf in simp)
  from s show "kr_data_keys kr \<subseteq>\<^sub>m kr_data_keys kr'"
  proof (cases rule: latest_datakey_cases)
    case (fresh d)
    have "kr_data_keys kr (kr_next_key_id kr + 1) = None"
    proof (rule ccontr)
      assume "kr_data_keys kr (kr_next_key_id kr + 1) \<noteq> None"
      with wf have "kr_next_key_id kr + 1 \<le> kr_next_key_id kr" by (auto simp: registry_wf_def)
      from up [OF this fresh(2)] show False by simp
    qed
    with fresh show ?thesis by (auto simp: map_le_def)
  qed simp
  show "kr_data_keys kr' (dk_key_id d) = Some d \<and> 0 < dk_key_id d" if "k = Some d" for d
    using s
  proof (cases rule: latest_datakey_cases)
    case same
    with that have "kr_data_keys kr (kr_next_key_id kr) = Some d" by auto
    with wf same(1) show ?thesis unfolding registry_wf_def by metis
  next
    case (fresh e)
    with that pos show ?thesis by simp
  qed
qed

lemma request_keys_wf:
  "registry_wf kr \<Longrightarrow> request_keys cr rs kr = Inr kr' \<Longrightarrow>
     registry_wf kr' \<and> kr_data_keys kr \<subseteq>\<^sub>m kr_data_keys kr'"
proof (induction rs arbitrary: kr)
  case (Cons r rs)
  obtain key nonce now k kr1 where 1: "latest_datakey cr key nonce now kr = Inr (k, kr1)"
    "request_keys cr rs kr1 = Inr kr'"
    using Cons.prems(2) by (cases r) (auto simp: and_then_Inr)
  from latest_datakey_wf [OF Cons.prems(1) 1(1)] Cons.IH [OF _ 1(2)] show ?case
    using map_le_trans by blast
qed simp

lemma open_fresh_wf:
  assumes "crypto_laws cr" "length nonce = 12" "KeyRegistry_open cr nonce ek rot False None = Inr kr0"
  shows "registry_wf kr0"
proof -
  from assms(3) obtain base where base: "KeyRegistry_new ek rot = Inr base"
    by (auto simp: KeyRegistry_open_def and_then_Inr)
  then have "kr_data_keys base = Map.empty" by (auto simp: KeyRegistry_new_def Let_def split: if_splits)
  with assms(3) open_fresh [OF assms(1,2) base] show ?thesis by (auto simp: registry_wf_def)
qed

text \<open>
  A cipher handed out for a new file can be found again. Whatever requests came before
  and come after, looking up the key id that the file's header records gives the very
  cipher the file was written with, never \<open>None\<close> and never \<open>InvalidDataKeyID\<close>.
\<close>

theorem cipher_retrievable:
  assumes "crypto_laws cr" "length nonce = 12"
    and "KeyRegistry_open cr nonce ek rot False None = Inr kr0" "request_keys cr rs1 kr0 = Inr kr1"
    and "latest_cipher cr key iv now kr1 = Inr (Some c, kr2)" "request_keys cr rs2 kr2 = Inr kr3"
  shows "get_cipher (cipher_key_id c) kr3 = Inr (Some c)"
proof -
  have wf1: "registry_wf kr1"
    using request_keys_wf [OF open_fresh_wf [OF assms(1-3)] assms(4)] by simp
  from assms(5) obtain d where d: "latest_datakey cr key iv now kr1 = Inr (Some d, kr2)"
    "AesCipher_new (dk_data d) (dk_key_id d) = Inr c"
    by (auto simp: latest_cipher_def and_then_Inr split: option.splits)
  note w = latest_datakey_wf [OF wf1 d(1)]
  have "kr_data_keys kr3 (dk_key_id d) = Some d"
    using w(3) [OF refl] request_keys_wf [OF w(1) assms(6)] by (auto simp: map_le_def dom_def)
  moreover have "dk_key_id d \<noteq> 0" using w(3) [OF refl] by auto
  moreover have "cipher_key_id c = dk_key_id d"
    using d(2) by (auto simp: AesCipher_new_def split: if_splits)
  ultimately show ?thesis using d(2) by (simp add: get_cipher_def get_data_key_def)
qed

section \<open>An instance of the laws\<close>

text \<open>A cipher that only appends a tag, and a plain encoding of data keys.\<close>

definition demo_encode :: "data_key \<Rightarrow> bytes" where
  "demo_encode d = put_u64 (dk_key_id d) @ put_u64 (dk_created_at d) @ put_u32 (word_of_nat (length (dk_iv d))) @
     dk_iv d @ dk_data d"

definition demo_decode :: "bytes \<Rightarrow> data_key option" where
  "demo_decode bs = (case get_u64 bs of None \<Rightarrow> None | Some (i, bs) \<Rightarrow>
     (case get_u64 bs of None \<Rightarrow> None | Some (t, bs) \<Rightarrow>
     (case get_u32 bs of None \<Rightarrow> None | Some (n, bs) \<Rightarrow>
        Some \<lparr>dk_key_id = i, dk_data = drop (unat n) bs, dk_iv = take (unat n) bs, dk_created_at = t\<rparr>)))"

definition demo_crypto :: crypto where
  "demo_crypto = \<lparr>cr_encrypt128 = (\<lambda>k n p. Some (p @ replicate 16 0)),
     cr_decrypt128 = (\<lambda>k n c. Some (take (length c - 16) c)),
     cr_encrypt256 = (\<lambda>k n p. Some (p @ replicate 16 0)),
     cr_decrypt256 = (\<lambda>k n c. Some (take (length c - 16) c)),
     cr_crc32 = (\<lambda>bs. word_of_nat (sum_list (map unat bs))),
     cr_encode_key = demo_encode, cr_decode_key = demo_decode\<rparr>"

lemma demo_laws: "crypto_laws demo_crypto"
proof -
  have enc: "\<exists>e. aes_encrypt demo_crypto c nonce p = Some e \<and> length e = length p + 16 \<and>
      aes_decrypt demo_crypto c nonce e = Some p" for c nonce p
    by (cases c) (simp_all add: demo_crypto_def)
  have key: "demo_decode (demo_encode d) = Some d \<and> length (demo_encode d) \<le> length (dk_data d) + length (dk_iv d) + 64"
    if "length (dk_data d) + length (dk_iv d) < 2 ^ 16" for d
  proof -
    have "length (dk_iv d) < 2 ^ 32" using that by simp
    then have "unat (word_of_nat (length (dk_iv d)) :: u32) = length (dk_iv d)"
      by (simp add: unat_of_nat take_bit_eq_mod)
    then show ?thesis by (simp add: demo_encode_def demo_decode_def)
  qed
  show ?thesis unfolding crypto_laws_def using enc key by (simp add: demo_crypto_def)
qed

definition demo_master :: bytes where "demo_master = replicate 16 7"
definition demo_nonce :: bytes where "demo_nonce = replicate 12 1"

theorem registry_reopen_witness:
  "\<exists>kr0 kr. KeyRegistry_open demo_crypto demo_nonce demo_master 5 False None = Inr kr0 \<and>
    request_keys demo_crypto [(demo_master, demo_nonce, 10 ^ 9), (demo_master, demo_nonce, 3 * 10 ^ 9)] kr0 = Inr kr \<and>
    KeyRegistry_open demo_crypto demo_nonce demo_master 5 False (kr_fp kr) = Inr kr"
  by (rule registry_reopen [OF demo_laws])
    (simp_all add: demo_master_def demo_nonce_def request_ok_def)

theorem cipher_retrievable_witness:
  "\<exists>kr0 c kr2. KeyRegistry_open demo_crypto demo_nonce demo_master 5 False None = Inr kr0 \<and>
    latest_cipher demo_crypto demo_master demo_nonce (10 ^ 9) kr0 = Inr (Some c, kr2) \<and>
    get_cipher (cipher_key_id c) kr2 = Inr (Some c)"
proof -
  have n: "length demo_nonce = 12" by (simp add: demo_nonce_def)
  obtain base where base: "KeyRegistry_new demo_master 5 = Inr base" "kr_cipher base = Some (Aes128 demo_master 0)"
    "kr_next_key_id base = 0" "kr_last_created base = 0" "kr_rotation base = 5"
    by (simp add: KeyRegistry_new_def AesCipher_new_def demo_master_def)
  let ?kr0 = "base\<lparr>kr_fp := Some (registry_header demo_crypto (kr_cipher base) demo_nonce)\<rparr>"
  have op: "KeyRegistry_open demo_crypto demo_nonce demo_master 5 False None = Inr ?kr0"
    by (rule open_fresh [OF demo_laws n base(1)])
  let ?d = "\<lparr>dk_key_id = 1, dk_data = demo_master, dk_iv = demo_nonce, dk_created_at = 1\<rparr>"
  have "key_ok ?d" by (simp add: key_ok_def demo_master_def demo_nonce_def)
  from store_data_key_ok [OF demo_laws this, of "kr_cipher base" "[]"]
  obtain kr2 where lc: "latest_cipher demo_crypto demo_master demo_nonce (10 ^ 9) ?kr0 = Inr (Some (Aes128 demo_master 1), kr2)"
    using base by (auto simp: latest_cipher_def latest_datakey_def valid_key_def Let_def add_checked_def
        AesCipher_new_def demo_master_def)
  have "get_cipher (cipher_key_id (Aes128 demo_master 1)) kr2 = Inr (Some (Aes128 demo_master 1))"
    by (rule cipher_retrievable [OF demo_laws n op _ lc, of "[]" "[]"]) simp_all
  with op lc show ?thesis by blast
qed

end
