(* ===== verification/LogFile.thy ===== *)
theory LogFile
  imports KV Mmap KeyRegistry
begin

text \<open>
  Log files: \<open>src/src/util/log_file.rs\<close> (a memory-mapped file whose first twenty bytes name
  the data key and the base nonce), the record header \<open>src/src/vlog/header.rs\<close>, the encoder
  \<open>encode_entry\<close> of \<open>src/src/vlog/write.rs\<close> and the reader \<open>LogFileIter\<close> of
  \<open>src/src/vlog/read.rs\<close>. Both the value log and the write-ahead logs of the memtables
  are log files. The variable-length integers of the crate \<open>integer-encoding\<close> and the
  cryptographic functions are fields of the argument \<open>env\<close>; \<open>le_read32\<close> and \<open>le_read64\<close>
  give the result of \<open>read_varint\<close> and the number of bytes it consumes.
\<close>

section \<open>External code\<close>

datatype io_error = Unexpected_eof | Other_io | Io_panic

record log_env =
  le_crypto :: crypto
  le_enc32 :: "u32 \<Rightarrow> bytes"
  le_enc64 :: "u64 \<Rightarrow> bytes"
  le_dec32 :: "bytes \<Rightarrow> (u32 \<times> nat) option"
  le_dec64 :: "bytes \<Rightarrow> (u64 \<times> nat) option"
  le_read32 :: "bytes \<Rightarrow> (io_error + u32) \<times> nat"
  le_read64 :: "bytes \<Rightarrow> (io_error + u64) \<times> nat"

abbreviation le_crc :: "log_env \<Rightarrow> bytes \<Rightarrow> u32" where "le_crc env \<equiv> cr_crc32 (le_crypto env)"

text \<open>
  Decoding and reading give back what was encoded, whatever follows; an encoding has
  at most five respectively ten bytes, zero is the byte zero, and nothing can be read
  from an exhausted stream.
\<close>

definition log_laws :: "log_env \<Rightarrow> bool" where
  "log_laws env \<longleftrightarrow>
     (\<forall>x r. le_dec32 env (le_enc32 env x @ r) = Some (x, length (le_enc32 env x))) \<and>
     (\<forall>x r. le_dec64 env (le_enc64 env x @ r) = Some (x, length (le_enc64 env x))) \<and>
     (\<forall>x r. le_read32 env (le_enc32 env x @ r) = (Inr x, length (le_enc32 env x))) \<and>
     (\<forall>x r. le_read64 env (le_enc64 env x @ r) = (Inr x, length (le_enc64 env x))) \<and>
     (\<forall>x. length (le_enc32 env x) \<le> 5) \<and> (\<forall>x. length (le_enc64 env x) \<le> 10) \<and>
     le_enc32 env 0 = [0] \<and> le_enc64 env 0 = [0] \<and>
     le_read32 env [] = (Inl Unexpected_eof, 0) \<and> le_read64 env [] = (Inl Unexpected_eof, 0)"

section \<open>Record headers\<close>

record vlog_entry_header =
  h_key_len :: u32
  h_value_len :: u32
  h_expires_at :: u64
  h_meta :: meta
  h_user_meta :: byte

definition MAX_HEADER_SIZE :: nat where "MAX_HEADER_SIZE = 22"

definition VlogEntryHeader_new :: "entry \<Rightarrow> vlog_entry_header" where
  "VlogEntryHeader_new e =
     \<lparr>h_key_len = word_of_nat (KeyTs_len (e_key_ts e)), h_value_len = word_of_nat (length (Entry_value e)),
      h_expires_at = vm_expires_at (e_value_meta e), h_meta = Entry_meta e,
      h_user_meta = vm_user_meta (e_value_meta e)\<rparr>"

definition header_encode :: "log_env \<Rightarrow> vlog_entry_header \<Rightarrow> bytes" where
  "header_encode env h =
     h_meta h # h_user_meta h # le_enc32 env (h_key_len h) @ le_enc32 env (h_value_len h) @
       le_enc64 env (h_expires_at h)"

text \<open>\<open>decode\<close> reads a slice and panics when it is too short or malformed.\<close>

definition header_decode :: "log_env \<Rightarrow> bytes \<Rightarrow> (vlog_entry_header \<times> nat) outcome" where
  "header_decode env buf =
     (case buf of
        meta # user_meta # buf \<Rightarrow>
          and_then (unwrap (le_dec32 env buf)) (\<lambda>(key_len, count1).
          let buf = drop count1 buf in
          and_then (unwrap (le_dec32 env buf)) (\<lambda>(value_len, count2).
          let buf = drop count2 buf in
          and_then (unwrap (le_dec64 env buf)) (\<lambda>(expires_at, count3).
          Inr (\<lparr>h_key_len = key_len, h_value_len = value_len, h_expires_at = expires_at,
                h_meta = meta, h_user_meta = user_meta\<rparr>, 2 + count1 + count2 + count3))))
      | _ \<Rightarrow> Inl Panic)"

text \<open>Reading from a stream: the result and the bytes that are left.\<close>

type_synonym 'a reader = "bytes \<Rightarrow> (io_error + 'a) \<times> bytes"

definition read_bind :: "'a reader \<Rightarrow> ('a \<Rightarrow> 'b reader) \<Rightarrow> 'b reader" where
  "read_bind m f r = (case m r of (Inl e, r') \<Rightarrow> (Inl e, r') | (Inr x, r') \<Rightarrow> f x r')"

definition read_full :: "nat \<Rightarrow> bytes reader" where
  "read_full n r = (if n \<le> length r then (Inr (take n r), drop n r) else (Inl Unexpected_eof, []))"

lemma read_full_append: "length a = n \<Longrightarrow> read_full n (a @ r) = (Inr a, r)"
  by (simp add: read_full_def)

definition read_var :: "(bytes \<Rightarrow> (io_error + 'a) \<times> nat) \<Rightarrow> 'a reader" where
  "read_var f r = (case f r of (x, n) \<Rightarrow> (x, drop n r))"

text \<open>
  \<open>decode_from\<close> reads the first two bytes into temporaries (\<open>&mut [meta]\<close> copies the
  variable), so the metadata and the user byte of the header it returns are zero.
\<close>

definition header_decode_from :: "log_env \<Rightarrow> vlog_entry_header reader" where
  "header_decode_from env =
     (let meta = 0; user_meta = 0 in
      read_bind (read_full 1) (\<lambda>_.
      read_bind (read_full 1) (\<lambda>_.
      read_bind (read_var (le_read32 env)) (\<lambda>key_len.
      read_bind (read_var (le_read32 env)) (\<lambda>value_len.
      read_bind (read_var (le_read64 env)) (\<lambda>expires_at.
      (\<lambda>r. (Inr \<lparr>h_key_len = key_len, h_value_len = value_len, h_expires_at = expires_at,
                h_meta = meta, h_user_meta = user_meta\<rparr>, r))))))))"

lemma header_roundtrip:
  assumes "log_laws env"
  shows "header_decode env (header_encode env h @ r) = Inr (h, length (header_encode env h))"
  using assms by (simp add: header_decode_def header_encode_def log_laws_def Let_def)

lemma length_header_encode:
  assumes "log_laws env"
  shows "length (header_encode env h) \<le> MAX_HEADER_SIZE"
proof -
  have "length (le_enc32 env (h_key_len h)) \<le> 5" "length (le_enc32 env (h_value_len h)) \<le> 5"
    "length (le_enc64 env (h_expires_at h)) \<le> 10" using assms by (auto simp: log_laws_def)
  then show ?thesis by (simp add: header_encode_def MAX_HEADER_SIZE_def)
qed

lemma header_decode_from_encode:
  assumes "log_laws env"
  shows "header_decode_from env (header_encode env h @ r) = (Inr (h\<lparr>h_meta := 0, h_user_meta := 0\<rparr>), r)"
  using assms
  by (simp add: header_decode_from_def header_encode_def log_laws_def read_bind_def read_full_def read_var_def Let_def)

lemma header_decode_from_shorter: "header_decode_from env r = (x, r') \<Longrightarrow> length r' \<le> length r"
  by (auto simp: header_decode_from_def read_bind_def read_full_def read_var_def Let_def
      split: prod.splits sum.splits if_splits)

section \<open>Log files\<close>

record log_file =
  lf_fid :: u32
  lf_cipher :: "aes_cipher option"
  lf_mmap :: mmap_file
  lf_size :: nat
  lf_base_nonce :: bytes

definition VLOG_HEADER_SIZE :: nat where "VLOG_HEADER_SIZE = 20"

text \<open>The nonce of a record: four bytes of the base nonce and its offset, in the machine's (little-endian) order.\<close>

definition generate_nonce :: "log_file \<Rightarrow> nat \<Rightarrow> bytes outcome" where
  "generate_nonce lf offset =
     (let p = rev (to_be 8 offset) in
      if length (lf_base_nonce lf) < 12 - length p then Inl Panic
      else Inr (take (12 - length p) (lf_base_nonce lf) @ p))"

definition try_decrypt :: "log_env \<Rightarrow> log_file \<Rightarrow> bytes \<Rightarrow> nat \<Rightarrow> bytes option outcome" where
  "try_decrypt env lf ciphertext offset =
     (case lf_cipher lf of None \<Rightarrow> Inr None
      | Some c \<Rightarrow> and_then (generate_nonce lf offset) (\<lambda>nonce. decrypt_with_slice (le_crypto env) c nonce ciphertext))"

definition try_encrypt :: "log_env \<Rightarrow> log_file \<Rightarrow> bytes \<Rightarrow> nat \<Rightarrow> bytes option outcome" where
  "try_encrypt env lf plaintext offset =
     (case lf_cipher lf of None \<Rightarrow> Inr None
      | Some c \<Rightarrow> and_then (generate_nonce lf offset) (\<lambda>nonce. encrypt_with_slice (le_crypto env) c nonce plaintext))"

definition lf_truncate :: "nat \<Rightarrow> log_file \<Rightarrow> log_file" where
  "lf_truncate end_offset lf =
     (if length (mm_raw (lf_mmap lf)) = end_offset then lf
      else lf\<lparr>lf_size := end_offset, lf_mmap := set_len end_offset (lf_mmap lf)\<rparr>)"

text \<open>What the random source and the clock give when a log file is bootstrapped.\<close>

record draws =
  dr_key :: bytes
  dr_iv :: bytes
  dr_now :: nat
  dr_nonce :: bytes

definition cipher_id :: "aes_cipher option \<Rightarrow> u64" where
  "cipher_id c = (case c of None \<Rightarrow> 0 | Some c \<Rightarrow> cipher_key_id c)"

definition lf_bootstrap :: "log_env \<Rightarrow> draws \<Rightarrow> log_file \<Rightarrow> key_registry \<Rightarrow> (log_file \<times> key_registry) outcome" where
  "lf_bootstrap env d lf kr =
     and_then (latest_cipher (le_crypto env) (dr_key d) (dr_iv d) (dr_now d) kr) (\<lambda>(c, kr).
       let buf = put_u64 (cipher_id c) @ dr_nonce d in
       and_then (write_slice 0 buf (lf_mmap lf)) (\<lambda>mm.
       and_then (mm_flush mm) (\<lambda>mm.
       Inr (lf\<lparr>lf_cipher := c, lf_base_nonce := dr_nonce d, lf_mmap := mm\<rparr>, kr))))"

definition LogFile_open ::
  "log_env \<Rightarrow> nat \<Rightarrow> draws \<Rightarrow> u32 \<Rightarrow> bytes \<Rightarrow> nat \<Rightarrow> key_registry \<Rightarrow> ((log_file \<times> bool) \<times> key_registry) outcome" where
  "LogFile_open env page d fid file fsize kr =
     (let (mm, is_new) = MmapFile_open page file fsize;
          lf = \<lparr>lf_fid = fid, lf_cipher = None, lf_mmap = mm, lf_size = 0, lf_base_nonce = []\<rparr>
      in and_then
        (if is_new then and_then (lf_bootstrap env d lf kr) (\<lambda>(lf, kr). Inr (lf\<lparr>lf_size := VLOG_HEADER_SIZE\<rparr>, kr))
         else Inr (lf, kr))
      (\<lambda>(lf, kr).
        let lf = lf\<lparr>lf_size := length (mm_raw (lf_mmap lf))\<rparr> in
        if lf_size lf < VLOG_HEADER_SIZE then Inr ((lf, is_new), kr)
        else let buf = take VLOG_HEADER_SIZE (mm_raw (lf_mmap lf)) in
          and_then (get_cipher (word_of_nat (from_be (take 8 buf))) kr) (\<lambda>c.
          Inr ((lf\<lparr>lf_cipher := c, lf_base_nonce := drop 8 buf\<rparr>, is_new), kr))))"

section \<open>Writing records\<close>

text \<open>
  \<open>encode_entry\<close>: header, key with version and value (encrypted when the file has a
  cipher), checksum. The result is the buffer and the length it returns.
\<close>

definition encode_entry :: "log_env \<Rightarrow> log_file \<Rightarrow> entry \<Rightarrow> nat \<Rightarrow> (bytes \<times> nat) outcome" where
  "encode_entry env lf entry offset =
     (let header = header_encode env (VlogEntryHeader_new entry);
          kv_buf = KeyTs_serialize (e_key_ts entry) @ Entry_value entry
      in and_then (try_encrypt env lf kv_buf offset) (\<lambda>e.
        let kv_buf = (case e of Some e \<Rightarrow> e | None \<Rightarrow> kv_buf);
            buf = header @ kv_buf
        in Inr (buf @ put_u32 (le_crc env buf), length header + length kv_buf + 4)))"

section \<open>Reading records\<close>

record log_iter =
  li_record_offset :: nat
  li_reader :: bytes
  li_entries_vptrs :: "(entry \<times> value_pointer) list"
  li_valid_end_offset :: nat

definition LogFileIter_new :: "log_file \<Rightarrow> nat \<Rightarrow> log_iter outcome" where
  "LogFileIter_new lf offset =
     (if offset > length (mm_raw (lf_mmap lf)) then Inl Panic
      else Inr \<lparr>li_record_offset = offset, li_reader = drop offset (mm_raw (lf_mmap lf)),
        li_entries_vptrs = [], li_valid_end_offset = offset\<rparr>)"

definition read_entry :: "log_env \<Rightarrow> log_file \<Rightarrow> log_iter \<Rightarrow> (io_error + entry \<times> value_pointer) \<times> log_iter" where
  "read_entry env lf it =
     (let r0 = li_reader it; offset = li_record_offset it in
      case header_decode_from env r0 of (Inl e, r1) \<Rightarrow> (Inl e, it\<lparr>li_reader := r1\<rparr>)
      | (Inr entry_header, r1) \<Rightarrow>
        let header_len = length r0 - length r1;
            key_len = unat (h_key_len entry_header); value_len = unat (h_value_len entry_header) in
        if key_len > 2 ^ 16 then (Inl Unexpected_eof, it\<lparr>li_reader := r1\<rparr>)
        else case read_full (key_len + value_len) r1 of (Inl e, r2) \<Rightarrow> (Inl e, it\<lparr>li_reader := r2\<rparr>)
        | (Inr kv_buf, r2) \<Rightarrow>
          if kv_buf = [] then (Inl Unexpected_eof, it\<lparr>li_reader := r2\<rparr>)
          else case try_decrypt env lf kv_buf offset of Inl _ \<Rightarrow> (Inl Io_panic, it\<lparr>li_reader := r2\<rparr>)
          | Inr s \<Rightarrow>
            let kv_buf = (case s of Some s \<Rightarrow> s | None \<Rightarrow> kv_buf) in
            if length kv_buf < key_len then (Inl Io_panic, it\<lparr>li_reader := r2\<rparr>)
            else
              let entry = Entry_new_ts (take key_len kv_buf) (drop key_len kv_buf) entry_header offset header_len;
                  hash = le_crc env (take (length r0 - length r2) r0)
              in case read_full 4 r2 of (Inl e, r3) \<Rightarrow> (Inl e, it\<lparr>li_reader := r3\<rparr>)
              | (Inr crc_buf, r3) \<Rightarrow>
                if hash \<noteq> word_of_nat (from_be crc_buf) then (Inl Unexpected_eof, it\<lparr>li_reader := r3\<rparr>)
                else let size = header_len + key_len + value_len + length crc_buf in
                  (Inr (entry, ValuePointer_new (lf_fid lf) size offset),
                   it\<lparr>li_reader := r3, li_record_offset := offset + size\<rparr>))"

lemma read_entry_shorter:
  assumes "read_entry env lf it = (Inr ev, it')"
  shows "length (li_reader it') < length (li_reader it)"
proof -
  obtain x r1 where r1: "header_decode_from env (li_reader it) = (x, r1)" by fastforce
  from assms header_decode_from_shorter [OF r1] show ?thesis
    by (auto simp: read_entry_def r1 Let_def read_full_def split: sum.splits if_splits)
qed

text \<open>\<open>next\<close>: the entries of one transaction.\<close>

function log_next_loop ::
  "log_env \<Rightarrow> log_file \<Rightarrow> u64 \<Rightarrow> log_iter \<Rightarrow> ((entry \<times> value_pointer) list option \<times> log_iter) outcome" where
  "log_next_loop env lf last_commit it =
     (case read_entry env lf it of
        (Inr (entry, v_ptr), it) \<Rightarrow>
          if meta_contains (Entry_meta entry) TXN then
            let txn_ts = Entry_version entry;
                last_commit = (if last_commit = 0 then txn_ts else last_commit)
            in if last_commit \<noteq> txn_ts then Inr (None, it)
               else log_next_loop env lf last_commit
                 (it\<lparr>li_entries_vptrs := li_entries_vptrs it @ [(entry, v_ptr)]\<rparr>)
          else if meta_contains (Entry_meta entry) FIN_TXN then
            if last_commit \<noteq> Entry_version entry then Inr (None, it)
            else Inr (Some (li_entries_vptrs it), it\<lparr>li_valid_end_offset := li_record_offset it\<rparr>)
          else
            if last_commit \<noteq> 0 then Inr (None, it)
            else Inr (Some (li_entries_vptrs it), it\<lparr>li_valid_end_offset := li_record_offset it\<rparr>)
      | (Inl Unexpected_eof, it) \<Rightarrow> Inr (None, it)
      | (Inl Other_io, it) \<Rightarrow> Inl (Anyhow ''read error'')
      | (Inl Io_panic, it) \<Rightarrow> Inl Panic)"
  by pat_completeness auto

termination
  by (relation "measure (\<lambda>(env, lf, ts, it). length (li_reader it))") (auto dest: read_entry_shorter [OF sym])

declare log_next_loop.simps [simp del]

definition log_next ::
  "log_env \<Rightarrow> log_file \<Rightarrow> log_iter \<Rightarrow> ((entry \<times> value_pointer) list option \<times> log_iter) outcome" where
  "log_next env lf it = log_next_loop env lf 0 (it\<lparr>li_entries_vptrs := []\<rparr>)"

section \<open>What reading gives\<close>

text \<open>An entry that a log can hold: its lengths fit the header.\<close>

definition loggable :: "entry \<Rightarrow> bool" where
  "loggable e \<longleftrightarrow> Entry_key e \<noteq> [] \<and> KeyTs_len (e_key_ts e) \<le> 2 ^ 16 \<and> length (Entry_value e) < 2 ^ 32"

text \<open>The entry as the reader returns it: key, version and value, everything else lost.\<close>

definition stripped :: "log_env \<Rightarrow> nat \<Rightarrow> entry \<Rightarrow> entry" where
  "stripped env offset e = \<lparr>e_key_ts = e_key_ts e,
     e_value_meta = \<lparr>vm_value = Entry_value e, vm_expires_at = 0, vm_user_meta = 0, vm_meta = 0\<rparr>,
     e_offset = offset, e_header_len = length (header_encode env (VlogEntryHeader_new e)), e_value_threshold = 0\<rparr>"

definition record_bytes :: "log_env \<Rightarrow> entry \<Rightarrow> bytes" where
  "record_bytes env e =
     (let buf = header_encode env (VlogEntryHeader_new e) @ KeyTs_serialize (e_key_ts e) @ Entry_value e
      in buf @ put_u32 (le_crc env buf))"

lemma encode_entry_plain:
  "lf_cipher lf = None \<Longrightarrow> encode_entry env lf e offset = Inr (record_bytes env e, length (record_bytes env e))"
  by (simp add: encode_entry_def try_encrypt_def record_bytes_def Let_def)

lemma header_lens:
  assumes "loggable e"
  shows "unat (h_key_len (VlogEntryHeader_new e)) = KeyTs_len (e_key_ts e)"
    "unat (h_value_len (VlogEntryHeader_new e)) = length (Entry_value e)"
  using assms by (simp_all add: loggable_def VlogEntryHeader_new_def unat_of_nat take_bit_eq_mod)

lemma read_entry_record:
  assumes laws: "log_laws env" and plain: "lf_cipher lf = None" and e: "loggable e"
    and r: "li_reader it = record_bytes env e @ rest"
  shows "read_entry env lf it = (Inr (stripped env (li_record_offset it) e,
      ValuePointer_new (lf_fid lf) (length (record_bytes env e)) (li_record_offset it)),
    it\<lparr>li_reader := rest, li_record_offset := li_record_offset it + length (record_bytes env e)\<rparr>)"
proof -
  let ?h = "VlogEntryHeader_new e"
  let ?k = "KeyTs_serialize (e_key_ts e)" and ?v = "Entry_value e"
  let ?buf = "header_encode env ?h @ ?k @ ?v"
  let ?crc = "put_u32 (le_crc env ?buf)"
  have k: "length ?k = KeyTs_len (e_key_ts e)" by (simp add: KeyTs_serialize_def KeyTs_len_def)
  have kfrom: "KeyTs_from ?k = e_key_ts e"
    using e by (cases "e_key_ts e") (simp add: loggable_def KeyTs_from_def KeyTs_serialize_def codec)
  have dec: "header_decode_from env (li_reader it) = (Inr (?h\<lparr>h_meta := 0, h_user_meta := 0\<rparr>), ?k @ ?v @ ?crc @ rest)"
    using header_decode_from_encode [OF laws, of ?h "?k @ ?v @ ?crc @ rest"]
    by (simp add: r record_bytes_def Let_def)
  have "?k \<noteq> []" by (simp add: KeyTs_serialize_def) (metis length_0_conv length_put(3) numeral_eq_iff zero_neq_numeral)
  then have kv: "read_full (KeyTs_len (e_key_ts e) + length ?v) (?k @ ?v @ ?crc @ rest) = (Inr (?k @ ?v), ?crc @ rest)"
    "?k @ ?v \<noteq> []" using read_full_append [of "?k @ ?v"] k by simp_all
  have c: "read_full 4 (?crc @ rest) = (Inr ?crc, rest)" by (simp add: read_full_def)
  have all: "li_reader it = ?buf @ ?crc @ rest" by (simp add: r record_bytes_def Let_def)
  have hash: "take (length (li_reader it) - length (?crc @ rest)) (li_reader it) = ?buf"
    unfolding all by simp
  have hl: "length (li_reader it) - length (?k @ ?v @ ?crc @ rest) = length (header_encode env ?h)"
    unfolding all by simp
  have len: "length (record_bytes env e) = length (header_encode env ?h) + KeyTs_len (e_key_ts e) + length ?v + 4"
    by (simp add: record_bytes_def Let_def KeyTs_len_def)
  have kl: "\<not> KeyTs_len (e_key_ts e) > 2 ^ 16" using e by (simp add: loggable_def)
  show ?thesis
    unfolding read_entry_def Let_def dec
    using kv kl header_lens [OF e] plain hash hl c
    by (simp add: try_decrypt_def Entry_new_ts_def kfrom stripped_def len KeyTs_len_def from_be_put)
qed

text \<open>
  A record of an unencrypted log file is read back. The reader positioned at the bytes
  \<open>encode_entry\<close> produced returns the key, the version and the value that were written,
  with a pointer of exactly the length \<open>encode_entry\<close> returned, and stops at the next
  record; the metadata, the user byte and the expiry come back as zero.
\<close>

theorem log_record_roundtrip:
  assumes "log_laws env" "lf_cipher lf = None" "loggable e"
    and "encode_entry env lf e off = Inr (buf, len)" "li_reader it = buf @ rest" "li_record_offset it = off"
  shows "\<exists>e' it'. read_entry env lf it = (Inr (e', ValuePointer_new (lf_fid lf) len off), it') \<and>
    e_key_ts e' = e_key_ts e \<and> Entry_value e' = Entry_value e \<and> li_reader it' = rest \<and>
    li_record_offset it' = off + len \<and>
    e_value_meta e' = (e_value_meta e)\<lparr>vm_meta := 0, vm_user_meta := 0, vm_expires_at := 0\<rparr>"
  using assms read_entry_record [OF assms(1-3), of it rest] encode_entry_plain [OF assms(2), of env e off]
  by (auto simp: stripped_def)

text \<open>The metadata of an entry that was read is empty, so every record ends its own batch.\<close>

lemma read_entry_size:
  assumes "read_entry env lf it = (Inr (e, v), it')" "header_decode_from env (li_reader it) = (Inr h, r1)"
  shows "v = ValuePointer_new (lf_fid lf)
    (length (li_reader it) - length r1 + unat (h_key_len h) + unat (h_value_len h) + 4) (li_record_offset it)"
  using assms by (auto simp: read_entry_def Let_def read_full_def split: sum.splits if_splits)

lemma read_entry_no_meta: "read_entry env lf it = (Inr (e, v), it') \<Longrightarrow> Entry_meta e = 0 \<and> li_entries_vptrs it' = li_entries_vptrs it"
  by (auto simp: read_entry_def Let_def Entry_new_ts_def split: prod.splits sum.splits if_splits)

lemma log_next_empty_batch:
  assumes "log_next env lf it = Inr (b, it')"
  shows "b \<noteq> None \<longrightarrow> b = Some []"
proof -
  have no: "\<not> meta_contains 0 TXN" "\<not> meta_contains 0 FIN_TXN"
    by (simp_all add: meta_contains_def TXN_def FIN_TXN_def)
  show ?thesis
    using assms unfolding log_next_def
    by (subst (asm) log_next_loop.simps)
      (auto split: prod.splits sum.splits io_error.splits dest!: read_entry_no_meta simp: no)
qed

lemma log_next_record:
  assumes "log_laws env" "lf_cipher lf = None" "loggable e" "li_reader it = record_bytes env e @ rest"
  shows "log_next env lf it = Inr (Some [], it\<lparr>li_reader := rest, li_entries_vptrs := [],
    li_record_offset := li_record_offset it + length (record_bytes env e),
    li_valid_end_offset := li_record_offset it + length (record_bytes env e)\<rparr>)"
proof -
  have no: "\<not> meta_contains 0 TXN" "\<not> meta_contains 0 FIN_TXN"
    by (simp_all add: meta_contains_def TXN_def FIN_TXN_def)
  show ?thesis
    unfolding log_next_def
    using read_entry_record [OF assms(1-3), of "it\<lparr>li_entries_vptrs := []\<rparr>" rest] assms(4)
    by (subst log_next_loop.simps) (simp add: no stripped_def)
qed

lemma log_next_shorter:
  assumes "log_next env lf it = Inr (Some b, it')"
  shows "length (li_reader it') < length (li_reader it)"
proof -
  have no: "\<not> meta_contains 0 TXN" "\<not> meta_contains 0 FIN_TXN"
    by (simp_all add: meta_contains_def TXN_def FIN_TXN_def)
  obtain x it1 where rd: "read_entry env lf (it\<lparr>li_entries_vptrs := []\<rparr>) = (x, it1)" by fastforce
  show ?thesis
  proof (cases x)
    case (Inr ev)
    obtain e v where ev: "ev = (e, v)" by (cases ev)
    have "Entry_meta e = 0" using read_entry_no_meta rd Inr ev by blast
    with assms rd Inr ev have "it' = it1\<lparr>li_valid_end_offset := li_record_offset it1\<rparr>"
      unfolding log_next_def by (subst (asm) log_next_loop.simps) (simp add: no)
    with read_entry_shorter [of env lf "it\<lparr>li_entries_vptrs := []\<rparr>"] rd Inr show ?thesis by simp
  next
    case (Inl e)
    with assms rd show ?thesis
      unfolding log_next_def by (subst (asm) log_next_loop.simps) (simp split: io_error.splits)
  qed
qed

text \<open>The loop of \<open>ValueLog::open\<close>: call \<open>next\<close> until it returns nothing.\<close>

function log_scan :: "log_env \<Rightarrow> log_file \<Rightarrow> log_iter \<Rightarrow> log_iter outcome" where
  "log_scan env lf it =
     (case log_next env lf it of
        Inl e \<Rightarrow> Inl e
      | Inr (Some _, it') \<Rightarrow> log_scan env lf it'
      | Inr (None, it') \<Rightarrow> Inr it')"
  by pat_completeness auto

termination
  by (relation "measure (\<lambda>(env, lf, it). length (li_reader it))") (auto dest: log_next_shorter)

declare log_scan.simps [simp del]

text \<open>The zeros of a preallocated file end a log.\<close>

lemma read_entry_zeros:
  assumes "log_laws env" "li_reader it = replicate n 0"
  shows "\<exists>it'. read_entry env lf it = (Inl Unexpected_eof, it') \<and> li_valid_end_offset it' = li_valid_end_offset it"
proof -
  have r: "le_read32 env (0 # r) = (Inr 0, Suc 0)" "le_read64 env (0 # r) = (Inr 0, Suc 0)" for r
  proof -
    have "le_read32 env (le_enc32 env 0 @ r) = (Inr 0, length (le_enc32 env 0))" "le_enc32 env 0 = [0]"
      "le_read64 env (le_enc64 env 0 @ r) = (Inr 0, length (le_enc64 env 0))" "le_enc64 env 0 = [0]"
      using assms(1) unfolding log_laws_def by blast+
    then show "le_read32 env (0 # r) = (Inr 0, Suc 0)" "le_read64 env (0 # r) = (Inr 0, Suc 0)" by simp_all
  qed
  have e: "le_read32 env [] = (Inl Unexpected_eof, 0)" "le_read64 env [] = (Inl Unexpected_eof, 0)"
    using assms(1) unfolding log_laws_def by blast+
  have "n = 0 \<or> n = Suc 0 \<or> n = Suc (Suc 0) \<or> n = Suc (Suc (Suc 0)) \<or> n = Suc (Suc (Suc (Suc 0))) \<or>
      (\<exists>k. n = Suc (Suc (Suc (Suc (Suc k)))))" by presburger
  then show ?thesis
    by (elim disjE exE) (simp_all add: assms(2) read_entry_def header_decode_from_def read_bind_def read_full_def
        read_var_def Let_def r e)
qed

lemma log_scan_records:
  assumes "log_laws env" "lf_cipher lf = None"
  shows "list_all loggable es \<Longrightarrow> li_reader it = concat (map (record_bytes env) es) @ replicate n 0 \<Longrightarrow>
    li_record_offset it = li_valid_end_offset it \<Longrightarrow>
    \<exists>it'. log_scan env lf it = Inr it' \<and>
      li_valid_end_offset it' = li_valid_end_offset it + length (concat (map (record_bytes env) es))"
proof (induction es arbitrary: it)
  case Nil
  obtain it' where "read_entry env lf (it\<lparr>li_entries_vptrs := []\<rparr>) = (Inl Unexpected_eof, it')"
    "li_valid_end_offset it' = li_valid_end_offset it"
    using read_entry_zeros [OF assms(1), of "it\<lparr>li_entries_vptrs := []\<rparr>" n lf] Nil by auto
  then have "log_next env lf it = Inr (None, it')" unfolding log_next_def by (subst log_next_loop.simps) simp
  with \<open>li_valid_end_offset it' = _\<close> show ?case by (subst log_scan.simps) simp
next
  case (Cons e es)
  let ?it = "it\<lparr>li_reader := concat (map (record_bytes env) es) @ replicate n 0, li_entries_vptrs := [],
    li_record_offset := li_record_offset it + length (record_bytes env e),
    li_valid_end_offset := li_record_offset it + length (record_bytes env e)\<rparr>"
  have "log_next env lf it = Inr (Some [], ?it)"
    using log_next_record [OF assms, of e it "concat (map (record_bytes env) es) @ replicate n 0"] Cons.prems by simp
  with Cons.IH [of ?it] Cons.prems show ?case by (subst log_scan.simps) (simp add: add.assoc)
qed

text \<open>
  C28: Scanning an unencrypted log finds its end: in a file that holds records and then the
  zeros it was allocated with, the scan that opening the value log makes returns and its
  end offset is the end of the last record.
\<close>

theorem log_scan_finds_end:
  assumes "log_laws env" "lf_cipher lf = None" "list_all loggable es"
    and "mm_raw (lf_mmap lf) = header @ concat (map (record_bytes env) es) @ replicate n 0"
    and "length header = VLOG_HEADER_SIZE"
  shows "\<exists>it it'. LogFileIter_new lf VLOG_HEADER_SIZE = Inr it \<and> log_scan env lf it = Inr it' \<and>
    li_valid_end_offset it' = length (header @ concat (map (record_bytes env) es))"
proof -
  let ?it = "\<lparr>li_record_offset = VLOG_HEADER_SIZE, li_reader = concat (map (record_bytes env) es) @ replicate n 0,
    li_entries_vptrs = [], li_valid_end_offset = VLOG_HEADER_SIZE\<rparr>"
  have "LogFileIter_new lf VLOG_HEADER_SIZE = Inr ?it"
    using assms(4,5) by (simp add: LogFileIter_new_def)
  with log_scan_records [OF assms(1-3), of ?it n] assms(5) show ?thesis by auto
qed

text \<open>
  Replaying a log never yields an entry. Whatever the file holds, \<open>LogFileIter::next\<close>
  only returns empty batches: the reader loses the transaction markers, and for a record
  without them \<open>next\<close> returns its list without adding the record to it.
\<close>

theorem log_replay_yields_nothing:
  assumes "log_next env lf it = Inr (Some batch, it')"
  shows "batch = []"
  using log_next_empty_batch [OF assms] by simp

text \<open>
  An encrypted record is not read back. The header holds the lengths of the plaintext
  while the cipher adds a tag of sixteen bytes, so the reader stops inside the
  ciphertext and takes bytes of it for the checksum: it never returns the pointer the
  record was written under.
\<close>

theorem encrypted_record_lost:
  assumes laws: "log_laws env" "crypto_laws (le_crypto env)" and c: "lf_cipher lf = Some c" "length (lf_base_nonce lf) = 12"
    and e: "loggable e" and enc: "encode_entry env lf e off = Inr (buf, len)" "len < 2 ^ 32"
    and it: "li_reader it = buf @ rest" "li_record_offset it = off"
  shows "\<nexists>e' it'. read_entry env lf it = (Inr (e', ValuePointer_new (lf_fid lf) len off), it')"
proof
  assume "\<exists>e' it'. read_entry env lf it = (Inr (e', ValuePointer_new (lf_fid lf) len off), it')"
  then obtain e' it' where rd: "read_entry env lf it = (Inr (e', ValuePointer_new (lf_fid lf) len off), it')" by blast
  let ?h = "VlogEntryHeader_new e"
  let ?kv = "KeyTs_serialize (e_key_ts e) @ Entry_value e"
  have "\<exists>n. generate_nonce lf off = Inr n \<and> length n = 12"
    using c(2) by (simp add: generate_nonce_def Let_def)
  then obtain n where n: "generate_nonce lf off = Inr n" "length n = 12" by blast
  obtain ct where ct: "aes_encrypt (le_crypto env) c n ?kv = Some ct" "length ct = length ?kv + 16"
    using laws(2) n(2) unfolding crypto_laws_def by blast
  have b: "buf = (header_encode env ?h @ ct) @ put_u32 (le_crc env (header_encode env ?h @ ct))"
    and l: "len = length (header_encode env ?h) + length ct + 4"
    using enc(1) c(1) n ct by (auto simp: encode_entry_def try_encrypt_def encrypt_with_slice_def
        nonce_from_slice_def NONCE_SIZE_def Let_def)
  have dec: "header_decode_from env (li_reader it) = (Inr (?h\<lparr>h_meta := 0, h_user_meta := 0\<rparr>),
      ct @ put_u32 (le_crc env (header_encode env ?h @ ct)) @ rest)"
    using header_decode_from_encode [OF laws(1), of ?h] by (simp add: it b)
  have "\<exists>s. ValuePointer_new (lf_fid lf) len off = ValuePointer_new (lf_fid lf) s off \<and> s + 16 = len"
    using read_entry_size [OF rd dec] header_lens [OF e] ct(2) it(2)
    by (intro exI [of _ "length (header_encode env ?h) + length ?kv + 4"])
      (simp add: it(1) b l KeyTs_len_def KeyTs_serialize_def)
  then obtain s where s: "(word_of_nat len :: u32) = word_of_nat s" "s + 16 = len"
    by (auto simp: ValuePointer_new_def)
  then have "unat (word_of_nat len :: u32) = unat (word_of_nat s :: u32)" by simp
  with s(2) enc(2) show False by (simp add: unat_of_nat take_bit_eq_mod)
qed

section \<open>An instance of the laws\<close>

definition leb32 :: "u32 \<Rightarrow> bytes" where "leb32 w = leb (unat w)"
definition unleb32 :: "bytes \<Rightarrow> (u32 \<times> nat) option" where
  "unleb32 bs = map_option (\<lambda>(n, k). (word_of_nat n, k)) (unleb bs)"
definition demo_read :: "(bytes \<Rightarrow> ('a \<times> nat) option) \<Rightarrow> bytes \<Rightarrow> (io_error + 'a) \<times> nat" where
  "demo_read f r = (case f r of Some (x, n) \<Rightarrow> (Inr x, n) | None \<Rightarrow> (Inl Unexpected_eof, length r))"

definition demo_env :: log_env where
  "demo_env = \<lparr>le_crypto = demo_crypto, le_enc32 = leb32, le_enc64 = leb_enc, le_dec32 = unleb32,
     le_dec64 = leb_dec, le_read32 = demo_read unleb32, le_read64 = demo_read leb_dec\<rparr>"

lemma leb_length: "n < 128 ^ Suc k \<Longrightarrow> length (leb n) \<le> Suc k"
proof (induction k arbitrary: n)
  case (Suc k)
  have "n div 128 < 128 ^ Suc k"
    using Suc.prems by (intro less_mult_imp_div_less) (simp add: mult.commute)
  from Suc.IH [OF this] show ?case by (subst leb.simps) simp
qed (simp add: leb.simps)

lemma demo_env_laws: "log_laws demo_env"
proof -
  have p: "(2::nat) ^ 32 \<le> 128 ^ Suc 4" "(2::nat) ^ 64 \<le> 128 ^ Suc 9" by simp_all
  have "length (leb (unat x)) \<le> 5" for x :: u32
    using leb_length [of "unat x" 4] unat_bound [of x] p(1) by simp
  moreover have "length (leb (unat x)) \<le> 10" for x :: u64
    using leb_length [of "unat x" 9] unat_bound [of x] p(2) by simp
  ultimately show ?thesis
    by (simp add: log_laws_def demo_env_def leb32_def unleb32_def leb_enc_def leb_dec_def demo_read_def unleb_leb
        leb.simps [of 0])
qed

definition demo_log :: log_file where
  "demo_log = \<lparr>lf_fid = 1, lf_cipher = None, lf_mmap = fst (MmapFile_open 8 [] 64), lf_size = 64, lf_base_nonce = replicate 12 0\<rparr>"

definition demo_entry :: entry where "demo_entry = Entry_new [97] [1, 2]"

lemma demo_loggable: "loggable demo_entry"
  by (simp add: loggable_def demo_entry_def Entry_new_def KeyTs_len_def)

theorem log_record_roundtrip_witness:
  "\<exists>e' it'. read_entry demo_env demo_log \<lparr>li_record_offset = 20, li_reader = record_bytes demo_env demo_entry @ [9],
      li_entries_vptrs = [], li_valid_end_offset = 20\<rparr>
    = (Inr (e', ValuePointer_new 1 (length (record_bytes demo_env demo_entry)) 20), it') \<and>
    e_key_ts e' = KeyTs [97] 0 \<and> Entry_value e' = [1, 2] \<and> li_reader it' = [9]"
proof -
  have p: "lf_cipher demo_log = None" by (simp add: demo_log_def)
  let ?it = "\<lparr>li_record_offset = 20, li_reader = record_bytes demo_env demo_entry @ [9],
      li_entries_vptrs = [], li_valid_end_offset = 20\<rparr>"
  have e: "e_key_ts demo_entry = KeyTs [97] 0" "Entry_value demo_entry = [1, 2]" "lf_fid demo_log = 1"
    by (simp_all add: demo_entry_def Entry_new_def demo_log_def)
  from log_record_roundtrip [OF demo_env_laws p demo_loggable encode_entry_plain [OF p], of ?it "[9]" 20]
  show ?thesis unfolding e by auto
qed

theorem encrypted_record_lost_witness:
  "\<exists>buf len. encode_entry demo_env (demo_log\<lparr>lf_cipher := Some (Aes128 demo_master 1)\<rparr>) demo_entry 20 = Inr (buf, len) \<and>
    (\<nexists>e' it'. read_entry demo_env (demo_log\<lparr>lf_cipher := Some (Aes128 demo_master 1)\<rparr>)
       \<lparr>li_record_offset = 20, li_reader = buf, li_entries_vptrs = [], li_valid_end_offset = 20\<rparr>
       = (Inr (e', ValuePointer_new 1 len 20), it'))"
proof -
  let ?lf = "demo_log\<lparr>lf_cipher := Some (Aes128 demo_master 1)\<rparr>"
  let ?h = "header_encode demo_env (VlogEntryHeader_new demo_entry)"
  obtain buf len where enc: "encode_entry demo_env ?lf demo_entry 20 = Inr (buf, len)" "len \<le> length ?h + 100"
    by (simp add: encode_entry_def try_encrypt_def generate_nonce_def encrypt_with_slice_def nonce_from_slice_def
        NONCE_SIZE_def demo_log_def demo_env_def demo_crypto_def Let_def demo_entry_def Entry_new_def KeyTs_serialize_def)
  have "length ?h \<le> 22" using length_header_encode [OF demo_env_laws] by (simp add: MAX_HEADER_SIZE_def)
  with enc have "len < 2 ^ 32" by simp
  from encrypted_record_lost [OF demo_env_laws _ _ _ demo_loggable enc(1) this,
      of "Aes128 demo_master 1" "\<lparr>li_record_offset = 20, li_reader = buf, li_entries_vptrs = [], li_valid_end_offset = 20\<rparr>" "[]"]
  enc(1) show ?thesis using demo_laws by (auto simp: demo_log_def demo_env_def)
qed

theorem log_replay_yields_nothing_witness:
  "\<exists>it'. log_next demo_env demo_log \<lparr>li_record_offset = 20, li_reader = record_bytes demo_env demo_entry,
      li_entries_vptrs = [], li_valid_end_offset = 20\<rparr> = Inr (Some [], it')"
proof -
  let ?it = "\<lparr>li_record_offset = 20, li_reader = record_bytes demo_env demo_entry,
      li_entries_vptrs = [], li_valid_end_offset = 20\<rparr>"
  have p: "lf_cipher demo_log = None" by (simp add: demo_log_def)
  obtain b it' where n: "log_next demo_env demo_log ?it = Inr (Some b, it')"
    using log_next_record [OF demo_env_laws p demo_loggable, of ?it "[]"] by auto
  from log_replay_yields_nothing [OF n] n show ?thesis by blast
qed

theorem log_scan_finds_end_witness:
  "\<exists>it it'. LogFileIter_new (demo_log\<lparr>lf_mmap := (lf_mmap demo_log)\<lparr>mm_raw :=
      replicate 20 7 @ record_bytes demo_env demo_entry @ replicate 9 0\<rparr>\<rparr>) 20 = Inr it \<and>
    log_scan demo_env (demo_log\<lparr>lf_mmap := (lf_mmap demo_log)\<lparr>mm_raw :=
      replicate 20 7 @ record_bytes demo_env demo_entry @ replicate 9 0\<rparr>\<rparr>) it = Inr it' \<and>
    li_valid_end_offset it' = 20 + length (record_bytes demo_env demo_entry)"
proof -
  let ?lf = "demo_log\<lparr>lf_mmap := (lf_mmap demo_log)\<lparr>mm_raw :=
      replicate 20 7 @ record_bytes demo_env demo_entry @ replicate 9 0\<rparr>\<rparr>"
  have "lf_cipher ?lf = None" by (simp add: demo_log_def)
  from log_scan_finds_end [OF demo_env_laws this, of "[demo_entry]" "replicate 20 7" 9] demo_loggable
  show ?thesis by (simp add: VLOG_HEADER_SIZE_def)
qed

end
