(* ===== verification/MemTable.thy ===== *)
theory MemTable
  imports SkipList LogFile
begin

text \<open>
  Memtables (\<open>src/src/memtable/mod.rs\<close>, \<open>write.rs\<close>, \<open>read.rs\<close>): a skip list of encoded
  versioned keys and values with a write-ahead log. The abstract content of a memtable
  is a map from versioned keys to values; a read asks for the newest version of a key
  that is not above a timestamp. \<open>coins\<close> gives the coin flips drawn when the node of a key
  is created.
\<close>

section \<open>The code\<close>

record memtable =
  mt_skip_list :: skip_list
  mt_wal :: log_file
  mt_max_version :: u64
  mt_memtable_size :: nat
  mt_read_only :: bool

record memtable_config =
  mc_read_only :: bool
  mc_memtable_size :: nat
  mc_arena_size :: nat
  mc_num_memtables :: nat
  mc_next_fid :: u32

definition MemTableConfig_default :: memtable_config where
  "MemTableConfig_default = \<lparr>mc_read_only = False, mc_memtable_size = 64 * 2 ^ 20, mc_arena_size = 64 * 2 ^ 20,
     mc_num_memtables = 5, mc_next_fid = 0\<rparr>"

definition write_entry :: "log_env \<Rightarrow> entry \<Rightarrow> log_file \<Rightarrow> log_file outcome" where
  "write_entry env e lf =
     (let offset = write_offset (lf_mmap lf) in
      and_then (encode_entry env lf e offset) (\<lambda>(buf, size).
        if size > length buf then Inl Panic
        else and_then (write_slice offset (take size buf) (lf_mmap lf)) (\<lambda>mm. Inr (lf\<lparr>lf_mmap := mm\<rparr>))))"

text \<open>
  Pushing one key into the skip list; the result is \<open>None\<close> only if a search of the list
  does not end.
\<close>

definition mt_insert :: "log_env \<Rightarrow> (bytes \<Rightarrow> bool list) \<Rightarrow> entry \<Rightarrow> memtable \<Rightarrow> memtable outcome option" where
  "mt_insert env coins e mt =
     (let k = KeyTs_serialize (e_key_ts e) in
      map_option (\<lambda>r. and_then r (\<lambda>sk.
        Inr (mt\<lparr>mt_skip_list := sk, mt_max_version := max (mt_max_version mt) (Entry_version e)\<rparr>)))
      (skl_push KeyTsBorrow_cmp (coins k) k (ValueMeta_serialize (le_enc64 env) (e_value_meta e)) (mt_skip_list mt)))"

definition mt_push :: "log_env \<Rightarrow> (bytes \<Rightarrow> bool list) \<Rightarrow> entry \<Rightarrow> memtable \<Rightarrow> memtable outcome option" where
  "mt_push env coins e mt =
     (case write_entry env e (mt_wal mt) of
        Inl f \<Rightarrow> Some (Inl f)
      | Inr wal \<Rightarrow>
        let mt = mt\<lparr>mt_wal := wal\<rparr> in
        if meta_contains (Entry_meta e) FIN_TXN then Some (Inr mt)
        else mt_insert env coins e mt)"

definition mt_get :: "log_env \<Rightarrow> memtable \<Rightarrow> key_ts \<Rightarrow> bool \<Rightarrow> (u64 \<times> value_meta) option outcome option" where
  "mt_get env mt key_ts allow_near =
     map_option (\<lambda>r. and_then r (\<lambda>kv. Inr (case kv of None \<Rightarrow> None | Some (k, v) \<Rightarrow>
        if KeyTsBorrow_key k = kt_key key_ts then
          (case ValueMeta_deserialize (le_enc64 env) (le_dec64 env) v of
             Some value_meta \<Rightarrow> Some (KeyTsBorrow_txn_ts k, value_meta)
           | None \<Rightarrow> None)
        else None)))
     (get_key_value KeyTsBorrow_cmp (KeyTs_serialize key_ts) allow_near (mt_skip_list mt))"

definition is_full :: "memtable \<Rightarrow> bool" where
  "is_full mt = (if mem_size (mt_skip_list mt) \<ge> mt_memtable_size mt then True
     else write_offset (lf_mmap (mt_wal mt)) \<ge> mt_memtable_size mt)"

text \<open>\<open>reload\<close>: push what the log yields, then cut the log to its valid part.\<close>

fun mt_insert_all :: "log_env \<Rightarrow> (bytes \<Rightarrow> bool list) \<Rightarrow> (entry \<times> value_pointer) list \<Rightarrow> memtable \<Rightarrow> memtable outcome option" where
  "mt_insert_all env coins [] mt = Some (Inr mt)"
| "mt_insert_all env coins ((e, _) # es) mt =
     (case mt_insert env coins e mt of
        None \<Rightarrow> None
      | Some (Inl f) \<Rightarrow> Some (Inl f)
      | Some (Inr mt) \<Rightarrow> mt_insert_all env coins es mt)"

function reload_loop ::
  "log_env \<Rightarrow> (bytes \<Rightarrow> bool list) \<Rightarrow> log_file \<Rightarrow> log_iter \<Rightarrow> memtable \<Rightarrow> (memtable \<times> log_iter) outcome option" where
  "reload_loop env coins lf it mt =
     (case log_next env lf it of
        Inl f \<Rightarrow> Some (Inl f)
      | Inr (None, it') \<Rightarrow> Some (Inr (mt, it'))
      | Inr (Some batch, it') \<Rightarrow>
        (case mt_insert_all env coins batch mt of
           None \<Rightarrow> None
         | Some (Inl f) \<Rightarrow> Some (Inl f)
         | Some (Inr mt) \<Rightarrow> reload_loop env coins lf it' mt))"
  by pat_completeness auto

termination
  by (relation "measure (\<lambda>(env, coins, lf, it, mt). length (li_reader it))") (auto dest: log_next_shorter)

declare reload_loop.simps [simp del]

definition reload :: "log_env \<Rightarrow> (bytes \<Rightarrow> bool list) \<Rightarrow> memtable \<Rightarrow> memtable outcome option" where
  "reload env coins mt =
     (case LogFileIter_new (mt_wal mt) VLOG_HEADER_SIZE of
        Inl f \<Rightarrow> Some (Inl f)
      | Inr it \<Rightarrow>
        map_option (\<lambda>r. and_then r (\<lambda>(mt, it).
          let end_offset = li_valid_end_offset it in
          if end_offset < lf_size (mt_wal mt) \<and> mt_read_only mt
          then Inl (Bail (TruncateNeeded end_offset (lf_size (mt_wal mt))))
          else Inr (mt\<lparr>mt_wal := lf_truncate end_offset (mt_wal mt)\<rparr>)))
        (reload_loop env coins (mt_wal mt) it mt))"

definition memtable_open ::
  "log_env \<Rightarrow> (bytes \<Rightarrow> bool list) \<Rightarrow> nat \<Rightarrow> draws \<Rightarrow> memtable_config \<Rightarrow> key_registry \<Rightarrow> u32 \<Rightarrow> bytes \<Rightarrow>
     ((memtable \<times> bool) \<times> key_registry) outcome option" where
  "memtable_open env coins page d mc kr fid file =
     (case SkipList_new page (mc_arena_size mc) of
        Inl f \<Rightarrow> Some (Inl f)
      | Inr sk \<Rightarrow>
     (case LogFile_open env page d fid file (2 * mc_memtable_size mc) kr of
        Inl f \<Rightarrow> Some (Inl f)
      | Inr ((lf, is_new), kr) \<Rightarrow>
        let mt = \<lparr>mt_skip_list = sk, mt_wal = lf, mt_max_version = 0, mt_memtable_size = mc_memtable_size mc,
                  mt_read_only = mc_read_only mc\<rparr> in
        if is_new then Some (Inr ((mt, True), kr))
        else map_option (\<lambda>r. and_then r (\<lambda>mt. Inr ((mt, False), kr))) (reload env coins mt)))"

definition memtable_new ::
  "log_env \<Rightarrow> (bytes \<Rightarrow> bool list) \<Rightarrow> nat \<Rightarrow> (u32 \<Rightarrow> draws) \<Rightarrow> memtable_config \<Rightarrow> key_registry \<Rightarrow> bytes \<Rightarrow>
     (memtable \<times> memtable_config \<times> key_registry) outcome option" where
  "memtable_new env coins page draw mc kr file =
     (let fid = mc_next_fid mc; mc = mc\<lparr>mc_next_fid := fid + 1\<rparr> in
      map_option (\<lambda>r. and_then r (\<lambda>((mt, is_new), kr).
        if \<not> is_new then Inl (Anyhow ''File already exists'') else Inr (mt, mc, kr)))
      (memtable_open env coins page (draw fid) mc kr fid file))"

text \<open>\<open>open_many\<close>; \<open>disk\<close> lists the memtable files by ascending number.\<close>

fun open_memtables ::
  "log_env \<Rightarrow> (bytes \<Rightarrow> bool list) \<Rightarrow> nat \<Rightarrow> (u32 \<Rightarrow> draws) \<Rightarrow> memtable_config \<Rightarrow> key_registry \<Rightarrow> (u32 \<times> bytes) list \<Rightarrow>
     (memtable list \<times> key_registry) outcome option" where
  "open_memtables env coins page draw mc kr [] = Some (Inr ([], kr))"
| "open_memtables env coins page draw mc kr ((fid, file) # disk) =
     (case memtable_open env coins page (draw fid) mc kr fid file of
        None \<Rightarrow> None
      | Some (Inl f) \<Rightarrow> Some (Inl f)
      | Some (Inr ((mt, _), kr)) \<Rightarrow>
        (case skl_is_empty (mt_skip_list mt) of
           None \<Rightarrow> None
         | Some is_empty \<Rightarrow>
           map_option (\<lambda>r. and_then r (\<lambda>(mts, kr). Inr (if is_empty then mts else mt # mts, kr)))
             (open_memtables env coins page draw mc kr disk)))"

definition open_many ::
  "log_env \<Rightarrow> (bytes \<Rightarrow> bool list) \<Rightarrow> nat \<Rightarrow> (u32 \<Rightarrow> draws) \<Rightarrow> memtable_config \<Rightarrow> key_registry \<Rightarrow> (u32 \<times> bytes) list \<Rightarrow>
     (memtable list \<times> memtable_config \<times> key_registry) outcome option" where
  "open_many env coins page draw mc kr disk =
     map_option (\<lambda>r. and_then r (\<lambda>(mts, kr).
       let next_fid = (if disk = [] then mc_next_fid mc else fst (last disk))
       in Inr (mts, mc\<lparr>mc_next_fid := next_fid + 1\<rparr>, kr)))
     (open_memtables env coins page draw mc kr disk)"

section \<open>A memtable is a versioned map\<close>

type_synonym versions = "key_ts \<rightharpoonup> value_meta"

text \<open>\<open>newest M k ts r\<close>: \<open>r\<close> is the newest version of \<open>k\<close> in \<open>M\<close> that is not above \<open>ts\<close>.\<close>

definition newest :: "versions \<Rightarrow> bytes \<Rightarrow> u64 \<Rightarrow> (u64 \<times> value_meta) option \<Rightarrow> bool" where
  "newest M k ts r \<longleftrightarrow> (case r of
     None \<Rightarrow> (\<forall>v \<le> ts. M (KeyTs k v) = None)
   | Some (v, vm) \<Rightarrow> v \<le> ts \<and> M (KeyTs k v) = Some vm \<and> (\<forall>w \<le> ts. M (KeyTs k w) \<noteq> None \<longrightarrow> w \<le> v))"

definition enc_kv :: "var_enc \<Rightarrow> key_ts \<times> value_meta \<Rightarrow> bytes \<times> bytes" where
  "enc_kv enc kv = (KeyTs_serialize (fst kv), ValueMeta_serialize enc (snd kv))"

definition mem_abs :: "var_enc \<Rightarrow> skip_list \<Rightarrow> versions \<Rightarrow> bool" where
  "mem_abs enc sk M \<longleftrightarrow> (\<exists>ks. mem_inv sk (map (enc_kv enc) ks) \<and> M = map_of ks \<and> (\<forall>kv \<in> set ks. kt_key (fst kv) \<noteq> []))"

lemma compare_less [simp]: "compare a b = Less \<longleftrightarrow> a < b"
  by (simp add: compare_def)

lemma mem_inv_sorted:
  assumes "mem_inv sk (map (enc_kv enc) ks)" "\<forall>kv \<in> set ks. kt_key (fst kv) \<noteq> []"
  shows "sorted_wrt (<) (map fst ks)"
proof -
  have "sorted_wrt (\<lambda>a b. KeyTsBorrow_cmp (fst a) (fst b) = Less) (map (enc_kv enc) ks)"
  proof -
    obtain L where L: "skl_repr KeyTsBorrow_cmp encoded_key sk L"
      and eq: "map (enc_kv enc) ks = map (\<lambda>p. (nkey (sk_arena sk) p, nval (sk_arena sk) p)) L"
      using assms(1) by (auto simp: skl_inv_def)
    show ?thesis unfolding eq using L by (simp add: sorted_wrt_map skl_repr_def)
  qed
  then have "sorted_wrt (\<lambda>a b. KeyTsBorrow_cmp (KeyTs_serialize (fst a)) (KeyTs_serialize (fst b)) = Less) ks"
    by (simp add: sorted_wrt_map enc_kv_def)
  then have "sorted_wrt (\<lambda>a b. fst a < fst b) ks"
    using assms(2) by (elim sorted_wrt_mono_rel [rotated]) (metis KeyTsBorrow_cmp_serialize compare_less)
  then show ?thesis by (simp add: sorted_wrt_map)
qed

lemma map_of_put:
  fixes k :: "'k :: linorder"
  assumes "sorted_wrt (<) (map fst ks)"
  shows "map_of (filter (\<lambda>e. fst e < k) ks @ (k, v) # filter (\<lambda>e. k < fst e) ks) = (map_of ks)(k \<mapsto> v)"
proof -
  have lt: "map_of (filter (\<lambda>e. fst e < k) ks) x = (if x < k then map_of ks x else None)" for x
    by (induction ks) auto
  have gt: "map_of (filter (\<lambda>e. k < fst e) ks) x = (if k < x then map_of ks x else None)" for x
    by (induction ks) auto
  show ?thesis by (rule ext) (auto simp: map_add_def lt gt split: option.splits)
qed

lemma put_sorted_enc:
  assumes "\<forall>kv \<in> set ks. kt_key (fst kv) \<noteq> []" "kt_key k \<noteq> []"
  shows "put_sorted KeyTsBorrow_cmp (KeyTs_serialize k) (ValueMeta_serialize enc vm) (map (enc_kv enc) ks)
    = map (enc_kv enc) (filter (\<lambda>e. fst e < k) ks @ (k, vm) # filter (\<lambda>e. k < fst e) ks)"
proof -
  have "filter (\<lambda>e. KeyTsBorrow_cmp (fst e) (KeyTs_serialize k) = Less) (map (enc_kv enc) ks)
      = map (enc_kv enc) (filter (\<lambda>e. fst e < k) ks)"
    "filter (\<lambda>e. KeyTsBorrow_cmp (KeyTs_serialize k) (fst e) = Less) (map (enc_kv enc) ks)
      = map (enc_kv enc) (filter (\<lambda>e. k < fst e) ks)"
    using assms by (simp_all add: filter_map o_def enc_kv_def KeyTsBorrow_cmp_serialize cong: filter_cong)
  then show ?thesis by (simp add: put_sorted_def enc_kv_def)
qed

text \<open>What a push needs: a key that fits its length field, and room in the arena.\<close>

definition fits :: "log_env \<Rightarrow> entry \<Rightarrow> skip_list \<Rightarrow> bool" where
  "fits env e sk \<longleftrightarrow> Entry_key e \<noteq> [] \<and> KeyTs_len (e_key_ts e) < 2 ^ 16 \<and>
     ar_ptr_offset (sk_arena sk) + SKL_MAX_NODE_SIZE + rounded (KeyTs_len (e_key_ts e)) +
       rounded (ValueMeta_serialized_size (le_enc64 env) (e_value_meta e)) \<le> ar_limit (sk_arena sk)"

lemma mt_insert_abs:
  assumes "mem_abs (le_enc64 env) (mt_skip_list mt) M" "fits env e (mt_skip_list mt)"
  shows "\<exists>mt'. mt_insert env coins e mt = Some (Inr mt') \<and> mem_abs (le_enc64 env) (mt_skip_list mt') (M(e_key_ts e \<mapsto> e_value_meta e)) \<and>
    mt_max_version mt' = max (mt_max_version mt) (Entry_version e) \<and> mt_wal mt' = mt_wal mt"
proof -
  let ?k = "KeyTs_serialize (e_key_ts e)" and ?v = "ValueMeta_serialize (le_enc64 env) (e_value_meta e)"
  obtain ks where ks: "mem_inv (mt_skip_list mt) (map (enc_kv (le_enc64 env)) ks)" "M = map_of ks"
    "\<forall>kv \<in> set ks. kt_key (fst kv) \<noteq> []" using assms(1) by (auto simp: mem_abs_def)
  have k: "encoded_key ?k" "length ?k < 2 ^ 16" "kt_key (e_key_ts e) \<noteq> []"
    using assms(2) by (simp_all add: fits_def encoded_key_def KeyTs_len_def)
  have room: "ar_ptr_offset (sk_arena (mt_skip_list mt)) + SKL_MAX_NODE_SIZE + rounded (length ?k) + rounded (length ?v)
      \<le> ar_limit (sk_arena (mt_skip_list mt))"
    using assms(2) by (simp add: fits_def KeyTs_len_def ValueMeta_serialized_size_length)
  obtain sk where sk: "skl_push KeyTsBorrow_cmp (coins ?k) ?k ?v (mt_skip_list mt) = Some (Inr sk)"
    "mem_inv sk (put_sorted KeyTsBorrow_cmp ?k ?v (map (enc_kv (le_enc64 env)) ks))"
    using mem_order.push_inv [OF ks(1) k(1,2) room] by blast
  let ?ks = "filter (\<lambda>x. fst x < e_key_ts e) ks @ (e_key_ts e, e_value_meta e) # filter (\<lambda>x. e_key_ts e < fst x) ks"
  have "mem_abs (le_enc64 env) sk (M(e_key_ts e \<mapsto> e_value_meta e))"
    unfolding mem_abs_def
  proof (intro exI [of _ ?ks] conjI)
    show "mem_inv sk (map (enc_kv (le_enc64 env)) ?ks)" using sk(2) put_sorted_enc [OF ks(3) k(3)] by simp
    show "M(e_key_ts e \<mapsto> e_value_meta e) = map_of ?ks"
      using map_of_put [OF mem_inv_sorted [OF ks(1,3)]] ks(2) by simp
  qed (use ks(3) k(3) in auto)
  with sk(1) show ?thesis by (simp add: mt_insert_def Let_def)
qed

lemma key_ts_le_iff: "\<not> KeyTs k w < KeyTs k ts \<longleftrightarrow> w \<le> ts"
  by (auto simp: less_key_ts_iff)

lemma newest_first:
  assumes srt: "sorted_wrt (<) (map fst ks)"
  shows "newest (map_of ks) k ts (case filter (\<lambda>e. \<not> fst e < KeyTs k ts) ks of
      [] \<Rightarrow> None | (k1, vm) # _ \<Rightarrow> if kt_key k1 = k then Some (kt_txn_ts k1, vm) else None)"
proof -
  let ?f = "filter (\<lambda>e. \<not> fst e < KeyTs k ts) ks"
  have mem: "(KeyTs k w, x) \<in> set ?f" if "w \<le> ts" "map_of ks (KeyTs k w) = Some x" for w x
    using map_of_SomeD [OF that(2)] that(1) by (simp add: key_ts_le_iff)
  show ?thesis
  proof (cases ?f)
    case Nil
    with mem show ?thesis by (fastforce simp: newest_def)
  next
    case (Cons e rest)
    obtain k1 vm where e: "e = (k1, vm)" by (cases e)
    have "sorted_wrt (<) (map fst ?f)" using srt by (simp add: sorted_wrt_map sorted_wrt_filter)
    then have least: "k1 \<le> fst x" if "x \<in> set ?f" for x using that Cons e by auto
    have k1: "(k1, vm) \<in> set ks" "\<not> k1 < KeyTs k ts"
      using Cons e by (metis filter_eq_Cons_iff fst_conv in_set_conv_decomp)+
    have "distinct (map fst ks)" using srt strict_sorted_iff by blast
    then have vm: "map_of ks k1 = Some vm" using k1(1) by simp
    show ?thesis
    proof (cases "kt_key k1 = k")
      case True
      then have "k1 = KeyTs k (kt_txn_ts k1)" by (cases k1) simp
      with k1(2) have "kt_txn_ts k1 \<le> ts" by (metis key_ts_le_iff)
      moreover have "w \<le> kt_txn_ts k1" if "w \<le> ts" "map_of ks (KeyTs k w) \<noteq> None" for w
        using least mem that \<open>k1 = _\<close> by (metis fst_conv key_ts_le_iff not_le option.exhaust)
      ultimately show ?thesis using Cons e True vm \<open>k1 = _\<close> by (simp add: newest_def)
    next
      case False
      have "map_of ks (KeyTs k w) = None" if "w \<le> ts" for w
      proof (rule ccontr)
        assume "map_of ks (KeyTs k w) \<noteq> None"
        then obtain x where "map_of ks (KeyTs k w) = Some x" by blast
        from mem [OF that this] least have "k1 \<le> KeyTs k w" by fastforce
        with False k1(2) show False by (cases k1) (auto simp: less_key_ts_iff le_less)
      qed
      with Cons e False show ?thesis by (simp add: newest_def)
    qed
  qed
qed

lemma mt_get_abs:
  assumes "mem_abs (le_enc64 env) (mt_skip_list mt) M" "varint_laws (le_enc64 env) (le_dec64 env)" "k \<noteq> []"
  shows "\<exists>r. mt_get env mt (KeyTs k ts) True = Some (Inr r) \<and> newest M k ts r"
proof -
  obtain ks where ks: "mem_inv (mt_skip_list mt) (map (enc_kv (le_enc64 env)) ks)" "M = map_of ks"
    "\<forall>kv \<in> set ks. kt_key (fst kv) \<noteq> []" using assms(1) by (auto simp: mem_abs_def)
  let ?k = "KeyTs_serialize (KeyTs k ts)"
  have f: "filter (\<lambda>e. KeyTsBorrow_cmp (fst e) ?k \<noteq> Less) (map (enc_kv (le_enc64 env)) ks)
      = map (enc_kv (le_enc64 env)) (filter (\<lambda>e. \<not> fst e < KeyTs k ts) ks)"
    using ks(3) assms(3) by (simp_all add: filter_map o_def enc_kv_def KeyTsBorrow_cmp_serialize cong: filter_cong)
  have g: "get_key_value KeyTsBorrow_cmp ?k True (mt_skip_list mt) = Some (Inr
      (case map (enc_kv (le_enc64 env)) (filter (\<lambda>e. \<not> fst e < KeyTs k ts) ks) of [] \<Rightarrow> None | e # _ \<Rightarrow> Some e))"
    using mem_order.get_key_value_inv [OF ks(1), of ?k True] assms(3) f by (simp add: encoded_key_def split: list.split)
  have "mt_get env mt (KeyTs k ts) True = Some (Inr (case filter (\<lambda>e. \<not> fst e < KeyTs k ts) ks of
      [] \<Rightarrow> None | (k1, vm) # _ \<Rightarrow> if kt_key k1 = k then Some (kt_txn_ts k1, vm) else None))"
  proof (cases "filter (\<lambda>e. \<not> fst e < KeyTs k ts) ks")
    case Nil
    then show ?thesis using g by (simp add: mt_get_def)
  next
    case (Cons e rest)
    obtain k1 vm where "e = (k1, vm)" by (cases e)
    with g Cons show ?thesis
      using ValueMeta_deserialize_serialize [OF assms(2), of vm]
      by (simp add: mt_get_def enc_kv_def)
  qed
  with newest_first [OF mem_inv_sorted [OF ks(1,3)], of k ts] ks(2) show ?thesis by auto
qed

section \<open>Properties\<close>

lemma write_entry_ok:
  assumes "mm_ok (lf_mmap lf)" "encode_entry env lf e (write_offset (lf_mmap lf)) = Inr (buf, len)"
  obtains lf' where "write_entry env e lf = Inr lf'" "mm_ok (lf_mmap lf')"
    "mm_view (lf_mmap lf') = mm_view (lf_mmap lf) @ buf" "lf_cipher lf' = lf_cipher lf" "lf_base_nonce lf' = lf_base_nonce lf"
proof -
  have len: "len = length buf" using assms(2) by (auto simp: encode_entry_def and_then_Inr Let_def)
  obtain mm where mm: "mm_write buf (lf_mmap lf) = Inr mm" "mm_ok mm" "mm_view mm = mm_view (lf_mmap lf) @ buf"
    using mm_write_ok [OF assms(1)] by metis
  have "write_entry env e lf = Inr (lf\<lparr>lf_mmap := mm\<rparr>)"
    using assms(2) len mm(1) write_slice_end [of "lf_mmap lf" buf] by (simp add: write_entry_def Let_def)
  with mm show ?thesis by (intro that [of "lf\<lparr>lf_mmap := mm\<rparr>"]) simp_all
qed

lemma mt_push_abs:
  assumes abs: "mem_abs (le_enc64 env) (mt_skip_list mt) M"
    and wal: "mm_ok (lf_mmap (mt_wal mt))" "encode_entry env (mt_wal mt) e (write_offset (lf_mmap (mt_wal mt))) = Inr (buf, len)"
    and fits: "\<not> meta_contains (Entry_meta e) FIN_TXN \<longrightarrow> fits env e (mt_skip_list mt)"
  shows "\<exists>mt'. mt_push env coins e mt = Some (Inr mt') \<and>
    mem_abs (le_enc64 env) (mt_skip_list mt')
      (if meta_contains (Entry_meta e) FIN_TXN then M else M(e_key_ts e \<mapsto> e_value_meta e)) \<and>
    mm_ok (lf_mmap (mt_wal mt')) \<and>
    mm_view (lf_mmap (mt_wal mt')) = mm_view (lf_mmap (mt_wal mt)) @ buf"
proof -
  obtain lf' where lf': "write_entry env e (mt_wal mt) = Inr lf'" "mm_ok (lf_mmap lf')"
    "mm_view (lf_mmap lf') = mm_view (lf_mmap (mt_wal mt)) @ buf" using write_entry_ok [OF wal] by metis
  let ?mt = "mt\<lparr>mt_wal := lf'\<rparr>"
  have abs': "mem_abs (le_enc64 env) (mt_skip_list ?mt) M" using abs by simp
  show ?thesis
  proof (cases "meta_contains (Entry_meta e) FIN_TXN")
    case True
    with lf' abs show ?thesis by (simp add: mt_push_def)
  next
    case False
    with fits have "fits env e (mt_skip_list ?mt)" by simp
    from mt_insert_abs [OF abs' this, of coins] False lf' show ?thesis by (auto simp: mt_push_def)
  qed
qed

text \<open>
  C7: Pushing an entry into a memtable logs it and puts it into the table. As long as the
  arena has room the push ends and does not panic; the table then maps the entry's
  versioned key to its value and is otherwise unchanged, the log holds the entry's
  record behind what it held, and an end-of-transaction marker only goes to the log.
\<close>

theorem memtable_push_refines:
  assumes "mem_abs (le_enc64 env) (mt_skip_list mt) M" "mm_ok (lf_mmap (mt_wal mt))"
    and "encode_entry env (mt_wal mt) e (write_offset (lf_mmap (mt_wal mt))) = Inr (buf, len)"
    and "\<not> meta_contains (Entry_meta e) FIN_TXN \<longrightarrow> fits env e (mt_skip_list mt)"
  shows "\<exists>mt'. mt_push env coins e mt = Some (Inr mt') \<and>
    mem_abs (le_enc64 env) (mt_skip_list mt')
      (if meta_contains (Entry_meta e) FIN_TXN then M else M(e_key_ts e \<mapsto> e_value_meta e)) \<and>
    mm_view (lf_mmap (mt_wal mt')) = mm_view (lf_mmap (mt_wal mt)) @ buf"
  using mt_push_abs [OF assms] by blast

text \<open>
  C23: Reading a memtable at a timestamp finds the newest version of the key that is not
  above it, and nothing only when the table has no such version.
\<close>

theorem memtable_get_newest:
  assumes "mem_abs (le_enc64 env) (mt_skip_list mt) M" "varint_laws (le_enc64 env) (le_dec64 env)" "k \<noteq> []"
  shows "\<exists>r. mt_get env mt (KeyTs k ts) True = Some (Inr r) \<and> newest M k ts r"
  by (rule mt_get_abs [OF assms])

lemma mt_insert_all_nil: "mt_insert_all env coins [] mt = Some (Inr mt)" by simp

lemma reload_loop_nothing:
  "reload_loop env coins lf it mt = Some (Inr (mt', it')) \<Longrightarrow> mt' = mt"
proof (induction env coins lf it mt rule: reload_loop.induct)
  case (1 env coins lf it mt)
  show ?case
  proof (cases "log_next env lf it")
    case (Inl f)
    with "1.prems" show ?thesis by (subst (asm) reload_loop.simps) simp
  next
    case (Inr x)
    obtain b it1 where x: "x = (b, it1)" by (cases x)
    show ?thesis
    proof (cases b)
      case None
      with "1.prems" Inr x show ?thesis by (subst (asm) reload_loop.simps) simp
    next
      case (Some batch)
      then have "batch = []" using log_next_empty_batch [of env lf it] Inr x by auto
      with Some Inr x "1.prems" have "reload_loop env coins lf it1 mt = Some (Inr (mt', it'))"
        by (subst (asm) reload_loop.simps) simp
      with "1.IH" [of "(Some batch, it1)"] Inr x Some \<open>batch = []\<close> show ?thesis by simp
    qed
  qed
qed

text \<open>
  Reopening a memtable loses its content. Whatever the write-ahead log holds, a reload
  that succeeds leaves the skip list and the largest version as they were before it,
  and a freshly opened table is empty before the reload.
\<close>

theorem reload_restores_nothing:
  assumes "reload env coins mt = Some (Inr mt')"
  shows "mt_skip_list mt' = mt_skip_list mt \<and> mt_max_version mt' = mt_max_version mt"
proof -
  obtain it where it: "LogFileIter_new (mt_wal mt) VLOG_HEADER_SIZE = Inr it"
    using assms by (auto simp: reload_def split: sum.splits)
  obtain mt1 it1 where l: "reload_loop env coins (mt_wal mt) it mt = Some (Inr (mt1, it1))"
    and mt': "\<exists>w. mt' = mt1\<lparr>mt_wal := w\<rparr>"
    using assms it by (auto simp: reload_def and_then_Inr Let_def split: if_splits)
  from reload_loop_nothing [OF l] mt' show ?thesis by auto
qed

section \<open>An instance\<close>

definition demo_mt :: memtable where
  "demo_mt = \<lparr>mt_skip_list = demo_list, mt_wal = demo_log, mt_max_version = 0, mt_memtable_size = 1000, mt_read_only = False\<rparr>"

lemma demo_mt_abs: "mem_abs (le_enc64 demo_env) (mt_skip_list demo_mt) Map.empty"
  using demo_list_inv by (auto simp: mem_abs_def demo_mt_def intro!: exI [of _ "[]"])

lemma demo_mt_wal: "mm_ok (lf_mmap (mt_wal demo_mt))"
  "encode_entry demo_env (mt_wal demo_mt) demo_entry off = Inr (record_bytes demo_env demo_entry, length (record_bytes demo_env demo_entry))"
  using encode_entry_plain [of demo_log]
  by (simp_all add: demo_mt_def demo_log_def MmapFile_open_def mm_ok_def Let_def)

lemma demo_mt_fits: "fits demo_env demo_entry (mt_skip_list demo_mt)"
  by (simp add: fits_def demo_mt_def demo_list_def demo_entry_def Entry_new_def KeyTs_len_def rounded_def
      SKL_MAX_NODE_SIZE_def ValueMeta_serialized_size_def demo_env_def leb_enc_def leb.simps)

lemma demo_varint: "varint_laws (le_enc64 demo_env) (le_dec64 demo_env)"
  using leb_laws by (simp add: demo_env_def)

theorem memtable_push_refines_witness:
  "\<exists>mt'. mt_push demo_env (\<lambda>_. [True]) demo_entry demo_mt = Some (Inr mt') \<and>
    mem_abs (le_enc64 demo_env) (mt_skip_list mt') [KeyTs [97] 0 \<mapsto> e_value_meta demo_entry]"
proof -
  have "e_key_ts demo_entry = KeyTs [97] 0" "\<not> meta_contains (Entry_meta demo_entry) FIN_TXN"
    by (simp_all add: demo_entry_def Entry_new_def meta_contains_def FIN_TXN_def)
  with memtable_push_refines [OF demo_mt_abs demo_mt_wal, of "\<lambda>_. [True]"] demo_mt_fits show ?thesis by auto
qed

theorem memtable_get_newest_witness:
  "\<exists>mt' r. mt_push demo_env (\<lambda>_. [True]) demo_entry demo_mt = Some (Inr mt') \<and>
    mt_get demo_env mt' (KeyTs [97] 5) True = Some (Inr r) \<and>
    newest [KeyTs [97] 0 \<mapsto> e_value_meta demo_entry] [97] 5 r"
proof -
  have e: "e_key_ts demo_entry = KeyTs [97] 0" "\<not> meta_contains (Entry_meta demo_entry) FIN_TXN"
    by (simp_all add: demo_entry_def Entry_new_def meta_contains_def FIN_TXN_def)
  obtain mt' where mt': "mt_push demo_env (\<lambda>_. [True]) demo_entry demo_mt = Some (Inr mt')"
    "mem_abs (le_enc64 demo_env) (mt_skip_list mt') [KeyTs [97] 0 \<mapsto> e_value_meta demo_entry]"
    using mt_push_abs [OF demo_mt_abs demo_mt_wal, of "\<lambda>_. [True]"] demo_mt_fits e by auto
  from memtable_get_newest [OF mt'(2) demo_varint, of "[97]" 5] mt'(1) show ?thesis by auto
qed

theorem reload_restores_nothing_witness:
  "\<exists>mt'. reload demo_env (\<lambda>_. []) demo_mt = Some (Inr mt') \<and> mt_skip_list mt' = demo_list \<and> mt_max_version mt' = 0"
proof -
  let ?it = "\<lparr>li_record_offset = 20, li_reader = replicate 44 0, li_entries_vptrs = [], li_valid_end_offset = 20\<rparr>"
  have new: "LogFileIter_new (mt_wal demo_mt) VLOG_HEADER_SIZE = Inr ?it"
    by (simp add: LogFileIter_new_def demo_mt_def demo_log_def MmapFile_open_def VLOG_HEADER_SIZE_def Let_def)
  obtain it' where "read_entry demo_env (mt_wal demo_mt) ?it = (Inl Unexpected_eof, it')"
    using read_entry_zeros [OF demo_env_laws, of ?it 44 "mt_wal demo_mt"] by auto
  then have "log_next demo_env (mt_wal demo_mt) ?it = Inr (None, it')"
    unfolding log_next_def by (subst log_next_loop.simps) simp
  then have "reload_loop demo_env (\<lambda>_. []) (mt_wal demo_mt) ?it demo_mt = Some (Inr (demo_mt, it'))"
    by (subst reload_loop.simps) simp
  then obtain mt' where "reload demo_env (\<lambda>_. []) demo_mt = Some (Inr mt')"
    using new by (simp add: reload_def Let_def) (simp add: demo_mt_def)
  with reload_restores_nothing [OF this] show ?thesis by (simp add: demo_mt_def)
qed

end
