(* ===== verification/ValueLog.thy ===== *)
theory ValueLog
  imports LogFile
begin

text \<open>
  The value log of \<open>src/src/vlog/mod.rs\<close> and \<open>src/src/vlog/write.rs\<close>: a numbered sequence of
  log files, of which the last one is written. Values that reach the threshold are
  appended to it and replaced in the memtable by a pointer (file, length, offset).
  The page size, the file system (existing files by number) and the random draws for a
  new file are arguments.
\<close>

section \<open>State\<close>

definition MAX_VLOG_FILE_SIZE :: nat where "MAX_VLOG_FILE_SIZE = 2 ^ 32 - 1"

record value_log_config =
  vc_read_only :: bool
  vc_vlog_file_size :: nat
  vc_vlog_max_entries :: nat
  vc_sync_writes :: bool

text \<open>\<open>1 << 30 - 1\<close> is a shift by twenty-nine.\<close>

definition ValueLogConfig_default :: value_log_config where
  "ValueLogConfig_default = \<lparr>vc_read_only = False, vc_vlog_file_size = 2 ^ (30 - 1),
     vc_vlog_max_entries = 1000000, vc_sync_writes = False\<rparr>"

definition check_vlog_config :: "value_log_config \<Rightarrow> unit outcome" where
  "check_vlog_config c =
     (if \<not> (vc_vlog_file_size c \<ge> 2 ^ 20 \<and> vc_vlog_file_size c < 2 * 2 ^ 30) then Inl (Bail ValuelogSize) else Inr ())"

record value_log =
  vl_files :: "u32 \<rightharpoonup> log_file"
  vl_max_fid :: u32
  vl_writable_log_offset :: nat
  vl_num_entries_written :: nat
  vl_threshold :: nat
  vl_kr :: key_registry
  vl_config :: value_log_config

definition ValueLog_new :: "nat \<Rightarrow> key_registry \<Rightarrow> value_log_config \<Rightarrow> value_log" where
  "ValueLog_new threshold kr config = \<lparr>vl_files = Map.empty, vl_max_fid = 0, vl_writable_log_offset = 0,
     vl_num_entries_written = 0, vl_threshold = threshold, vl_kr = kr, vl_config = config\<rparr>"

text \<open>What the environment provides: the page size and the draws for the file with a given number.\<close>

record vlog_host =
  vh_env :: log_env
  vh_page :: nat
  vh_draws :: "u32 \<Rightarrow> draws"

definition create_vlog_file :: "vlog_host \<Rightarrow> value_log \<Rightarrow> value_log outcome" where
  "create_vlog_file host vl =
     and_then (add_checked (vl_max_fid vl) 1) (\<lambda>fid.
       if vl_files vl fid \<noteq> None then Inl (Anyhow ''file exists'')
       else and_then (LogFile_open (vh_env host) (vh_page host) (vh_draws host fid) fid []
                (2 * vc_vlog_file_size (vl_config vl)) (vl_kr vl))
       (\<lambda>((lf, _), kr).
         Inr (vl\<lparr>vl_max_fid := fid, vl_files := (vl_files vl)(fid \<mapsto> lf), vl_kr := kr,
           vl_writable_log_offset := VLOG_HEADER_SIZE, vl_num_entries_written := 0\<rparr>)))"

definition get_latest_logfile :: "value_log \<Rightarrow> log_file outcome" where
  "get_latest_logfile vl =
     (case vl_files vl (vl_max_fid vl) of Some lf \<Rightarrow> Inr lf | None \<Rightarrow> Inl (Anyhow ''Failed to get latest_logfile''))"

text \<open>
  \<open>populate_files_map\<close>: \<open>disk\<close> lists the value log files of the directory with their
  content. A file that holds nothing but a header is deleted and stays in the map.
\<close>

fun populate_files_map :: "vlog_host \<Rightarrow> (u32 \<times> bytes) list \<Rightarrow> u32 set \<Rightarrow> value_log \<Rightarrow> value_log outcome" where
  "populate_files_map host [] found vl = Inr vl"
| "populate_files_map host ((fid, file) # disk) found vl =
     (if fid \<in> found then Inl (Anyhow ''Duplicate file found. Please delete one.'')
      else and_then (LogFile_open (vh_env host) (vh_page host) (vh_draws host fid) fid file
               (2 * vc_vlog_file_size (vl_config vl)) (vl_kr vl))
      (\<lambda>((lf, _), kr).
        populate_files_map host disk (insert fid found)
          (vl\<lparr>vl_files := (vl_files vl)(fid \<mapsto> lf), vl_kr := kr, vl_max_fid := max (vl_max_fid vl) fid\<rparr>)))"

definition vlog_open :: "vlog_host \<Rightarrow> (u32 \<times> bytes) list \<Rightarrow> value_log \<Rightarrow> value_log outcome" where
  "vlog_open host disk vl =
     and_then (populate_files_map host disk {} vl) (\<lambda>vl.
       if vc_read_only (vl_config vl) then Inr vl
       else if disk = [] then create_vlog_file host vl
       else and_then (get_latest_logfile vl) (\<lambda>lf.
         and_then (LogFileIter_new lf VLOG_HEADER_SIZE) (\<lambda>it.
         and_then (log_scan (vh_env host) lf it) (\<lambda>it.
         create_vlog_file host
           (vl\<lparr>vl_files := (vl_files vl)(vl_max_fid vl \<mapsto> lf_truncate (li_valid_end_offset it) lf)\<rparr>)))))"

section \<open>Writing\<close>

type_synonym request = "(entry \<times> value_pointer) list"

definition entry_estimate :: "entry \<Rightarrow> nat" where
  "entry_estimate e = MAX_HEADER_SIZE + length (Entry_key e) + 8 + length (Entry_value e) + 4"

fun validate_write_from :: "value_log \<Rightarrow> nat \<Rightarrow> request list \<Rightarrow> unit outcome" where
  "validate_write_from vl vlog_offset [] = Inr ()"
| "validate_write_from vl vlog_offset (req # reqs) =
     (let size = sum_list (map (\<lambda>(e, _). entry_estimate e) req);
          estimate = vlog_offset + size
      in if estimate > MAX_VLOG_FILE_SIZE
         then Inl (Anyhow ''Request size offset is bigger than maximum offset'')
         else if estimate \<ge> vc_vlog_file_size (vl_config vl) then validate_write_from vl 0 reqs
         else validate_write_from vl estimate reqs)"

definition validate_write :: "value_log \<Rightarrow> request list \<Rightarrow> unit outcome" where
  "validate_write vl reqs = validate_write_from vl (vl_writable_log_offset vl) reqs"

text \<open>One entry; the second component of the result counts the entries written to the log.\<close>

definition vlog_write_entry ::
  "vlog_host \<Rightarrow> entry \<times> value_pointer \<Rightarrow> value_log \<Rightarrow> ((entry \<times> value_pointer) \<times> nat \<times> value_log) outcome" where
  "vlog_write_entry host ev vl =
     (case ev of (e, vptr) \<Rightarrow>
      let e = Entry_try_set_value_threshold (vl_threshold vl) e in
      if length (Entry_value e) < e_value_threshold e then
        Inr ((e, if \<not> ValuePointer_is_empty vptr then ValuePointer_default else vptr), 0, vl)
      else and_then (get_latest_logfile vl) (\<lambda>lf.
        let offset = vl_writable_log_offset vl;
            bare = Entry_set_meta (meta_remove (meta_remove (Entry_meta e) TXN) FIN_TXN) e
        in and_then (encode_entry (vh_env host) lf bare offset) (\<lambda>(buf, len).
          let vptr = ValuePointer_new (lf_fid lf) len offset in
          if buf = [] then Inr ((e, vptr), 1, vl)
          else
            let end_offset = offset + length buf;
                vl = vl\<lparr>vl_writable_log_offset := end_offset\<rparr>;
                lf = (if end_offset \<ge> length (mm_raw (lf_mmap lf)) then lf_truncate end_offset lf else lf)
            in and_then (write_slice offset buf (lf_mmap lf)) (\<lambda>mm.
              Inr ((e, vptr), 1, vl\<lparr>vl_files := (vl_files vl)(vl_max_fid vl \<mapsto> lf\<lparr>lf_mmap := mm\<rparr>)\<rparr>)))))"

fun vlog_write_entries ::
  "vlog_host \<Rightarrow> request \<Rightarrow> value_log \<Rightarrow> (request \<times> nat \<times> value_log) outcome" where
  "vlog_write_entries host [] vl = Inr ([], 0, vl)"
| "vlog_write_entries host (ev # evs) vl =
     and_then (vlog_write_entry host ev vl) (\<lambda>(ev, n, vl).
     and_then (vlog_write_entries host evs vl) (\<lambda>(evs, k, vl). Inr (ev # evs, n + k, vl)))"

text \<open>When the current file is full it is cut to its length and the next one is created.\<close>

definition vlog_rotate :: "vlog_host \<Rightarrow> value_log \<Rightarrow> value_log outcome" where
  "vlog_rotate host vl =
     (let w_offset = vl_writable_log_offset vl in
      if w_offset > vc_vlog_file_size (vl_config vl) \<or> vl_num_entries_written vl > vc_vlog_max_entries (vl_config vl)
      then and_then (get_latest_logfile vl) (\<lambda>lf.
        create_vlog_file host (vl\<lparr>vl_files := (vl_files vl)(vl_max_fid vl \<mapsto> lf_truncate w_offset lf)\<rparr>))
      else Inr vl)"

fun vlog_write_requests :: "vlog_host \<Rightarrow> request list \<Rightarrow> value_log \<Rightarrow> (request list \<times> value_log) outcome" where
  "vlog_write_requests host [] vl = Inr ([], vl)"
| "vlog_write_requests host (req # reqs) vl =
     and_then (vlog_write_entries host req vl) (\<lambda>(req, written, vl).
     and_then (vlog_rotate host (vl\<lparr>vl_num_entries_written := vl_num_entries_written vl + written\<rparr>)) (\<lambda>vl.
     and_then (vlog_write_requests host reqs vl) (\<lambda>(reqs, vl). Inr (req # reqs, vl))))"

definition vlog_write :: "vlog_host \<Rightarrow> request list \<Rightarrow> value_log \<Rightarrow> (request list \<times> value_log) outcome" where
  "vlog_write host reqs vl =
     and_then (validate_write vl reqs) (\<lambda>_.
     and_then (get_latest_logfile vl) (\<lambda>_.
     and_then (vlog_write_requests host reqs vl) (\<lambda>(reqs, vl).
     and_then (vlog_rotate host vl) (\<lambda>vl. Inr (reqs, vl)))))"

section \<open>Pointers stay valid\<close>

text \<open>The current file is well-formed and the next record goes to its end.\<close>

definition vlog_ok :: "value_log \<Rightarrow> bool" where
  "vlog_ok vl \<longleftrightarrow> (\<exists>lf. vl_files vl (vl_max_fid vl) = Some lf \<and> lf_fid lf = vl_max_fid vl \<and> mm_ok (lf_mmap lf) \<and>
     write_offset (lf_mmap lf) = vl_writable_log_offset vl)"

definition lf_grows :: "log_file \<Rightarrow> log_file \<Rightarrow> bool" where
  "lf_grows lf lf' \<longleftrightarrow> lf_fid lf' = lf_fid lf \<and> lf_cipher lf' = lf_cipher lf \<and> lf_base_nonce lf' = lf_base_nonce lf \<and>
     (\<exists>d. mm_view (lf_mmap lf') = mm_view (lf_mmap lf) @ d)"

definition vl_grows :: "value_log \<Rightarrow> value_log \<Rightarrow> bool" where
  "vl_grows vl vl' \<longleftrightarrow> (\<forall>fid lf. vl_files vl fid = Some lf \<longrightarrow> (\<exists>lf'. vl_files vl' fid = Some lf' \<and> lf_grows lf lf'))"

text \<open>\<open>v\<close> names the file, offset and length at which the record of \<open>e\<close> was written.\<close>

definition points_to :: "log_env \<Rightarrow> value_log \<Rightarrow> entry \<Rightarrow> value_pointer \<Rightarrow> bool" where
  "points_to env vl e v \<longleftrightarrow> (\<exists>lf off buf len. vl_files vl (vp_fid v) = Some lf \<and>
     v = ValuePointer_new (lf_fid lf) len off \<and>
     encode_entry env lf (Entry_set_meta (meta_remove (meta_remove (Entry_meta e) TXN) FIN_TXN) e) off = Inr (buf, len) \<and>
     take len (drop off (mm_view (lf_mmap lf))) = buf)"

lemma lf_grows_refl [simp]: "lf_grows lf lf" by (simp add: lf_grows_def)

lemma lf_grows_trans: "lf_grows a b \<Longrightarrow> lf_grows b c \<Longrightarrow> lf_grows a c"
  by (auto simp: lf_grows_def)

lemma vl_grows_refl [simp]: "vl_grows vl vl" by (simp add: vl_grows_def)

lemma vl_grows_trans: "vl_grows a b \<Longrightarrow> vl_grows b c \<Longrightarrow> vl_grows a c"
  unfolding vl_grows_def by (meson lf_grows_trans)

lemma vl_grows_upd: "vl_files vl fid = Some lf \<Longrightarrow> lf_grows lf lf' \<Longrightarrow> vl_files vl' = (vl_files vl)(fid \<mapsto> lf') \<Longrightarrow> vl_grows vl vl'"
  by (auto simp: vl_grows_def)

lemma encode_entry_length: "encode_entry env lf e off = Inr (buf, len) \<Longrightarrow> length buf = len \<and> 4 \<le> len"
  by (auto simp: encode_entry_def and_then_Inr Let_def)

lemma encode_entry_cong:
  "lf_cipher lf' = lf_cipher lf \<Longrightarrow> lf_base_nonce lf' = lf_base_nonce lf \<Longrightarrow>
   encode_entry env lf' e off = encode_entry env lf e off"
proof -
  assume "lf_cipher lf' = lf_cipher lf" and n: "lf_base_nonce lf' = lf_base_nonce lf"
  moreover from n have "generate_nonce lf' off = generate_nonce lf off" by (simp add: generate_nonce_def Let_def)
  ultimately have "try_encrypt env lf' p off = try_encrypt env lf p off" for p
    by (simp add: try_encrypt_def split: option.split)
  then show ?thesis by (simp add: encode_entry_def)
qed

lemma points_to_grows:
  assumes "points_to env vl e v" "vl_grows vl vl'"
  shows "points_to env vl' e v"
proof -
  let ?e = "Entry_set_meta (meta_remove (meta_remove (Entry_meta e) TXN) FIN_TXN) e"
  obtain lf off buf len where 1: "vl_files vl (vp_fid v) = Some lf" "v = ValuePointer_new (lf_fid lf) len off"
    "encode_entry env lf ?e off = Inr (buf, len)" "take len (drop off (mm_view (lf_mmap lf))) = buf"
    using assms(1) by (auto simp: points_to_def)
  obtain lf' d where 2: "vl_files vl' (vp_fid v) = Some lf'" "lf_fid lf' = lf_fid lf" "lf_cipher lf' = lf_cipher lf"
    "lf_base_nonce lf' = lf_base_nonce lf" "mm_view (lf_mmap lf') = mm_view (lf_mmap lf) @ d"
    using assms(2) 1(1) unfolding vl_grows_def lf_grows_def by blast
  have "length buf = len" "4 \<le> len" using encode_entry_length [OF 1(3)] by auto
  then have "off + len \<le> length (mm_view (lf_mmap lf))" using arg_cong [OF 1(4), of length] by auto
  then have "take len (drop off (mm_view (lf_mmap lf'))) = buf" using 1(4) 2(5) by simp
  with 1 2 encode_entry_cong [OF 2(3,4)] show ?thesis unfolding points_to_def by metis
qed

lemma lf_truncate_facts:
  assumes "mm_ok (lf_mmap lf)" "mm_w_pos (lf_mmap lf) \<le> n"
  shows "lf_grows lf (lf_truncate n lf)" "mm_ok (lf_mmap (lf_truncate n lf))"
    "write_offset (lf_mmap (lf_truncate n lf)) = write_offset (lf_mmap lf)"
    "mm_view (lf_mmap (lf_truncate n lf)) = mm_view (lf_mmap lf)"
    "lf_fid (lf_truncate n lf) = lf_fid lf"
  using assms set_len_view [OF assms] by (simp_all add: lf_truncate_def lf_grows_def)

lemma create_file_facts:
  assumes "create_vlog_file host vl = Inr vl'" "vh_page host > 0" "length (dr_nonce (vh_draws host (vl_max_fid vl + 1))) = 12"
    "vc_vlog_file_size (vl_config vl) > 0"
  shows "vlog_ok vl'" "vl_grows vl vl'" "vl_config vl' = vl_config vl" "vl_threshold vl' = vl_threshold vl"
    "vl_max_fid vl' = vl_max_fid vl + 1"
proof -
  let ?fid = "vl_max_fid vl + 1" and ?n = "2 * vc_vlog_file_size (vl_config vl)"
  let ?d = "vh_draws host (vl_max_fid vl + 1)"
  obtain lf b kr where o: "LogFile_open (vh_env host) (vh_page host) ?d ?fid [] ?n (vl_kr vl) = Inr ((lf, b), kr)"
    and fresh: "vl_files vl ?fid = None"
    and vl': "vl' = vl\<lparr>vl_max_fid := ?fid, vl_files := (vl_files vl)(?fid \<mapsto> lf), vl_kr := kr,
           vl_writable_log_offset := VLOG_HEADER_SIZE, vl_num_entries_written := 0\<rparr>"
    using assms(1) by (auto simp: create_vlog_file_def and_then_Inr add_one_checked split: if_splits)
  define mm0 where "mm0 = fst (MmapFile_open (vh_page host) [] ?n)"
  have mm0: "mm_ok mm0" "mm_view mm0 = []" "write_offset mm0 = 0"
    using assms(2) by (simp_all add: mm0_def MmapFile_open_def mm_ok_def mm_view_def write_offset_def Let_def)
  have new: "MmapFile_open (vh_page host) [] ?n = (mm0, True)"
    using assms(4) by (simp add: mm0_def MmapFile_open_def Let_def)
  obtain c mm1 mm2 where w: "write_slice 0 (put_u64 (cipher_id c) @ dr_nonce ?d) mm0 = Inr mm1" "mm_flush mm1 = Inr mm2"
    "lf_mmap lf = mm2" "lf_fid lf = ?fid"
    using o by (auto simp: LogFile_open_def new Let_def lf_bootstrap_def and_then_Inr split: if_splits)
  obtain g where g: "mm_write (put_u64 (cipher_id c) @ dr_nonce ?d) mm0 = Inr g" "mm_ok g"
    "write_offset g = write_offset mm0 + length (put_u64 (cipher_id c) @ dr_nonce ?d)"
    using mm_write_ok [OF mm0(1)] by metis
  have 1: "mm_ok mm1" "write_offset mm1 = 20"
    using g w(1) write_slice_end [of mm0] mm0(3) assms(3) by auto
  obtain h where "mm_flush mm1 = Inr h" "mm_ok h" "mm_w_buf h = []" "mm_w_pos h = write_offset mm1"
    using mm_flush_ok [OF 1(1)] by metis
  with w(2) 1(2) have 2: "mm_ok mm2" "write_offset mm2 = 20" by (auto simp: write_offset_def)
  show "vlog_ok vl'" using 2 w(3,4) by (simp add: vlog_ok_def vl' VLOG_HEADER_SIZE_def)
  show "vl_grows vl vl'" using fresh by (auto simp: vl_grows_def vl')
  show "vl_config vl' = vl_config vl" "vl_threshold vl' = vl_threshold vl" "vl_max_fid vl' = vl_max_fid vl + 1"
    by (simp_all add: vl')
qed

text \<open>What the host guarantees: a page size and nonces of twelve bytes.\<close>

definition host_ok :: "vlog_host \<Rightarrow> bool" where
  "host_ok host \<longleftrightarrow> vh_page host > 0 \<and> (\<forall>fid. length (dr_nonce (vh_draws host fid)) = 12)"

lemma write_entry_facts:
  assumes ok: "vlog_ok vl" and w: "vlog_write_entry host (e, v) vl = Inr ((e', v'), n, vl')"
  shows "vlog_ok vl'" "vl_grows vl vl'" "vl_config vl' = vl_config vl"
    "e' = Entry_try_set_value_threshold (vl_threshold vl) e"
    "if length (Entry_value e') < e_value_threshold e' then v' = ValuePointer_default else points_to (vh_env host) vl' e' v'"
proof -
  let ?e = "Entry_try_set_value_threshold (vl_threshold vl) e"
  let ?bare = "Entry_set_meta (meta_remove (meta_remove (Entry_meta ?e) TXN) FIN_TXN) ?e"
  obtain lf where lf: "vl_files vl (vl_max_fid vl) = Some lf" "lf_fid lf = vl_max_fid vl" "mm_ok (lf_mmap lf)"
    "write_offset (lf_mmap lf) = vl_writable_log_offset vl" using ok by (auto simp: vlog_ok_def)
  have "vlog_ok vl' \<and> vl_grows vl vl' \<and> vl_config vl' = vl_config vl \<and> e' = ?e \<and>
    (if length (Entry_value e') < e_value_threshold e' then v' = ValuePointer_default else points_to (vh_env host) vl' e' v')"
  proof (cases "length (Entry_value ?e) < e_value_threshold ?e")
    case True
    with w ok show ?thesis
      by (auto simp: vlog_write_entry_def Let_def ValuePointer_is_empty_def split: if_splits)
  next
    case False
    let ?off = "vl_writable_log_offset vl"
    obtain buf len where enc: "encode_entry (vh_env host) lf ?bare ?off = Inr (buf, len)"
      using w False lf(1) by (auto simp: vlog_write_entry_def Let_def get_latest_logfile_def and_then_Inr)
    have bl: "length buf = len" "4 \<le> len" using encode_entry_length [OF enc] by auto
    then have ne: "buf \<noteq> []" by auto
    define lf1 where "lf1 = (if ?off + length buf \<ge> length (mm_raw (lf_mmap lf)) then lf_truncate (?off + length buf) lf else lf)"
    have pos: "mm_w_pos (lf_mmap lf) \<le> ?off + length buf" using lf(4) by (simp add: write_offset_def)
    have lf1: "lf_grows lf lf1" "mm_ok (lf_mmap lf1)" "write_offset (lf_mmap lf1) = ?off"
      "mm_view (lf_mmap lf1) = mm_view (lf_mmap lf)" "lf_fid lf1 = lf_fid lf"
      using lf_truncate_facts [OF lf(3) pos] lf(3,4) by (simp_all add: lf1_def)
    obtain mm where mm: "mm_write buf (lf_mmap lf1) = Inr mm" "mm_ok mm" "mm_view mm = mm_view (lf_mmap lf1) @ buf"
      "write_offset mm = write_offset (lf_mmap lf1) + length buf" using mm_write_ok [OF lf1(2)] by metis
    have ws: "write_slice ?off buf (lf_mmap lf1) = Inr mm" using write_slice_end [of "lf_mmap lf1"] lf1(3) mm(1) by simp
    let ?lf2 = "lf1\<lparr>lf_mmap := mm\<rparr>"
    have res: "e' = ?e" "v' = ValuePointer_new (lf_fid lf) len ?off"
      "vl' = vl\<lparr>vl_writable_log_offset := ?off + length buf, vl_files := (vl_files vl)(vl_max_fid vl \<mapsto> ?lf2)\<rparr>"
      using w False lf(1) enc ne ws by (auto simp: vlog_write_entry_def Let_def get_latest_logfile_def lf1_def [symmetric])
    have gr: "lf_grows lf ?lf2" using lf1(1) mm(3) by (auto simp: lf_grows_def)
    have vlen: "length (mm_view (lf_mmap lf)) = ?off" using length_view [OF lf(3)] lf(4) by simp
    have "points_to (vh_env host) vl' ?e v'"
      unfolding points_to_def res(2,3) using lf(2) enc mm(3) lf1(4,5) vlen bl gr encode_entry_cong [of ?lf2 lf]
      by (intro exI [of _ ?lf2] exI [of _ ?off] exI [of _ buf] exI [of _ len])
        (simp add: ValuePointer_new_def lf_grows_def)
    moreover have "vlog_ok vl'" using res(3) lf(2) lf1(3,5) mm(2,4) by (simp add: vlog_ok_def)
    moreover have "vl_grows vl vl'" by (rule vl_grows_upd [OF lf(1) gr]) (simp add: res(3))
    ultimately show ?thesis using False res by simp
  qed
  then show "vlog_ok vl'" "vl_grows vl vl'" "vl_config vl' = vl_config vl" "e' = ?e"
    "if length (Entry_value e') < e_value_threshold e' then v' = ValuePointer_default else points_to (vh_env host) vl' e' v'"
    by blast+
qed

text \<open>The outcome of one entry, in a log that may have grown since.\<close>

definition written_ok :: "log_env \<Rightarrow> value_log \<Rightarrow> entry \<times> value_pointer \<Rightarrow> bool" where
  "written_ok env vl ev \<longleftrightarrow> (case ev of (e, v) \<Rightarrow>
     if length (Entry_value e) < e_value_threshold e then v = ValuePointer_default else points_to env vl e v)"

lemma written_ok_grows: "written_ok env vl ev \<Longrightarrow> vl_grows vl vl' \<Longrightarrow> written_ok env vl' ev"
  by (auto simp: written_ok_def intro: points_to_grows split: if_splits)

lemma write_entries_facts:
  assumes "vlog_ok vl" "vlog_write_entries host evs vl = Inr (evs', n, vl')"
  shows "vlog_ok vl' \<and> vl_grows vl vl' \<and> vl_config vl' = vl_config vl \<and> list_all (written_ok (vh_env host) vl') evs'"
  using assms
proof (induction evs arbitrary: vl evs' n)
  case (Cons ev evs)
  obtain e v where ev: "ev = (e, v)" by (cases ev)
  obtain e1 v1 n1 vl1 es k where 1: "vlog_write_entry host (e, v) vl = Inr ((e1, v1), n1, vl1)"
    "vlog_write_entries host evs vl1 = Inr (es, k, vl')" "evs' = (e1, v1) # es"
    using Cons.prems(2) ev by (auto simp: and_then_Inr)
  note w = write_entry_facts [OF Cons.prems(1) 1(1)]
  from Cons.IH [OF w(1) 1(2)] have IH: "vlog_ok vl'" "vl_grows vl1 vl'" "vl_config vl' = vl_config vl1"
    "list_all (written_ok (vh_env host) vl') es" by auto
  have "written_ok (vh_env host) vl1 (e1, v1)" using w(5) by (simp add: written_ok_def)
  with IH w(2,3) vl_grows_trans written_ok_grows show ?case unfolding 1(3) by (metis list.pred_inject(2))
qed simp

lemma rotate_facts:
  assumes "vlog_ok vl" "host_ok host" "vc_vlog_file_size (vl_config vl) > 0" "vlog_rotate host vl = Inr vl'"
  shows "vlog_ok vl' \<and> vl_grows vl vl' \<and> vl_config vl' = vl_config vl"
proof (cases "vl_writable_log_offset vl > vc_vlog_file_size (vl_config vl) \<or> vl_num_entries_written vl > vc_vlog_max_entries (vl_config vl)")
  case True
  obtain lf where lf: "vl_files vl (vl_max_fid vl) = Some lf" "mm_ok (lf_mmap lf)"
    "write_offset (lf_mmap lf) = vl_writable_log_offset vl" using assms(1) by (auto simp: vlog_ok_def)
  let ?lf = "lf_truncate (vl_writable_log_offset vl) lf"
  let ?vl = "vl\<lparr>vl_files := (vl_files vl)(vl_max_fid vl \<mapsto> ?lf)\<rparr>"
  have "mm_w_pos (lf_mmap lf) \<le> vl_writable_log_offset vl" using lf(3) by (simp add: write_offset_def)
  from lf_truncate_facts(1) [OF lf(2) this] have g: "vl_grows vl ?vl"
    by (intro vl_grows_upd [OF lf(1)]) simp_all
  have c: "create_vlog_file host ?vl = Inr vl'"
    using assms(4) True lf(1) by (simp add: vlog_rotate_def Let_def get_latest_logfile_def)
  from create_file_facts [OF c] assms(2,3) have "vlog_ok vl'" "vl_grows ?vl vl'" "vl_config vl' = vl_config vl"
    by (simp_all add: host_ok_def)
  with g vl_grows_trans show ?thesis by blast
next
  case False
  with assms show ?thesis by (auto simp: vlog_rotate_def Let_def)
qed

lemma write_requests_facts:
  assumes "vlog_ok vl" "host_ok host" "vc_vlog_file_size (vl_config vl) > 0"
    "vlog_write_requests host reqs vl = Inr (reqs', vl')"
  shows "vlog_ok vl' \<and> vl_grows vl vl' \<and> vl_config vl' = vl_config vl \<and>
    list_all (list_all (written_ok (vh_env host) vl')) reqs'"
  using assms
proof (induction reqs arbitrary: vl reqs')
  case (Cons req reqs)
  obtain req1 k vl1 vl2 rs where 1: "vlog_write_entries host req vl = Inr (req1, k, vl1)"
    "vlog_rotate host (vl1\<lparr>vl_num_entries_written := vl_num_entries_written vl1 + k\<rparr>) = Inr vl2"
    "vlog_write_requests host reqs vl2 = Inr (rs, vl')" "reqs' = req1 # rs"
    using Cons.prems(4) by (auto simp: and_then_Inr)
  let ?vl1 = "vl1\<lparr>vl_num_entries_written := vl_num_entries_written vl1 + k\<rparr>"
  from write_entries_facts [OF Cons.prems(1) 1(1)] have e: "vlog_ok vl1" "vl_grows vl vl1"
    "vl_config vl1 = vl_config vl" "list_all (written_ok (vh_env host) vl1) req1" by auto
  from e(1) have "vlog_ok ?vl1" by (simp add: vlog_ok_def)
  from rotate_facts [OF this Cons.prems(2) _ 1(2)] e(3) Cons.prems(3)
  have r: "vlog_ok vl2" "vl_grows ?vl1 vl2" "vl_config vl2 = vl_config vl" by auto
  from r(2) have r2: "vl_grows vl1 vl2" by (simp add: vl_grows_def)
  from Cons.IH [OF r(1) Cons.prems(2) _ 1(3)] r(3) Cons.prems(3)
  have i: "vlog_ok vl'" "vl_grows vl2 vl'" "vl_config vl' = vl_config vl2"
    "list_all (list_all (written_ok (vh_env host) vl')) rs" by auto
  have g1: "vl_grows vl1 vl'" using r2 i(2) vl_grows_trans by blast
  have "list_all (written_ok (vh_env host) vl') req1"
    using e(4) g1 written_ok_grows by (metis (mono_tags, lifting) list.pred_mono_strong)
  with i r(3) g1 e(2) vl_grows_trans show ?case unfolding 1(4) by (metis list.pred_inject(2))
qed simp

text \<open>
  C12: Every pointer the value log hands out is right. After a batch of requests has been
  written, across rotations of the file, each entry whose value reaches the threshold
  has a pointer to a place where the log holds exactly its record, as \<open>encode_entry\<close>
  made it for that offset; every other entry has the empty pointer. What the log
  held before is still there at the same place.
\<close>

theorem vlog_write_pointers:
  assumes "vlog_ok vl" "host_ok host" "vc_vlog_file_size (vl_config vl) > 0"
    and "vlog_write host reqs vl = Inr (reqs', vl')"
  shows "list_all (list_all (written_ok (vh_env host) vl')) reqs' \<and> vl_grows vl vl' \<and> vlog_ok vl'"
proof -
  obtain vl1 where 1: "vlog_write_requests host reqs vl = Inr (reqs', vl1)" "vlog_rotate host vl1 = Inr vl'"
    using assms(4) by (auto simp: vlog_write_def and_then_Inr)
  from write_requests_facts [OF assms(1-3) 1(1)] have w: "vlog_ok vl1" "vl_grows vl vl1" "vl_config vl1 = vl_config vl"
    "list_all (list_all (written_ok (vh_env host) vl1)) reqs'" by auto
  from rotate_facts [OF w(1) assms(2) _ 1(2)] w(3) assms(3) have r: "vlog_ok vl'" "vl_grows vl1 vl'" by auto
  have "list_all (list_all (written_ok (vh_env host) vl')) reqs'"
    using w(4) r(2) written_ok_grows by (metis (mono_tags, lifting) list.pred_mono_strong)
  with r w(2) vl_grows_trans show ?thesis by blast
qed

section \<open>Unencrypted logs always accept a valid batch\<close>

definition plain_ok :: "value_log \<Rightarrow> bool" where
  "plain_ok vl \<longleftrightarrow> vlog_ok vl \<and> kr_cipher (vl_kr vl) = None \<and> (\<forall>fid > vl_max_fid vl. vl_files vl fid = None) \<and>
     (\<exists>lf. vl_files vl (vl_max_fid vl) = Some lf \<and> lf_cipher lf = None)"

text \<open>A new file without encryption.\<close>

lemma logfile_open_plain:
  assumes "kr_cipher kr = None" "0 < page" "length (dr_nonce d) = 12" "0 < n"
  obtains lf where "LogFile_open env page d fid [] n kr = Inr ((lf, True), kr)" "lf_fid lf = fid" "mm_ok (lf_mmap lf)" "write_offset (lf_mmap lf) = 20"
    "lf_cipher lf = None"
proof -
  define mm0 where "mm0 = fst (MmapFile_open page [] n)"
  have mm0: "mm_ok mm0" "mm_view mm0 = []" "write_offset mm0 = 0"
    using assms(2) by (simp_all add: mm0_def MmapFile_open_def mm_ok_def mm_view_def write_offset_def Let_def)
  have new: "MmapFile_open page [] n = (mm0, True)" using assms(4) by (simp add: mm0_def MmapFile_open_def Let_def)
  obtain mm1 where m1: "mm_write (put_u64 0 @ dr_nonce d) mm0 = Inr mm1" "mm_ok mm1"
    "mm_view mm1 = put_u64 0 @ dr_nonce d" "write_offset mm1 = 20"
  proof (rule mm_write_ok [OF mm0(1), of "put_u64 0 @ dr_nonce d"])
    fix g assume "mm_write (put_u64 0 @ dr_nonce d) mm0 = Inr g" "mm_ok g" "mm_view g = mm_view mm0 @ put_u64 0 @ dr_nonce d"
      "write_offset g = write_offset mm0 + length (put_u64 0 @ dr_nonce d)"
    then show thesis using that [of g] mm0(2,3) assms(3) by simp
  qed
  obtain mm2 where m2: "mm_flush mm1 = Inr mm2" "mm_ok mm2" "mm_view mm2 = mm_view mm1" "mm_w_buf mm2 = []"
    "mm_w_pos mm2 = write_offset mm1" using mm_flush_ok [OF m1(2)] by metis
  have raw: "take 20 (mm_raw mm2) = put_u64 0 @ dr_nonce d" "20 \<le> length (mm_raw mm2)" "write_offset mm2 = 20"
    using m2 m1(3,4) by (simp_all add: mm_view_def mm_ok_def write_offset_def)
  have ws: "write_slice 0 (put_u64 0 @ dr_nonce d) mm0 = Inr mm1" using write_slice_end [of mm0] mm0(3) m1(1) by simp
  define lf where "lf = \<lparr>lf_fid = fid, lf_cipher = None, lf_mmap = mm2, lf_size = length (mm_raw mm2), lf_base_nonce = dr_nonce d\<rparr>"
  have "LogFile_open env page d fid [] n kr = Inr ((lf, True), kr)"
    using assms(1) ws m2(1) raw
    by (simp add: LogFile_open_def new lf_bootstrap_def latest_cipher_def latest_datakey_def cipher_id_def Let_def
        VLOG_HEADER_SIZE_def get_cipher_def get_data_key_def lf_def from_be_put)
  then show ?thesis by (rule that) (use m2(2) raw(3) in \<open>simp_all add: lf_def\<close>)
qed

lemma create_file_plain:
  assumes "kr_cipher (vl_kr vl) = None" "\<forall>fid > vl_max_fid vl. vl_files vl fid = None"
    "host_ok host" "vc_vlog_file_size (vl_config vl) > 0" "vl_max_fid vl \<noteq> - 1"
  shows "\<exists>vl'. create_vlog_file host vl = Inr vl' \<and> plain_ok vl' \<and> vl_config vl' = vl_config vl \<and>
    vl_max_fid vl' = vl_max_fid vl + 1"
proof -
  let ?fid = "vl_max_fid vl + 1"
  have fid: "vl_max_fid vl < ?fid" using assms(5) word_incr_less [of "vl_max_fid vl" "vl_max_fid vl"] by simp
  have h: "0 < vh_page host" "length (dr_nonce (vh_draws host ?fid)) = 12" "0 < 2 * vc_vlog_file_size (vl_config vl)"
    using assms(3,4) by (simp_all add: host_ok_def)
  obtain lf where lf: "LogFile_open (vh_env host) (vh_page host) (vh_draws host ?fid) ?fid [] (2 * vc_vlog_file_size (vl_config vl)) (vl_kr vl) = Inr ((lf, True), vl_kr vl)"
    "lf_fid lf = ?fid" "mm_ok (lf_mmap lf)" "write_offset (lf_mmap lf) = 20" "lf_cipher lf = None"
    by (rule logfile_open_plain [OF assms(1) h])
  moreover have "vl_files vl ?fid = None" using assms(2) fid by blast
  ultimately have c: "create_vlog_file host vl = Inr (vl\<lparr>vl_max_fid := ?fid, vl_files := (vl_files vl)(?fid \<mapsto> lf),
      vl_writable_log_offset := VLOG_HEADER_SIZE, vl_num_entries_written := 0\<rparr>)"
    using assms(5) by (simp add: create_vlog_file_def add_one_checked [THEN iffD2])
  moreover have "plain_ok (vl\<lparr>vl_max_fid := ?fid, vl_files := (vl_files vl)(?fid \<mapsto> lf),
      vl_writable_log_offset := VLOG_HEADER_SIZE, vl_num_entries_written := 0\<rparr>)"
    using assms(1,2) fid lf by (auto simp: plain_ok_def vlog_ok_def VLOG_HEADER_SIZE_def)
  ultimately show ?thesis by auto
qed

lemma write_entry_plain:
  assumes "plain_ok vl"
  shows "\<exists>ev' n vl'. vlog_write_entry host ev vl = Inr (ev', n, vl') \<and> plain_ok vl' \<and>
    vl_config vl' = vl_config vl \<and> vl_max_fid vl' = vl_max_fid vl"
proof -
  obtain e v where ev: "ev = (e, v)" by (cases ev)
  let ?e = "Entry_try_set_value_threshold (vl_threshold vl) e"
  let ?bare = "Entry_set_meta (meta_remove (meta_remove (Entry_meta e) TXN) FIN_TXN) ?e"
  obtain lf where lf: "vl_files vl (vl_max_fid vl) = Some lf" "lf_cipher lf = None" "mm_ok (lf_mmap lf)"
    "write_offset (lf_mmap lf) = vl_writable_log_offset vl" "lf_fid lf = vl_max_fid vl"
    using assms by (auto simp: plain_ok_def vlog_ok_def)
  let ?off = "vl_writable_log_offset vl" and ?r = "record_bytes (vh_env host) ?bare"
  define lf1 where "lf1 = (if ?off + length ?r \<ge> length (mm_raw (lf_mmap lf)) then lf_truncate (?off + length ?r) lf else lf)"
  have pos: "mm_w_pos (lf_mmap lf) \<le> ?off + length ?r" using lf(4) by (simp add: write_offset_def)
  have lf1: "mm_ok (lf_mmap lf1)" "write_offset (lf_mmap lf1) = ?off" "lf_fid lf1 = lf_fid lf" "lf_cipher lf1 = None"
    using lf_truncate_facts [OF lf(3) pos] lf(2-4) by (simp_all add: lf1_def lf_truncate_def)
  obtain mm where mm: "mm_write ?r (lf_mmap lf1) = Inr mm" "mm_ok mm" "write_offset mm = ?off + length ?r"
    using mm_write_ok [OF lf1(1), of ?r] lf1(2) by metis
  have ws: "write_slice ?off ?r (lf_mmap lf1) = Inr mm" using write_slice_end [of "lf_mmap lf1"] lf1(2) mm(1) by simp
  let ?vl = "vl\<lparr>vl_writable_log_offset := ?off + length ?r, vl_files := (vl_files vl)(vl_max_fid vl \<mapsto> lf1\<lparr>lf_mmap := mm\<rparr>)\<rparr>"
  have "plain_ok ?vl" using assms lf lf1 mm(2,3) by (auto simp: plain_ok_def vlog_ok_def)
  moreover have "?r \<noteq> []" by (simp add: record_bytes_def header_encode_def Let_def)
  ultimately show ?thesis
    using assms lf(1) encode_entry_plain [OF lf(2), of "vh_env host" ?bare ?off] ws ev
    by (cases "length (Entry_value ?e) < e_value_threshold ?e")
      (simp_all add: vlog_write_entry_def get_latest_logfile_def Let_def lf1_def [symmetric] split del: if_split)
qed

lemma write_entries_plain:
  "plain_ok vl \<Longrightarrow> \<exists>evs' n vl'. vlog_write_entries host evs vl = Inr (evs', n, vl') \<and> plain_ok vl' \<and>
    vl_config vl' = vl_config vl \<and> vl_max_fid vl' = vl_max_fid vl"
proof (induction evs arbitrary: vl)
  case (Cons ev evs)
  obtain ev' n vl1 where 1: "vlog_write_entry host ev vl = Inr (ev', n, vl1)" "plain_ok vl1"
    "vl_config vl1 = vl_config vl" "vl_max_fid vl1 = vl_max_fid vl"
    using write_entry_plain [OF Cons.prems] by blast
  from Cons.IH [OF 1(2)] 1 show ?case by auto
qed simp

lemma rotate_plain:
  assumes "plain_ok vl" "host_ok host" "vc_vlog_file_size (vl_config vl) > 0" "vl_max_fid vl \<noteq> - 1"
  shows "\<exists>vl'. vlog_rotate host vl = Inr vl' \<and> plain_ok vl' \<and> vl_config vl' = vl_config vl \<and>
    (vl_max_fid vl' = vl_max_fid vl \<or> vl_max_fid vl' = vl_max_fid vl + 1)"
proof -
  obtain lf where lf: "vl_files vl (vl_max_fid vl) = Some lf" using assms(1) by (auto simp: plain_ok_def)
  let ?vl = "vl\<lparr>vl_files := (vl_files vl)(vl_max_fid vl \<mapsto> lf_truncate (vl_writable_log_offset vl) lf)\<rparr>"
  have "kr_cipher (vl_kr ?vl) = None" "\<forall>fid > vl_max_fid ?vl. vl_files ?vl fid = None"
    using assms(1) by (auto simp: plain_ok_def)
  from create_file_plain [OF this assms(2)] assms(3,4) obtain vl' where
    "create_vlog_file host ?vl = Inr vl'" "plain_ok vl'" "vl_config vl' = vl_config vl" "vl_max_fid vl' = vl_max_fid vl + 1"
    by auto
  with assms(1) lf show ?thesis by (auto simp: vlog_rotate_def Let_def get_latest_logfile_def)
qed

lemma write_requests_plain:
  "plain_ok vl \<Longrightarrow> host_ok host \<Longrightarrow> vc_vlog_file_size (vl_config vl) > 0 \<Longrightarrow>
   unat (vl_max_fid vl) + length reqs < 2 ^ 32 - 1 \<Longrightarrow>
   \<exists>reqs' vl'. vlog_write_requests host reqs vl = Inr (reqs', vl') \<and> plain_ok vl' \<and>
     vl_config vl' = vl_config vl \<and> unat (vl_max_fid vl') \<le> unat (vl_max_fid vl) + length reqs"
proof (induction reqs arbitrary: vl)
  case (Cons req reqs)
  obtain req1 k vl1 where 1: "vlog_write_entries host req vl = Inr (req1, k, vl1)" "plain_ok vl1"
    "vl_config vl1 = vl_config vl" "vl_max_fid vl1 = vl_max_fid vl"
    using write_entries_plain [OF Cons.prems(1)] by blast
  let ?vl1 = "vl1\<lparr>vl_num_entries_written := vl_num_entries_written vl1 + k\<rparr>"
  have p: "plain_ok ?vl1" using 1(2) by (simp add: plain_ok_def vlog_ok_def)
  have nm: "vl_max_fid vl \<noteq> - 1"
    using Cons.prems(4) by (auto simp: unsigned_minus_1_eq_mask mask_eq_exp_minus_1)
  obtain vl2 where 2: "vlog_rotate host ?vl1 = Inr vl2" "plain_ok vl2" "vl_config vl2 = vl_config vl"
    "vl_max_fid vl2 = vl_max_fid vl \<or> vl_max_fid vl2 = vl_max_fid vl + 1"
    using rotate_plain [OF p Cons.prems(2)] Cons.prems(3) 1(3,4) nm by auto
  have le: "unat (vl_max_fid vl2) \<le> unat (vl_max_fid vl) + 1"
    using 2(4) Cons.prems(4) by (auto simp: unat_word_ariths)
  obtain rs vl' where 3: "vlog_write_requests host reqs vl2 = Inr (rs, vl')" "plain_ok vl'" "vl_config vl' = vl_config vl2"
    "unat (vl_max_fid vl') \<le> unat (vl_max_fid vl2) + length reqs"
    using Cons.IH [OF 2(2) Cons.prems(2)] 2(3) Cons.prems(3,4) le by auto
  show ?case using 1(1) 2(1,3) 3 le by auto
qed simp

lemma vlog_write_plain:
  assumes "plain_ok vl" "host_ok host" "vc_vlog_file_size (vl_config vl) > 0"
    and "unat (vl_max_fid vl) + length reqs + 1 < 2 ^ 32 - 1" "validate_write vl reqs = Inr u"
  shows "\<exists>reqs' vl'. vlog_write host reqs vl = Inr (reqs', vl') \<and> plain_ok vl'"
proof -
  obtain reqs' vl1 where 1: "vlog_write_requests host reqs vl = Inr (reqs', vl1)" "plain_ok vl1"
    "vl_config vl1 = vl_config vl" "unat (vl_max_fid vl1) \<le> unat (vl_max_fid vl) + length reqs"
    using write_requests_plain [OF assms(1-3), of reqs] assms(4) by auto
  have "vl_max_fid vl1 \<noteq> - 1"
    using 1(4) assms(4) by (auto simp: unsigned_minus_1_eq_mask mask_eq_exp_minus_1)
  from rotate_plain [OF 1(2) assms(2) _ this] 1(3) assms(3) obtain vl' where
    "vlog_rotate host vl1 = Inr vl'" "plain_ok vl'" by auto
  moreover obtain lf where "get_latest_logfile vl = Inr lf"
    using assms(1) by (auto simp: plain_ok_def get_latest_logfile_def)
  ultimately show ?thesis using assms(5) 1(1) by (simp add: vlog_write_def)
qed

text \<open>
  A batch that passes the size check is written. Without encryption, and as long as file
  numbers are left, \<open>ValueLog::write\<close> succeeds for every batch that \<open>validate_write\<close>
  accepts, whatever rotations that takes; a batch it refuses fails with its error.
\<close>

theorem vlog_write_succeeds:
  assumes "plain_ok vl" "host_ok host" "vc_vlog_file_size (vl_config vl) > 0"
    and "unat (vl_max_fid vl) + length reqs + 1 < 2 ^ 32 - 1"
  shows "case validate_write vl reqs of
      Inl e \<Rightarrow> vlog_write host reqs vl = Inl e
    | Inr _ \<Rightarrow> (\<exists>reqs' vl'. vlog_write host reqs vl = Inr (reqs', vl') \<and> plain_ok vl')"
  using vlog_write_plain [OF assms] by (cases "validate_write vl reqs") (auto simp: vlog_write_def)

section \<open>An instance\<close>

definition demo_host :: vlog_host where
  "demo_host = \<lparr>vh_env = demo_env, vh_page = 64,
     vh_draws = (\<lambda>_. \<lparr>dr_key = demo_master, dr_iv = demo_nonce, dr_now = 0, dr_nonce = demo_nonce\<rparr>)\<rparr>"

definition demo_registry :: key_registry where
  "demo_registry = \<lparr>kr_data_keys = Map.empty, kr_last_created = 0, kr_next_key_id = 0, kr_fp = None, kr_cipher = None, kr_rotation = 1\<rparr>"

definition demo_vlog :: value_log where
  "demo_vlog = ValueLog_new 2 demo_registry (ValueLogConfig_default\<lparr>vc_vlog_file_size := 100\<rparr>)"

lemma demo_host_ok: "host_ok demo_host"
  by (simp add: host_ok_def demo_host_def demo_nonce_def)

lemma demo_vlog_open:
  obtains vl where "create_vlog_file demo_host demo_vlog = Inr vl" "plain_ok vl" "vl_config vl = vl_config demo_vlog"
    "vl_max_fid vl = 1" "validate_write vl [[(demo_entry, ValuePointer_default)]] = Inr ()"
proof -
  have "kr_cipher (vl_kr demo_vlog) = None" "\<forall>fid > vl_max_fid demo_vlog. vl_files demo_vlog fid = None"
    "vc_vlog_file_size (vl_config demo_vlog) > 0" "vl_max_fid demo_vlog \<noteq> - 1"
    by (simp_all add: demo_vlog_def ValueLog_new_def demo_registry_def)
  from create_file_plain [OF this(1,2) demo_host_ok this(3,4)] obtain vl where
    1: "create_vlog_file demo_host demo_vlog = Inr vl" "plain_ok vl" "vl_config vl = vl_config demo_vlog"
    "vl_max_fid vl = 1" by (auto simp: demo_vlog_def ValueLog_new_def)
  from 1(1) have "vl_writable_log_offset vl = 20"
    by (auto simp: create_vlog_file_def and_then_Inr VLOG_HEADER_SIZE_def split: if_splits)
  then have "validate_write vl [[(demo_entry, ValuePointer_default)]] = Inr ()"
    by (simp add: validate_write_def entry_estimate_def demo_entry_def Entry_new_def MAX_HEADER_SIZE_def MAX_VLOG_FILE_SIZE_def)
  with 1 show ?thesis by (rule that)
qed

theorem vlog_write_pointers_witness:
  "\<exists>vl reqs' vl'. create_vlog_file demo_host demo_vlog = Inr vl \<and>
    vlog_write demo_host [[(demo_entry, ValuePointer_default)]] vl = Inr (reqs', vl') \<and>
    list_all (list_all (written_ok demo_env vl')) reqs'"
proof -
  obtain vl where vl: "create_vlog_file demo_host demo_vlog = Inr vl" "plain_ok vl" "vl_config vl = vl_config demo_vlog"
    "vl_max_fid vl = 1" "validate_write vl [[(demo_entry, ValuePointer_default)]] = Inr ()" by (rule demo_vlog_open)
  have sz: "vc_vlog_file_size (vl_config vl) > 0" unfolding vl(3) by (simp add: demo_vlog_def ValueLog_new_def)
  obtain reqs' vl' where w: "vlog_write demo_host [[(demo_entry, ValuePointer_default)]] vl = Inr (reqs', vl')"
    using vlog_write_plain [OF vl(2) demo_host_ok sz _ vl(5)] vl(4) by auto
  have "vlog_ok vl" using vl(2) by (simp add: plain_ok_def)
  from vlog_write_pointers [OF this demo_host_ok sz w] vl(1) w show ?thesis by (auto simp: demo_host_def)
qed

theorem vlog_write_succeeds_witness:
  "\<exists>vl reqs' vl'. create_vlog_file demo_host demo_vlog = Inr vl \<and>
    vlog_write demo_host [[(demo_entry, ValuePointer_default)]] vl = Inr (reqs', vl')"
proof -
  obtain vl where vl: "create_vlog_file demo_host demo_vlog = Inr vl" "plain_ok vl" "vl_config vl = vl_config demo_vlog"
    "vl_max_fid vl = 1" "validate_write vl [[(demo_entry, ValuePointer_default)]] = Inr ()" by (rule demo_vlog_open)
  have sz: "vc_vlog_file_size (vl_config vl) > 0" unfolding vl(3) by (simp add: demo_vlog_def ValueLog_new_def)
  from vlog_write_succeeds [OF vl(2) demo_host_ok sz, of "[[(demo_entry, ValuePointer_default)]]"] vl(1,4,5)
  show ?thesis by auto
qed

end
