(* ===== verification/Db.thy ===== *)
theory Db
  imports MemTable ValueLog
begin

text \<open>
  The write and the read path of the database: \<open>src/src/write.rs\<close> (a batch of requests goes
  through the value log into the memtable, which is swapped for a new one when it is
  full), \<open>src/src/read.rs\<close> (a read looks at the memtable, the immutable memtables, newest
  first, and the levels), \<open>DBInner::is_banned\<close> of \<open>src/src/db.rs\<close>, and the sizes that
  \<open>src/src/config.rs\<close> and \<open>src/src/vlog/threshold.rs\<close> derive. The lookup in the levels
  is an argument of the read.
\<close>

section \<open>Configuration\<close>

definition MAX_VALUE_THRESHOLD :: nat where "MAX_VALUE_THRESHOLD = 2 ^ 20"

record vlog_threshold_config =
  vt_max_value_threshold :: nat
  vt_percentile_ok :: bool
  vt_value_threshold :: nat

text \<open>\<open>vt_percentile_ok\<close>: the percentile, a float, is within 0.0 and 1.0.\<close>

definition check_threshold_config :: "nat \<Rightarrow> vlog_threshold_config \<Rightarrow> vlog_threshold_config outcome" where
  "check_threshold_config max_batch_size c =
     (let c = c\<lparr>vt_max_value_threshold := min MAX_VALUE_THRESHOLD max_batch_size\<rparr> in
      if \<not> vt_percentile_ok c then Inl (Anyhow ''vlog_percentile must be within range of 0.0-1.0'')
      else if vt_value_threshold c > MAX_VALUE_THRESHOLD then Inl (Anyhow ''Invalid ValueThreshold'')
      else if vt_value_threshold c > max_batch_size then Inl (Anyhow ''Valuethreshold greater than max batch size'')
      else Inr c)"

record config =
  cf_sync_writes :: bool
  cf_read_only :: bool
  cf_num_memtables :: nat
  cf_name_space_offset :: "nat option"
  cf_memtable :: memtable_config
  cf_vlog :: value_log_config
  cf_vlog_threshold :: vlog_threshold_config
  cf_max_batch_count :: nat
  cf_max_batch_size :: nat

text \<open>
  \<open>check_set_config\<close>; \<open>levels_ok\<close> and \<open>cache_ok\<close> stand for the checks of the level and
  cache configurations, the second of which panics.
\<close>

definition check_set_config :: "bool \<Rightarrow> bool \<Rightarrow> config \<Rightarrow> config outcome" where
  "check_set_config levels_ok cache_ok c =
     (if \<not> levels_ok then Inl (Anyhow ''Cannot have 1 compactor. Need at least 2'')
      else
        let max_batch_size = (15 * mc_memtable_size (cf_memtable c)) div 100;
            max_batch_count = max_batch_size div SKL_MAX_NODE_SIZE;
            arena_size = mc_memtable_size (cf_memtable c) + max_batch_size + max_batch_count * SKL_MAX_NODE_SIZE
        in and_then (check_threshold_config max_batch_size (cf_vlog_threshold c)) (\<lambda>vt.
           and_then (check_vlog_config (cf_vlog c)) (\<lambda>_.
             if \<not> cache_ok then Inl Panic
             else Inr (c\<lparr>cf_max_batch_size := max_batch_size, cf_max_batch_count := max_batch_count,
               cf_memtable := (cf_memtable c)\<lparr>mc_arena_size := arena_size\<rparr>, cf_vlog_threshold := vt\<rparr>))))"

section \<open>The database\<close>

record db =
  db_memtable :: "memtable option"
  db_immut_memtable :: "memtable list"
  db_flush_memtable :: "memtable list"
  db_vlog :: value_log
  db_banned_namespaces :: "u64 set"
  db_is_closed :: bool
  db_block_writes :: bool
  db_opt :: config

definition is_banned :: "db \<Rightarrow> bytes \<Rightarrow> unit outcome" where
  "is_banned d key =
     (case cf_name_space_offset (db_opt d) of
        None \<Rightarrow> Inr ()
      | Some offset \<Rightarrow>
        if length key \<le> offset + 8 then Inr ()
        else let name_space = word_of_nat (from_be (take 8 (drop offset key))) in
          if name_space \<in> db_banned_namespaces d then Inl (Bail BannedKey) else Inr ())"

text \<open>What the host provides beyond the value log's: coin flips and draws for memtables.\<close>

record db_host =
  dh_vlog :: vlog_host
  dh_coins :: "bytes \<Rightarrow> bool list"
  dh_mem_draws :: "u32 \<Rightarrow> draws"

abbreviation dh_env :: "db_host \<Rightarrow> log_env" where "dh_env host \<equiv> vh_env (dh_vlog host)"

section \<open>Writing\<close>

definition ensure_boom_for_write :: "db_host \<Rightarrow> db \<Rightarrow> db outcome option" where
  "ensure_boom_for_write host d =
     (case db_memtable d of
        None \<Rightarrow> Some (Inl Panic)
      | Some mt \<Rightarrow>
        if \<not> is_full mt then Some (Inr d)
        else map_option (\<lambda>r. and_then r (\<lambda>(new, mc, kr).
          Inr (d\<lparr>db_memtable := Some new, db_flush_memtable := db_flush_memtable d @ [mt],
            db_immut_memtable := db_immut_memtable d @ [mt],
            db_opt := (db_opt d)\<lparr>cf_memtable := mc\<rparr>, db_vlog := (db_vlog d)\<lparr>vl_kr := kr\<rparr>\<rparr>)))
        (memtable_new (dh_env host) (dh_coins host) (vh_page (dh_vlog host)) (dh_mem_draws host)
           (cf_memtable (db_opt d)) (vl_kr (db_vlog d)) []))"

text \<open>An entry whose value went to the value log is stored with the pointer as its value.\<close>

definition stored_entry :: "entry \<times> value_pointer \<Rightarrow> entry" where
  "stored_entry ev = (case ev of (e, vptr) \<Rightarrow>
     if ValuePointer_is_empty vptr then Entry_set_meta (meta_remove (Entry_meta e) VALUE_POINTER) e
     else Entry_set_value (ValuePointer_serialize vptr) (Entry_set_meta (meta_insert (Entry_meta e) VALUE_POINTER) e))"

fun push_entries :: "db_host \<Rightarrow> (entry \<times> value_pointer) list \<Rightarrow> memtable \<Rightarrow> memtable outcome option" where
  "push_entries host [] mt = Some (Inr mt)"
| "push_entries host (ev # evs) mt =
     (case mt_push (dh_env host) (dh_coins host) (stored_entry ev) mt of
        None \<Rightarrow> None
      | Some (Inl f) \<Rightarrow> Some (Inl f)
      | Some (Inr mt) \<Rightarrow> push_entries host evs mt)"

definition write_to_memtable :: "db_host \<Rightarrow> request \<Rightarrow> db \<Rightarrow> db outcome option" where
  "write_to_memtable host req d =
     (case db_memtable d of
        None \<Rightarrow> Some (Inl Panic)
      | Some mt \<Rightarrow> map_option (\<lambda>r. and_then r (\<lambda>mt.
          and_then (if cf_sync_writes (db_opt d)
                    then and_then (mm_flush (lf_mmap (mt_wal mt))) (\<lambda>mm. Inr (mt\<lparr>mt_wal := (mt_wal mt)\<lparr>lf_mmap := mm\<rparr>\<rparr>))
                    else Inr mt)
          (\<lambda>mt. Inr (d\<lparr>db_memtable := Some mt\<rparr>))))
        (push_entries host req mt))"

fun write_memtable_requests :: "db_host \<Rightarrow> request list \<Rightarrow> db \<Rightarrow> db outcome option" where
  "write_memtable_requests host [] d = Some (Inr d)"
| "write_memtable_requests host (req # reqs) d =
     (if req = [] then write_memtable_requests host reqs d
      else case ensure_boom_for_write host d of
        None \<Rightarrow> None
      | Some (Inl f) \<Rightarrow> Some (Inl f)
      | Some (Inr d) \<Rightarrow>
        (case write_to_memtable host req d of
           None \<Rightarrow> None
         | Some (Inl f) \<Rightarrow> Some (Inl f)
         | Some (Inr d) \<Rightarrow> write_memtable_requests host reqs d))"

definition write_requests :: "db_host \<Rightarrow> request list \<Rightarrow> db \<Rightarrow> db outcome option" where
  "write_requests host reqs d =
     (if reqs = [] then Some (Inr d)
      else case vlog_write (dh_vlog host) reqs (db_vlog d) of
        Inl f \<Rightarrow> Some (Inl f)
      | Inr (reqs, vl) \<Rightarrow> write_memtable_requests host reqs (d\<lparr>db_vlog := vl\<rparr>))"

definition WriteReq_new :: "entry list \<Rightarrow> request" where
  "WriteReq_new entries = map (\<lambda>e. (e, ValuePointer_default)) entries"

text \<open>Sending a request to the write task; the queue is returned extended.\<close>

definition send_entires_to_write_channel :: "entry list \<Rightarrow> db \<Rightarrow> request list \<Rightarrow> request list outcome" where
  "send_entires_to_write_channel entries d queue =
     (if db_block_writes d then Inl (Bail BlockedWrites) else Inr (queue @ [WriteReq_new entries]))"

section \<open>Reading\<close>

definition is_void :: "value_meta \<Rightarrow> bool" where
  "is_void vm \<longleftrightarrow> meta_is_empty (vm_meta vm) \<and> vm_value vm = []"

text \<open>
  The loop over the memtables: \<open>Inl\<close> is the early return of an exact match, \<open>Inr\<close> the best
  version so far.
\<close>

fun scan_memtables ::
  "log_env \<Rightarrow> key_ts \<Rightarrow> memtable list \<Rightarrow> u64 \<times> value_meta option \<Rightarrow>
     ((u64 \<times> value_meta) + (u64 \<times> value_meta option)) outcome option" where
  "scan_memtables env key_ts [] best = Some (Inr (Inr best))"
| "scan_memtables env key_ts (mt # mts) best =
     (case mt_get env mt key_ts True of
        None \<Rightarrow> None
      | Some (Inl f) \<Rightarrow> Some (Inl f)
      | Some (Inr None) \<Rightarrow> scan_memtables env key_ts mts best
      | Some (Inr (Some (txn_ts, vm))) \<Rightarrow>
        if is_void vm then scan_memtables env key_ts mts best
        else if txn_ts = kt_txn_ts key_ts then Some (Inr (Inl (txn_ts, vm)))
        else scan_memtables env key_ts mts (if txn_ts > fst best then (txn_ts, Some vm) else best))"

definition get_memtables :: "db \<Rightarrow> memtable list" where
  "get_memtables d = (case db_memtable d of Some mt \<Rightarrow> [mt] | None \<Rightarrow> []) @ rev (db_immut_memtable d)"

definition db_get ::
  "log_env \<Rightarrow> (key_ts \<Rightarrow> (u64 \<times> value_meta) option outcome) \<Rightarrow> db \<Rightarrow> key_ts \<Rightarrow> (u64 \<times> value_meta) option outcome option" where
  "db_get env levels d key_ts =
     (if db_is_closed d then Some (Inl (Bail DBClosed))
      else case scan_memtables env key_ts (get_memtables d) (0, None) of
        None \<Rightarrow> None
      | Some (Inl f) \<Rightarrow> Some (Inl f)
      | Some (Inr (Inl r)) \<Rightarrow> Some (Inr (Some r))
      | Some (Inr (Inr best)) \<Rightarrow>
        Some (and_then (levels key_ts) (\<lambda>r.
          case r of
            Some (txn_ts, vm) \<Rightarrow>
              if txn_ts = kt_txn_ts key_ts then Inr (Some (txn_ts, vm))
              else let best = (if txn_ts > fst best then (txn_ts, Some vm) else best) in
                Inr (if fst best \<noteq> 0 \<and> snd best \<noteq> None then Some (fst best, the (snd best)) else None)
          | None \<Rightarrow> Inr (if fst best \<noteq> 0 \<and> snd best \<noteq> None then Some (fst best, the (snd best)) else None))))"

section \<open>A read sees the newest version\<close>

text \<open>Sources are layered: a version found in an earlier source hides the same version in later ones.\<close>

definition layered :: "versions list \<Rightarrow> versions \<Rightarrow> versions" where
  "layered Ms D = fold (\<lambda>M D. M ++ D) Ms D"

definition pick :: "(u64 \<times> value_meta) option \<Rightarrow> (u64 \<times> value_meta) option \<Rightarrow> (u64 \<times> value_meta) option" where
  "pick rD rM = (case rM of None \<Rightarrow> rD | Some (v, vm) \<Rightarrow>
     (case rD of None \<Rightarrow> rM | Some (w, _) \<Rightarrow> if v > w then rM else rD))"

lemma newest_None: "newest M k ts None \<longleftrightarrow> (\<forall>v \<le> ts. M (KeyTs k v) = None)"
  by (simp add: newest_def)

lemma newest_Some:
  "newest M k ts (Some (v, vm)) \<longleftrightarrow> v \<le> ts \<and> M (KeyTs k v) = Some vm \<and> (\<forall>w \<le> ts. M (KeyTs k w) \<noteq> None \<longrightarrow> w \<le> v)"
  by (simp add: newest_def)

lemma newest_pick:
  assumes D: "newest D k ts rD" and M: "newest M k ts rM"
  shows "newest (M ++ D) k ts (pick rD rM)"
proof (cases rM)
  case None
  then have "(M ++ D) (KeyTs k w) = D (KeyTs k w)" if "w \<le> ts" for w
    using M that by (simp add: newest_None map_add_def split: option.split)
  with D None show ?thesis by (cases rD) (auto simp: newest_def pick_def)
next
  case (Some p)
  obtain v vm where p: "p = (v, vm)" by (cases p)
  have m: "v \<le> ts" "M (KeyTs k v) = Some vm" "\<And>w. w \<le> ts \<Longrightarrow> M (KeyTs k w) \<noteq> None \<Longrightarrow> w \<le> v"
    using M Some p by (simp_all add: newest_Some)
  show ?thesis
  proof (cases rD)
    case None
    then have "(M ++ D) (KeyTs k w) = M (KeyTs k w)" if "w \<le> ts" for w
      using D that by (simp add: newest_None map_add_def)
    with m Some p None show ?thesis by (simp add: pick_def newest_Some)
  next
    case (Some q)
    obtain w wm where q: "q = (w, wm)" by (cases q)
    have d: "w \<le> ts" "D (KeyTs k w) = Some wm" "\<And>x. x \<le> ts \<Longrightarrow> D (KeyTs k x) \<noteq> None \<Longrightarrow> x \<le> w"
      using D Some q by (simp_all add: newest_Some)
    have hi: "x \<le> v \<or> x \<le> w" if "x \<le> ts" "(M ++ D) (KeyTs k x) \<noteq> None" for x
      using that m(3) d(3) by blast
    show ?thesis
    proof (cases "v > w")
      case True
      have "D (KeyTs k v) = None" using d(3) [OF m(1)] True by force
      then have "(M ++ D) (KeyTs k v) = Some vm" by (simp add: map_add_def m(2))
      moreover have "x \<le> v" if "x \<le> ts" "(M ++ D) (KeyTs k x) \<noteq> None" for x
        using hi [OF that] True by auto
      ultimately show ?thesis using m(1) True \<open>rM = _\<close> p Some q by (simp add: pick_def newest_Some)
    next
      case False
      have "(M ++ D) (KeyTs k w) = Some wm" by (simp add: d(2))
      moreover have "x \<le> w" if "x \<le> ts" "(M ++ D) (KeyTs k x) \<noteq> None" for x
        using hi [OF that] False by auto
      ultimately show ?thesis using d(1) False \<open>rM = _\<close> p Some q by (simp add: pick_def newest_Some)
    qed
  qed
qed

lemma newest_exact:
  "newest D k ts (Some (ts, vm)) \<Longrightarrow> newest (M ++ D) k ts (Some (ts, vm))"
  by (simp add: newest_def map_add_def)

lemma layered_exact: "newest D k ts (Some (ts, vm)) \<Longrightarrow> newest (layered Ms D) k ts (Some (ts, vm))"
  by (induction Ms arbitrary: D) (simp_all add: layered_def newest_exact)

text \<open>Stored values are not void and stored versions are positive.\<close>

definition clean :: "versions \<Rightarrow> bool" where
  "clean M \<longleftrightarrow> (\<forall>k vm. M k = Some vm \<longrightarrow> \<not> is_void vm \<and> kt_txn_ts k \<noteq> 0)"

definition best_of :: "(u64 \<times> value_meta) option \<Rightarrow> u64 \<times> value_meta option" where
  "best_of r = (case r of None \<Rightarrow> (0, None) | Some (v, vm) \<Rightarrow> (v, Some vm))"

lemma newest_clean: "newest M k ts (Some (v, vm)) \<Longrightarrow> clean M \<Longrightarrow> \<not> is_void vm \<and> v \<noteq> 0"
  by (fastforce simp: newest_def clean_def)

lemma best_of_pick:
  assumes "v \<noteq> 0"
  shows "best_of (pick rD (Some (v, vm))) = (if v > fst (best_of rD) then (v, Some vm) else best_of rD)"
  using assms by (cases rD) (auto simp: best_of_def pick_def word_gt_0)

lemma pick_exact:
  assumes "newest D k ts rD" "\<forall>vm. rD \<noteq> Some (ts, vm)"
  shows "pick rD (Some (ts, vm)) = Some (ts, vm)"
proof (cases rD)
  case (Some q)
  obtain w x where q: "q = (w, x)" by (cases q)
  have "w \<le> ts" "w \<noteq> ts" using assms Some q by (auto simp: newest_Some)
  with Some q show ?thesis by (simp add: pick_def)
qed (simp add: pick_def)

lemma scan_memtables_newest:
  assumes laws: "varint_laws (le_enc64 env) (le_dec64 env)" and k: "k \<noteq> []"
  shows "list_all2 (\<lambda>mt M. mem_abs (le_enc64 env) (mt_skip_list mt) M \<and> clean M) mts Ms \<Longrightarrow>
    newest D k ts rD \<Longrightarrow> (\<forall>vm. rD \<noteq> Some (ts, vm)) \<Longrightarrow>
    \<exists>x. scan_memtables env (KeyTs k ts) mts (best_of rD) = Some (Inr x) \<and>
      (case x of Inl (v, vm) \<Rightarrow> v = ts \<and> newest (layered Ms D) k ts (Some (ts, vm))
       | Inr b \<Rightarrow> \<exists>r. b = best_of r \<and> newest (layered Ms D) k ts r \<and> (\<forall>vm. r \<noteq> Some (ts, vm)))"
proof (induction mts arbitrary: Ms D rD)
  case Nil
  then show ?case by (auto simp: layered_def)
next
  case (Cons mt mts)
  obtain M Ms' where Ms: "Ms = M # Ms'" and M: "mem_abs (le_enc64 env) (mt_skip_list mt) M" "clean M"
    and rest: "list_all2 (\<lambda>mt M. mem_abs (le_enc64 env) (mt_skip_list mt) M \<and> clean M) mts Ms'"
    using Cons.prems(1) by (auto simp: list_all2_Cons1)
  obtain r where r: "mt_get env mt (KeyTs k ts) True = Some (Inr r)" "newest M k ts r"
    using mt_get_abs [OF M(1) laws k] by blast
  have lay: "layered Ms D = layered Ms' (M ++ D)" by (simp add: Ms layered_def)
  note n = newest_pick [OF Cons.prems(2) r(2)]
  show ?case
  proof (cases r)
    case None
    have "pick rD r = rD" using None by (simp add: pick_def)
    with Cons.IH [OF rest n] Cons.prems(3) None r(1) show ?thesis unfolding lay by simp
  next
    case (Some p)
    obtain v vm where p: "p = (v, vm)" by (cases p)
    have c: "\<not> is_void vm" "v \<noteq> 0" using newest_clean M(2) r(2) Some p by blast+
    show ?thesis
    proof (cases "v = ts")
      case True
      have "pick rD r = Some (ts, vm)" using pick_exact [OF Cons.prems(2,3)] Some p True by simp
      with n have "newest (layered Ms' (M ++ D)) k ts (Some (ts, vm))" by (simp add: layered_exact)
      with r(1) Some p True c show ?thesis unfolding lay by simp
    next
      case False
      have "\<forall>x. pick rD r \<noteq> Some (ts, x)"
        using Some p False Cons.prems(3) by (auto simp: pick_def split: option.splits)
      from Cons.IH [OF rest n this] r(1) Some p c False best_of_pick [OF c(2), of rD vm]
      show ?thesis unfolding lay by simp
    qed
  qed
qed

lemma clean_add: "clean M \<Longrightarrow> clean D \<Longrightarrow> clean (M ++ D)"
  unfolding clean_def by (metis map_add_SomeD)

lemma clean_layered: "clean D \<Longrightarrow> \<forall>M \<in> set Ms. clean M \<Longrightarrow> clean (layered Ms D)"
  by (induction Ms arbitrary: D) (simp_all add: layered_def clean_add)

definition finish :: "u64 \<times> value_meta option \<Rightarrow> (u64 \<times> value_meta) option" where
  "finish best = (if fst best \<noteq> 0 \<and> snd best \<noteq> None then Some (fst best, the (snd best)) else None)"

lemma finish_best_of: "(\<And>v vm. q = Some (v, vm) \<Longrightarrow> v \<noteq> 0) \<Longrightarrow> finish (best_of q) = q"
  by (cases q) (auto simp: best_of_def finish_def)

lemma db_get_exact:
  "\<not> db_is_closed d \<Longrightarrow> scan_memtables env (KeyTs k ts) (get_memtables d) (0, None) = Some (Inr (Inl p)) \<Longrightarrow>
    db_get env levels d (KeyTs k ts) = Some (Inr (Some p))"
  by (simp add: db_get_def)

lemma db_get_levels:
  assumes "\<not> db_is_closed d" "scan_memtables env (KeyTs k ts) (get_memtables d) (0, None) = Some (Inr (Inr best))"
    and "levels (KeyTs k ts) = Inr rL"
  shows "db_get env levels d (KeyTs k ts) = Some (Inr (case rL of None \<Rightarrow> finish best
    | Some (v, vm) \<Rightarrow> if v = ts then Some (v, vm) else finish (if v > fst best then (v, Some vm) else best)))"
  using assms by (simp add: db_get_def finish_def Let_def split: option.split prod.split)


section \<open>An instance\<close>

definition demo_db :: db where
  "demo_db = \<lparr>db_memtable = Some demo_mt, db_immut_memtable = [], db_flush_memtable = [], db_vlog = demo_vlog,
     db_banned_namespaces = {}, db_is_closed = False, db_block_writes = False,
     db_opt = \<lparr>cf_sync_writes = False, cf_read_only = False, cf_num_memtables = 5, cf_name_space_offset = None,
       cf_memtable = MemTableConfig_default, cf_vlog = vl_config demo_vlog,
       cf_vlog_threshold = \<lparr>vt_max_value_threshold = 0, vt_percentile_ok = True, vt_value_threshold = 0\<rparr>,
       cf_max_batch_count = 0, cf_max_batch_size = 0\<rparr>\<rparr>"


end
