(* ===== verification/WaterMark.thy ===== *)
theory WaterMark
  imports Prelude "HOL-Library.AList"
begin

text \<open>
  The watermark of \<open>src/src/txn/water_mark.rs\<close>: a task that receives begin and
  done marks for timestamps over a channel, keeps the number of pending
  operations of every timestamp and publishes \<open>done_until\<close>, the timestamp below
  which everything has finished; waiters are notified when it passes their
  timestamp. The state of the task (\<open>waiters\<close>, \<open>min_heap\<close>, \<open>pending\<close>), its
  channel and the two atomics of \<open>WaterMarkInner\<close> form one record; every
  \<open>Notify\<close> is an identifier and the calls of \<open>notify_one\<close> are recorded in
  \<open>wm_notified\<close>. The binary heap of reversed timestamps is its ascending list.
\<close>

section \<open>State\<close>

type_synonym notify = nat

record mark =
  mk_txn_ts :: u64
  mk_waiter :: "notify option"
  mk_indices :: "u64 list"
  mk_done :: bool

definition Mark_new :: "u64 \<Rightarrow> bool \<Rightarrow> mark" where
  "Mark_new txn_ts dn = \<lparr>mk_txn_ts = txn_ts, mk_waiter = None, mk_indices = [], mk_done = dn\<rparr>"

record water_mark =
  wm_done_until :: u64
  wm_last_index :: u64
  wm_chan :: "mark list"
  wm_open :: bool
  wm_waiters :: "(u64 \<times> notify list) list"
  wm_min_heap :: "u64 list"
  wm_pending :: "u64 \<Rightarrow> int option"
  wm_notified :: "notify list"

definition WaterMark_new :: "u64 \<Rightarrow> water_mark" where
  "WaterMark_new done_until =
     \<lparr>wm_done_until = done_until, wm_last_index = 0, wm_chan = [], wm_open = True,
      wm_waiters = [], wm_min_heap = [], wm_pending = Map.empty, wm_notified = []\<rparr>"

section \<open>One event\<close>

definition note_pending ::
  "u64 \<Rightarrow> bool \<Rightarrow> u64 list \<Rightarrow> (u64 \<Rightarrow> int option) \<Rightarrow> u64 list \<times> (u64 \<Rightarrow> int option)" where
  "note_pending txn_ts dn min_heap pending =
     (case pending txn_ts of
        Some prev \<Rightarrow> (min_heap, pending(txn_ts \<mapsto> prev + (if dn then 1 else - 1)))
      | None \<Rightarrow> (insort txn_ts min_heap, pending(txn_ts \<mapsto> (if dn then 1 else - 1))))"

fun drain_heap ::
  "u64 list \<Rightarrow> (u64 \<Rightarrow> int option) \<Rightarrow> u64 \<Rightarrow> u64 list \<times> (u64 \<Rightarrow> int option) \<times> u64" where
  "drain_heap [] pending until = ([], pending, until)"
| "drain_heap (mn # heap) pending until =
     (case pending mn of
        Some dn \<Rightarrow> if dn < 0 then (mn # heap, pending, until)
                   else drain_heap heap (pending(mn := None)) mn
      | None \<Rightarrow> drain_heap heap (pending(mn := None)) mn)"

text \<open>The two ways to release waiters, by walking the range or the whole map.\<close>

definition release_range ::
  "u64 \<Rightarrow> u64 \<Rightarrow> (u64 \<times> notify list) list \<times> notify list \<Rightarrow> (u64 \<times> notify list) list \<times> notify list" where
  "release_range done_until until st =
     fold (\<lambda>idx (waiters, notified).
             (AList.delete idx waiters,
              notified @ (case map_of waiters idx of Some ns \<Rightarrow> ns | None \<Rightarrow> [])))
       (map word_of_nat [unat done_until + 1 ..< unat until + 1]) st"

definition release_scan ::
  "u64 \<Rightarrow> (u64 \<times> notify list) list \<times> notify list \<Rightarrow> (u64 \<times> notify list) list \<times> notify list" where
  "release_scan until = (\<lambda>(waiters, notified).
     (fold AList.delete (map fst (filter (\<lambda>w. fst w \<le> until) waiters)) waiters,
      notified @ concat (map snd (filter (\<lambda>w. fst w \<le> until) waiters))))"

definition process_one :: "u64 \<Rightarrow> bool \<Rightarrow> water_mark \<Rightarrow> water_mark outcome" where
  "process_one txn_ts dn wm =
     (let (heap1, pending1) = note_pending txn_ts dn (wm_min_heap wm) (wm_pending wm);
          done_until = wm_done_until wm
      in if \<not> done_until \<le> txn_ts then Inl Panic
         else let (heap2, pending2, until) = drain_heap heap1 pending1 done_until
         in if \<not> done_until \<le> until then Inl Panic
            else if unat until - unat done_until \<le> length (wm_waiters wm) then
              if done_until = - 1 then Inl Panic
              else let (ws, ns) = release_range done_until until (wm_waiters wm, wm_notified wm)
                   in Inr (wm\<lparr>wm_done_until := until, wm_min_heap := heap2,
                              wm_pending := pending2, wm_waiters := ws, wm_notified := ns\<rparr>)
            else let (ws, ns) = release_scan until (wm_waiters wm, wm_notified wm)
                 in Inr (wm\<lparr>wm_done_until := until, wm_min_heap := heap2,
                            wm_pending := pending2, wm_waiters := ws, wm_notified := ns\<rparr>))"

fun process_all :: "(u64 \<times> bool) list \<Rightarrow> water_mark \<Rightarrow> water_mark outcome" where
  "process_all [] wm = Inr wm"
| "process_all ((t, dn) # es) wm =
     (case process_one t dn wm of Inl e \<Rightarrow> Inl e | Inr wm' \<Rightarrow> process_all es wm')"

section \<open>Marks and the channel\<close>

text \<open>The events a mark without waiter stands for: its timestamp unless zero, then its indices.\<close>

definition mark_events :: "mark \<Rightarrow> (u64 \<times> bool) list" where
  "mark_events m =
     (if mk_txn_ts m > 0 then [(mk_txn_ts m, mk_done m)] else []) @
     map (\<lambda>i. (i, mk_done m)) (mk_indices m)"

definition process_mark :: "mark \<Rightarrow> water_mark \<Rightarrow> water_mark outcome" where
  "process_mark m wm =
     (case mk_waiter m of
        Some notify \<Rightarrow>
          Inr (if wm_done_until wm \<ge> mk_txn_ts m then wm\<lparr>wm_notified := wm_notified wm @ [notify]\<rparr>
               else wm\<lparr>wm_waiters := AList.update (mk_txn_ts m)
                 (case map_of (wm_waiters wm) (mk_txn_ts m) of
                    Some v \<Rightarrow> v @ [notify] | None \<Rightarrow> [notify]) (wm_waiters wm)\<rparr>)
      | None \<Rightarrow> process_all (mark_events m) wm)"

text \<open>The receiving loop takes one mark; when it panics the receiver is dropped.\<close>

definition process_next :: "water_mark \<Rightarrow> water_mark" where
  "process_next wm =
     (case wm_chan wm of
        [] \<Rightarrow> wm
      | m # ms \<Rightarrow> (case process_mark m (wm\<lparr>wm_chan := ms\<rparr>) of
                    Inr wm' \<Rightarrow> wm'
                  | Inl _ \<Rightarrow> wm\<lparr>wm_chan := [], wm_open := False\<rparr>))"

definition wm_send :: "mark \<Rightarrow> water_mark \<Rightarrow> water_mark outcome" where
  "wm_send m wm = (if wm_open wm then Inr (wm\<lparr>wm_chan := wm_chan wm @ [m]\<rparr>)
                   else Inl (Anyhow ''channel closed''))"

definition wm_begin :: "u64 \<Rightarrow> water_mark \<Rightarrow> water_mark outcome" where
  "wm_begin txn_ts wm = wm_send (Mark_new txn_ts False) (wm\<lparr>wm_last_index := txn_ts\<rparr>)"

text \<open>\<open>None\<close> as first component: the caller returns at once; \<open>Some n\<close>: it waits for \<open>n\<close>.\<close>

definition wait_for_mark :: "u64 \<Rightarrow> notify \<Rightarrow> water_mark \<Rightarrow> (notify option \<times> water_mark) outcome" where
  "wait_for_mark read_ts wait wm =
     (if wm_done_until wm \<ge> read_ts then Inr (None, wm)
      else case wm_send \<lparr>mk_txn_ts = read_ts, mk_waiter = Some wait, mk_indices = [],
                         mk_done = False\<rparr> wm of
             Inl e \<Rightarrow> Inl e
           | Inr wm' \<Rightarrow> Inr (Some wait, wm'))"

section \<open>Facts on the loops\<close>

abbreviation blocked :: "(u64 \<Rightarrow> int option) \<Rightarrow> u64 \<Rightarrow> bool" where
  "blocked pending t \<equiv> (\<exists>d. pending t = Some d \<and> d < 0)"

lemma drain_heap_spec:
  assumes "distinct heap"
  shows "drain_heap heap pending until =
     (let popped = takeWhile (\<lambda>t. \<not> blocked pending t) heap
      in (dropWhile (\<lambda>t. \<not> blocked pending t) heap, pending |` (- set popped), last (until # popped)))"
  using assms
proof (induction heap arbitrary: pending until)
  case Nil
  show ?case by (simp add: Let_def restrict_map_def)
next
  case (Cons mn heap)
  let ?p = "pending(mn := None)"
  have cong: "takeWhile (\<lambda>t. \<not> blocked ?p t) heap = takeWhile (\<lambda>t. \<not> blocked pending t) heap"
    "dropWhile (\<lambda>t. \<not> blocked ?p t) heap = dropWhile (\<lambda>t. \<not> blocked pending t) heap"
    using Cons.prems by (auto intro!: takeWhile_cong dropWhile_cong)
  show ?case
  proof (cases "blocked pending mn")
    case True
    then show ?thesis by (auto simp: Let_def restrict_map_def)
  next
    case False
    then have "drain_heap (mn # heap) pending until = drain_heap heap ?p mn"
      by (auto split: option.splits)
    also have "\<dots> = (let popped = takeWhile (\<lambda>t. \<not> blocked ?p t) heap
      in (dropWhile (\<lambda>t. \<not> blocked ?p t) heap, ?p |` (- set popped), last (mn # popped)))"
      using Cons.prems by (intro Cons.IH) simp
    also note cong(1)
    also note cong(2)
    finally show ?thesis using False by (auto simp: Let_def restrict_map_def fun_eq_iff)
  qed
qed

lemma set_word_range:
  "set (map word_of_nat [unat a + 1 ..< unat b + 1]) = {w :: u64. a < w \<and> w \<le> b}"
proof (intro set_eqI iffI)
  fix w :: u64
  assume "w \<in> set (map word_of_nat [unat a + 1 ..< unat b + 1])"
  then obtain n where n: "w = word_of_nat n" "unat a < n" "n \<le> unat b"
    unfolding set_map by (auto simp del: upt_Suc)
  then have "unat w = n" using unat_bound [of b] by (simp add: unat_of_nat take_bit_eq_mod)
  with n show "w \<in> {w. a < w \<and> w \<le> b}" by (simp add: word_less_nat_alt word_le_nat_alt)
next
  fix w :: u64
  assume "w \<in> {w. a < w \<and> w \<le> b}"
  then have "unat w \<in> set [unat a + 1 ..< unat b + 1]"
    by (auto simp: word_less_nat_alt word_le_nat_alt)
  moreover have "w = word_of_nat (unat w)" by simp
  ultimately show "w \<in> set (map word_of_nat [unat a + 1 ..< unat b + 1])"
    by (metis image_eqI set_map)
qed

lemma fold_delete_filter: "fold AList.delete ks al = filter (\<lambda>w. fst w \<notin> set ks) al"
  by (induction ks arbitrary: al) (auto simp: AList.delete_eq intro: filter_cong)

lemma release_range_fold:
  "distinct (map fst ws) \<Longrightarrow>
   fold (\<lambda>idx (waiters, notified).
             (AList.delete idx waiters,
              notified @ (case map_of waiters idx of Some ns \<Rightarrow> ns | None \<Rightarrow> []))) ks (ws, nt) = (ws', nt')
   \<Longrightarrow> ws' = filter (\<lambda>w. fst w \<notin> set ks) ws \<and>
       set nt' = set nt \<union> (\<Union>w \<in> {w \<in> set ws. fst w \<in> set ks}. set (snd w))"
proof (induction ks arbitrary: ws nt)
  case Nil
  then show ?case by auto
next
  case (Cons k ks)
  let ?n = "case map_of ws k of Some ns \<Rightarrow> ns | None \<Rightarrow> []"
  have d: "distinct (map fst (AList.delete k ws))"
    using Cons.prems(1) by (rule distinct_delete)
  have n: "set ?n = (\<Union>w \<in> {w \<in> set ws. fst w = k}. set (snd w))"
    using Cons.prems(1)
    by (force split: option.splits simp: map_of_eq_None_iff dest: map_of_SomeD map_of_is_SomeI)
  have "ws' = filter (\<lambda>w. fst w \<notin> set ks) (AList.delete k ws) \<and>
       set nt' = set (nt @ ?n) \<union> (\<Union>w \<in> {w \<in> set (AList.delete k ws). fst w \<in> set ks}. set (snd w))"
    using Cons.IH [OF d, of "nt @ ?n"] Cons.prems(2) by simp
  then show ?case
    unfolding set_append n by (auto simp: AList.delete_eq intro: filter_cong)
qed

text \<open>Both ways release exactly the waiters at or below \<open>until\<close>.\<close>

lemma release_range_spec:
  assumes "distinct (map fst ws)" "\<forall>w \<in> set ws. d < fst w"
    and "release_range d u (ws, nt) = (ws', nt')"
  shows "ws' = filter (\<lambda>w. u < fst w) ws"
    and "set nt' = set nt \<union> (\<Union>w \<in> {w \<in> set ws. fst w \<le> u}. set (snd w))"
proof -
  note * = release_range_fold [OF assms(1) assms(3) [unfolded release_range_def]]
  show "ws' = filter (\<lambda>w. u < fst w) ws"
    using * assms(2) unfolding set_word_range by (auto intro!: filter_cong simp: not_le)
  show "set nt' = set nt \<union> (\<Union>w \<in> {w \<in> set ws. fst w \<le> u}. set (snd w))"
    using * assms(2) unfolding set_word_range by auto
qed

lemma release_scan_spec:
  assumes "release_scan u (ws, nt) = (ws', nt')"
  shows "ws' = filter (\<lambda>w. u < fst w) ws"
    and "set nt' = set nt \<union> (\<Union>w \<in> {w \<in> set ws. fst w \<le> u}. set (snd w))"
proof -
  have eqs: "ws' = filter (\<lambda>w. fst w \<notin> fst ` {w \<in> set ws. fst w \<le> u}) ws"
      "nt' = nt @ concat (map snd (filter (\<lambda>w. fst w \<le> u) ws))"
    using assms by (auto simp: release_scan_def fold_delete_filter)
  show "ws' = filter (\<lambda>w. u < fst w) ws"
    unfolding eqs(1) by (rule filter_cong) (auto simp: not_le)
  show "set nt' = set nt \<union> (\<Union>w \<in> {w \<in> set ws. fst w \<le> u}. set (snd w))"
    unfolding eqs(2) by simp
qed

section \<open>The protocol of a client\<close>

text \<open>
  What the clients of a watermark send (as pairs of timestamp and done flag):
  timestamps begin in ascending order starting from the initial \<open>done_until\<close>,
  and a done mark follows a begin mark that is still open. The last timestamp
  of the type is never reached.
\<close>

definition opened :: "(u64 \<times> bool) list \<Rightarrow> u64 \<Rightarrow> int" where
  "opened es t = int (count_list es (t, False)) - int (count_list es (t, True))"

inductive protocol :: "u64 \<Rightarrow> (u64 \<times> bool) list \<Rightarrow> bool" for d where
  protocol_nil: "d \<noteq> - 1 \<Longrightarrow> protocol d []"
| protocol_begin: "protocol d es \<Longrightarrow> d \<le> t \<Longrightarrow> t \<noteq> - 1 \<Longrightarrow> \<forall>e \<in> set es. fst e \<le> t
    \<Longrightarrow> protocol d (es @ [(t, False)])"
| protocol_done: "protocol d es \<Longrightarrow> 0 < opened es t \<Longrightarrow> protocol d (es @ [(t, True)])"

inductive_cases protocol_snocE: "protocol d (es @ [e])"

lemma opened_nil [simp]: "opened [] t = 0"
  by (simp add: opened_def)

lemma opened_snoc [simp]:
  "opened (es @ [(s, False)]) t = opened es t + (if s = t then 1 else 0)"
  "opened (es @ [(s, True)]) t = opened es t - (if s = t then 1 else 0)"
  by (simp_all add: opened_def)

lemma opened_notin: "t \<notin> fst ` set es \<Longrightarrow> opened es t = 0"
  by (subgoal_tac "\<forall>b. (t, b) \<notin> set es") (auto simp: opened_def count_notin image_iff)

lemma opened_zero_done: "opened es t = 0 \<Longrightarrow> t \<in> fst ` set es \<Longrightarrow> (t, True) \<in> set es"
  using count_notin [of "(t, True)" es] count_list_0_iff [of es "(t, False)"]
  by (auto simp: opened_def) (metis (full_types))

lemma opened_once_not_done:
  "0 < opened es t \<Longrightarrow> count_list es (t, False) = 1 \<Longrightarrow> (t, True) \<notin> set es"
  using count_list_0_iff [of es "(t, True)"] by (auto simp: opened_def)

lemma protocol_prefix: "protocol d (xs @ ys) \<Longrightarrow> protocol d xs"
  by (induction ys rule: rev_induct) (auto elim: protocol_snocE simp flip: append_assoc)

text \<open>What the task's state says about the events processed so far.\<close>

definition wm_tracks :: "u64 \<Rightarrow> (u64 \<times> bool) list \<Rightarrow> water_mark \<Rightarrow> bool" where
  "wm_tracks d es wm \<longleftrightarrow>
     sorted (wm_min_heap wm) \<and> distinct (wm_min_heap wm) \<and>
     set (wm_min_heap wm) \<subseteq> fst ` set es \<and>
     (\<forall>t. wm_pending wm t = (if t \<in> set (wm_min_heap wm) then Some (- opened es t) else None)) \<and>
     (\<forall>t. 0 \<le> opened es t) \<and>
     (\<forall>t. t \<notin> set (wm_min_heap wm) \<longrightarrow> opened es t = 0) \<and>
     (wm_min_heap wm \<noteq> [] \<longrightarrow> 0 < opened es (hd (wm_min_heap wm))) \<and>
     (\<forall>t \<in> set (wm_min_heap wm). wm_done_until wm \<le> t) \<and>
     wm_done_until wm \<in> insert d (fst ` set es) \<and> d \<le> wm_done_until wm \<and>
     (wm_done_until wm = d \<or> (wm_done_until wm, True) \<in> set es) \<and>
     (\<forall>t \<in> fst ` set es. t \<le> wm_done_until wm \<or> t \<in> set (wm_min_heap wm))"

definition waiters_ok :: "water_mark \<Rightarrow> bool" where
  "waiters_ok wm \<longleftrightarrow> distinct (map fst (wm_waiters wm)) \<and>
     (\<forall>w \<in> set (wm_waiters wm). wm_done_until wm < fst w)"

lemma protocol_bound: "protocol d es \<Longrightarrow> t \<in> insert d (fst ` set es) \<Longrightarrow> t \<noteq> - 1"
proof (induction es rule: protocol.induct)
  case (protocol_done es s)
  then have "s \<in> fst ` set es" using opened_notin [of s es] by force
  with protocol_done show ?case by auto
qed auto

lemma tracks_new: "wm_tracks d [] (WaterMark_new d)"
  by (simp add: wm_tracks_def WaterMark_new_def)

lemma waiters_ok_new: "waiters_ok (WaterMark_new d)"
  by (simp add: waiters_ok_def WaterMark_new_def)

lemma last_Cons_ge: "sorted xs \<Longrightarrow> \<forall>x \<in> set xs. a \<le> x \<Longrightarrow> a \<le> last (a # xs)"
  by (cases xs rule: rev_cases) auto

lemma process_one_ok:
  assumes np: "note_pending t dn (wm_min_heap wm) (wm_pending wm) = (h1, p1)"
    and h1: "sorted h1" "distinct h1" "\<forall>s \<in> set h1. wm_done_until wm \<le> s"
    and d: "wm_done_until wm \<le> t" "wm_done_until wm \<noteq> - 1"
    and ws: "waiters_ok wm"
    and popped: "popped = takeWhile (\<lambda>t. \<not> blocked p1 t) h1"
    and u: "u = last (wm_done_until wm # popped)"
  shows "\<exists>wm'. process_one t dn wm = Inr wm' \<and> wm_done_until wm' = u \<and>
     wm_min_heap wm' = dropWhile (\<lambda>t. \<not> blocked p1 t) h1 \<and> wm_pending wm' = p1 |` (- set popped) \<and>
     wm_waiters wm' = filter (\<lambda>w. u < fst w) (wm_waiters wm) \<and> wm_chan wm' = wm_chan wm \<and>
     wm_open wm' = wm_open wm \<and>
     set (wm_notified wm') =
       set (wm_notified wm) \<union> (\<Union>w \<in> {w \<in> set (wm_waiters wm). fst w \<le> u}. set (snd w))"
proof -
  have sub: "set popped \<subseteq> set h1" unfolding popped by (auto dest: set_takeWhileD)
  have "sorted popped" unfolding popped using h1(1) by (rule sorted_takeWhile)
  with sub h1(3) have le: "wm_done_until wm \<le> u" unfolding u by (intro last_Cons_ge) auto
  have dr: "drain_heap h1 p1 (wm_done_until wm) =
      (dropWhile (\<lambda>t. \<not> blocked p1 t) h1, p1 |` (- set popped), u)"
    unfolding u popped drain_heap_spec [OF h1(2)] Let_def ..
  obtain ws1 ns1 where r1: "release_range (wm_done_until wm) u (wm_waiters wm, wm_notified wm) = (ws1, ns1)"
    by fastforce
  obtain ws2 ns2 where r2: "release_scan u (wm_waiters wm, wm_notified wm) = (ws2, ns2)"
    by fastforce
  note s1 = release_range_spec [OF _ _ r1] and s2 = release_scan_spec [OF r2]
  from d ws le show ?thesis
    by (simp add: process_one_def waiters_ok_def np dr r1 r2 s1 s2 Let_def)
qed

lemma sorted_hd_le: "sorted xs \<Longrightarrow> x \<in> set xs \<Longrightarrow> hd xs \<le> x"
  by (cases xs) auto

text \<open>The first half of an event: the heap and the counts take it in.\<close>

lemma note_pending_tracks:
  assumes tr: "wm_tracks d es wm"
    and np: "note_pending t dn (wm_min_heap wm) (wm_pending wm) = (h1, p1)"
    and le: "wm_done_until wm \<le> t"
  shows "sorted h1" "distinct h1" "set h1 = insert t (set (wm_min_heap wm))"
    "\<forall>s \<in> set h1. wm_done_until wm \<le> s"
    "p1 = (\<lambda>s. if s \<in> set h1 then Some (- opened (es @ [(t, dn)]) s) else None)"
    "\<forall>s. s \<notin> set h1 \<longrightarrow> opened (es @ [(t, dn)]) s = 0"
proof -
  let ?H = "wm_min_heap wm" and ?es = "es @ [(t, dn)]"
  have H: "sorted ?H" "distinct ?H" "\<forall>s \<in> set ?H. wm_done_until wm \<le> s"
    and p: "wm_pending wm s = (if s \<in> set ?H then Some (- opened es s) else None)"
    and z: "s \<notin> set ?H \<Longrightarrow> opened es s = 0" for s
    using tr unfolding wm_tracks_def by blast+
  have op: "opened ?es s = opened es s + (if s = t then if dn then - 1 else 1 else 0)" for s
    by (cases dn) auto
  have h1: "h1 = (if t \<in> set ?H then ?H else insort t ?H)"
    and p1: "p1 = (wm_pending wm)(t \<mapsto> - opened ?es t)"
    using np by (auto simp: note_pending_def p z op split: if_splits)
  show S: "set h1 = insert t (set ?H)" by (auto simp: h1 set_insort_key)
  show "sorted h1" "distinct h1" using H by (auto simp: h1 sorted_insort distinct_insort)
  show "\<forall>s \<in> set h1. wm_done_until wm \<le> s" using H le by (simp add: S)
  show "p1 = (\<lambda>s. if s \<in> set h1 then Some (- opened ?es s) else None)"
    by (auto simp: p1 p S op)
  show "\<forall>s. s \<notin> set h1 \<longrightarrow> opened ?es s = 0" by (simp add: S op z)
qed

lemma protocol_step_le:
  assumes "wm_tracks d es wm" "protocol d (es @ [(t, dn)])"
  shows "wm_done_until wm \<le> t" "wm_done_until wm \<noteq> - 1" "\<forall>s. 0 \<le> opened (es @ [(t, dn)]) s"
proof -
  have du: "wm_done_until wm \<in> insert d (fst ` set es)" and nn: "\<forall>s. 0 \<le> opened es s"
    and z: "s \<notin> set (wm_min_heap wm) \<Longrightarrow> opened es s = 0"
    and le: "\<forall>s \<in> set (wm_min_heap wm). wm_done_until wm \<le> s" for s
    using assms(1) unfolding wm_tracks_def by blast+
  have "0 < opened es t \<Longrightarrow> wm_done_until wm \<le> t" using z [of t] le by fastforce
  with assms(2) du show "wm_done_until wm \<le> t"
    by (auto elim!: protocol_snocE)
  show "wm_done_until wm \<noteq> - 1"
    using protocol_bound [OF protocol_prefix [OF assms(2)] du] .
  from assms(2) show "\<forall>s. 0 \<le> opened (es @ [(t, dn)]) s"
    using nn by (auto elim!: protocol_snocE)
qed

lemma hd_dropWhile_blocked:
  "dropWhile (\<lambda>t. \<not> P t) xs \<noteq> [] \<Longrightarrow> P (hd (dropWhile (\<lambda>t. \<not> P t) xs))"
  using hd_dropWhile by blast

lemma process_one_tracks:
  assumes tr: "wm_tracks d es wm" and ws: "waiters_ok wm" and pr: "protocol d (es @ [(t, dn)])"
  shows "\<exists>wm'. process_one t dn wm = Inr wm' \<and> wm_tracks d (es @ [(t, dn)]) wm' \<and>
     waiters_ok wm' \<and> wm_done_until wm \<le> wm_done_until wm' \<and> wm_chan wm' = wm_chan wm \<and>
     wm_open wm' = wm_open wm \<and>
     wm_waiters wm' = filter (\<lambda>w. wm_done_until wm' < fst w) (wm_waiters wm) \<and>
     set (wm_notified wm') = set (wm_notified wm) \<union>
       (\<Union>w \<in> {w \<in> set (wm_waiters wm). fst w \<le> wm_done_until wm'}. set (snd w))"
proof -
  let ?es = "es @ [(t, dn)]" and ?d = "wm_done_until wm"
  obtain h1 p1 where np: "note_pending t dn (wm_min_heap wm) (wm_pending wm) = (h1, p1)"
    by fastforce
  note le = protocol_step_le [OF tr pr]
  note h1 = note_pending_tracks [OF tr np le(1)]
  define P where "P = (\<lambda>t. blocked p1 t)"
  define popped where "popped = takeWhile (\<lambda>t. \<not> P t) h1"
  define rest where "rest = dropWhile (\<lambda>t. \<not> P t) h1"
  define u where "u = last (?d # popped)"
  have P: "P s \<longleftrightarrow> s \<in> set h1 \<and> 0 < opened ?es s" for s by (auto simp: P_def h1(5))
  have split: "h1 = popped @ rest" by (simp add: popped_def rest_def)
  have pz: "\<forall>s \<in> set popped. \<not> P s" by (auto simp: popped_def dest: set_takeWhileD)
  have dp: "set popped \<inter> set rest = {}" "distinct rest" using h1(2) unfolding split by auto
  have srt: "sorted popped" "sorted rest" "\<forall>x \<in> set popped. \<forall>y \<in> set rest. x \<le> y"
    using h1(1) unfolding split by (auto simp: sorted_append)
  have u1: "?d \<le> u" unfolding u_def using srt h1(4) split by (intro last_Cons_ge) auto
  have u2: "\<forall>s \<in> set popped. s \<le> u"
    using srt(1) unfolding u_def by (cases popped rule: rev_cases) (auto simp: sorted_append)
  have u3: "\<forall>s \<in> set rest. u \<le> s" unfolding u_def using srt(3) h1(4) split by auto
  have u4: "u \<in> insert ?d (set popped)" unfolding u_def by simp
  obtain wm' where wm': "process_one t dn wm = Inr wm'" "wm_done_until wm' = u"
      "wm_min_heap wm' = rest" "wm_pending wm' = p1 |` (- set popped)"
      "wm_waiters wm' = filter (\<lambda>w. u < fst w) (wm_waiters wm)" "wm_chan wm' = wm_chan wm"
      "wm_open wm' = wm_open wm" "set (wm_notified wm') =
       set (wm_notified wm) \<union> (\<Union>w \<in> {w \<in> set (wm_waiters wm). fst w \<le> u}. set (snd w))"
    using process_one_ok [OF np h1(1,2,4) le(1,2) ws popped_def [unfolded P_def] u_def]
    unfolding rest_def P_def by blast
  have "wm_tracks d ?es wm'"
    unfolding wm_tracks_def wm'
  proof (intro conjI)
    show "sorted rest" "distinct rest" "\<forall>t \<in> set rest. u \<le> t" by fact+
    show "\<forall>s. 0 \<le> opened ?es s" by (rule le(3))
    show "\<forall>s. (p1 |` (- set popped)) s = (if s \<in> set rest then Some (- opened ?es s) else None)"
      using dp by (auto simp: h1(5) restrict_map_def split)
    show "\<forall>s. s \<notin> set rest \<longrightarrow> opened ?es s = 0"
      using h1(6) pz le(3) unfolding P split by (metis Un_iff order_le_imp_less_or_eq set_append)
    show "rest \<noteq> [] \<longrightarrow> 0 < opened ?es (hd rest)"
      using hd_dropWhile_blocked [of P h1] unfolding rest_def P by blast
    have old: "set (wm_min_heap wm) \<subseteq> fst ` set es" "?d \<in> insert d (fst ` set es)" "d \<le> ?d"
        "\<forall>t \<in> fst ` set es. t \<le> ?d \<or> t \<in> set (wm_min_heap wm)"
      using tr unfolding wm_tracks_def by blast+
    have h1s: "set h1 = insert t (set (wm_min_heap wm))" by fact
    show "set rest \<subseteq> fst ` set ?es" using h1s old(1) by (auto simp: split)
    show "u \<in> insert d (fst ` set ?es)" using u4 h1s old(1,2) by (auto simp: split)
    show "d \<le> u" using u1 old(3) by simp
    have "(s, True) \<in> set ?es" if s: "s \<in> set popped" for s
    proof (rule opened_zero_done)
      have "s \<in> set h1" using s by (simp add: split)
      then show "opened ?es s = 0" "s \<in> fst ` set ?es"
        using pz P [of s] s le(3) h1s old(1) by (auto simp: order_le_less)
    qed
    moreover have "?d = d \<or> (?d, True) \<in> set es"
      using tr unfolding wm_tracks_def by blast
    ultimately show "u = d \<or> (u, True) \<in> set ?es" using u4 by auto
    show "\<forall>t \<in> fst ` set ?es. t \<le> u \<or> t \<in> set rest"
      using old(4) h1s u1 u2 unfolding split by (auto 4 3)
  qed
  moreover have "waiters_ok wm'"
    using ws by (auto simp: waiters_ok_def wm' distinct_map_filter)
  ultimately show ?thesis using wm' u1 by auto
qed

section \<open>Runs of the task\<close>

definition sent_events :: "mark list \<Rightarrow> (u64 \<times> bool) list" where
  "sent_events ms = concat (map (\<lambda>m. if mk_waiter m = None then mark_events m else []) ms)"

definition registered :: "mark list \<Rightarrow> (u64 \<times> notify) set" where
  "registered ms = (\<Union>m \<in> set ms. case mk_waiter m of Some n \<Rightarrow> {(mk_txn_ts m, n)} | None \<Rightarrow> {})"

fun run_marks :: "mark list \<Rightarrow> water_mark \<Rightarrow> water_mark outcome" where
  "run_marks [] wm = Inr wm"
| "run_marks (m # ms) wm =
     (case process_mark m wm of Inl e \<Rightarrow> Inl e | Inr wm' \<Rightarrow> run_marks ms wm')"

text \<open>Who has been notified, against the waiters registered so far.\<close>

definition waiters_served :: "(u64 \<times> notify) set \<Rightarrow> water_mark \<Rightarrow> bool" where
  "waiters_served R wm \<longleftrightarrow>
     (\<forall>t n. (t, n) \<in> R \<longrightarrow> t \<le> wm_done_until wm \<longrightarrow> n \<in> set (wm_notified wm)) \<and>
     (\<forall>t n. (t, n) \<in> R \<longrightarrow> \<not> t \<le> wm_done_until wm \<longrightarrow>
        (\<exists>ns. (t, ns) \<in> set (wm_waiters wm) \<and> n \<in> set ns)) \<and>
     (\<forall>n \<in> set (wm_notified wm). \<exists>t \<le> wm_done_until wm. (t, n) \<in> R) \<and>
     (\<forall>t ns n. (t, ns) \<in> set (wm_waiters wm) \<longrightarrow> n \<in> set ns \<longrightarrow> (t, n) \<in> R)"

definition wm_inv :: "u64 \<Rightarrow> (u64 \<times> bool) list \<Rightarrow> (u64 \<times> notify) set \<Rightarrow> water_mark \<Rightarrow> bool" where
  "wm_inv d es R wm \<longleftrightarrow> wm_tracks d es wm \<and> waiters_ok wm \<and> waiters_served R wm"

lemma wm_inv_new: "wm_inv d [] {} (WaterMark_new d)"
  using tracks_new waiters_ok_new by (simp add: wm_inv_def waiters_served_def WaterMark_new_def)

lemma release_served:
  assumes R: "waiters_served R wm" and le: "wm_done_until wm \<le> wm_done_until wm'"
    and ws: "wm_waiters wm' = filter (\<lambda>w. wm_done_until wm' < fst w) (wm_waiters wm)"
    and nt: "set (wm_notified wm') = set (wm_notified wm) \<union>
       (\<Union>w \<in> {w \<in> set (wm_waiters wm). fst w \<le> wm_done_until wm'}. set (snd w))"
  shows "waiters_served R wm'"
proof -
  have R1: "(t, n) \<in> R \<Longrightarrow> t \<le> wm_done_until wm \<Longrightarrow> n \<in> set (wm_notified wm)"
    and R2: "(t, n) \<in> R \<Longrightarrow> \<not> t \<le> wm_done_until wm \<Longrightarrow>
        \<exists>ns. (t, ns) \<in> set (wm_waiters wm) \<and> n \<in> set ns"
    and R3: "n \<in> set (wm_notified wm) \<Longrightarrow> \<exists>t \<le> wm_done_until wm. (t, n) \<in> R"
    and R4: "(t, ns) \<in> set (wm_waiters wm) \<Longrightarrow> n \<in> set ns \<Longrightarrow> (t, n) \<in> R" for t n ns
    using R unfolding waiters_served_def by blast+
  have "n \<in> set (wm_notified wm')" if "(t, n) \<in> R" "t \<le> wm_done_until wm'" for t n
    using R1 [OF that(1)] R2 [OF that(1)] that(2) unfolding nt
    by (cases "t \<le> wm_done_until wm") (auto intro!: bexI)
  moreover have "\<exists>ns. (t, ns) \<in> set (wm_waiters wm') \<and> n \<in> set ns"
    if "(t, n) \<in> R" "\<not> t \<le> wm_done_until wm'" for t n
    using R2 [OF that(1)] that(2) le unfolding ws by (auto simp: not_le)
  moreover have "\<exists>t \<le> wm_done_until wm'. (t, n) \<in> R" if "n \<in> set (wm_notified wm')" for n
    using that R3 [of n] R4 le unfolding nt by (auto intro: order_trans)
  moreover have "(t, n) \<in> R" if "(t, ns) \<in> set (wm_waiters wm')" "n \<in> set ns" for t ns n
    using that R4 unfolding ws by auto
  ultimately show ?thesis unfolding waiters_served_def by blast
qed

lemma process_one_inv:
  assumes "wm_inv d es R wm" "protocol d (es @ [(t, dn)])"
  shows "\<exists>wm'. process_one t dn wm = Inr wm' \<and> wm_inv d (es @ [(t, dn)]) R wm' \<and>
     wm_done_until wm \<le> wm_done_until wm' \<and> wm_chan wm' = wm_chan wm \<and> wm_open wm' = wm_open wm"
proof -
  from assms(1) have inv: "wm_tracks d es wm" "waiters_ok wm" "waiters_served R wm"
    by (auto simp: wm_inv_def)
  obtain wm' where wm': "process_one t dn wm = Inr wm'" "wm_tracks d (es @ [(t, dn)]) wm'"
      "waiters_ok wm'" "wm_done_until wm \<le> wm_done_until wm'" "wm_chan wm' = wm_chan wm"
      "wm_open wm' = wm_open wm"
      "wm_waiters wm' = filter (\<lambda>w. wm_done_until wm' < fst w) (wm_waiters wm)"
      "set (wm_notified wm') = set (wm_notified wm) \<union>
       (\<Union>w \<in> {w \<in> set (wm_waiters wm). fst w \<le> wm_done_until wm'}. set (snd w))"
    using process_one_tracks [OF inv(1,2) assms(2)] by blast
  have "waiters_served R wm'"
    by (rule release_served [OF inv(3) wm'(4,7,8)])
  with wm' show ?thesis by (auto simp: wm_inv_def)
qed

lemma process_all_inv:
  assumes "wm_inv d es R wm" "protocol d (es @ evs)"
  shows "\<exists>wm'. process_all evs wm = Inr wm' \<and> wm_inv d (es @ evs) R wm' \<and>
     wm_done_until wm \<le> wm_done_until wm' \<and> wm_chan wm' = wm_chan wm \<and> wm_open wm' = wm_open wm"
  using assms
proof (induction evs arbitrary: es wm)
  case Nil
  then show ?case by simp
next
  case (Cons e evs)
  obtain t dn where e: "e = (t, dn)" by fastforce
  have "protocol d (es @ [(t, dn)])"
    using Cons.prems(2) protocol_prefix [of d "es @ [e]" evs] by (simp add: e)
  from process_one_inv [OF Cons.prems(1) this] obtain wm1 where
    "process_one t dn wm = Inr wm1" "wm_inv d (es @ [(t, dn)]) R wm1"
    "wm_done_until wm \<le> wm_done_until wm1" "wm_chan wm1 = wm_chan wm" "wm_open wm1 = wm_open wm"
    by blast
  with Cons.IH [of "es @ [e]" wm1] Cons.prems(2) show ?case by (fastforce simp: e)
qed

lemma set_alist_update:
  "distinct (map fst al) \<Longrightarrow> set (AList.update k v al) = insert (k, v) {w \<in> set al. fst w \<noteq> k}"
  by (induction al) (auto simp: image_iff)

lemma register_served:
  assumes R: "waiters_served R wm" and ok: "waiters_ok wm" and t: "\<not> t \<le> wm_done_until wm"
    and R': "R' = insert (t, n) R"
    and v: "v = (case map_of (wm_waiters wm) t of Some v \<Rightarrow> v @ [n] | None \<Rightarrow> [n])"
  shows "waiters_served R' (wm\<lparr>wm_waiters := AList.update t v (wm_waiters wm)\<rparr>)"
proof -
  have d: "distinct (map fst (wm_waiters wm))" using ok by (simp add: waiters_ok_def)
  have sv: "set v = insert n {m. \<exists>ns. (t, ns) \<in> set (wm_waiters wm) \<and> m \<in> set ns}"
    unfolding v using d
    by (auto split: option.splits simp: map_of_eq_None_iff image_iff dest: map_of_SomeD)
      (use map_of_is_SomeI in fastforce)+
  show ?thesis
    using R t unfolding waiters_served_def R'
    by (auto simp: set_alist_update [OF d] sv)
      (metis (mono_tags, lifting) insertI2 mem_Collect_eq sv)
qed

lemma process_mark_inv:
  assumes "wm_inv d es R wm" "protocol d (es @ sent_events [m])"
  shows "\<exists>wm'. process_mark m wm = Inr wm' \<and>
     wm_inv d (es @ sent_events [m]) (R \<union> registered [m]) wm' \<and>
     wm_done_until wm \<le> wm_done_until wm' \<and> wm_chan wm' = wm_chan wm \<and> wm_open wm' = wm_open wm"
proof (cases "mk_waiter m")
  case None
  with process_all_inv [OF assms] show ?thesis
    by (simp add: process_mark_def sent_events_def registered_def)
next
  case (Some n)
  show ?thesis
  proof (cases "mk_txn_ts m \<le> wm_done_until wm")
    case True
    with Some assms(1) show ?thesis
      by (auto simp: process_mark_def sent_events_def registered_def wm_inv_def wm_tracks_def
          waiters_ok_def waiters_served_def)
  next
    case False
    let ?v = "case map_of (wm_waiters wm) (mk_txn_ts m) of Some v \<Rightarrow> v @ [n] | None \<Rightarrow> [n]"
    let ?wm = "wm\<lparr>wm_waiters := AList.update (mk_txn_ts m) ?v (wm_waiters wm)\<rparr>"
    have "process_mark m wm = Inr ?wm" using False Some by (simp add: process_mark_def)
    moreover have "wm_tracks d es ?wm" using assms(1) by (simp add: wm_inv_def wm_tracks_def)
    moreover have "waiters_ok ?wm"
      using assms(1) False
      by (auto simp: wm_inv_def waiters_ok_def set_alist_update distinct_update)
    moreover have "waiters_served (R \<union> registered [m]) ?wm"
      by (rule register_served) (use assms(1) False Some in \<open>auto simp: wm_inv_def registered_def\<close>)
    ultimately show ?thesis using Some by (auto simp: wm_inv_def sent_events_def)
  qed
qed

lemma sent_events_append [simp]: "sent_events (xs @ ys) = sent_events xs @ sent_events ys"
  by (simp add: sent_events_def)

lemma registered_append: "registered (xs @ ys) = registered xs \<union> registered ys"
  by (auto simp: registered_def)

lemma run_marks_inv:
  assumes "wm_inv d es R wm" "protocol d (es @ sent_events ms)"
  shows "\<exists>wm'. run_marks ms wm = Inr wm' \<and> wm_inv d (es @ sent_events ms) (R \<union> registered ms) wm' \<and>
     wm_done_until wm \<le> wm_done_until wm'"
  using assms
proof (induction ms arbitrary: es R wm)
  case Nil
  then show ?case by (simp add: sent_events_def registered_def)
next
  case (Cons m ms)
  have split: "sent_events (m # ms) = sent_events [m] @ sent_events ms"
      "registered (m # ms) = registered [m] \<union> registered ms"
    using sent_events_append [of "[m]" ms] registered_append [of "[m]" ms] by simp_all
  have "protocol d (es @ sent_events [m])"
    using Cons.prems(2) protocol_prefix [of d "es @ sent_events [m]"] by (simp add: split)
  from process_mark_inv [OF Cons.prems(1) this] obtain wm1 where
    1: "process_mark m wm = Inr wm1" "wm_inv d (es @ sent_events [m]) (R \<union> registered [m]) wm1"
      "wm_done_until wm \<le> wm_done_until wm1" by blast
  from Cons.IH [OF 1(2)] Cons.prems(2) 1 show ?case
    by (fastforce simp: split Un_assoc)
qed

lemma wm_inv_facts:
  assumes "wm_inv d es R wm"
  shows wm_inv_open_ge: "0 < opened es t \<Longrightarrow> wm_done_until wm \<le> t"
    and wm_inv_once: "0 < opened es t \<Longrightarrow> count_list es (t, False) = 1 \<Longrightarrow> t \<noteq> d \<Longrightarrow> wm_done_until wm < t"
    and wm_inv_start: "d \<le> wm_done_until wm"
    and wm_inv_range: "wm_done_until wm \<in> insert d (fst ` set es)"
    and wm_inv_idle: "\<forall>t. opened es t = 0 \<Longrightarrow> s \<in> fst ` set es \<Longrightarrow> s \<le> wm_done_until wm"
proof -
  have z: "s \<notin> set (wm_min_heap wm) \<Longrightarrow> opened es s = 0"
    and le: "\<forall>s \<in> set (wm_min_heap wm). wm_done_until wm \<le> s"
    and dn: "wm_done_until wm = d \<or> (wm_done_until wm, True) \<in> set es"
    and hd: "wm_min_heap wm \<noteq> [] \<longrightarrow> 0 < opened es (hd (wm_min_heap wm))"
    and all: "\<forall>t \<in> fst ` set es. t \<le> wm_done_until wm \<or> t \<in> set (wm_min_heap wm)" for s
    using assms unfolding wm_inv_def wm_tracks_def by blast+
  show ge: "0 < opened es t \<Longrightarrow> wm_done_until wm \<le> t" for t using z [of t] le by fastforce
  show "0 < opened es t \<Longrightarrow> count_list es (t, False) = 1 \<Longrightarrow> t \<noteq> d \<Longrightarrow> wm_done_until wm < t"
    using ge [of t] opened_once_not_done [of es t] dn by (metis order_le_less)
  show "d \<le> wm_done_until wm" "wm_done_until wm \<in> insert d (fst ` set es)"
    using assms unfolding wm_inv_def wm_tracks_def by blast+
  show "\<forall>t. opened es t = 0 \<Longrightarrow> s \<in> fst ` set es \<Longrightarrow> s \<le> wm_done_until wm"
    using hd all by force
qed

section \<open>The watermark as a service\<close>

text \<open>
  What a client relies on: \<open>sound d S w\<close> says that \<open>w\<close> was started at \<open>d\<close> and that
  \<open>S\<close> are the marks sent to it so far, processed or still queued.
\<close>

locale watermark_service =
  fixes sound :: "u64 \<Rightarrow> mark list \<Rightarrow> 'w \<Rightarrow> bool"
    and start :: "u64 \<Rightarrow> 'w"
    and send :: "mark \<Rightarrow> 'w \<Rightarrow> 'w outcome"
    and step :: "'w \<Rightarrow> 'w"
    and until :: "'w \<Rightarrow> u64"
    and notified :: "'w \<Rightarrow> notify set"
    and idle :: "'w \<Rightarrow> bool"
  assumes sound_start: "d \<noteq> - 1 \<Longrightarrow> sound d [] (start d)"
    and sound_send: "sound d S w \<Longrightarrow> protocol d (sent_events (S @ [m])) \<Longrightarrow>
      \<exists>w'. send m w = Inr w' \<and> sound d (S @ [m]) w' \<and> until w' = until w"
    and sound_step: "sound d S w \<Longrightarrow> sound d S (step w) \<and> until w \<le> until (step w)"
    and sound_protocol: "sound d S w \<Longrightarrow> protocol d (sent_events S)"
    and until_open: "sound d S w \<Longrightarrow> 0 < opened (sent_events S) t \<Longrightarrow> until w \<le> t"
    and until_once: "sound d S w \<Longrightarrow> 0 < opened (sent_events S) t \<Longrightarrow>
      count_list (sent_events S) (t, False) \<le> 1 \<Longrightarrow> t \<noteq> d \<Longrightarrow> until w < t"
    and until_range: "sound d S w \<Longrightarrow> until w \<in> insert d (fst ` set (sent_events S))"
    and until_idle: "sound d S w \<Longrightarrow> idle w \<Longrightarrow> \<forall>t. opened (sent_events S) t = 0 \<Longrightarrow>
      s \<in> insert d (fst ` set (sent_events S)) \<Longrightarrow> s \<le> until w"
    and notified_until: "sound d S w \<Longrightarrow> n \<in> notified w \<Longrightarrow> \<exists>t \<le> until w. (t, n) \<in> registered S"
    and idle_notified: "sound d S w \<Longrightarrow> idle w \<Longrightarrow> (t, n) \<in> registered S \<Longrightarrow> t \<le> until w \<Longrightarrow>
      n \<in> notified w"
begin

lemma send_begin:
  assumes "sound d S w" "d \<le> t" "t \<noteq> - 1" "\<forall>e \<in> set (sent_events S). fst e \<le> t"
  shows "\<exists>w'. send (Mark_new t False) w = Inr w' \<and> sound d (S @ [Mark_new t False]) w' \<and> until w' = until w"
proof (rule sound_send [OF assms(1)])
  show "protocol d (sent_events (S @ [Mark_new t False]))"
    using protocol_begin [OF sound_protocol [OF assms(1)] assms(2,3,4)] sound_protocol [OF assms(1)]
    by (auto simp: sent_events_def mark_events_def Mark_new_def)
qed

lemma send_done:
  assumes "sound d S w" "0 < t \<Longrightarrow> 0 < opened (sent_events S) t"
  shows "\<exists>w'. send (Mark_new t True) w = Inr w' \<and> sound d (S @ [Mark_new t True]) w' \<and> until w' = until w"
proof (rule sound_send [OF assms(1)])
  show "protocol d (sent_events (S @ [Mark_new t True]))"
    using protocol_done [OF sound_protocol [OF assms(1)]] assms(2) sound_protocol [OF assms(1)]
    by (auto simp: sent_events_def mark_events_def Mark_new_def)
qed

lemma send_waiter:
  assumes "sound d S w" "mk_waiter m = Some n"
  shows "\<exists>w'. send m w = Inr w' \<and> sound d (S @ [m]) w' \<and> until w' = until w"
  using sound_send [OF assms(1), of m] sound_protocol [OF assms(1)] assms(2)
  by (simp add: sent_events_def)

lemma until_start: "sound d S w \<Longrightarrow> u \<in> fst ` set (sent_events S) \<Longrightarrow> u \<noteq> - 1"
  using sound_protocol protocol_bound by blast

end

definition wm_sound :: "u64 \<Rightarrow> mark list \<Rightarrow> water_mark \<Rightarrow> bool" where
  "wm_sound d S wm \<longleftrightarrow> wm_open wm \<and> protocol d (sent_events S) \<and>
     (\<exists>ps. S = ps @ wm_chan wm \<and> wm_inv d (sent_events ps) (registered ps) wm)"

lemma wm_inv_chan [simp]: "wm_inv d es R (wm\<lparr>wm_chan := c\<rparr>) = wm_inv d es R wm"
    "wm_inv d es R (wm\<lparr>wm_last_index := i\<rparr>) = wm_inv d es R wm"
  by (simp_all add: wm_inv_def wm_tracks_def waiters_ok_def waiters_served_def)

lemma wm_sound_last_index [simp]: "wm_sound d S (wm\<lparr>wm_last_index := i\<rparr>) = wm_sound d S wm"
  by (simp add: wm_sound_def)

lemma protocol_later:
  "protocol d (es @ fs) \<Longrightarrow> u \<in> insert d (fst ` set es) \<Longrightarrow> (t, False) \<in> set fs \<Longrightarrow> u \<le> t"
proof (induction fs rule: rev_induct)
  case (snoc f fs)
  from snoc.prems(1) have "protocol d ((es @ fs) @ [f])" by simp
  then show ?case
    by (rule protocol_snocE) (use snoc.IH snoc.prems(2,3) in auto)
qed simp

lemma wm_sound_step:
  assumes "wm_sound d S wm"
  shows "wm_sound d S (process_next wm) \<and> wm_done_until wm \<le> wm_done_until (process_next wm)"
proof (cases "wm_chan wm")
  case Nil
  with assms show ?thesis by (simp add: process_next_def)
next
  case (Cons m ms)
  from assms Cons obtain ps where ps: "S = ps @ m # ms" "wm_inv d (sent_events ps) (registered ps) wm"
    and pr: "protocol d (sent_events S)" and op: "wm_open wm" by (auto simp: wm_sound_def)
  have "sent_events S = (sent_events ps @ sent_events [m]) @ sent_events ms"
    using sent_events_append [of "ps @ [m]" ms] by (simp add: ps(1))
  then have pre: "protocol d (sent_events ps @ sent_events [m])"
    using pr protocol_prefix by metis
  from ps(2) have "wm_inv d (sent_events ps) (registered ps) (wm\<lparr>wm_chan := ms\<rparr>)" by simp
  from process_mark_inv [OF this pre] obtain wm' where
    wm': "process_mark m (wm\<lparr>wm_chan := ms\<rparr>) = Inr wm'"
      "wm_inv d (sent_events (ps @ [m])) (registered (ps @ [m])) wm'"
      "wm_done_until wm \<le> wm_done_until wm'" "wm_chan wm' = ms" "wm_open wm' = wm_open wm"
    by (auto simp: registered_append)
  then have "wm_sound d S wm'"
    using pr op ps(1) unfolding wm_sound_def by (auto intro!: exI [of _ "ps @ [m]"])
  with wm' Cons show ?thesis by (simp add: process_next_def)
qed

lemma wm_sound_until_open:
  assumes "wm_sound d S wm" "0 < opened (sent_events S) t"
  shows "wm_done_until wm \<le> t"
    and "count_list (sent_events S) (t, False) \<le> 1 \<Longrightarrow> t \<noteq> d \<Longrightarrow> wm_done_until wm < t"
proof -
  from assms(1) obtain ps where ps: "S = ps @ wm_chan wm"
    and inv: "wm_inv d (sent_events ps) (registered ps) wm"
    and pr: "protocol d (sent_events ps @ sent_events (wm_chan wm))"
    by (auto simp: wm_sound_def)
  let ?fs = "sent_events (wm_chan wm)"
  show le: "wm_done_until wm \<le> t"
  proof (cases "(t, False) \<in> set ?fs")
    case True
    with protocol_later [OF pr] wm_inv_range [OF inv] show ?thesis by blast
  next
    case False
    then have "0 < opened (sent_events ps) t"
      using assms(2) count_notin [OF False] by (simp add: opened_def ps)
    with wm_inv_open_ge [OF inv] show ?thesis .
  qed
  assume once: "count_list (sent_events S) (t, False) \<le> 1" and ne: "t \<noteq> d"
  have "(t, True) \<notin> set (sent_events S)"
    using opened_once_not_done [OF assms(2)] assms(2) once by (force simp: opened_def)
  then have "wm_done_until wm \<noteq> t"
    using inv ne unfolding wm_inv_def wm_tracks_def ps by auto
  with le show "wm_done_until wm < t" by simp
qed

interpretation wm: watermark_service wm_sound WaterMark_new wm_send process_next wm_done_until
  "\<lambda>w. set (wm_notified w)" "\<lambda>w. wm_chan w = []"
proof (unfold_locales, goal_cases)
  case (1 d)
  then show ?case
    using wm_inv_new [of d] protocol_nil [of d]
    by (simp add: wm_sound_def WaterMark_new_def sent_events_def registered_def)
next
  case (2 d S w m)
  then show ?case by (auto simp: wm_sound_def wm_send_def)
next
  case (3 d S w)
  then show ?case by (rule wm_sound_step)
next
  case (4 d S w)
  then show ?case by (simp add: wm_sound_def)
next
  case (5 d S w t)
  then show ?case by (rule wm_sound_until_open)
next
  case (6 d S w t)
  then show ?case by (rule wm_sound_until_open)
next
  case (7 d S w)
  then show ?case using wm_inv_range by (fastforce simp: wm_sound_def)
next
  case (8 d S w s)
  then show ?case using wm_inv_idle wm_inv_start by (fastforce simp: wm_sound_def)
next
  case (9 d S w n)
  then show ?case
    by (fastforce simp: wm_sound_def wm_inv_def waiters_served_def registered_append)
next
  case (10 d S w t n)
  then show ?case by (auto simp: wm_sound_def wm_inv_def waiters_served_def)
qed

section \<open>Properties\<close>

text \<open>
  C13: For every sequence of marks whose begin and done events follow the
  protocol, the task never panics; \<open>done_until\<close> never exceeds a timestamp that is
  still open, and stays strictly below it when the timestamp was begun once.
\<close>

theorem watermark_safe:
  assumes "protocol d (sent_events ms)"
  shows "\<exists>wm. run_marks ms (WaterMark_new d) = Inr wm \<and> d \<le> wm_done_until wm \<and>
     (\<forall>t. 0 < opened (sent_events ms) t \<longrightarrow> wm_done_until wm \<le> t) \<and>
     (\<forall>t. 0 < opened (sent_events ms) t \<longrightarrow> count_list (sent_events ms) (t, False) = 1 \<longrightarrow> t \<noteq> d
        \<longrightarrow> wm_done_until wm < t)"
  using run_marks_inv [OF wm_inv_new, of d ms] assms wm_inv_facts by fastforce

text \<open>
  C25: Progress of the watermark. When every begun timestamp has been marked done
  again, \<open>done_until\<close> is the largest of the initial value and the begun timestamps.
\<close>

theorem watermark_progress:
  assumes "protocol d (sent_events ms)" "\<forall>t. opened (sent_events ms) t = 0"
  shows "\<exists>wm. run_marks ms (WaterMark_new d) = Inr wm \<and>
     wm_done_until wm = Max (insert d (fst ` set (sent_events ms)))"
proof -
  obtain wm where wm: "run_marks ms (WaterMark_new d) = Inr wm" "wm_inv d (sent_events ms) (registered ms) wm"
    using run_marks_inv [OF wm_inv_new, of d ms] assms(1) by auto
  have "wm_done_until wm = Max (insert d (fst ` set (sent_events ms)))"
    using wm_inv_facts(3-5) [OF wm(2)] assms(2) by (intro Max_eqI [symmetric]) auto
  with wm(1) show ?thesis by blast
qed

text \<open>
  A waiter (each with an identifier of its own) has been notified exactly
  when \<open>done_until\<close> has reached the timestamp it waits for: no waiter is released
  early and none that can go on is forgotten.
\<close>

theorem waiter_notified_iff:
  assumes "protocol d (sent_events ms)" "inj_on snd (registered ms)"
    and "run_marks ms (WaterMark_new d) = Inr wm" "(t, n) \<in> registered ms"
  shows "n \<in> set (wm_notified wm) \<longleftrightarrow> t \<le> wm_done_until wm"
proof -
  have inv: "waiters_served (registered ms) wm"
    using run_marks_inv [OF wm_inv_new, of d ms] assms(1,3) by (auto simp: wm_inv_def)
  have uniq: "s = t" if "(s, n) \<in> registered ms" for s
    using inj_onD [OF assms(2) _ that assms(4)] by simp
  show ?thesis
    using inv assms(4) uniq unfolding waiters_served_def by blast
qed

definition demo_marks :: "mark list" where
  "demo_marks = [Mark_new 3 False, Mark_new 4 False,
     \<lparr>mk_txn_ts = 3, mk_waiter = Some 7, mk_indices = [], mk_done = False\<rparr>,
     \<lparr>mk_txn_ts = 4, mk_waiter = Some 8, mk_indices = [], mk_done = False\<rparr>, Mark_new 3 True]"

lemma demo_events: "sent_events demo_marks = [(3, False), (4, False), (3, True)]"
  by (simp add: demo_marks_def sent_events_def mark_events_def Mark_new_def)

lemma demo_events_done:
  "sent_events (demo_marks @ [Mark_new 4 True]) = [(3, False), (4, False), (3, True), (4, True)]"
  unfolding sent_events_append demo_events by (simp add: sent_events_def mark_events_def Mark_new_def)

lemma demo_protocol: "protocol 2 [(3, False), (4, False), (3, True)]"
    "protocol 2 [(3, False), (4, False), (3, True), (4, True)]"
proof -
  have *: "protocol 2 ((([] @ [(3, False)]) @ [(4, False)]) @ [(3, True)])"
    by (intro protocol.intros) (simp_all add: opened_def)
  have "protocol 2 (((([] @ [(3, False)]) @ [(4, False)]) @ [(3, True)]) @ [(4, True)])"
    by (intro protocol_done *) (simp add: opened_def)
  with * show "protocol 2 [(3, False), (4, False), (3, True)]"
    "protocol 2 [(3, False), (4, False), (3, True), (4, True)]" by simp_all
qed

lemma demo_registered: "registered demo_marks = {(3, 7), (4, 8)}"
  by (auto simp: registered_def demo_marks_def Mark_new_def)

theorem watermark_safe_witness:
  "\<exists>wm. run_marks demo_marks (WaterMark_new 2) = Inr wm \<and> wm_done_until wm < 4"
proof -
  have "0 < opened (sent_events demo_marks) 4" "count_list (sent_events demo_marks) (4, False) = 1"
    by (simp_all add: demo_events opened_def)
  with watermark_safe [of 2 demo_marks] show ?thesis
    by (auto simp: demo_events demo_protocol)
qed

theorem watermark_progress_witness:
  "\<exists>wm. run_marks (demo_marks @ [Mark_new 4 True]) (WaterMark_new 2) = Inr wm \<and> wm_done_until wm = 4"
  using watermark_progress [of 2 "demo_marks @ [Mark_new 4 True]", unfolded demo_events_done]
  by (simp add: demo_protocol opened_def)

theorem waiter_notified_iff_witness:
  "\<exists>wm. run_marks demo_marks (WaterMark_new 2) = Inr wm \<and> 7 \<in> set (wm_notified wm) \<and>
     8 \<notin> set (wm_notified wm)"
proof -
  let ?wm = "\<lparr>wm_done_until = 3, wm_last_index = 0, wm_chan = [], wm_open = True,
      wm_waiters = [(4, [8])], wm_min_heap = [4],
      wm_pending = [4 \<mapsto> - 1], wm_notified = [7]\<rparr>"
  have run: "run_marks demo_marks (WaterMark_new 2) = Inr ?wm"
    by (simp add: demo_marks_def WaterMark_new_def process_mark_def mark_events_def Mark_new_def
        process_one_def note_pending_def release_range_def Let_def fun_eq_iff)
  have "inj_on snd (registered demo_marks)" by (simp add: demo_registered)
  then have "7 \<in> set (wm_notified ?wm) \<longleftrightarrow> 3 \<le> wm_done_until ?wm"
      "8 \<in> set (wm_notified ?wm) \<longleftrightarrow> 4 \<le> wm_done_until ?wm"
    using waiter_notified_iff [of 2 demo_marks ?wm, OF _ _ run]
    by (simp_all add: demo_registered demo_events demo_protocol)
  with run show ?thesis by simp
qed

end
