(* ===== verification/Oracle.thy ===== *)
theory Oracle
  imports KV WaterMark
begin

text \<open>
  The timestamp oracle of \<open>src/src/txn/oracle.rs\<close>, with the parts of a
  transaction (\<open>src/src/txn/mod.rs\<close>) it looks at. The critical sections under
  \<open>OracleInner::inner\<close> are one function each; \<open>get_latest_read_ts\<close> is its locked
  part followed by the wait on the commit watermark. The second half of the
  theory puts the oracle among concurrently running transactions and the two
  watermark tasks, as a step relation, and shows by rule induction what every
  reachable state keeps.
\<close>

section \<open>State\<close>

record txn_config =
  tc_read_only :: bool
  tc_detect_conflicts :: bool
  tc_managed_txns :: bool

definition TxnConfig_default :: txn_config where
  "TxnConfig_default = \<lparr>tc_read_only = False, tc_detect_conflicts = True, tc_managed_txns = False\<rparr>"

record committed_txn =
  ct_ts :: u64
  ct_conflict_keys :: "u64 set"

record oracle_inner =
  o_next_txn_ts :: u64
  o_discard_ts :: u64
  o_last_cleanup_ts :: u64
  o_committed_txns :: "committed_txn list"
  o_read_mark :: water_mark
  o_txn_mark :: water_mark
  o_config :: txn_config

record txn =
  t_read_ts :: u64
  t_commit_ts :: u64
  t_size :: nat
  t_count :: nat
  t_config :: txn_config
  t_conflict_keys :: "u64 set option"
  t_read_key_hash :: "u64 list"
  t_pending_writes :: "(bytes \<times> entry) list option"
  t_duplicate_writes :: "entry list"
  t_num_iters :: int
  t_discarded :: bool
  t_done_read :: bool
  t_update :: bool

section \<open>Operations\<close>

definition OracleInner_new :: "txn_config \<Rightarrow> u64 \<Rightarrow> oracle_inner outcome" where
  "OracleInner_new config max_version =
     and_then (add_checked max_version 1) (\<lambda>next_ts.
       Inr \<lparr>o_next_txn_ts = next_ts, o_discard_ts = 0, o_last_cleanup_ts = 0, o_committed_txns = [],
            o_read_mark = WaterMark_new max_version, o_txn_mark = WaterMark_new max_version,
            o_config = config\<rparr>)"

definition discard_at_or_below :: "oracle_inner \<Rightarrow> u64" where
  "discard_at_or_below orc =
     (if tc_managed_txns (o_config orc) then o_discard_ts orc else wm_done_until (o_read_mark orc))"

text \<open>The part of \<open>get_latest_read_ts\<close> under the lock.\<close>

definition read_ts_locked :: "oracle_inner \<Rightarrow> (u64 \<times> oracle_inner) outcome" where
  "read_ts_locked orc =
     (if tc_managed_txns (o_config orc) then Inl Panic
      else and_then (sub_checked (o_next_txn_ts orc) 1) (\<lambda>read_ts.
           and_then (wm_begin read_ts (o_read_mark orc)) (\<lambda>rm.
           Inr (read_ts, orc\<lparr>o_read_mark := rm\<rparr>))))"

definition wait_read_ts :: "u64 \<Rightarrow> notify \<Rightarrow> oracle_inner \<Rightarrow> (notify option \<times> oracle_inner) outcome" where
  "wait_read_ts read_ts n orc =
     and_then (wait_for_mark read_ts n (o_txn_mark orc)) (\<lambda>(w, tm). Inr (w, orc\<lparr>o_txn_mark := tm\<rparr>))"

definition get_latest_read_ts :: "notify \<Rightarrow> oracle_inner \<Rightarrow> (u64 \<times> notify option \<times> oracle_inner) outcome" where
  "get_latest_read_ts n orc =
     and_then (read_ts_locked orc) (\<lambda>(read_ts, orc1).
     and_then (wait_read_ts read_ts n orc1) (\<lambda>(w, orc2). Inr (read_ts, w, orc2)))"

definition done_commit :: "u64 \<Rightarrow> oracle_inner \<Rightarrow> oracle_inner outcome" where
  "done_commit commit_ts orc =
     (if tc_managed_txns (o_config orc) then Inr orc
      else and_then (wm_send (Mark_new commit_ts True) (o_txn_mark orc)) (\<lambda>tm.
           Inr (orc\<lparr>o_txn_mark := tm\<rparr>)))"

definition done_read :: "txn \<Rightarrow> oracle_inner \<Rightarrow> (txn \<times> oracle_inner) outcome" where
  "done_read tx orc =
     (if t_done_read tx then Inr (tx, orc)
      else and_then (wm_send (Mark_new (t_read_ts tx) True) (o_read_mark orc)) (\<lambda>rm.
           Inr (tx\<lparr>t_done_read := True\<rparr>, orc\<lparr>o_read_mark := rm\<rparr>)))"

definition cleanup_committed_txns :: "oracle_inner \<Rightarrow> oracle_inner outcome" where
  "cleanup_committed_txns orc =
     (if \<not> tc_detect_conflicts (o_config orc) then Inr orc
      else let max_read_tx = (if tc_managed_txns (o_config orc) then o_discard_ts orc
                              else wm_done_until (o_read_mark orc))
      in if \<not> max_read_tx \<ge> o_last_cleanup_ts orc then Inl Panic
         else if max_read_tx = o_last_cleanup_ts orc then Inr orc
         else Inr (orc\<lparr>o_last_cleanup_ts := max_read_tx,
                       o_committed_txns := filter (\<lambda>t. ct_ts t > max_read_tx) (o_committed_txns orc)\<rparr>))"

definition has_conflict :: "txn \<Rightarrow> oracle_inner \<Rightarrow> bool" where
  "has_conflict tx orc \<longleftrightarrow> t_read_key_hash tx \<noteq> [] \<and>
     (\<exists>c \<in> set (o_committed_txns orc). ct_ts c > t_read_ts tx \<and>
        (\<exists>hash \<in> set (t_read_key_hash tx). hash \<in> ct_conflict_keys c))"

text \<open>The timestamp of a commit in the normal mode: taken from \<open>next_txn_ts\<close> and begun.\<close>

definition take_commit_ts :: "txn \<Rightarrow> oracle_inner \<Rightarrow> (u64 \<times> txn \<times> oracle_inner) outcome" where
  "take_commit_ts tx orc =
     and_then (done_read tx orc) (\<lambda>(tx1, orc1).
     and_then (cleanup_committed_txns orc1) (\<lambda>orc2.
     let txn_ts = o_next_txn_ts orc2 in
     and_then (add_checked txn_ts 1) (\<lambda>next_ts.
     and_then (wm_begin txn_ts (o_txn_mark orc2)) (\<lambda>tm.
     Inr (txn_ts, tx1, orc2\<lparr>o_next_txn_ts := next_ts, o_txn_mark := tm\<rparr>)))))"

definition get_latest_commit_ts :: "txn \<Rightarrow> oracle_inner \<Rightarrow> (u64 \<times> txn \<times> oracle_inner) outcome" where
  "get_latest_commit_ts tx orc =
     (if has_conflict tx orc then Inl (Bail Conflict)
      else and_then (if \<not> tc_managed_txns (o_config orc) then take_commit_ts tx orc
                     else Inr (t_commit_ts tx, tx, orc)) (\<lambda>(commit_ts, tx1, orc1).
        if \<not> commit_ts \<ge> o_last_cleanup_ts orc1 then Inl Panic
        else if tc_managed_txns (o_config orc1)
        then and_then (unwrap (t_conflict_keys tx1)) (\<lambda>keys.
             Inr (commit_ts, tx1, orc1\<lparr>o_committed_txns := o_committed_txns orc1 @
               [\<lparr>ct_ts = commit_ts, ct_conflict_keys = keys\<rparr>]\<rparr>))
        else Inr (commit_ts, tx1, orc1)))"

text \<open>The largest version on disk or in the memtables, from which \<open>next_txn_ts\<close> starts.\<close>

definition max_txn_ts :: "u64 list \<Rightarrow> u64 list \<Rightarrow> u64" where
  "max_txn_ts memtable_versions table_versions =
     fold max table_versions (fold max memtable_versions 0)"

section \<open>The oracle among running transactions\<close>

definition TXN_KEY :: bytes where
  "TXN_KEY = bytes_of ''!badger!txn''"

text \<open>The fresh transaction that \<open>Txn::new\<close> builds around a read timestamp.\<close>

definition Txn_init :: "txn_config \<Rightarrow> bool \<Rightarrow> u64 \<Rightarrow> txn" where
  "Txn_init config upd read_ts =
     (let update = (if tc_read_only config \<and> upd then False else upd) in
      \<lparr>t_read_ts = read_ts, t_commit_ts = 0, t_size = length TXN_KEY + 10, t_count = 1,
       t_config = config,
       t_conflict_keys = (if update \<and> tc_detect_conflicts config then Some {} else None),
       t_read_key_hash = [], t_pending_writes = (if update then Some [] else None),
       t_duplicate_writes = [], t_num_iters = 0, t_discarded = False, t_done_read = False,
       t_update = update\<rparr>)"

text \<open>
  A transaction that has its read timestamp but not yet its snapshot has \<open>Begun\<close>
  or is \<open>Waiting\<close> for the notification of its number; then it is \<open>Running\<close>.
  \<open>os_inflight\<close> are the commit timestamps whose write is not done, \<open>os_commits\<close>
  all that were handed out.
\<close>

datatype status = Begun | Waiting | Running

record osys =
  os_oracle :: oracle_inner
  os_txns :: "txn list"
  os_status :: "status list"
  os_inflight :: "u64 list"
  os_commits :: "u64 list"

definition osys_init :: "oracle_inner \<Rightarrow> osys" where
  "osys_init orc = \<lparr>os_oracle = orc, os_txns = [], os_status = [], os_inflight = [], os_commits = []\<rparr>"

inductive ostep :: "osys \<Rightarrow> osys \<Rightarrow> bool" where
  step_begin: "read_ts_locked (os_oracle s) = Inr (ts, orc) \<Longrightarrow>
    ostep s (s\<lparr>os_oracle := orc, os_txns := os_txns s @ [Txn_init (o_config orc) upd ts],
               os_status := os_status s @ [Begun]\<rparr>)"
| step_wait: "i < length (os_txns s) \<Longrightarrow> os_status s ! i = Begun \<Longrightarrow>
    wait_read_ts (t_read_ts (os_txns s ! i)) i (os_oracle s) = Inr (w, orc) \<Longrightarrow>
    ostep s (s\<lparr>os_oracle := orc,
               os_status := (os_status s)[i := if w = None then Running else Waiting]\<rparr>)"
| step_wake: "i < length (os_txns s) \<Longrightarrow> os_status s ! i = Waiting \<Longrightarrow>
    i \<in> set (wm_notified (o_txn_mark (os_oracle s))) \<Longrightarrow>
    ostep s (s\<lparr>os_status := (os_status s)[i := Running]\<rparr>)"
| step_local: "i < length (os_txns s) \<Longrightarrow> t_read_ts tx = t_read_ts (os_txns s ! i) \<Longrightarrow>
    t_done_read tx = t_done_read (os_txns s ! i) \<Longrightarrow>
    ostep s (s\<lparr>os_txns := (os_txns s)[i := tx]\<rparr>)"
| step_commit: "i < length (os_txns s) \<Longrightarrow> os_status s ! i = Running \<Longrightarrow>
    get_latest_commit_ts (os_txns s ! i) (os_oracle s) = Inr (ts, tx, orc) \<Longrightarrow>
    ostep s (s\<lparr>os_oracle := orc, os_txns := (os_txns s)[i := tx],
               os_inflight := ts # os_inflight s, os_commits := os_commits s @ [ts]\<rparr>)"
| step_done_commit: "ts \<in> set (os_inflight s) \<Longrightarrow> done_commit ts (os_oracle s) = Inr orc \<Longrightarrow>
    ostep s (s\<lparr>os_oracle := orc, os_inflight := remove1 ts (os_inflight s)\<rparr>)"
| step_done_read: "i < length (os_txns s) \<Longrightarrow>
    done_read (os_txns s ! i) (os_oracle s) = Inr (tx, orc) \<Longrightarrow>
    ostep s (s\<lparr>os_oracle := orc, os_txns := (os_txns s)[i := tx]\<rparr>)"
| step_txn_mark: "ostep s (s\<lparr>os_oracle := (os_oracle s)
    \<lparr>o_txn_mark := process_next (o_txn_mark (os_oracle s))\<rparr>\<rparr>)"
| step_read_mark: "ostep s (s\<lparr>os_oracle := (os_oracle s)
    \<lparr>o_read_mark := process_next (o_read_mark (os_oracle s))\<rparr>\<rparr>)"

text \<open>The states reachable from a database opened at version \<open>d\<close> in the normal mode.\<close>

inductive oreach :: "txn_config \<Rightarrow> u64 \<Rightarrow> osys \<Rightarrow> bool" for cfg d where
  oreach_init: "OracleInner_new cfg d = Inr orc \<Longrightarrow> oreach cfg d (osys_init orc)"
| oreach_step: "oreach cfg d s \<Longrightarrow> ostep s s' \<Longrightarrow> oreach cfg d s'"

subsection \<open>Invariant\<close>

definition open_reads :: "txn list \<Rightarrow> u64 \<Rightarrow> nat" where
  "open_reads txns t = length (filter (\<lambda>x. t_read_ts x = t \<and> \<not> t_done_read x) txns)"

text \<open>The commit side: what was sent to \<open>txn_mark\<close> (\<open>TS\<close>) matches the timestamps handed out.\<close>

definition commit_inv :: "u64 \<Rightarrow> mark list \<Rightarrow> osys \<Rightarrow> bool" where
  "commit_inv d TS s \<longleftrightarrow>
     wm_sound d TS (o_txn_mark (os_oracle s)) \<and>
     (\<forall>t. opened (sent_events TS) t = int (count_list (os_inflight s) t)) \<and>
     (\<forall>t. count_list (sent_events TS) (t, False) \<le> 1) \<and>
     (\<forall>e \<in> set (sent_events TS). d < fst e \<and> fst e < o_next_txn_ts (os_oracle s)) \<and>
     o_next_txn_ts (os_oracle s) - 1 \<in> insert d (fst ` set (sent_events TS)) \<and>
     sorted_wrt (<) (os_commits s) \<and>
     (\<forall>c \<in> set (os_commits s). d < c \<and> c < o_next_txn_ts (os_oracle s))"

definition read_inv :: "u64 \<Rightarrow> mark list \<Rightarrow> osys \<Rightarrow> bool" where
  "read_inv d RS s \<longleftrightarrow>
     wm_sound d RS (o_read_mark (os_oracle s)) \<and>
     (\<forall>t > 0. opened (sent_events RS) t = int (open_reads (os_txns s) t)) \<and>
     (\<forall>e \<in> set (sent_events RS). fst e < o_next_txn_ts (os_oracle s)) \<and>
     o_last_cleanup_ts (os_oracle s) \<le> wm_done_until (o_read_mark (os_oracle s))"

definition wait_inv :: "mark list \<Rightarrow> osys \<Rightarrow> bool" where
  "wait_inv TS s \<longleftrightarrow>
     length (os_status s) = length (os_txns s) \<and>
     (\<forall>(t, n) \<in> registered TS. n < length (os_txns s) \<and> t = t_read_ts (os_txns s ! n)) \<and>
     (\<forall>i < length (os_txns s). t_read_ts (os_txns s ! i) < o_next_txn_ts (os_oracle s) \<and>
        (os_status s ! i = Waiting \<longrightarrow> (t_read_ts (os_txns s ! i), i) \<in> registered TS) \<and>
        (os_status s ! i = Running \<longrightarrow>
           t_read_ts (os_txns s ! i) \<le> wm_done_until (o_txn_mark (os_oracle s))))"

definition oinv :: "txn_config \<Rightarrow> u64 \<Rightarrow> osys \<Rightarrow> bool" where
  "oinv cfg d s \<longleftrightarrow> o_config (os_oracle s) = cfg \<and> o_committed_txns (os_oracle s) = [] \<and>
     d < o_next_txn_ts (os_oracle s) \<and> 
     (\<exists>TS RS. commit_inv d TS s \<and> read_inv d RS s \<and> wait_inv TS s)"

subsection \<open>Preservation\<close>

lemma sent_events_mark [simp]:
  "sent_events [Mark_new t b] = (if 0 < t then [(t, b)] else [])"
  by (simp add: sent_events_def mark_events_def Mark_new_def)

lemma registered_mark [simp]: "registered (S @ [Mark_new t b]) = registered S"
  by (simp add: registered_append) (simp add: registered_def Mark_new_def)

lemma wm_begin_sound:
  assumes "wm_sound d S w" "d \<le> t" "t \<noteq> - 1" "\<forall>e \<in> set (sent_events S). fst e \<le> t"
  shows "\<exists>w'. wm_begin t w = Inr w' \<and> wm_sound d (S @ [Mark_new t False]) w' \<and>
    wm_done_until w' = wm_done_until w"
  using wm.send_begin [of d S "w\<lparr>wm_last_index := t\<rparr>" t] assms by (simp add: wm_begin_def)

lemma open_reads_append [simp]:
  "open_reads (xs @ [x]) t = open_reads xs t + (if t_read_ts x = t \<and> \<not> t_done_read x then 1 else 0)"
  by (simp add: open_reads_def)

lemma open_reads_update:
  "i < length xs \<Longrightarrow> open_reads (xs[i := y]) t + (if t_read_ts (xs ! i) = t \<and> \<not> t_done_read (xs ! i) then 1 else 0)
     = open_reads xs t + (if t_read_ts y = t \<and> \<not> t_done_read y then 1 else 0)"
  using length_filter_update [of i xs "\<lambda>x. t_read_ts x = t \<and> \<not> t_done_read x" y]
  by (simp add: open_reads_def)

lemma Txn_init_simps [simp]:
  "t_read_ts (Txn_init cfg u ts) = ts" "\<not> t_done_read (Txn_init cfg u ts)"
  by (simp_all add: Txn_init_def Let_def)

lemma oinv_begin:
  assumes inv: "oinv cfg d s" and st: "read_ts_locked (os_oracle s) = Inr (ts, orc)"
  shows "oinv cfg d (s\<lparr>os_oracle := orc, os_txns := os_txns s @ [Txn_init (o_config orc) upd ts],
               os_status := os_status s @ [Begun]\<rparr>)" (is "oinv cfg d ?s")
proof -
  let ?o = "os_oracle s"
  from inv obtain TS RS where c: "commit_inv d TS s" and r: "read_inv d RS s" and w: "wait_inv TS s"
    and dn: "d < o_next_txn_ts ?o" by (auto simp: oinv_def)
  from st obtain rm where ts: "ts = o_next_txn_ts ?o - 1" and b: "wm_begin ts (o_read_mark ?o) = Inr rm"
    and orc: "orc = ?o\<lparr>o_read_mark := rm\<rparr>" and nz: "o_next_txn_ts ?o \<noteq> 0"
    by (auto simp: read_ts_locked_def and_then_Inr sub_one_checked split: if_splits)
  have le: "t \<le> ts \<longleftrightarrow> t < o_next_txn_ts ?o" for t
    unfolding ts by (rule word_decr_le [OF nz])
  have "ts \<noteq> - 1" using nz ts by auto
  from wm_begin_sound [of d RS "o_read_mark ?o" ts] r dn b this
  have s: "wm_sound d (RS @ [Mark_new ts False]) rm" "wm_done_until rm = wm_done_until (o_read_mark ?o)"
    by (auto simp: read_inv_def le)
  have "read_inv d (RS @ [Mark_new ts False]) ?s"
    using r s le [of ts] by (auto simp: read_inv_def orc)
  moreover have "commit_inv d TS ?s" using c by (simp add: commit_inv_def orc)
  moreover have "wait_inv TS ?s"
    using w le [of ts] by (auto simp: wait_inv_def orc nth_append)
  ultimately show ?thesis using inv by (auto simp: oinv_def orc)
qed

lemma oinv_wait:
  assumes inv: "oinv cfg d s" and i: "i < length (os_txns s)" "os_status s ! i = Begun"
    and st: "wait_read_ts (t_read_ts (os_txns s ! i)) i (os_oracle s) = Inr (w, orc)"
  shows "oinv cfg d (s\<lparr>os_oracle := orc,
    os_status := (os_status s)[i := if w = None then Running else Waiting]\<rparr>)" (is "oinv cfg d ?s")
proof -
  let ?o = "os_oracle s" and ?t = "t_read_ts (os_txns s ! i)"
  from inv obtain TS RS where c: "commit_inv d TS s" and r: "read_inv d RS s" and wi: "wait_inv TS s"
    by (auto simp: oinv_def)
  let ?m = "\<lparr>mk_txn_ts = ?t, mk_waiter = Some i, mk_indices = [], mk_done = False\<rparr>"
  have m: "sent_events [?m] = []" "registered (TS @ [?m]) = insert (?t, i) (registered TS)"
    by (simp_all add: sent_events_def registered_def)
  show ?thesis
  proof (cases "?t \<le> wm_done_until (o_txn_mark ?o)")
    case True
    with st have w: "w = None" "orc = ?o" by (auto simp: wait_read_ts_def wait_for_mark_def)
    have "wait_inv TS ?s" using wi True i by (auto simp: wait_inv_def w nth_list_update)
    moreover have "commit_inv d TS ?s" "read_inv d RS ?s"
      using c r by (simp_all add: commit_inv_def read_inv_def w)
    ultimately show ?thesis using inv by (auto simp: oinv_def w)
  next
    case False
    with st obtain tm where w: "w = Some i" "orc = ?o\<lparr>o_txn_mark := tm\<rparr>"
      and tm: "wm_send ?m (o_txn_mark ?o) = Inr tm"
      by (auto simp: wait_read_ts_def wait_for_mark_def and_then_Inr split: sum.splits)
    have s: "wm_sound d (TS @ [?m]) tm" "wm_done_until tm = wm_done_until (o_txn_mark ?o)"
      using wm.send_waiter [of d TS "o_txn_mark ?o" ?m i] c tm by (auto simp: commit_inv_def)
    have "wait_inv (TS @ [?m]) ?s"
      using wi i s(2) by (auto simp: wait_inv_def w m nth_list_update)
    moreover have "commit_inv d (TS @ [?m]) ?s" "read_inv d RS ?s"
      using c r s by (simp_all add: commit_inv_def read_inv_def w m)
    ultimately show ?thesis using inv by (auto simp: oinv_def w)
  qed
qed

lemma oinv_wake:
  assumes inv: "oinv cfg d s" and i: "i < length (os_txns s)" "os_status s ! i = Waiting"
    and n: "i \<in> set (wm_notified (o_txn_mark (os_oracle s)))"
  shows "oinv cfg d (s\<lparr>os_status := (os_status s)[i := Running]\<rparr>)" (is "oinv cfg d ?s")
proof -
  from inv obtain TS RS where c: "commit_inv d TS s" and r: "read_inv d RS s" and w: "wait_inv TS s"
    by (auto simp: oinv_def)
  have "wm_sound d TS (o_txn_mark (os_oracle s))" using c by (simp add: commit_inv_def)
  from wm.notified_until [OF this n] obtain t where
    t: "t \<le> wm_done_until (o_txn_mark (os_oracle s))" "(t, i) \<in> registered TS" by blast
  with w i have "wait_inv TS ?s" by (auto simp: wait_inv_def nth_list_update)
  moreover have "commit_inv d TS ?s" "read_inv d RS ?s"
    using c r by (simp_all add: commit_inv_def read_inv_def)
  ultimately show ?thesis using inv by (auto simp: oinv_def)
qed

lemma oinv_local:
  assumes inv: "oinv cfg d s" and i: "i < length (os_txns s)"
    and tx: "t_read_ts tx = t_read_ts (os_txns s ! i)" "t_done_read tx = t_done_read (os_txns s ! i)"
  shows "oinv cfg d (s\<lparr>os_txns := (os_txns s)[i := tx]\<rparr>)" (is "oinv cfg d ?s")
proof -
  from inv obtain TS RS where c: "commit_inv d TS s" and r: "read_inv d RS s" and w: "wait_inv TS s"
    by (auto simp: oinv_def)
  have "open_reads ((os_txns s)[i := tx]) t = open_reads (os_txns s) t" for t
    using open_reads_update [OF i, of tx t] tx by simp
  then have "read_inv d RS ?s" using r by (simp add: read_inv_def)
  moreover have "wait_inv TS ?s"
    using w i tx unfolding wait_inv_def by (auto simp: nth_list_update)
  moreover have "commit_inv d TS ?s" using c by (simp add: commit_inv_def)
  ultimately show ?thesis using inv by (auto simp: oinv_def)
qed

lemma oinv_done_read:
  assumes inv: "oinv cfg d s" and i: "i < length (os_txns s)"
    and st: "done_read (os_txns s ! i) (os_oracle s) = Inr (tx, orc)"
  shows "oinv cfg d (s\<lparr>os_oracle := orc, os_txns := (os_txns s)[i := tx]\<rparr>)" (is "oinv cfg d ?s")
proof (cases "t_done_read (os_txns s ! i)")
  case True
  with st have "tx = os_txns s ! i" "orc = os_oracle s" by (auto simp: done_read_def)
  with inv show ?thesis by simp
next
  case False
  let ?o = "os_oracle s" and ?t = "t_read_ts (os_txns s ! i)"
  from inv obtain TS RS where c: "commit_inv d TS s" and r: "read_inv d RS s" and w: "wait_inv TS s"
    by (auto simp: oinv_def)
  from False st obtain rm where rm: "wm_send (Mark_new ?t True) (o_read_mark ?o) = Inr rm"
      "tx = (os_txns s ! i)\<lparr>t_done_read := True\<rparr>" "orc = ?o\<lparr>o_read_mark := rm\<rparr>"
    by (auto simp: done_read_def and_then_Inr)
  have up: "open_reads ((os_txns s)[i := tx]) t + (if ?t = t then 1 else 0) = open_reads (os_txns s) t" for t
    using open_reads_update [OF i, of tx t] False by (simp add: rm(2))
  then have pos: "0 < ?t \<Longrightarrow> 0 < opened (sent_events RS) ?t"
    using r up [of ?t] by (simp add: read_inv_def)
  have s: "wm_sound d (RS @ [Mark_new ?t True]) rm" "wm_done_until rm = wm_done_until (o_read_mark ?o)"
    using wm.send_done [of d RS "o_read_mark ?o" ?t, OF _ pos] r rm by (auto simp: read_inv_def)
  have ev: "0 < ?t \<Longrightarrow> ?t < o_next_txn_ts ?o" using w i by (auto simp: wait_inv_def)
  have op: "0 < t \<Longrightarrow> opened (sent_events RS) t = int (open_reads (os_txns s) t)" for t
    using r by (simp add: read_inv_def)
  have "opened (sent_events (RS @ [Mark_new ?t True])) t = int (open_reads ((os_txns s)[i := tx]) t)"
    if "0 < t" for t
    using op [OF that] up [of t] that by (cases "?t = t") auto
  then have "read_inv d (RS @ [Mark_new ?t True]) ?s"
    using r s ev by (auto simp: read_inv_def rm(3))
  moreover have "wait_inv TS ?s"
    using w i by (auto simp: wait_inv_def nth_list_update rm(2,3))
  moreover have "commit_inv d TS ?s" using c by (simp add: commit_inv_def rm(3))
  ultimately show ?thesis using inv by (auto simp: oinv_def rm(3))
qed

lemma oinv_cleanup:
  assumes inv: "oinv cfg d s" and m: "\<not> tc_managed_txns cfg"
  shows "\<exists>orc. cleanup_committed_txns (os_oracle s) = Inr orc \<and> oinv cfg d (s\<lparr>os_oracle := orc\<rparr>) \<and>
    o_next_txn_ts orc = o_next_txn_ts (os_oracle s)"
proof -
  let ?o = "os_oracle s"
  from inv obtain TS RS where c: "commit_inv d TS s" and r: "read_inv d RS s" and w: "wait_inv TS s"
    by (auto simp: oinv_def)
  have *: "oinv cfg d (s\<lparr>os_oracle := ?o\<lparr>o_last_cleanup_ts := wm_done_until (o_read_mark ?o),
      o_committed_txns := []\<rparr>\<rparr>)" (is "oinv cfg d ?s")
  proof -
    have "commit_inv d TS ?s" "read_inv d RS ?s" "wait_inv TS ?s"
      using c r w by (simp_all add: commit_inv_def read_inv_def wait_inv_def)
    then show ?thesis using inv by (auto simp: oinv_def)
  qed
  have "o_config ?o = cfg" "o_committed_txns ?o = []" using inv by (auto simp: oinv_def)
  moreover have "o_last_cleanup_ts ?o \<le> wm_done_until (o_read_mark ?o)"
    using r by (simp add: read_inv_def)
  ultimately show ?thesis
    using * m inv by (simp add: cleanup_committed_txns_def Let_def)
qed

lemma oinv_take:
  assumes inv: "oinv cfg d s" and n: "o_next_txn_ts (os_oracle s) \<noteq> - 1"
  shows "\<exists>tm. wm_begin (o_next_txn_ts (os_oracle s)) (o_txn_mark (os_oracle s)) = Inr tm \<and>
    oinv cfg d (s\<lparr>os_oracle := (os_oracle s)\<lparr>o_next_txn_ts := o_next_txn_ts (os_oracle s) + 1,
        o_txn_mark := tm\<rparr>,
      os_inflight := o_next_txn_ts (os_oracle s) # os_inflight s,
      os_commits := os_commits s @ [o_next_txn_ts (os_oracle s)]\<rparr>)"
proof -
  let ?o = "os_oracle s" and ?n = "o_next_txn_ts (os_oracle s)"
  from inv obtain TS RS where c: "commit_inv d TS s" and r: "read_inv d RS s" and w: "wait_inv TS s"
    and dn: "d < ?n" by (auto simp: oinv_def)
  have pos: "0 < ?n" using dn by (rule le_less_trans [rotated]) simp
  have lt: "t < ?n + 1 \<longleftrightarrow> t \<le> ?n" for t using word_incr_less [OF n] .
  have snd: "wm_sound d TS (o_txn_mark ?o)" and ev: "\<forall>e \<in> set (sent_events TS). d < fst e \<and> fst e < ?n"
    using c by (simp_all add: commit_inv_def)
  from wm_begin_sound [OF snd _ n] dn ev obtain tm where
    tm: "wm_begin ?n (o_txn_mark ?o) = Inr tm" "wm_sound d (TS @ [Mark_new ?n False]) tm"
      "wm_done_until tm = wm_done_until (o_txn_mark ?o)" by (auto simp: order_less_imp_le)
  have fresh: "count_list (sent_events TS) (?n, False) = 0"
    using ev by (auto simp: count_list_0_iff)
  let ?s = "s\<lparr>os_oracle := ?o\<lparr>o_next_txn_ts := ?n + 1, o_txn_mark := tm\<rparr>,
      os_inflight := ?n # os_inflight s, os_commits := os_commits s @ [?n]\<rparr>"
  have "commit_inv d (TS @ [Mark_new ?n False]) ?s"
    using c tm pos fresh dn unfolding commit_inv_def
    by (auto simp: lt sorted_wrt_append order_less_imp_le)
  moreover have "read_inv d RS ?s" using r by (auto simp: read_inv_def lt order_less_imp_le)
  moreover have "wait_inv (TS @ [Mark_new ?n False]) ?s"
    using w tm(3) by (auto simp: wait_inv_def lt order_less_imp_le)
  ultimately have "oinv cfg d ?s" using inv dn unfolding oinv_def by (auto simp: lt)
  with tm(1) show ?thesis by blast
qed

lemma oinv_cleanup_less: "oinv cfg d s \<Longrightarrow> o_last_cleanup_ts (os_oracle s) < o_next_txn_ts (os_oracle s)"
proof -
  assume inv: "oinv cfg d s"
  then obtain RS where r: "read_inv d RS s" and dn: "d < o_next_txn_ts (os_oracle s)"
    by (auto simp: oinv_def)
  have "wm_done_until (o_read_mark (os_oracle s)) < o_next_txn_ts (os_oracle s)"
    using wm.until_range [of d RS] r dn by (fastforce simp: read_inv_def)
  with r show ?thesis by (auto simp: read_inv_def)
qed

lemma oinv_open: "oinv cfg d s \<Longrightarrow> wm_open (o_read_mark (os_oracle s)) \<and> wm_open (o_txn_mark (os_oracle s))"
  by (auto simp: oinv_def read_inv_def commit_inv_def wm_sound_def)

lemma oinv_no_conflict: "oinv cfg d s \<Longrightarrow> \<not> has_conflict tx (os_oracle s)"
  by (simp add: oinv_def has_conflict_def)

lemma done_read_total:
  assumes "wm_open (o_read_mark orc)"
  shows "\<exists>tx' orc'. done_read tx orc = Inr (tx', orc') \<and> o_next_txn_ts orc' = o_next_txn_ts orc"
  using assms by (auto simp: done_read_def wm_send_def)

text \<open>In the normal mode a commit always gets its timestamp, up to the end of the type.\<close>

lemma oinv_commit:
  assumes inv: "oinv cfg d s" and m: "\<not> tc_managed_txns cfg" and i: "i < length (os_txns s)"
    and n: "o_next_txn_ts (os_oracle s) \<noteq> - 1"
  shows "\<exists>tx orc. get_latest_commit_ts (os_txns s ! i) (os_oracle s) = Inr (o_next_txn_ts (os_oracle s), tx, orc) \<and>
    oinv cfg d (s\<lparr>os_oracle := orc, os_txns := (os_txns s)[i := tx],
      os_inflight := o_next_txn_ts (os_oracle s) # os_inflight s,
      os_commits := os_commits s @ [o_next_txn_ts (os_oracle s)]\<rparr>)"
proof -
  let ?n = "o_next_txn_ts (os_oracle s)"
  obtain tx o1 where 1: "done_read (os_txns s ! i) (os_oracle s) = Inr (tx, o1)" "o_next_txn_ts o1 = ?n"
    using done_read_total oinv_open [OF inv] by blast
  let ?s1 = "s\<lparr>os_oracle := o1, os_txns := (os_txns s)[i := tx]\<rparr>"
  obtain o2 where 2: "cleanup_committed_txns o1 = Inr o2" "o_next_txn_ts o2 = ?n"
    "oinv cfg d (?s1\<lparr>os_oracle := o2\<rparr>)"
    using oinv_cleanup [OF oinv_done_read [OF inv i 1(1)] m] 1(2) by auto
  let ?s2 = "?s1\<lparr>os_oracle := o2\<rparr>"
  obtain tm where 3: "wm_begin ?n (o_txn_mark o2) = Inr tm"
    "oinv cfg d (?s2\<lparr>os_oracle := o2\<lparr>o_next_txn_ts := ?n + 1, o_txn_mark := tm\<rparr>,
       os_inflight := ?n # os_inflight ?s2, os_commits := os_commits ?s2 @ [?n]\<rparr>)"
    using oinv_take [OF 2(3)] 2(2) n by auto
  have cfg: "o_config (os_oracle s) = cfg" "o_config o2 = cfg"
    using inv 2(3) by (auto simp: oinv_def)
  have "take_commit_ts (os_txns s ! i) (os_oracle s)
      = Inr (?n, tx, o2\<lparr>o_next_txn_ts := ?n + 1, o_txn_mark := tm\<rparr>)"
    using n 3(1) by (simp add: take_commit_ts_def 1 2 Let_def add_one_checked [THEN iffD2])
  then have "get_latest_commit_ts (os_txns s ! i) (os_oracle s)
      = Inr (?n, tx, o2\<lparr>o_next_txn_ts := ?n + 1, o_txn_mark := tm\<rparr>)"
    using oinv_no_conflict [OF inv] oinv_cleanup_less [OF 2(3)] 2(2) m
    by (simp add: get_latest_commit_ts_def cfg)
  moreover have "?s2\<lparr>os_oracle := o2\<lparr>o_next_txn_ts := ?n + 1, o_txn_mark := tm\<rparr>,
       os_inflight := ?n # os_inflight ?s2, os_commits := os_commits ?s2 @ [?n]\<rparr> =
      s\<lparr>os_oracle := o2\<lparr>o_next_txn_ts := ?n + 1, o_txn_mark := tm\<rparr>,
        os_txns := (os_txns s)[i := tx], os_inflight := ?n # os_inflight s,
        os_commits := os_commits s @ [?n]\<rparr>" (is "_ = ?s3")
    by (rule osys.equality) simp_all
  then have "oinv cfg d ?s3" using 3(2) by argo
  ultimately show ?thesis by blast
qed

lemma get_latest_commit_ts_next:
  assumes "get_latest_commit_ts tx orc = Inr (ts, tx', orc')" "\<not> tc_managed_txns (o_config orc)"
  shows "o_next_txn_ts orc \<noteq> - 1"
proof -
  have "o_next_txn_ts o1 = o_next_txn_ts orc" if "done_read tx orc = Inr (tx1, o1)" for tx1 o1
    using that by (auto simp: done_read_def and_then_Inr split: if_splits)
  moreover have "o_next_txn_ts o2 = o_next_txn_ts o1" if "cleanup_committed_txns o1 = Inr o2" for o1 o2
    using that by (auto simp: cleanup_committed_txns_def Let_def split: if_splits)
  moreover obtain r where "take_commit_ts tx orc = Inr r"
    using assms by (cases "take_commit_ts tx orc") (auto simp: get_latest_commit_ts_def split: if_splits)
  ultimately show ?thesis
    by (fastforce simp: take_commit_ts_def and_then_Inr Let_def add_one_checked)
qed

lemma oinv_done_commit:
  assumes inv: "oinv cfg d s" and m: "\<not> tc_managed_txns cfg" and ts: "ts \<in> set (os_inflight s)"
    and st: "done_commit ts (os_oracle s) = Inr orc"
  shows "oinv cfg d (s\<lparr>os_oracle := orc, os_inflight := remove1 ts (os_inflight s)\<rparr>)" (is "oinv cfg d ?s")
proof -
  let ?o = "os_oracle s"
  from inv obtain TS RS where c: "commit_inv d TS s" and r: "read_inv d RS s" and w: "wait_inv TS s"
    and cfg: "o_config ?o = cfg" by (auto simp: oinv_def)
  from st m cfg obtain tm where tm: "wm_send (Mark_new ts True) (o_txn_mark ?o) = Inr tm"
    "orc = ?o\<lparr>o_txn_mark := tm\<rparr>" by (auto simp: done_commit_def and_then_Inr)
  have op: "opened (sent_events TS) t = int (count_list (os_inflight s) t)" for t
    using c by (simp add: commit_inv_def)
  have n: "Suc 0 \<le> count_list (os_inflight s) ts" using ts count_list_0_iff [of "os_inflight s" ts] by simp
  then have pos: "0 < opened (sent_events TS) ts" by (simp add: op)
  then have "ts \<in> fst ` set (sent_events TS)" using opened_notin by fastforce
  then have ev: "d < ts" "ts < o_next_txn_ts ?o" using c by (auto simp: commit_inv_def)
  then have pos': "0 < ts" by (meson le_less_trans word_zero_le)
  have s: "wm_sound d (TS @ [Mark_new ts True]) tm" "wm_done_until tm = wm_done_until (o_txn_mark ?o)"
    using wm.send_done [of d TS "o_txn_mark ?o" ts] pos c tm by (auto simp: commit_inv_def)
  have "commit_inv d (TS @ [Mark_new ts True]) ?s"
    using c s pos' ev n by (auto simp: commit_inv_def tm(2) of_nat_diff)
  moreover have "read_inv d RS ?s" using r by (simp add: read_inv_def tm(2))
  moreover have "wait_inv (TS @ [Mark_new ts True]) ?s"
    using w s by (auto simp: wait_inv_def tm(2))
  ultimately show ?thesis using inv by (auto simp: oinv_def tm(2))
qed

lemma oinv_txn_mark:
  assumes inv: "oinv cfg d s"
  shows "oinv cfg d (s\<lparr>os_oracle := (os_oracle s)\<lparr>o_txn_mark := process_next (o_txn_mark (os_oracle s))\<rparr>\<rparr>)"
    (is "oinv cfg d ?s")
proof -
  from inv obtain TS RS where c: "commit_inv d TS s" and r: "read_inv d RS s" and w: "wait_inv TS s"
    by (auto simp: oinv_def)
  have "wm_sound d TS (o_txn_mark (os_oracle s))" using c by (simp add: commit_inv_def)
  from wm.sound_step [OF this] have "commit_inv d TS ?s" "wait_inv TS ?s"
    using c w by (auto simp: commit_inv_def wait_inv_def intro: order_trans)
  moreover have "read_inv d RS ?s" using r by (simp add: read_inv_def)
  ultimately show ?thesis using inv by (auto simp: oinv_def)
qed

lemma oinv_read_mark:
  assumes inv: "oinv cfg d s"
  shows "oinv cfg d (s\<lparr>os_oracle := (os_oracle s)\<lparr>o_read_mark := process_next (o_read_mark (os_oracle s))\<rparr>\<rparr>)"
    (is "oinv cfg d ?s")
proof -
  from inv obtain TS RS where c: "commit_inv d TS s" and r: "read_inv d RS s" and w: "wait_inv TS s"
    by (auto simp: oinv_def)
  have "wm_sound d RS (o_read_mark (os_oracle s))" using r by (simp add: read_inv_def)
  from wm.sound_step [OF this] have "read_inv d RS ?s"
    using r by (auto simp: read_inv_def intro: order_trans)
  moreover have "commit_inv d TS ?s" "wait_inv TS ?s" using c w by (simp_all add: commit_inv_def wait_inv_def)
  ultimately show ?thesis using inv by (auto simp: oinv_def)
qed

lemma oinv_step:
  assumes "ostep s s'" "oinv cfg d s" "\<not> tc_managed_txns cfg"
  shows "oinv cfg d s'"
  using assms
proof (cases rule: ostep.cases)
  case (step_commit i ts tx orc)
  have "o_next_txn_ts (os_oracle s) \<noteq> - 1"
    using get_latest_commit_ts_next [OF step_commit(4)] assms(2,3) by (auto simp: oinv_def)
  from oinv_commit [OF assms(2,3) step_commit(2) this] step_commit show ?thesis by auto
qed (use assms in \<open>simp_all add: oinv_begin oinv_wait oinv_wake oinv_local oinv_done_read
      oinv_done_commit oinv_txn_mark oinv_read_mark del: if_split\<close>)

lemma oinv_init:
  assumes "OracleInner_new cfg d = Inr orc"
  shows "oinv cfg d (osys_init orc)"
proof -
  from assms have n: "d \<noteq> - 1" and orc: "o_next_txn_ts orc = d + 1" "o_committed_txns orc = []"
    "o_config orc = cfg" "o_last_cleanup_ts orc = 0" "o_read_mark orc = WaterMark_new d"
    "o_txn_mark orc = WaterMark_new d"
    by (auto simp: OracleInner_new_def and_then_Inr add_one_checked)
  have "commit_inv d [] (osys_init orc)" "read_inv d [] (osys_init orc)" "wait_inv [] (osys_init orc)"
    using wm.sound_start [OF n]
    by (simp_all add: commit_inv_def read_inv_def wait_inv_def osys_init_def orc registered_def
        sent_events_def open_reads_def)
  moreover have "d < d + 1" using word_incr_less [OF n] by simp
  ultimately show ?thesis unfolding oinv_def using orc by (auto simp: osys_init_def)
qed

lemma oreach_oinv: "oreach cfg d s \<Longrightarrow> \<not> tc_managed_txns cfg \<Longrightarrow> oinv cfg d s"
  by (induction rule: oreach.induct) (auto intro: oinv_init oinv_step)

section \<open>Properties\<close>

text \<open>
  C3: The snapshot of a running transaction is complete. In every reachable state
  of the normal mode, each commit timestamp that is still being written is larger
  than the read timestamp of every running transaction, and so is the next one to
  be handed out: whatever a transaction may see has been written when it starts.
\<close>

theorem snapshot_complete:
  assumes "oreach cfg d s" "\<not> tc_managed_txns cfg"
    and "i < length (os_txns s)" "os_status s ! i = Running"
  shows "(\<forall>ts \<in> set (os_inflight s). t_read_ts (os_txns s ! i) < ts) \<and>
    t_read_ts (os_txns s ! i) < o_next_txn_ts (os_oracle s)"
proof -
  have "oinv cfg d s" by (rule oreach_oinv [OF assms(1,2)])
  then obtain TS RS where c: "commit_inv d TS s" and w: "wait_inv TS s" by (auto simp: oinv_def)
  have snd: "wm_sound d TS (o_txn_mark (os_oracle s))"
    and op: "\<And>t. opened (sent_events TS) t = int (count_list (os_inflight s) t)"
    and once: "\<And>t. count_list (sent_events TS) (t, False) \<le> 1"
    and ev: "\<forall>e \<in> set (sent_events TS). d < fst e"
    using c unfolding commit_inv_def by blast+
  have "wm_done_until (o_txn_mark (os_oracle s)) < ts" if "ts \<in> set (os_inflight s)" for ts
  proof (rule wm.until_once [OF snd _ once])
    show "0 < opened (sent_events TS) ts"
      using that count_list_0_iff [of "os_inflight s" ts] by (simp add: op)
    then show "ts \<noteq> d" using opened_notin [of ts "sent_events TS"] ev by fastforce
  qed
  moreover have "t_read_ts (os_txns s ! i) \<le> wm_done_until (o_txn_mark (os_oracle s))"
    "t_read_ts (os_txns s ! i) < o_next_txn_ts (os_oracle s)"
    using w assms(3,4) by (auto simp: wait_inv_def)
  ultimately show ?thesis by (meson le_less_trans)
qed


text \<open>
  Commit timestamps are handed out in strictly increasing order and are all
  larger than the version the database was opened at.
\<close>

theorem commit_ts_increasing:
  assumes "oreach cfg d s" "\<not> tc_managed_txns cfg"
  shows "sorted_wrt (<) (os_commits s) \<and> (\<forall>c \<in> set (os_commits s). d < c)"
  using oreach_oinv [OF assms] by (auto simp: oinv_def commit_inv_def)

text \<open>
  In every reachable state of the normal mode a commit gets the next timestamp:
  no assertion of the oracle fails, no watermark task has died, and the result is
  an error only when the timestamps are exhausted.
\<close>

theorem commit_ts_total:
  assumes "oreach cfg d s" "\<not> tc_managed_txns cfg"
    and "i < length (os_txns s)" "o_next_txn_ts (os_oracle s) \<noteq> - 1"
  shows "\<exists>tx orc. get_latest_commit_ts (os_txns s ! i) (os_oracle s)
      = Inr (o_next_txn_ts (os_oracle s), tx, orc)"
  using oinv_commit [OF oreach_oinv [OF assms(1,2)] assms(2-4)] by blast

text \<open>
  A waiting reader does not starve: once every commit in flight is marked done
  and the watermark task has emptied its channel, its notification has been sent.
\<close>

theorem waiting_reader_released:
  assumes "oreach cfg d s" "\<not> tc_managed_txns cfg"
    and "os_inflight s = []" "wm_chan (o_txn_mark (os_oracle s)) = []"
    and "i < length (os_txns s)" "os_status s ! i = Waiting"
  shows "i \<in> set (wm_notified (o_txn_mark (os_oracle s)))"
proof -
  have "oinv cfg d s" by (rule oreach_oinv [OF assms(1,2)])
  then obtain TS where c: "commit_inv d TS s" and w: "wait_inv TS s"
    and dn: "d < o_next_txn_ts (os_oracle s)" by (auto simp: oinv_def)
  have snd: "wm_sound d TS (o_txn_mark (os_oracle s))"
    and op: "\<forall>t. opened (sent_events TS) t = 0"
    and last: "o_next_txn_ts (os_oracle s) - 1 \<in> insert d (fst ` set (sent_events TS))"
    using c assms(3) by (simp_all add: commit_inv_def)
  have reg: "(t_read_ts (os_txns s ! i), i) \<in> registered TS"
    and lt: "t_read_ts (os_txns s ! i) < o_next_txn_ts (os_oracle s)"
    using w assms(5,6) by (auto simp: wait_inv_def)
  have "o_next_txn_ts (os_oracle s) \<noteq> 0" using dn by auto
  with lt have "t_read_ts (os_txns s ! i) \<le> o_next_txn_ts (os_oracle s) - 1"
    by (simp add: word_decr_le)
  also have "\<dots> \<le> wm_done_until (o_txn_mark (os_oracle s))"
    using wm.until_idle [OF snd assms(4) op last] .
  finally show ?thesis using wm.idle_notified [OF snd assms(4) reg] by blast
qed

text \<open>
  C26: In the managed mode a transaction whose reads overlap the writes of a later
  committed transaction is refused: after \<open>tx\<close> has committed at \<open>ts\<close> with a written key
  hash \<open>h\<close>, a transaction that read \<open>h\<close> at an earlier timestamp gets \<open>Conflict\<close>.
\<close>

theorem managed_conflict_detected:
  assumes "tc_managed_txns (o_config orc)"
    and "get_latest_commit_ts tx orc = Inr (ts, tx', orc')"
    and "t_conflict_keys tx = Some K" "h \<in> K"
    and "h \<in> set (t_read_key_hash tx2)" "t_read_ts tx2 < ts"
  shows "get_latest_commit_ts tx2 orc' = Inl (Bail Conflict)"
proof -
  have "\<lparr>ct_ts = ts, ct_conflict_keys = K\<rparr> \<in> set (o_committed_txns orc')"
    using assms(1-3) by (auto simp: get_latest_commit_ts_def and_then_Inr split: if_splits)
  with assms(4-6) have "has_conflict tx2 orc'" by (force simp: has_conflict_def)
  then show ?thesis by (simp add: get_latest_commit_ts_def)
qed

text \<open>
  C27: In the normal mode conflict detection never refuses a commit: the list of
  committed transactions it consults is only extended in the managed mode, so in
  every reachable state any transaction commits, whatever it has read.
\<close>

theorem normal_mode_never_conflicts:
  assumes "oreach cfg d s" "\<not> tc_managed_txns cfg"
  shows "get_latest_commit_ts tx (os_oracle s) \<noteq> Inl (Bail Conflict)"
proof -
  have inv: "oinv cfg d s" by (rule oreach_oinv [OF assms])
  obtain tx1 o1 where 1: "done_read tx (os_oracle s) = Inr (tx1, o1)"
    using done_read_total oinv_open [OF inv] by blast
  show ?thesis
    using oinv_no_conflict [OF inv, of tx] 1
    by (auto simp: get_latest_commit_ts_def take_commit_ts_def cleanup_committed_txns_def and_then_def
        unwrap_def add_checked_def wm_begin_def wm_send_def Let_def split: if_splits sum.splits option.splits)
qed

section \<open>A concrete run\<close>

text \<open>The steps as functions, for evaluating a run; each stays reachable.\<close>

definition run_begin :: "osys \<Rightarrow> osys" where
  "run_begin s = (case read_ts_locked (os_oracle s) of Inl _ \<Rightarrow> s | Inr (ts, orc) \<Rightarrow>
     s\<lparr>os_oracle := orc, os_txns := os_txns s @ [Txn_init (o_config orc) True ts],
       os_status := os_status s @ [Begun]\<rparr>)"

definition run_wait :: "nat \<Rightarrow> osys \<Rightarrow> osys" where
  "run_wait i s = (if i < length (os_txns s) \<and> os_status s ! i = Begun then
     case wait_read_ts (t_read_ts (os_txns s ! i)) i (os_oracle s) of Inl _ \<Rightarrow> s | Inr (w, orc) \<Rightarrow>
       s\<lparr>os_oracle := orc, os_status := (os_status s)[i := if w = None then Running else Waiting]\<rparr>
     else s)"

definition run_commit :: "nat \<Rightarrow> osys \<Rightarrow> osys" where
  "run_commit i s = (if i < length (os_txns s) \<and> os_status s ! i = Running then
     case get_latest_commit_ts (os_txns s ! i) (os_oracle s) of Inl _ \<Rightarrow> s | Inr (ts, tx, orc) \<Rightarrow>
       s\<lparr>os_oracle := orc, os_txns := (os_txns s)[i := tx],
         os_inflight := ts # os_inflight s, os_commits := os_commits s @ [ts]\<rparr>
     else s)"

definition run_done :: "u64 \<Rightarrow> osys \<Rightarrow> osys" where
  "run_done ts s = (if ts \<in> set (os_inflight s) then
     case done_commit ts (os_oracle s) of Inl _ \<Rightarrow> s | Inr orc \<Rightarrow>
       s\<lparr>os_oracle := orc, os_inflight := remove1 ts (os_inflight s)\<rparr> else s)"

definition run_txn_mark :: "osys \<Rightarrow> osys" where
  "run_txn_mark s = s\<lparr>os_oracle := (os_oracle s)\<lparr>o_txn_mark := process_next (o_txn_mark (os_oracle s))\<rparr>\<rparr>"

lemma oreach_run:
  assumes "oreach cfg d s"
  shows "oreach cfg d (run_begin s)" "oreach cfg d (run_wait i s)" "oreach cfg d (run_commit i s)"
    "oreach cfg d (run_done ts s)" "oreach cfg d (run_txn_mark s)"
  unfolding run_begin_def run_wait_def run_commit_def run_done_def run_txn_mark_def
  using assms by (auto split: sum.splits intro: oreach_step ostep.intros
      step_wait [where w = None, simplified] step_wait [where w = "Some _", simplified])

definition demo_config :: txn_config where
  "demo_config = \<lparr>tc_read_only = False, tc_detect_conflicts = True, tc_managed_txns = False\<rparr>"

definition demo_start :: osys where
  "demo_start = osys_init \<lparr>o_next_txn_ts = 6, o_discard_ts = 0, o_last_cleanup_ts = 0,
     o_committed_txns = [], o_read_mark = WaterMark_new 5, o_txn_mark = WaterMark_new 5,
     o_config = demo_config\<rparr>"

text \<open>One transaction commits at 6; a second one then waits for that commit.\<close>

definition demo_sys :: osys where
  "demo_sys = run_wait 1 (run_begin (run_commit 0 (run_wait 0 (run_begin demo_start))))"

definition demo_drained :: osys where
  "demo_drained = run_txn_mark (run_txn_mark (run_txn_mark (run_done 6 demo_sys)))"

lemma demo_reach: "oreach demo_config 5 demo_sys" "oreach demo_config 5 demo_drained"
proof -
  have "oreach demo_config 5 demo_start"
    unfolding demo_start_def by (rule oreach_init) (simp add: OracleInner_new_def add_checked_def)
  then show "oreach demo_config 5 demo_sys" "oreach demo_config 5 demo_drained"
    unfolding demo_drained_def demo_sys_def by (auto intro!: oreach_run)
qed

lemma demo_managed: "\<not> tc_managed_txns demo_config"
  by (simp add: demo_config_def)

lemma demo_sys_facts:
  "length (os_txns demo_sys) = 2" "os_status demo_sys = [Running, Waiting]" "os_inflight demo_sys = [6]"
  "map t_read_ts (os_txns demo_sys) = [5, 6]" "map t_done_read (os_txns demo_sys) = [True, False]"
  "o_next_txn_ts (os_oracle demo_sys) = 7" "os_commits demo_sys = [6]"
  by code_simp+

lemma demo_drained_facts:
  "length (os_txns demo_drained) = 2" "os_status demo_drained = [Running, Waiting]"
  "os_inflight demo_drained = []" "wm_chan (o_txn_mark (os_oracle demo_drained)) = []"
  by code_simp+

theorem snapshot_complete_witness:
  "t_read_ts (os_txns demo_sys ! 0) < 6 \<and> t_read_ts (os_txns demo_sys ! 0) < 7"
  using snapshot_complete [OF demo_reach(1) demo_managed, of 0] by (simp add: demo_sys_facts)


theorem commit_ts_increasing_witness: "sorted_wrt (<) [6 :: u64] \<and> (5 :: u64) < 6"
  using commit_ts_increasing [OF demo_reach(1) demo_managed] by (simp add: demo_sys_facts)

theorem commit_ts_total_witness:
  "\<exists>tx orc. get_latest_commit_ts (os_txns demo_sys ! 0) (os_oracle demo_sys) = Inr (7, tx, orc)"
  using commit_ts_total [OF demo_reach(1) demo_managed, of 0] by (simp add: demo_sys_facts)

theorem waiting_reader_released_witness:
  "1 \<in> set (wm_notified (o_txn_mark (os_oracle demo_drained)))"
  using waiting_reader_released [OF demo_reach(2) demo_managed _ _, of 1] by (simp add: demo_drained_facts)

theorem normal_mode_never_conflicts_witness:
  "get_latest_commit_ts ((os_txns demo_sys ! 0)\<lparr>t_read_key_hash := [1]\<rparr>) (os_oracle demo_sys)
     \<noteq> Inl (Bail Conflict)"
  by (rule normal_mode_never_conflicts [OF demo_reach(1) demo_managed])

definition managed_oracle :: oracle_inner where
  "managed_oracle = (os_oracle demo_start)\<lparr>o_config := demo_config\<lparr>tc_managed_txns := True\<rparr>\<rparr>"

definition managed_txn :: "u64 \<Rightarrow> txn" where
  "managed_txn ts = (Txn_init (o_config managed_oracle) True 0)\<lparr>t_commit_ts := ts,
     t_conflict_keys := Some {3}, t_read_key_hash := [3]\<rparr>"

theorem managed_conflict_detected_witness:
  "\<exists>tx orc. get_latest_commit_ts (managed_txn 8) managed_oracle = Inr (8, tx, orc) \<and>
     get_latest_commit_ts (managed_txn 9) orc = Inl (Bail Conflict)"
proof -
  let ?orc = "managed_oracle\<lparr>o_committed_txns := [\<lparr>ct_ts = 8, ct_conflict_keys = {3}\<rparr>]\<rparr>"
  have run: "get_latest_commit_ts (managed_txn 8) managed_oracle = Inr (8, managed_txn 8, ?orc)"
    by (simp add: get_latest_commit_ts_def has_conflict_def managed_oracle_def managed_txn_def
        demo_start_def osys_init_def)
  moreover have "get_latest_commit_ts (managed_txn 9) ?orc = Inl (Bail Conflict)"
    by (rule managed_conflict_detected [OF _ run, where K = "{3}" and h = 3])
      (simp_all add: managed_oracle_def managed_txn_def Txn_init_def Let_def)
  ultimately show ?thesis by blast
qed

end
