(* ===== verification/Txn.thy ===== *)
theory Txn
  imports Db Oracle "HOL-Library.Multiset"
begin

text \<open>
  Transactions (\<open>src/src/txn/mod.rs\<close>, \<open>src/src/txn/item.rs\<close>): buffered writes with
  their limits, reads that see the transaction's own writes, and the commit, which takes
  a timestamp from the oracle, stamps the buffered entries with it and sends them to the
  write task closed by an end marker. A \<open>HashMap\<close> is an association list; the order in
  which it is drained is an argument, and so are the hash of keys and the clock.
\<close>

section \<open>Constants and items\<close>

definition BADGER_PREFIX :: bytes where "BADGER_PREFIX = bytes_of ''!badger!''"

definition MAX_KEY_SIZE :: nat where "MAX_KEY_SIZE = 65000"

datatype prefetch_status = Prefetched | NoPrefetched

record item =
  it_key_ts :: key_ts
  it_value_meta :: value_meta
  it_status :: prefetch_status

definition hm_insert :: "'k \<Rightarrow> 'v \<Rightarrow> ('k \<times> 'v) list \<Rightarrow> ('k \<times> 'v) list" where
  "hm_insert k v m = (k, v) # filter (\<lambda>e. fst e \<noteq> k) m"

lemma map_of_hm_insert [simp]: "map_of (hm_insert k v m) = (map_of m)(k \<mapsto> v)"
proof (rule ext)
  have "map_of (filter (\<lambda>e. fst e \<noteq> k) m) x = (if x = k then None else map_of m x)" for x
    by (induction m) auto
  then show "map_of (hm_insert k v m) x = ((map_of m)(k \<mapsto> v)) x" for x
    by (simp add: hm_insert_def)
qed

section \<open>Starting\<close>

text \<open>The wait for earlier commits is the returned notification; a managed transaction has none.\<close>

definition Txn_new :: "notify \<Rightarrow> bool \<Rightarrow> bool \<Rightarrow> oracle_inner \<Rightarrow> (txn \<times> notify option \<times> oracle_inner) outcome" where
  "Txn_new n upd is_managed orc =
     (let config = o_config orc in
      if \<not> is_managed
      then and_then (get_latest_read_ts n orc) (\<lambda>(read_ts, w, orc). Inr (Txn_init config upd read_ts, w, orc))
      else Inr (Txn_init config upd 0, None, orc))"

definition get_update_txn :: "notify \<Rightarrow> db \<Rightarrow> oracle_inner \<Rightarrow> (txn \<times> notify option \<times> oracle_inner) outcome" where
  "get_update_txn n d orc =
     (if db_is_closed d then Inl (Bail DBClosed)
      else if tc_managed_txns (o_config orc) then Inl Panic
      else Txn_new n True False orc)"

section \<open>Writing\<close>

definition check_size :: "config \<Rightarrow> entry \<Rightarrow> txn \<Rightarrow> (entry \<times> txn) outcome" where
  "check_size opt e tx =
     (let threshold = vt_value_threshold (cf_vlog_threshold opt);
          count = t_count tx + 1;
          e = Entry_try_set_value_threshold threshold e;
          size = t_size tx + Entry_estimate_size e threshold + 10
      in if count \<ge> cf_max_batch_count opt \<or> size \<ge> cf_max_batch_size opt then Inl (Bail TxnTooBig)
         else Inr (e, tx\<lparr>t_count := count, t_size := size\<rparr>))"

definition note_conflict_key :: "(bytes \<Rightarrow> u64) \<Rightarrow> entry \<Rightarrow> txn \<Rightarrow> txn" where
  "note_conflict_key hash e tx =
     tx\<lparr>t_conflict_keys := map_option (insert (hash (Entry_key e))) (t_conflict_keys tx)\<rparr>"

definition add_pending :: "entry \<Rightarrow> txn \<Rightarrow> txn" where
  "add_pending e tx =
     (case t_pending_writes tx of
        None \<Rightarrow> tx
      | Some p \<Rightarrow>
        let tx1 = tx\<lparr>t_pending_writes := Some (hm_insert (Entry_key e) e p)\<rparr>
        in case map_of p (Entry_key e) of
             Some old \<Rightarrow> if Entry_version old \<noteq> Entry_version e
               then tx1\<lparr>t_duplicate_writes := t_duplicate_writes tx @ [old]\<rparr> else tx1
           | None \<Rightarrow> tx1)"

definition modify :: "(bytes \<Rightarrow> u64) \<Rightarrow> db \<Rightarrow> entry \<Rightarrow> txn \<Rightarrow> txn outcome" where
  "modify hash d e tx =
     (if \<not> t_update tx then Inl (Bail ReadOnlyTxn)
      else if t_discarded tx then Inl (Bail DiscardedTxn)
      else if Entry_key e = [] then Inl (Bail EmptyKey)
      else if take (length BADGER_PREFIX) (Entry_key e) = BADGER_PREFIX then Inl (Bail InvalidKey)
      else if length (Entry_key e) > MAX_KEY_SIZE then Inl (Anyhow ''Key exceeded limit'')
      else if length (Entry_value e) > vc_vlog_file_size (cf_vlog (db_opt d)) then Inl (Anyhow ''Value exceeded limit'')
      else and_then (is_banned d (Entry_key e)) (\<lambda>_.
           and_then (check_size (db_opt d) e tx) (\<lambda>(e, tx).
             Inr (add_pending e (note_conflict_key hash e tx)))))"

definition txn_set :: "(bytes \<Rightarrow> u64) \<Rightarrow> db \<Rightarrow> bytes \<Rightarrow> bytes \<Rightarrow> txn \<Rightarrow> txn outcome" where
  "txn_set hash d key val tx = modify hash d (Entry_new key val) tx"

definition txn_delete :: "(bytes \<Rightarrow> u64) \<Rightarrow> db \<Rightarrow> bytes \<Rightarrow> txn \<Rightarrow> txn outcome" where
  "txn_delete hash d key tx = modify hash d (Entry_set_meta DELETE (Entry_set_key key Entry_default)) tx"

section \<open>Reading\<close>

definition own_write :: "bytes \<Rightarrow> txn \<Rightarrow> entry option" where
  "own_write key tx =
     (if t_update tx then
        (case t_pending_writes tx of
           None \<Rightarrow> None
         | Some p \<Rightarrow> (case map_of p key of
             Some e \<Rightarrow> if Entry_key e = key then Some e else None
           | None \<Rightarrow> None))
      else None)"

definition txn_get ::
  "(bytes \<Rightarrow> u64) \<Rightarrow> u64 \<Rightarrow> log_env \<Rightarrow> (key_ts \<Rightarrow> (u64 \<times> value_meta) option outcome) \<Rightarrow> db \<Rightarrow> bytes \<Rightarrow> txn \<Rightarrow>
     item outcome option \<times> txn" where
  "txn_get hash now env levels d key tx =
     (if key = [] then (Some (Inl (Bail EmptyKey)), tx)
      else if t_discarded tx then (Some (Inl (Bail DiscardedTxn)), tx)
      else case is_banned d key of Inl f \<Rightarrow> (Some (Inl f), tx) | Inr _ \<Rightarrow>
      (case own_write key tx of
         Some e \<Rightarrow>
           (Some (if ValueMeta_is_deleted_or_expired now (e_value_meta e) then Inl (Bail KeyNotFound)
              else Inr \<lparr>it_key_ts = KeyTs_set_txn_ts (t_read_ts tx) (e_key_ts e), it_value_meta = e_value_meta e,
                        it_status = Prefetched\<rparr>), tx)
       | None \<Rightarrow>
           (map_option (\<lambda>r. and_then r (\<lambda>kv. case kv of
                None \<Rightarrow> Inl (Bail KeyNotFound)
              | Some (txn_ts, vm) \<Rightarrow>
                if is_void vm then Inl (Bail KeyNotFound)
                else if ValueMeta_is_deleted_or_expired now vm then Inl (Bail KeyNotFound)
                else Inr \<lparr>it_key_ts = KeyTs_set_txn_ts txn_ts (KeyTs key (t_read_ts tx)), it_value_meta = vm,
                          it_status = NoPrefetched\<rparr>))
              (db_get env levels d (KeyTs key (t_read_ts tx))),
            if t_update tx then tx\<lparr>t_read_key_hash := t_read_key_hash tx @ [hash key]\<rparr> else tx)))"

section \<open>Committing\<close>

definition commit_pre_check :: "txn \<Rightarrow> unit outcome" where
  "commit_pre_check tx =
     (if t_discarded tx then Inl (Anyhow ''Trying to commit a discarded txn'')
      else let keep_together = (case t_pending_writes tx of None \<Rightarrow> True | Some p \<Rightarrow> list_all (\<lambda>(_, e). Entry_version e = 0) p)
      in if keep_together \<and> tc_managed_txns (t_config tx) \<and> t_commit_ts tx = 0
         then Inl (Anyhow ''CommitTs cannot be zero. Please use commitat instead'') else Inr ())"

definition set_version :: "u64 \<Rightarrow> entry \<Rightarrow> entry" where
  "set_version commit_ts e = (if Entry_version e = 0 then Entry_set_version commit_ts e else e)"

definition process_entry :: "bool \<Rightarrow> entry \<Rightarrow> entry" where
  "process_entry keep_together e = (if keep_together then Entry_set_meta (meta_insert (Entry_meta e) TXN) e else e)"

text \<open>The decimal digits of \<open>u64::to_string\<close>.\<close>

fun decimal :: "nat \<Rightarrow> bytes" where
  "decimal n = (if n < 10 then [word_of_nat (48 + n)] else decimal (n div 10) @ [word_of_nat (48 + n mod 10)])"

definition fin_entry :: "u64 \<Rightarrow> entry" where
  "fin_entry commit_ts = Entry_set_meta FIN_TXN (Entry_set_version commit_ts (Entry_new TXN_KEY (decimal (unat commit_ts))))"

text \<open>
  \<open>drain\<close> is the order in which the map of pending writes is drained. The writes are kept
  together when none of them had a version of its own.
\<close>

definition txn_writes :: "((bytes \<times> entry) list \<Rightarrow> (bytes \<times> entry) list) \<Rightarrow> txn \<Rightarrow> entry list" where
  "txn_writes drain tx =
     (case t_pending_writes tx of None \<Rightarrow> [] | Some p \<Rightarrow> map snd (drain p)) @ t_duplicate_writes tx"

definition keep_together :: "entry list \<Rightarrow> bool" where
  "keep_together writes \<longleftrightarrow> list_all (\<lambda>e. Entry_version e = 0) writes"

definition commit_entries :: "u64 \<Rightarrow> entry list \<Rightarrow> entry list" where
  "commit_entries commit_ts writes =
     (let entries = map (\<lambda>e. process_entry (keep_together writes) (set_version commit_ts e)) writes
      in if keep_together writes then entries @ [fin_entry commit_ts] else entries)"

text \<open>
  The entries go to the write task's queue; when writes are blocked the commit is reported
  done to the oracle. \<open>debug_assert!\<close> is checked as in a debug build.
\<close>

definition commit_and_send ::
  "((bytes \<times> entry) list \<Rightarrow> (bytes \<times> entry) list) \<Rightarrow> db \<Rightarrow> txn \<Rightarrow> oracle_inner \<Rightarrow> request list \<Rightarrow>
     u64 outcome \<times> txn \<times> oracle_inner \<times> request list" where
  "commit_and_send drain d tx orc queue =
     (case get_latest_commit_ts tx orc of
        Inl f \<Rightarrow> (Inl f, tx, orc, queue)
      | Inr (commit_ts, tx1, orc1) \<Rightarrow>
        let writes = txn_writes drain tx1;
            tx2 = tx1\<lparr>t_pending_writes := map_option (\<lambda>_. []) (t_pending_writes tx1), t_duplicate_writes := []\<rparr>
        in if keep_together writes \<and> commit_ts = 0 then (Inl Panic, tx2, orc1, queue)
           else case send_entires_to_write_channel (commit_entries commit_ts writes) d queue of
             Inr queue \<Rightarrow> (Inr commit_ts, tx2, orc1, queue)
           | Inl e \<Rightarrow> (case done_commit commit_ts orc1 of
               Inl f \<Rightarrow> (Inl f, tx2, orc1, queue)
             | Inr orc2 \<Rightarrow> (Inl e, tx2, orc2, queue)))"

text \<open>\<open>wait_result\<close> is the result the write task reports for the last request of its queue.\<close>

definition commit ::
  "((bytes \<times> entry) list \<Rightarrow> (bytes \<times> entry) list) \<Rightarrow> (request list \<Rightarrow> unit outcome) \<Rightarrow> db \<Rightarrow>
     txn \<Rightarrow> oracle_inner \<Rightarrow> request list \<Rightarrow> unit outcome \<times> txn \<times> oracle_inner \<times> request list" where
  "commit drain wait_result d tx orc queue =
     (if t_pending_writes tx = None \<or> t_pending_writes tx = Some [] then (Inr (), tx, orc, queue)
      else case commit_pre_check tx of
        Inl f \<Rightarrow> (Inl f, tx, orc, queue)
      | Inr _ \<Rightarrow>
        (case commit_and_send drain d tx orc queue of
           (Inl f, st) \<Rightarrow> (Inl f, st)
         | (Inr commit_ts, tx1, orc1, queue1) \<Rightarrow>
           (case done_commit commit_ts orc1 of
              Inl f \<Rightarrow> (Inl f, tx1, orc1, queue1)
            | Inr orc2 \<Rightarrow> (wait_result queue1, tx1, orc2, queue1))))"

definition txn_discard :: "txn \<Rightarrow> oracle_inner \<Rightarrow> (txn \<times> oracle_inner) outcome" where
  "txn_discard tx orc =
     (if t_discarded tx then Inr (tx, orc)
      else if t_num_iters tx > 0 then Inl Panic
      else let tx = tx\<lparr>t_discarded := True\<rparr> in
        if \<not> tc_managed_txns (t_config tx) then done_read tx orc else Inr (tx, orc))"

text \<open>\<open>DB::update\<close> around a closure \<open>f\<close>; the transaction is discarded whatever \<open>f\<close> and the commit return.\<close>

definition db_update ::
  "((bytes \<times> entry) list \<Rightarrow> (bytes \<times> entry) list) \<Rightarrow> (request list \<Rightarrow> unit outcome) \<Rightarrow> db \<Rightarrow>
     (txn \<Rightarrow> unit outcome \<times> txn) \<Rightarrow> txn \<Rightarrow> oracle_inner \<Rightarrow> request list \<Rightarrow> unit outcome \<times> oracle_inner \<times> request list" where
  "db_update drain wait_result d f tx orc queue =
     (let (r, tx, orc, queue) =
        (case f tx of
           (Inl e, tx) \<Rightarrow> (Inl e, tx, orc, queue)
         | (Inr _, tx) \<Rightarrow> commit drain wait_result d tx orc queue)
      in case txn_discard tx orc of
           Inl e \<Rightarrow> (Inl e, orc, queue)
         | Inr (tx, orc) \<Rightarrow> (r, orc, queue))"

section \<open>Reads see the transaction's own writes\<close>

lemma check_size_entry:
  assumes "check_size opt e tx = Inr (e', tx')"
  shows "e_key_ts e' = e_key_ts e \<and> e_value_meta e' = e_value_meta e \<and>
    tx' = tx\<lparr>t_count := t_count tx', t_size := t_size tx'\<rparr> \<and> t_count tx' = t_count tx + 1 \<and>
    t_size tx' = t_size tx + Entry_estimate_size e' (vt_value_threshold (cf_vlog_threshold opt)) + 10 \<and>
    t_count tx' < cf_max_batch_count opt \<and> t_size tx' < cf_max_batch_size opt"
  using assms by (auto simp: check_size_def Let_def Entry_try_set_value_threshold_def split: if_splits)

lemma modify_ok:
  assumes "modify hash d e tx = Inr tx'"
  obtains e' tx1 where "check_size (db_opt d) e tx = Inr (e', tx1)" "tx' = add_pending e' (note_conflict_key hash e' tx1)"
    "t_update tx" "\<not> t_discarded tx" "Entry_key e \<noteq> []" "take (length BADGER_PREFIX) (Entry_key e) \<noteq> BADGER_PREFIX"
    "length (Entry_key e) \<le> MAX_KEY_SIZE" "length (Entry_value e) \<le> vc_vlog_file_size (cf_vlog (db_opt d))"
    "is_banned d (Entry_key e) = Inr ()"
  using assms by (auto simp: modify_def and_then_Inr split: if_splits)

lemma own_write_modify:
  assumes m: "modify hash d e tx = Inr tx'" and p: "t_pending_writes tx = Some p"
  shows "own_write k tx' = (if k = Entry_key e
     then Some (Entry_try_set_value_threshold (vt_value_threshold (cf_vlog_threshold (db_opt d))) e)
     else own_write k tx)"
proof -
  obtain e' tx1 where c: "check_size (db_opt d) e tx = Inr (e', tx1)"
    and tx': "tx' = add_pending e' (note_conflict_key hash e' tx1)" and u: "t_update tx"
    using modify_ok [OF m] by metis
  have e': "e' = Entry_try_set_value_threshold (vt_value_threshold (cf_vlog_threshold (db_opt d))) e"
    "\<exists>n z. tx1 = tx\<lparr>t_count := n, t_size := z\<rparr>"
    using c by (auto simp: check_size_def Let_def split: if_splits)
  have k: "Entry_key e' = Entry_key e" using check_size_entry [OF c] by simp
  show ?thesis
    using e'(2) p u k unfolding e'(1) [symmetric]
    by (auto simp: tx' own_write_def add_pending_def note_conflict_key_def Let_def split: option.splits)
qed

lemma modify_keeps:
  assumes "modify hash d e tx = Inr tx'"
  shows "t_read_ts tx' = t_read_ts tx" "t_done_read tx' = t_done_read tx" "t_update tx' = t_update tx"
    "t_discarded tx' = t_discarded tx" "t_config tx' = t_config tx" "t_commit_ts tx' = t_commit_ts tx"
  using assms by (auto simp: modify_def and_then_Inr check_size_def add_pending_def note_conflict_key_def Let_def
      split: if_splits option.splits)

text \<open>
  C21: A transaction reads its own writes. After a write that succeeded, a read of the same
  key answers from the buffered entry whatever the database holds: its value at the
  read timestamp, or that the key is not there when the entry deletes it or has expired.
  It does not enter the read set, and the buffered writes of other keys are as before.
\<close>

theorem txn_reads_own_writes:
  assumes m: "modify hash d e tx = Inr tx'" and p: "t_pending_writes tx = Some p"
  shows "txn_get hash now env levels d (Entry_key e) tx' =
      (Some (if ValueMeta_is_deleted_or_expired now (e_value_meta e) then Inl (Bail KeyNotFound)
             else Inr \<lparr>it_key_ts = KeyTs (Entry_key e) (t_read_ts tx), it_value_meta = e_value_meta e,
                       it_status = Prefetched\<rparr>), tx') \<and>
    (\<forall>k. k \<noteq> Entry_key e \<longrightarrow> own_write k tx' = own_write k tx)"
proof -
  let ?e = "Entry_try_set_value_threshold (vt_value_threshold (cf_vlog_threshold (db_opt d))) e"
  have own: "own_write (Entry_key e) tx' = Some ?e" using own_write_modify [OF m p] by simp
  have e: "e_value_meta ?e = e_value_meta e" "e_key_ts ?e = e_key_ts e"
    by (simp_all add: Entry_try_set_value_threshold_def)
  have "KeyTs_set_txn_ts r (e_key_ts e) = KeyTs (Entry_key e) r" for r
    by (cases "e_key_ts e") (simp add: KeyTs_set_txn_ts_def)
  moreover have "Entry_key e \<noteq> []" "\<not> t_discarded tx'" "is_banned d (Entry_key e) = Inr ()"
    using modify_ok [OF m] modify_keeps [OF m] by metis+
  ultimately show ?thesis
    using own e modify_keeps(1) [OF m] own_write_modify [OF m p] by (simp add: txn_get_def)
qed

section \<open>Limits of a transaction\<close>

text \<open>A sequence of writes; one that fails leaves the transaction as it was.\<close>

definition modify_all :: "(bytes \<Rightarrow> u64) \<Rightarrow> db \<Rightarrow> entry list \<Rightarrow> txn \<Rightarrow> txn" where
  "modify_all hash d es tx = fold (\<lambda>e tx. case modify hash d e tx of Inl _ \<Rightarrow> tx | Inr tx' \<Rightarrow> tx') es tx"

definition est :: "config \<Rightarrow> entry \<Rightarrow> nat" where
  "est opt e = Entry_estimate_size e (vt_value_threshold (cf_vlog_threshold opt)) + 10"

definition good_key :: "db \<Rightarrow> bytes \<Rightarrow> bool" where
  "good_key d k \<longleftrightarrow> k \<noteq> [] \<and> take (length BADGER_PREFIX) k \<noteq> BADGER_PREFIX \<and> length k \<le> MAX_KEY_SIZE \<and> is_banned d k = Inr ()"

definition txn_bounded :: "db \<Rightarrow> txn \<Rightarrow> bool" where
  "txn_bounded d tx \<longleftrightarrow>
     (let opt = db_opt d; writes = txn_writes id tx in
      length writes + 1 \<le> t_count tx \<and>
      sum_list (map (est opt) writes) + length TXN_KEY + 10 \<le> t_size tx \<and>
      (writes \<noteq> [] \<longrightarrow> t_count tx < cf_max_batch_count opt \<and> t_size tx < cf_max_batch_size opt) \<and>
      (\<forall>e \<in> set writes. good_key d (Entry_key e) \<and> length (Entry_value e) \<le> vc_vlog_file_size (cf_vlog opt)))"

lemma hm_insert_length: "map_of p k = None \<Longrightarrow> length (hm_insert k v p) = length p + 1 \<and> filter (\<lambda>e. fst e \<noteq> k) p = p"
proof -
  assume "map_of p k = None"
  then have "filter (\<lambda>e. fst e \<noteq> k) p = p" by (auto simp: map_of_eq_None_iff filter_id_conv)
  then show ?thesis by (simp add: hm_insert_def)
qed

lemma mset_remove_key:
  assumes "map_of p k = Some v" "distinct (map fst p)"
  shows "mset p = add_mset (k, v) (mset (filter (\<lambda>e. fst e \<noteq> k) p))"
  using assms
proof (induction p)
  case (Cons x p)
  obtain a b where x: "x = (a, b)" by (cases x)
  show ?case
  proof (cases "a = k")
    case True
    then have "filter (\<lambda>e. fst e \<noteq> k) p = p" using Cons.prems(2) x by (force simp: filter_id_conv)
    with True Cons.prems(1) x show ?thesis by simp
  next
    case False
    with Cons x show ?thesis by simp
  qed
qed simp

text \<open>A write adds its entry and drops at most one other.\<close>

lemma add_pending_mset:
  assumes p: "t_pending_writes tx = Some p" "distinct (map fst p)"
  obtains p' W where "t_pending_writes (add_pending e tx) = Some p'" "distinct (map fst p')"
    "mset (txn_writes id (add_pending e tx)) = add_mset e W" "W \<subseteq># mset (txn_writes id tx)"
proof -
  let ?f = "filter (\<lambda>x. fst x \<noteq> Entry_key e) p"
  have d: "distinct (map fst (hm_insert (Entry_key e) e p))"
    using p(2) by (simp add: hm_insert_def distinct_map_filter) (metis (mono_tags, lifting) image_iff mem_Collect_eq set_filter)
  show ?thesis
  proof (cases "map_of p (Entry_key e)")
    case None
    with p have "mset (txn_writes id (add_pending e tx)) = add_mset e (mset (txn_writes id tx))"
      using hm_insert_length [OF None] by (simp add: txn_writes_def add_pending_def hm_insert_def)
    with that [of "hm_insert (Entry_key e) e p"] d p None show ?thesis by (simp add: add_pending_def)
  next
    case (Some old)
    have ms: "image_mset snd (mset p) = add_mset old (image_mset snd (mset ?f))"
      using arg_cong [OF mset_remove_key [OF Some p(2)], of "image_mset snd"] by simp
    show ?thesis
    proof (cases "Entry_version old \<noteq> Entry_version e")
      case True
      have "mset (txn_writes id (add_pending e tx)) = add_mset e (mset (txn_writes id tx))"
        using p Some True ms by (simp add: txn_writes_def add_pending_def hm_insert_def)
      with that [of "hm_insert (Entry_key e) e p"] d p Some True show ?thesis by (simp add: add_pending_def)
    next
      case False
      have "mset (txn_writes id (add_pending e tx)) = add_mset e (image_mset snd (mset ?f) + mset (t_duplicate_writes tx))"
        using p Some False by (simp add: txn_writes_def add_pending_def hm_insert_def)
      moreover have "image_mset snd (mset ?f) + mset (t_duplicate_writes tx) \<subseteq># mset (txn_writes id tx)"
        using p ms by (simp add: txn_writes_def)
      ultimately show ?thesis using that [of "hm_insert (Entry_key e) e p"] d p Some False by (simp add: add_pending_def)
    qed
  qed
qed

lemma txn_bounded_step:
  assumes m: "modify hash d e tx = Inr tx'" and b: "txn_bounded d tx"
    and p: "t_pending_writes tx = Some p" "distinct (map fst p)"
  shows "txn_bounded d tx' \<and> (\<exists>p'. t_pending_writes tx' = Some p' \<and> distinct (map fst p'))"
proof -
  obtain e' tx1 where c: "check_size (db_opt d) e tx = Inr (e', tx1)"
    and tx': "tx' = add_pending e' (note_conflict_key hash e' tx1)"
    and g: "good_key d (Entry_key e)" "length (Entry_value e) \<le> vc_vlog_file_size (cf_vlog (db_opt d))"
    using modify_ok [OF m] by (metis good_key_def)
  note ce = check_size_entry [OF c]
  let ?tx = "note_conflict_key hash e' tx1"
  have same: "t_pending_writes ?tx = Some p" "txn_writes id ?tx = txn_writes id tx"
    using ce p by (auto simp: note_conflict_key_def txn_writes_def)
  obtain p' W where p': "t_pending_writes tx' = Some p'" "distinct (map fst p')"
    and W: "mset (txn_writes id tx') = add_mset e' W" "W \<subseteq># mset (txn_writes id tx)"
    using add_pending_mset [OF same(1) p(2), of e'] unfolding tx' same(2) by metis
  have cs: "t_count tx' = t_count tx + 1" "t_size tx' = t_size tx + est (db_opt d) e'"
    "t_count tx' < cf_max_batch_count (db_opt d)" "t_size tx' < cf_max_batch_size (db_opt d)"
    using ce by (auto simp: tx' add_pending_def note_conflict_key_def est_def Let_def split: option.splits)
  have "size W \<le> length (txn_writes id tx)" using size_mset_mono [OF W(2)] by simp
  moreover have "length (txn_writes id tx') = size W + 1" using W(1) by (metis Suc_eq_plus1 size_add_mset size_mset)
  moreover have "sum_list (map (est (db_opt d)) (txn_writes id tx')) = est (db_opt d) e' + sum_mset (image_mset (est (db_opt d)) W)"
    using W(1) by (metis image_mset_add_mset mset_map sum_mset.insert sum_mset_sum_list)
  moreover have "sum_mset (image_mset (est (db_opt d)) W) \<le> sum_list (map (est (db_opt d)) (txn_writes id tx))"
  proof -
    obtain V where "mset (txn_writes id tx) = W + V" using W(2) by (metis mset_subset_eq_exists_conv)
    then have "sum_list (map (est (db_opt d)) (txn_writes id tx)) = sum_mset (image_mset (est (db_opt d)) (W + V))"
      by (metis mset_map sum_mset_sum_list)
    then show ?thesis by simp
  qed
  moreover have "set (txn_writes id tx') \<subseteq> insert e' (set (txn_writes id tx))"
    using W by (metis mset_subset_eqD set_mset_add_mset_insert set_mset_mset set_mset_mono insert_mono)
  moreover have "Entry_key e' = Entry_key e" "Entry_value e' = Entry_value e" using ce by simp_all
  ultimately show ?thesis using b g cs p' by (auto simp: txn_bounded_def Let_def)
qed

lemma txn_bounded_all:
  "txn_bounded d tx \<Longrightarrow> t_pending_writes tx = Some p \<Longrightarrow> distinct (map fst p) \<Longrightarrow> txn_bounded d (modify_all hash d es tx)"
proof (induction es arbitrary: tx p)
  case (Cons e es)
  show ?case
  proof (cases "modify hash d e tx")
    case (Inr tx')
    from txn_bounded_step [OF Inr Cons.prems] Cons.IH Inr show ?thesis by (auto simp: modify_all_def)
  qed (use Cons in \<open>simp add: modify_all_def\<close>)
qed (simp add: modify_all_def)

lemma txn_bounded_init: "txn_bounded d (Txn_init cfg upd ts)"
  by (simp add: txn_bounded_def txn_writes_def Txn_init_def Let_def)

lemma modify_all_readonly: "\<not> t_update tx \<Longrightarrow> modify_all hash d es tx = tx"
  by (induction es) (simp_all add: modify_all_def modify_def)

lemma txn_limits_inv: "txn_bounded d (modify_all hash d es (Txn_init cfg upd ts))"
proof (cases "t_update (Txn_init cfg upd ts)")
  case True
  then have "t_pending_writes (Txn_init cfg upd ts) = Some []" by (auto simp: Txn_init_def Let_def split: if_splits)
  with txn_bounded_all txn_bounded_init show ?thesis by fastforce
next
  case False
  with txn_bounded_init show ?thesis by (simp add: modify_all_readonly)
qed

lemma txn_writes_drain:
  assumes "\<And>p. mset (drain p) = mset p"
  shows "mset (txn_writes drain tx) = mset (txn_writes id tx)"
  using assms by (cases "t_pending_writes tx") (simp_all add: txn_writes_def)

lemma commit_entry_key:
  assumes "e \<in> set (commit_entries ts writes)"
  shows "Entry_key e = TXN_KEY \<or> (\<exists>w \<in> set writes. Entry_key e = Entry_key w)"
proof -
  have k: "Entry_key (process_entry b (set_version ts w)) = Entry_key w" for b w
    by (cases "e_key_ts w") (simp add: process_entry_def set_version_def Entry_set_meta_def Entry_set_version_def KeyTs_set_txn_ts_def)
  have "Entry_key (fin_entry ts) = TXN_KEY"
    by (simp add: fin_entry_def Entry_set_meta_def Entry_set_version_def Entry_new_def KeyTs_set_txn_ts_def)
  with assms k show ?thesis by (auto simp: commit_entries_def Let_def split: if_splits)
qed

lemma commit_entries_length: "length (commit_entries ts writes) \<le> length writes + 1"
  by (simp add: commit_entries_def Let_def)

text \<open>
  C20: The limits of a transaction hold for what it commits. Whatever is written into a
  transaction, the batch of entries its commit sends, end marker included, has fewer
  entries than the maximal batch count and its writes have together less than the maximal
  batch size, every key is non-empty and fits, with its version, the sixteen bits that the
  memtable keeps for its length, and every value fits a value log file.
\<close>

theorem txn_limits:
  assumes "\<And>p. mset (drain p) = mset p"
  shows "let tx = modify_all hash d es (Txn_init cfg upd ts); writes = txn_writes drain tx; opt = db_opt d in
    (writes \<noteq> [] \<longrightarrow> length (commit_entries commit_ts writes) < cf_max_batch_count opt \<and>
       sum_list (map (\<lambda>e. Entry_estimate_size e (vt_value_threshold (cf_vlog_threshold opt))) writes) < cf_max_batch_size opt) \<and>
    (\<forall>e \<in> set (commit_entries commit_ts writes). Entry_key e \<noteq> [] \<and> KeyTs_len (e_key_ts e) < 2 ^ 16) \<and>
    (\<forall>e \<in> set writes. length (Entry_value e) \<le> vc_vlog_file_size (cf_vlog opt))"
proof -
  define tx where "tx = modify_all hash d es (Txn_init cfg upd ts)"
  let ?w = "txn_writes drain tx" and ?opt = "db_opt d"
  have b: "txn_bounded d tx" unfolding tx_def by (rule txn_limits_inv)
  note m = txn_writes_drain [of drain tx, OF assms]
  then have s: "set ?w = set (txn_writes id tx)" and l: "length ?w = length (txn_writes id tx)"
    by (rule mset_eq_setD, metis m size_mset)
  have sum: "sum_list (map (est ?opt) ?w) = sum_list (map (est ?opt) (txn_writes id tx))"
    using m by (metis mset_map sum_mset_sum_list)
  have est: "sum_list (map (\<lambda>e. Entry_estimate_size e (vt_value_threshold (cf_vlog_threshold ?opt))) ?w) \<le> sum_list (map (est ?opt) ?w)"
    by (rule sum_list_mono) (simp add: est_def)
  have "Entry_key e \<noteq> [] \<and> KeyTs_len (e_key_ts e) < 2 ^ 16" if "e \<in> set (commit_entries commit_ts ?w)" for e
  proof -
    have "Entry_key e \<noteq> [] \<and> length (Entry_key e) \<le> MAX_KEY_SIZE"
      using commit_entry_key [OF that] b s
      by (auto simp: txn_bounded_def good_key_def TXN_KEY_def MAX_KEY_SIZE_def bytes_of_def Let_def)
    then show ?thesis by (cases "e_key_ts e") (simp add: KeyTs_len_def MAX_KEY_SIZE_def)
  qed
  moreover have "length (commit_entries commit_ts ?w) < cf_max_batch_count ?opt \<and>
       sum_list (map (\<lambda>e. Entry_estimate_size e (vt_value_threshold (cf_vlog_threshold ?opt))) ?w) < cf_max_batch_size ?opt"
    if "?w \<noteq> []"
    using that l commit_entries_length [of commit_ts ?w] b est sum by (auto simp: txn_bounded_def Let_def)
  ultimately show ?thesis using b s unfolding tx_def [symmetric] by (simp add: txn_bounded_def Let_def)
qed

section \<open>A commit among the other transactions\<close>

lemma get_latest_commit_ts_keeps:
  assumes "get_latest_commit_ts tx orc = Inr (ts, tx1, orc1)"
  shows "t_pending_writes tx1 = t_pending_writes tx" "t_duplicate_writes tx1 = t_duplicate_writes tx" "t_read_ts tx1 = t_read_ts tx"
  using assms
  by (auto simp: get_latest_commit_ts_def take_commit_ts_def done_read_def and_then_Inr Let_def split: if_splits)

lemma done_commit_total:
  assumes "wm_open (o_txn_mark orc)" shows "\<exists>orc'. done_commit ts orc = Inr orc'"
  using assms by (auto simp: done_commit_def wm_send_def)

lemma commit_unfold:
  assumes p: "t_pending_writes tx = Some p" "p \<noteq> []" and pre: "commit_pre_check tx = Inr ()"
    and g: "get_latest_commit_ts tx orc = Inr (ts, tx1, orc1)" "ts \<noteq> 0" and dc: "done_commit ts orc1 = Inr orc2"
  shows "commit drain wait_result d tx orc queue =
    (let queue' = (if db_block_writes d then queue else queue @ [WriteReq_new (commit_entries ts (txn_writes drain tx))]) in
     (if db_block_writes d then Inl (Bail BlockedWrites) else wait_result queue',
      tx1\<lparr>t_pending_writes := Some [], t_duplicate_writes := []\<rparr>, orc2, queue'))"
proof -
  note k = get_latest_commit_ts_keeps [OF g(1)]
  have "txn_writes drain tx1 = txn_writes drain tx" by (simp add: txn_writes_def k)
  then show ?thesis
    using p g dc k by (simp add: commit_def pre commit_and_send_def send_entires_to_write_channel_def Let_def)
qed

text \<open>
  C1: A commit runs as steps of the oracle's system and never leaves its timestamp pending.
  In every reachable state a running transaction with buffered writes that commits gets
  the next timestamp, hands all its writes to the write task as one batch, and has
  reported the timestamp as done when it returns, whether the batch was written, failed or
  was refused because writes are blocked; its buffer is empty afterwards.
\<close>

theorem commit_leaves_nothing_inflight:
  assumes reach: "oreach cfg d0 s" "\<not> tc_managed_txns cfg"
    and i: "i < length (os_txns s)" "os_status s ! i = Running"
    and n: "o_next_txn_ts (os_oracle s) \<noteq> - 1"
    and tx: "t_pending_writes (os_txns s ! i) = Some p" "p \<noteq> []" "\<not> t_discarded (os_txns s ! i)"
      "\<not> tc_managed_txns (t_config (os_txns s ! i))"
  shows "\<exists>tx' orc' queue'. commit drain wait_result d (os_txns s ! i) (os_oracle s) queue =
      (if db_block_writes d then Inl (Bail BlockedWrites) else wait_result queue', tx', orc', queue') \<and>
    queue' = (if db_block_writes d then queue
      else queue @ [WriteReq_new (commit_entries (o_next_txn_ts (os_oracle s)) (txn_writes drain (os_txns s ! i)))]) \<and>
    t_pending_writes tx' = Some [] \<and> t_duplicate_writes tx' = [] \<and>
    ostep\<^sup>*\<^sup>* s (s\<lparr>os_oracle := orc', os_txns := (os_txns s)[i := tx'],
      os_commits := os_commits s @ [o_next_txn_ts (os_oracle s)]\<rparr>)"
proof -
  let ?n = "o_next_txn_ts (os_oracle s)" and ?tx = "os_txns s ! i"
  have inv: "oinv cfg d0 s" by (rule oreach_oinv [OF reach])
  obtain tx1 orc1 where g: "get_latest_commit_ts ?tx (os_oracle s) = Inr (?n, tx1, orc1)"
    and inv1: "oinv cfg d0 (s\<lparr>os_oracle := orc1, os_txns := (os_txns s)[i := tx1], os_inflight := ?n # os_inflight s,
      os_commits := os_commits s @ [?n]\<rparr>)" (is "oinv cfg d0 ?s1")
    using oinv_commit [OF inv reach(2) i(1) n] by blast
  have n0: "?n \<noteq> 0" using inv by (auto simp: oinv_def)
  obtain orc2 where dc: "done_commit ?n orc1 = Inr orc2" using done_commit_total oinv_open [OF inv1] by fastforce
  have pre: "commit_pre_check ?tx = Inr ()" using tx by (simp add: commit_pre_check_def)
  let ?tx2 = "tx1\<lparr>t_pending_writes := Some [], t_duplicate_writes := []\<rparr>"
  let ?s2 = "?s1\<lparr>os_txns := (os_txns ?s1)[i := ?tx2]\<rparr>"
  let ?s3 = "?s2\<lparr>os_oracle := orc2, os_inflight := remove1 ?n (os_inflight ?s2)\<rparr>"
  have 1: "ostep s ?s1" by (rule step_commit [OF i g])
  have 2: "ostep ?s1 ?s2" by (rule step_local) (use i in simp_all)
  have 3: "ostep ?s2 ?s3" by (rule step_done_commit) (use dc in simp_all)
  have "ostep\<^sup>*\<^sup>* ?s1 ?s3" using 2 3 by (rule rtranclp.rtrancl_into_rtrancl [OF r_into_rtranclp])
  with 1 have "ostep\<^sup>*\<^sup>* s ?s3" by (rule converse_rtranclp_into_rtranclp)
  moreover have "?s3 = s\<lparr>os_oracle := orc2, os_txns := (os_txns s)[i := ?tx2], os_commits := os_commits s @ [?n]\<rparr>"
    by (rule osys.equality) simp_all
  ultimately have "ostep\<^sup>*\<^sup>* s (s\<lparr>os_oracle := orc2, os_txns := (os_txns s)[i := ?tx2], os_commits := os_commits s @ [?n]\<rparr>)"
    by (simp only:)
  with commit_unfold [OF tx(1,2) pre g n0 dc, of drain wait_result d queue] show ?thesis
    by (simp add: Let_def)
qed

section \<open>Instances\<close>

definition demo_limits :: db where
  "demo_limits = demo_db\<lparr>db_opt := (db_opt demo_db)\<lparr>cf_max_batch_count := 100, cf_max_batch_size := 1000,
     cf_vlog_threshold := \<lparr>vt_max_value_threshold = 50, vt_percentile_ok = True, vt_value_threshold = 50\<rparr>\<rparr>\<rparr>"

definition demo_txn :: txn where
  "demo_txn = (case modify (\<lambda>_. 0) demo_limits (Entry_new [97] [1]) (Txn_init TxnConfig_default True 5) of Inr tx \<Rightarrow> tx)"

lemma demo_txn_ok: "modify (\<lambda>_. 0) demo_limits (Entry_new [97] [1]) (Txn_init TxnConfig_default True 5) = Inr demo_txn"
  by (simp add: demo_txn_def modify_def demo_limits_def demo_db_def demo_vlog_def ValueLog_new_def BADGER_PREFIX_def
      bytes_of_def MAX_KEY_SIZE_def is_banned_def check_size_def Let_def Entry_new_def Txn_init_def TxnConfig_default_def
      TXN_KEY_def Entry_try_set_value_threshold_def Entry_estimate_size_def)

theorem txn_reads_own_writes_witness:
  "txn_get (\<lambda>_. 0) 9 demo_env (\<lambda>_. Inr None) demo_limits [97] demo_txn =
     (Some (Inr \<lparr>it_key_ts = KeyTs [97] 5, it_value_meta = e_value_meta (Entry_new [97] [1]), it_status = Prefetched\<rparr>), demo_txn)"
proof -
  have "t_pending_writes (Txn_init TxnConfig_default True 5) = Some []"
    by (simp add: Txn_init_def TxnConfig_default_def)
  from txn_reads_own_writes [OF demo_txn_ok this, where now = 9 and env = demo_env and levels = "\<lambda>_. Inr None"]
  show ?thesis
    by (simp add: ValueMeta_is_deleted_or_expired_def Entry_new_def meta_contains_def DELETE_def)
qed

theorem txn_limits_witness:
  "let writes = txn_writes rev (modify_all (\<lambda>_. 0) demo_limits [Entry_new [97] [1]] (Txn_init TxnConfig_default True 5)) in
    length (commit_entries 7 writes) = 2 \<and> length (commit_entries 7 writes) < 100"
proof -
  have "txn_writes rev (modify_all (\<lambda>_. 0) demo_limits [Entry_new [97] [1]] (Txn_init TxnConfig_default True 5))
      = [Entry_try_set_value_threshold 50 (Entry_new [97] [1])]"
    by (simp add: modify_all_def txn_writes_def demo_txn_ok modify_def demo_limits_def demo_db_def demo_vlog_def ValueLog_new_def BADGER_PREFIX_def
      bytes_of_def MAX_KEY_SIZE_def is_banned_def check_size_def Let_def Entry_new_def Txn_init_def TxnConfig_default_def
      TXN_KEY_def Entry_try_set_value_threshold_def Entry_estimate_size_def add_pending_def note_conflict_key_def hm_insert_def)
  moreover have "mset (rev p) = mset p" for p :: "(bytes \<times> entry) list" by simp
  ultimately show ?thesis
    using txn_limits [where drain = rev and hash = "\<lambda>_. 0" and d = demo_limits and es = "[Entry_new [97] [1]]"
      and cfg = TxnConfig_default and upd = True and ts = 5 and commit_ts = 7]
    by (simp add: Let_def commit_entries_def keep_together_def Entry_try_set_value_threshold_def Entry_new_def demo_limits_def)
qed

definition demo_writer :: osys where
  "demo_writer = demo_sys\<lparr>os_txns := (os_txns demo_sys)[0 := (os_txns demo_sys ! 0)
     \<lparr>t_pending_writes := Some [([97], Entry_new [97] [1])]\<rparr>]\<rparr>"

lemma demo_writer_facts:
  "oreach demo_config 5 demo_writer" "length (os_txns demo_writer) = 2" "os_status demo_writer = [Running, Waiting]"
  "o_next_txn_ts (os_oracle demo_writer) = 7" "os_commits demo_writer = [6]"
proof -
  have "0 < length (os_txns demo_sys)" by (simp add: demo_sys_facts)
  then show "oreach demo_config 5 demo_writer"
    unfolding demo_writer_def by (intro oreach_step [OF demo_reach(1)] step_local) simp_all
qed (simp_all add: demo_writer_def demo_sys_facts)

lemma demo_writer_txn:
  "t_pending_writes (os_txns demo_writer ! 0) = Some [([97], Entry_new [97] [1])]"
  "\<not> t_discarded (os_txns demo_writer ! 0)" "\<not> tc_managed_txns (t_config (os_txns demo_writer ! 0))"
proof -
  have "0 < length (os_txns demo_sys)" by (simp add: demo_sys_facts)
  moreover have "t_config (os_txns demo_sys ! 0) = demo_config" "\<not> t_discarded (os_txns demo_sys ! 0)" by code_simp+
  ultimately show "t_pending_writes (os_txns demo_writer ! 0) = Some [([97], Entry_new [97] [1])]"
    "\<not> t_discarded (os_txns demo_writer ! 0)" "\<not> tc_managed_txns (t_config (os_txns demo_writer ! 0))"
    using demo_managed by (simp_all add: demo_writer_def)
qed

theorem commit_leaves_nothing_inflight_witness:
  "\<exists>tx' orc' queue'. commit rev (\<lambda>_. Inr ()) demo_limits (os_txns demo_writer ! 0) (os_oracle demo_writer) [] =
      (Inr (), tx', orc', queue') \<and> length queue' = 1 \<and>
    ostep\<^sup>*\<^sup>* demo_writer (demo_writer\<lparr>os_oracle := orc', os_txns := (os_txns demo_writer)[0 := tx'], os_commits := [6, 7]\<rparr>)"
proof -
  have b: "\<not> db_block_writes demo_limits" by (simp add: demo_limits_def demo_db_def)
  obtain tx' orc' queue' where
    "commit rev (\<lambda>_. Inr ()) demo_limits (os_txns demo_writer ! 0) (os_oracle demo_writer) [] =
       (if db_block_writes demo_limits then Inl (Bail BlockedWrites) else Inr (), tx', orc', queue')"
    "queue' = (if db_block_writes demo_limits then []
      else [] @ [WriteReq_new (commit_entries (o_next_txn_ts (os_oracle demo_writer)) (txn_writes rev (os_txns demo_writer ! 0)))])"
    "ostep\<^sup>*\<^sup>* demo_writer (demo_writer\<lparr>os_oracle := orc', os_txns := (os_txns demo_writer)[0 := tx'],
      os_commits := os_commits demo_writer @ [o_next_txn_ts (os_oracle demo_writer)]\<rparr>)"
    using commit_leaves_nothing_inflight [where i = 0 and drain = rev and wait_result = "\<lambda>_. Inr ()" and d = demo_limits
      and queue = "[]", OF demo_writer_facts(1) demo_managed _ _ _ demo_writer_txn(1) _ demo_writer_txn(2,3)]
      demo_writer_facts(2-4) by fastforce
  with b demo_writer_facts(4,5) show ?thesis by auto
qed

end
