(* ===== verification/Trie.thy ===== *)
theory Trie
  imports Prelude "HOL-Library.Finite_Map" "HOL-Library.Sublist"
begin

text \<open>
  The trie of subscriptions (\<open>src/src/util/tire.rs\<close>): patterns of bytes, some of them to be
  ignored, with the numbers of their subscribers; the hash map of children is a finite map.
  The mutable cursor of \<open>fix\<close> walks down one path, here a recursion that rebuilds the nodes
  on it. The description of ignored positions is parsed as the source does, with the
  standard library's \<open>trim\<close>, \<open>split\<close> and \<open>parse\<close> on characters. The lemmas show what \<open>get\<close>
  returns after any sequence of insertions and deletions.
\<close>

section \<open>Nodes\<close>

datatype trie_node = TrieNode (tn_ids: "u64 list") (tn_children: "(byte, trie_node) fmap") (tn_ignore: "trie_node option")

definition TrieNode_default :: trie_node where "TrieNode_default = TrieNode [] fmempty None"

definition TrieNode_is_empty :: "trie_node \<Rightarrow> bool" where
  "TrieNode_is_empty n \<longleftrightarrow> tn_ids n = [] \<and> tn_children n = fmempty \<and> tn_ignore n = None"

datatype trie_operation = Set | Del

datatype trie_error = InvalidRange string | ParseError

section \<open>Parsing the ignored positions\<close>

definition is_space :: "char \<Rightarrow> bool" where
  "is_space c \<longleftrightarrow> c \<in> {CHR '' '', CHR 0x09, CHR 0x0A, CHR 0x0B, CHR 0x0C, CHR 0x0D}"

definition trim :: "string \<Rightarrow> string" where
  "trim s = rev (dropWhile is_space (rev (dropWhile is_space s)))"

fun split_on :: "char \<Rightarrow> string \<Rightarrow> string list" where
  "split_on c [] = [[]]"
| "split_on c (x # xs) =
     (if x = c then [] # split_on c xs
      else case split_on c xs of [] \<Rightarrow> [[x]] | p # ps \<Rightarrow> (x # p) # ps)"

definition digit :: "char \<Rightarrow> nat option" where
  "digit c = (let n = (of_char c :: nat) in if 48 \<le> n \<and> n \<le> 57 then Some (n - 48) else None)"

fun digits :: "nat \<Rightarrow> string \<Rightarrow> nat option" where
  "digits acc [] = Some acc"
| "digits acc (c # cs) =
     (case digit c of
        None \<Rightarrow> None
      | Some d \<Rightarrow> if acc * 10 + d \<ge> 2 ^ 64 then None else digits (acc * 10 + d) cs)"

definition parse_usize :: "string \<Rightarrow> nat option" where
  "parse_usize s =
     (let s = (case s of c # cs \<Rightarrow> if c = CHR ''+'' then cs else s | [] \<Rightarrow> s) in
      if s = [] then None else digits 0 s)"

definition extend_to :: "nat \<Rightarrow> bool list \<Rightarrow> bool list" where
  "extend_to n out = out @ replicate (Suc n - length out) False"

fun set_range :: "nat \<Rightarrow> nat \<Rightarrow> bool list \<Rightarrow> bool list" where
  "set_range start 0 out = out"
| "set_range start (Suc n) out = set_range (Suc start) n (out[start := True])"

fun parse_items :: "string list \<Rightarrow> bool list \<Rightarrow> trie_error + bool list" where
  "parse_items [] out = Inr out"
| "parse_items (each # rest) out =
     (let r = map trim (split_on (CHR ''-'') (trim each)) in
      if r = [] \<or> length r > 2 then Inl (InvalidRange each)
      else case parse_usize (r ! 0) of
        None \<Rightarrow> Inl ParseError
      | Some start \<Rightarrow>
          let out = (extend_to start out)[start := True] in
          if length r = 2 then
            (case parse_usize (r ! 1) of
               None \<Rightarrow> Inl ParseError
             | Some stop \<Rightarrow> parse_items rest (set_range start (Suc stop - start) (extend_to stop out)))
          else parse_items rest out)"

definition parse_ignore_bytes :: "string \<Rightarrow> trie_error + bool list" where
  "parse_ignore_bytes ignore = (if ignore = '''' then Inr [] else parse_items (split_on (CHR '','') (trim ignore)) [])"

section \<open>Operations\<close>

record match =
  mt_prefix :: bytes
  mt_ignore_bytes :: string

text \<open>The walk of \<open>fix\<close>, one step for each byte of the prefix and whether it is ignored.\<close>

fun fix_path :: "(bool \<times> byte) list \<Rightarrow> u64 \<Rightarrow> trie_operation \<Rightarrow> trie_node \<Rightarrow> trie_node" where
  "fix_path [] i q n =
     (case q of
        Set \<Rightarrow> TrieNode (tn_ids n @ [i]) (tn_children n) (tn_ignore n)
      | Del \<Rightarrow> TrieNode (filter (\<lambda>x. x \<noteq> i) (tn_ids n)) (tn_children n) (tn_ignore n))"
| "fix_path ((ignored, b) # path) i q n =
     (if ignored then
        case (tn_ignore n, q) of
          (None, Del) \<Rightarrow> n
        | (None, Set) \<Rightarrow> TrieNode (tn_ids n) (tn_children n) (Some (fix_path path i q TrieNode_default))
        | (Some c, _) \<Rightarrow> TrieNode (tn_ids n) (tn_children n) (Some (fix_path path i q c))
      else
        case (fmlookup (tn_children n) b, q) of
          (None, Del) \<Rightarrow> n
        | (None, Set) \<Rightarrow> TrieNode (tn_ids n) (fmupd b (fix_path path i q TrieNode_default) (tn_children n)) (tn_ignore n)
        | (Some c, _) \<Rightarrow> TrieNode (tn_ids n) (fmupd b (fix_path path i q c) (tn_children n)) (tn_ignore n))"

text \<open>The positions described may lie behind the prefix; those not described are not ignored.\<close>

definition path_of :: "bool list \<Rightarrow> bytes \<Rightarrow> (bool \<times> byte) list" where
  "path_of ignore pre = zip (ignore @ replicate (length pre - length ignore) False) pre"

definition trie_fix :: "match \<Rightarrow> u64 \<Rightarrow> trie_operation \<Rightarrow> trie_node \<Rightarrow> trie_error + trie_node" where
  "trie_fix m i q root =
     (case parse_ignore_bytes (mt_ignore_bytes m) of
        Inl e \<Rightarrow> Inl e
      | Inr ignore \<Rightarrow> Inr (fix_path (path_of ignore (mt_prefix m)) i q root))"

text \<open>The flag returned by the source is \<open>TrieNode_is_empty\<close> of the result.\<close>

primrec remove_empty :: "trie_node \<Rightarrow> trie_node" where
  "remove_empty (TrieNode ids children ignore) =
     (let ignore = map_option remove_empty ignore;
          ignore = (case ignore of Some ig \<Rightarrow> if TrieNode_is_empty ig then None else Some ig | None \<Rightarrow> None);
          children = fmmap remove_empty children
      in TrieNode ids
           (fmfilter (\<lambda>k. case fmlookup children k of Some c \<Rightarrow> \<not> TrieNode_is_empty c | None \<Rightarrow> False) children) ignore)"

definition push_match :: "match \<Rightarrow> u64 \<Rightarrow> trie_node \<Rightarrow> trie_error + trie_node" where
  "push_match m i root = trie_fix m i Set root"

definition trie_push :: "bytes \<Rightarrow> u64 \<Rightarrow> trie_node \<Rightarrow> trie_error + trie_node" where
  "trie_push pre i root = push_match \<lparr>mt_prefix = pre, mt_ignore_bytes = ''''\<rparr> i root"

definition delete_match :: "match \<Rightarrow> u64 \<Rightarrow> trie_node \<Rightarrow> trie_error + trie_node" where
  "delete_match m i root =
     (case trie_fix m i Del root of Inl e \<Rightarrow> Inl e | Inr n \<Rightarrow> Inr (remove_empty n))"

lemma size_ignore: "tn_ignore n = Some ig \<Longrightarrow> size ig < size n"
  by (cases n) auto

text \<open>The child for an ignored byte is asked for the whole key.\<close>

function get_iter :: "trie_node \<Rightarrow> bytes \<Rightarrow> u64 set" where
  "get_iter n key =
     set (tn_ids n) \<union>
     (case key of
        [] \<Rightarrow> {}
      | k # ks \<Rightarrow>
          (case tn_ignore n of Some ig \<Rightarrow> get_iter ig key | None \<Rightarrow> {}) \<union>
          (case fmlookup (tn_children n) k of Some c \<Rightarrow> get_iter c ks | None \<Rightarrow> {}))"
  by pat_completeness auto

termination
  by (relation "measures [\<lambda>(n, key). length key, \<lambda>(n, key). size n]") (auto intro: size_ignore)

declare get_iter.simps [simp del]

definition trie_get :: "trie_node \<Rightarrow> bytes \<Rightarrow> u64 set" where
  "trie_get root key = get_iter root key"

section \<open>What a trie holds\<close>

type_synonym pattern = "(bool \<times> byte) list"

text \<open>The subscribers at the end of a path; the byte of an ignored position does not matter.\<close>

fun ids_at :: "pattern \<Rightarrow> trie_node \<Rightarrow> u64 list" where
  "ids_at [] n = tn_ids n"
| "ids_at ((True, b) # p) n = (case tn_ignore n of Some c \<Rightarrow> ids_at p c | None \<Rightarrow> [])"
| "ids_at ((False, b) # p) n = (case fmlookup (tn_children n) b of Some c \<Rightarrow> ids_at p c | None \<Rightarrow> [])"

fun same_path :: "pattern \<Rightarrow> pattern \<Rightarrow> bool" where
  "same_path [] [] \<longleftrightarrow> True"
| "same_path ((g, b) # p) ((h, c) # q) \<longleftrightarrow> g = h \<and> (g \<or> b = c) \<and> same_path p q"
| "same_path _ _ \<longleftrightarrow> False"

lemma pattern_cases [case_names Nil Ignored Byte]:
  fixes p :: pattern
  obtains "p = []" | b p' where "p = (True, b) # p'" | b p' where "p = (False, b) # p'"
  by (cases p) auto

lemma ids_at_default [simp]: "ids_at p TrieNode_default = []"
  by (cases p rule: pattern_cases) (auto simp: TrieNode_default_def)

lemma ids_at_fix:
  "ids_at p (fix_path path i q n) =
     (if same_path p path then (case q of Set \<Rightarrow> ids_at p n @ [i] | Del \<Rightarrow> filter (\<lambda>x. x \<noteq> i) (ids_at p n)) else ids_at p n)"
proof (induction path i q n arbitrary: p rule: fix_path.induct)
  case (1 i q n)
  show ?case by (cases p rule: pattern_cases) (auto split: trie_operation.split)
next
  case (2 ignored b path i q n)
  show ?case
  proof (cases p rule: pattern_cases)
    case Nil
    then show ?thesis by (auto split: option.split trie_operation.split)
  next
    case (Ignored c p')
    with "2.IH" show ?thesis by (cases ignored; cases "tn_ignore n"; cases q) (auto split: option.split)
  next
    case (Byte c p')
    with "2.IH" show ?thesis
      by (cases ignored; cases "fmlookup (tn_children n) b"; cases q) (auto split: option.split)
  qed
qed

lemma ids_at_empty: "TrieNode_is_empty n \<Longrightarrow> ids_at p n = []"
  by (cases p rule: pattern_cases) (auto simp: TrieNode_is_empty_def)

lemma ids_at_remove_empty: "ids_at p (remove_empty n) = ids_at p n"
proof (induction p n rule: ids_at.induct)
  case (1 n)
  show ?case by (cases n) (simp add: Let_def)
next
  case (2 b p n)
  show ?case
  proof (cases "tn_ignore n")
    case None
    then show ?thesis by (cases n) (simp add: Let_def)
  next
    case (Some c)
    with "2.IH" [OF Some] ids_at_empty [of "remove_empty c" p] show ?thesis by (cases n) (simp add: Let_def)
  qed
next
  case (3 b p n)
  show ?case
  proof (cases "fmlookup (tn_children n) b")
    case None
    then show ?thesis by (cases n) (simp add: Let_def)
  next
    case (Some c)
    with "3.IH" [OF Some] ids_at_empty [of "remove_empty c" p] show ?thesis by (cases n) (simp add: Let_def)
  qed
qed

section \<open>What a key finds\<close>

text \<open>
  A pattern is found by a key when its bytes that are not ignored are a prefix of the key, and
  something of the key is left at every ignored position.
\<close>

fun found :: "pattern \<Rightarrow> bytes \<Rightarrow> bool" where
  "found [] key \<longleftrightarrow> True"
| "found (_ # _) [] \<longleftrightarrow> False"
| "found ((True, b) # p) (k # ks) \<longleftrightarrow> found p (k # ks)"
| "found ((False, b) # p) (k # ks) \<longleftrightarrow> b = k \<and> found p ks"

lemma get_iter_found: "i \<in> get_iter n key \<longleftrightarrow> (\<exists>p. found p key \<and> i \<in> set (ids_at p n))"
proof (induction n key rule: get_iter.induct)
  case (1 n key)
  have split: "(\<exists>p. found p key \<and> i \<in> set (ids_at p n)) \<longleftrightarrow>
    i \<in> set (tn_ids n) \<or> (\<exists>b p. found ((True, b) # p) key \<and> i \<in> set (ids_at ((True, b) # p) n)) \<or>
    (\<exists>b p. found ((False, b) # p) key \<and> i \<in> set (ids_at ((False, b) # p) n))" (is "?l \<longleftrightarrow> ?r")
  proof
    assume ?l
    then obtain p where p: "found p key" "i \<in> set (ids_at p n)" by blast
    show ?r using p by (cases p rule: pattern_cases) auto
  next
    assume ?r
    moreover have "i \<in> set (tn_ids n) \<Longrightarrow> ?l" by (rule exI [of _ "[]"]) simp
    ultimately show ?l by blast
  qed
  show ?case
  proof (cases key)
    case Nil
    then show ?thesis unfolding split by (subst get_iter.simps) simp
  next
    case (Cons k ks)
    have g: "(\<exists>b p. found ((True, b) # p) key \<and> i \<in> set (ids_at ((True, b) # p) n)) \<longleftrightarrow>
      (case tn_ignore n of Some c \<Rightarrow> i \<in> get_iter c key | None \<Rightarrow> False)"
      using "1.IH"(1) [OF Cons] Cons by (auto split: option.split)
    have c: "(\<exists>b p. found ((False, b) # p) key \<and> i \<in> set (ids_at ((False, b) # p) n)) \<longleftrightarrow>
      (case fmlookup (tn_children n) k of Some c \<Rightarrow> i \<in> get_iter c ks | None \<Rightarrow> False)"
      using "1.IH"(2) [OF Cons] Cons by (auto split: option.split)
    show ?thesis unfolding split g c by (subst get_iter.simps) (simp add: Cons split: option.split)
  qed
qed

text \<open>The bytes of a pattern that are not ignored.\<close>

definition literals :: "pattern \<Rightarrow> bytes" where
  "literals p = map snd (filter (\<lambda>(g, _). \<not> g) p)"

lemma found_iff: "found p key \<longleftrightarrow> prefix (literals p) key \<and> (p \<noteq> [] \<and> fst (last p) \<longrightarrow> key \<noteq> literals p)"
proof (induction p key rule: found.induct)
  case (2 x p)
  then show ?case by (cases x) (induction p; auto simp: literals_def)
next
  case (3 b p k ks)
  then show ?case by (cases p rule: rev_cases) (auto simp: literals_def)
next
  case (4 b p k ks)
  then show ?case by (auto simp: literals_def)
qed (auto simp: literals_def)

lemma same_path_literals: "same_path p q \<Longrightarrow> literals p = literals q \<and> map fst p = map fst q"
  by (induction p q rule: same_path.induct) (auto simp: literals_def)

lemma found_same_path:
  assumes "same_path p q" shows "found p key \<longleftrightarrow> found q key"
proof -
  note e = same_path_literals [OF assms]
  then have "p = [] \<longleftrightarrow> q = []" by auto
  moreover have "p \<noteq> [] \<Longrightarrow> fst (last p) = fst (last q)" using e by (metis last_map map_is_Nil_conv)
  ultimately show ?thesis using e by (auto simp: found_iff)
qed

lemma same_path_refl [simp]: "same_path p p"
  by (induction p) auto

lemma same_path_trans_sym: "same_path p r \<Longrightarrow> same_path q r \<Longrightarrow> same_path p q"
proof (induction p r arbitrary: q rule: same_path.induct)
  case 1
  then show ?case by (cases q) auto
next
  case (2 g b p h c r)
  then show ?case by (cases q) auto
qed auto

section \<open>Sequences of subscriptions\<close>

type_synonym request = "trie_operation \<times> match \<times> u64"

definition trie_step :: "request \<Rightarrow> trie_node \<Rightarrow> trie_node" where
  "trie_step r n =
     (case r of (q, m, i) \<Rightarrow>
        case (case q of Set \<Rightarrow> push_match m i n | Del \<Rightarrow> delete_match m i n) of Inl _ \<Rightarrow> n | Inr n' \<Rightarrow> n')"

text \<open>The same on a plain list of patterns and subscribers.\<close>

definition subs_step :: "request \<Rightarrow> (pattern \<times> u64) list \<Rightarrow> (pattern \<times> u64) list" where
  "subs_step r subs =
     (case r of (q, m, i) \<Rightarrow>
        case parse_ignore_bytes (mt_ignore_bytes m) of
          Inl _ \<Rightarrow> subs
        | Inr ignore \<Rightarrow>
            (case q of
               Set \<Rightarrow> subs @ [(path_of ignore (mt_prefix m), i)]
             | Del \<Rightarrow> filter (\<lambda>(p, j). \<not> (same_path p (path_of ignore (mt_prefix m)) \<and> j = i)) subs))"

definition represents :: "trie_node \<Rightarrow> (pattern \<times> u64) list \<Rightarrow> bool" where
  "represents n subs \<longleftrightarrow> (\<forall>p. set (ids_at p n) = {i. \<exists>q. (q, i) \<in> set subs \<and> same_path p q})"

lemma same_path_sym: "same_path p q \<longleftrightarrow> same_path q p"
  using same_path_trans_sym same_path_refl by blast

lemma same_path_back: "same_path p r \<Longrightarrow> same_path p q \<Longrightarrow> same_path q r"
  using same_path_trans_sym same_path_sym by blast

lemma same_path_forth: "same_path p q \<Longrightarrow> same_path q r \<Longrightarrow> same_path p r"
  using same_path_trans_sym same_path_sym by blast

lemma step_represents:
  assumes "represents n subs" shows "represents (trie_step r n) (subs_step r subs)"
proof -
  obtain q m i where r: "r = (q, m, i)" by (cases r)
  show ?thesis
  proof (cases "parse_ignore_bytes (mt_ignore_bytes m)")
    case (Inl e)
    with assms show ?thesis
      by (simp add: r trie_step_def subs_step_def push_match_def delete_match_def trie_fix_def split: trie_operation.split)
  next
    case (Inr ignore)
    define path where "path = path_of ignore (mt_prefix m)"
    have ids: "set (ids_at p (trie_step r n)) =
      (if same_path p path then (case q of Set \<Rightarrow> insert i (set (ids_at p n)) | Del \<Rightarrow> set (ids_at p n) - {i}) else set (ids_at p n))" for p
      using ids_at_fix [of p path i q n]
      by (cases q) (auto simp: r trie_step_def push_match_def delete_match_def trie_fix_def Inr path_def ids_at_remove_empty)
    have step: "subs_step r subs = (case q of Set \<Rightarrow> subs @ [(path, i)]
      | Del \<Rightarrow> filter (\<lambda>(p, j). \<not> (same_path p path \<and> j = i)) subs)"
      by (cases q) (simp_all add: r subs_step_def Inr path_def)
    show ?thesis
      unfolding represents_def ids step
      using assms by (cases q) (auto simp: represents_def dest: same_path_back same_path_forth)
  qed
qed

lemma fold_represents: "represents n subs \<Longrightarrow> represents (fold trie_step rs n) (fold subs_step rs subs)"
  by (induction rs arbitrary: n subs) (auto intro: step_represents)

lemma represents_get:
  assumes "represents n subs"
  shows "trie_get n key = {i. \<exists>p. (p, i) \<in> set subs \<and> found p key}"
proof (rule set_eqI)
  fix i
  have "i \<in> trie_get n key \<longleftrightarrow> (\<exists>p q. found p key \<and> (q, i) \<in> set subs \<and> same_path p q)"
    using assms by (auto simp: trie_get_def get_iter_found represents_def)
  also have "\<dots> \<longleftrightarrow> (\<exists>p. (p, i) \<in> set subs \<and> found p key)"
    using found_same_path same_path_refl by blast
  finally show "i \<in> trie_get n key \<longleftrightarrow> i \<in> {i. \<exists>p. (p, i) \<in> set subs \<and> found p key}" by simp
qed

section \<open>Properties\<close>

text \<open>C32: After any sequence of subscriptions and removals, those with a malformed description having
  no effect, a key finds exactly the subscribers of the registered patterns whose bytes that
  are not ignored are a prefix of the key, provided the key is longer than these when the
  pattern ends in an ignored position. For a pattern without ignored positions this is the
  prefix test it should be; an ignored position does not skip a byte of the key, as it should.\<close>

theorem trie_get_spec:
  "trie_get (fold trie_step rs TrieNode_default) key =
     {i. \<exists>p. (p, i) \<in> set (fold subs_step rs []) \<and> prefix (literals p) key \<and>
           (p \<noteq> [] \<and> fst (last p) \<longrightarrow> key \<noteq> literals p)}"
proof -
  have "represents TrieNode_default []" by (simp add: represents_def)
  from represents_get [OF fold_represents [OF this]] show ?thesis by (simp add: found_iff)
qed

definition demo_requests :: "request list" where
  "demo_requests = [(Set, \<lparr>mt_prefix = bytes_of ''he'', mt_ignore_bytes = []\<rparr>, 20), (Set, \<lparr>mt_prefix = [], mt_ignore_bytes = []\<rparr>, 10),
     (Set, \<lparr>mt_prefix = bytes_of ''xb'', mt_ignore_bytes = ''0''\<rparr>, 7), (Set, \<lparr>mt_prefix = bytes_of ''h'', mt_ignore_bytes = ''2-''\<rparr>, 8),
     (Set, \<lparr>mt_prefix = bytes_of ''he'', mt_ignore_bytes = []\<rparr>, 9), (Del, \<lparr>mt_prefix = bytes_of ''he'', mt_ignore_bytes = []\<rparr>, 9)]"

lemma parse_ignore_examples:
  "parse_ignore_bytes ''1'' = Inr [False, True]"
  "parse_ignore_bytes ''0'' = Inr [True]"
  "parse_ignore_bytes ''0 , 1 - 2 '' = Inr [True, True, True]"
  "parse_ignore_bytes ''2-'' = Inl ParseError"
  "parse_ignore_bytes [] = Inr []"
  by (simp_all add: parse_ignore_bytes_def trim_def is_space_def parse_usize_def digit_def extend_to_def Let_def
      Suc_eq_plus1 [symmetric])

lemma collect_subs: "{i. \<exists>p. (p, i) \<in> set xs \<and> P p} = set (map snd (filter (\<lambda>(p, _). P p) xs))"
  by force

lemma demo_subs: "fold subs_step demo_requests [] =
    [([(False, 104), (False, 101)], 20), ([], 10), ([(True, 120), (False, 98)], 7)]"
  by (simp add: demo_requests_def subs_step_def parse_ignore_examples path_of_def bytes_of_def)

theorem trie_get_spec_witness:
  "trie_get (fold trie_step demo_requests TrieNode_default) (bytes_of ''hello'') = {10, 20} \<and>
   trie_get (fold trie_step demo_requests TrieNode_default) (bytes_of ''ab'') = {10} \<and>
   trie_get (fold trie_step demo_requests TrieNode_default) (bytes_of ''b'') = {10, 7}"
  unfolding trie_get_spec demo_subs collect_subs by (simp add: literals_def bytes_of_def insert_commute)

end
