(* ===== verification/Publisher.thy ===== *)
theory Publisher
  imports Trie ValueLog "HOL-Library.AList" "HOL-Library.Multiset"
begin

text \<open>
  Subscriptions to updates (\<open>src/src/util/publisher.rs\<close>, \<open>src/src/util/closer.rs\<close>): a subscriber registers
  patterns in the trie of \<open>Trie\<close>; the publisher's task takes written requests from its channel and sends to
  every active subscriber the entries that match. A channel is the list of messages in it, with the
  capacity of the source; a send into a full one waits, as does a receive from an empty one: then a
  step has the value \<open>None\<close>. Sections under the publisher's lock are one step. The order in which hash maps and hash sets
  are walked is an argument.
\<close>

section \<open>Closers\<close>

text \<open>The semaphore's permits and whether the notification is stored.\<close>

record closer =
  cl_permits :: nat
  cl_count :: nat
  cl_notified :: bool

definition Closer_new :: "nat \<Rightarrow> closer" where
  "Closer_new n = \<lparr>cl_permits = 0, cl_count = n, cl_notified = False\<rparr>"

definition closer_done :: "closer \<Rightarrow> closer" where
  "closer_done c = c\<lparr>cl_permits := cl_permits c + 1\<rparr>"

definition closer_signal :: "closer \<Rightarrow> closer" where
  "closer_signal c = c\<lparr>cl_notified := True\<rparr>"

text \<open>\<open>wait\<close>: the permits are given back when the guard is dropped.\<close>

definition closer_wait :: "closer \<Rightarrow> closer option" where
  "closer_wait c = (if cl_permits c \<ge> cl_count c then Some c else None)"

section \<open>Subscribers and publisher\<close>

record kv =
  kv_key :: bytes
  kv_value :: bytes
  kv_user_meta :: bytes
  kv_version :: u64
  kv_expires_at :: u64
  kv_meta :: bytes
  kv_stream_id :: u32
  kv_stream_done :: bool

definition CHANNEL_CAPACITY :: nat where "CHANNEL_CAPACITY = 1000"

text \<open>\<open>sb_channel\<close> is what the receiver has not taken, \<open>sb_open\<close> whether there is a receiver.\<close>

record subscriber =
  sb_id :: u64
  sb_matches :: "match list"
  sb_channel :: "kv list list"
  sb_open :: bool
  sb_closer :: closer
  sb_active :: u64

record publisher =
  pb_queue :: "ValueLog.request list list"
  pb_subscribers :: "(u64 \<times> subscriber) list"
  pb_next_id :: u64
  pb_indexer :: trie_node

definition PublisherInner_new :: publisher where
  "PublisherInner_new = \<lparr>pb_queue = [], pb_subscribers = [], pb_next_id = 0, pb_indexer = TrieNode_default\<rparr>"

text \<open>The hash orders: of a set of subscribers, and of the batches.\<close>

record hash_order =
  ho_set :: "u64 set \<Rightarrow> u64 list"
  ho_map :: "(u64 \<times> kv list) list \<Rightarrow> (u64 \<times> kv list) list"

section \<open>Subscribing\<close>

fun index_matches :: "match list \<Rightarrow> u64 \<Rightarrow> trie_node \<Rightarrow> trie_error option \<times> trie_node" where
  "index_matches [] i t = (None, t)"
| "index_matches (m # ms) i t = (case push_match m i t of Inl e \<Rightarrow> (Some e, t) | Inr t \<Rightarrow> index_matches ms i t)"

text \<open>\<open>Subscriber::new\<close>: the subscriber is there before its patterns are read, and stays when one of them
  cannot be read, while the receiver is dropped.\<close>

definition Subscriber_new :: "closer \<Rightarrow> match list \<Rightarrow> publisher \<Rightarrow> ((trie_error + subscriber) \<times> publisher) outcome" where
  "Subscriber_new closer matches p =
     and_then (add_checked (pb_next_id p) 1) (\<lambda>next_id.
     let i = pb_next_id p;
         (e, t) = index_matches matches i (pb_indexer p);
         sub = \<lparr>sb_id = i, sb_matches = matches, sb_channel = [], sb_open = (e = None), sb_closer = closer, sb_active = 1\<rparr>
     in Inr (case e of Some e \<Rightarrow> Inl e | None \<Rightarrow> Inr sub,
             p\<lparr>pb_next_id := next_id, pb_subscribers := AList.update i sub (pb_subscribers p), pb_indexer := t\<rparr>))"

definition unindex_match :: "match \<Rightarrow> u64 \<Rightarrow> trie_node \<Rightarrow> trie_node" where
  "unindex_match m i t = (case delete_match m i t of Inl _ \<Rightarrow> t | Inr t \<Rightarrow> t)"

definition unindex_matches :: "match list \<Rightarrow> u64 \<Rightarrow> trie_node \<Rightarrow> trie_node" where
  "unindex_matches ms i t = fold (\<lambda>m. unindex_match m i) ms t"

definition delete_subscribers :: "u64 \<Rightarrow> publisher \<Rightarrow> publisher" where
  "delete_subscribers i p =
     (let p = (case map_of (pb_subscribers p) i of
                 Some s \<Rightarrow> p\<lparr>pb_indexer := unindex_matches (sb_matches s) i (pb_indexer p)\<rparr> | None \<Rightarrow> p)
      in p\<lparr>pb_subscribers := AList.delete i (pb_subscribers p)\<rparr>)"

section \<open>Publishing\<close>

definition send_updates :: "ValueLog.request list \<Rightarrow> publisher \<Rightarrow> publisher option" where
  "send_updates reqs p =
     (if pb_subscribers p = [] then Some p
      else if length (pb_queue p) \<ge> CHANNEL_CAPACITY then None
      else Some (p\<lparr>pb_queue := pb_queue p @ [reqs]\<rparr>))"

definition kv_of :: "entry \<Rightarrow> kv" where
  "kv_of e = \<lparr>kv_key = Entry_key e, kv_value = Entry_value e, kv_user_meta = [], kv_version = Entry_version e,
     kv_expires_at = vm_expires_at (e_value_meta e), kv_meta = [vm_user_meta (e_value_meta e)], kv_stream_id = 0, kv_stream_done = False\<rparr>"

definition batch_push :: "kv \<Rightarrow> u64 \<Rightarrow> (u64 \<times> kv list) list \<Rightarrow> (u64 \<times> kv list) list" where
  "batch_push x i b = (case map_of b i of Some l \<Rightarrow> AList.update i (l @ [x]) b | None \<Rightarrow> AList.update i [x] b)"

definition batch_entry :: "hash_order \<Rightarrow> trie_node \<Rightarrow> entry \<Rightarrow> (u64 \<times> kv list) list \<Rightarrow> (u64 \<times> kv list) list" where
  "batch_entry ho t e b =
     (let ids = trie_get t (KeyTs_serialize (e_key_ts e)) in
      if ids = {} then b else fold (batch_push (kv_of e)) (ho_set ho ids) b)"

definition batch_updates :: "hash_order \<Rightarrow> trie_node \<Rightarrow> ValueLog.request list list \<Rightarrow> (u64 \<times> kv list) list" where
  "batch_updates ho t reqs_vec = fold (\<lambda>reqs. fold (\<lambda>req. fold (\<lambda>(e, _). batch_entry ho t e) req) reqs) reqs_vec []"

fun send_batches :: "(u64 \<times> kv list) list \<Rightarrow> (u64 \<times> subscriber) list \<Rightarrow> (unit outcome \<times> (u64 \<times> subscriber) list) option" where
  "send_batches [] subs = Some (Inr (), subs)"
| "send_batches ((i, kvs) # bs) subs =
     (case map_of subs i of
        None \<Rightarrow> send_batches bs subs
      | Some s \<Rightarrow>
          if sb_active s = 1 then
            if \<not> sb_open s then Some (Inl (Anyhow ''channel closed''), subs)
            else if length (sb_channel s) \<ge> CHANNEL_CAPACITY then None
            else send_batches bs (AList.update i (s\<lparr>sb_channel := sb_channel s @ [kvs]\<rparr>) subs)
          else send_batches bs subs)"

definition publish_updates :: "hash_order \<Rightarrow> ValueLog.request list list \<Rightarrow> publisher \<Rightarrow> (unit outcome \<times> publisher) option" where
  "publish_updates ho reqs_vec p =
     map_option (\<lambda>(r, subs). (r, p\<lparr>pb_subscribers := subs\<rparr>))
       (send_batches (ho_map ho (batch_updates ho (pb_indexer p) reqs_vec)) (pb_subscribers p))"

text \<open>One round of the publisher's task: one message, and a second one if there is one. Errors are only logged.\<close>

definition listen_for_updates :: "hash_order \<Rightarrow> publisher \<Rightarrow> publisher option" where
  "listen_for_updates ho p =
     (case pb_queue p of
        [] \<Rightarrow> None
      | [v] \<Rightarrow> map_option snd (publish_updates ho [v] (p\<lparr>pb_queue := []\<rparr>))
      | v # w # rest \<Rightarrow> map_option snd (publish_updates ho [v, w] (p\<lparr>pb_queue := rest\<rparr>)))"

section \<open>A subscriber's task\<close>

text \<open>A received message, with all that are behind it in the channel, goes to the callback.
  When the callback fails, the subscriber is no longer active; \<open>delete_subscribers\<close> follows when the task has
  the lock. The result is what the callback was given, and whether the task goes on.\<close>

definition subscribe_round :: "(kv list \<Rightarrow> bool) \<Rightarrow> u64 \<Rightarrow> publisher \<Rightarrow> (kv list \<times> bool \<times> publisher) option" where
  "subscribe_round fails i p =
     (case map_of (pb_subscribers p) i of
        None \<Rightarrow> None
      | Some s \<Rightarrow>
          if sb_channel s = [] then None
          else
            let kvs = concat (sb_channel s);
                failed = (kvs \<noteq> [] \<and> fails kvs);
                s = s\<lparr>sb_channel := []\<rparr>;
                s = (if failed then s\<lparr>sb_closer := closer_done (sb_closer s), sb_active := 0\<rparr> else s)
            in Some (kvs, \<not> failed, p\<lparr>pb_subscribers := AList.update i s (pb_subscribers p)\<rparr>))"

text \<open>What the task does when it sees the close notification: the rest of the channel goes to the callback.
  Only then is the closer told, not when nothing was left.\<close>

definition subscribe_close :: "subscriber \<Rightarrow> kv list \<times> subscriber" where
  "subscribe_close s =
     (let kvs = concat (sb_channel s); s = s\<lparr>sb_channel := [], sb_open := False\<rparr> in
      if kvs \<noteq> [] then (kvs, s\<lparr>sb_closer := closer_done (sb_closer s)\<rparr>) else (kvs, s))"

text \<open>\<open>cleanup_subscribers\<close>: each subscriber is signalled and waited for; its task runs meanwhile, and
  may have emptied its channel before it sees the signal (\<open>drained\<close>).\<close>

fun cleanup_loop :: "(u64 \<Rightarrow> bool) \<Rightarrow> (u64 \<times> subscriber) list \<Rightarrow> trie_node \<Rightarrow> trie_node option" where
  "cleanup_loop drained [] t = Some t"
| "cleanup_loop drained ((i, s) # subs) t =
     (let t = unindex_matches (sb_matches s) i t;
          s = s\<lparr>sb_closer := closer_signal (sb_closer s)\<rparr>;
          s = (if drained i then s\<lparr>sb_channel := []\<rparr> else s);
          s = snd (subscribe_close s)
      in case closer_wait (sb_closer s) of None \<Rightarrow> None | Some _ \<Rightarrow> cleanup_loop drained subs t)"

definition cleanup_subscribers :: "(u64 \<Rightarrow> bool) \<Rightarrow> publisher \<Rightarrow> publisher option" where
  "cleanup_subscribers drained p =
     map_option (\<lambda>t. p\<lparr>pb_subscribers := [], pb_indexer := t\<rparr>) (cleanup_loop drained (pb_subscribers p) (pb_indexer p))"

section \<open>The index as an interface\<close>

text \<open>
  What the publisher needs of an index of patterns: \<open>holds t S\<close> says that \<open>t\<close> has the registrations \<open>S\<close>.
  A pattern may share its place with another one of the same subscriber, so that a removal can take that along.
\<close>

locale pattern_index =
  fixes holds :: "'t \<Rightarrow> (match \<times> u64) set \<Rightarrow> bool"
    and put :: "match \<Rightarrow> u64 \<Rightarrow> 't \<Rightarrow> 'e + 't"
    and del :: "match \<Rightarrow> u64 \<Rightarrow> 't \<Rightarrow> 't"
    and query :: "'t \<Rightarrow> bytes \<Rightarrow> u64 set"
    and well :: "match \<Rightarrow> bool"
    and hits :: "match \<Rightarrow> bytes \<Rightarrow> bool"
  assumes put_well: "holds t S \<Longrightarrow> well m \<Longrightarrow> \<exists>t'. put m i t = Inr t' \<and> holds t' (insert (m, i) S)"
    and put_ill: "\<not> well m \<Longrightarrow> \<exists>e. put m i t = Inl e"
    and del_some: "holds t S \<Longrightarrow> \<exists>S'. holds (del m i t) S' \<and> S' \<subseteq> S \<and> (m, i) \<notin> S' \<and> S - S' \<subseteq> UNIV \<times> {i}"
    and query_holds: "holds t S \<Longrightarrow> query t key = {i. \<exists>m. (m, i) \<in> S \<and> hits m key}"
begin

lemma del_all:
  assumes "holds t S" "\<And>m. (m, i) \<in> S \<Longrightarrow> m \<in> set ms"
  shows "holds (fold (\<lambda>m. del m i) ms t) (S - UNIV \<times> {i})"
  using assms
proof (induction ms arbitrary: t S)
  case Nil
  then have "S - UNIV \<times> {i} = S" by auto
  with Nil show ?case by simp
next
  case (Cons m ms)
  obtain S' where S': "holds (del m i t) S'" "S' \<subseteq> S" "(m, i) \<notin> S'" "S - S' \<subseteq> UNIV \<times> {i}"
    using del_some [OF Cons.prems(1)] by blast
  have "m' \<in> set ms" if "(m', i) \<in> S'" for m' using Cons.prems(2) [of m'] that S'(2,3) by auto
  moreover have "S' - UNIV \<times> {i} = S - UNIV \<times> {i}" using S'(2,4) by blast
  ultimately show ?case using Cons.IH [OF S'(1)] by simp
qed

end

definition well_formed :: "match \<Rightarrow> bool" where
  "well_formed m \<longleftrightarrow> (\<exists>ignore. parse_ignore_bytes (mt_ignore_bytes m) = Inr ignore)"

definition pattern_of :: "match \<Rightarrow> pattern" where
  "pattern_of m = (case parse_ignore_bytes (mt_ignore_bytes m) of Inr ignore \<Rightarrow> path_of ignore (mt_prefix m) | Inl _ \<Rightarrow> [])"

definition trie_holds :: "trie_node \<Rightarrow> (match \<times> u64) set \<Rightarrow> bool" where
  "trie_holds t S \<longleftrightarrow> (\<forall>(m, i) \<in> S. well_formed m) \<and> (\<exists>ps. represents t ps \<and> set ps = (\<lambda>(m, i). (pattern_of m, i)) ` S)"

interpretation pub: pattern_index trie_holds push_match unindex_match trie_get well_formed "\<lambda>m. found (pattern_of m)"
proof (unfold_locales, goal_cases)
  case (1 t S m i)
  then obtain ignore ps where p: "parse_ignore_bytes (mt_ignore_bytes m) = Inr ignore" "represents t ps"
    "set ps = (\<lambda>(m, i). (pattern_of m, i)) ` S" by (auto simp: well_formed_def trie_holds_def)
  obtain t' where t': "push_match m i t = Inr t'" using p(1) by (simp add: push_match_def trie_fix_def)
  then have "t' = trie_step (Set, m, i) t" by (simp add: trie_step_def)
  then have "represents t' (ps @ [(pattern_of m, i)])"
    using step_represents [OF p(2), of "(Set, m, i)"] p(1) by (simp add: subs_step_def pattern_of_def)
  moreover have "set (ps @ [(pattern_of m, i)]) = (\<lambda>(m, i). (pattern_of m, i)) ` insert (m, i) S" using p(3) by auto
  ultimately have "trie_holds t' (insert (m, i) S)" using 1 unfolding trie_holds_def by blast
  with t' show ?case by blast
next
  case (2 m i t)
  then show ?case by (cases "parse_ignore_bytes (mt_ignore_bytes m)") (auto simp: well_formed_def push_match_def trie_fix_def)
next
  case (3 t S m i)
  then obtain ps where p: "represents t ps" "set ps = (\<lambda>(m, i). (pattern_of m, i)) ` S" "\<forall>(m, i) \<in> S. well_formed m"
    by (auto simp: trie_holds_def)
  have u: "unindex_match m i t = trie_step (Del, m, i) t" by (simp add: unindex_match_def trie_step_def)
  show ?case
  proof (cases "well_formed m")
    case False
    then have "(m, i) \<notin> S" using p(3) by auto
    moreover have "unindex_match m i t = t" using False
      by (cases "parse_ignore_bytes (mt_ignore_bytes m)") (auto simp: well_formed_def unindex_match_def delete_match_def trie_fix_def)
    ultimately show ?thesis using 3 by auto
  next
    case True
    let ?S = "{(m', j) \<in> S. \<not> (same_path (pattern_of m') (pattern_of m) \<and> j = i)}"
    have "subs_step (Del, m, i) ps = filter (\<lambda>(p, j). \<not> (same_path p (pattern_of m) \<and> j = i)) ps"
      using True by (auto simp: subs_step_def pattern_of_def well_formed_def)
    moreover have "set (filter (\<lambda>(p, j). \<not> (same_path p (pattern_of m) \<and> j = i)) ps) = (\<lambda>(m, i). (pattern_of m, i)) ` ?S"
      unfolding set_filter p(2) by force
    ultimately have "represents (unindex_match m i t) (filter (\<lambda>(p, j). \<not> (same_path p (pattern_of m) \<and> j = i)) ps) \<and>
        set (filter (\<lambda>(p, j). \<not> (same_path p (pattern_of m) \<and> j = i)) ps) = (\<lambda>(m, i). (pattern_of m, i)) ` ?S"
      using step_represents [OF p(1), of "(Del, m, i)"] u by simp
    moreover have "\<forall>(m, i) \<in> ?S. well_formed m" using p(3) by auto
    ultimately have "trie_holds (unindex_match m i t) ?S" unfolding trie_holds_def by blast
    then show ?thesis by (intro exI [of _ ?S]) auto
  qed
next
  case (4 t S key)
  then obtain ps where "represents t ps" "set ps = (\<lambda>(m, i). (pattern_of m, i)) ` S" by (auto simp: trie_holds_def)
  then show ?case using represents_get [of t ps key] by force
qed

section \<open>The registrations\<close>

lemma index_matches_holds:
  "trie_holds t S \<Longrightarrow> trie_holds (snd (index_matches ms i t)) (S \<union> set (takeWhile well_formed ms) \<times> {i}) \<and>
     (fst (index_matches ms i t) = None \<longleftrightarrow> list_all well_formed ms)"
proof (induction ms arbitrary: t S)
  case (Cons m ms)
  show ?case
  proof (cases "well_formed m")
    case True
    then obtain t1 where t1: "push_match m i t = Inr t1" "trie_holds t1 (insert (m, i) S)" using pub.put_well [OF Cons.prems] by blast
    have "insert (m, i) S \<union> set (takeWhile well_formed ms) \<times> {i} = S \<union> set (takeWhile well_formed (m # ms)) \<times> {i}" using True by auto
    with Cons.IH [OF t1(2)] t1(1) True show ?thesis by simp
  next
    case False
    then obtain e where "push_match m i t = Inl e" using pub.put_ill by blast
    with False Cons.prems show ?thesis by simp
  qed
qed simp

definition registered_matches :: "publisher \<Rightarrow> (match \<times> u64) set" where
  "registered_matches p = {(m, i). \<exists>s. map_of (pb_subscribers p) i = Some s \<and> m \<in> set (takeWhile well_formed (sb_matches s))}"

definition pub_inv :: "publisher \<Rightarrow> bool" where
  "pub_inv p \<longleftrightarrow> distinct (map fst (pb_subscribers p)) \<and> (\<forall>i s. map_of (pb_subscribers p) i = Some s \<longrightarrow>
       i < pb_next_id p \<and> (sb_open s \<longrightarrow> list_all well_formed (sb_matches s))) \<and>
     trie_holds (pb_indexer p) (registered_matches p)"

lemma pub_inv_new: "pub_inv PublisherInner_new"
  by (auto simp: pub_inv_def PublisherInner_new_def registered_matches_def trie_holds_def represents_def intro!: exI [of _ "[]"])

lemma map_of_update: "map_of (AList.update k v al) j = (if j = k then Some v else map_of al j)"
  by (simp add: update_conv')

lemma map_of_delete: "map_of (AList.delete k al) j = (if j = k then None else map_of al j)"
  by (simp add: delete_conv')

lemma pub_inv_subscribe:
  assumes inv: "pub_inv p" and n: "Subscriber_new c ms p = Inr (r, p')"
  shows "pub_inv p'"
proof -
  let ?i = "pb_next_id p"
  obtain e t where e: "index_matches ms ?i (pb_indexer p) = (e, t)" by fastforce
  have t: "trie_holds t (registered_matches p \<union> set (takeWhile well_formed ms) \<times> {?i})" "e = None \<longleftrightarrow> list_all well_formed ms"
    using index_matches_holds [of "pb_indexer p" "registered_matches p" ms ?i] inv e by (simp_all add: pub_inv_def)
  let ?s = "\<lparr>sb_id = ?i, sb_matches = ms, sb_channel = [], sb_open = (e = None), sb_closer = c, sb_active = 1\<rparr>"
  have "?i \<noteq> - 1" and p': "p' = p\<lparr>pb_next_id := ?i + 1, pb_subscribers := AList.update ?i ?s (pb_subscribers p), pb_indexer := t\<rparr>"
    using n e by (auto simp: Subscriber_new_def and_then_Inr add_one_checked Let_def)
  then have up: "?i < ?i + 1" using word_incr_less [of ?i ?i] by simp
  have old: "i < ?i \<and> (sb_open s \<longrightarrow> list_all well_formed (sb_matches s))" if "map_of (pb_subscribers p) i = Some s" for i s
    using inv that by (simp add: pub_inv_def)
  then have new: "map_of (pb_subscribers p) ?i = None" by (metis not_Some_eq order_less_irrefl)
  have "registered_matches p' = registered_matches p \<union> set (takeWhile well_formed ms) \<times> {?i}"
    using new by (auto simp: registered_matches_def p' map_of_update simp del: map_of_eq_None_iff)
  moreover have "i < ?i + 1 \<and> (sb_open s \<longrightarrow> list_all well_formed (sb_matches s))" if "map_of (pb_subscribers p') i = Some s" for i s
  proof (cases "i = ?i")
    case True
    then show ?thesis using that t(2) up by (auto simp: p' map_of_update)
  next
    case False
    then show ?thesis using that old [of i s] up by (auto simp: p' map_of_update)
  qed
  moreover have "distinct (map fst (pb_subscribers p'))" using inv by (simp add: p' pub_inv_def distinct_update)
  ultimately show ?thesis using t(1) unfolding pub_inv_def by (simp add: p')
qed

lemma pub_inv_delete:
  assumes inv: "pub_inv p" shows "pub_inv (delete_subscribers i p)"
proof (cases "map_of (pb_subscribers p) i")
  case None
  then have "AList.delete i (pb_subscribers p) = pb_subscribers p" by (simp add: delete_id map_of_eq_None_iff)
  with None inv show ?thesis by (simp add: delete_subscribers_def)
next
  case (Some s)
  have "m \<in> set (sb_matches s)" if "(m, i) \<in> registered_matches p" for m
    using that Some by (simp add: registered_matches_def) (blast dest: set_takeWhileD)
  then have "trie_holds (unindex_matches (sb_matches s) i (pb_indexer p)) (registered_matches p - UNIV \<times> {i})"
    unfolding unindex_matches_def using inv by (intro pub.del_all) (simp_all add: pub_inv_def)
  moreover have "registered_matches (delete_subscribers i p) = registered_matches p - UNIV \<times> {i}"
    by (auto simp: registered_matches_def delete_subscribers_def Some map_of_delete)
  moreover have "j < pb_next_id p \<and> (sb_open u \<longrightarrow> list_all well_formed (sb_matches u))"
    if "map_of (pb_subscribers (delete_subscribers i p)) j = Some u" for j u
    using inv that by (simp add: pub_inv_def delete_subscribers_def Some map_of_delete split: if_splits)
  moreover have "distinct (map fst (pb_subscribers (delete_subscribers i p)))" "pb_next_id (delete_subscribers i p) = pb_next_id p"
    "pb_indexer (delete_subscribers i p) = unindex_matches (sb_matches s) i (pb_indexer p)"
    using inv by (simp_all add: delete_subscribers_def Some pub_inv_def distinct_delete)
  ultimately show ?thesis using inv unfolding pub_inv_def by simp
qed

text \<open>A change of the channels, the closers and the active flags only.\<close>

lemma pub_inv_channels:
  assumes "pub_inv p" "distinct (map fst subs)"
    "\<And>i. map_option (\<lambda>s. (sb_matches s, sb_open s)) (map_of subs i) = map_option (\<lambda>s. (sb_matches s, sb_open s)) (map_of (pb_subscribers p) i)"
  shows "pub_inv (p\<lparr>pb_queue := q, pb_subscribers := subs\<rparr>)"
proof -
  have same: "\<exists>s'. map_of (pb_subscribers p) i = Some s' \<and> sb_matches s' = sb_matches s \<and> sb_open s' = sb_open s" if "map_of subs i = Some s" for i s
    using assms(3) [of i] that by (cases "map_of (pb_subscribers p) i") auto
  have "\<exists>s'. map_of subs i = Some s' \<and> sb_matches s' = sb_matches s" if "map_of (pb_subscribers p) i = Some s" for i s
    using assms(3) [of i] that by auto
  with same have "registered_matches (p\<lparr>pb_queue := q, pb_subscribers := subs\<rparr>) = registered_matches p"
    unfolding registered_matches_def by (auto, metis, metis)
  then show ?thesis using assms(1,2) same unfolding pub_inv_def by (auto, metis, metis)
qed

section \<open>Batches\<close>

definition hash_laws :: "hash_order \<Rightarrow> bool" where
  "hash_laws ho \<longleftrightarrow> (\<forall>S. finite S \<longrightarrow> distinct (ho_set ho S) \<and> set (ho_set ho S) = S) \<and> (\<forall>b. mset (ho_map ho b) = mset b)"

definition written_entries :: "ValueLog.request list list \<Rightarrow> entry list" where
  "written_entries reqs_vec = map fst (concat (concat reqs_vec))"

abbreviation matching :: "trie_node \<Rightarrow> u64 \<Rightarrow> entry list \<Rightarrow> kv list" where
  "matching t i es \<equiv> map kv_of (filter (\<lambda>e. i \<in> trie_get t (KeyTs_serialize (e_key_ts e))) es)"

definition nonempty :: "'a list \<Rightarrow> 'a list option" where
  "nonempty xs = (if xs = [] then None else Some xs)"

lemma fold_concat_list: "fold f (concat xss) = fold (fold f) xss"
  by (induction xss) (simp_all add: fold_append)

lemma batch_updates_entries: "batch_updates ho t reqs_vec = fold (batch_entry ho t) (written_entries reqs_vec) []"
  by (simp add: batch_updates_def written_entries_def fold_map fold_concat_list comp_def case_prod_unfold)

lemma map_of_batch_push:
  "map_of (batch_push x i b) = (map_of b)(i \<mapsto> (case map_of b i of None \<Rightarrow> [x] | Some l \<Rightarrow> l @ [x]))"
  by (auto simp: batch_push_def update_conv' split: option.split)

lemma distinct_batch_push: "distinct (map fst b) \<Longrightarrow> distinct (map fst (batch_push x i b))"
  by (auto simp: batch_push_def distinct_update split: option.split)

lemma fold_batch_push:
  "distinct ids \<Longrightarrow> map_of (fold (batch_push x) ids b) i =
     (if i \<in> set ids then Some (case map_of b i of None \<Rightarrow> [x] | Some l \<Rightarrow> l @ [x]) else map_of b i)"
  by (induction ids arbitrary: b) (auto simp: map_of_batch_push)

lemma distinct_fold_batch_push: "distinct (map fst b) \<Longrightarrow> distinct (map fst (fold (batch_push x) ids b))"
  by (induction ids arbitrary: b) (auto simp: distinct_batch_push)

lemma finite_get: "trie_holds t S \<Longrightarrow> finite (trie_get t key)"
proof -
  assume "trie_holds t S"
  then obtain ps where "represents t ps" by (auto simp: trie_holds_def)
  then have "trie_get t key \<subseteq> snd ` set ps" using represents_get [of t ps key] by force
  then show ?thesis by (rule finite_subset) simp
qed

lemma batch_entry_spec:
  assumes "hash_laws ho" "trie_holds t S"
  shows "map_of (batch_entry ho t e b) i =
      (if i \<in> trie_get t (KeyTs_serialize (e_key_ts e)) then Some (case map_of b i of None \<Rightarrow> [kv_of e] | Some l \<Rightarrow> l @ [kv_of e]) else map_of b i)"
    "distinct (map fst b) \<Longrightarrow> distinct (map fst (batch_entry ho t e b))"
proof -
  let ?ids = "trie_get t (KeyTs_serialize (e_key_ts e))"
  have "distinct (ho_set ho ?ids)" "set (ho_set ho ?ids) = ?ids" using assms finite_get by (auto simp: hash_laws_def)
  then show "map_of (batch_entry ho t e b) i =
      (if i \<in> ?ids then Some (case map_of b i of None \<Rightarrow> [kv_of e] | Some l \<Rightarrow> l @ [kv_of e]) else map_of b i)"
    by (simp add: batch_entry_def Let_def fold_batch_push)
  show "distinct (map fst b) \<Longrightarrow> distinct (map fst (batch_entry ho t e b))"
    by (simp add: batch_entry_def Let_def distinct_fold_batch_push)
qed

lemma batch_updates_spec:
  assumes "hash_laws ho" "trie_holds t S"
  shows "map_of (batch_updates ho t reqs_vec) i = nonempty (matching t i (written_entries reqs_vec))"
    "distinct (map fst (batch_updates ho t reqs_vec))"
proof -
  let ?b = "\<lambda>es. fold (batch_entry ho t) es []"
  have "map_of (?b es) i = nonempty (matching t i es)" for es
    by (induction es rule: rev_induct) (simp_all add: batch_entry_spec [OF assms] nonempty_def del: map_of_eq_Some_iff)
  moreover have "distinct (map fst (?b es))" for es
    by (induction es rule: rev_induct) (simp_all add: batch_entry_spec [OF assms])
  ultimately show "map_of (batch_updates ho t reqs_vec) i = nonempty (matching t i (written_entries reqs_vec))"
    "distinct (map fst (batch_updates ho t reqs_vec))" by (simp_all add: batch_updates_entries)
qed

definition receive :: "kv list option \<Rightarrow> subscriber \<Rightarrow> subscriber" where
  "receive kvs s = (case kvs of Some kvs \<Rightarrow> if sb_active s = 1 then s\<lparr>sb_channel := sb_channel s @ [kvs]\<rparr> else s | None \<Rightarrow> s)"

lemma send_batches_ok:
  assumes "distinct (map fst bs)"
    "\<And>i s. i \<in> fst ` set bs \<Longrightarrow> map_of subs i = Some s \<Longrightarrow> sb_active s = 1 \<Longrightarrow> sb_open s \<and> length (sb_channel s) < CHANNEL_CAPACITY"
  shows "\<exists>subs'. send_batches bs subs = Some (Inr (), subs') \<and>
    (\<forall>i. map_of subs' i = map_option (receive (map_of bs i)) (map_of subs i)) \<and> (distinct (map fst subs) \<longrightarrow> distinct (map fst subs'))"
  using assms
proof (induction bs arbitrary: subs)
  case Nil
  have "map_of subs i = map_option (receive None) (map_of subs i)" for i by (cases "map_of subs i") (simp_all add: receive_def)
  then show ?case by simp
next
  case (Cons b bs)
  obtain i kvs where b: "b = (i, kvs)" by (cases b)
  show ?case
  proof (cases "map_of subs i")
    case None
    obtain subs' where "send_batches bs subs = Some (Inr (), subs')"
      "\<forall>i. map_of subs' i = map_option (receive (map_of bs i)) (map_of subs i)" "distinct (map fst subs) \<longrightarrow> distinct (map fst subs')"
      using Cons.IH [of subs] Cons.prems by auto
    with None b show ?thesis by (intro exI [of _ subs']) (simp del: map_of_eq_None_iff)
  next
    case (Some s)
    let ?subs = "if sb_active s = 1 then AList.update i (s\<lparr>sb_channel := sb_channel s @ [kvs]\<rparr>) subs else subs"
    have other: "map_of ?subs j = (if j = i then Some (receive (Some kvs) s) else map_of subs j)" for j
      using Some by (simp add: receive_def map_of_update)
    have i: "i \<notin> fst ` set bs" using Cons.prems(1) b by auto
    have "\<exists>subs'. send_batches bs ?subs = Some (Inr (), subs') \<and>
      (\<forall>j. map_of subs' j = map_option (receive (map_of bs j)) (map_of ?subs j)) \<and> (distinct (map fst ?subs) \<longrightarrow> distinct (map fst subs'))"
    proof (rule Cons.IH)
      show "distinct (map fst bs)" using Cons.prems(1) by simp
      fix j u assume "j \<in> fst ` set bs" "map_of ?subs j = Some u" "sb_active u = 1"
      then show "sb_open u \<and> length (sb_channel u) < CHANNEL_CAPACITY"
        using i Cons.prems(2) [of j u] unfolding other by (cases "j = i") auto
    qed
    then obtain subs' where s': "send_batches bs ?subs = Some (Inr (), subs')"
      "\<And>j. map_of subs' j = map_option (receive (map_of bs j)) (map_of ?subs j)" "distinct (map fst ?subs) \<longrightarrow> distinct (map fst subs')" by blast
    have "send_batches (b # bs) subs = send_batches bs ?subs" using Some b Cons.prems(2) [of i s] by auto
    moreover have "map_of bs i = None" using i by (simp add: map_of_eq_None_iff)
    then have "map_of subs' j = map_option (receive (map_of (b # bs) j)) (map_of subs j)" for j
      using s'(2) [of j] Some b unfolding other by (auto simp: receive_def)
    moreover have "distinct (map fst subs) \<longrightarrow> distinct (map fst subs')" using s'(3) by (simp add: distinct_update)
    ultimately show ?thesis using s'(1) by auto
  qed
qed

section \<open>Reachable publishers\<close>

inductive pub_reach :: "hash_order \<Rightarrow> publisher \<Rightarrow> bool" for ho where
  new: "pub_reach ho PublisherInner_new"
| subscribe: "pub_reach ho p \<Longrightarrow> Subscriber_new (Closer_new 1) ms p = Inr (r, p') \<Longrightarrow> pub_reach ho p'"
| delete: "pub_reach ho p \<Longrightarrow> pub_reach ho (delete_subscribers i p)"
| send: "pub_reach ho p \<Longrightarrow> send_updates reqs p = Some p' \<Longrightarrow> pub_reach ho p'"
| listen: "pub_reach ho p \<Longrightarrow> listen_for_updates ho p = Some p' \<Longrightarrow> pub_reach ho p'"
| round: "pub_reach ho p \<Longrightarrow> subscribe_round fails i p = Some (kvs, continues, p') \<Longrightarrow> pub_reach ho p'"

lemma send_batches_keeps:
  "send_batches bs subs = Some (r, subs') \<Longrightarrow>
     map_option (\<lambda>s. (sb_matches s, sb_open s)) (map_of subs' i) = map_option (\<lambda>s. (sb_matches s, sb_open s)) (map_of subs i) \<and>
     (distinct (map fst subs) \<longrightarrow> distinct (map fst subs'))"
proof (induction bs arbitrary: subs)
  case (Cons b bs)
  obtain j kvs where b: "b = (j, kvs)" by (cases b)
  show ?case
  proof (cases "map_of subs j")
    case None
    with Cons b show ?thesis by (simp del: map_of_eq_None_iff)
  next
    case (Some s)
    let ?subs = "AList.update j (s\<lparr>sb_channel := sb_channel s @ [kvs]\<rparr>) subs"
    consider "send_batches bs subs = Some (r, subs')" | "subs' = subs" | "send_batches bs ?subs = Some (r, subs')"
      using Cons.prems b Some by (auto split: if_splits)
    then show ?thesis
    proof cases
      case 3
      from Cons.IH [OF this] Some show ?thesis by (auto simp: map_of_update distinct_update split: if_splits)
    qed (use Cons.IH in auto)
  qed
qed simp

lemma pub_inv_publish:
  assumes "pub_inv p" "publish_updates ho reqs_vec (p\<lparr>pb_queue := q\<rparr>) = Some (r, p')"
  shows "pub_inv p'"
proof -
  obtain subs where s: "send_batches (ho_map ho (batch_updates ho (pb_indexer p) reqs_vec)) (pb_subscribers p) = Some (r, subs)"
    "p' = p\<lparr>pb_queue := q, pb_subscribers := subs\<rparr>" using assms(2) by (auto simp: publish_updates_def)
  show ?thesis unfolding s(2) using assms(1) send_batches_keeps [OF s(1)] by (intro pub_inv_channels) (auto simp: pub_inv_def)
qed

lemma pub_inv_round:
  assumes "pub_inv p" "subscribe_round fails i p = Some (kvs, continues, p')"
  shows "pub_inv p'"
proof -
  obtain s where m: "map_of (pb_subscribers p) i = Some s" "sb_channel s \<noteq> []"
    using assms(2) by (auto simp: subscribe_round_def split: option.splits if_splits)
  define s' where "s' = (let s = s\<lparr>sb_channel := []\<rparr> in
    if continues then s else s\<lparr>sb_closer := closer_done (sb_closer s), sb_active := 0\<rparr>)"
  have s: "map_of (pb_subscribers p) i = Some s" "p' = p\<lparr>pb_subscribers := AList.update i s' (pb_subscribers p)\<rparr>"
    "sb_matches s' = sb_matches s" "sb_open s' = sb_open s"
    using assms(2) m by (cases "concat (sb_channel s) \<noteq> [] \<and> fails (concat (sb_channel s))";
      auto simp: subscribe_round_def Let_def s'_def simp del: map_of_eq_Some_iff concat_eq_Nil_conv)+
  have "pub_inv (p\<lparr>pb_queue := pb_queue p, pb_subscribers := AList.update i s' (pb_subscribers p)\<rparr>)"
    using assms(1) s by (intro pub_inv_channels) (simp_all add: pub_inv_def map_of_update distinct_update del: map_of_eq_Some_iff)
  then show ?thesis by (simp add: s(2))
qed

lemma reach_pub_inv: "pub_reach ho p \<Longrightarrow> pub_inv p"
proof (induction rule: pub_reach.induct)
  case new
  show ?case by (rule pub_inv_new)
next
  case (subscribe p ms r p')
  then show ?case by (blast intro: pub_inv_subscribe)
next
  case (delete p i)
  then show ?case by (blast intro: pub_inv_delete)
next
  case (send p reqs p')
  then have "p' = p\<lparr>pb_queue := pb_queue p', pb_subscribers := pb_subscribers p\<rparr>" by (auto simp: send_updates_def split: if_splits)
  with pub_inv_channels [OF send(3), of "pb_subscribers p"] send(3) show ?case by (metis pub_inv_def)
next
  case (listen p p')
  then show ?case by (auto simp: listen_for_updates_def intro: pub_inv_publish split: list.splits)
next
  case (round p fails i kvs continues p')
  then show ?case by (blast intro: pub_inv_round)
qed

section \<open>Properties\<close>

text \<open>Whether a subscriber has a pattern that the encoded key of an entry finds.\<close>

definition wanted :: "subscriber \<Rightarrow> entry \<Rightarrow> bool" where
  "wanted s e \<longleftrightarrow> (\<exists>m \<in> set (sb_matches s). found (pattern_of m) (KeyTs_serialize (e_key_ts e)))"

lemma indexed_wanted:
  assumes "pub_inv p" "map_of (pb_subscribers p) i = Some s" "sb_open s"
  shows "i \<in> trie_get (pb_indexer p) (KeyTs_serialize (e_key_ts e)) \<longleftrightarrow> wanted s e"
proof -
  have "trie_holds (pb_indexer p) (registered_matches p)" using assms(1) by (simp add: pub_inv_def)
  then have "i \<in> trie_get (pb_indexer p) (KeyTs_serialize (e_key_ts e)) \<longleftrightarrow>
      (\<exists>m. m \<in> set (takeWhile well_formed (sb_matches s)) \<and> found (pattern_of m) (KeyTs_serialize (e_key_ts e)))"
    using assms(2) by (simp add: pub.query_holds registered_matches_def del: map_of_eq_Some_iff)
  moreover have "takeWhile well_formed (sb_matches s) = sb_matches s"
    using assms by (simp add: pub_inv_def takeWhile_eq_all_conv list_all_iff del: map_of_eq_Some_iff)
  ultimately show ?thesis by (auto simp: wanted_def)
qed

lemma map_of_mset: "mset xs = mset ys \<Longrightarrow> distinct (map fst ys) \<Longrightarrow> distinct (map fst xs) \<and> map_of xs = map_of ys"
  by (metis map_of_inject_set mset_eq_setD mset_eq_imp_distinct_iff mset_map)


text \<open>A subscription that is refused because a later pattern cannot be read stays behind without a receiver.
  From then on no list of requests with an entry that one of its earlier patterns finds is
  published: the send fails, and with it the messages for the subscribers that come after it.\<close>

theorem refused_subscription_stops_updates:
  assumes "hash_laws ho" "pub_reach ho p" "Subscriber_new (Closer_new 1) ms p = Inr (Inl err, p1)"
    and "m \<in> set (takeWhile well_formed ms)" "e \<in> set (written_entries reqs_vec)" "found (pattern_of m) (KeyTs_serialize (e_key_ts e))"
  shows "\<not> (\<exists>p2. publish_updates ho reqs_vec p1 = Some (Inr (), p2))"
proof -
  let ?i = "pb_next_id p" and ?b = "batch_updates ho (pb_indexer p1) reqs_vec"
  have inv: "pub_inv p1" by (rule pub_inv_subscribe [OF reach_pub_inv [OF assms(2)] assms(3)])
  then have h: "trie_holds (pb_indexer p1) (registered_matches p1)" by (simp add: pub_inv_def)
  obtain s where s: "map_of (pb_subscribers p1) ?i = Some s" "sb_matches s = ms" "\<not> sb_open s" "sb_active s = 1"
    using assms(3) by (cases "index_matches ms ?i (pb_indexer p)") (auto simp: Subscriber_new_def and_then_Inr Let_def map_of_update split: option.splits)
  then have "?i \<in> trie_get (pb_indexer p1) (KeyTs_serialize (e_key_ts e))"
    using assms(4,6) by (auto simp: pub.query_holds [OF h] registered_matches_def simp del: map_of_eq_Some_iff)
  then have "map_of ?b ?i \<noteq> None" unfolding batch_updates_spec(1) [OF assms(1) h] nonempty_def using assms(5) by (auto simp: filter_empty_conv)
  then have "?i \<in> fst ` set (ho_map ho ?b)"
    using assms(1) by (metis hash_laws_def map_of_eq_None_iff mset_eq_setD)
  moreover have "\<not> (\<exists>subs'. send_batches bs subs = Some (Inr (), subs'))"
    if "?i \<in> fst ` set bs" "\<exists>s. map_of subs ?i = Some s \<and> \<not> sb_open s \<and> sb_active s = 1" for bs subs
    using that
  proof (induction bs arbitrary: subs)
    case (Cons b bs)
    then show ?case
      by (cases b; cases "fst b = ?i") (auto simp: map_of_update simp del: map_of_eq_Some_iff split: option.splits if_splits)
  qed simp
  ultimately show ?thesis using s by (auto simp: publish_updates_def simp del: map_of_eq_Some_iff)
qed

text \<open>Closing the publisher waits for ever for a subscriber that has no update left when it sees the signal: its
  task returns without telling the closer, and the publisher's task holds the lock meanwhile.\<close>

theorem shutdown_waits_for_idle_subscriber:
  assumes "(i, s) \<in> set (pb_subscribers p)" "drained i \<or> concat (sb_channel s) = []" "cl_permits (sb_closer s) < cl_count (sb_closer s)"
  shows "cleanup_subscribers drained p = None"
proof -
  have "cleanup_loop drained subs t = None" if "(i, s) \<in> set subs" for subs t
    using that
  proof (induction subs arbitrary: t)
    case (Cons x subs)
    show ?case
    proof (cases "x = (i, s)")
      case True
      with assms(2,3) show ?thesis
        by (cases "drained i") (simp_all add: Let_def subscribe_close_def closer_wait_def closer_signal_def)
    next
      case False
      then have "cleanup_loop drained subs u = None" for u using Cons by simp
      then show ?thesis by (cases x) (simp add: Let_def split: option.split)
    qed
  qed simp
  with assms(1) show ?thesis by (simp add: cleanup_subscribers_def)
qed

text \<open>The key that is looked up has its version behind it, so that a pattern longer than the key reads on into the
  version: a subscriber of the prefix \<open>a\<close> followed by a zero byte gets the updates of the key \<open>a\<close>.\<close>

theorem pattern_reads_version:
  "found (pattern_of \<lparr>mt_prefix = [97, 0], mt_ignore_bytes = []\<rparr>) (KeyTs_serialize (KeyTs [97] 1))"
  by (simp add: pattern_of_def parse_ignore_examples path_of_def KeyTs_serialize_def put_u64_def to_be_def)

section \<open>Instances\<close>

definition demo_ho :: hash_order where
  "demo_ho = \<lparr>ho_set = sorted_list_of_set, ho_map = rev\<rparr>"

lemma demo_ho_laws: "hash_laws demo_ho"
  by (simp add: hash_laws_def demo_ho_def)

definition all_keys :: match where "all_keys = \<lparr>mt_prefix = [], mt_ignore_bytes = []\<rparr>"

definition unreadable :: match where "unreadable = \<lparr>mt_prefix = [], mt_ignore_bytes = ''2-''\<rparr>"

lemma demo_patterns: "well_formed all_keys" "\<not> well_formed unreadable" "pattern_of all_keys = []"
  using parse_ignore_examples(4,5) by (simp_all add: well_formed_def pattern_of_def all_keys_def unreadable_def path_of_def)

definition demo_written :: "ValueLog.request list list" where "demo_written = [[[(demo_entry, ValuePointer_default)]]]"


theorem refused_subscription_stops_updates_witness:
  "\<exists>err p1. Subscriber_new (Closer_new 1) [all_keys, unreadable] PublisherInner_new = Inr (Inl err, p1) \<and>
     \<not> (\<exists>p2. publish_updates demo_ho demo_written p1 = Some (Inr (), p2))"
proof -
  let ?ms = "[all_keys, unreadable]"
  have "fst (index_matches ?ms 0 TrieNode_default) \<noteq> None"
    using index_matches_holds [of TrieNode_default "{}" ?ms 0] demo_patterns(2) pub_inv_new
    by (auto simp: pub_inv_def PublisherInner_new_def registered_matches_def)
  then obtain err t where t: "index_matches ?ms 0 TrieNode_default = (Some err, t)" by (metis not_None_eq prod.collapse)
  obtain p1 where n: "Subscriber_new (Closer_new 1) ?ms PublisherInner_new = Inr (Inl err, p1)"
    using t by (simp add: Subscriber_new_def PublisherInner_new_def add_checked_def Let_def del: index_matches.simps)
  have "\<not> (\<exists>p2. publish_updates demo_ho demo_written p1 = Some (Inr (), p2))"
    by (rule refused_subscription_stops_updates [OF demo_ho_laws pub_reach.new n, of all_keys demo_entry])
      (simp_all add: demo_patterns written_entries_def demo_written_def)
  with n show ?thesis by blast
qed

end
