(* ===== verification/WriteTask.thy ===== *)
theory WriteTask
  imports Db Publisher
begin

text \<open>
  The task that writes (\<open>DB::do_writes\<close> of \<open>src/src/write.rs\<close>): requests arrive over a channel, are
  collected while a batch is being written, and go to \<open>write_requests\<close> as the next batch when the batch before
  gives the permit back. \<open>write_reqs\<close> is \<open>write_requests\<close> with the publisher behind it. The branches of the
  \<open>select!\<close> are the rules of the step relation \<open>write_step\<close>, so that every interleaving with the senders, the batches
  and the publisher's task is covered.
\<close>

section \<open>Requests and batches\<close>

text \<open>\<open>wr_ticket\<close> is the identity of the one-shot channel the result goes to.\<close>

record write_req =
  wr_ticket :: nat
  wr_entries :: "ValueLog.request"

definition KV_WRITES_ENTRIES_CHANNEL_CAPACITY :: nat where "KV_WRITES_ENTRIES_CHANNEL_CAPACITY = 1000"

text \<open>\<open>write_to_memtable\<close> changes the entries of the request, so that the publisher is handed what the memtable stores.\<close>

definition stored_request :: "ValueLog.request \<Rightarrow> ValueLog.request" where
  "stored_request req = map (\<lambda>ev. (stored_entry ev, snd ev)) req"

text \<open>\<open>None\<close>: the writer waits, for instance for room in the publisher's channel.\<close>

definition write_reqs :: "db_host \<Rightarrow> write_req list \<Rightarrow> db \<times> publisher \<Rightarrow> (db \<times> publisher) outcome option" where
  "write_reqs host reqs dp =
     (if reqs = [] then Some (Inr dp)
      else case vlog_write (dh_vlog host) (map wr_entries reqs) (db_vlog (fst dp)) of
        Inl f \<Rightarrow> Some (Inl f)
      | Inr (rs, vl) \<Rightarrow>
        (case write_memtable_requests host rs ((fst dp)\<lparr>db_vlog := vl\<rparr>) of
           None \<Rightarrow> None
         | Some (Inl f) \<Rightarrow> Some (Inl f)
         | Some (Inr d) \<Rightarrow> map_option (\<lambda>p. Inr (d, p)) (send_updates (map stored_request rs) (snd dp))))"

text \<open>The database after a batch is what \<open>Db.write_requests\<close> makes of it.\<close>

lemma write_reqs_db:
  "write_reqs host reqs (d, p) = Some (Inr (d', p')) \<Longrightarrow> write_requests host (map wr_entries reqs) d = Some (Inr d')"
  by (auto simp: write_reqs_def write_requests_def split: if_splits sum.splits option.splits)

section \<open>The task\<close>

datatype write_phase = Waiting | Collecting | Draining | Closing | Finishing | Ended

text \<open>
  \<open>wt_handles\<close> counts the \<open>DB\<close> handles outside the task and its batches, \<open>wt_permit\<close> is the permit of \<open>notify_send\<close>,
  \<open>wt_running\<close> are the batches that have been started and have not ended. For the properties the state keeps
  \<open>wt_sent\<close>, everything ever sent, \<open>wt_written\<close>, the batches that have ended, \<open>wt_results\<close>, the result each request
  carried when it was dropped, and \<open>wt_panicked\<close>, whether a batch has panicked.
\<close>

record write_task =
  wt_phase :: write_phase
  wt_channel :: "write_req list"
  wt_handles :: nat
  wt_pending :: "write_req list"
  wt_permit :: bool
  wt_running :: "write_req list list"
  wt_closer :: closer
  wt_db :: db
  wt_pub :: publisher
  wt_sent :: "write_req list"
  wt_written :: "write_req list list"
  wt_results :: "(nat \<times> unit outcome) list"
  wt_panicked :: bool

definition do_writes_init :: "db \<Rightarrow> publisher \<Rightarrow> nat \<Rightarrow> write_task" where
  "do_writes_init d p handles =
     \<lparr>wt_phase = Waiting, wt_channel = [], wt_handles = handles, wt_pending = [], wt_permit = True, wt_running = [],
      wt_closer = Closer_new 1, wt_db = d, wt_pub = p, wt_sent = [], wt_written = [], wt_results = [], wt_panicked = False\<rparr>"

text \<open>The task owns a handle until it returns, and every batch owns one; the channel's sender is in the handle.\<close>

definition senders :: "write_task \<Rightarrow> nat" where
  "senders wt = wt_handles wt + (if wt_phase wt = Ended then 0 else 1) + length (wt_running wt)"

text \<open>\<open>Receiver::recv\<close>: a request, \<open>Some None\<close> when every sender is gone, \<open>None\<close> while it waits.\<close>

definition recv :: "write_task \<Rightarrow> (write_req option \<times> write_task) option" where
  "recv wt =
     (case wt_channel wt of
        r # rs \<Rightarrow> Some (Some r, wt\<lparr>wt_channel := rs\<rparr>)
      | [] \<Rightarrow> if senders wt = 0 then Some (None, wt) else None)"

text \<open>\<open>send_entires_to_write_channel\<close> with the ticket of the request; a full channel makes the sender wait.\<close>

definition send_req :: "nat \<Rightarrow> entry list \<Rightarrow> write_task \<Rightarrow> write_task outcome option" where
  "send_req ticket entries wt =
     (if db_block_writes (wt_db wt) then Some (Inl (Bail BlockedWrites))
      else if length (wt_channel wt) \<ge> KV_WRITES_ENTRIES_CHANNEL_CAPACITY then None
      else let r = \<lparr>wr_ticket = ticket, wr_entries = WriteReq_new entries\<rparr> in
        Some (Inr (wt\<lparr>wt_channel := wt_channel wt @ [r], wt_sent := wt_sent wt @ [r]\<rparr>)))"

definition batch_full :: "write_task \<Rightarrow> bool" where
  "batch_full wt \<longleftrightarrow> length (wt_pending wt) \<ge> 3 * KV_WRITES_ENTRIES_CHANNEL_CAPACITY"

text \<open>The task's own selects, and the loop that drains the channel.\<close>

definition receives :: "write_task \<Rightarrow> bool" where
  "receives wt \<longleftrightarrow> wt_phase wt = Waiting \<or> wt_phase wt = Collecting \<and> \<not> batch_full wt \<or> wt_phase wt = Draining"

definition push_req :: "write_req \<Rightarrow> write_task \<Rightarrow> write_task" where
  "push_req r wt = wt\<lparr>wt_pending := wt_pending wt @ [r], wt_phase := (if wt_phase wt = Waiting then Collecting else wt_phase wt)\<rparr>"

definition captures :: "write_task \<Rightarrow> bool" where
  "captures wt \<longleftrightarrow> cl_notified (wt_closer wt) \<and> (wt_phase wt = Waiting \<or> wt_phase wt = Collecting \<and> \<not> batch_full wt)"

definition capture :: "write_task \<Rightarrow> write_task" where
  "capture wt = wt\<lparr>wt_phase := Draining, wt_closer := (wt_closer wt)\<lparr>cl_notified := False\<rparr>\<rparr>"

definition start_batch :: "write_phase \<Rightarrow> write_task \<Rightarrow> write_task" where
  "start_batch ph wt = wt\<lparr>wt_phase := ph, wt_permit := False, wt_running := wt_running wt @ [wt_pending wt], wt_pending := []\<rparr>"

text \<open>
  The end of the batch \<open>b\<close>, which leaves \<open>rest\<close> running, with the result \<open>r\<close> its requests carry when they are dropped.
  A batch that ends, well or with an error, gives the permit back; the code behind a panic is not reached. The
  task's last batch is written by the task itself, whose \<open>defer!\<close> runs in every case.
\<close>

definition end_batch :: "bool \<Rightarrow> unit outcome \<Rightarrow> write_req list \<Rightarrow> write_req list list \<Rightarrow> db \<times> publisher \<Rightarrow> write_task \<Rightarrow> write_task" where
  "end_batch panics r b rest dp wt =
     (let wt = wt\<lparr>wt_running := rest, wt_db := fst dp, wt_pub := snd dp, wt_written := wt_written wt @ [b],
                  wt_results := wt_results wt @ map (\<lambda>q. (wr_ticket q, r)) b,
                  wt_permit := (if panics then wt_permit wt else True), wt_panicked := (wt_panicked wt \<or> panics)\<rparr>
      in if wt_phase wt = Finishing then wt\<lparr>wt_phase := Ended, wt_closer := closer_done (wt_closer wt)\<rparr> else wt)"

text \<open>
  A request is made with the result \<open>Ok\<close> (\<open>WriteReq::new\<close>), which \<open>handle_err\<close> replaces. What a batch that does
  not succeed leaves of the database and of the publisher is arbitrary.
\<close>

inductive write_step :: "db_host \<Rightarrow> hash_order \<Rightarrow> write_task \<Rightarrow> write_task \<Rightarrow> bool" for host ho where
  send: "wt_handles wt > 0 \<Longrightarrow> send_req ticket entries wt = Some (Inr wt') \<Longrightarrow> write_step host ho wt wt'"
| clone: "wt_handles wt > 0 \<Longrightarrow> write_step host ho wt (wt\<lparr>wt_handles := wt_handles wt + 1\<rparr>)"
| release: "wt_handles wt > 0 \<Longrightarrow> write_step host ho wt (wt\<lparr>wt_handles := wt_handles wt - 1\<rparr>)"
| signal: "write_step host ho wt (wt\<lparr>wt_closer := closer_signal (wt_closer wt)\<rparr>)"
| listen: "listen_for_updates ho (wt_pub wt) = Some p \<Longrightarrow> write_step host ho wt (wt\<lparr>wt_pub := p\<rparr>)"
| receive: "receives wt \<Longrightarrow> recv wt = Some (Some r, wt') \<Longrightarrow> write_step host ho wt (push_req r wt')"
| capture: "captures wt \<Longrightarrow> write_step host ho wt (capture wt)"
| spawn: "wt_phase wt = Collecting \<Longrightarrow> wt_permit wt \<Longrightarrow> write_step host ho wt (start_batch Waiting wt)"
| drained: "wt_phase wt = Draining \<Longrightarrow> recv wt = Some (None, wt') \<Longrightarrow> write_step host ho wt (wt'\<lparr>wt_phase := Closing\<rparr>)"
| last_batch: "wt_phase wt = Closing \<Longrightarrow> wt_permit wt \<Longrightarrow> write_step host ho wt (start_batch Finishing wt)"
| wrote: "wt_running wt = xs @ b # ys \<Longrightarrow> write_reqs host b (wt_db wt, wt_pub wt) = Some (Inr dp) \<Longrightarrow>
    write_step host ho wt (end_batch False (Inr ()) b (xs @ ys) dp wt)"
| failed: "wt_running wt = xs @ b # ys \<Longrightarrow> write_reqs host b (wt_db wt, wt_pub wt) = Some (Inl f) \<Longrightarrow> f \<noteq> Panic \<Longrightarrow>
    write_step host ho wt (end_batch False (Inl f) b (xs @ ys) dp wt)"
| panicked: "wt_running wt = xs @ b # ys \<Longrightarrow> write_reqs host b (wt_db wt, wt_pub wt) = Some (Inl Panic) \<Longrightarrow>
    write_step host ho wt (end_batch True (Inr ()) b (xs @ ys) dp wt)"

inductive wt_reach :: "db_host \<Rightarrow> hash_order \<Rightarrow> db \<Rightarrow> publisher \<Rightarrow> write_task \<Rightarrow> bool" for host ho d p where
  init: "wt_reach host ho d p (do_writes_init d p handles)"
| step: "wt_reach host ho d p wt \<Longrightarrow> write_step host ho wt wt' \<Longrightarrow> wt_reach host ho d p wt'"

section \<open>What the steps keep\<close>

text \<open>A predicate that every step keeps holds ever after.\<close>

locale kept_by =
  fixes step :: "'s \<Rightarrow> 's \<Rightarrow> bool" and inv :: "'s \<Rightarrow> bool"
  assumes inv_step: "inv s \<Longrightarrow> step s s' \<Longrightarrow> inv s'"
begin

lemma inv_steps: "step\<^sup>*\<^sup>* s s' \<Longrightarrow> inv s \<Longrightarrow> inv s'"
  by (induction rule: rtranclp_induct) (auto intro: inv_step)

end

text \<open>Writing batches one after another, the specification of the task.\<close>

fun write_batches :: "db_host \<Rightarrow> write_req list list \<Rightarrow> db \<Rightarrow> db outcome option" where
  "write_batches host [] d = Some (Inr d)"
| "write_batches host (b # bs) d =
     (case write_requests host (map wr_entries b) d of
        None \<Rightarrow> None
      | Some (Inl f) \<Rightarrow> Some (Inl f)
      | Some (Inr d) \<Rightarrow> write_batches host bs d)"

lemma write_batches_snoc:
  "write_batches host bs d = Some (Inr d1) \<Longrightarrow> write_requests host (map wr_entries b) d1 = Some (Inr d2) \<Longrightarrow>
     write_batches host (bs @ [b]) d = Some (Inr d2)"
  by (induction bs arbitrary: d) (auto split: option.splits sum.splits)

text \<open>
  Nothing is lost, doubled or reordered; the permit is free exactly when no batch runs, unless one has panicked; the
  task never gets past the draining of the channel.
\<close>

definition all_ok :: "write_task \<Rightarrow> bool" where
  "all_ok wt \<longleftrightarrow> \<not> wt_panicked wt \<and> (\<forall>(t, r) \<in> set (wt_results wt). r = Inr ())"

definition in_order :: "db_host \<Rightarrow> db \<Rightarrow> write_task \<Rightarrow> bool" where
  "in_order host d wt \<longleftrightarrow>
     wt_sent wt = concat (wt_written wt) @ concat (wt_running wt) @ wt_pending wt @ wt_channel wt \<and>
     length (wt_running wt) + (if wt_permit wt then 1 else 0) + (if wt_panicked wt then 1 else 0) = (1::nat) \<and>
     (\<forall>b \<in> set (wt_running wt). b \<noteq> []) \<and>
     wt_phase wt \<in> {Waiting, Collecting, Draining} \<and> (wt_phase wt = Waiting \<longrightarrow> wt_pending wt = []) \<and> (wt_phase wt = Collecting \<longrightarrow> wt_pending wt \<noteq> []) \<and>
     cl_permits (wt_closer wt) = 0 \<and>
     (all_ok wt \<longrightarrow> write_batches host (wt_written wt) d = Some (Inr (wt_db wt)))"

lemma in_order_init: "in_order host d (do_writes_init d p handles)"
  by (simp add: in_order_def do_writes_init_def Closer_new_def)

lemma recv_alive: "wt_phase wt \<noteq> Ended \<Longrightarrow> recv wt \<noteq> Some (None, wt')"
  by (simp add: recv_def senders_def split: list.splits)

lemma recv_Some: "recv wt = Some (Some r, wt') \<Longrightarrow> \<exists>rs. wt_channel wt = r # rs \<and> wt' = wt\<lparr>wt_channel := rs\<rparr>"
  by (auto simp: recv_def split: list.splits if_splits)

lemma send_req_Some:
  "send_req ticket entries wt = Some (Inr wt') \<Longrightarrow>
     \<exists>r. wt' = wt\<lparr>wt_channel := wt_channel wt @ [r], wt_sent := wt_sent wt @ [r]\<rparr>"
  by (auto simp: send_req_def Let_def split: if_splits)

text \<open>Where one batch runs, it is the only one.\<close>

lemma in_order_running:
  assumes "in_order host d wt" "wt_running wt = xs @ b # ys"
  shows "wt_running wt = [b]" "xs = []" "ys = []" "\<not> wt_permit wt" "\<not> wt_panicked wt" "b \<noteq> []" "wt_phase wt \<noteq> Finishing"
proof -
  have l: "length (wt_running wt) + (if wt_permit wt then 1 else 0) + (if wt_panicked wt then 1 else 0) = (1::nat)"
    and b: "\<forall>b \<in> set (wt_running wt). b \<noteq> []" and ph: "wt_phase wt \<in> {Waiting, Collecting, Draining}"
    using assms(1) unfolding in_order_def by blast+
  show "xs = []" "ys = []" "\<not> wt_permit wt" "\<not> wt_panicked wt" using l assms(2) by (cases xs; simp split: if_splits)+
  then show "wt_running wt = [b]" "b \<noteq> []" using assms(2) b by auto
  show "wt_phase wt \<noteq> Finishing" using ph by auto
qed

lemma end_batch_in_order:
  assumes "in_order host d wt" "wt_running wt = xs @ b # ys"
    "panics = False \<and> r = Inr () \<longrightarrow> write_reqs host b (wt_db wt, wt_pub wt) = Some (Inr dp)"
  shows "in_order host d (end_batch panics r b (xs @ ys) dp wt)"
proof -
  note f = in_order_running [OF assms(1,2)]
  define wt' where "wt' = end_batch panics r b (xs @ ys) dp wt"
  have e: "wt' = wt\<lparr>wt_running := [], wt_db := fst dp, wt_pub := snd dp, wt_written := wt_written wt @ [b],
      wt_results := wt_results wt @ map (\<lambda>q. (wr_ticket q, r)) b, wt_permit := \<not> panics, wt_panicked := panics\<rparr>"
    using f by (simp add: wt'_def end_batch_def Let_def)
  have ok: "all_ok wt' \<Longrightarrow> all_ok wt \<and> \<not> panics \<and> r = Inr ()"
    using f(6) unfolding e by (cases b) (simp_all add: all_ok_def f(5) ball_Un)
  have "write_batches host (wt_written wt') d = Some (Inr (wt_db wt'))" if a: "all_ok wt'"
  proof -
    have "write_requests host (map wr_entries b) (wt_db wt) = Some (Inr (fst dp))"
      using ok [OF a] assms(3) write_reqs_db [of host b _ _ "fst dp" "snd dp"] by simp
    moreover have "write_batches host (wt_written wt) d = Some (Inr (wt_db wt))" using ok [OF a] assms(1) by (simp add: in_order_def)
    ultimately show ?thesis unfolding e by (simp add: write_batches_snoc)
  qed
  moreover have "wt_sent wt = concat (wt_written wt) @ b @ wt_pending wt @ wt_channel wt" using assms(1) f(1) by (simp add: in_order_def)
  ultimately have "in_order host d wt'" using assms(1) unfolding in_order_def e by simp
  then show ?thesis by (simp add: wt'_def)
qed

lemma in_order_step: "write_step host ho wt wt' \<Longrightarrow> in_order host d wt \<Longrightarrow> in_order host d wt'"
proof (induction rule: write_step.induct)
  case (send wt ticket entries wt')
  obtain r where "wt' = wt\<lparr>wt_channel := wt_channel wt @ [r], wt_sent := wt_sent wt @ [r]\<rparr>" using send_req_Some [OF send(2)] by blast
  with send(3) show ?case by (simp add: in_order_def all_ok_def)
next
  case (receive wt r wt')
  obtain rs where "wt_channel wt = r # rs" "wt' = wt\<lparr>wt_channel := rs\<rparr>" using recv_Some [OF receive(2)] by blast
  with receive(1,3) show ?case by (cases "wt_phase wt") (simp_all add: in_order_def all_ok_def push_req_def receives_def)
next
  case (drained wt wt')
  then show ?case using recv_alive [of wt wt'] by simp
next
  case (wrote wt xs b ys dp)
  then show ?case by (intro end_batch_in_order) simp_all
next
  case (failed wt xs b ys f dp)
  then show ?case by (intro end_batch_in_order) simp_all
next
  case (panicked wt xs b ys dp)
  then show ?case by (intro end_batch_in_order) simp_all
qed (simp_all add: in_order_def all_ok_def closer_signal_def capture_def captures_def start_batch_def)

lemma reach_in_order: "wt_reach host ho d p wt \<Longrightarrow> in_order host d wt"
  by (induction rule: wt_reach.induct) (auto intro: in_order_init in_order_step)

text \<open>While the task drains the channel, what was written or running stays the same, and what is pending only grows.\<close>

definition stranded :: "db_host \<Rightarrow> db \<Rightarrow> write_req list \<Rightarrow> write_req list \<Rightarrow> write_task \<Rightarrow> bool" where
  "stranded host d done pending wt \<longleftrightarrow> in_order host d wt \<and> wt_phase wt = Draining \<and>
     concat (wt_written wt) @ concat (wt_running wt) = done \<and> (\<exists>rs. wt_pending wt = pending @ rs)"

text \<open>A panicked batch leaves no permit behind.\<close>

definition permit_lost :: "db_host \<Rightarrow> db \<Rightarrow> write_req list list \<Rightarrow> (nat \<times> unit outcome) list \<Rightarrow> write_task \<Rightarrow> bool" where
  "permit_lost host d written results wt \<longleftrightarrow> in_order host d wt \<and> wt_panicked wt \<and> wt_running wt = [] \<and> \<not> wt_permit wt \<and>
     wt_written wt = written \<and> wt_results wt = results"

lemma end_batch_facts:
  assumes "in_order host d wt" "wt_running wt = xs @ b # ys"
  shows "concat (wt_written (end_batch panics r b (xs @ ys) dp wt)) @ concat (wt_running (end_batch panics r b (xs @ ys) dp wt)) =
      concat (wt_written wt) @ concat (wt_running wt)"
    "wt_phase (end_batch panics r b (xs @ ys) dp wt) = wt_phase wt" "wt_pending (end_batch panics r b (xs @ ys) dp wt) = wt_pending wt"
  using in_order_running [OF assms] by (simp_all add: end_batch_def Let_def)

lemma stranded_step: "write_step host ho wt wt' \<Longrightarrow> stranded host d w pd wt \<Longrightarrow> stranded host d w pd wt'"
proof -
  assume st: "write_step host ho wt wt'" and s: "stranded host d w pd wt"
  have o: "in_order host d wt'" using in_order_step [OF st] s by (simp add: stranded_def)
  from st s have "wt_phase wt' = Draining \<and> concat (wt_written wt') @ concat (wt_running wt') = w \<and> (\<exists>rs. wt_pending wt' = pd @ rs)"
  proof (induction rule: write_step.induct)
    case (send wt ticket entries wt')
    then show ?case using send_req_Some [OF send(2)] by (auto simp: stranded_def)
  next
    case (receive wt r wt')
    then show ?case using recv_Some [OF receive(2)] by (auto simp: stranded_def push_req_def)
  next
    case (drained wt wt')
    then show ?case using recv_alive [of wt wt'] by simp
  qed (auto simp: stranded_def captures_def end_batch_facts)
  with o show ?thesis by (simp add: stranded_def)
qed

lemma permit_lost_step: "write_step host ho wt wt' \<Longrightarrow> permit_lost host d w rs wt \<Longrightarrow> permit_lost host d w rs wt'"
proof -
  assume st: "write_step host ho wt wt'" and s: "permit_lost host d w rs wt"
  have o: "in_order host d wt'" using in_order_step [OF st] s by (simp add: permit_lost_def)
  from st s have "wt_panicked wt' \<and> wt_running wt' = [] \<and> \<not> wt_permit wt' \<and> wt_written wt' = w \<and> wt_results wt' = rs"
  proof (induction rule: write_step.induct)
    case (send wt ticket entries wt')
    then show ?case using send_req_Some [OF send(2)] by (auto simp: permit_lost_def)
  next
    case (receive wt r wt')
    then show ?case using recv_Some [OF receive(2)] by (auto simp: permit_lost_def push_req_def)
  next
    case (drained wt wt')
    then show ?case using recv_alive [of wt wt'] by (auto simp: permit_lost_def)
  qed (auto simp: permit_lost_def capture_def)
  with o show ?thesis by (simp add: permit_lost_def)
qed

interpretation stranding: kept_by "write_step host ho" "stranded host d w pd" for host ho d w pd
  by unfold_locales (rule stranded_step)

interpretation losing: kept_by "write_step host ho" "permit_lost host d w rs" for host ho d w rs
  by unfold_locales (rule permit_lost_step)

section \<open>Properties\<close>


text \<open>C40: The task that sees the close signal waits for the end of the channel, whose sender is in the handle the task
  itself holds: it never gets past that loop, what is pending is never written and the closer is never told.\<close>

theorem closing_strands_requests:
  assumes "wt_reach host ho d p wt" "captures wt" "(write_step host ho)\<^sup>*\<^sup>* (capture wt) wt'"
  shows "wt_phase wt' = Draining \<and> cl_permits (wt_closer wt') = 0 \<and> (\<exists>rs. wt_pending wt' = wt_pending wt @ rs) \<and>
    concat (wt_written wt') @ concat (wt_running wt') = concat (wt_written wt) @ concat (wt_running wt)"
proof -
  have "in_order host d (capture wt)"
    using in_order_step [OF write_step.capture [OF assms(2)] reach_in_order [OF assms(1)]] .
  then have "stranded host d (concat (wt_written wt) @ concat (wt_running wt)) (wt_pending wt) (capture wt)"
    by (simp add: stranded_def capture_def)
  from stranding.inv_steps [OF assms(3) this] show ?thesis by (simp add: stranded_def in_order_def)
qed

text \<open>A batch that panics does not give the permit back: no batch is ever started again, while its requests are
  answered with success, the result they were made with.\<close>

theorem panicked_batch_stops_writes:
  assumes "wt_reach host ho d p wt" "wt_running wt = [b]" "write_reqs host b (wt_db wt, wt_pub wt) = Some (Inl Panic)"
    "(write_step host ho)\<^sup>*\<^sup>* (end_batch True (Inr ()) b [] dp wt) wt'"
  shows "wt_running wt' = [] \<and> wt_written wt' = wt_written wt @ [b] \<and> (\<forall>q \<in> set b. (wr_ticket q, Inr ()) \<in> set (wt_results wt'))"
proof -
  let ?wt = "end_batch True (Inr ()) b [] dp wt"
  have i: "in_order host d wt" by (rule reach_in_order [OF assms(1)])
  have "write_step host ho wt (end_batch True (Inr ()) b ([] @ []) dp wt)" by (rule write_step.panicked) (simp_all add: assms)
  then have "in_order host d ?wt" using in_order_step i by fastforce
  moreover have "\<not> wt_permit wt" "wt_phase wt \<noteq> Finishing" using in_order_running [OF i, of "[]" b "[]"] assms(2) by simp_all
  ultimately have "permit_lost host d (wt_written wt @ [b]) (wt_results wt @ map (\<lambda>q. (wr_ticket q, Inr ())) b) ?wt"
    by (simp add: permit_lost_def end_batch_def Let_def)
  from losing.inv_steps [OF assms(4) this] show ?thesis by (auto simp: permit_lost_def)
qed

text \<open>What a subscriber is given for a value that went to the value log is the pointer.\<close>

lemma subscriber_given_pointer:
  assumes "\<not> ValuePointer_is_empty vptr"
  shows "stored_request [(e, vptr)] = [(stored_entry (e, vptr), vptr)] \<and> kv_value (kv_of (stored_entry (e, vptr))) = ValuePointer_serialize vptr"
  using assms by (simp add: stored_request_def stored_entry_def kv_of_def Entry_set_simps)

section \<open>An instance\<close>

definition demo_db_host :: db_host where
  "demo_db_host = \<lparr>dh_vlog = demo_host, dh_coins = (\<lambda>_. []), dh_mem_draws = vh_draws demo_host\<rparr>"

definition demo_read_only :: "value_log \<Rightarrow> db" where
  "demo_read_only vl = demo_db\<lparr>db_memtable := None, db_vlog := vl\<rparr>"

definition demo_reqs :: "write_req list" where
  "demo_reqs = map (\<lambda>t. \<lparr>wr_ticket = t, wr_entries = WriteReq_new [demo_entry]\<rparr>) [1, 2]"

text \<open>Two requests are sent; the first is running, the second pending.\<close>

definition demo_busy :: "db \<Rightarrow> write_task" where
  "demo_busy d = (do_writes_init d PublisherInner_new 1)\<lparr>wt_phase := Collecting, wt_permit := False,
     wt_running := [[demo_reqs ! 0]], wt_pending := [demo_reqs ! 1], wt_sent := demo_reqs\<rparr>"

lemma demo_busy_reach:
  assumes "\<not> db_block_writes d"
  shows "wt_reach demo_db_host ho d PublisherInner_new (demo_busy d)"
proof -
  let ?R = "wt_reach demo_db_host ho d PublisherInner_new"
  define w0 where "w0 = do_writes_init d PublisherInner_new 1"
  define w2 where "w2 = w0\<lparr>wt_channel := demo_reqs, wt_sent := demo_reqs\<rparr>"
  have r0: "?R w0" unfolding w0_def by (rule wt_reach.init)
  have s: "send_req 1 [demo_entry] w0 = Some (Inr (w0\<lparr>wt_channel := [demo_reqs ! 0], wt_sent := [demo_reqs ! 0]\<rparr>))"
    "send_req 2 [demo_entry] (w0\<lparr>wt_channel := [demo_reqs ! 0], wt_sent := [demo_reqs ! 0]\<rparr>) = Some (Inr w2)"
    using assms by (simp_all add: w2_def w0_def do_writes_init_def send_req_def Let_def demo_reqs_def KV_WRITES_ENTRIES_CHANNEL_CAPACITY_def)
  have "?R (w0\<lparr>wt_channel := [demo_reqs ! 0], wt_sent := [demo_reqs ! 0]\<rparr>)"
    by (rule wt_reach.step [OF r0 write_step.send [OF _ s(1)]]) (simp add: w0_def do_writes_init_def)
  then have r2: "?R w2" by (rule wt_reach.step [OF _ write_step.send [OF _ s(2)]]) (simp add: w0_def do_writes_init_def)
  define w3 where "w3 = push_req (demo_reqs ! 0) (w2\<lparr>wt_channel := [demo_reqs ! 1]\<rparr>)"
  have "?R w3" unfolding w3_def
    by (rule wt_reach.step [OF r2 write_step.receive]) (simp_all add: w2_def w0_def do_writes_init_def receives_def recv_def demo_reqs_def)
  then have r4: "?R (start_batch Waiting w3)"
    by (rule wt_reach.step [OF _ write_step.spawn]) (simp_all add: w3_def push_req_def w2_def w0_def do_writes_init_def)
  have "?R (push_req (demo_reqs ! 1) (start_batch Waiting w3\<lparr>wt_channel := []\<rparr>))"
    by (rule wt_reach.step [OF r4 write_step.receive])
      (simp_all add: start_batch_def w3_def push_req_def w2_def w0_def do_writes_init_def receives_def recv_def)
  moreover have "push_req (demo_reqs ! 1) (start_batch Waiting w3\<lparr>wt_channel := []\<rparr>) = demo_busy d"
    by (simp add: demo_busy_def start_batch_def w3_def push_req_def w2_def w0_def do_writes_init_def)
  ultimately show ?thesis by simp
qed


theorem closing_strands_requests_witness:
  "\<exists>wt. captures wt \<and> wt_pending wt = [demo_reqs ! 1] \<and> wt_phase (capture wt) = Draining \<and> (\<exists>rs. wt_pending (capture wt) = demo_reqs ! 1 # rs)"
proof -
  define wt where "wt = (demo_busy demo_db)\<lparr>wt_closer := closer_signal (wt_closer (demo_busy demo_db))\<rparr>"
  have r: "wt_reach demo_db_host ho demo_db PublisherInner_new wt" for ho
    unfolding wt_def by (intro wt_reach.step [OF demo_busy_reach write_step.signal]) (simp add: demo_db_def)
  have c: "captures wt" "wt_pending wt = [demo_reqs ! 1]"
    by (simp_all add: captures_def wt_def demo_busy_def closer_signal_def batch_full_def KV_WRITES_ENTRIES_CHANNEL_CAPACITY_def)
  from closing_strands_requests [OF r c(1) rtranclp.rtrancl_refl] c show ?thesis by (intro exI [of _ wt]) simp
qed

lemma vlog_write_entries_length: "vlog_write_entries host evs vl = Inr (evs', n, vl') \<Longrightarrow> length evs' = length evs"
  by (induction evs arbitrary: vl evs' n vl') (auto simp: and_then_Inr split: prod.splits)

theorem panicked_batch_stops_writes_witness:
  "\<exists>vl. create_vlog_file demo_host demo_vlog = Inr vl \<and>
    write_reqs demo_db_host [demo_reqs ! 0] (demo_read_only vl, PublisherInner_new) = Some (Inl Panic) \<and>
    (1, Inr ()) \<in> set (wt_results (end_batch True (Inr ()) [demo_reqs ! 0] [] (demo_read_only vl, PublisherInner_new) (demo_busy (demo_read_only vl))))"
proof -
  obtain vl where vl: "create_vlog_file demo_host demo_vlog = Inr vl" "plain_ok vl" "vl_config vl = vl_config demo_vlog"
    "vl_max_fid vl = 1" "validate_write vl [[(demo_entry, ValuePointer_default)]] = Inr ()" by (rule demo_vlog_open)
  have sz: "vc_vlog_file_size (vl_config vl) > 0" unfolding vl(3) by (simp add: demo_vlog_def ValueLog_new_def)
  obtain reqs' vl' where w: "vlog_write demo_host [[(demo_entry, ValuePointer_default)]] vl = Inr (reqs', vl')"
    using vlog_write_plain [OF vl(2) demo_host_ok sz _ vl(5)] vl(4) by auto
  obtain req n vl1 where q: "vlog_write_entries demo_host [(demo_entry, ValuePointer_default)] vl = Inr (req, n, vl1)" "reqs' = [req]"
    using w by (auto simp: vlog_write_def and_then_Inr simp del: vlog_write_entries.simps)
  have "req \<noteq> []" using vlog_write_entries_length [OF q(1)] by auto
  then have p: "write_reqs demo_db_host [demo_reqs ! 0] (demo_read_only vl, PublisherInner_new) = Some (Inl Panic)"
    using w by (simp add: write_reqs_def demo_reqs_def WriteReq_new_def demo_db_host_def demo_read_only_def q(2) ensure_boom_for_write_def)
  have "wt_reach demo_db_host ho (demo_read_only vl) PublisherInner_new (demo_busy (demo_read_only vl))" for ho
    by (rule demo_busy_reach) (simp add: demo_read_only_def demo_db_def)
  from panicked_batch_stops_writes [OF this _ _ rtranclp.rtrancl_refl, of "[demo_reqs ! 0]" "(demo_read_only vl, PublisherInner_new)"] p
  have "(1, Inr ()) \<in> set (wt_results (end_batch True (Inr ()) [demo_reqs ! 0] [] (demo_read_only vl, PublisherInner_new) (demo_busy (demo_read_only vl))))"
    by (simp add: demo_busy_def do_writes_init_def demo_reqs_def)
  with vl(1) p show ?thesis by blast
qed

end
