(* ===== verification/Search.thy ===== *)
theory Search
  imports Prelude
begin

text \<open>
  \<open>slice::binary_search_by\<close> of the standard library, which blocks, tables and levels
  search with, as its loop over \<open>left\<close>, \<open>right\<close> and \<open>size\<close>, and what it returns on a slice that
  is sorted for the comparison: \<open>Inr i\<close> is \<open>Ok(i)\<close>, \<open>Inl i\<close> is \<open>Err(i)\<close>.
\<close>

function bsearch :: "(nat \<Rightarrow> ordering) \<Rightarrow> nat \<Rightarrow> nat \<Rightarrow> nat + nat" where
  "bsearch f left right =
     (if left < right then
        let mid = left + (right - left) div 2 in
        case f mid of
          Equal \<Rightarrow> Inr mid
        | Less \<Rightarrow> bsearch f (mid + 1) right
        | Greater \<Rightarrow> bsearch f left mid
      else Inl left)"
  by pat_completeness auto

termination
  by (relation "measure (\<lambda>(f, left, right). right - left)") auto

declare bsearch.simps [simp del]

definition binary_search_by :: "('a \<Rightarrow> ordering) \<Rightarrow> 'a list \<Rightarrow> nat + nat" where
  "binary_search_by f xs = bsearch (\<lambda>i. f (xs ! i)) 0 (length xs)"

text \<open>
  The slice is sorted for \<open>f\<close>: first the elements that are less, then those that are
  equal, then the greater ones.
\<close>

definition partitioned :: "(nat \<Rightarrow> ordering) \<Rightarrow> nat \<Rightarrow> bool" where
  "partitioned f n \<longleftrightarrow> (\<forall>i j. i < j \<and> j < n \<longrightarrow> (f j = Less \<longrightarrow> f i = Less) \<and> (f i = Greater \<longrightarrow> f j = Greater))"

lemma bsearch_spec:
  assumes "partitioned f n" "left \<le> right" "right \<le> n" "\<forall>i < left. f i = Less" "\<forall>i. right \<le> i \<and> i < n \<longrightarrow> f i = Greater"
  shows "case bsearch f left right of
      Inr i \<Rightarrow> i < n \<and> f i = Equal
    | Inl i \<Rightarrow> i \<le> n \<and> (\<forall>j < i. f j = Less) \<and> (\<forall>j. i \<le> j \<and> j < n \<longrightarrow> f j = Greater)"
  using assms
proof (induction f left right rule: bsearch.induct)
  case (1 f left right)
  show ?case
  proof (cases "left < right")
    case False
    with "1.prems" show ?thesis by (subst bsearch.simps) auto
  next
    case True
    define mid where "mid = left + (right - left) div 2"
    have mid: "left \<le> mid" "mid < right" using True by (auto simp: mid_def)
    show ?thesis
    proof (cases "f mid")
      case Less
      have "mid < n" using mid "1.prems"(3) by simp
      then have "\<forall>i < mid + 1. f i = Less"
        using "1.prems"(1) Less unfolding partitioned_def by (metis Suc_eq_plus1 less_Suc_eq)
      with "1.IH"(1) [OF True mid_def Less] "1.prems" mid Less True show ?thesis
        by (subst bsearch.simps) (simp add: Let_def mid_def)
    next
      case Equal
      with "1.prems" mid True show ?thesis by (subst bsearch.simps) (simp add: Let_def mid_def)
    next
      case Greater
      have "\<forall>i. mid \<le> i \<and> i < n \<longrightarrow> f i = Greater"
        using "1.prems"(1) Greater unfolding partitioned_def by (metis le_less)
      with "1.IH"(2) [OF True mid_def Greater] "1.prems" mid Greater True show ?thesis
        by (subst bsearch.simps) (simp add: Let_def mid_def)
    qed
  qed
qed

lemma binary_search_by_spec:
  assumes "partitioned (\<lambda>i. f (xs ! i)) (length xs)"
  shows "case binary_search_by f xs of
      Inr i \<Rightarrow> i < length xs \<and> f (xs ! i) = Equal
    | Inl i \<Rightarrow> i \<le> length xs \<and> (\<forall>j < i. f (xs ! j) = Less) \<and> (\<forall>j. i \<le> j \<and> j < length xs \<longrightarrow> f (xs ! j) = Greater)"
  unfolding binary_search_by_def by (rule bsearch_spec [OF assms]) auto

lemma binary_search_all_less:
  assumes "\<And>i. i < length xs \<Longrightarrow> f (xs ! i) = Less"
  shows "binary_search_by f xs = Inl (length xs)"
proof -
  have "partitioned (\<lambda>i. f (xs ! i)) (length xs)" using assms by (simp add: partitioned_def)
  note spec = binary_search_by_spec [OF this]
  show ?thesis
  proof (cases "binary_search_by f xs")
    case (Inl i)
    with spec have i: "i \<le> length xs" "i < length xs \<Longrightarrow> f (xs ! i) = Greater" by auto
    then have "i = length xs" using assms [of i] by (cases "i < length xs") simp_all
    with Inl show ?thesis by simp
  next
    case (Inr i)
    with spec have "i < length xs" "f (xs ! i) = Equal" by simp_all
    with assms [of i] show ?thesis by simp
  qed
qed

lemma binary_search_all_greater:
  assumes "\<And>i. i < length xs \<Longrightarrow> f (xs ! i) = Greater"
  shows "binary_search_by f xs = Inl 0"
proof -
  have "partitioned (\<lambda>i. f (xs ! i)) (length xs)" using assms by (simp add: partitioned_def)
  note spec = binary_search_by_spec [OF this]
  show ?thesis
  proof (cases "binary_search_by f xs")
    case (Inl i)
    with spec have i: "i \<le> length xs" "0 < i \<Longrightarrow> f (xs ! 0) = Less" by auto
    have "i = 0"
    proof (rule ccontr)
      assume "i \<noteq> 0"
      with i assms [of 0] show False by (cases xs) simp_all
    qed
    with Inl show ?thesis by simp
  next
    case (Inr i)
    with spec have "i < length xs" "f (xs ! i) = Equal" by simp_all
    with assms [of i] show ?thesis by simp
  qed
qed

text \<open>The same search with a comparison that may panic.\<close>

function bsearch_try :: "(nat \<Rightarrow> ordering outcome) \<Rightarrow> nat \<Rightarrow> nat \<Rightarrow> (nat + nat) outcome" where
  "bsearch_try f left right =
     (if left < right then
        let mid = left + (right - left) div 2 in
        case f mid of
          Inl e \<Rightarrow> Inl e
        | Inr Equal \<Rightarrow> Inr (Inr mid)
        | Inr Less \<Rightarrow> bsearch_try f (mid + 1) right
        | Inr Greater \<Rightarrow> bsearch_try f left mid
      else Inr (Inl left))"
  by pat_completeness auto

termination
  by (relation "measure (\<lambda>(f, left, right). right - left)") auto

declare bsearch_try.simps [simp del]

definition binary_search_try :: "('a \<Rightarrow> ordering outcome) \<Rightarrow> 'a list \<Rightarrow> (nat + nat) outcome" where
  "binary_search_try f xs = bsearch_try (\<lambda>i. f (xs ! i)) 0 (length xs)"

lemma bsearch_try_total:
  "right \<le> n \<Longrightarrow> (\<And>i. i < n \<Longrightarrow> f i = Inr (g i)) \<Longrightarrow> bsearch_try f left right = Inr (bsearch g left right)"
proof (induction g left right rule: bsearch.induct)
  case (1 g left right)
  show ?case
  proof (cases "left < right")
    case False
    then show ?thesis by (simp add: bsearch.simps bsearch_try.simps)
  next
    case True
    define mid where "mid = left + (right - left) div 2"
    have mid: "mid < n" "mid \<le> n" using True "1.prems"(1) by (auto simp: mid_def)
    show ?thesis
      using True "1.IH" [OF True mid_def] "1.prems" mid
      by (subst bsearch.simps, subst bsearch_try.simps) (simp add: Let_def mid_def [symmetric] split: ordering.split)
  qed
qed

lemma binary_search_try_total:
  assumes "\<And>i. i < length xs \<Longrightarrow> f (xs ! i) = Inr (g (xs ! i))"
  shows "binary_search_try f xs = Inr (binary_search_by g xs)"
  unfolding binary_search_try_def binary_search_by_def by (rule bsearch_try_total [OF le_refl]) (rule assms)

end
