(* ===== verification/Block.thy ===== *)
theory Block
  imports KV KeyRegistry Iter Search
begin

text \<open>
  Blocks of a table: the builder of \<open>src/src/table/write.rs\<close>, which stores each key as the
  length it shares with the block's first key and the rest; the decoder \<open>BlockInner\<close> and
  \<open>EntryHeader\<close> of \<open>src/src/table/mod.rs\<close>; the checksum of \<open>src/src/pb/mod.rs\<close>; and the
  iterator \<open>SinkBlockIter\<close> of \<open>src/src/table/read.rs\<close>. The checksum functions and the
  encoding of the checksum message are arguments, collected in \<open>sum_env\<close>.
\<close>

section \<open>Slices and headers\<close>

text \<open>\<open>&xs[a..b]\<close>.\<close>

definition subslice :: "nat \<Rightarrow> nat \<Rightarrow> 'a list \<Rightarrow> 'a list outcome" where
  "subslice a b xs = (if a \<le> b \<and> b \<le> length xs then Inr (take (b - a) (drop a xs)) else Inl Panic)"

definition index :: "'a list \<Rightarrow> nat \<Rightarrow> 'a outcome" where
  "index xs i = (if i < length xs then Inr (xs ! i) else Inl Panic)"

definition HEADER_SIZE :: nat where "HEADER_SIZE = 4"

record entry_header =
  eh_overlap :: u16
  eh_diff :: u16

definition EntryHeader_serialize :: "entry_header \<Rightarrow> bytes" where
  "EntryHeader_serialize h = put_u16 (eh_overlap h) @ put_u16 (eh_diff h)"

definition EntryHeader_deserialize :: "bytes \<Rightarrow> entry_header outcome" where
  "EntryHeader_deserialize data =
     (case get_u16 data of None \<Rightarrow> Inl Panic | Some (ov, data) \<Rightarrow>
      (case get_u16 data of None \<Rightarrow> Inl Panic | Some (df, _) \<Rightarrow> Inr \<lparr>eh_overlap = ov, eh_diff = df\<rparr>))"

definition vec_u32_to_bytes :: "u32 list \<Rightarrow> bytes" where
  "vec_u32_to_bytes s = concat (map put_u32 s)"

fun take_u32s :: "nat \<Rightarrow> bytes \<Rightarrow> u32 list" where
  "take_u32s 0 s = []"
| "take_u32s (Suc n) s = word_of_nat (from_be (take 4 s)) # take_u32s n (drop 4 s)"

definition bytes_to_vec_u32 :: "bytes \<Rightarrow> u32 list" where
  "bytes_to_vec_u32 src = take_u32s (length src div 4) src"

section \<open>Checksums\<close>

datatype algorithm = Crc32c | XxHash64

record checksum =
  ck_algo :: algorithm
  ck_sum :: u64

record sum_env =
  se_crc32 :: "bytes \<Rightarrow> u32"
  se_xxh3 :: "bytes \<Rightarrow> u64"
  se_encode :: "checksum \<Rightarrow> bytes"
  se_decode :: "bytes \<Rightarrow> checksum option"

text \<open>What a message encoding promises, and that an encoded checksum is short.\<close>

definition sum_laws :: "sum_env \<Rightarrow> bool" where
  "sum_laws se \<longleftrightarrow> (\<forall>c. se_decode se (se_encode se c) = Some c) \<and> (\<forall>c. length (se_encode se c) < 2 ^ 10)"

definition calculate :: "sum_env \<Rightarrow> algorithm \<Rightarrow> bytes \<Rightarrow> u64" where
  "calculate se a data = (case a of Crc32c \<Rightarrow> ucast (se_crc32 se data) | XxHash64 \<Rightarrow> se_xxh3 se data)"

definition Checksum_new :: "sum_env \<Rightarrow> algorithm \<Rightarrow> bytes \<Rightarrow> checksum" where
  "Checksum_new se algo data = \<lparr>ck_algo = algo, ck_sum = calculate se algo data\<rparr>"

definition Checksum_verify :: "sum_env \<Rightarrow> checksum \<Rightarrow> bytes \<Rightarrow> unit outcome" where
  "Checksum_verify se c data =
     (if ck_sum c \<noteq> calculate se (ck_algo c) data then Inl (Anyhow ''checksum mismatch'') else Inr ())"

section \<open>Building a block\<close>

record block_builder =
  bb_data :: bytes
  bb_base_keyts :: bytes
  bb_entry_offsets :: "u32 list"

definition BlockBuilder_new :: block_builder where
  "BlockBuilder_new = \<lparr>bb_data = [], bb_base_keyts = [], bb_entry_offsets = []\<rparr>"

fun common_prefix :: "bytes \<Rightarrow> bytes \<Rightarrow> nat" where
  "common_prefix (x # xs) (y # ys) = (if x \<noteq> y then 0 else Suc (common_prefix xs ys))"
| "common_prefix _ _ = 0"

definition diff_base_key :: "block_builder \<Rightarrow> bytes \<Rightarrow> nat" where
  "diff_base_key bb new_key = common_prefix (bb_base_keyts bb) new_key"



definition should_finish_block ::
  "var_enc \<Rightarrow> block_builder \<Rightarrow> bytes \<Rightarrow> value_meta \<Rightarrow> nat \<Rightarrow> bool \<Rightarrow> bool outcome" where
  "should_finish_block enc bb key v block_size is_encrypt =
     (let n = length (bb_entry_offsets bb) in
      if n = 0 then Inr False
      else if \<not> (n + 1) * 4 + 4 + 8 + 4 < 2 ^ 32 - 1 then Inl Panic
      else
        let entries_offsets_size = (n + 1) * 4 + 4 + 8 + 4;
            estimate_size = length (bb_data bb) + 6 + length key + ValueMeta_serialized_size enc v + entries_offsets_size;
            estimate_size = (if is_encrypt then estimate_size + NONCE_SIZE else estimate_size)
        in if \<not> length (bb_data bb) + estimate_size < 2 ^ 32 - 1 then Inl Panic
           else Inr (estimate_size > block_size))"

definition push_entry :: "var_enc \<Rightarrow> bytes \<Rightarrow> value_meta \<Rightarrow> block_builder \<Rightarrow> block_builder outcome" where
  "push_entry enc key_ts v bb =
     (let (bb, diff_key) = (if bb_base_keyts bb = [] then (bb\<lparr>bb_base_keyts := key_ts\<rparr>, key_ts)
                            else (bb, drop (diff_base_key bb key_ts) key_ts));
          overlap = length key_ts - length diff_key
      in if overlap > 2 ^ 16 - 1 \<or> length diff_key > 2 ^ 16 - 1 then Inl Panic
         else let entry_header = \<lparr>eh_overlap = word_of_nat overlap, eh_diff = word_of_nat (length diff_key)\<rparr>
         in Inr (bb\<lparr>bb_entry_offsets := bb_entry_offsets bb @ [word_of_nat (length (bb_data bb))],
                    bb_data := bb_data bb @ EntryHeader_serialize entry_header @ diff_key @ ValueMeta_serialize enc v\<rparr>))"

definition finish_block :: "sum_env \<Rightarrow> algorithm \<Rightarrow> block_builder \<Rightarrow> block_builder" where
  "finish_block se algo bb =
     (let data = bb_data bb @ vec_u32_to_bytes (bb_entry_offsets bb) @ put_u32 (word_of_nat (length (bb_entry_offsets bb)));
          checksum = se_encode se (Checksum_new se algo data)
      in bb\<lparr>bb_data := data @ checksum @ put_u32 (word_of_nat (length checksum))\<rparr>)"

section \<open>Reading a block\<close>

record block =
  bl_table_id :: u32
  bl_block_index :: u32
  bl_block_offset :: u32
  bl_data :: bytes
  bl_entries_index_start :: nat
  bl_entry_offsets :: "u32 list"
  bl_checksum :: bytes
  bl_checksum_len :: nat

definition sub_usize :: "nat \<Rightarrow> nat \<Rightarrow> nat outcome" where
  "sub_usize a b = (if b \<le> a then Inr (a - b) else Inl Panic)"

definition block_deserialize :: "u32 \<Rightarrow> u32 \<Rightarrow> u32 \<Rightarrow> bytes \<Rightarrow> block outcome" where
  "block_deserialize table_id block_id block_offset data =
     and_then (sub_usize (length data) 4) (\<lambda>read_pos.
     and_then (subslice read_pos (read_pos + 4) data) (\<lambda>buf.
     let checksum_len = from_be buf in
     if checksum_len > length data then Inl (Anyhow ''Invalid checksum len'')
     else
     and_then (sub_usize read_pos checksum_len) (\<lambda>read_pos.
     and_then (subslice read_pos (read_pos + checksum_len) data) (\<lambda>checksum.
     let data = take read_pos data in
     and_then (sub_usize read_pos 4) (\<lambda>read_pos.
     and_then (subslice read_pos (read_pos + 4) data) (\<lambda>buf.
     let num_entries = from_be buf in
     and_then (sub_usize read_pos (num_entries * 4)) (\<lambda>entries_index_start.
     and_then (subslice entries_index_start read_pos data) (\<lambda>buf.
     Inr \<lparr>bl_table_id = table_id, bl_block_index = block_id, bl_block_offset = block_offset, bl_data = data,
          bl_entries_index_start = entries_index_start, bl_entry_offsets = bytes_to_vec_u32 buf,
          bl_checksum = checksum, bl_checksum_len = checksum_len\<rparr>))))))))"

definition block_verify :: "sum_env \<Rightarrow> block \<Rightarrow> unit outcome" where
  "block_verify se b =
     (case se_decode se (bl_checksum b) of
        None \<Rightarrow> Inl (Anyhow ''Failed decode pb::checksum for block'')
      | Some c \<Rightarrow> Checksum_verify se c (bl_data b))"

text \<open>\<open>BlockInner::data\<close>.\<close>

definition block_data :: "block \<Rightarrow> bytes" where
  "block_data b = take (bl_entries_index_start b) (bl_data b)"

section \<open>Iterating over a block\<close>

record block_iter =
  bi_inner :: block
  bi_base_key :: bytes
  bi_key :: bytes
  bi_header :: entry_header
  bi_entry_index :: "nat option"
  bi_back_key :: bytes
  bi_back_header :: entry_header
  bi_back_entry_index :: "nat option"

definition EntryHeader_default :: entry_header where
  "EntryHeader_default = \<lparr>eh_overlap = 0, eh_diff = 0\<rparr>"

definition block_iter_new :: "block \<Rightarrow> block_iter" where
  "block_iter_new b = \<lparr>bi_inner = b, bi_base_key = [], bi_key = [], bi_header = EntryHeader_default, bi_entry_index = None,
     bi_back_key = [], bi_back_header = EntryHeader_default, bi_back_entry_index = None\<rparr>"

text \<open>The header and the rest of the entry with a given index.\<close>

definition entry_at :: "block \<Rightarrow> nat \<Rightarrow> (entry_header \<times> bytes) outcome" where
  "entry_at b i =
     and_then (index (bl_entry_offsets b) i) (\<lambda>off.
     and_then (subslice (unat off) (length (block_data b)) (block_data b)) (\<lambda>data.
     and_then (subslice 0 HEADER_SIZE data) (\<lambda>hd.
     and_then (EntryHeader_deserialize hd) (\<lambda>h. Inr (h, data)))))"

text \<open>A key rebuilt from the previous one, the base key and the bytes of an entry.\<close>

definition next_key :: "bytes \<Rightarrow> entry_header \<Rightarrow> bytes \<Rightarrow> entry_header \<Rightarrow> bytes \<Rightarrow> bytes outcome" where
  "next_key base prev_header key header data =
     (let prev_overlap = unat (eh_overlap prev_header); next_overlap = unat (eh_overlap header) in
      and_then (if next_overlap > prev_overlap
                then and_then (subslice prev_overlap next_overlap base) (\<lambda>mid. Inr (take prev_overlap key @ mid))
                else Inr (take next_overlap key)) (\<lambda>key.
      and_then (subslice HEADER_SIZE (HEADER_SIZE + unat (eh_diff header)) data) (\<lambda>diff. Inr (key @ diff))))"

definition set_entry_index :: "nat \<Rightarrow> block_iter \<Rightarrow> block_iter outcome" where
  "set_entry_index i it =
     and_then (entry_at (bi_inner it) i) (\<lambda>(h, data).
     and_then (next_key (bi_base_key it) (bi_header it) (bi_key it) h data) (\<lambda>key.
     Inr (it\<lparr>bi_entry_index := Some i, bi_key := key, bi_header := h\<rparr>)))"

text \<open>The base key is read when the iterator is first moved.\<close>

definition load_base_key :: "block_iter \<Rightarrow> block_iter outcome" where
  "load_base_key it =
     (if bi_base_key it \<noteq> [] then Inr it
      else let data = block_data (bi_inner it) in
        and_then (subslice 0 HEADER_SIZE data) (\<lambda>hd.
        and_then (EntryHeader_deserialize hd) (\<lambda>h.
        and_then (subslice HEADER_SIZE (HEADER_SIZE + unat (eh_diff h)) data) (\<lambda>key.
        Inr (it\<lparr>bi_base_key := key, bi_header := h\<rparr>)))))"

definition block_next :: "block_iter \<Rightarrow> (bool \<times> block_iter) outcome" where
  "block_next it =
     (let n = length (bl_entry_offsets (bi_inner it)) in
      case bi_entry_index it of
        Some i \<Rightarrow>
          if (case bi_back_entry_index it of Some back_id \<Rightarrow> i + 1 = back_id | None \<Rightarrow> i = n - 1) then Inr (False, it)
          else and_then (set_entry_index (i + 1) it) (\<lambda>it. Inr (True, it))
      | None \<Rightarrow>
          if n = 0 then Inr (False, it)
          else and_then (load_base_key it) (\<lambda>it. Inr (True, it\<lparr>bi_key := bi_base_key it, bi_entry_index := Some 0\<rparr>)))"

definition block_next_back :: "block_iter \<Rightarrow> (bool \<times> block_iter) outcome" where
  "block_next_back it =
     (let n = length (bl_entry_offsets (bi_inner it)) in
      case bi_back_entry_index it of
        Some back_id \<Rightarrow>
          and_then (case bi_entry_index it of
              Some i \<Rightarrow> and_then (sub_usize back_id 1) (\<lambda>j. Inr (j = i))
            | None \<Rightarrow> Inr (back_id = 0)) (\<lambda>stop.
          if stop then Inr (False, it)
          else and_then (entry_at (bi_inner it) (back_id - 1)) (\<lambda>(h, data).
               and_then (next_key (bi_base_key it) (bi_back_header it) (bi_back_key it) h data) (\<lambda>key.
               Inr (True, it\<lparr>bi_back_entry_index := Some (back_id - 1), bi_back_key := key, bi_back_header := h\<rparr>))))
      | None \<Rightarrow>
          if n = 0 then Inr (False, it)
          else and_then (load_base_key it) (\<lambda>it.
               and_then (entry_at (bi_inner it) (n - 1)) (\<lambda>(h, data).
               and_then (subslice 0 (unat (eh_overlap h)) (bi_base_key it)) (\<lambda>pre.
               and_then (subslice HEADER_SIZE (HEADER_SIZE + unat (eh_diff h)) data) (\<lambda>diff.
               Inr (True, it\<lparr>bi_back_header := h, bi_back_key := pre @ diff, bi_back_entry_index := Some (n - 1)\<rparr>))))))"

text \<open>\<open>value\<close> and \<open>value_back\<close>: the bytes from behind the key to the next entry.\<close>

definition value_at :: "var_enc \<Rightarrow> var_dec \<Rightarrow> block \<Rightarrow> entry_header \<Rightarrow> nat \<Rightarrow> value_meta option outcome" where
  "value_at enc dec b h i =
     and_then (if i + 1 = length (bl_entry_offsets b) then Inr (bl_entries_index_start b)
               else and_then (index (bl_entry_offsets b) (i + 1)) (\<lambda>off. Inr (unat off))) (\<lambda>end_offset.
     and_then (index (bl_entry_offsets b) i) (\<lambda>off.
     and_then (subslice (unat off + HEADER_SIZE + unat (eh_diff h)) end_offset (block_data b)) (\<lambda>v.
     Inr (ValueMeta_deserialize enc dec v))))"

definition block_key :: "block_iter \<Rightarrow> bytes option" where
  "block_key it = (if bi_key it = [] then None else Some (bi_key it))"

definition block_value :: "var_enc \<Rightarrow> var_dec \<Rightarrow> block_iter \<Rightarrow> value_meta option outcome" where
  "block_value enc dec it =
     (case bi_entry_index it of None \<Rightarrow> Inr None | Some i \<Rightarrow> value_at enc dec (bi_inner it) (bi_header it) i)"

definition block_key_back :: "block_iter \<Rightarrow> bytes option" where
  "block_key_back it = (if bi_back_key it = [] then None else Some (bi_back_key it))"

definition block_value_back :: "var_enc \<Rightarrow> var_dec \<Rightarrow> block_iter \<Rightarrow> value_meta option outcome" where
  "block_value_back enc dec it =
     (case bi_back_entry_index it of None \<Rightarrow> Inr None | Some i \<Rightarrow> value_at enc dec (bi_inner it) (bi_back_header it) i)"

section \<open>Seeking in a block\<close>

text \<open>
  The comparison of the entry at an offset with the key; the search panics when it does.
\<close>

definition seek_cmp :: "block \<Rightarrow> bytes \<Rightarrow> bytes \<Rightarrow> u32 \<Rightarrow> ordering outcome" where
  "seek_cmp b base k off =
     and_then (subslice (unat off) (length (block_data b)) (block_data b)) (\<lambda>data.
     and_then (subslice 0 HEADER_SIZE data) (\<lambda>hd.
     and_then (EntryHeader_deserialize hd) (\<lambda>h.
     let overlap = unat (eh_overlap h); diff = unat (eh_diff h) in
     and_then (if length k \<ge> overlap \<and> overlap > 8 then
                 let split = min (overlap + diff - 8) overlap in
                 and_then (subslice 0 split base) (\<lambda>b1.
                 and_then (subslice 0 split k) (\<lambda>k1. Inr (compare b1 k1)))
               else Inr Equal) (\<lambda>ord.
     if ord \<noteq> Equal then Inr ord
     else and_then (subslice 0 overlap base) (\<lambda>pre.
          and_then (subslice HEADER_SIZE (HEADER_SIZE + diff) data) (\<lambda>dk.
          Inr (KeyTsBorrow_cmp (pre @ dk) k)))))))"

definition block_seek :: "bytes \<Rightarrow> block_iter \<Rightarrow> (bool \<times> block_iter) outcome" where
  "block_seek k it =
     and_then (if bi_entry_index it = None then block_next it else Inr (True, it)) (\<lambda>(more, it).
     if \<not> more then Inr (False, it)
     else let b = bi_inner it in
       and_then (binary_search_try (seek_cmp b (bi_base_key it) k) (bl_entry_offsets b)) (\<lambda>search.
       case search of
         Inr i \<Rightarrow> and_then (set_entry_index i it) (\<lambda>it. Inr (True, it))
       | Inl i \<Rightarrow> if i \<ge> length (bl_entry_offsets b) then Inr (False, it)
                 else and_then (set_entry_index i it) (\<lambda>it. Inr (True, it))))"

section \<open>A block holds the entries pushed into it\<close>

lemma unat_small [simp]:
  "n < 2 ^ 16 \<Longrightarrow> unat (word_of_nat n :: u16) = n" "n < 2 ^ 32 \<Longrightarrow> unat (word_of_nat n :: u32) = n"
  by (simp_all add: unat_of_nat take_bit_eq_mod)

type_synonym kvs = "(bytes \<times> value_meta) list"

definition overlap_of :: "kvs \<Rightarrow> nat \<Rightarrow> nat" where
  "overlap_of es i = (if i = 0 then 0 else common_prefix (fst (es ! 0)) (fst (es ! i)))"

definition hdr_of :: "kvs \<Rightarrow> nat \<Rightarrow> entry_header" where
  "hdr_of es i = \<lparr>eh_overlap = word_of_nat (overlap_of es i),
     eh_diff = word_of_nat (length (fst (es ! i)) - overlap_of es i)\<rparr>"

definition chunk :: "var_enc \<Rightarrow> kvs \<Rightarrow> nat \<Rightarrow> bytes" where
  "chunk enc es i = EntryHeader_serialize (hdr_of es i) @ drop (overlap_of es i) (fst (es ! i)) @
     ValueMeta_serialize enc (snd (es ! i))"

definition body :: "var_enc \<Rightarrow> kvs \<Rightarrow> nat \<Rightarrow> bytes" where
  "body enc es n = concat (map (chunk enc es) [0 ..< n])"

definition keys_ok :: "kvs \<Rightarrow> bool" where
  "keys_ok es \<longleftrightarrow> (\<forall>e \<in> set es. fst e \<noteq> [] \<and> length (fst e) < 2 ^ 16)"

lemma common_prefix_le: "common_prefix xs ys \<le> length xs" "common_prefix xs ys \<le> length ys"
  by (induction xs ys rule: common_prefix.induct) auto

lemma common_prefix_take: "n \<le> common_prefix xs ys \<Longrightarrow> take n xs = take n ys"
proof (induction xs ys arbitrary: n rule: common_prefix.induct)
  case (1 x xs y ys)
  then show ?case by (cases n) (auto split: if_splits)
qed auto

lemma overlap_le: "overlap_of es i \<le> length (fst (es ! i))" "overlap_of es i \<le> length (fst (es ! 0))"
  by (auto simp: overlap_of_def common_prefix_le)

lemma overlap_take: "take (overlap_of es i) (fst (es ! 0)) = take (overlap_of es i) (fst (es ! i))"
  by (simp add: overlap_of_def common_prefix_take)

lemma overlap_append [simp]: "i < length es \<Longrightarrow> overlap_of (es @ xs) i = overlap_of es i"
  by (auto simp: overlap_of_def nth_append)

lemma chunk_append [simp]: "i < length es \<Longrightarrow> chunk enc (es @ xs) i = chunk enc es i"
  by (simp add: chunk_def hdr_of_def nth_append)

lemma body_Suc [simp]: "body enc es (Suc n) = body enc es n @ chunk enc es n"
  by (simp add: body_def)

lemma body_append: "n \<le> length es \<Longrightarrow> body enc (es @ xs) n = body enc es n"
  unfolding body_def by (intro arg_cong [of _ _ concat] map_cong) auto

definition built :: "var_enc \<Rightarrow> kvs \<Rightarrow> block_builder \<Rightarrow> bool" where
  "built enc es bb \<longleftrightarrow> keys_ok es \<and> bb_data bb = body enc es (length es) \<and>
     bb_entry_offsets bb = map (\<lambda>i. word_of_nat (length (body enc es i))) [0 ..< length es] \<and>
     bb_base_keyts bb = (case es of [] \<Rightarrow> [] | e # _ \<Rightarrow> fst e)"

lemma built_new: "built enc [] BlockBuilder_new"
  by (simp add: built_def BlockBuilder_new_def keys_ok_def body_def)

lemma push_entry_built:
  assumes b: "built enc es bb" and k: "k \<noteq> []" "length k < 2 ^ 16"
  obtains bb' where "push_entry enc k v bb = Inr bb'" "built enc (es @ [(k, v)]) bb'"
proof -
  let ?es = "es @ [(k, v)]"
  define ov where "ov = overlap_of ?es (length es)"
  have base: "es \<noteq> [] \<Longrightarrow> bb_base_keyts bb = fst (es ! 0) \<and> fst (es ! 0) \<noteq> []" "es = [] \<Longrightarrow> bb_base_keyts bb = []"
    using b by (auto simp: built_def keys_ok_def hd_conv_nth split: list.splits)
  have ov: "ov = (if es = [] then 0 else common_prefix (bb_base_keyts bb) k)"
    using base by (cases es) (auto simp: ov_def overlap_of_def nth_append)
  have ovk: "ov \<le> length k" using overlap_le(1) [of ?es "length es"] by (simp add: ov_def)
  let ?bb = "\<lparr>bb_data = bb_data bb @ chunk enc ?es (length es), bb_base_keyts = (if es = [] then k else bb_base_keyts bb),
    bb_entry_offsets = bb_entry_offsets bb @ [word_of_nat (length (bb_data bb))]\<rparr>"
  have ch: "chunk enc ?es (length es) = EntryHeader_serialize \<lparr>eh_overlap = word_of_nat ov, eh_diff = word_of_nat (length k - ov)\<rparr>
      @ drop ov k @ ValueMeta_serialize enc v"
    by (simp add: chunk_def hdr_of_def ov_def)
  have "push_entry enc k v bb = Inr ?bb"
  proof (cases "es = []")
    case True
    with base(2) ov k ch show ?thesis by (simp add: push_entry_def Let_def)
  next
    case False
    with base(1) ov ovk k ch show ?thesis by (simp add: push_entry_def Let_def diff_base_key_def)
  qed
  moreover have "built enc ?es ?bb"
    using b k by (auto simp: built_def keys_ok_def body_append split: list.splits)
  ultimately show ?thesis by (rule that)
qed

text \<open>\<open>b\<close> is a block, as read back, of the entries \<open>es\<close>.\<close>

definition block_of :: "var_enc \<Rightarrow> kvs \<Rightarrow> block \<Rightarrow> bool" where
  "block_of enc es b \<longleftrightarrow> es \<noteq> [] \<and> keys_ok es \<and> block_data b = body enc es (length es) \<and>
     bl_entries_index_start b = length (body enc es (length es)) \<and>
     bl_entry_offsets b = map (\<lambda>i. word_of_nat (length (body enc es i))) [0 ..< length es] \<and>
     length (body enc es (length es)) < 2 ^ 32"

lemma take_u32s_put: "take_u32s (length s) (concat (map put_u32 s)) = s"
  by (induction s) (simp_all add: from_be_put)

lemma vec_u32_roundtrip: "bytes_to_vec_u32 (vec_u32_to_bytes s) = s"
proof -
  have "length (vec_u32_to_bytes s) = 4 * length s" unfolding vec_u32_to_bytes_def by (induction s) simp_all
  then show ?thesis by (simp add: bytes_to_vec_u32_def vec_u32_to_bytes_def take_u32s_put)
qed

lemma length_vec_u32 [simp]: "length (vec_u32_to_bytes s) = 4 * length s"
  unfolding vec_u32_to_bytes_def by (induction s) simp_all

lemma subslice_append [simp]: "subslice (length xs) (length xs + length ys) (xs @ ys @ zs) = Inr ys"
  by (simp add: subslice_def)

lemma subslice_append' [simp]:
  "subslice (length xs) (length xs + length ys) (xs @ ys) = Inr ys"
  by (simp add: subslice_def)

lemma sub_usize_add [simp]: "sub_usize (a + b) b = Inr a"
  by (simp add: sub_usize_def)

lemma block_deserialize_layout:
  assumes n: "length offs < 2 ^ 32" and c: "length ck < 2 ^ 32"
  shows "block_deserialize t i o' (dat @ vec_u32_to_bytes offs @ put_u32 (word_of_nat (length offs)) @ ck @ put_u32 (word_of_nat (length ck))) =
    Inr \<lparr>bl_table_id = t, bl_block_index = i, bl_block_offset = o',
      bl_data = dat @ vec_u32_to_bytes offs @ put_u32 (word_of_nat (length offs)),
      bl_entries_index_start = length dat, bl_entry_offsets = offs, bl_checksum = ck, bl_checksum_len = length ck\<rparr>"
proof -
  let ?data = "dat @ vec_u32_to_bytes offs @ put_u32 (word_of_nat (length offs))"
  let ?ckl = "put_u32 (word_of_nat (length ck))" and ?m = "put_u32 (word_of_nat (length offs))"
  have u: "from_be ?ckl = length ck" "from_be ?m = length offs"
    using n c by (simp_all add: from_be_put)
  have l1: "sub_usize (length (?data @ ck @ ?ckl)) 4 = Inr (length (?data @ ck))" by (simp add: sub_usize_def)
  have s1: "subslice (length (?data @ ck)) (length (?data @ ck) + 4) (?data @ ck @ ?ckl) = Inr ?ckl"
    using subslice_append' [of "?data @ ck" ?ckl] by simp
  have l2: "sub_usize (length (?data @ ck)) (length ck) = Inr (length ?data)" by (simp add: sub_usize_def)
  have s2: "subslice (length ?data) (length ?data + length ck) (?data @ ck @ ?ckl) = Inr ck" by (rule subslice_append)
  have l3: "sub_usize (length ?data) 4 = Inr (length (dat @ vec_u32_to_bytes offs))" by (simp add: sub_usize_def)
  have s3: "subslice (length (dat @ vec_u32_to_bytes offs)) (length (dat @ vec_u32_to_bytes offs) + 4) ?data = Inr ?m"
    using subslice_append' [of "dat @ vec_u32_to_bytes offs" ?m] by simp
  have l4: "sub_usize (length (dat @ vec_u32_to_bytes offs)) (length offs * 4) = Inr (length dat)" by (simp add: sub_usize_def)
  have s4: "subslice (length dat) (length (dat @ vec_u32_to_bytes offs)) ?data = Inr (vec_u32_to_bytes offs)"
    using subslice_append [of dat "vec_u32_to_bytes offs" ?m] by simp
  have t: "take (length ?data) (?data @ ck @ ?ckl) = ?data" by simp
  have nz: "\<not> length ck > length (?data @ ck @ ?ckl)" by simp
  have e: "dat @ vec_u32_to_bytes offs @ ?m @ ck @ ?ckl = ?data @ ck @ ?ckl" by simp
  show ?thesis
    unfolding block_deserialize_def e l1 and_then_simps s1 Let_def u if_not_P [OF nz] l2 s2 t l3 s3 l4 s4 vec_u32_roundtrip ..
qed

definition total_size :: "var_enc \<Rightarrow> kvs \<Rightarrow> nat" where
  "total_size enc es = length (body enc es (length es))"

lemma body_length_ge: "n \<le> length (body enc es n)"
  by (induction n) (simp_all add: body_def chunk_def EntryHeader_serialize_def)

lemma body_mono: "i \<le> j \<Longrightarrow> length (body enc es i) \<le> length (body enc es j)"
  by (induction j) (auto simp: le_Suc_eq)

lemma finish_deserialize:
  assumes b: "built enc es bb" "es \<noteq> []" and sz: "total_size enc es < 2 ^ 32" and laws: "sum_laws se"
  obtains blk where "block_deserialize t i off (bb_data (finish_block se algo bb)) = Inr blk"
    "block_of enc es blk" "block_verify se blk = Inr ()" "bl_block_index blk = i"
proof -
  let ?offs = "bb_entry_offsets bb"
  let ?data = "bb_data bb @ vec_u32_to_bytes ?offs @ put_u32 (word_of_nat (length ?offs))"
  let ?ck = "se_encode se (Checksum_new se algo ?data)"
  have n: "length ?offs < 2 ^ 32" using b sz body_length_ge [of "length es" enc es]
    by (simp add: built_def total_size_def)
  have c: "length ?ck < 2 ^ 32" using laws less_trans [of "length ?ck" "2 ^ 10" "2 ^ 32"] by (simp add: sum_laws_def)
  let ?blk = "\<lparr>bl_table_id = t, bl_block_index = i, bl_block_offset = off, bl_data = ?data,
      bl_entries_index_start = length (bb_data bb), bl_entry_offsets = ?offs, bl_checksum = ?ck, bl_checksum_len = length ?ck\<rparr>"
  have "block_deserialize t i off (bb_data (finish_block se algo bb)) = Inr ?blk"
    using block_deserialize_layout [OF n c, of t i off "bb_data bb"] by (simp add: finish_block_def Let_def)
  moreover have "block_of enc es ?blk"
    using b sz by (simp add: block_of_def built_def block_data_def total_size_def)
  moreover have "block_verify se ?blk = Inr ()"
    using laws by (simp add: block_verify_def sum_laws_def Checksum_verify_def Checksum_new_def)
  ultimately show ?thesis by (intro that [of ?blk]) simp_all
qed

section \<open>Iterating over a block sees its entries\<close>

lemma hdr_roundtrip [simp]: "EntryHeader_deserialize (EntryHeader_serialize h @ r) = Inr h"
  by (simp add: EntryHeader_deserialize_def EntryHeader_serialize_def)

lemma hdr_length [simp]: "length (EntryHeader_serialize h) = HEADER_SIZE"
  by (simp add: EntryHeader_serialize_def HEADER_SIZE_def)

lemma body_split: "i < length es \<Longrightarrow> \<exists>rest. body enc es (length es) = body enc es i @ chunk enc es i @ rest"
proof -
  assume "i < length es"
  then have "[0 ..< length es] = [0 ..< i] @ i # [Suc i ..< length es]"
    by (metis le_add1 plus_nat.add_0 upt_add_eq_append upt_conv_Cons less_imp_add_positive)
  then show ?thesis by (simp add: body_def)
qed

lemma blk_facts:
  assumes blk: "block_of enc es b"
  shows "block_data b = body enc es (length es)" "length (bl_entry_offsets b) = length es" "es \<noteq> []"
  using blk by (simp_all add: block_of_def)

lemma blk_offset:
  assumes blk: "block_of enc es b" and "i < length es"
  shows "unat (bl_entry_offsets b ! i) = length (body enc es i)"
  using assms body_mono [of i "length es" enc es] by (simp add: block_of_def)

lemma hdr_of_unat:
  assumes blk: "block_of enc es b" and "i < length es"
  shows "unat (eh_overlap (hdr_of es i)) = overlap_of es i"
    "unat (eh_diff (hdr_of es i)) = length (fst (es ! i)) - overlap_of es i"
proof -
  have "length (fst (es ! i)) < 2 ^ 16" using assms by (auto simp: block_of_def keys_ok_def)
  with overlap_le(1) [of es i] show "unat (eh_overlap (hdr_of es i)) = overlap_of es i"
    "unat (eh_diff (hdr_of es i)) = length (fst (es ! i)) - overlap_of es i"
    by (simp_all add: hdr_of_def del: of_nat_diff)
qed

lemma entry_at_ok:
  assumes blk: "block_of enc es b" and i: "i < length es"
  shows "\<exists>rest. entry_at b i = Inr (hdr_of es i, chunk enc es i @ rest)"
proof -
  obtain rest where r: "body enc es (length es) = body enc es i @ chunk enc es i @ rest" using body_split [OF i] by blast
  have s: "subslice (length (body enc es i)) (length (block_data b)) (block_data b) = Inr (chunk enc es i @ rest)"
    by (simp add: blk_facts(1) [OF blk] r subslice_def)
  have "subslice 0 HEADER_SIZE (chunk enc es i @ rest) = Inr (EntryHeader_serialize (hdr_of es i))"
    by (simp add: subslice_def chunk_def)
  moreover have "EntryHeader_deserialize (EntryHeader_serialize (hdr_of es i)) = Inr (hdr_of es i)"
    using hdr_roundtrip [of "hdr_of es i" "[]"] by simp
  ultimately show ?thesis using i blk_offset [OF blk i] s by (simp add: entry_at_def index_def blk_facts(2) [OF blk])
qed

lemma diff_slice:
  assumes blk: "block_of enc es b" and "i < length es"
  shows "subslice HEADER_SIZE (HEADER_SIZE + unat (eh_diff (hdr_of es i))) (chunk enc es i @ rest) = Inr (drop (overlap_of es i) (fst (es ! i)))"
  using hdr_of_unat(2) [OF assms] by (simp add: subslice_def chunk_def)

lemma next_key_ok:
  assumes blk: "block_of enc es b" and i: "i < length es" and p: "j < length es" "key = fst (es ! j)"
  shows "next_key (fst (es ! 0)) (hdr_of es j) key (hdr_of es i) (chunk enc es i @ rest) = Inr (fst (es ! i))"
proof -
  let ?o = "overlap_of es i" and ?p = "overlap_of es j" and ?b = "fst (es ! 0)"
  have "take ?p key @ take (?o - ?p) (drop ?p ?b) = take ?o ?b" if "?o > ?p"
    using that overlap_take [of es j] p(2) by (metis less_imp_le_nat le_add_diff_inverse take_add)
  moreover have "take ?o key = take ?o ?b" if "\<not> ?o > ?p"
    using that overlap_take [of es j] p(2) by (metis min.absorb1 not_less take_take)
  moreover have "take ?o ?b @ drop ?o (fst (es ! i)) = fst (es ! i)" using overlap_take [of es i] by simp
  ultimately show ?thesis
    using overlap_le(2) [of es i] diff_slice [OF blk i] hdr_of_unat(1) [OF blk i] hdr_of_unat(1) [OF blk p(1)]
    by (simp add: next_key_def subslice_def Let_def)
qed

lemma value_at_ok:
  assumes blk: "block_of enc es b" and i: "i < length es" and laws: "varint_laws enc dec"
  shows "value_at enc dec b (hdr_of es i) i = Inr (Some (snd (es ! i)))"
proof -
  obtain rest where r: "body enc es (length es) = body enc es i @ chunk enc es i @ rest" using body_split [OF i] by blast
  have e: "(if i + 1 = length (bl_entry_offsets b) then Inr (bl_entries_index_start b)
      else and_then (index (bl_entry_offsets b) (i + 1)) (\<lambda>off. Inr (unat off))) = (Inr (length (body enc es (Suc i))) :: nat outcome)"
    using i blk_facts(2) [OF blk] blk_offset [OF blk, of "Suc i"] blk by (auto simp: index_def block_of_def simp del: body_Suc)
  let ?a = "body enc es i @ EntryHeader_serialize (hdr_of es i) @ drop (overlap_of es i) (fst (es ! i))"
  have "subslice (length ?a) (length ?a + length (ValueMeta_serialize enc (snd (es ! i)))) (?a @ ValueMeta_serialize enc (snd (es ! i)) @ rest)
      = Inr (ValueMeta_serialize enc (snd (es ! i)))" by (rule subslice_append)
  moreover have "length ?a = length (body enc es i) + HEADER_SIZE + unat (eh_diff (hdr_of es i))"
    using hdr_of_unat(2) [OF blk i] by simp
  moreover have "length ?a + length (ValueMeta_serialize enc (snd (es ! i))) = length (body enc es (Suc i))"
    by (simp add: chunk_def)
  ultimately have "subslice (length (body enc es i) + HEADER_SIZE + unat (eh_diff (hdr_of es i))) (length (body enc es (Suc i))) (block_data b)
      = Inr (ValueMeta_serialize enc (snd (es ! i)))"
    by (simp add: blk_facts(1) [OF blk] r chunk_def ac_simps)
  with e i blk_offset [OF blk i] blk_facts(2) [OF blk] ValueMeta_deserialize_serialize [OF laws, of "snd (es ! i)"] show ?thesis
    unfolding value_at_def by (simp add: index_def)
qed

text \<open>\<open>c\<close> has the entries \<open>As\<close> behind it at the front and \<open>Bs\<close> at the back.\<close>

definition block_at ::
  "var_enc \<Rightarrow> var_dec \<Rightarrow> kvs \<Rightarrow> block_iter \<Rightarrow> kvs \<Rightarrow> kvs \<Rightarrow> kvs \<Rightarrow> bool" where
  "block_at enc dec es c As Ms Bs \<longleftrightarrow> varint_laws enc dec \<and> es = As @ Ms @ Bs \<and> block_of enc es (bi_inner c) \<and>
     (bi_base_key c = fst (es ! 0) \<or> bi_base_key c = [] \<and> As = [] \<and> Bs = []) \<and>
     (if As = [] then bi_entry_index c = None \<and> (bi_base_key c \<noteq> [] \<longrightarrow> bi_header c = hdr_of es 0)
      else bi_entry_index c = Some (length As - 1) \<and> bi_key c = fst (last As) \<and> bi_header c = hdr_of es (length As - 1)) \<and>
     (if Bs = [] then bi_back_entry_index c = None
      else bi_back_entry_index c = Some (length As + length Ms) \<and> bi_back_key c = fst (hd Bs) \<and>
        bi_back_header c = hdr_of es (length As + length Ms))"

definition step_of :: "(bool \<times> 'c) outcome \<Rightarrow> (bool \<times> 'c) option" where
  "step_of r = (case r of Inl _ \<Rightarrow> None | Inr x \<Rightarrow> Some x)"

definition block_item :: "var_enc \<Rightarrow> var_dec \<Rightarrow> block_iter \<Rightarrow> (bytes \<times> value_meta) option" where
  "block_item enc dec c = (case (block_key c, block_value enc dec c) of (Some k, Inr (Some v)) \<Rightarrow> Some (k, v) | _ \<Rightarrow> None)"

definition block_item_back :: "var_enc \<Rightarrow> var_dec \<Rightarrow> block_iter \<Rightarrow> (bytes \<times> value_meta) option" where
  "block_item_back enc dec c =
     (case (block_key_back c, block_value_back enc dec c) of (Some k, Inr (Some v)) \<Rightarrow> Some (k, v) | _ \<Rightarrow> None)"

lemma load_base_key_ok:
  assumes blk: "block_of enc es (bi_inner c)" and b: "bi_base_key c = fst (es ! 0) \<and> bi_header c = hdr_of es 0 \<or> bi_base_key c = []"
  shows "load_base_key c = Inr (c\<lparr>bi_base_key := fst (es ! 0), bi_header := hdr_of es 0\<rparr>)"
proof (cases "bi_base_key c = []")
  case False
  with b show ?thesis by (simp add: load_base_key_def)
next
  case True
  have i: "0 < length es" using blk by (auto simp: block_of_def)
  obtain rest where r: "body enc es (length es) = chunk enc es 0 @ rest"
    using body_split [OF i, of enc] by (auto simp: body_def)
  have "subslice 0 HEADER_SIZE (chunk enc es 0 @ rest) = Inr (EntryHeader_serialize (hdr_of es 0))"
    by (simp add: subslice_def chunk_def)
  moreover have "EntryHeader_deserialize (EntryHeader_serialize (hdr_of es 0)) = Inr (hdr_of es 0)"
    using hdr_roundtrip [of "hdr_of es 0" "[]"] by simp
  moreover have "overlap_of es 0 = 0" by (simp add: overlap_of_def)
  ultimately show ?thesis
    using True blk_facts(1) [OF blk] r diff_slice [OF blk i, of rest] by (simp add: load_base_key_def Let_def)
qed

lemma block_step_more:
  assumes "block_at enc dec es c As (x # Ms) Bs"
  shows "\<exists>c'. block_next c = Inr (True, c') \<and> block_at enc dec es c' (As @ [x]) Ms Bs"
proof -
  have blk: "block_of enc es (bi_inner c)" and es: "es = As @ (x # Ms) @ Bs" using assms unfolding block_at_def by blast+
  note facts = blk_facts [OF blk]
  show ?thesis
  proof (cases "As = []")
    case True
    then have b: "bi_base_key c = fst (es ! 0) \<and> bi_header c = hdr_of es 0 \<or> bi_base_key c = []"
      using assms by (auto simp: block_at_def)
    have "block_next c = Inr (True, c\<lparr>bi_base_key := fst (es ! 0), bi_header := hdr_of es 0, bi_key := fst (es ! 0), bi_entry_index := Some 0\<rparr>)"
      using load_base_key_ok [OF blk b] True assms facts(2,3) by (simp add: block_next_def block_at_def)
    then show ?thesis using assms True by (auto simp: block_at_def es)
  next
    case False
    let ?i = "length As"
    have i: "?i < length es" "?i - 1 < length es" using es by auto
    have c: "bi_base_key c = fst (es ! 0)" "bi_entry_index c = Some (?i - 1)" "bi_key c = fst (es ! (?i - 1))"
      "bi_header c = hdr_of es (?i - 1)" "?i - 1 + 1 = ?i"
      using assms False by (auto simp: block_at_def es last_conv_nth nth_append)
    obtain rest where e: "entry_at (bi_inner c) ?i = Inr (hdr_of es ?i, chunk enc es ?i @ rest)"
      using entry_at_ok [OF blk i(1)] by blast
    have "set_entry_index ?i c = Inr (c\<lparr>bi_entry_index := Some ?i, bi_key := fst (es ! ?i), bi_header := hdr_of es ?i\<rparr>)"
      using e next_key_ok [OF blk i refl, of rest] c by (simp add: set_entry_index_def)
    moreover have "\<not> (case bi_back_entry_index c of Some back_id \<Rightarrow> ?i = back_id | None \<Rightarrow> ?i - 1 = length es - 1)"
    proof (cases "Bs = []")
      case True
      with assms have "bi_back_entry_index c = None" by (simp add: block_at_def)
      moreover have "?i - 1 \<noteq> length es - 1" using False es by (cases As) auto
      ultimately show ?thesis by simp
    qed (use assms in \<open>simp add: block_at_def\<close>)
    ultimately have "block_next c = Inr (True, c\<lparr>bi_entry_index := Some ?i, bi_key := fst (es ! ?i), bi_header := hdr_of es ?i\<rparr>)"
      using c facts(2) by (simp add: block_next_def Let_def split: option.splits)
    moreover have "es ! ?i = x" by (simp add: es)
    ultimately show ?thesis using assms False by (auto simp: block_at_def)
  qed
qed

lemma block_step_back_more:
  assumes "block_at enc dec es c As (Ms @ [x]) Bs"
  shows "\<exists>c'. block_next_back c = Inr (True, c') \<and> block_at enc dec es c' As Ms (x # Bs)"
proof -
  have blk: "block_of enc es (bi_inner c)" and es: "es = As @ (Ms @ [x]) @ Bs" using assms unfolding block_at_def by blast+
  note facts = blk_facts [OF blk]
  let ?i = "length As + length Ms"
  have i: "?i < length es" and x: "es ! ?i = x" using es by (auto simp: nth_append)
  obtain rest where e: "entry_at (bi_inner c) ?i = Inr (hdr_of es ?i, chunk enc es ?i @ rest)"
    using entry_at_ok [OF blk i] by blast
  show ?thesis
  proof (cases "Bs = []")
    case True
    then have n: "length es = Suc ?i" using es by simp
    have b: "bi_base_key c = fst (es ! 0) \<and> (As = [] \<longrightarrow> bi_header c = hdr_of es 0) \<or> bi_base_key c = [] \<and> As = []"
      using assms True unfolding block_at_def by auto
    define c1 where "c1 = (if As = [] then c\<lparr>bi_base_key := fst (es ! 0), bi_header := hdr_of es 0\<rparr> else c)"
    have ld: "load_base_key c = Inr c1"
    proof (cases "As = []")
      case False
      then have "bi_base_key c = fst (es ! 0)" "fst (es ! 0) \<noteq> []"
        using b blk facts(3) by (auto simp: block_of_def keys_ok_def)
      with False show ?thesis by (simp add: load_base_key_def c1_def)
    qed (use load_base_key_ok [OF blk] b in \<open>simp add: c1_def\<close>)
    have c1: "bi_base_key c1 = fst (es ! 0)" "bi_inner c1 = bi_inner c" using b by (auto simp: c1_def)
    have sl: "subslice 0 (unat (eh_overlap (hdr_of es ?i))) (fst (es ! 0)) = Inr (take (overlap_of es ?i) (fst (es ! ?i)))"
      using hdr_of_unat(1) [OF blk i] overlap_le(2) [of es ?i] overlap_take [of es ?i] by (simp add: subslice_def)
    have "block_next_back c = Inr (True, c1\<lparr>bi_back_header := hdr_of es ?i, bi_back_key := fst x, bi_back_entry_index := Some ?i\<rparr>)"
      using assms True ld e sl diff_slice [OF blk i, of rest] c1 facts(2) n x
      by (simp add: block_next_back_def block_at_def)
    then show ?thesis using assms True c1 unfolding block_at_def by (auto simp: c1_def)
  next
    case False
    have bi: "Suc ?i < length es" using es False by (cases Bs) auto
    have c: "bi_base_key c = fst (es ! 0)" "bi_back_entry_index c = Some (Suc ?i)" "bi_back_key c = fst (es ! (Suc ?i))"
      "bi_back_header c = hdr_of es (Suc ?i)"
      using assms False by (auto simp: block_at_def es nth_append hd_conv_nth)
    have stop: "(case bi_entry_index c of Some i \<Rightarrow> and_then (sub_usize (Suc ?i) 1) (\<lambda>j. Inr (j = i))
        | None \<Rightarrow> Inr (Suc ?i = 0)) = (Inr False :: bool outcome)"
      using assms by (cases As) (auto simp: block_at_def sub_usize_def)
    have "block_next_back c = Inr (True, c\<lparr>bi_back_entry_index := Some ?i, bi_back_key := fst x, bi_back_header := hdr_of es ?i\<rparr>)"
      using c stop e next_key_ok [OF blk i bi refl, of rest] x by (simp add: block_next_back_def)
    then show ?thesis using assms False unfolding block_at_def by (auto simp: c(1))
  qed
qed

lemma block_step_end: "block_at enc dec es c As [] Bs \<Longrightarrow> As \<noteq> [] \<Longrightarrow> block_next c = Inr (False, c)"
  by (cases "Bs = []") (auto simp: block_at_def block_next_def blk_facts(2) Let_def)

lemma block_step_back_end:
  assumes "block_at enc dec es c As [] Bs" "Bs \<noteq> []"
  shows "block_next_back c = Inr (False, c)"
proof -
  have "bi_back_entry_index c = Some (length As)" using assms by (auto simp: block_at_def)
  moreover have "(case bi_entry_index c of Some i \<Rightarrow> and_then (sub_usize (length As) 1) (\<lambda>j. Inr (j = i))
        | None \<Rightarrow> Inr (length As = 0)) = (Inr True :: bool outcome)"
    using assms by (cases As) (auto simp: block_at_def sub_usize_def)
  ultimately show ?thesis by (simp add: block_next_back_def)
qed

lemma block_item_at:
  assumes "block_at enc dec es c (As @ [x]) Ms Bs" shows "block_item enc dec c = Some x"
proof -
  have blk: "block_of enc es (bi_inner c)" and es: "es = (As @ [x]) @ Ms @ Bs" and laws: "varint_laws enc dec"
    using assms unfolding block_at_def by blast+
  have i: "length As < length es" "es ! length As = x" by (simp_all add: es)
  have "fst x \<noteq> []" using blk i by (metis block_of_def keys_ok_def nth_mem)
  with value_at_ok [OF blk i(1) laws] i assms show ?thesis
    by (simp add: block_item_def block_key_def block_value_def block_at_def)
qed

lemma block_item_back_at:
  assumes "block_at enc dec es c As Ms (x # Bs)" shows "block_item_back enc dec c = Some x"
proof -
  have blk: "block_of enc es (bi_inner c)" and es: "es = As @ Ms @ (x # Bs)" and laws: "varint_laws enc dec"
    using assms unfolding block_at_def by blast+
  have i: "length As + length Ms < length es" "es ! (length As + length Ms) = x" by (simp_all add: es nth_append)
  have "fst x \<noteq> []" using blk i by (metis block_of_def keys_ok_def nth_mem)
  with value_at_ok [OF blk i(1) laws] i assms show ?thesis
    by (simp add: block_item_back_def block_key_back_def block_value_back_def block_at_def)
qed

interpretation blk: double_ended_cursor "block_at enc dec es" "\<lambda>c. step_of (block_next c)" "\<lambda>c. step_of (block_next_back c)"
    "block_item enc dec" "block_item_back enc dec" for enc dec es
proof (unfold_locales, goal_cases)
  case 1
  from block_step_more [OF this] show ?case by (auto simp: step_of_def)
next
  case 2
  from block_step_end [OF this] show ?case by (simp add: step_of_def)
next
  case 3
  from block_step_back_more [OF this] show ?case by (auto simp: step_of_def)
next
  case 4
  from block_step_back_end [OF this] show ?case by (simp add: step_of_def)
next
  case 5
  then show ?case by (rule block_item_at)
next
  case 6
  then show ?case by (rule block_item_back_at)
qed

lemma block_at_new: "varint_laws enc dec \<Longrightarrow> block_of enc es b \<Longrightarrow> block_at enc dec es (block_iter_new b) [] es []"
  by (simp add: block_at_def block_iter_new_def)

text \<open>Pushing a list of entries into a fresh builder.\<close>

fun push_all :: "var_enc \<Rightarrow> kvs \<Rightarrow> block_builder \<Rightarrow> block_builder outcome" where
  "push_all enc [] bb = Inr bb"
| "push_all enc ((k, v) # es) bb = and_then (push_entry enc k v bb) (push_all enc es)"

lemma push_all_built:
  "built enc done' bb \<Longrightarrow> keys_ok es \<Longrightarrow> \<exists>bb'. push_all enc es bb = Inr bb' \<and> built enc (done' @ es) bb'"
proof (induction es arbitrary: done' bb)
  case (Cons e es)
  obtain k v where e: "e = (k, v)" by (cases e)
  with Cons.prems(2) have k: "k \<noteq> []" "length k < 2 ^ 16" "keys_ok es" by (auto simp: keys_ok_def)
  obtain bb' where "push_entry enc k v bb = Inr bb'" "built enc (done' @ [(k, v)]) bb'"
    using push_entry_built [OF Cons.prems(1) k(1,2)] by metis
  with Cons.IH [OF this(2) k(3)] e show ?case by simp
qed simp


text \<open>
  A block with a single entry cannot be walked from both ends: after one step from the
  front and one from the back, which both yield the entry, every further step panics.
\<close>

theorem single_entry_block_panics:
  assumes "block_of enc [(k, v)] blk"
  shows "\<exists>c c'. block_next (block_iter_new blk) = Inr (True, c) \<and> block_next_back c = Inr (True, c') \<and>
    block_next c' = Inl Panic \<and> block_next_back c' = Inl Panic"
proof -
  note facts = blk_facts [OF assms]
  let ?es = "[(k, v)]"
  have k: "k \<noteq> []" using assms by (simp add: block_of_def keys_ok_def)
  let ?c = "(block_iter_new blk)\<lparr>bi_base_key := k, bi_header := hdr_of ?es 0, bi_key := k, bi_entry_index := Some 0\<rparr>"
  have n: "block_next (block_iter_new blk) = Inr (True, ?c)"
    using load_base_key_ok [of enc ?es "block_iter_new blk"] assms facts(2)
    by (simp add: block_next_def block_iter_new_def)
  obtain rest where e: "entry_at blk 0 = Inr (hdr_of ?es 0, chunk enc ?es 0 @ rest)" using entry_at_ok [OF assms, of 0] by auto
  have h: "unat (eh_overlap (hdr_of ?es 0)) = 0" using hdr_of_unat(1) [OF assms, of 0] by (simp add: overlap_of_def)
  let ?c' = "?c\<lparr>bi_back_header := hdr_of ?es 0, bi_back_key := k, bi_back_entry_index := Some 0\<rparr>"
  have b: "block_next_back ?c = Inr (True, ?c')"
    using e h diff_slice [OF assms, of 0 rest] facts(2) k
    by (simp add: block_next_back_def block_iter_new_def load_base_key_def subslice_def overlap_of_def)
  have "block_next ?c' = Inl Panic"
    using facts(2) by (simp add: block_next_def block_iter_new_def set_entry_index_def entry_at_def index_def)
  moreover have "block_next_back ?c' = Inl Panic"
    by (simp add: block_next_back_def block_iter_new_def sub_usize_def)
  ultimately show ?thesis using n b by blast
qed

section \<open>An instance\<close>

definition demo_sum :: sum_env where
  "demo_sum = \<lparr>se_crc32 = (\<lambda>_. 0), se_xxh3 = (\<lambda>d. word_of_nat (length d)),
     se_encode = (\<lambda>c. (case ck_algo c of Crc32c \<Rightarrow> 0 | XxHash64 \<Rightarrow> 1) # put_u64 (ck_sum c)),
     se_decode = (\<lambda>bs. case bs of [] \<Rightarrow> None | a # r \<Rightarrow> (case get_u64 r of None \<Rightarrow> None
       | Some (s, _) \<Rightarrow> Some \<lparr>ck_algo = (if a = 0 then Crc32c else XxHash64), ck_sum = s\<rparr>))\<rparr>"

lemma demo_sum_laws: "sum_laws demo_sum"
  by (auto simp: sum_laws_def demo_sum_def split: algorithm.split)

definition demo_kvs :: kvs where
  "demo_kvs = [(KeyTs_serialize (KeyTs [97] 1), ValueMeta_default), (KeyTs_serialize (KeyTs [97, 98] 1), ValueMeta_default)]"

lemma demo_kvs_ok: "demo_kvs \<noteq> []" "keys_ok demo_kvs" "total_size leb_enc demo_kvs < 2 ^ 32"
proof -
  show "demo_kvs \<noteq> []" "keys_ok demo_kvs" by (simp_all add: demo_kvs_def keys_ok_def KeyTs_serialize_def)
  show "total_size leb_enc demo_kvs < 2 ^ 32"
    by (simp add: total_size_def body_def demo_kvs_def chunk_def HEADER_SIZE_def KeyTs_serialize_def ValueMeta_serialize_def
        ValueMeta_default_def leb_enc_def leb.simps)
qed


theorem single_entry_block_panics_witness:
  "\<exists>blk c c'. block_next (block_iter_new blk) = Inr (True, c) \<and> block_next_back c = Inr (True, c') \<and> block_next c' = Inl Panic"
proof -
  let ?es = "[([97], ValueMeta_default)]"
  have ok: "keys_ok ?es" by (simp add: keys_ok_def)
  have sz: "total_size leb_enc ?es < 2 ^ 32"
    by (simp add: total_size_def body_def chunk_def HEADER_SIZE_def ValueMeta_serialize_def
        ValueMeta_default_def leb_enc_def leb.simps)
  obtain bb where "built leb_enc ?es bb" using push_all_built [OF built_new ok] by auto
  then obtain blk where "block_of leb_enc ?es blk" using finish_deserialize [OF _ _ sz demo_sum_laws] by blast
  from single_entry_block_panics [OF this] show ?thesis by blast
qed

end
