(* ===== verification/Bloom.thy ===== *)
theory Bloom
  imports Prelude
begin

text \<open>
  The bloom filter of \<open>src/src/util/bloom.rs\<close>. The number of bits per key and the number of
  probes come from floating-point logarithms of the false positive rate and are
  arguments. \<open>unchecked_add\<close> and \<open>unchecked_mul\<close> are taken to wrap, as the compiled code
  does; on overflow the source is undefined behaviour.
\<close>

unbundle bit_operations_syntax

section \<open>The filter\<close>

definition rotate :: "u32 \<Rightarrow> u32" where
  "rotate hash = drop_bit 17 hash OR push_bit 15 hash"

text \<open>The hash as it changes from probe to probe.\<close>

fun probes :: "nat \<Rightarrow> u32 \<Rightarrow> u32 \<Rightarrow> u32 list" where
  "probes 0 delta hash = []"
| "probes (Suc k) delta hash = hash # probes k delta (hash + delta)"

definition set_bloom_bit :: "nat \<Rightarrow> u32 \<Rightarrow> bytes \<Rightarrow> bytes" where
  "set_bloom_bit bit_len hash filter' =
     (let bit_pos = unat hash mod bit_len in
      filter'[bit_pos div 8 := filter' ! (bit_pos div 8) OR push_bit (bit_pos mod 8) 1])"

definition add_hash :: "nat \<Rightarrow> nat \<Rightarrow> u32 \<Rightarrow> bytes \<Rightarrow> bytes" where
  "add_hash bit_len k hash filter' = fold (set_bloom_bit bit_len) (probes k (rotate hash) hash) filter'"

definition Bloom_new :: "nat \<Rightarrow> u32 \<Rightarrow> u32 list \<Rightarrow> bytes" where
  "Bloom_new bits_per_key k key_hashes =
     (let bit_len = max (length key_hashes * bits_per_key) 64;
          byte_len = (bit_len + 7) div 8;
          bit_len = byte_len * 8;
          filter' = fold (add_hash bit_len (unat k)) key_hashes (replicate (byte_len + 1) 0)
      in filter'[byte_len := ucast k])"

definition test_bloom_bit :: "bytes \<Rightarrow> nat \<Rightarrow> u32 \<Rightarrow> bool" where
  "test_bloom_bit filter' bit_len hash =
     (let bit_pos = unat hash mod bit_len in
      filter' ! (bit_pos div 8) AND push_bit (bit_pos mod 8) 1 \<noteq> 0)"

definition may_contain :: "bytes \<Rightarrow> u32 \<Rightarrow> bool" where
  "may_contain filter' hash =
     (if length filter' < 2 then False
      else let k = filter' ! (length filter' - 1);
               bit_len = (length filter' - 1) * 8
           in list_all (test_bloom_bit filter' bit_len) (probes (unat k) (rotate hash) hash))"

section \<open>The hash of a key\<close>

definition BLOOM_SEED :: u32 where "BLOOM_SEED = 0xbc9f1d34"
definition BLOOM_M :: u32 where "BLOOM_M = 0xc6a4a793"

fun le_bytes :: "bytes \<Rightarrow> u32" where
  "le_bytes [] = 0"
| "le_bytes (b # bs) = ucast b OR push_bit 8 (le_bytes bs)"

fun hash_loop :: "u32 \<Rightarrow> bytes \<Rightarrow> u32" where
  "hash_loop hash (b0 # b1 # b2 # b3 # bs) =
     (let hash = (hash + le_bytes [b0, b1, b2, b3]) * BLOOM_M in hash_loop (hash XOR drop_bit 16 hash) bs)"
| "hash_loop hash [] = hash"
| "hash_loop hash bs = (let hash = (hash + le_bytes bs) * BLOOM_M in hash XOR drop_bit 24 hash)"

definition Bloom_hash :: "bytes \<Rightarrow> u32" where
  "Bloom_hash bytes = hash_loop (BLOOM_SEED XOR (word_of_nat (length bytes) * BLOOM_M)) bytes"

definition may_contain_key :: "bytes \<Rightarrow> bytes \<Rightarrow> bool" where
  "may_contain_key filter' key = may_contain filter' (Bloom_hash key)"

section \<open>No false negatives\<close>

lemma hash_tests:
  "Bloom_hash [] = 0xbc9f1d34" "Bloom_hash (bytes_of ''a'') = 0x286e9db0" "Bloom_hash (bytes_of ''ab'') = 0x39aca330"
  "Bloom_hash (bytes_of ''abc'') = 0x855d012f" "Bloom_hash (bytes_of ''abcd'') = 0xb9c83353"
  "Bloom_hash (bytes_of ''abcde'') = 0x41d2c26d" "Bloom_hash (bytes_of ''abcdefghi'') = 0xf065ec74"
  by code_simp+

lemma length_set_bloom_bit [simp]: "length (set_bloom_bit n h f) = length f"
  by (simp add: set_bloom_bit_def Let_def)

lemma test_bit_iff: "test_bloom_bit f n h \<longleftrightarrow> bit (f ! (unat h mod n div 8)) (unat h mod n mod 8)"
  by (simp add: test_bloom_bit_def Let_def bit_iff_and_push_bit_not_eq_0)

lemma set_bit_iff:
  assumes "0 < n" "n \<le> 8 * length f"
  shows "test_bloom_bit (set_bloom_bit n g f) n h \<longleftrightarrow> test_bloom_bit f n h \<or> unat g mod n = unat h mod n"
proof -
  let ?p = "unat g mod n" and ?q = "unat h mod n"
  have "?p < n" using assms(1) by simp
  then have p: "?p div 8 < length f" using assms(2) by linarith
  have b: "bit (push_bit i (1 :: byte)) j \<longleftrightarrow> i = j" if "j < 8" for i j
    using that by (auto simp: bit_exp_iff)
  show ?thesis
  proof (cases "?p div 8 = ?q div 8")
    case True
    then have "?p = ?q \<longleftrightarrow> ?p mod 8 = ?q mod 8" by (metis div_mod_decomp)
    moreover have "test_bloom_bit (set_bloom_bit n g f) n h \<longleftrightarrow> test_bloom_bit f n h \<or> ?p mod 8 = ?q mod 8"
      using p b [of "?q mod 8"] True unfolding test_bit_iff set_bloom_bit_def Let_def
      by (simp add: bit_or_iff)
    ultimately show ?thesis by simp
  next
    case False
    then show ?thesis unfolding test_bit_iff set_bloom_bit_def Let_def by auto
  qed
qed

lemma fold_set_bits:
  assumes "0 < n" "n \<le> 8 * length f"
  shows "length (fold (set_bloom_bit n) gs f) = length f \<and>
    (test_bloom_bit (fold (set_bloom_bit n) gs f) n h \<longleftrightarrow> test_bloom_bit f n h \<or> (\<exists>g \<in> set gs. unat g mod n = unat h mod n))"
  using assms by (induction gs arbitrary: f) (auto simp: set_bit_iff)

lemma fold_add_hash:
  assumes "0 < n" "n \<le> 8 * length f"
  shows "length (fold (add_hash n k) hs f) = length f \<and>
    (test_bloom_bit f n h \<or> (\<exists>x \<in> set hs. h \<in> set (probes k (rotate x) x)) \<longrightarrow> test_bloom_bit (fold (add_hash n k) hs f) n h)"
  using assms
proof (induction hs arbitrary: f)
  case (Cons x hs)
  have "length (add_hash n k x f) = length f" using fold_set_bits [OF Cons.prems] by (simp add: add_hash_def)
  with Cons.IH [of "add_hash n k x f"] Cons.prems fold_set_bits [OF Cons.prems, of "probes k (rotate x) x" h] show ?case
    by (auto simp: add_hash_def)
qed simp

lemma may_contain_added:
  assumes "h \<in> set key_hashes" "unat k < 256"
  shows "may_contain (Bloom_new bits_per_key k key_hashes) h"
proof -
  define bl where "bl = (max (length key_hashes * bits_per_key) 64 + 7) div 8"
  have bl: "bl \<ge> 8" by (simp add: bl_def)
  let ?f = "fold (add_hash (bl * 8) (unat k)) key_hashes (replicate (bl + 1) 0)"
  have f: "length ?f = bl + 1" "\<And>g. g \<in> set (probes (unat k) (rotate h) h) \<Longrightarrow> test_bloom_bit ?f (bl * 8) g"
    using fold_add_hash [of "bl * 8" "replicate (bl + 1) 0" "unat k" key_hashes] bl assms(1) by auto
  have new: "Bloom_new bits_per_key k key_hashes = ?f[bl := ucast k]" by (simp add: Bloom_new_def bl_def Let_def)
  have "unat (ucast k :: byte) = unat k" using assms(2) by (simp add: unsigned_ucast_eq take_bit_nat_eq_self)
  moreover have "test_bloom_bit (?f[bl := ucast k]) (bl * 8) g \<longleftrightarrow> test_bloom_bit ?f (bl * 8) g" for g
  proof -
    have "unat g mod (bl * 8) div 8 < bl" using bl by (simp add: less_mult_imp_div_less)
    then show ?thesis by (simp add: test_bit_iff)
  qed
  ultimately show ?thesis
    using f bl unfolding new may_contain_def by (simp add: list_all_iff)
qed

text \<open>
  C30: The bloom filter has no false negatives. Whatever the number of bits per key and the
  number of probes (up to what its byte holds), the filter built from a list of hashes
  answers that it may contain each of them; so a key that was added is never reported missing.
\<close>

theorem bloom_no_false_negatives:
  assumes "h \<in> set key_hashes" "unat k < 256"
  shows "may_contain (Bloom_new bits_per_key k key_hashes) h"
  by (rule may_contain_added [OF assms])

theorem bloom_no_false_negatives_witness:
  "may_contain_key (Bloom_new 7 4 (map Bloom_hash [bytes_of ''a'', bytes_of ''abc''])) (bytes_of ''abc'')"
  unfolding may_contain_key_def by (rule bloom_no_false_negatives) simp_all

end
