(* ===== verification/Table.thy ===== *)
theory Table
  imports Block Bloom Mmap
begin

text \<open>
  Tables (\<open>src/src/table/write.rs\<close>, \<open>src/src/table/mod.rs\<close>, \<open>src/src/table/read.rs\<close>): the
  builder that cuts a sorted run of entries into blocks and appends the index, opening a
  table file, and the iterator over its blocks. The compressors, the ciphers, the checksum
  and the encoding of the index as a flat buffer are fields of \<open>table_env\<close>, with the laws
  relied on in \<open>table_laws\<close>. A block handed to a worker is compressed and encrypted where
  it is handed over; the block and index caches are transparent and left out. The
  \<open>u32\<close> size counters wrap.
\<close>

section \<open>Environment and configuration\<close>

datatype compression_type = No_compression | Snappy | ZSTD int

record fb_offset =
  fo_key_ts :: bytes
  fo_offset :: u32
  fo_len :: u32

record fb_index =
  fi_offsets :: "fb_offset list"
  fi_bloom_filter :: "bytes option"
  fi_max_version :: u64
  fi_key_count :: u32
  fi_uncompressed_size :: u32
  fi_on_disk_size :: u32
  fi_stale_data_size :: u32

text \<open>\<open>te_nonce\<close> gives the random nonce of the n-th encryption of a builder.\<close>

record table_env =
  te_enc :: var_enc
  te_dec :: var_dec
  te_sum :: sum_env
  te_crypto :: crypto
  te_nonce :: "nat \<Rightarrow> bytes"
  te_snap_compress :: "bytes \<Rightarrow> bytes option"
  te_snap_decompress :: "bytes \<Rightarrow> bytes option"
  te_zstd_compress :: "int \<Rightarrow> bytes \<Rightarrow> bytes option"
  te_zstd_decompress :: "bytes \<Rightarrow> bytes option"
  te_fb_encode :: "fb_index \<Rightarrow> bytes"
  te_fb_decode :: "bytes \<Rightarrow> fb_index option"

definition table_laws :: "table_env \<Rightarrow> bool" where
  "table_laws te \<longleftrightarrow> varint_laws (te_enc te) (te_dec te) \<and> sum_laws (te_sum te) \<and>
     (\<forall>i. te_fb_decode te (te_fb_encode te i) = Some i) \<and> (\<forall>n. length (te_nonce te n) = NONCE_SIZE) \<and>
     (\<forall>d. \<exists>c. te_snap_compress te d = Some c \<and> te_snap_decompress te c = Some d) \<and>
     (\<forall>l d. \<exists>c. te_zstd_compress te l d = Some c \<and> te_zstd_decompress te c = Some d) \<and>
     (\<forall>c n d. \<exists>e. aes_encrypt (te_crypto te) c n d = Some e \<and> aes_decrypt (te_crypto te) c n e = Some d)"

definition or_anyhow :: "string \<Rightarrow> 'a option \<Rightarrow> 'a outcome" where
  "or_anyhow msg r = (case r of Some x \<Rightarrow> Inr x | None \<Rightarrow> Inl (Anyhow msg))"

text \<open>\<open>map_err\<close>: an error is replaced by another one, a panic goes through.\<close>

definition map_err :: "string \<Rightarrow> 'a outcome \<Rightarrow> 'a outcome" where
  "map_err msg r = (case r of Inl Panic \<Rightarrow> Inl Panic | Inl _ \<Rightarrow> Inl (Anyhow msg) | Inr x \<Rightarrow> Inr x)"

lemma map_err_Inr [simp]: "map_err msg (Inr x) = Inr x"
  by (simp add: map_err_def)

fun compress :: "table_env \<Rightarrow> compression_type \<Rightarrow> bytes \<Rightarrow> bytes outcome" where
  "compress te No_compression data = Inr data"
| "compress te Snappy data = or_anyhow ''snappy'' (te_snap_compress te data)"
| "compress te (ZSTD level) data = or_anyhow ''zstd'' (te_zstd_compress te level data)"

fun decompress :: "table_env \<Rightarrow> compression_type \<Rightarrow> bytes \<Rightarrow> bytes outcome" where
  "decompress te No_compression data = Inr data"
| "decompress te Snappy data = or_anyhow ''snappy'' (te_snap_decompress te data)"
| "decompress te (ZSTD _) data = or_anyhow ''zstd'' (te_zstd_decompress te data)"

definition try_decrypt_table :: "table_env \<Rightarrow> aes_cipher option \<Rightarrow> bytes \<Rightarrow> bytes outcome" where
  "try_decrypt_table te cipher data =
     (case cipher of
        None \<Rightarrow> Inr data
      | Some c \<Rightarrow>
        and_then (sub_usize (length data) NONCE_SIZE) (\<lambda>n.
        and_then (decrypt_with_slice (te_crypto te) c (drop n data) (take n data)) (or_anyhow ''while decrypt'')))"

definition try_encrypt_table :: "table_env \<Rightarrow> aes_cipher option \<Rightarrow> nat \<Rightarrow> bytes \<Rightarrow> bytes outcome" where
  "try_encrypt_table te cipher n data =
     (case cipher of
        Some c \<Rightarrow> and_then (or_anyhow ''while encrypt'' (aes_encrypt (te_crypto te) c (te_nonce te n) data))
                   (\<lambda>ciphertext. Inr (ciphertext @ te_nonce te n))
      | None \<Rightarrow> Inr data)"

datatype checksum_verification_mode = NoVerification | OnTableRead | OnBlockRead | OnTableAndBlockRead

text \<open>\<open>tg_bloom\<close>: bits per key and number of probes for the false positive rate, when that is positive.\<close>

record table_config =
  tg_table_size :: nat
  tg_table_capacity :: nat
  tg_checksum_verify_mode :: checksum_verification_mode
  tg_checksum_algo :: algorithm
  tg_bloom :: "(nat \<times> u32) option"
  tg_block_size :: nat
  tg_compression :: compression_type

definition TableConfig_default :: table_config where
  "TableConfig_default = \<lparr>tg_table_size = 2 * 2 ^ 20, tg_table_capacity = 2 * 2 ^ 20 * 95 div 100,
     tg_checksum_verify_mode = NoVerification, tg_checksum_algo = Crc32c, tg_bloom = Some (7, 4),
     tg_block_size = 4 * 1024, tg_compression = No_compression\<rparr>"

section \<open>Building a table\<close>

record table_builder =
  tb_cur_block :: block_builder
  tb_compressed_size :: u32
  tb_uncompressed_size :: u32
  tb_cipher :: "aes_cipher option"
  tb_len_offsets :: u32
  tb_key_hashes :: "u32 list"
  tb_max_version :: u64
  tb_on_disk_size :: u32
  tb_stale_data_size :: u32
  tb_config :: table_config
  tb_compress_task :: "block_builder outcome list"

definition TableBuilder_new :: "table_config \<Rightarrow> aes_cipher option \<Rightarrow> table_builder" where
  "TableBuilder_new config cipher =
     \<lparr>tb_cur_block = BlockBuilder_new, tb_compressed_size = 0, tb_uncompressed_size = 0, tb_cipher = cipher,
      tb_len_offsets = 0, tb_key_hashes = [], tb_max_version = 0, tb_on_disk_size = 0, tb_stale_data_size = 0,
      tb_config = config, tb_compress_task = []\<rparr>"

text \<open>What a worker does with a finished block.\<close>

definition compress_task :: "table_env \<Rightarrow> compression_type \<Rightarrow> aes_cipher option \<Rightarrow> nat \<Rightarrow> block_builder \<Rightarrow> block_builder outcome" where
  "compress_task te compression cipher n bb =
     and_then (compress te compression (bb_data bb)) (\<lambda>data.
     and_then (try_encrypt_table te cipher n data) (\<lambda>data. Inr (bb\<lparr>bb_data := data\<rparr>)))"

definition finish_cur_block :: "table_env \<Rightarrow> table_builder \<Rightarrow> table_builder" where
  "finish_cur_block te tb =
     (if bb_entry_offsets (tb_cur_block tb) = [] then tb
      else
        let bb = finish_block (te_sum te) (tg_checksum_algo (tb_config tb)) (tb_cur_block tb);
            task = compress_task te (tg_compression (tb_config tb)) (tb_cipher tb) (length (tb_compress_task tb)) bb
        in tb\<lparr>tb_cur_block := BlockBuilder_new,
              tb_uncompressed_size := tb_uncompressed_size tb + word_of_nat (length (bb_data bb)),
              tb_len_offsets := tb_len_offsets tb + word_of_nat ((length (bb_base_keyts bb) + 3) div 4 * 4 + 40),
              tb_compressed_size := tb_compressed_size tb + (case task of Inr bb \<Rightarrow> word_of_nat (length (bb_data bb)) | Inl _ \<Rightarrow> 0),
              tb_compress_task := tb_compress_task tb @ [task]\<rparr>)"

definition push_internal ::
  "table_env \<Rightarrow> bytes \<Rightarrow> value_meta \<Rightarrow> u32 option \<Rightarrow> bool \<Rightarrow> table_builder \<Rightarrow> table_builder outcome" where
  "push_internal te key_ts v vptr_len is_stale tb =
     and_then (should_finish_block (te_enc te) (tb_cur_block tb) key_ts v (tg_block_size (tb_config tb)) (tb_cipher tb \<noteq> None)) (\<lambda>fin.
     let tb = (if fin then finish_cur_block te
                 (if is_stale then tb\<lparr>tb_stale_data_size := tb_stale_data_size tb + word_of_nat (length key_ts + 4)\<rparr> else tb)
               else tb);
         tb = tb\<lparr>tb_key_hashes := tb_key_hashes tb @ [Bloom_hash (KeyTsBorrow_key key_ts)],
                 tb_max_version := max (tb_max_version tb) (KeyTsBorrow_txn_ts key_ts)\<rparr>
     in and_then (push_entry (te_enc te) key_ts v (tb_cur_block tb)) (\<lambda>bb.
        Inr (tb\<lparr>tb_cur_block := bb, tb_on_disk_size := tb_on_disk_size tb + (case vptr_len of Some l \<Rightarrow> l | None \<Rightarrow> 0)\<rparr>)))"

definition tb_push :: "table_env \<Rightarrow> bytes \<Rightarrow> value_meta \<Rightarrow> u32 option \<Rightarrow> table_builder \<Rightarrow> table_builder outcome" where
  "tb_push te key_ts v vptr_len tb = push_internal te key_ts v vptr_len False tb"

definition tb_push_stale :: "table_env \<Rightarrow> bytes \<Rightarrow> value_meta \<Rightarrow> u32 option \<Rightarrow> table_builder \<Rightarrow> table_builder outcome" where
  "tb_push_stale te key_ts v vptr_len tb =
     push_internal te key_ts v vptr_len True
       (tb\<lparr>tb_stale_data_size := tb_stale_data_size tb + word_of_nat (length key_ts + length (vm_value v) + 4)\<rparr>)"

definition reacded_capacity :: "table_builder \<Rightarrow> bool" where
  "reacded_capacity tb =
     (let sum_block_sizes = (if tg_compression (tb_config tb) = No_compression \<and> tb_cipher tb = None
            then tb_uncompressed_size tb else tb_compressed_size tb);
          blocks_size = sum_block_sizes + word_of_nat (length (bb_entry_offsets (tb_cur_block tb)) * 4) + 4 + 8 + 4;
          estimate_size = blocks_size + 4 + tb_len_offsets tb
      in unat estimate_size > tg_table_capacity (tb_config tb))"

definition tb_is_empty :: "table_builder \<Rightarrow> bool" where
  "tb_is_empty tb \<longleftrightarrow> tb_key_hashes tb = []"

fun await_tasks :: "'a outcome list \<Rightarrow> 'a list outcome" where
  "await_tasks [] = Inr []"
| "await_tasks (t # ts) = and_then t (\<lambda>x. and_then (await_tasks ts) (\<lambda>xs. Inr (x # xs)))"

fun block_offsets :: "u32 \<Rightarrow> block_builder list \<Rightarrow> fb_offset list" where
  "block_offsets data_size [] = []"
| "block_offsets data_size (bb # bbs) =
     \<lparr>fo_key_ts = bb_base_keyts bb, fo_offset = data_size, fo_len = word_of_nat (length (bb_data bb))\<rparr> #
     block_offsets (data_size + word_of_nat (length (bb_data bb))) bbs"

definition build_index ::
  "table_env \<Rightarrow> block_builder list \<Rightarrow> bytes option \<Rightarrow> table_builder \<Rightarrow> (bytes \<times> u32 \<times> table_builder) outcome" where
  "build_index te block_list bloom tb =
     (let data_size = word_of_nat (length (concat (map bb_data block_list)));
          tb = tb\<lparr>tb_on_disk_size := tb_on_disk_size tb + data_size\<rparr>;
          table_index = \<lparr>fi_offsets = block_offsets 0 block_list, fi_bloom_filter = bloom,
            fi_max_version = tb_max_version tb, fi_key_count = word_of_nat (length (tb_key_hashes tb)),
            fi_uncompressed_size = tb_uncompressed_size tb, fi_on_disk_size = tb_on_disk_size tb,
            fi_stale_data_size = tb_stale_data_size tb\<rparr>
      in and_then (try_encrypt_table te (tb_cipher tb) (length block_list) (te_fb_encode te table_index)) (\<lambda>index.
         Inr (index, data_size, tb)))"

record table_build_data =
  td_block_list :: "block_builder list"
  td_index :: bytes
  td_checksum :: bytes
  td_size :: nat

definition tb_done :: "table_env \<Rightarrow> table_builder \<Rightarrow> (table_build_data \<times> table_builder) outcome" where
  "tb_done te tb =
     (let tb = finish_cur_block te tb in
      and_then (await_tasks (tb_compress_task tb)) (\<lambda>block_list.
      let bloom = map_option (\<lambda>(bpk, k). Bloom_new bpk k (tb_key_hashes tb)) (tg_bloom (tb_config tb));
          tb = tb\<lparr>tb_compress_task := []\<rparr>
      in and_then (build_index te block_list bloom tb) (\<lambda>(index, data_size, tb).
         let checksum = se_encode (te_sum te) (Checksum_new (te_sum te) (tg_checksum_algo (tb_config tb)) index)
         in Inr (\<lparr>td_block_list = block_list, td_index = index, td_checksum = checksum,
                  td_size = unat data_size + length index + 4 + length checksum + 4\<rparr>, tb))))"

definition read_all :: "table_build_data \<Rightarrow> bytes" where
  "read_all td = concat (map bb_data (td_block_list td)) @ td_index td @ put_u32 (word_of_nat (length (td_index td))) @
     td_checksum td @ put_u32 (word_of_nat (length (td_checksum td)))"

text \<open>\<open>finish\<close>: the bytes are copied into a buffer of the computed size.\<close>

definition tb_finish :: "table_env \<Rightarrow> table_builder \<Rightarrow> bytes outcome" where
  "tb_finish te tb =
     and_then (tb_done te tb) (\<lambda>(td, tb).
       if length (read_all td) \<noteq> td_size td then Inl Panic else Inr (read_all td))"

section \<open>Opening a table\<close>

record block_offset =
  bo_key_ts :: key_ts
  bo_offset :: u32
  bo_len :: u32

record table_index =
  ti_offsets :: "block_offset list"
  ti_bloom_filter :: "bytes option"
  ti_max_version :: u64
  ti_key_count :: u32
  ti_uncompressed_size :: u32
  ti_on_disk_size :: u32
  ti_stale_data_size :: u32

definition TableIndexBuf_from_vec :: "table_env \<Rightarrow> bytes \<Rightarrow> table_index outcome" where
  "TableIndexBuf_from_vec te data =
     and_then (or_anyhow ''InvalidFlatbuffer'' (te_fb_decode te data)) (\<lambda>fi.
     Inr \<lparr>ti_offsets = map (\<lambda>x. \<lparr>bo_key_ts = KeyTs_from (fo_key_ts x), bo_offset = fo_offset x, bo_len = fo_len x\<rparr>) (fi_offsets fi),
          ti_bloom_filter = fi_bloom_filter fi, ti_max_version = fi_max_version fi, ti_key_count = fi_key_count fi,
          ti_uncompressed_size = fi_uncompressed_size fi, ti_on_disk_size = fi_on_disk_size fi,
          ti_stale_data_size = fi_stale_data_size fi\<rparr>)"

record cheap_index =
  ci_max_version :: u64
  ci_key_count :: u32
  ci_uncompressed_size :: u32
  ci_on_disk_size :: u32
  ci_stale_data_size :: u32
  ci_offsets_len :: nat
  ci_bloom_filter_len :: nat

definition CheapTableIndex_from :: "table_index \<Rightarrow> cheap_index" where
  "CheapTableIndex_from i = \<lparr>ci_max_version = ti_max_version i, ci_key_count = ti_key_count i,
     ci_uncompressed_size = ti_uncompressed_size i, ci_on_disk_size = ti_on_disk_size i,
     ci_stale_data_size = ti_stale_data_size i, ci_offsets_len = length (ti_offsets i),
     ci_bloom_filter_len = (case ti_bloom_filter i of Some b \<Rightarrow> length b | None \<Rightarrow> 0)\<rparr>"

definition init_index :: "table_env \<Rightarrow> mmap_file \<Rightarrow> aes_cipher option \<Rightarrow> (table_index \<times> nat \<times> nat) outcome" where
  "init_index te mmap_f cipher =
     and_then (sub_usize (length (mm_raw mmap_f)) 4) (\<lambda>read_pos.
     and_then (read_slice_ref read_pos 4 mmap_f) (\<lambda>buf.
     let checksum_len = from_be buf in
     and_then (sub_usize read_pos checksum_len) (\<lambda>read_pos.
     and_then (read_slice_ref read_pos checksum_len mmap_f) (\<lambda>buf.
     and_then (or_anyhow ''decode'' (se_decode (te_sum te) buf)) (\<lambda>checksum.
     and_then (sub_usize read_pos 4) (\<lambda>read_pos.
     and_then (read_slice_ref read_pos 4 mmap_f) (\<lambda>buf.
     let index_len = from_be buf in
     and_then (sub_usize read_pos index_len) (\<lambda>index_start.
     and_then (read_slice_ref index_start index_len mmap_f) (\<lambda>data.
     and_then (Checksum_verify (te_sum te) checksum data) (\<lambda>_.
     and_then (try_decrypt_table te cipher data) (\<lambda>data.
     and_then (TableIndexBuf_from_vec te data) (\<lambda>index_buf.
     if ti_offsets index_buf = [] then Inl Panic
     else Inr (index_buf, index_start, index_len)))))))))))))"

definition get_smallest_biggest ::
  "table_env \<Rightarrow> table_config \<Rightarrow> table_index \<Rightarrow> mmap_file \<Rightarrow> aes_cipher option \<Rightarrow> (key_ts \<times> key_ts) outcome" where
  "get_smallest_biggest te config ti mmap_f cipher =
     and_then (index (ti_offsets ti) 0) (\<lambda>first.
     and_then (sub_usize (length (ti_offsets ti)) 1) (\<lambda>last_block_id.
     and_then (index (ti_offsets ti) last_block_id) (\<lambda>lst.
     and_then (read_slice_ref (unat (bo_offset lst)) (unat (bo_len lst)) mmap_f) (\<lambda>raw_data.
     and_then (try_decrypt_table te cipher raw_data) (\<lambda>plaintext.
     and_then (decompress te (tg_compression config) plaintext) (\<lambda>uncompress_data.
     and_then (block_deserialize 0 (word_of_nat last_block_id) (bo_offset lst) uncompress_data) (\<lambda>blk.
     and_then (block_verify (te_sum te) blk) (\<lambda>_.
     and_then (block_next_back (block_iter_new blk)) (\<lambda>(more, it).
     if \<not> more then Inl Panic
     else and_then (unwrap (block_key_back it)) (\<lambda>k. Inr (bo_key_ts first, KeyTs_from k)))))))))))"

record table =
  tl_table_id :: u32
  tl_mmap_f :: mmap_file
  tl_table_size :: nat
  tl_smallest :: key_ts
  tl_biggest :: key_ts
  tl_cheap_index :: cheap_index
  tl_cipher :: "aes_cipher option"
  tl_index_start :: nat
  tl_index_len :: nat
  tl_config :: table_config

definition get_index :: "table_env \<Rightarrow> table \<Rightarrow> table_index outcome" where
  "get_index te t =
     and_then (read_slice_ref (tl_index_start t) (tl_index_len t) (tl_mmap_f t)) (\<lambda>data.
     and_then (try_decrypt_table te (tl_cipher t) data) (TableIndexBuf_from_vec te))"

definition may_contain_key_table :: "table_env \<Rightarrow> table \<Rightarrow> key_ts \<Rightarrow> bool outcome" where
  "may_contain_key_table te t key =
     (if ci_bloom_filter_len (tl_cheap_index t) = 0 then Inr True
      else and_then (get_index te t) (\<lambda>ti.
           and_then (unwrap (ti_bloom_filter ti)) (\<lambda>bloom. Inr (may_contain_key bloom (kt_key key)))))"

definition get_block :: "table_env \<Rightarrow> table \<Rightarrow> nat \<Rightarrow> block outcome" where
  "get_block te t block_index =
     (if block_index \<ge> ci_offsets_len (tl_cheap_index t) then Inl (Anyhow ''block out of index'')
      else and_then (get_index te t) (\<lambda>ti.
           and_then (index (ti_offsets ti) block_index) (\<lambda>bo.
           and_then (read_slice_ref (unat (bo_offset bo)) (unat (bo_len bo)) (tl_mmap_f t)) (\<lambda>raw_data.
           and_then (try_decrypt_table te (tl_cipher t) raw_data) (\<lambda>data.
           and_then (decompress te (tg_compression (tl_config t)) data) (\<lambda>data.
           and_then (block_deserialize (tl_table_id t) (word_of_nat block_index) (bo_offset bo) data) (\<lambda>blk.
           and_then (if tg_checksum_verify_mode (tl_config t) \<in> {OnBlockRead, OnTableAndBlockRead}
                     then block_verify (te_sum te) blk else Inr ()) (\<lambda>_. Inr blk))))))))"

fun verify_blocks :: "table_env \<Rightarrow> table \<Rightarrow> nat list \<Rightarrow> unit outcome" where
  "verify_blocks te t [] = Inr ()"
| "verify_blocks te t (i # is) =
     and_then (map_err ''checksum validation failed'' (get_block te t i)) (\<lambda>blk.
     and_then (if tg_checksum_verify_mode (tl_config t) \<in> {OnBlockRead, OnTableAndBlockRead}
               then Inr () else map_err ''checksum validation failed'' (block_verify (te_sum te) blk)) (\<lambda>_. verify_blocks te t is))"

definition table_verify :: "table_env \<Rightarrow> table \<Rightarrow> unit outcome" where
  "table_verify te t = verify_blocks te t [0 ..< ci_offsets_len (tl_cheap_index t)]"

text \<open>\<open>table_id\<close> is the number in the name of the file.\<close>

definition table_open :: "table_env \<Rightarrow> table_config \<Rightarrow> u32 \<Rightarrow> mmap_file \<Rightarrow> aes_cipher option \<Rightarrow> table outcome" where
  "table_open te config table_id mmap_f cipher =
     (if tg_block_size config = 0 \<and> tg_compression config \<noteq> No_compression then Inl (Anyhow ''Block size cannot be zero'')
      else and_then (init_index te mmap_f cipher) (\<lambda>(ti, index_start, index_len).
           and_then (get_smallest_biggest te config ti mmap_f cipher) (\<lambda>(smallest, biggest).
           let t = \<lparr>tl_table_id = table_id, tl_mmap_f = mmap_f, tl_table_size = length (mm_raw mmap_f), tl_smallest = smallest,
                    tl_biggest = biggest, tl_cheap_index = CheapTableIndex_from ti, tl_cipher = cipher,
                    tl_index_start = index_start, tl_index_len = index_len, tl_config = config\<rparr>
           in if tg_checksum_verify_mode config \<in> {OnTableRead, OnTableAndBlockRead} then Inr t
              else and_then (table_verify te t) (\<lambda>_. Inr t))))"

section \<open>Iterating over a table\<close>

record table_iter =
  tt_inner :: table
  tt_block_iter :: "block_iter option"
  tt_back_block_iter :: "block_iter option"

definition table_iter_new :: "table \<Rightarrow> table_iter" where
  "table_iter_new t = \<lparr>tt_inner = t, tt_block_iter = None, tt_back_block_iter = None\<rparr>"

definition table_double_ended_eq :: "table_env \<Rightarrow> table_iter \<Rightarrow> bool outcome" where
  "table_double_ended_eq te it =
     (case (tt_block_iter it, tt_back_block_iter it) of
        (Some iter, Some back_iter) \<Rightarrow>
          if block_key iter = block_key_back back_iter then
            and_then (block_value (te_enc te) (te_dec te) iter) (\<lambda>v.
            and_then (block_value_back (te_enc te) (te_dec te) back_iter) (\<lambda>w. Inr (v = w)))
          else Inr False
      | _ \<Rightarrow> Inr False)"

definition unless_met :: "table_env \<Rightarrow> table_iter \<Rightarrow> (bool \<times> table_iter) outcome" where
  "unless_met te it = and_then (table_double_ended_eq te it) (\<lambda>eq. Inr (\<not> eq, it))"

text \<open>Entering the block with a given number at its front or its back.\<close>

definition enter_block :: "table_env \<Rightarrow> nat \<Rightarrow> table_iter \<Rightarrow> (bool \<times> table_iter) outcome" where
  "enter_block te i it =
     and_then (get_block te (tt_inner it) i) (\<lambda>blk.
     and_then (block_next (block_iter_new blk)) (\<lambda>(more, iter).
     let it = it\<lparr>tt_block_iter := Some iter\<rparr> in if more then unless_met te it else Inr (False, it)))"

definition enter_block_back :: "table_env \<Rightarrow> nat \<Rightarrow> table_iter \<Rightarrow> (bool \<times> table_iter) outcome" where
  "enter_block_back te i it =
     and_then (get_block te (tt_inner it) i) (\<lambda>blk.
     and_then (block_next_back (block_iter_new blk)) (\<lambda>(more, iter).
     let it = it\<lparr>tt_back_block_iter := Some iter\<rparr> in if more then unless_met te it else Inr (False, it)))"

definition table_next :: "table_env \<Rightarrow> table_iter \<Rightarrow> (bool \<times> table_iter) outcome" where
  "table_next te it =
     and_then (table_double_ended_eq te it) (\<lambda>met.
     if met then Inr (False, it)
     else let n = ci_offsets_len (tl_cheap_index (tt_inner it)) in
       case tt_block_iter it of
         Some iter \<Rightarrow>
           and_then (block_next iter) (\<lambda>(more, iter).
           let it = it\<lparr>tt_block_iter := Some iter\<rparr>; i = unat (bl_block_index (bi_inner iter)) in
           if more then unless_met te it
           else if i = n - 1 then Inr (False, it)
           else enter_block te (i + 1) it)
       | None \<Rightarrow> if n = 0 then Inr (False, it) else enter_block te 0 it)"

definition table_next_back :: "table_env \<Rightarrow> table_iter \<Rightarrow> (bool \<times> table_iter) outcome" where
  "table_next_back te it =
     and_then (table_double_ended_eq te it) (\<lambda>met.
     if met then Inr (False, it)
     else let n = ci_offsets_len (tl_cheap_index (tt_inner it)) in
       case tt_back_block_iter it of
         Some iter \<Rightarrow>
           and_then (block_next_back iter) (\<lambda>(more, iter).
           let it = it\<lparr>tt_back_block_iter := Some iter\<rparr>; i = unat (bl_block_index (bi_inner iter)) in
           if more then unless_met te it
           else if i = 0 then Inr (False, it)
           else enter_block_back te (i - 1) it)
       | None \<Rightarrow> if n = 0 then Inr (False, it) else enter_block_back te (n - 1) it)"

definition table_item :: "table_env \<Rightarrow> table_iter \<Rightarrow> (bytes \<times> value_meta) option" where
  "table_item te it = (case tt_block_iter it of None \<Rightarrow> None | Some iter \<Rightarrow> block_item (te_enc te) (te_dec te) iter)"

definition table_item_back :: "table_env \<Rightarrow> table_iter \<Rightarrow> (bytes \<times> value_meta) option" where
  "table_item_back te it = (case tt_back_block_iter it of None \<Rightarrow> None | Some iter \<Rightarrow> block_item_back (te_enc te) (te_dec te) iter)"

text \<open>\<open>index - 1\<close> on the insertion point zero underflows.\<close>

definition table_seek :: "table_env \<Rightarrow> bytes \<Rightarrow> table_iter \<Rightarrow> (bool \<times> table_iter) outcome" where
  "table_seek te k it =
     and_then (get_index te (tt_inner it)) (\<lambda>ti.
     let go = (\<lambda>i. and_then (get_block te (tt_inner it) i) (\<lambda>blk.
                   and_then (block_seek k (block_iter_new blk)) (\<lambda>(found, iter).
                   Inr (found, it\<lparr>tt_block_iter := Some iter\<rparr>))))
     in case binary_search_by (\<lambda>b. KeyTs_partial_cmp_borrow (bo_key_ts b) k) (ti_offsets ti) of
          Inr i \<Rightarrow> go i
        | Inl i \<Rightarrow> if i \<ge> length (ti_offsets ti) then Inr (False, it) else and_then (sub_usize i 1) go)"

section \<open>Scanning a table\<close>

text \<open>\<open>t\<close> is a table whose blocks hold the runs \<open>ess\<close>.\<close>

definition table_of :: "table_env \<Rightarrow> kvs list \<Rightarrow> table \<Rightarrow> bool" where
  "table_of te ess t \<longleftrightarrow> ess \<noteq> [] \<and> ci_offsets_len (tl_cheap_index t) = length ess \<and> length ess < 2 ^ 32 \<and>
     (\<forall>i < length ess. \<exists>blk. get_block te t i = Inr blk \<and> block_of (te_enc te) (ess ! i) blk \<and> unat (bl_block_index blk) = i)"

lemma table_no_back [simp]: "tt_back_block_iter it = None \<Longrightarrow> table_double_ended_eq te it = Inr False"
  by (simp add: table_double_ended_eq_def split: option.split)

lemma unless_met_no_back [simp]: "tt_back_block_iter it = None \<Longrightarrow> unless_met te it = Inr (True, it)"
  by (simp add: unless_met_def)

lemma block_next_keeps: "block_next c = Inr (m, c') \<Longrightarrow> bi_inner c' = bi_inner c"
  by (auto simp: block_next_def set_entry_index_def load_base_key_def and_then_Inr Let_def split: if_splits option.splits prod.splits)

text \<open>The forward end stands behind \<open>As\<close>, before \<open>Ms\<close>, in the run with number \<open>i\<close>.\<close>

definition table_at :: "table_env \<Rightarrow> kvs list \<Rightarrow> table_iter \<Rightarrow> kvs \<Rightarrow> kvs \<Rightarrow> bool" where
  "table_at te ess it As Ms \<longleftrightarrow> table_of te ess (tt_inner it) \<and> varint_laws (te_enc te) (te_dec te) \<and>
     tt_back_block_iter it = None \<and> concat ess = As @ Ms \<and>
     (if As = [] then tt_block_iter it = None
      else \<exists>i c As' Ms'. i < length ess \<and> tt_block_iter it = Some c \<and> As' \<noteq> [] \<and>
        block_at (te_enc te) (te_dec te) (ess ! i) c As' Ms' [] \<and> unat (bl_block_index (bi_inner c)) = i \<and>
        As = concat (take i ess) @ As')"

lemma table_atI:
  assumes "table_of te ess (tt_inner it)" "varint_laws (te_enc te) (te_dec te)" "tt_back_block_iter it = None"
    and "concat ess = As @ Ms" "i < length ess" "tt_block_iter it = Some c" "As' \<noteq> []"
    and "block_at (te_enc te) (te_dec te) (ess ! i) c As' Ms' []" "unat (bl_block_index (bi_inner c)) = i"
    and "As = concat (take i ess) @ As'"
  shows "table_at te ess it As Ms"
proof -
  have "As \<noteq> []" using assms(7,10) by simp
  then show ?thesis unfolding table_at_def using assms by (simp only: if_False) blast
qed

lemma table_iter_same: "tt_block_iter it = Some c \<Longrightarrow> it\<lparr>tt_block_iter := Some c\<rparr> = it"
  by (rule table_iter.equality) simp_all

lemma enter_block_at:
  assumes t: "table_of te ess (tt_inner it)" and l: "varint_laws (te_enc te) (te_dec te)" and i: "i < length ess"
    and b: "tt_back_block_iter it = None"
  obtains it' c x xs where "enter_block te i it = Inr (True, it')" "ess ! i = x # xs" "tt_block_iter it' = Some c"
    "block_at (te_enc te) (te_dec te) (ess ! i) c [x] xs []" "unat (bl_block_index (bi_inner c)) = i"
    "tt_inner it' = tt_inner it" "tt_back_block_iter it' = None"
proof -
  obtain blk where blk: "get_block te (tt_inner it) i = Inr blk" "block_of (te_enc te) (ess ! i) blk" "unat (bl_block_index blk) = i"
    using t i by (auto simp: table_of_def)
  obtain x xs where x: "ess ! i = x # xs" using blk(2) by (cases "ess ! i") (auto simp: block_of_def)
  have "block_at (te_enc te) (te_dec te) (ess ! i) (block_iter_new blk) [] (x # xs) []"
    using block_at_new [OF l blk(2)] x by simp
  from block_step_more [OF this] obtain c where c: "block_next (block_iter_new blk) = Inr (True, c)"
    "block_at (te_enc te) (te_dec te) (ess ! i) c [x] xs []" by auto
  let ?it = "it\<lparr>tt_block_iter := Some c\<rparr>"
  have "enter_block te i it = Inr (True, ?it)" using blk(1) c(1) b by (simp add: enter_block_def)
  with x c blk(3) block_next_keeps [OF c(1)] b show ?thesis
    by (intro that [of ?it x xs c]) (simp_all add: block_iter_new_def)
qed

lemma table_step_more:
  assumes "table_at te ess it As (x # Ms)"
  shows "\<exists>it'. table_next te it = Inr (True, it') \<and> table_at te ess it' (As @ [x]) Ms"
proof -
  have t: "table_of te ess (tt_inner it)" and l: "varint_laws (te_enc te) (te_dec te)"
    and b: "tt_back_block_iter it = None" and es: "concat ess = As @ x # Ms" and n: "ess \<noteq> []"
    "ci_offsets_len (tl_cheap_index (tt_inner it)) = length ess"
    using assms by (auto simp: table_at_def table_of_def)
  have nz: "0 < length ess" using n by simp
  show ?thesis
  proof (cases "As = []")
    case True
    with assms have "tt_block_iter it = None" by (simp add: table_at_def)
    then have nx: "table_next te it = enter_block te 0 it" using b n by (simp add: table_next_def)
    obtain it' c y ys where e: "enter_block te 0 it = Inr (True, it')" "ess ! 0 = y # ys" "tt_block_iter it' = Some c"
      "block_at (te_enc te) (te_dec te) (ess ! 0) c [y] ys []" "unat (bl_block_index (bi_inner c)) = 0"
      "tt_inner it' = tt_inner it" "tt_back_block_iter it' = None"
      by (rule enter_block_at [OF t l nz b])
    have "y = x" using es True e(2) n(1) by (cases ess) auto
    then have "table_at te ess it' (As @ [x]) Ms"
      using e t l es True nz by (intro table_atI [where i = 0 and c = c and As' = "[x]" and Ms' = ys]) simp_all
    with nx e(1) show ?thesis by auto
  next
    case False
    then obtain i c As' Ms' where s: "i < length ess" "tt_block_iter it = Some c" "As' \<noteq> []"
      "block_at (te_enc te) (te_dec te) (ess ! i) c As' Ms' []" "unat (bl_block_index (bi_inner c)) = i"
      "As = concat (take i ess) @ As'" using assms by (auto simp: table_at_def)
    have run: "ess ! i = As' @ Ms'" using s(4) by (simp add: block_at_def)
    have rest: "x # Ms = Ms' @ concat (drop (Suc i) ess)"
    proof -
      have "concat ess = concat (take i ess) @ (As' @ Ms') @ concat (drop (Suc i) ess)"
        using id_take_nth_drop [OF s(1)] run by (metis concat.simps(2) concat_append)
      with es s(6) show ?thesis by simp
    qed
    show ?thesis
    proof (cases Ms')
      case (Cons y ys)
      with rest have y: "y = x" by simp
      from block_step_more [of "te_enc te" "te_dec te" "ess ! i" c As' x ys "[]"] s(4) Cons y
      obtain c' where c': "block_next c = Inr (True, c')" "block_at (te_enc te) (te_dec te) (ess ! i) c' (As' @ [x]) ys []"
        by auto
      let ?it = "it\<lparr>tt_block_iter := Some c'\<rparr>"
      have "table_next te it = Inr (True, ?it)" using b s(2) c'(1) by (simp add: table_next_def)
      moreover have "table_at te ess ?it (As @ [x]) Ms"
        using t l b es s c' block_next_keeps [OF c'(1)]
        by (intro table_atI [where i = i and c = c' and As' = "As' @ [x]" and Ms' = ys]) simp_all
      ultimately show ?thesis by blast
    next
      case Nil
      with rest have ne: "drop (Suc i) ess \<noteq> []" by auto
      then have i: "Suc i < length ess" by simp
      have nx: "block_next c = Inr (False, c)" using block_step_end [of "te_enc te" "te_dec te" "ess ! i" c As' "[]"] s Nil by simp
      have "i \<noteq> length ess - Suc 0" using i by simp
      then have "table_next te it = enter_block te (Suc i) it"
        using b s(2,5) nx n by (simp add: table_next_def Let_def table_iter_same [OF s(2)])
      moreover obtain it' c' y ys where e: "enter_block te (Suc i) it = Inr (True, it')" "ess ! Suc i = y # ys" "tt_block_iter it' = Some c'"
        "block_at (te_enc te) (te_dec te) (ess ! Suc i) c' [y] ys []" "unat (bl_block_index (bi_inner c')) = Suc i"
        "tt_inner it' = tt_inner it" "tt_back_block_iter it' = None"
        by (rule enter_block_at [OF t l i b])
      moreover have "y = x" using rest Nil e(2) i by (simp add: Cons_nth_drop_Suc [symmetric])
      moreover have "As = concat (take (Suc i) ess)"
        using s(1,6) run Nil by (simp add: take_Suc_conv_app_nth)
      ultimately have "table_at te ess it' (As @ [x]) Ms"
        using t l es i by (intro table_atI [where i = "Suc i" and c = c' and As' = "[x]" and Ms' = ys]) simp_all
      with \<open>table_next te it = _\<close> e(1) show ?thesis by auto
    qed
  qed
qed

lemma table_step_end:
  assumes "table_at te ess it As []" "As \<noteq> []"
  shows "table_next te it = Inr (False, it)"
proof -
  obtain i c As' Ms' where s: "i < length ess" "tt_block_iter it = Some c" "As' \<noteq> []"
    "block_at (te_enc te) (te_dec te) (ess ! i) c As' Ms' []" "unat (bl_block_index (bi_inner c)) = i"
    "As = concat (take i ess) @ As'" using assms by (auto simp: table_at_def)
  have run: "ess ! i = As' @ Ms'" using s(4) by (simp add: block_at_def)
  have "concat ess = concat (take i ess) @ (As' @ Ms') @ concat (drop (Suc i) ess)"
    using id_take_nth_drop [OF s(1)] run by (metis concat.simps(2) concat_append)
  with assms s(6) have e: "Ms' = []" "concat (drop (Suc i) ess) = []" by (auto simp: table_at_def)
  have "i = length ess - 1"
  proof (rule ccontr)
    assume "i \<noteq> length ess - 1"
    with s(1) have i: "Suc i < length ess" by simp
    with e(2) have "ess ! Suc i = []" by (simp add: Cons_nth_drop_Suc [symmetric])
    moreover have "\<exists>blk. block_of (te_enc te) (ess ! Suc i) blk" using assms(1) i by (auto simp: table_at_def table_of_def)
    ultimately show False by (simp add: block_of_def)
  qed
  moreover have "block_next c = Inr (False, c)" using block_step_end [of "te_enc te" "te_dec te" "ess ! i" c As' "[]"] s e by simp
  ultimately show ?thesis
    using assms(1) s by (simp add: table_next_def table_at_def table_of_def Let_def table_iter_same [OF s(2)])
qed

lemma table_item_at:
  assumes "table_at te ess it (As @ [x]) Ms" shows "table_item te it = Some x"
proof -
  obtain i c As' Ms' where s: "tt_block_iter it = Some c" "As' \<noteq> []"
    "block_at (te_enc te) (te_dec te) (ess ! i) c As' Ms' []" "As @ [x] = concat (take i ess) @ As'"
    using assms by (auto simp: table_at_def)
  then obtain As'' where "As' = As'' @ [x]" by (metis append_butlast_last_id last_appendR last_snoc)
  with block_item_at s show ?thesis by (auto simp: table_item_def)
qed

lemma table_collect:
  "table_at te ess it As Ms \<Longrightarrow> As \<noteq> [] \<or> Ms \<noteq> [] \<Longrightarrow>
    collect (\<lambda>c. step_of (table_next te c)) (table_item te) (Suc (length Ms)) it = map Some Ms"
proof (induction Ms arbitrary: it As)
  case Nil
  with table_step_end show ?case by (simp add: step_of_def)
next
  case (Cons x Ms)
  obtain it' where it': "table_next te it = Inr (True, it')" "table_at te ess it' (As @ [x]) Ms"
    using table_step_more [OF Cons.prems(1)] by blast
  from Cons.IH [OF it'(2)] it'(1) table_item_at [OF it'(2)] show ?case by (simp add: step_of_def)
qed

lemma table_scan:
  assumes "table_of te ess t" "varint_laws (te_enc te) (te_dec te)"
  shows "collect (\<lambda>c. step_of (table_next te c)) (table_item te) (Suc (length (concat ess))) (table_iter_new t) = map Some (concat ess)"
proof -
  have "table_at te ess (table_iter_new t) [] (concat ess)" using assms by (simp add: table_at_def table_iter_new_def)
  moreover have "concat ess \<noteq> []"
  proof -
    obtain blk where "block_of (te_enc te) (ess ! 0) blk" "ess \<noteq> []" using assms(1) by (auto simp: table_of_def)
    then have "hd ess \<noteq> []" by (simp add: block_of_def hd_conv_nth)
    with \<open>ess \<noteq> []\<close> show ?thesis by (cases ess) auto
  qed
  ultimately show ?thesis by (intro table_collect) auto
qed

section \<open>What a builder holds\<close>

text \<open>
  \<open>bbs\<close> are the finished blocks as they were before compression, \<open>ess\<close> the runs they hold and \<open>cur\<close>
  the run of the current block.
\<close>

definition tbuilt :: "table_env \<Rightarrow> table_config \<Rightarrow> aes_cipher option \<Rightarrow> kvs \<Rightarrow> table_builder \<Rightarrow> kvs list \<Rightarrow> block_builder list \<Rightarrow> kvs \<Rightarrow> bool" where
  "tbuilt te config cipher es tb ess bbs cur \<longleftrightarrow>
     tb_config tb = config \<and> tb_cipher tb = cipher \<and> es = concat ess @ cur \<and>
     list_all2 (built (te_enc te)) ess bbs \<and> [] \<notin> set ess \<and> built (te_enc te) cur (tb_cur_block tb) \<and>
     tb_key_hashes tb = map (\<lambda>e. Bloom_hash (KeyTsBorrow_key (fst e))) es \<and>
     tb_compress_task tb = map (\<lambda>i. compress_task te (tg_compression config) cipher i
       (finish_block (te_sum te) (tg_checksum_algo config) (bbs ! i))) [0 ..< length bbs]"

lemma built_offsets: "built enc es bb \<Longrightarrow> bb_entry_offsets bb = [] \<longleftrightarrow> es = []"
  by (simp add: built_def)

lemma finish_cur_block_built:
  assumes t: "tbuilt te config cipher es tb ess bbs cur"
  shows "tbuilt te config cipher es (finish_cur_block te tb)
    (if cur = [] then ess else ess @ [cur]) (if cur = [] then bbs else bbs @ [tb_cur_block tb]) []"
proof (cases "cur = []")
  case True
  have "built (te_enc te) cur (tb_cur_block tb)" using t by (simp add: tbuilt_def)
  from built_offsets [OF this] True t show ?thesis by (simp add: finish_cur_block_def)
next
  case False
  have b: "built (te_enc te) cur (tb_cur_block tb)" and l: "length (tb_compress_task tb) = length bbs"
    using t by (simp_all add: tbuilt_def)
  have "map (\<lambda>i. compress_task te (tg_compression config) cipher i (finish_block (te_sum te) (tg_checksum_algo config) (bbs ! i))) [0 ..< length bbs]
      = map (\<lambda>i. compress_task te (tg_compression config) cipher i (finish_block (te_sum te) (tg_checksum_algo config) ((bbs @ [tb_cur_block tb]) ! i))) [0 ..< length bbs]"
    by (rule map_cong) (auto simp: nth_append)
  with t False b l built_offsets [OF b] built_new show ?thesis
    by (simp add: finish_cur_block_def tbuilt_def Let_def list_all2_appendI)
qed

definition run_size :: "var_enc \<Rightarrow> kvs \<Rightarrow> nat" where
  "run_size enc es = sum_list (map (\<lambda>e. 4 + length (fst e) + length (ValueMeta_serialize enc (snd e))) es)"

lemma run_size_append [simp]: "run_size enc (xs @ ys) = run_size enc xs + run_size enc ys"
  by (simp add: run_size_def)

lemma chunk_size:
  "length (chunk enc es i) \<le> 4 + length (fst (es ! i)) + length (ValueMeta_serialize enc (snd (es ! i)))"
  by (simp add: chunk_def HEADER_SIZE_def)

lemma total_size_le: "total_size enc es \<le> run_size enc es"
proof -
  have "length (body enc es n) \<le> run_size enc (take n es)" if "n \<le> length es" for n
    using that
  proof (induction n)
    case 0
    then show ?case by (simp add: body_def)
  next
    case (Suc n)
    then have "run_size enc (take (Suc n) es) = run_size enc (take n es) + run_size enc [es ! n]"
      by (simp add: take_Suc_conv_app_nth)
    with Suc chunk_size [of enc es n] show ?case by (simp add: run_size_def)
  qed
  from this [of "length es"] show ?thesis by (simp add: total_size_def)
qed

lemma body_length_4: "4 * n \<le> length (body enc es n)"
  by (induction n) (simp_all add: body_def chunk_def HEADER_SIZE_def)

lemma should_finish_total:
  assumes b: "built enc cur bb" and sz: "3 * (run_size enc cur + length k + length (ValueMeta_serialize enc v)) + 100 < 2 ^ 32"
  shows "\<exists>fin. should_finish_block enc bb k v block_size is_encrypt = Inr fin \<and> (fin \<longrightarrow> cur \<noteq> [])"
proof -
  have n: "length (bb_entry_offsets bb) = length cur" "length (bb_data bb) = total_size enc cur"
    using b by (simp_all add: built_def total_size_def)
  have "4 * length cur \<le> total_size enc cur" using body_length_4 [of "length cur"] by (simp add: total_size_def)
  moreover have "ValueMeta_serialized_size enc v = length (ValueMeta_serialize enc v)" by (simp add: ValueMeta_serialized_size_length)
  ultimately show ?thesis
    using sz total_size_le [of enc cur] n
    by (cases "cur = []") (simp_all add: should_finish_block_def Let_def NONCE_SIZE_def, blast)
qed

lemma tb_push_built:
  assumes t: "tbuilt te config cipher es tb ess bbs cur" and k: "k \<noteq> []" "length k < 2 ^ 16"
    and sz: "3 * run_size (te_enc te) (es @ [(k, v)]) + 100 < 2 ^ 32"
  shows "\<exists>tb' ess' bbs' cur'. tb_push te k v vptr_len tb = Inr tb' \<and> tbuilt te config cipher (es @ [(k, v)]) tb' ess' bbs' cur'"
proof -
  have b: "built (te_enc te) cur (tb_cur_block tb)" and es: "es = concat ess @ cur" using t by (simp_all add: tbuilt_def)
  have "3 * (run_size (te_enc te) cur + length k + length (ValueMeta_serialize (te_enc te) v)) + 100 < 2 ^ 32"
    using sz es by (simp add: run_size_def)
  from should_finish_total [OF b this] obtain fin where
    fin: "should_finish_block (te_enc te) (tb_cur_block tb) k v (tg_block_size (tb_config tb)) (tb_cipher tb \<noteq> None) = Inr fin"
    "fin \<longrightarrow> cur \<noteq> []" by blast
  define tb1 where "tb1 = (if fin then finish_cur_block te tb else tb)"
  obtain ess1 bbs1 cur1 where t1: "tbuilt te config cipher es tb1 ess1 bbs1 cur1"
  proof (cases fin)
    case True
    from finish_cur_block_built [OF t] show ?thesis by (rule that [unfolded tb1_def if_P [OF True]])
  next
    case False
    from t show ?thesis by (rule that [unfolded tb1_def if_not_P [OF False]])
  qed
  then have b1: "built (te_enc te) cur1 (tb_cur_block tb1)" by (simp add: tbuilt_def)
  obtain bb where bb: "push_entry (te_enc te) k v (tb_cur_block tb1) = Inr bb" "built (te_enc te) (cur1 @ [(k, v)]) bb"
    by (rule push_entry_built [OF b1 k])
  let ?tb = "tb1\<lparr>tb_key_hashes := tb_key_hashes tb1 @ [Bloom_hash (KeyTsBorrow_key k)],
      tb_max_version := max (tb_max_version tb1) (KeyTsBorrow_txn_ts k), tb_cur_block := bb,
      tb_on_disk_size := tb_on_disk_size tb1 + (case vptr_len of Some l \<Rightarrow> l | None \<Rightarrow> 0)\<rparr>"
  have "tb_push te k v vptr_len tb = Inr ?tb"
    using fin(1) bb(1) by (cases fin) (simp_all add: tb_push_def push_internal_def Let_def tb1_def)
  moreover have "tbuilt te config cipher (es @ [(k, v)]) ?tb ess1 bbs1 (cur1 @ [(k, v)])"
    using t1 bb(2) by (simp add: tbuilt_def)
  ultimately show ?thesis by blast
qed

fun tb_push_all :: "table_env \<Rightarrow> kvs \<Rightarrow> table_builder \<Rightarrow> table_builder outcome" where
  "tb_push_all te [] tb = Inr tb"
| "tb_push_all te ((k, v) # es) tb = and_then (tb_push te k v None tb) (tb_push_all te es)"

lemma tb_push_all_built:
  "tbuilt te config cipher pre tb ess bbs cur \<Longrightarrow> keys_ok es \<Longrightarrow> 3 * run_size (te_enc te) (pre @ es) + 100 < 2 ^ 32 \<Longrightarrow>
    \<exists>tb' ess' bbs' cur'. tb_push_all te es tb = Inr tb' \<and> tbuilt te config cipher (pre @ es) tb' ess' bbs' cur'"
proof (induction es arbitrary: pre tb ess bbs cur)
  case Nil
  then show ?case by auto
next
  case (Cons e es)
  obtain k v where e: "e = (k, v)" by (cases e)
  have k: "k \<noteq> []" "length k < 2 ^ 16" "keys_ok es" using Cons.prems(2) e by (auto simp: keys_ok_def)
  have sz: "3 * run_size (te_enc te) (pre @ [(k, v)]) + 100 < 2 ^ 32" "3 * run_size (te_enc te) ((pre @ [(k, v)]) @ es) + 100 < 2 ^ 32"
    using Cons.prems(3) e by (auto simp: run_size_def)
  obtain tb1 ess1 bbs1 cur1 where 1: "tb_push te k v None tb = Inr tb1" "tbuilt te config cipher (pre @ [(k, v)]) tb1 ess1 bbs1 cur1"
    using tb_push_built [OF Cons.prems(1) k(1,2) sz(1)] by blast
  from Cons.IH [OF 1(2) k(3) sz(2)] 1(1) e show ?case by simp
qed

section \<open>Opening what was built\<close>

lemma encrypt_roundtrip:
  assumes "table_laws te"
  obtains e where "try_encrypt_table te cipher n d = Inr e" "try_decrypt_table te cipher e = Inr d"
proof (cases cipher)
  case None
  then show ?thesis using that [of d] by (simp add: try_encrypt_table_def try_decrypt_table_def)
next
  case (Some c)
  obtain e where e: "aes_encrypt (te_crypto te) c (te_nonce te n) d = Some e" "aes_decrypt (te_crypto te) c (te_nonce te n) e = Some d"
    using assms unfolding table_laws_def by blast
  have n: "length (te_nonce te n) = NONCE_SIZE" using assms by (simp add: table_laws_def)
  show ?thesis
    using that [of "e @ te_nonce te n"] Some e n
    by (simp add: try_encrypt_table_def try_decrypt_table_def or_anyhow_def sub_usize_def decrypt_with_slice_def nonce_from_slice_def)
qed

lemma compress_roundtrip:
  assumes "table_laws te"
  obtains c where "compress te ct d = Inr c" "decompress te ct c = Inr d"
proof (cases ct)
  case Snappy
  obtain c where "te_snap_compress te d = Some c" "te_snap_decompress te c = Some d" using assms unfolding table_laws_def by blast
  with Snappy that show ?thesis by (simp add: or_anyhow_def)
next
  case (ZSTD l)
  obtain c where "te_zstd_compress te l d = Some c" "te_zstd_decompress te c = Some d" using assms unfolding table_laws_def by blast
  with ZSTD that show ?thesis by (simp add: or_anyhow_def)
qed (use that in simp)

lemma compress_task_ok:
  assumes "table_laws te"
  obtains bb' p where "compress_task te ct cipher n bb = Inr bb'" "bb_base_keyts bb' = bb_base_keyts bb"
    "try_decrypt_table te cipher (bb_data bb') = Inr p" "decompress te ct p = Inr (bb_data bb)"
proof -
  obtain c where c: "compress te ct (bb_data bb) = Inr c" "decompress te ct c = Inr (bb_data bb)"
    by (rule compress_roundtrip [OF assms])
  obtain e where "try_encrypt_table te cipher n c = Inr e" "try_decrypt_table te cipher e = Inr c"
    by (rule encrypt_roundtrip [OF assms])
  with c show ?thesis by (intro that [of "bb\<lparr>bb_data := e\<rparr>" c]) (simp_all add: compress_task_def)
qed

lemma await_tasks_map: "(\<And>x. x \<in> set xs \<Longrightarrow> f x = Inr (g x)) \<Longrightarrow> await_tasks (map f xs) = Inr (map g xs)"
  by (induction xs) simp_all

text \<open>A stored block \<open>sb\<close> of the run \<open>es\<close>: it decodes to the finished block of that run.\<close>

definition stored :: "table_env \<Rightarrow> table_config \<Rightarrow> aes_cipher option \<Rightarrow> kvs \<Rightarrow> block_builder \<Rightarrow> bool" where
  "stored te config cipher es sb \<longleftrightarrow> es \<noteq> [] \<and> (\<exists>bb p. built (te_enc te) es bb \<and> bb_base_keyts sb = fst (hd es) \<and>
     try_decrypt_table te cipher (bb_data sb) = Inr p \<and>
     decompress te (tg_compression config) p = Inr (bb_data (finish_block (te_sum te) (tg_checksum_algo config) bb)))"

lemma finish_block_base [simp]: "bb_base_keyts (finish_block se a bb) = bb_base_keyts bb"
  by (simp add: finish_block_def Let_def)

lemma tasks_stored:
  assumes laws: "table_laws te" and t: "tbuilt te config cipher es tb ess bbs []"
  obtains sbs where "await_tasks (tb_compress_task tb) = Inr sbs" "list_all2 (stored te config cipher) ess sbs"
proof -
  let ?f = "\<lambda>i. compress_task te (tg_compression config) cipher i (finish_block (te_sum te) (tg_checksum_algo config) (bbs ! i))"
  have "\<forall>i. \<exists>sb p. ?f i = Inr sb \<and> bb_base_keyts sb = bb_base_keyts (bbs ! i) \<and> try_decrypt_table te cipher (bb_data sb) = Inr p \<and>
      decompress te (tg_compression config) p = Inr (bb_data (finish_block (te_sum te) (tg_checksum_algo config) (bbs ! i)))"
    using compress_task_ok [OF laws] by (metis finish_block_base)
  then obtain g where g: "\<And>i. ?f i = Inr (g i)" "\<And>i. bb_base_keyts (g i) = bb_base_keyts (bbs ! i)"
    "\<And>i. \<exists>p. try_decrypt_table te cipher (bb_data (g i)) = Inr p \<and>
      decompress te (tg_compression config) p = Inr (bb_data (finish_block (te_sum te) (tg_checksum_algo config) (bbs ! i)))"
    by metis
  have l: "list_all2 (built (te_enc te)) ess bbs" "[] \<notin> set ess" using t by (auto simp: tbuilt_def)
  have "await_tasks (tb_compress_task tb) = Inr (map g [0 ..< length bbs])"
    using t g(1) by (simp add: tbuilt_def await_tasks_map)
  moreover have "stored te config cipher (ess ! i) (g i)" if "i < length bbs" for i
  proof -
    have b: "built (te_enc te) (ess ! i) (bbs ! i)" and ne: "ess ! i \<noteq> []"
      using l that by (auto simp: list_all2_conv_all_nth) (metis nth_mem)
    then have "bb_base_keyts (bbs ! i) = fst (hd (ess ! i))" by (auto simp: built_def split: list.splits)
    with b ne g(2,3) [of i] show ?thesis unfolding stored_def by metis
  qed
  ultimately show ?thesis using l(1) by (intro that [of "map g [0 ..< length bbs]"]) (simp_all add: list_all2_conv_all_nth)
qed

lemma block_offsets_nth:
  "i < length sbs \<Longrightarrow> block_offsets d sbs ! i = \<lparr>fo_key_ts = bb_base_keyts (sbs ! i),
     fo_offset = d + word_of_nat (length (concat (map bb_data (take i sbs)))), fo_len = word_of_nat (length (bb_data (sbs ! i)))\<rparr>"
proof (induction sbs arbitrary: d i)
  case (Cons sb sbs)
  then show ?case by (cases i) (simp_all add: add.assoc)
qed simp

lemma length_block_offsets [simp]: "length (block_offsets d sbs) = length sbs"
  by (induction sbs arbitrary: d) simp_all

text \<open>A file that starts with the stored blocks and an index that says where they are.\<close>

definition offsets_of :: "block_builder list \<Rightarrow> block_offset list" where
  "offsets_of sbs = map (\<lambda>x. \<lparr>bo_key_ts = KeyTs_from (fo_key_ts x), bo_offset = fo_offset x, bo_len = fo_len x\<rparr>) (block_offsets 0 sbs)"

lemma length_offsets_of [simp]: "length (offsets_of sbs) = length sbs"
  by (simp add: offsets_of_def)

lemma read_block:
  assumes raw: "mm_raw f = concat (map bb_data sbs) @ rest" and sz: "length (mm_raw f) < 2 ^ 32" and i: "i < length sbs"
  shows "read_slice_ref (unat (bo_offset (offsets_of sbs ! i))) (unat (bo_len (offsets_of sbs ! i))) f = Inr (bb_data (sbs ! i))"
    "bo_key_ts (offsets_of sbs ! i) = KeyTs_from (bb_base_keyts (sbs ! i))"
proof -
  let ?pre = "concat (map bb_data (take i sbs))"
  have sp: "concat (map bb_data sbs) = ?pre @ bb_data (sbs ! i) @ concat (map bb_data (drop (Suc i) sbs))"
    using id_take_nth_drop [OF i] by (metis concat.simps(2) concat_append list.simps(9) map_append)
  then have "length ?pre < 2 ^ 32" "length (bb_data (sbs ! i)) < 2 ^ 32" using raw sz by simp_all
  then have u: "unat (bo_offset (offsets_of sbs ! i)) = length ?pre" "unat (bo_len (offsets_of sbs ! i)) = length (bb_data (sbs ! i))"
    using i by (simp_all add: offsets_of_def block_offsets_nth)
  show "read_slice_ref (unat (bo_offset (offsets_of sbs ! i))) (unat (bo_len (offsets_of sbs ! i))) f = Inr (bb_data (sbs ! i))"
    unfolding u read_slice_ref_def using raw sp by simp
  show "bo_key_ts (offsets_of sbs ! i) = KeyTs_from (bb_base_keyts (sbs ! i))"
    using i by (simp add: offsets_of_def block_offsets_nth)
qed

lemma init_index_layout:
  assumes raw: "mm_raw f = dat @ idx @ put_u32 (word_of_nat (length idx)) @ ck @ put_u32 (word_of_nat (length ck))"
    and l: "length idx < 2 ^ 32" "length ck < 2 ^ 32" and c: "se_decode (te_sum te) ck = Some c" "Checksum_verify (te_sum te) c idx = Inr ()"
    and d: "try_decrypt_table te cipher idx = Inr p" "TableIndexBuf_from_vec te p = Inr ti" "ti_offsets ti \<noteq> []"
  shows "init_index te f cipher = Inr (ti, length dat, length idx)"
proof -
  let ?ckl = "put_u32 (word_of_nat (length ck))" and ?il = "put_u32 (word_of_nat (length idx))"
  have u: "from_be ?ckl = length ck" "from_be ?il = length idx" using l by (simp_all add: from_be_put)
  have rd: "read_slice_ref (length xs) (length ys) f = Inr ys" if "mm_raw f = xs @ ys @ zs" for xs ys zs
    using that by (simp add: read_slice_ref_def)
  have 1: "sub_usize (length (mm_raw f)) 4 = Inr (length (dat @ idx @ ?il @ ck))" by (simp add: raw sub_usize_def)
  have 2: "read_slice_ref (length (dat @ idx @ ?il @ ck)) 4 f = Inr ?ckl"
    using rd [of "dat @ idx @ ?il @ ck" ?ckl "[]"] raw by simp
  have 3: "sub_usize (length (dat @ idx @ ?il @ ck)) (length ck) = Inr (length (dat @ idx @ ?il))" by (simp add: sub_usize_def)
  have 4: "read_slice_ref (length (dat @ idx @ ?il)) (length ck) f = Inr ck" using rd [of "dat @ idx @ ?il" ck ?ckl] raw by simp
  have 5: "sub_usize (length (dat @ idx @ ?il)) 4 = Inr (length (dat @ idx))" by (simp add: sub_usize_def)
  have 6: "read_slice_ref (length (dat @ idx)) 4 f = Inr ?il" using rd [of "dat @ idx" ?il "ck @ ?ckl"] raw by simp
  have 7: "sub_usize (length (dat @ idx)) (length idx) = Inr (length dat)" by (simp add: sub_usize_def)
  have 8: "read_slice_ref (length dat) (length idx) f = Inr idx" using rd [of dat idx "?il @ ck @ ?ckl"] raw by simp
  show ?thesis
    unfolding init_index_def 1 and_then_simps 2 Let_def u 3 4 c or_anyhow_def option.case 5 6 7 8 d if_not_P [OF d(3)] ..
qed

lemma stored_block:
  assumes st: "stored te config cipher es sb" and laws: "table_laws te" and sz: "total_size (te_enc te) es < 2 ^ 32"
  obtains p d blk where "try_decrypt_table te cipher (bb_data sb) = Inr p" "decompress te (tg_compression config) p = Inr d"
    "block_deserialize t i off d = Inr blk" "block_of (te_enc te) es blk" "block_verify (te_sum te) blk = Inr ()" "bl_block_index blk = i"
proof -
  obtain bb p where bb: "built (te_enc te) es bb" "es \<noteq> []" "try_decrypt_table te cipher (bb_data sb) = Inr p"
    "decompress te (tg_compression config) p = Inr (bb_data (finish_block (te_sum te) (tg_checksum_algo config) bb))"
    using st by (auto simp: stored_def)
  have "sum_laws (te_sum te)" using laws by (simp add: table_laws_def)
  from finish_deserialize [OF bb(1,2) sz this] obtain blk where
    "block_deserialize t i off (bb_data (finish_block (te_sum te) (tg_checksum_algo config) bb)) = Inr blk"
    "block_of (te_enc te) es blk" "block_verify (te_sum te) blk = Inr ()" "bl_block_index blk = i" by metis
  with bb show ?thesis by (intro that)
qed

lemma block_last_key:
  assumes "block_of (te_enc te) es blk" "varint_laws (te_enc te) (te_dec te)"
  obtains it where "block_next_back (block_iter_new blk) = Inr (True, it)" "block_key_back it = Some (fst (last es))"
proof -
  have ne: "es \<noteq> []" using assms(1) by (simp add: block_of_def)
  then have "block_at (te_enc te) (te_dec te) es (block_iter_new blk) [] (butlast es @ [last es]) []"
    using block_at_new [OF assms(2,1)] by simp
  from block_step_back_more [OF this] obtain it where it: "block_next_back (block_iter_new blk) = Inr (True, it)"
    "block_at (te_enc te) (te_dec te) es it [] (butlast es) [last es]" by auto
  have "fst (last es) \<noteq> []" using assms(1) ne by (auto simp: block_of_def keys_ok_def)
  with it show ?thesis by (intro that) (auto simp: block_at_def block_key_back_def)
qed

text \<open>A table record over such a file.\<close>

definition table_file :: "table_env \<Rightarrow> kvs list \<Rightarrow> block_builder list \<Rightarrow> table_index \<Rightarrow> table \<Rightarrow> bool" where
  "table_file te ess sbs ti t \<longleftrightarrow> ess \<noteq> [] \<and> list_all2 (stored te (tl_config t) (tl_cipher t)) ess sbs \<and>
     (\<exists>rest. mm_raw (tl_mmap_f t) = concat (map bb_data sbs) @ rest) \<and> length (mm_raw (tl_mmap_f t)) < 2 ^ 32 \<and>
     ti_offsets ti = offsets_of sbs \<and> tl_cheap_index t = CheapTableIndex_from ti \<and> get_index te t = Inr ti \<and>
     length ess < 2 ^ 32 \<and> (\<forall>es \<in> set ess. total_size (te_enc te) es < 2 ^ 32)"

lemma table_file_block:
  assumes f: "table_file te ess sbs ti t" and laws: "table_laws te" and i: "i < length ess"
  shows "\<exists>blk. get_block te t i = Inr blk \<and> block_of (te_enc te) (ess ! i) blk \<and> unat (bl_block_index blk) = i \<and>
    block_verify (te_sum te) blk = Inr ()"
proof -
  obtain rest where raw: "mm_raw (tl_mmap_f t) = concat (map bb_data sbs) @ rest" using f by (auto simp: table_file_def)
  have len: "length sbs = length ess" and st: "stored te (tl_config t) (tl_cipher t) (ess ! i) (sbs ! i)"
    and sz: "length (mm_raw (tl_mmap_f t)) < 2 ^ 32" "total_size (te_enc te) (ess ! i) < 2 ^ 32"
    using f i by (auto simp: table_file_def list_all2_conv_all_nth)
  have i2: "i < length sbs" "i < 2 ^ 32" using i len f by (auto simp: table_file_def)
  obtain p d blk where b: "try_decrypt_table te (tl_cipher t) (bb_data (sbs ! i)) = Inr p"
    "decompress te (tg_compression (tl_config t)) p = Inr d"
    "block_deserialize (tl_table_id t) (word_of_nat i) (bo_offset (offsets_of sbs ! i)) d = Inr blk"
    "block_of (te_enc te) (ess ! i) blk" "block_verify (te_sum te) blk = Inr ()" "bl_block_index blk = word_of_nat i"
    by (rule stored_block [OF st laws sz(2)])
  have "get_block te t i = Inr blk"
    using f i i2 len b(1-3,5) read_block(1) [OF raw sz(1) i2(1)]
    by (simp add: get_block_def table_file_def CheapTableIndex_from_def index_def)
  with b(4-6) i2(2) show ?thesis by auto
qed

lemma table_file_of: "table_file te ess sbs ti t \<Longrightarrow> table_laws te \<Longrightarrow> table_of te ess t"
proof -
  assume f: "table_file te ess sbs ti t" and laws: "table_laws te"
  have "ess \<noteq> []" "length ess < 2 ^ 32" "ci_offsets_len (tl_cheap_index t) = length ess"
    using f by (auto simp: table_file_def CheapTableIndex_from_def dest: list_all2_lengthD)
  with table_file_block [OF f laws] show ?thesis unfolding table_of_def by blast
qed

lemma table_verify_ok:
  assumes f: "table_file te ess sbs ti t" and laws: "table_laws te"
  shows "table_verify te t = Inr ()"
proof -
  have "verify_blocks te t is = Inr ()" if "\<forall>i \<in> set is. i < length ess" for "is"
    using that
  proof (induction "is")
    case (Cons i "is")
    then obtain blk where "get_block te t i = Inr blk" "block_verify (te_sum te) blk = Inr ()"
      using table_file_block [OF f laws, of i] by auto
    with Cons show ?case by simp
  qed simp
  moreover have "ci_offsets_len (tl_cheap_index t) = length ess"
    using f by (auto simp: table_file_def CheapTableIndex_from_def dest: list_all2_lengthD)
  ultimately show ?thesis by (simp add: table_verify_def)
qed

lemma smallest_biggest_ok:
  assumes f: "table_file te ess sbs ti t" and laws: "table_laws te"
  shows "get_smallest_biggest te (tl_config t) ti (tl_mmap_f t) (tl_cipher t) =
    Inr (KeyTs_from (fst (hd (hd ess))), KeyTs_from (fst (last (last ess))))"
proof -
  obtain rest where raw: "mm_raw (tl_mmap_f t) = concat (map bb_data sbs) @ rest" using f by (auto simp: table_file_def)
  have len: "length sbs = length ess" and ne: "ess \<noteq> []" and sz: "length (mm_raw (tl_mmap_f t)) < 2 ^ 32"
    and st: "\<And>i. i < length ess \<Longrightarrow> stored te (tl_config t) (tl_cipher t) (ess ! i) (sbs ! i)"
    and tot: "\<And>i. i < length ess \<Longrightarrow> total_size (te_enc te) (ess ! i) < 2 ^ 32" and offs: "ti_offsets ti = offsets_of sbs"
    using f by (auto simp: table_file_def list_all2_conv_all_nth)
  let ?n = "length ess - 1"
  have n: "?n < length ess" "?n < length sbs" "0 < length sbs" "0 < length ess" using ne len by auto
  have first: "bo_key_ts (offsets_of sbs ! 0) = KeyTs_from (fst (hd (hd ess)))"
    using read_block(2) [OF raw sz n(3)] st [OF n(4)] ne by (auto simp: stored_def hd_conv_nth)
  obtain p d blk where b: "try_decrypt_table te (tl_cipher t) (bb_data (sbs ! ?n)) = Inr p"
    "decompress te (tg_compression (tl_config t)) p = Inr d"
    "block_deserialize 0 (word_of_nat ?n) (bo_offset (offsets_of sbs ! ?n)) d = Inr blk"
    "block_of (te_enc te) (ess ! ?n) blk" "block_verify (te_sum te) blk = Inr ()"
    by (rule stored_block [OF st [OF n(1)] laws tot [OF n(1)]])
  have "varint_laws (te_enc te) (te_dec te)" using laws by (simp add: table_laws_def)
  then obtain it where it: "block_next_back (block_iter_new blk) = Inr (True, it)" "block_key_back it = Some (fst (last (ess ! ?n)))"
    by (rule block_last_key [OF b(4)])
  have "sub_usize (length sbs) 1 = Inr ?n" using len n(4) by (cases ess) (simp_all add: sub_usize_def)
  with first n offs read_block(1) [OF raw sz n(2)] b(1,2,3,5) it ne show ?thesis
    by (simp add: get_smallest_biggest_def index_def unwrap_def last_conv_nth)
qed

lemma table_open_ok:
  assumes laws: "table_laws te" and st: "list_all2 (stored te config cipher) ess sbs" "ess \<noteq> []"
    and raw: "mm_raw f = concat (map bb_data sbs) @ idx @ put_u32 (word_of_nat (length idx)) @ ck @ put_u32 (word_of_nat (length ck))"
    and sz: "length (mm_raw f) < 2 ^ 32" "length ess < 2 ^ 32" "\<forall>es \<in> set ess. total_size (te_enc te) es < 2 ^ 32"
    and idx: "try_decrypt_table te cipher idx = Inr (te_fb_encode te fi)" "fi_offsets fi = block_offsets 0 sbs"
    and ck: "ck = se_encode (te_sum te) (Checksum_new (te_sum te) algo idx)"
    and cfg: "tg_block_size config \<noteq> 0 \<or> tg_compression config = No_compression"
  obtains t ti where "table_open te config tid f cipher = Inr t" "table_file te ess sbs ti t" "ti_bloom_filter ti = fi_bloom_filter fi"
    "tl_smallest t = KeyTs_from (fst (hd (hd ess)))" "tl_biggest t = KeyTs_from (fst (last (last ess)))" "tl_table_id t = tid"
proof -
  have fb: "te_fb_decode te (te_fb_encode te fi) = Some fi" and sl: "sum_laws (te_sum te)" using laws by (simp_all add: table_laws_def)
  obtain ti where ti: "TableIndexBuf_from_vec te (te_fb_encode te fi) = Inr ti" "ti_offsets ti = offsets_of sbs"
    "ti_bloom_filter ti = fi_bloom_filter fi"
    using fb idx(2) by (simp add: TableIndexBuf_from_vec_def or_anyhow_def offsets_of_def)
  have "length sbs = length ess" using st(1) by (simp add: list_all2_lengthD)
  then have ne: "ti_offsets ti \<noteq> []" using ti(2) st(2) by (metis length_0_conv length_offsets_of)
  have l: "length idx < 2 ^ 32" "length ck < 2 ^ 32" using raw sz(1) by simp_all
  have c: "se_decode (te_sum te) ck = Some (Checksum_new (te_sum te) algo idx)"
    "Checksum_verify (te_sum te) (Checksum_new (te_sum te) algo idx) idx = Inr ()"
    using sl by (simp_all add: ck sum_laws_def Checksum_verify_def Checksum_new_def)
  note ii = init_index_layout [OF raw l c idx(1) ti(1) ne]
  define t where "t = \<lparr>tl_table_id = tid, tl_mmap_f = f, tl_table_size = length (mm_raw f),
     tl_smallest = KeyTs_from (fst (hd (hd ess))), tl_biggest = KeyTs_from (fst (last (last ess))),
     tl_cheap_index = CheapTableIndex_from ti, tl_cipher = cipher,
     tl_index_start = length (concat (map bb_data sbs)), tl_index_len = length idx, tl_config = config\<rparr>"
  have rd: "read_slice_ref (length (concat (map bb_data sbs))) (length idx) f = Inr idx"
    using raw by (simp add: read_slice_ref_def)
  have tf: "table_file te ess sbs ti t"
    using st raw sz ti(2) rd idx(1) ti(1) by (simp add: table_file_def t_def get_index_def)
  have sb: "get_smallest_biggest te config ti f cipher = Inr (KeyTs_from (fst (hd (hd ess))), KeyTs_from (fst (last (last ess))))"
    using smallest_biggest_ok [OF tf laws] by (simp add: t_def)
  have "table_open te config tid f cipher =
      (if tg_checksum_verify_mode config \<in> {OnTableRead, OnTableAndBlockRead} then Inr t else and_then (table_verify te t) (\<lambda>_. Inr t))"
    using cfg ii sb by (auto simp: table_open_def t_def Let_def)
  then have "table_open te config tid f cipher = Inr t" using table_verify_ok [OF tf laws] by simp
  from that [OF this tf ti(3)] show ?thesis by (simp add: t_def)
qed

lemma tb_done_ok:
  assumes laws: "table_laws te" and t: "tbuilt te config cipher es tb ess0 bbs cur" and ne: "es \<noteq> []"
  obtains td tb' ess sbs fi where "tb_done te tb = Inr (td, tb')" "list_all2 (stored te config cipher) ess sbs"
    "concat ess = es" "ess \<noteq> []" "[] \<notin> set ess" "td_block_list td = sbs"
    "try_decrypt_table te cipher (td_index td) = Inr (te_fb_encode te fi)" "fi_offsets fi = block_offsets 0 sbs"
    "fi_bloom_filter fi = map_option (\<lambda>(bpk, k). Bloom_new bpk k (map (\<lambda>e. Bloom_hash (KeyTsBorrow_key (fst e))) es)) (tg_bloom config)"
    "td_checksum td = se_encode (te_sum te) (Checksum_new (te_sum te) (tg_checksum_algo config) (td_index td))"
    "td_size td = unat (word_of_nat (length (concat (map bb_data sbs))) :: u32) + length (td_index td) + 4 + length (td_checksum td) + 4"
proof -
  define ess where "ess = (if cur = [] then ess0 else ess0 @ [cur])"
  define tb1 where "tb1 = finish_cur_block te tb"
  have t1: "tbuilt te config cipher es tb1 ess (if cur = [] then bbs else bbs @ [tb_cur_block tb]) []"
    using finish_cur_block_built [OF t] by (simp add: tb1_def ess_def)
  obtain sbs where sbs: "await_tasks (tb_compress_task tb1) = Inr sbs" "list_all2 (stored te config cipher) ess sbs"
    by (rule tasks_stored [OF laws t1])
  have es: "concat ess = es" "[] \<notin> set ess" "tb_config tb1 = config" "tb_cipher tb1 = cipher"
    "tb_key_hashes tb1 = map (\<lambda>e. Bloom_hash (KeyTsBorrow_key (fst e))) es" using t1 by (auto simp: tbuilt_def)
  let ?bloom = "map_option (\<lambda>(bpk, k). Bloom_new bpk k (tb_key_hashes tb1)) (tg_bloom config)"
  let ?n = "word_of_nat (length (concat (map bb_data sbs))) :: u32"
  define fi where "fi = \<lparr>fi_offsets = block_offsets 0 sbs, fi_bloom_filter = ?bloom, fi_max_version = tb_max_version tb1,
    fi_key_count = word_of_nat (length (tb_key_hashes tb1)), fi_uncompressed_size = tb_uncompressed_size tb1,
    fi_on_disk_size = tb_on_disk_size tb1 + ?n, fi_stale_data_size = tb_stale_data_size tb1\<rparr>"
  obtain idx where idx: "try_encrypt_table te cipher (length sbs) (te_fb_encode te fi) = Inr idx"
    "try_decrypt_table te cipher idx = Inr (te_fb_encode te fi)" by (rule encrypt_roundtrip [OF laws])
  let ?ck = "se_encode (te_sum te) (Checksum_new (te_sum te) (tg_checksum_algo config) idx)"
  let ?td = "\<lparr>td_block_list = sbs, td_index = idx, td_checksum = ?ck, td_size = unat ?n + length idx + 4 + length ?ck + 4\<rparr>"
  let ?tb = "tb1\<lparr>tb_compress_task := [], tb_on_disk_size := tb_on_disk_size tb1 + ?n\<rparr>"
  have "build_index te sbs ?bloom (tb1\<lparr>tb_compress_task := []\<rparr>) = Inr (idx, ?n, ?tb)"
    using idx(1) es(4) by (simp add: build_index_def Let_def fi_def)
  then have "tb_done te tb = Inr (?td, ?tb)"
    unfolding tb_done_def tb1_def [symmetric] using sbs(1) es(3) by (simp add: Let_def)
  moreover have "ess \<noteq> []" using es(1) ne by auto
  ultimately show ?thesis
    using sbs(2) es(1,2,5) idx(2) by (intro that [of ?td ?tb ess sbs fi]) (simp_all add: fi_def)
qed

lemma tb_done_keeps: "tb_done te tb = Inr (td, tb') \<Longrightarrow> tb_config tb' = tb_config tb \<and> tb_cipher tb' = tb_cipher tb"
  by (auto simp: tb_done_def finish_cur_block_def build_index_def Let_def and_then_Inr split: if_splits)

lemma concat_ends:
  assumes "ess \<noteq> []" "[] \<notin> set ess"
  shows "hd (hd ess) = hd (concat ess)" "last (last ess) = last (concat ess)"
proof -
  show "hd (hd ess) = hd (concat ess)" using assms by (cases ess) auto
  show "last (last ess) = last (concat ess)" using assms by (cases ess rule: rev_cases) auto
qed

lemma total_size_runs:
  assumes "concat ess = es" "3 * run_size enc es + 100 < 2 ^ 32" "[] \<notin> set ess"
  shows "length ess < 2 ^ 32" "\<forall>xs \<in> set ess. total_size enc xs < 2 ^ 32"
proof -
  have le: "run_size enc xs \<le> run_size enc (concat ess)" if "xs \<in> set ess" for xs
    using that by (induction ess) (auto simp: run_size_def)
  show "\<forall>xs \<in> set ess. total_size enc xs < 2 ^ 32"
  proof
    fix xs assume "xs \<in> set ess"
    from le [OF this] total_size_le [of enc xs] assms(1,2) show "total_size enc xs < 2 ^ 32" by simp
  qed
  have "length ess \<le> length (concat ess)"
    using assms(3)
  proof (induction ess)
    case (Cons xs ess)
    then show ?case by (cases xs) auto
  qed simp
  moreover have "length xs \<le> run_size enc xs" for xs by (induction xs) (auto simp: run_size_def)
  then have "length (concat ess) \<le> run_size enc es" using assms(1) by simp
  ultimately show "length ess < 2 ^ 32" using assms(2) by linarith
qed

lemma read_all_size:
  assumes "td_block_list td = sbs" "td_size td = unat (word_of_nat (length (concat (map bb_data sbs))) :: u32) + length (td_index td) + 4 + length (td_checksum td) + 4"
    "length (read_all td) < 2 ^ 32"
  shows "length (read_all td) = td_size td"
proof -
  have "length (concat (map bb_data sbs)) < 2 ^ 32" using assms(1,3) by (simp add: read_all_def)
  then show ?thesis using assms(1,2) by (simp add: read_all_def)
qed

text \<open>The filter of a table lets every key pass whose hash went into it.\<close>

lemma table_may_contain:
  assumes "table_file te ess sbs ti t" "ti_bloom_filter ti = map_option (\<lambda>(bpk, k). Bloom_new bpk k hs) bloom"
    "\<forall>b k. bloom = Some (b, k) \<longrightarrow> unat k < 256" "Bloom_hash (kt_key key) \<in> set hs"
  shows "may_contain_key_table te t key = Inr True"
proof -
  have "may_contain_key b (kt_key key)" if "ti_bloom_filter ti = Some b" for b
    using that assms(2,3) may_contain_added [OF assms(4)] by (auto simp: may_contain_key_def)
  with assms(1) show ?thesis
    by (auto simp: may_contain_key_table_def table_file_def CheapTableIndex_from_def unwrap_def split: option.splits)
qed

text \<open>
  C5: A table gives back what was built into it. Pushing a run of entries, whose keys fit
  sixteen bits, into a table builder succeeds, and so does closing it, whatever the
  compression and the cipher; if the file stays below four gigabytes, opening it succeeds
  with all checksums right, scanning it from the front yields exactly the entries, its
  smallest and biggest keys are the first and the last, and its filter admits every key.
\<close>

theorem table_roundtrip:
  assumes laws: "table_laws te" and kts: "kts \<noteq> []" "\<forall>e \<in> set kts. kt_key (fst e) \<noteq> [] \<and> KeyTs_len (fst e) < 2 ^ 16"
    and es: "es = map (\<lambda>(k, v). (KeyTs_serialize k, v)) kts" and sz: "3 * run_size (te_enc te) es + 100 < 2 ^ 32"
    and cfg: "tg_block_size config \<noteq> 0 \<or> tg_compression config = No_compression" "\<forall>b k. tg_bloom config = Some (b, k) \<longrightarrow> unat k < 256"
  shows "\<exists>tb td tb'. tb_push_all te es (TableBuilder_new config cipher) = Inr tb \<and> tb_done te tb = Inr (td, tb') \<and>
    (length (read_all td) < 2 ^ 32 \<longrightarrow> tb_finish te tb = Inr (read_all td) \<and>
      (\<forall>f. mm_raw f = read_all td \<longrightarrow> (\<exists>t. table_open te config tid f cipher = Inr t \<and>
        collect (\<lambda>c. step_of (table_next te c)) (table_item te) (Suc (length es)) (table_iter_new t) = map Some es \<and>
        tl_smallest t = fst (hd kts) \<and> tl_biggest t = fst (last kts) \<and>
        (\<forall>e \<in> set kts. may_contain_key_table te t (fst e) = Inr True))))"
proof -
  have ok: "keys_ok es" using kts(2) by (auto simp: es keys_ok_def KeyTs_len_def KeyTs_serialize_def)
  have "tbuilt te config cipher [] (TableBuilder_new config cipher) [] [] []"
    by (simp add: tbuilt_def TableBuilder_new_def built_new)
  from tb_push_all_built [OF this ok] sz obtain tb ess0 bbs cur where
    tb: "tb_push_all te es (TableBuilder_new config cipher) = Inr tb" "tbuilt te config cipher es tb ess0 bbs cur" by auto
  have ne: "es \<noteq> []" using kts(1) es by simp
  obtain td tb' ess sbs fi where td: "tb_done te tb = Inr (td, tb')" "list_all2 (stored te config cipher) ess sbs"
    "concat ess = es" "ess \<noteq> []" "[] \<notin> set ess" "td_block_list td = sbs"
    "try_decrypt_table te cipher (td_index td) = Inr (te_fb_encode te fi)" "fi_offsets fi = block_offsets 0 sbs"
    "fi_bloom_filter fi = map_option (\<lambda>(bpk, k). Bloom_new bpk k (map (\<lambda>e. Bloom_hash (KeyTsBorrow_key (fst e))) es)) (tg_bloom config)"
    "td_checksum td = se_encode (te_sum te) (Checksum_new (te_sum te) (tg_checksum_algo config) (td_index td))"
    "td_size td = unat (word_of_nat (length (concat (map bb_data sbs))) :: u32) + length (td_index td) + 4 + length (td_checksum td) + 4"
    by (rule tb_done_ok [OF laws tb(2) ne])
  note runs = total_size_runs [OF td(3) sz td(5)]
  have "tb_finish te tb = Inr (read_all td)" if l: "length (read_all td) < 2 ^ 32"
    using td(1) read_all_size [OF td(6,11) l] by (simp add: tb_finish_def)
  moreover have "\<exists>t. table_open te config tid f cipher = Inr t \<and>
        collect (\<lambda>c. step_of (table_next te c)) (table_item te) (Suc (length es)) (table_iter_new t) = map Some es \<and>
        tl_smallest t = fst (hd kts) \<and> tl_biggest t = fst (last kts) \<and>
        (\<forall>e \<in> set kts. may_contain_key_table te t (fst e) = Inr True)"
    if l: "length (read_all td) < 2 ^ 32" and f: "mm_raw f = read_all td" for f
  proof -
    have raw: "mm_raw f = concat (map bb_data sbs) @ td_index td @ put_u32 (word_of_nat (length (td_index td))) @
        td_checksum td @ put_u32 (word_of_nat (length (td_checksum td)))" using f td(6) by (simp add: read_all_def)
    have lf: "length (mm_raw f) < 2 ^ 32" using l f by simp
    obtain t ti where t: "table_open te config tid f cipher = Inr t" "table_file te ess sbs ti t" "ti_bloom_filter ti = fi_bloom_filter fi"
      "tl_smallest t = KeyTs_from (fst (hd (hd ess)))" "tl_biggest t = KeyTs_from (fst (last (last ess)))"
      by (rule table_open_ok [OF laws td(2,4) raw lf runs td(7,8,10) cfg(1)])
    have scan: "collect (\<lambda>c. step_of (table_next te c)) (table_item te) (Suc (length es)) (table_iter_new t) = map Some es"
      using table_scan [OF table_file_of [OF t(2) laws]] laws td(3) by (simp add: table_laws_def)
    note h = concat_ends [OF td(4,5), unfolded td(3)]
    have rt: "KeyTs_from (KeyTs_serialize (fst e)) = fst e" if "e \<in> set kts" for e
      using that kts(2) KeyTs_from_serialize by auto
    have sb: "tl_smallest t = fst (hd kts)" "tl_biggest t = fst (last kts)"
      using t(4,5) h kts(1) rt by (simp_all add: es hd_map last_map case_prod_unfold)
    have "may_contain_key_table te t (fst e) = Inr True" if "e \<in> set kts" for e
    proof (rule table_may_contain [OF t(2) t(3) [unfolded td(9)] cfg(2)])
      show "Bloom_hash (kt_key (fst e)) \<in> set (map (\<lambda>e. Bloom_hash (KeyTsBorrow_key (fst e))) es)"
        using image_eqI [of _ "\<lambda>e. Bloom_hash (KeyTsBorrow_key (fst e))" "(KeyTs_serialize (fst e), snd e)" "set es"] that
        by (auto simp: es split_beta)
    qed
    with t(1) scan sb show ?thesis by blast
  qed
  ultimately show ?thesis using tb(1) td(1) by blast
qed

section \<open>Seeking\<close>

text \<open>In a table over such a file the search of a seek compares the first keys of the blocks.\<close>

lemma offset_cmp:
  assumes f: "table_file te ess sbs ti t" and i: "i < length ess"
  shows "KeyTs_partial_cmp_borrow (bo_key_ts (offsets_of sbs ! i)) (KeyTs_serialize k) = compare (KeyTs_from (fst (hd (ess ! i)))) k"
proof -
  obtain rest where raw: "mm_raw (tl_mmap_f t) = concat (map bb_data sbs) @ rest" "length (mm_raw (tl_mmap_f t)) < 2 ^ 32"
    using f by (auto simp: table_file_def)
  have "length sbs = length ess" "stored te (tl_config t) (tl_cipher t) (ess ! i) (sbs ! i)"
    using f i by (auto simp: table_file_def list_all2_conv_all_nth)
  with read_block(2) [OF raw, of i] i show ?thesis by (auto simp: stored_def KeyTs_partial_cmp_borrow_serialize)
qed

lemma table_file_index:
  assumes "table_file te ess sbs ti t" shows "length sbs = length ess" "ess \<noteq> []" "get_index te t = Inr ti" "ti_offsets ti = offsets_of sbs"
  using assms by (auto simp: table_file_def dest: list_all2_lengthD)

lemma first_keys_less:
  assumes "sorted_wrt (<) (map (\<lambda>es. KeyTs_from (fst (hd es))) ess)" "i < j" "j < length ess"
  shows "KeyTs_from (fst (hd (ess ! i))) < KeyTs_from (fst (hd (ess ! j)))"
  using assms by (simp add: sorted_wrt_iff_nth_less)

lemma seek_behind_last:
  assumes f: "table_file te ess sbs ti t" and srt: "sorted_wrt (<) (map (\<lambda>es. KeyTs_from (fst (hd es))) ess)"
    and b: "KeyTs_from (fst (hd (last ess))) < k"
  shows "table_seek te (KeyTs_serialize k) (table_iter_new t) = Inr (False, table_iter_new t)"
proof -
  note ti = table_file_index [OF f]
  have last: "last ess = ess ! (length ess - 1)" "length ess - 1 < length ess" using ti(2) by (simp_all add: last_conv_nth)
  have "KeyTs_partial_cmp_borrow (bo_key_ts (offsets_of sbs ! i)) (KeyTs_serialize k) = Less" if i: "i < length ess" for i
  proof (cases "i = length ess - 1")
    case False
    then have "i < length ess - 1" using i by simp
    from first_keys_less [OF srt this last(2)] b last(1) offset_cmp [OF f i] show ?thesis by simp
  qed (use offset_cmp [OF f i] b last in simp)
  then have "binary_search_by (\<lambda>b. KeyTs_partial_cmp_borrow (bo_key_ts b) (KeyTs_serialize k)) (offsets_of sbs) = Inl (length (offsets_of sbs))"
    using ti(1) by (intro binary_search_all_less) simp
  with ti show ?thesis by (simp add: table_seek_def table_iter_new_def)
qed

lemma seek_before_first:
  assumes f: "table_file te ess sbs ti t" and srt: "sorted_wrt (<) (map (\<lambda>es. KeyTs_from (fst (hd es))) ess)"
    and b: "k < KeyTs_from (fst (hd (hd ess)))"
  shows "table_seek te (KeyTs_serialize k) (table_iter_new t) = Inl Panic"
proof -
  note ti = table_file_index [OF f]
  have "KeyTs_partial_cmp_borrow (bo_key_ts (offsets_of sbs ! i)) (KeyTs_serialize k) = Greater" if "i < length ess" for i
    using offset_cmp [OF f that] first_keys_less [OF srt, of 0 i] b ti(2) that by (cases i) (auto simp: hd_conv_nth intro: less_trans)
  then have "binary_search_by (\<lambda>b. KeyTs_partial_cmp_borrow (bo_key_ts b) (KeyTs_serialize k)) (offsets_of sbs) = Inl 0"
    using ti(1) by (intro binary_search_all_greater) simp
  with ti show ?thesis by (simp add: table_seek_def table_iter_new_def sub_usize_def)
qed

text \<open>
  C29: A seek does not look into the last block. In a table over such a file, seeking any
  key that lies behind the first key of the last block answers that there is nothing,
  also when the key is in that block; and seeking a key before the first one panics.
\<close>

theorem seek_misses_last_block:
  assumes "table_file te ess sbs ti t" "sorted_wrt (<) (map (\<lambda>es. KeyTs_from (fst (hd es))) ess)"
  shows "(KeyTs_from (fst (hd (last ess))) < k \<longrightarrow> table_seek te (KeyTs_serialize k) (table_iter_new t) = Inr (False, table_iter_new t)) \<and>
    (k < KeyTs_from (fst (hd (hd ess))) \<longrightarrow> table_seek te (KeyTs_serialize k) (table_iter_new t) = Inl Panic)"
  using seek_behind_last [OF assms] seek_before_first [OF assms] by blast

section \<open>An instance\<close>

text \<open>A plain encoding of the index, with lengths in unary.\<close>

fun put_nat :: "nat \<Rightarrow> bytes" where
  "put_nat 0 = [0]"
| "put_nat (Suc n) = 1 # put_nat n"

fun get_nat :: "bytes \<Rightarrow> nat \<times> bytes" where
  "get_nat [] = (0, [])"
| "get_nat (b # bs) = (if b = 0 then (0, bs) else case get_nat bs of (n, r) \<Rightarrow> (Suc n, r))"

definition put_bytes :: "bytes \<Rightarrow> bytes" where "put_bytes bs = put_nat (length bs) @ bs"
definition get_bytes :: "bytes \<Rightarrow> bytes \<times> bytes" where
  "get_bytes bs = (case get_nat bs of (n, r) \<Rightarrow> (take n r, drop n r))"

definition get32 :: "bytes \<Rightarrow> u32 \<times> bytes" where "get32 bs = the (get_u32 bs)"

definition put_offset :: "fb_offset \<Rightarrow> bytes" where
  "put_offset x = put_bytes (fo_key_ts x) @ put_u32 (fo_offset x) @ put_u32 (fo_len x)"

definition get_offset :: "bytes \<Rightarrow> fb_offset \<times> bytes" where
  "get_offset bs = (case get_bytes bs of (k, r) \<Rightarrow> case get32 r of (a, r) \<Rightarrow> case get32 r of (b, r) \<Rightarrow>
     (\<lparr>fo_key_ts = k, fo_offset = a, fo_len = b\<rparr>, r))"

fun get_offsets :: "nat \<Rightarrow> bytes \<Rightarrow> fb_offset list \<times> bytes" where
  "get_offsets 0 bs = ([], bs)"
| "get_offsets (Suc n) bs = (case get_offset bs of (x, r) \<Rightarrow> case get_offsets n r of (xs, r) \<Rightarrow> (x # xs, r))"

definition demo_fb_encode :: "fb_index \<Rightarrow> bytes" where
  "demo_fb_encode i = put_nat (length (fi_offsets i)) @ concat (map put_offset (fi_offsets i)) @
     (case fi_bloom_filter i of None \<Rightarrow> [0] | Some b \<Rightarrow> 1 # put_bytes b) @ put_u64 (fi_max_version i) @
     put_u32 (fi_key_count i) @ put_u32 (fi_uncompressed_size i) @ put_u32 (fi_on_disk_size i) @ put_u32 (fi_stale_data_size i)"

definition get_bloom :: "bytes \<Rightarrow> bytes option \<times> bytes" where
  "get_bloom bs = (if hd bs = 0 then (None, tl bs) else case get_bytes (tl bs) of (b, r) \<Rightarrow> (Some b, r))"

definition demo_fb_decode :: "bytes \<Rightarrow> fb_index option" where
  "demo_fb_decode bs = (case get_nat bs of (n, r) \<Rightarrow> case get_offsets n r of (xs, r) \<Rightarrow> case get_bloom r of (bl, r) \<Rightarrow>
     case the (get_u64 r) of (mv, r) \<Rightarrow> case get32 r of (a, r) \<Rightarrow> case get32 r of (b, r) \<Rightarrow> case get32 r of (c, r) \<Rightarrow> case get32 r of (d, r) \<Rightarrow>
     Some \<lparr>fi_offsets = xs, fi_bloom_filter = bl, fi_max_version = mv, fi_key_count = a, fi_uncompressed_size = b,
       fi_on_disk_size = c, fi_stale_data_size = d\<rparr>)"

lemma get_put_parts [simp]:
  "get_nat (put_nat n @ r) = (n, r)" "get_bytes (put_bytes bs @ r) = (bs, r)" "get32 (put_u32 w @ r) = (w, r)" "get32 (put_u32 w) = (w, [])"
proof -
  show n: "get_nat (put_nat n @ r) = (n, r)" for n r by (induction n) simp_all
  show "get_bytes (put_bytes bs @ r) = (bs, r)" by (simp add: get_bytes_def put_bytes_def n)
qed (simp_all add: get32_def)

lemma get_put_offsets [simp]: "get_offsets (length xs) (concat (map put_offset xs) @ r) = (xs, r)"
  by (induction xs) (simp_all add: get_offset_def put_offset_def)

lemma demo_fb_roundtrip: "demo_fb_decode (demo_fb_encode i) = Some i"
  by (cases "fi_bloom_filter i") (simp_all add: demo_fb_decode_def demo_fb_encode_def get_bloom_def)

definition demo_te :: table_env where
  "demo_te = \<lparr>te_enc = leb_enc, te_dec = leb_dec, te_sum = demo_sum,
     te_crypto = demo_crypto,
     te_nonce = (\<lambda>_. replicate 12 0), te_snap_compress = Some, te_snap_decompress = Some,
     te_zstd_compress = (\<lambda>_. Some), te_zstd_decompress = Some, te_fb_encode = demo_fb_encode, te_fb_decode = demo_fb_decode\<rparr>"

lemma demo_te_laws: "table_laws demo_te"
proof -
  have "\<exists>e. aes_encrypt (te_crypto demo_te) c n d = Some e \<and> aes_decrypt (te_crypto demo_te) c n e = Some d" for c n d
    by (cases c) (simp_all add: demo_te_def demo_crypto_def)
  then show ?thesis
    using leb_laws demo_sum_laws demo_fb_roundtrip by (simp add: table_laws_def demo_te_def NONCE_SIZE_def)
qed

definition demo_kts :: "(key_ts \<times> value_meta) list" where
  "demo_kts = [(KeyTs [97] 1, ValueMeta_default), (KeyTs [97, 98] 1, ValueMeta_default)]"

definition demo_tc :: table_config where
  "demo_tc = TableConfig_default\<lparr>tg_bloom := None\<rparr>"

definition demo_tb :: table_builder where
  "demo_tb = \<lparr>tb_cur_block = \<lparr>bb_data = [0, 0, 0, 9, 97, 0, 0, 0, 0, 0, 0, 0, 1, 0, 0, 0, 0, 1, 0, 9,
       98, 0, 0, 0, 0, 0, 0, 0, 1, 0, 0, 0], bb_base_keyts = [97, 0, 0, 0, 0, 0, 0, 0, 1], bb_entry_offsets = [0, 16]\<rparr>,
     tb_compressed_size = 0, tb_uncompressed_size = 0, tb_cipher = None, tb_len_offsets = 0,
     tb_key_hashes = [Bloom_hash [97], Bloom_hash [97, 98]], tb_max_version = 1, tb_on_disk_size = 0, tb_stale_data_size = 0,
     tb_config = demo_tc, tb_compress_task = []\<rparr>"

lemma demo_push: "tb_push_all demo_te demo_kvs (TableBuilder_new demo_tc None) = Inr demo_tb"
  by (simp add: demo_kvs_def tb_push_def push_internal_def TableBuilder_new_def should_finish_block_def BlockBuilder_new_def
      push_entry_def demo_te_def KeyTs_serialize_def ValueMeta_serialize_def ValueMeta_default_def leb_enc_def leb.simps diff_base_key_def
      Let_def demo_tc_def TableConfig_default_def ValueMeta_serialized_size_def NONCE_SIZE_def EntryHeader_serialize_def put_u64_def
      put_u16_def to_be_def KeyTsBorrow_key_def KeyTsBorrow_txn_ts_def demo_tb_def)

lemma length_put_nat [simp]: "length (put_nat n) = Suc n"
  by (induction n) simp_all

lemma demo_done: "tb_done demo_te demo_tb = Inr (td, tb') \<Longrightarrow> length (read_all td) < 2 ^ 32"
  by (auto simp: tb_done_def finish_cur_block_def demo_tb_def demo_te_def demo_tc_def TableConfig_default_def Let_def
      compress_task_def try_encrypt_table_def build_index_def read_all_def finish_block_def demo_sum_def demo_fb_encode_def
      put_offset_def put_bytes_def)

lemma demo_kts_facts:
  "demo_kts \<noteq> []" "\<forall>e \<in> set demo_kts. kt_key (fst e) \<noteq> [] \<and> KeyTs_len (fst e) < 2 ^ 16"
  "demo_kvs = map (\<lambda>(k, v). (KeyTs_serialize k, v)) demo_kts" "3 * run_size (te_enc demo_te) demo_kvs + 100 < 2 ^ 32"
  "tg_block_size demo_tc \<noteq> 0 \<or> tg_compression demo_tc = No_compression"
  "\<forall>b k. tg_bloom demo_tc = Some (b, k) \<longrightarrow> unat k < 256"
  by (simp_all add: demo_kts_def demo_kvs_def KeyTs_len_def run_size_def demo_te_def KeyTs_serialize_def ValueMeta_serialize_def
      ValueMeta_default_def leb_enc_def leb.simps demo_tc_def TableConfig_default_def)

theorem table_roundtrip_witness:
  "\<exists>td tb' t. tb_done demo_te demo_tb = Inr (td, tb') \<and>
    table_open demo_te demo_tc 3 (fst (MmapFile_open 4096 [] 0)\<lparr>mm_raw := read_all td\<rparr>) None = Inr t \<and>
    collect (\<lambda>c. step_of (table_next demo_te c)) (table_item demo_te) 3 (table_iter_new t) = map Some demo_kvs \<and>
    tl_smallest t = KeyTs [97] 1 \<and> tl_biggest t = KeyTs [97, 98] 1"
proof -
  obtain tb td tb' where p: "tb_push_all demo_te demo_kvs (TableBuilder_new demo_tc None) = Inr tb" "tb_done demo_te tb = Inr (td, tb')"
    and o: "length (read_all td) < 2 ^ 32 \<longrightarrow> tb_finish demo_te tb = Inr (read_all td) \<and>
      (\<forall>f. mm_raw f = read_all td \<longrightarrow> (\<exists>t. table_open demo_te demo_tc 3 f None = Inr t \<and>
        collect (\<lambda>c. step_of (table_next demo_te c)) (table_item demo_te) (Suc (length demo_kvs)) (table_iter_new t) = map Some demo_kvs \<and>
        tl_smallest t = fst (hd demo_kts) \<and> tl_biggest t = fst (last demo_kts) \<and>
        (\<forall>e \<in> set demo_kts. may_contain_key_table demo_te t (fst e) = Inr True)))"
    using table_roundtrip [OF demo_te_laws demo_kts_facts, of None 3] by blast
  have tb: "tb = demo_tb" using p(1) demo_push by simp
  with p(2) demo_done have "length (read_all td) < 2 ^ 32" by blast
  from mp [OF o this, THEN conjunct2, THEN spec, of "fst (MmapFile_open 4096 [] 0)\<lparr>mm_raw := read_all td\<rparr>"]
  obtain t where t: "table_open demo_te demo_tc 3 (fst (MmapFile_open 4096 [] 0)\<lparr>mm_raw := read_all td\<rparr>) None = Inr t"
    "collect (\<lambda>c. step_of (table_next demo_te c)) (table_item demo_te) (Suc (length demo_kvs)) (table_iter_new t) = map Some demo_kvs"
    "tl_smallest t = fst (hd demo_kts)" "tl_biggest t = fst (last demo_kts)" by auto
  have "Suc (length demo_kvs) = 3" "fst (hd demo_kts) = KeyTs [97] 1" "fst (last demo_kts) = KeyTs [97, 98] 1"
    by (simp_all add: demo_kvs_def demo_kts_def)
  with t p(2) tb show ?thesis by auto
qed

text \<open>A table that holds the two entries in one block.\<close>

lemma demo_table_file: "\<exists>t ti sbs. table_file demo_te [demo_kvs] sbs ti t \<and> tl_smallest t = KeyTs [97] 1"
proof -
  have te: "te_enc demo_te = leb_enc" "te_sum demo_te = demo_sum" "te_fb_encode demo_te = demo_fb_encode"
    "tg_checksum_algo demo_tc = Crc32c" "tg_compression demo_tc = No_compression" by (simp_all add: demo_te_def demo_tc_def TableConfig_default_def)
  obtain bb where bb: "built leb_enc demo_kvs bb" using push_all_built [OF built_new demo_kvs_ok(2)] by auto
  let ?sb = "finish_block demo_sum Crc32c bb"
  have st: "list_all2 (stored demo_te demo_tc None) [demo_kvs] [?sb]"
    using bb by (auto simp: stored_def te try_decrypt_table_def demo_kvs_def built_def intro!: exI [of _ bb])
  define fi where "fi = \<lparr>fi_offsets = block_offsets 0 [?sb], fi_bloom_filter = None, fi_max_version = 1, fi_key_count = 2,
    fi_uncompressed_size = 0, fi_on_disk_size = 0, fi_stale_data_size = 0\<rparr>"
  define ck where "ck = se_encode (te_sum demo_te) (Checksum_new (te_sum demo_te) Crc32c (demo_fb_encode fi))"
  define f where "f = fst (MmapFile_open 4096 [] 0)\<lparr>mm_raw := concat (map bb_data [?sb]) @ demo_fb_encode fi @
    put_u32 (word_of_nat (length (demo_fb_encode fi))) @ ck @ put_u32 (word_of_nat (length ck))\<rparr>"
  have d: "length (bb_data bb) = total_size leb_enc demo_kvs" "length (bb_entry_offsets bb) = 2" "length (bb_base_keyts bb) = 9"
    using bb by (simp_all add: built_def total_size_def demo_kvs_def KeyTs_serialize_def)
  have "total_size leb_enc demo_kvs < 100"
    by (simp add: total_size_def body_def demo_kvs_def chunk_def HEADER_SIZE_def KeyTs_serialize_def ValueMeta_serialize_def
        ValueMeta_default_def leb_enc_def leb.simps)
  with d have len: "length (mm_raw f) < 2 ^ 32"
    by (simp add: f_def ck_def te demo_sum_def finish_block_def Let_def fi_def demo_fb_encode_def put_offset_def put_bytes_def)
  obtain t ti where t: "table_open demo_te demo_tc 3 f None = Inr t" "table_file demo_te [demo_kvs] [?sb] ti t"
    "tl_smallest t = KeyTs_from (fst (hd (hd [demo_kvs])))"
    by (rule table_open_ok [OF demo_te_laws st, where f = f and idx = "demo_fb_encode fi" and ck = ck and fi = fi and algo = Crc32c and tid = 3])
      (use len demo_kvs_ok te in \<open>simp_all add: f_def ck_def fi_def try_decrypt_table_def\<close>)
  moreover from t(3) have "tl_smallest t = KeyTs [97] 1" by (simp add: demo_kvs_def KeyTs_from_serialize)
  ultimately show ?thesis by blast
qed

text \<open>In a table of one block with two entries the second one is not found.\<close>

theorem seek_misses_last_block_witness:
  "\<exists>t ti sbs. table_file demo_te [demo_kvs] sbs ti t \<and> (KeyTs_serialize (KeyTs [97, 98] 1), ValueMeta_default) \<in> set demo_kvs \<and>
    table_seek demo_te (KeyTs_serialize (KeyTs [97, 98] 1)) (table_iter_new t) = Inr (False, table_iter_new t)"
proof -
  obtain t ti sbs where t: "table_file demo_te [demo_kvs] sbs ti t" using demo_table_file by blast
  have srt: "sorted_wrt (<) (map (\<lambda>es. KeyTs_from (fst (hd es))) [demo_kvs])" by simp
  have "KeyTs_from (fst (hd (last [demo_kvs]))) < KeyTs [97, 98] 1"
    by (simp add: demo_kvs_def KeyTs_from_serialize less_key_ts_iff)
  with seek_misses_last_block [OF t srt, of "KeyTs [97, 98] 1"] t show ?thesis
    by (auto simp: demo_kvs_def)
qed

end
