(* ===== verification/Manifest.thy ===== *)
theory Manifest
  imports Table "HOL-Library.Multiset"
begin

text \<open>
  The manifest (\<open>src/src/manifest.rs\<close>, with the message constructors of
  \<open>src/src/pb/mod.rs\<close>): the catalogue of table files as a log of change sets, each framed by
  its length and checksum, replayed on opening, appended to by \<open>push_changes\<close> and rewritten
  when deletions prevail. A file is its bytes; input and output themselves do not fail. The
  protocol buffer codec and the checksum are fields of \<open>manifest_env\<close>, with the laws
  relied on in \<open>manifest_laws\<close>; so is the order in which a hash map is iterated
  (\<open>me_order\<close>). An operation that fails leaves the state it had reached, which it returns
  together with the failure.
\<close>

section \<open>Changes\<close>

record manifest_change =
  mc_id :: u32
  mc_op :: "32 word"
  mc_level :: u32
  mc_key_id :: u64
  mc_encryption_algo :: "32 word"
  mc_compression :: u32

datatype operation = Create | Delete

text \<open>The accessor of an enumeration field: an unknown number is the default.\<close>

definition change_op :: "manifest_change \<Rightarrow> operation" where
  "change_op c = (if mc_op c = 1 then Delete else Create)"

fun CompressionType_from :: "nat \<Rightarrow> compression_type" where
  "CompressionType_from n = (if n = 1 then Snappy else if n = 2 then ZSTD 1 else No_compression)"

fun CompressionType_into :: "compression_type \<Rightarrow> u32" where
  "CompressionType_into No_compression = 0"
| "CompressionType_into Snappy = 1"
| "CompressionType_into (ZSTD _) = 2"

definition new_create :: "u32 \<Rightarrow> byte \<Rightarrow> u64 \<Rightarrow> compression_type \<Rightarrow> manifest_change" where
  "new_create table_id level key_id compression =
     \<lparr>mc_id = table_id, mc_op = 0, mc_level = ucast level, mc_key_id = key_id, mc_encryption_algo = 0,
      mc_compression = CompressionType_into compression\<rparr>"

definition new_delete :: "u32 \<Rightarrow> manifest_change" where
  "new_delete table_id =
     \<lparr>mc_id = table_id, mc_op = 1, mc_level = 0, mc_key_id = 0, mc_encryption_algo = 0, mc_compression = 0\<rparr>"

section \<open>The catalogue\<close>

record table_manifest =
  tm_level :: byte
  tm_keyid :: u64
  tm_compression :: compression_type

record manifest_info =
  mi_levels :: "u32 set list"
  mi_tables :: "(u32 \<times> table_manifest) list"
  mi_creations :: nat
  mi_deletions :: nat

definition ManifestInfo_default :: manifest_info where
  "ManifestInfo_default = \<lparr>mi_levels = [], mi_tables = [], mi_creations = 0, mi_deletions = 0\<rparr>"

record manifest_env =
  me_encode :: "manifest_change list \<Rightarrow> bytes"
  me_decode :: "bytes \<Rightarrow> manifest_change list option"
  me_crc32 :: "bytes \<Rightarrow> u32"
  me_order :: "(u32 \<times> table_manifest) list \<Rightarrow> (u32 \<times> table_manifest) list"

definition manifest_laws :: "manifest_env \<Rightarrow> bool" where
  "manifest_laws me \<longleftrightarrow> (\<forall>cs. me_decode me (me_encode me cs) = Some cs) \<and> (\<forall>ts. mset (me_order me ts) = mset ts)"

definition as_changes :: "manifest_env \<Rightarrow> manifest_info \<Rightarrow> manifest_change list" where
  "as_changes me mi =
     map (\<lambda>(i, tm). new_create i (tm_level tm) (tm_keyid tm) (tm_compression tm)) (me_order me (mi_tables mi))"

definition table_of_change :: "manifest_change \<Rightarrow> table_manifest" where
  "table_of_change c = \<lparr>tm_level = ucast (mc_level c), tm_keyid = mc_key_id c,
     tm_compression = CompressionType_from (unat (mc_compression c))\<rparr>"

definition apply_manifest_change :: "manifest_change \<Rightarrow> manifest_info \<Rightarrow> unit outcome \<times> manifest_info" where
  "apply_manifest_change c mi =
     (case change_op c of
        Create \<Rightarrow>
          if map_of (mi_tables mi) (mc_id c) \<noteq> None then (Inl (Anyhow ''MANIFEST invalid, table exists''), mi)
          else
            let mi = mi\<lparr>mi_tables := mi_tables mi @ [(mc_id c, table_of_change c)]\<rparr>;
                l = unat (mc_level c);
                mi = (if length (mi_levels mi) \<le> l then mi\<lparr>mi_levels := mi_levels mi @ [{}]\<rparr> else mi)
            in if l < length (mi_levels mi)
               then (Inr (), mi\<lparr>mi_levels := (mi_levels mi)[l := insert (mc_id c) (mi_levels mi ! l)],
                                mi_creations := mi_creations mi + 1\<rparr>)
               else (Inl Panic, mi)
      | Delete \<Rightarrow>
          if map_of (mi_tables mi) (mc_id c) = None then (Inl (Anyhow ''MANIFEST removes non-existing table''), mi)
          else
            let l = unat (mc_level c) in
            if l < length (mi_levels mi)
            then (Inr (), mi\<lparr>mi_levels := (mi_levels mi)[l := mi_levels mi ! l - {mc_id c}],
                             mi_tables := filter (\<lambda>(i, _). i \<noteq> mc_id c) (mi_tables mi),
                             mi_deletions := mi_deletions mi + 1\<rparr>)
            else (Inl Panic, mi))"

fun apply_change_set :: "manifest_change list \<Rightarrow> manifest_info \<Rightarrow> unit outcome \<times> manifest_info" where
  "apply_change_set [] mi = (Inr (), mi)"
| "apply_change_set (c # cs) mi =
     (case apply_manifest_change c mi of
        (Inl e, mi) \<Rightarrow> (Inl e, mi)
      | (Inr _, mi) \<Rightarrow> apply_change_set cs mi)"

section \<open>The file\<close>

definition BADGER_MAGIC_VERSION :: u16 where "BADGER_MAGIC_VERSION = 8"
definition MAGIC_TEXT :: bytes where "MAGIC_TEXT = bytes_of ''Bdgr''"
definition DELETIONS_REWRITE_THRESHOLD :: nat where "DELETIONS_REWRITE_THRESHOLD = 10000"
definition DELETIONS_RATIO :: nat where "DELETIONS_RATIO = 10"

text \<open>A change set as it stands in the file.\<close>

definition frame :: "manifest_env \<Rightarrow> bytes \<Rightarrow> bytes" where
  "frame me buf = put_u32 (word_of_nat (length buf)) @ put_u32 (me_crc32 me buf) @ buf"

definition help_rewrite :: "manifest_env \<Rightarrow> u16 \<Rightarrow> manifest_info \<Rightarrow> bytes \<times> nat" where
  "help_rewrite me ext mi =
     (MAGIC_TEXT @ put_u16 ext @ put_u16 BADGER_MAGIC_VERSION @ frame me (me_encode me (as_changes me mi)),
      length (mi_tables mi))"

function replay_loop :: "manifest_env \<Rightarrow> nat \<Rightarrow> bytes \<Rightarrow> nat \<Rightarrow> manifest_info \<Rightarrow> (manifest_info \<times> nat) outcome" where
  "replay_loop me fp_size rest offset mi =
     (if length rest < 8 then Inr (mi, offset)
      else
        let change_len = from_be (take 4 rest);
            crc = word_of_nat (from_be (take 4 (drop 4 rest)));
            rest = drop 8 rest
        in if offset + change_len > fp_size then Inl (Anyhow ''buffer len too greater'')
           else if length rest < change_len then Inr (mi, offset)
           else
             let change_set_buf = take change_len rest in
             if me_crc32 me change_set_buf \<noteq> crc then Inl (Anyhow ''manifest has checksum mismatch'')
             else case me_decode me change_set_buf of
               None \<Rightarrow> Inl (Anyhow ''decode'')
             | Some change_set \<Rightarrow>
                 (case apply_change_set change_set mi of
                    (Inl e, _) \<Rightarrow> Inl e
                  | (Inr _, mi) \<Rightarrow> replay_loop me fp_size (drop change_len rest) (offset + (8 + change_len)) mi))"
  by pat_completeness auto

termination
  by (relation "measure (\<lambda>(me, n, rest, offset, mi). length rest)") auto

declare replay_loop.simps [simp del]

text \<open>A file shorter than the header leaves zeros in the buffer it is read into.\<close>

definition replay_manifest_file :: "manifest_env \<Rightarrow> bytes \<Rightarrow> u16 \<Rightarrow> (manifest_info \<times> nat) outcome" where
  "replay_manifest_file me fp ext_magic =
     (let magic_buf = take 8 fp @ replicate (8 - length fp) 0;
          offset = min 8 (length fp)
      in if take 4 magic_buf \<noteq> MAGIC_TEXT then Inl (Anyhow ''manifest has bad magic'')
         else
           let ext_version = word_of_nat (from_be (take 2 (drop 4 magic_buf)));
               version = word_of_nat (from_be (drop 6 magic_buf))
           in if version \<noteq> BADGER_MAGIC_VERSION then Inl (Anyhow ''manifest has unsupported version'')
              else if ext_version \<noteq> ext_magic then Inl (Anyhow ''the external magic number does not match'')
              else replay_loop me (length fp) (drop 8 fp) offset ManifestInfo_default)"

record manifest =
  mf_file :: bytes
  mf_ext :: u16
  mf_threshold :: nat
  mf_info :: manifest_info

definition manifest_open :: "manifest_env \<Rightarrow> u16 \<Rightarrow> bool \<Rightarrow> bytes option \<Rightarrow> manifest outcome" where
  "manifest_open me ext read_only file =
     (case file of
        Some fp \<Rightarrow>
          and_then (replay_manifest_file me fp ext) (\<lambda>(mi, trunc_offset).
          Inr \<lparr>mf_file = (if read_only then fp else take trunc_offset fp @ replicate (trunc_offset - length fp) 0),
               mf_ext = ext, mf_threshold = DELETIONS_REWRITE_THRESHOLD, mf_info = mi\<rparr>)
      | None \<Rightarrow>
          if read_only then Inl (Anyhow ''no manifest found, required for read-only db'')
          else
            let (fp, table_creations) = help_rewrite me ext ManifestInfo_default in
            if table_creations \<noteq> 0 then Inl Panic
            else Inr \<lparr>mf_file = fp, mf_ext = ext, mf_threshold = DELETIONS_REWRITE_THRESHOLD, mf_info = ManifestInfo_default\<rparr>)"

definition push_changes :: "manifest_env \<Rightarrow> manifest_change list \<Rightarrow> manifest \<Rightarrow> unit outcome \<times> manifest" where
  "push_changes me changes mf =
     (let serialize_buf = me_encode me changes in
      case apply_change_set changes (mf_info mf) of
        (Inl e, mi) \<Rightarrow> (Inl e, mf\<lparr>mf_info := mi\<rparr>)
      | (Inr _, mi) \<Rightarrow>
          if mi_deletions mi > mf_threshold mf then
            if mi_creations mi < mi_deletions mi then (Inl Panic, mf\<lparr>mf_info := mi\<rparr>)
            else if mi_deletions mi > DELETIONS_RATIO * (mi_creations mi - mi_deletions mi) then
              let (fp, table_creations) = help_rewrite me (mf_ext mf) mi in
              (Inr (), mf\<lparr>mf_file := fp, mf_info := mi\<lparr>mi_creations := table_creations, mi_deletions := 0\<rparr>\<rparr>)
            else (Inr (), mf\<lparr>mf_file := mf_file mf @ frame me serialize_buf, mf_info := mi\<rparr>)
          else (Inr (), mf\<lparr>mf_file := mf_file mf @ frame me serialize_buf, mf_info := mi\<rparr>))"

section \<open>The catalogue stays well formed\<close>

text \<open>
  What the rest of the program relies on: one entry for each table, counters that agree with
  it (so that \<open>creations - deletions\<close> never underflows), and compression types that survive
  being written as a number.
\<close>

definition manifest_ok :: "manifest_info \<Rightarrow> bool" where
  "manifest_ok mi \<longleftrightarrow> distinct (map fst (mi_tables mi)) \<and> mi_creations mi = mi_deletions mi + length (mi_tables mi) \<and>
     (\<forall>(i, tm) \<in> set (mi_tables mi). tm_compression tm \<in> {No_compression, Snappy, ZSTD 1})"

lemma manifest_ok_default: "manifest_ok ManifestInfo_default"
  by (simp add: manifest_ok_def ManifestInfo_default_def)

lemma length_filter_key:
  "distinct (map fst ts) \<Longrightarrow> map_of ts k \<noteq> None \<Longrightarrow> Suc (length (filter (\<lambda>(i, _). i \<noteq> k) ts)) = length ts"
proof (induction ts)
  case (Cons t ts)
  obtain i v where t: "t = (i, v)" by (cases t)
  show ?case
  proof (cases "i = k")
    case True
    with Cons.prems t have "\<forall>x \<in> set ts. fst x \<noteq> k" by auto
    then have "filter (\<lambda>(i, _). i \<noteq> k) ts = ts" by (auto intro!: filter_True)
    with True t show ?thesis by simp
  next
    case False
    with Cons t show ?thesis by simp
  qed
qed simp

lemma distinct_filter_keys: "distinct (map fst ts) \<Longrightarrow> distinct (map fst (filter P ts))"
  by (rule distinct_map_filter)

lemma apply_change_ok:
  assumes "manifest_ok mi" "apply_manifest_change c mi = (r, mi')" "r \<noteq> Inl Panic"
  shows "manifest_ok mi'"
proof (cases "change_op c")
  case Create
  with assms show ?thesis
    by (auto simp: apply_manifest_change_def manifest_ok_def Let_def map_of_eq_None_iff table_of_change_def split: if_splits)
next
  case Delete
  show ?thesis
  proof (cases r)
    case (Inl e)
    with Delete assms show ?thesis by (auto simp: apply_manifest_change_def Let_def split: if_splits)
  next
    case (Inr u)
    with Delete assms have "map_of (mi_tables mi) (mc_id c) \<noteq> None"
      "mi_tables mi' = filter (\<lambda>(i, _). i \<noteq> mc_id c) (mi_tables mi)"
      "mi_creations mi' = mi_creations mi" "mi_deletions mi' = mi_deletions mi + 1"
      by (auto simp: apply_manifest_change_def Let_def split: if_splits)
    with assms(1) length_filter_key [of "mi_tables mi" "mc_id c"] show ?thesis
      by (auto simp: manifest_ok_def distinct_filter_keys)
  qed
qed

lemma apply_change_set_ok:
  "manifest_ok mi \<Longrightarrow> apply_change_set cs mi = (r, mi') \<Longrightarrow> r \<noteq> Inl Panic \<Longrightarrow> manifest_ok mi'"
proof (induction cs arbitrary: mi)
  case (Cons c cs)
  obtain q mi1 where q: "apply_manifest_change c mi = (q, mi1)" by fastforce
  with Cons apply_change_ok [OF Cons.prems(1) q] show ?case by (cases q) auto
qed simp

section \<open>The catalogue as a map\<close>

definition catalog :: "manifest_info \<Rightarrow> u32 \<rightharpoonup> table_manifest" where
  "catalog mi = map_of (mi_tables mi)"

definition catalog_step :: "manifest_change \<Rightarrow> (u32 \<rightharpoonup> table_manifest) \<Rightarrow> (u32 \<rightharpoonup> table_manifest) option" where
  "catalog_step c m =
     (case change_op c of
        Create \<Rightarrow> if mc_id c \<in> dom m then None else Some (m(mc_id c \<mapsto> table_of_change c))
      | Delete \<Rightarrow> if mc_id c \<in> dom m then Some (m(mc_id c := None)) else None)"

fun catalog_steps :: "manifest_change list \<Rightarrow> (u32 \<rightharpoonup> table_manifest) \<Rightarrow> (u32 \<rightharpoonup> table_manifest) option" where
  "catalog_steps [] m = Some m"
| "catalog_steps (c # cs) m = (case catalog_step c m of None \<Rightarrow> None | Some m' \<Rightarrow> catalog_steps cs m')"

lemma map_of_filter_key: "map_of (filter (\<lambda>(i, _). i \<noteq> k) ts) = (map_of ts)(k := None)"
  by (induction ts) auto

lemma map_add_new: "m k = None \<Longrightarrow> [k \<mapsto> v] ++ m = m(k \<mapsto> v)"
  by (auto simp: map_add_def fun_eq_iff split: option.split)

lemma apply_change_catalog:
  "apply_manifest_change c mi = (Inr (), mi') \<Longrightarrow> catalog_step c (catalog mi) = Some (catalog mi')"
  by (cases "change_op c")
    (auto simp: apply_manifest_change_def catalog_step_def catalog_def Let_def map_of_filter_key map_add_new
      split: if_splits)

lemma apply_change_set_catalog:
  "apply_change_set cs mi = (Inr (), mi') \<Longrightarrow> catalog_steps cs (catalog mi) = Some (catalog mi')"
proof (induction cs arbitrary: mi)
  case (Cons c cs)
  obtain q mi1 where q: "apply_manifest_change c mi = (q, mi1)" by fastforce
  with Cons apply_change_catalog [of c mi mi1] show ?case by (cases q) auto
qed simp

text \<open>A change outside the map's domain conditions is refused, and nothing but the levels can go wrong.\<close>

lemma apply_change_refused:
  "catalog_step c (catalog mi) = None \<Longrightarrow> \<exists>e. apply_manifest_change c mi = (Inl (Anyhow e), mi)"
  by (cases "change_op c") (auto simp: apply_manifest_change_def catalog_step_def catalog_def split: if_splits)

section \<open>Replaying what was written\<close>

lemma length_frame [simp]: "length (frame me buf) = 8 + length buf"
  by (simp add: frame_def)

lemma frame_parts:
  assumes "length buf < 2 ^ 32"
  shows "from_be (take 4 (frame me buf @ r)) = length buf"
    "(word_of_nat (from_be (take 4 (drop 4 (frame me buf @ r)))) :: u32) = me_crc32 me buf"
    "drop 8 (frame me buf @ r) = buf @ r"
  using assms by (simp_all add: frame_def from_be_put unat_of_nat take_bit_nat_eq_self)

lemma replay_frame:
  assumes "manifest_laws me" "length (me_encode me cs) < 2 ^ 32" "offset + length (me_encode me cs) \<le> n"
    and "apply_change_set cs mi = (Inr (), mi')"
  shows "replay_loop me n (frame me (me_encode me cs) @ r) offset mi = replay_loop me n r (offset + (8 + length (me_encode me cs))) mi'"
  using assms frame_parts [OF assms(2), of me r]
  by (subst replay_loop.simps) (simp add: Let_def manifest_laws_def)

lemma replay_nil [simp]: "replay_loop me n [] offset mi = Inr (mi, offset)"
  by (simp add: replay_loop.simps)

text \<open>A log that replays to its end can be continued.\<close>

lemma replay_append:
  "replay_loop me n rest offset mi = Inr (mi1, offset + length rest) \<Longrightarrow> n \<le> n' \<Longrightarrow>
   replay_loop me n' (rest @ t) offset mi = replay_loop me n' t (offset + length rest) mi1"
proof (induction me n rest offset mi rule: replay_loop.induct)
  case (1 me n rest offset mi)
  show ?case
  proof (cases "length rest < 8")
    case True
    with "1.prems"(1) have "rest = []" "mi1 = mi" by (simp_all add: replay_loop.simps [of me n rest])
    then show ?thesis by simp
  next
    case False
    define len where "len = from_be (take 4 rest)"
    define buf where "buf = take len (drop 8 rest)"
    from False "1.prems"(1) obtain cs mi2 where
      r: "offset + len \<le> n" "len \<le> length rest - 8" "me_crc32 me buf = word_of_nat (from_be (take 4 (drop 4 rest)))"
      "me_decode me buf = Some cs" "apply_change_set cs mi = (Inr (), mi2)"
      "replay_loop me n (drop len (drop 8 rest)) (offset + (8 + len)) mi2 = Inr (mi1, offset + length rest)"
      by (subst (asm) replay_loop.simps)
        (auto simp: Let_def len_def buf_def split: if_splits option.splits prod.splits sum.splits)
    have len: "offset + length rest = offset + (8 + len) + length (drop len (drop 8 rest))"
      using False r(2) by simp
    have ih: "replay_loop me n' (drop len (drop 8 rest) @ t) (offset + (8 + len)) mi2 =
      replay_loop me n' t (offset + length rest) mi1"
      unfolding len
      by (rule "1.IH" [OF False len_def refl refl _ _ buf_def _ r(4) r(5) [symmetric]])
        (use False r "1.prems"(2) in \<open>simp_all add: len [symmetric]\<close>)
    have "\<not> length rest + length t - 8 < len" "\<not> length (rest @ t) < 8" using False r(2) by auto
    then have "replay_loop me n' (rest @ t) offset mi = replay_loop me n' (drop len (drop 8 rest) @ t) (offset + (8 + len)) mi2"
      using False r "1.prems"(2) by (subst replay_loop.simps) (simp add: Let_def len_def [symmetric] buf_def [symmetric])
    with ih show ?thesis by simp
  qed
qed

text \<open>The file describes exactly the state in memory.\<close>

definition in_sync :: "manifest_env \<Rightarrow> manifest \<Rightarrow> bool" where
  "in_sync me mf \<longleftrightarrow> 8 \<le> length (mf_file mf) \<and>
     replay_manifest_file me (mf_file mf) (mf_ext mf) = Inr (mf_info mf, length (mf_file mf))"

lemma replay_header:
  assumes "8 \<le> length fp" "replay_manifest_file me fp ext = Inr (mi, length fp)"
  shows "replay_manifest_file me (fp @ t) ext = replay_loop me (length fp + length t) t (length fp) mi"
proof -
  have pad: "replicate (8 - length fp) 0 = ([] :: bytes)" "min 8 (length fp) = 8" using assms(1) by simp_all
  have len: "8 + length (drop 8 fp) = length fp" using assms(1) by simp
  from assms(2) have "replay_loop me (length fp) (drop 8 fp) 8 ManifestInfo_default = Inr (mi, 8 + length (drop 8 fp))"
    unfolding len by (simp add: replay_manifest_file_def Let_def pad split: if_splits)
  note replay_append [OF this, of "length fp + length t" t, unfolded len]
  with assms pad show ?thesis
    by (simp add: replay_manifest_file_def Let_def split: if_splits)
qed

lemma in_sync_append:
  assumes "manifest_laws me" "in_sync me mf" "length (me_encode me cs) < 2 ^ 32"
    and "apply_change_set cs (mf_info mf) = (Inr (), mi)"
  shows "in_sync me (mf\<lparr>mf_file := mf_file mf @ frame me (me_encode me cs), mf_info := mi\<rparr>)"
  using assms(2) replay_header [of "mf_file mf" me "mf_ext mf" "mf_info mf" "frame me (me_encode me cs)"]
    replay_frame [OF assms(1,3) _ assms(4), of "length (mf_file mf)" "length (mf_file mf) + (8 + length (me_encode me cs))" "[]"]
  by (simp add: in_sync_def add.assoc)

lemma header_parts:
  fixes ext :: u16
  defines "h \<equiv> MAGIC_TEXT @ put_u16 ext @ put_u16 BADGER_MAGIC_VERSION"
  shows "length h = 8" "replay_manifest_file me (h @ t) ext = replay_loop me (8 + length t) t 8 ManifestInfo_default"
proof -
  show len: "length h = 8" by (simp add: h_def MAGIC_TEXT_def)
  have m4: "length MAGIC_TEXT = 4" by (simp add: MAGIC_TEXT_def)
  have "take 8 (h @ t) = h" "drop 8 (h @ t) = t" using len by simp_all
  moreover have "take 4 h = MAGIC_TEXT" "take 2 (drop 4 h) = put_u16 ext" "drop 6 h = put_u16 BADGER_MAGIC_VERSION"
    by (simp_all add: h_def m4)
  ultimately show "replay_manifest_file me (h @ t) ext = replay_loop me (8 + length t) t 8 ManifestInfo_default"
    using len by (simp add: replay_manifest_file_def Let_def from_be_put)
qed

lemma in_sync_new:
  assumes "manifest_laws me" "length (me_encode me []) < 2 ^ 32" "manifest_open me ext False None = Inr mf"
  shows "in_sync me mf" "mf_info mf = ManifestInfo_default" "mf_ext mf = ext" "mf_threshold mf = DELETIONS_REWRITE_THRESHOLD"
proof -
  have "mset (me_order me []) = mset []" using assms(1) by (simp add: manifest_laws_def)
  then have "as_changes me ManifestInfo_default = []" by (simp add: as_changes_def ManifestInfo_default_def)
  with assms(3) have mf: "mf = \<lparr>mf_file = (MAGIC_TEXT @ put_u16 ext @ put_u16 BADGER_MAGIC_VERSION) @ frame me (me_encode me []),
      mf_ext = ext, mf_threshold = DELETIONS_REWRITE_THRESHOLD, mf_info = ManifestInfo_default\<rparr>"
    by (simp add: manifest_open_def help_rewrite_def ManifestInfo_default_def)
  show "in_sync me mf"
    using header_parts(2) [where ext = ext and me = me and t = "frame me (me_encode me [])"]
      replay_frame [OF assms(1,2), of 8 "8 + (8 + length (me_encode me []))" ManifestInfo_default ManifestInfo_default "[]"]
    by (simp add: mf in_sync_def MAGIC_TEXT_def)
  show "mf_info mf = ManifestInfo_default" "mf_ext mf = ext" "mf_threshold mf = DELETIONS_REWRITE_THRESHOLD"
    by (simp_all add: mf)
qed

lemma in_sync_reopen:
  assumes "in_sync me mf" "mf_threshold mf = DELETIONS_REWRITE_THRESHOLD"
  shows "manifest_open me (mf_ext mf) read_only (Some (mf_file mf)) = Inr mf"
  using assms by (simp add: in_sync_def manifest_open_def)

lemma apply_change_deletions:
  "apply_manifest_change c mi = (Inr (), mi') \<Longrightarrow> mi_deletions mi' = mi_deletions mi + (if change_op c = Delete then 1 else 0)"
  by (auto simp: apply_manifest_change_def Let_def split: operation.splits if_splits)

lemma apply_change_set_deletions:
  "apply_change_set cs mi = (Inr (), mi') \<Longrightarrow>
   mi_deletions mi' = mi_deletions mi + length (filter (\<lambda>c. change_op c = Delete) cs)"
proof (induction cs arbitrary: mi)
  case (Cons c cs)
  obtain q mi1 where q: "apply_manifest_change c mi = (q, mi1)" by fastforce
  with Cons apply_change_deletions [of c mi mi1] show ?case by (cases q) auto
qed simp

lemma push_appends:
  assumes "manifest_laws me" "in_sync me mf" "length (me_encode me cs) < 2 ^ 32" "push_changes me cs mf = (Inr (), mf')"
    and "mi_deletions (mf_info mf) + length (filter (\<lambda>c. change_op c = Delete) cs) \<le> mf_threshold mf"
  shows "in_sync me mf'" "mf_ext mf' = mf_ext mf" "mf_threshold mf' = mf_threshold mf"
    "mi_deletions (mf_info mf') = mi_deletions (mf_info mf) + length (filter (\<lambda>c. change_op c = Delete) cs)"
proof -
  obtain r mi where r: "apply_change_set cs (mf_info mf) = (r, mi)" by fastforce
  with assms(4) have ok: "r = Inr ()" by (cases r) (auto simp: push_changes_def Let_def)
  note d = apply_change_set_deletions [OF r [unfolded ok]]
  with r ok assms(4,5) have mf': "mf' = mf\<lparr>mf_file := mf_file mf @ frame me (me_encode me cs), mf_info := mi\<rparr>"
    by (simp add: push_changes_def Let_def)
  show "in_sync me mf'" unfolding mf' by (rule in_sync_append [OF assms(1-3) r [unfolded ok]])
  show "mf_ext mf' = mf_ext mf" "mf_threshold mf' = mf_threshold mf"
    "mi_deletions (mf_info mf') = mi_deletions (mf_info mf) + length (filter (\<lambda>c. change_op c = Delete) cs)"
    using d by (simp_all add: mf')
qed

text \<open>A sequence of change sets pushed one after the other.\<close>

fun push_sets :: "manifest_env \<Rightarrow> manifest_change list list \<Rightarrow> manifest \<Rightarrow> unit outcome \<times> manifest" where
  "push_sets me [] mf = (Inr (), mf)"
| "push_sets me (cs # css) mf =
     (case push_changes me cs mf of
        (Inl e, mf) \<Rightarrow> (Inl e, mf)
      | (Inr _, mf) \<Rightarrow> push_sets me css mf)"

lemma push_sets_in_sync:
  assumes "manifest_laws me"
  shows "\<lbrakk>in_sync me mf; \<forall>cs \<in> set css. length (me_encode me cs) < 2 ^ 32; push_sets me css mf = (Inr (), mf');
    mi_deletions (mf_info mf) + length (filter (\<lambda>c. change_op c = Delete) (concat css)) \<le> mf_threshold mf\<rbrakk>
    \<Longrightarrow> in_sync me mf' \<and> mf_ext mf' = mf_ext mf \<and> mf_threshold mf' = mf_threshold mf"
proof (induction css arbitrary: mf)
  case (Cons cs css)
  obtain r mf1 where r: "push_changes me cs mf = (r, mf1)" by fastforce
  with Cons.prems(3) have ok: "r = Inr ()" by (cases r) auto
  have "mi_deletions (mf_info mf) + length (filter (\<lambda>c. change_op c = Delete) cs) \<le> mf_threshold mf"
    using Cons.prems(4) by simp
  note p = push_appends [OF assms Cons.prems(1) _ r [unfolded ok] this]
  from Cons.prems r ok p show ?case using Cons.IH [of mf1] by simp
qed simp

text \<open>The type invariant holds of whatever a file replays to and is kept by every push.\<close>

lemma replay_loop_ok:
  "manifest_ok mi \<Longrightarrow> replay_loop me n rest offset mi = Inr (mi', off) \<Longrightarrow> manifest_ok mi'"
proof (induction me n rest offset mi rule: replay_loop.induct)
  case (1 me n rest offset mi)
  show ?case
  proof (cases "length rest < 8")
    case True
    with "1.prems" show ?thesis by (simp add: replay_loop.simps [of me n rest])
  next
    case False
    define len where "len = from_be (take 4 rest)"
    define buf where "buf = take len (drop 8 rest)"
    consider "mi' = mi" | cs mi2 where "offset + len \<le> n" "\<not> length (drop 8 rest) < len"
        "me_crc32 me buf = word_of_nat (from_be (take 4 (drop 4 rest)))" "me_decode me buf = Some cs"
        "apply_change_set cs mi = (Inr (), mi2)"
        "replay_loop me n (drop len (drop 8 rest)) (offset + (8 + len)) mi2 = Inr (mi', off)"
      using False "1.prems"(2) by (subst (asm) replay_loop.simps)
        (auto simp: Let_def len_def buf_def split: if_splits option.splits prod.splits sum.splits)
    then show ?thesis
    proof cases
      case 1
      with "1.prems"(1) show ?thesis by simp
    next
      case 2
      show ?thesis
        by (rule "1.IH" [OF False len_def refl refl _ 2(2) buf_def _ 2(4) 2(5) [symmetric] refl])
          (use 2 "1.prems"(1) apply_change_set_ok [OF "1.prems"(1) 2(5)] in simp_all)
    qed
  qed
qed

lemma manifest_open_ok: "manifest_open me ext ro file = Inr mf \<Longrightarrow> manifest_ok (mf_info mf)"
  using manifest_ok_default
  by (auto simp: manifest_open_def and_then_Inr replay_manifest_file_def Let_def help_rewrite_def
      split: option.splits if_splits intro: replay_loop_ok)

lemma manifest_ok_counters: "manifest_ok mi \<Longrightarrow> manifest_ok (mi\<lparr>mi_creations := length (mi_tables mi), mi_deletions := 0\<rparr>)"
  by (auto simp: manifest_ok_def)

lemma push_changes_apply:
  assumes "push_changes me cs mf = (r, mf')" "r \<noteq> Inl Panic"
  obtains mi where "apply_change_set cs (mf_info mf) = (r, mi)"
    "mf_info mf' = mi \<or> mf_info mf' = mi\<lparr>mi_creations := length (mi_tables mi), mi_deletions := 0\<rparr>"
proof -
  obtain q mi where q: "apply_change_set cs (mf_info mf) = (q, mi)" by fastforce
  show ?thesis
    by (rule that [of mi]; use assms q in \<open>cases q; auto simp: push_changes_def help_rewrite_def Let_def split: if_splits\<close>)
qed

lemma push_changes_ok:
  "manifest_ok (mf_info mf) \<Longrightarrow> push_changes me cs mf = (r, mf') \<Longrightarrow> r \<noteq> Inl Panic \<Longrightarrow> manifest_ok (mf_info mf')"
  by (erule push_changes_apply, assumption) (metis apply_change_set_ok manifest_ok_counters)

lemma push_sets_ok:
  "manifest_ok (mf_info mf) \<Longrightarrow> push_sets me css mf = (r, mf') \<Longrightarrow> r \<noteq> Inl Panic \<Longrightarrow> manifest_ok (mf_info mf')"
proof (induction css arbitrary: mf)
  case (Cons cs css)
  obtain q mf1 where q: "push_changes me cs mf = (q, mf1)" by fastforce
  with Cons push_changes_ok [OF Cons.prems(1) q] show ?case by (cases q) auto
qed simp

text \<open>An incomplete frame at the end of the file.\<close>

lemma replay_torn:
  assumes "length buf < 2 ^ 32" "k < 8 + length buf"
  shows "replay_loop me (offset + k) (take k (frame me buf)) offset mi =
    (if k < 8 \<or> length buf \<le> k then Inr (mi, offset) else Inl (Anyhow ''buffer len too greater''))"
proof (cases "k < 8")
  case True
  with assms show ?thesis by (subst replay_loop.simps) simp
next
  case False
  have "take 4 (take k (frame me buf)) = take 4 (frame me buf @ [])" using False by (simp add: min_def)
  then have "from_be (take 4 (take k (frame me buf))) = length buf" using frame_parts(1) [OF assms(1)] by metis
  with False assms show ?thesis by (subst replay_loop.simps) (auto simp: Let_def)
qed

section \<open>A codec\<close>

text \<open>A fixed-width codec that satisfies the laws, for concrete runs.\<close>

definition enc_change :: "manifest_change \<Rightarrow> bytes" where
  "enc_change c = put_u32 (mc_id c) @ put_u32 (mc_op c) @ put_u32 (mc_level c) @ put_u64 (mc_key_id c) @
     put_u32 (mc_encryption_algo c) @ put_u32 (mc_compression c)"

definition dec_change :: "bytes \<Rightarrow> (manifest_change \<times> bytes) option" where
  "dec_change bs =
     Option.bind (get_u32 bs) (\<lambda>(i, bs). Option.bind (get_u32 bs) (\<lambda>(q, bs). Option.bind (get_u32 bs) (\<lambda>(l, bs).
     Option.bind (get_u64 bs) (\<lambda>(k, bs). Option.bind (get_u32 bs) (\<lambda>(a, bs). Option.bind (get_u32 bs) (\<lambda>(c, bs).
     Some (\<lparr>mc_id = i, mc_op = q, mc_level = l, mc_key_id = k, mc_encryption_algo = a, mc_compression = c\<rparr>, bs)))))))"

fun dec_changes :: "nat \<Rightarrow> bytes \<Rightarrow> manifest_change list option" where
  "dec_changes n [] = Some []"
| "dec_changes 0 (b # bs) = None"
| "dec_changes (Suc n) (b # bs) =
     Option.bind (dec_change (b # bs)) (\<lambda>(c, r). map_option ((#) c) (dec_changes n r))"

lemma dec_enc_change: "dec_change (enc_change c @ r) = Some (c, r)"
  by (simp add: dec_change_def enc_change_def)

lemma length_enc_change [simp]: "length (enc_change c) = 28"
  by (simp add: enc_change_def)

lemma dec_enc_changes: "length cs \<le> n \<Longrightarrow> dec_changes n (concat (map enc_change cs)) = Some cs"
proof (induction cs arbitrary: n)
  case (Cons c cs)
  obtain m where n: "n = Suc m" "length cs \<le> m" using Cons.prems by (cases n) auto
  obtain b bs where b: "enc_change c @ concat (map enc_change cs) = b # bs"
    using length_enc_change [of c] by (cases "enc_change c") auto
  have "dec_change (b # bs) = Some (c, concat (map enc_change cs))" using dec_enc_change b by metis
  with Cons.IH [OF n(2)] n(1) b show ?case by simp
qed simp

definition demo_me :: manifest_env where
  "demo_me = \<lparr>me_encode = \<lambda>cs. concat (map enc_change cs), me_decode = \<lambda>bs. dec_changes (length bs) bs,
     me_crc32 = \<lambda>bs. word_of_nat (length bs), me_order = rev\<rparr>"

lemma length_concat_enc: "length (concat (map enc_change cs)) = 28 * length cs"
  by (induction cs) auto

lemma demo_me_laws: "manifest_laws demo_me"
  by (simp add: manifest_laws_def demo_me_def dec_enc_changes length_concat_enc)

definition demo_pushes :: "manifest_change list list" where
  "demo_pushes = [[new_create 1 0 7 Snappy], [new_create 2 0 7 (ZSTD 3)], [new_create 3 1 7 No_compression, new_delete 1]]"

definition demo_mf0 :: manifest where
  "demo_mf0 = \<lparr>mf_file = fst (help_rewrite demo_me 5 ManifestInfo_default), mf_ext = 5,
     mf_threshold = DELETIONS_REWRITE_THRESHOLD, mf_info = ManifestInfo_default\<rparr>"

lemma demo_open: "manifest_open demo_me 5 False None = Inr demo_mf0"
  by (simp add: manifest_open_def help_rewrite_def ManifestInfo_default_def demo_mf0_def)

lemma demo_sets_pushed:
  "fst (push_sets demo_me demo_pushes demo_mf0) = Inr ()"
  "map fst (mi_tables (mf_info (snd (push_sets demo_me demo_pushes demo_mf0)))) = [2, 3]"
  by (simp_all add: demo_pushes_def demo_mf0_def push_changes_def apply_manifest_change_def change_op_def new_create_def
      new_delete_def ManifestInfo_default_def Let_def DELETIONS_REWRITE_THRESHOLD_def)

lemma demo_push_sets: "push_sets demo_me demo_pushes demo_mf0 = (Inr (), snd (push_sets demo_me demo_pushes demo_mf0))"
  using demo_sets_pushed(1) by (metis prod.collapse)

section \<open>Properties\<close>

text \<open>C17: After any sequence of change sets pushed to a new manifest without an error and within
  the threshold of deletions, opening the file again gives back exactly the manifest in memory.\<close>

theorem manifest_reopen:
  assumes "manifest_laws me" "\<forall>cs \<in> set ([] # css). length (me_encode me cs) < 2 ^ 32"
    and "manifest_open me ext False None = Inr mf0" "push_sets me css mf0 = (Inr (), mf)"
    and "length (filter (\<lambda>c. change_op c = Delete) (concat css)) \<le> DELETIONS_REWRITE_THRESHOLD"
  shows "manifest_open me ext read_only (Some (mf_file mf)) = Inr mf"
proof -
  have "length (me_encode me []) < 2 ^ 32" using assms(2) by simp
  note new = in_sync_new [OF assms(1) this assms(3)]
  have "mi_deletions (mf_info mf0) = 0" by (simp add: new ManifestInfo_default_def)
  then have "in_sync me mf \<and> mf_ext mf = mf_ext mf0 \<and> mf_threshold mf = mf_threshold mf0"
    using push_sets_in_sync [OF assms(1) new(1) _ assms(4)] assms(2,5) new(4) by simp
  then show ?thesis using in_sync_reopen [of me mf read_only] new(3,4) by simp
qed

theorem manifest_reopen_witness:
  "map fst (mi_tables (mf_info (snd (push_sets demo_me demo_pushes demo_mf0)))) = [2, 3] \<and>
   manifest_open demo_me 5 True (Some (mf_file (snd (push_sets demo_me demo_pushes demo_mf0)))) =
     Inr (snd (push_sets demo_me demo_pushes demo_mf0))"
proof (rule conjI [OF demo_sets_pushed(2)])
  show "manifest_open demo_me 5 True (Some (mf_file (snd (push_sets demo_me demo_pushes demo_mf0)))) =
    Inr (snd (push_sets demo_me demo_pushes demo_mf0))"
    by (rule manifest_reopen [OF demo_me_laws _ demo_open demo_push_sets])
      (simp_all add: demo_me_def demo_pushes_def change_op_def new_create_def new_delete_def DELETIONS_REWRITE_THRESHOLD_def)
qed

text \<open>C31: Whatever a manifest was opened from and whatever is then pushed, up to an error that is not
  a panic, no table is listed twice, the counters agree with the tables listed (so their
  difference cannot underflow), and every compression type is one that its number gives back.\<close>

theorem manifest_invariant:
  assumes "manifest_open me ext read_only file = Inr mf0" "push_sets me css mf0 = (r, mf)" "r \<noteq> Inl Panic"
  shows "manifest_ok (mf_info mf) \<and> mi_deletions (mf_info mf) \<le> mi_creations (mf_info mf)"
  using push_sets_ok [OF manifest_open_ok [OF assms(1)] assms(2,3)] by (simp_all add: manifest_ok_def)

theorem manifest_invariant_witness: "manifest_ok (mf_info (snd (push_sets demo_me demo_pushes demo_mf0)))"
  using manifest_invariant [OF demo_open demo_push_sets] by simp

text \<open>A record cut off by a crash is dropped when it breaks within its first eight bytes or
  its last eight bytes; anywhere else the file is refused as corrupted, because the check on the
  length leaves out the eight bytes of the frame but counts everything before it.\<close>

theorem torn_record_replay:
  assumes "manifest_laws me" "in_sync me mf" "mf_threshold mf = DELETIONS_REWRITE_THRESHOLD"
    and "length (me_encode me cs) < 2 ^ 32" "k < 8 + length (me_encode me cs)"
  shows "manifest_open me (mf_ext mf) False (Some (mf_file mf @ take k (frame me (me_encode me cs)))) =
    (if k < 8 \<or> length (me_encode me cs) \<le> k then Inr mf else Inl (Anyhow ''buffer len too greater''))"
proof -
  from assms(2) have s: "8 \<le> length (mf_file mf)"
    "replay_manifest_file me (mf_file mf) (mf_ext mf) = Inr (mf_info mf, length (mf_file mf))"
    by (simp_all add: in_sync_def)
  have "length (mf_file mf) + length (take k (frame me (me_encode me cs))) = length (mf_file mf) + k" using assms(5) by simp
  with replay_header [OF s] replay_torn [OF assms(4,5)] assms(3) show ?thesis
    by (simp add: manifest_open_def)
qed

theorem torn_record_replay_witness:
  "manifest_open demo_me 5 False (Some (mf_file demo_mf0 @ take 7 (frame demo_me (me_encode demo_me [new_delete 1])))) = Inr demo_mf0 \<and>
   manifest_open demo_me 5 False (Some (mf_file demo_mf0 @ take 9 (frame demo_me (me_encode demo_me [new_delete 1])))) =
     Inl (Anyhow ''buffer len too greater'')"
proof -
  have s: "in_sync demo_me demo_mf0" "mf_ext demo_mf0 = 5" "mf_threshold demo_mf0 = DELETIONS_REWRITE_THRESHOLD"
    using in_sync_new [OF demo_me_laws _ demo_open] by (simp_all add: demo_me_def)
  have l: "length (me_encode demo_me [new_delete 1]) = 28" by (simp add: demo_me_def)
  show ?thesis
    using torn_record_replay [OF demo_me_laws s(1,3), of "[new_delete 1]" 7]
      torn_record_replay [OF demo_me_laws s(1,3), of "[new_delete 1]" 9] by (simp add: l s(2))
qed

lemma unat_level [simp]: "unat (ucast l :: u32) = unat l" for l :: byte
  using unat_bound [of l] by (simp add: unsigned_ucast_eq take_bit_nat_eq_self)

text \<open>A table is recorded in the catalogue only if it is not listed and its level is at most one
  above the levels seen so far. A table two or more levels up, which the first compaction into
  an empty tree makes, panics: one level is pushed where several are missing.\<close>

theorem create_level_gap:
  "fst (apply_manifest_change (new_create i l k c) mi) =
     (if i \<in> dom (catalog mi) then Inl (Anyhow ''MANIFEST invalid, table exists'')
      else if unat l \<le> length (mi_levels mi) then Inr () else Inl Panic)"
  by (auto simp: apply_manifest_change_def change_op_def new_create_def catalog_def Let_def domIff)

text \<open>A change set that is pushed without an error changes the catalogue as the map it stands for: a
  creation adds its table, a deletion removes it, in the order of the set, whether the log is
  continued or rewritten.\<close>

theorem push_refines_catalog:
  assumes "push_changes me cs mf = (Inr (), mf')"
  shows "catalog_steps cs (catalog (mf_info mf)) = Some (catalog (mf_info mf'))"
proof -
  obtain mi where mi: "apply_change_set cs (mf_info mf) = (Inr (), mi)"
    "mf_info mf' = mi \<or> mf_info mf' = mi\<lparr>mi_creations := length (mi_tables mi), mi_deletions := 0\<rparr>"
    by (rule push_changes_apply [OF assms]) auto
  then have "catalog (mf_info mf') = catalog mi" by (auto simp: catalog_def)
  with apply_change_set_catalog [OF mi(1)] show ?thesis by simp
qed

theorem push_refines_catalog_witness:
  "catalog_steps [new_create 1 0 7 Snappy] (\<lambda>_. None) =
     Some (catalog (mf_info (snd (push_changes demo_me [new_create 1 0 7 Snappy] demo_mf0))))"
proof -
  have "fst (push_changes demo_me [new_create 1 0 7 Snappy] demo_mf0) = Inr ()"
    by (simp add: demo_mf0_def push_changes_def apply_manifest_change_def change_op_def new_create_def
      ManifestInfo_default_def Let_def DELETIONS_REWRITE_THRESHOLD_def)
  then have p: "push_changes demo_me [new_create 1 0 7 Snappy] demo_mf0 =
    (Inr (), snd (push_changes demo_me [new_create 1 0 7 Snappy] demo_mf0))" by (metis prod.collapse)
  have "catalog (mf_info demo_mf0) = (\<lambda>_. None)" by (simp add: catalog_def demo_mf0_def ManifestInfo_default_def)
  with push_refines_catalog [OF p] show ?thesis by simp
qed

end
