(* ===== verification/Level.thy ===== *)
theory Level
  imports Table Manifest
begin

text \<open>
  The tables of one level (\<open>src/src/level/level_handler.rs\<close>) and the read through the levels
  (\<open>src/src/level/read.rs\<close>). A level is a byte, its handler a record whose fields are what the
  lock protects; a read or write section is one step. The vectors sort with the stable
  sort of the standard library. Subtractions of \<open>usize\<close> and \<open>u32\<close> that leave their type
  panic. The environment and the laws of tables are those of \<open>Table\<close>.
\<close>

section \<open>Level handlers\<close>

type_synonym level = byte

definition LEVEL0 :: level where "LEVEL0 = 0"

record level_handler =
  lh_level :: level
  lh_tables :: "table list"
  lh_total_size :: nat
  lh_total_stale_size :: u32

abbreviation table_stale_size :: "table \<Rightarrow> u32" where
  "table_stale_size t \<equiv> ci_stale_data_size (tl_cheap_index t)"

abbreviation table_max_version :: "table \<Rightarrow> u64" where
  "table_max_version t \<equiv> ci_max_version (tl_cheap_index t)"

definition LevelHandler_new :: "level \<Rightarrow> level_handler" where
  "LevelHandler_new l = \<lparr>lh_level = l, lh_tables = [], lh_total_size = 0, lh_total_stale_size = 0\<rparr>"

text \<open>The stale size is assigned, not added up: the last table's stays.\<close>

definition init_tables :: "table list \<Rightarrow> level_handler \<Rightarrow> level_handler" where
  "init_tables tables lh =
     lh\<lparr>lh_tables := (if lh_level lh = LEVEL0 then sort_key tl_table_id tables else sort_key tl_smallest tables),
        lh_total_size := fold (\<lambda>t n. n + tl_table_size t) tables 0,
        lh_total_stale_size := fold (\<lambda>t _. table_stale_size t) tables 0\<rparr>"

definition replace_tables :: "table list \<Rightarrow> table list \<Rightarrow> level_handler \<Rightarrow> level_handler outcome" where
  "replace_tables old_tables new_tables lh =
     (let to_del = tl_table_id ` set old_tables in
      and_then (sub_usize (length (lh_tables lh)) (card to_del)) (\<lambda>_.
      Inr (init_tables (filter (\<lambda>t. tl_table_id t \<notin> to_del) (lh_tables lh) @ new_tables) lh)))"

fun sum_checked :: "u32 \<Rightarrow> table list \<Rightarrow> u32 outcome" where
  "sum_checked acc [] = Inr acc"
| "sum_checked acc (t # ts) = and_then (add_checked acc (table_stale_size t)) (\<lambda>acc. sum_checked acc ts)"

definition delete_tables :: "table list \<Rightarrow> level_handler \<Rightarrow> level_handler outcome" where
  "delete_tables del_tables lh =
     (let to_del = tl_table_id ` set del_tables;
          gone = filter (\<lambda>t. tl_table_id t \<in> to_del) (lh_tables lh)
      in and_then (sub_usize (length (lh_tables lh)) (card to_del)) (\<lambda>_.
         and_then (sum_checked 0 gone) (\<lambda>sub_total_stale_size.
         and_then (sub_usize (lh_total_size lh) (sum_list (map tl_table_size gone))) (\<lambda>total_size.
         and_then (sub_checked (lh_total_stale_size lh) sub_total_stale_size) (\<lambda>total_stale_size.
         Inr (lh\<lparr>lh_tables := filter (\<lambda>t. tl_table_id t \<notin> to_del) (lh_tables lh),
                 lh_total_size := total_size, lh_total_stale_size := total_stale_size\<rparr>))))))"

fun validate_pairs :: "table list \<Rightarrow> unit outcome" where
  "validate_pairs (prev # now # ts) =
     (if tl_smallest now \<le> tl_biggest prev then Inl (Anyhow ''Inter'')
      else if tl_biggest now < tl_smallest now then Inl (Anyhow ''Intra'')
      else validate_pairs (now # ts))"
| "validate_pairs _ = Inr ()"

definition validate_level :: "level_handler \<Rightarrow> unit outcome" where
  "validate_level lh = (if lh_level lh = LEVEL0 then Inr () else validate_pairs (lh_tables lh))"

section \<open>Reading a level\<close>

definition get_table_for_key :: "level_handler \<Rightarrow> key_ts \<Rightarrow> table list option outcome" where
  "get_table_for_key lh key_ts =
     (if lh_level lh = LEVEL0 then Inr (Some (rev (lh_tables lh)))
      else
        case binary_search_by (\<lambda>t. KeyTs_cmp (tl_biggest t) key_ts) (lh_tables lh) of
          Inl _ \<Rightarrow> Inl Panic
        | Inr table_index \<Rightarrow>
            if table_index \<ge> length (lh_tables lh) then Inr None
            else and_then (index (lh_tables lh) table_index) (\<lambda>t. Inr (Some [t])))"

definition level_table_seek :: "table_env \<Rightarrow> key_ts \<Rightarrow> table \<Rightarrow> (u64 \<times> value_meta) option outcome" where
  "level_table_seek te key_ts t =
     (let k = KeyTs_serialize key_ts in
      and_then (table_seek te k (table_iter_new t)) (\<lambda>(found, it).
      if found then
        case tt_block_iter it of
          None \<Rightarrow> Inr None
        | Some b \<Rightarrow>
            (case block_key b of
               None \<Rightarrow> Inr None
             | Some key \<Rightarrow>
                 if KeyTsBorrow_equal_key k key
                 then and_then (block_value (te_enc te) (te_dec te) b) (\<lambda>v. Inr (map_option (Pair (KeyTsBorrow_txn_ts key)) v))
                 else Inr None)
      else Inr None))"

text \<open>First all filters are asked, then the tables they admit are searched.\<close>

fun candidates :: "table_env \<Rightarrow> key_ts \<Rightarrow> table list \<Rightarrow> table list outcome" where
  "candidates te key_ts [] = Inr []"
| "candidates te key_ts (t # ts) =
     and_then (may_contain_key_table te t key_ts) (\<lambda>may.
     and_then (candidates te key_ts ts) (\<lambda>cs. Inr (if may then t # cs else cs)))"

fun seek_all :: "table_env \<Rightarrow> key_ts \<Rightarrow> table list \<Rightarrow> u64 \<times> value_meta option \<Rightarrow> (u64 \<times> value_meta option) outcome" where
  "seek_all te key_ts [] best = Inr best"
| "seek_all te key_ts (t # ts) best =
     and_then (level_table_seek te key_ts t) (\<lambda>r.
     seek_all te key_ts ts (case r of Some (txn, v) \<Rightarrow> if txn > fst best then (txn, Some v) else best | None \<Rightarrow> best))"

definition level_get :: "table_env \<Rightarrow> level_handler \<Rightarrow> key_ts \<Rightarrow> (u64 \<times> value_meta) option outcome" where
  "level_get te lh key_ts =
     and_then (get_table_for_key lh key_ts) (\<lambda>tables.
     case tables of
       None \<Rightarrow> Inr None
     | Some tables \<Rightarrow>
         and_then (candidates te key_ts tables) (\<lambda>handles.
         and_then (seek_all te key_ts handles (0, None)) (\<lambda>(max_txn, max_value).
         case max_value of
           Some v \<Rightarrow> if max_txn \<noteq> 0 \<and> \<not> meta_is_empty (vm_meta v) then Inr (Some (max_txn, v)) else Inr None
         | None \<Rightarrow> Inr None)))"

fun levels_scan :: "table_env \<Rightarrow> level_handler list \<Rightarrow> key_ts \<Rightarrow> u64 \<times> value_meta option \<Rightarrow> (u64 \<times> value_meta) option outcome" where
  "levels_scan te [] key_ts (max_txn, max_value) =
     (case max_value of Some v \<Rightarrow> if max_txn \<noteq> 0 then Inr (Some (max_txn, v)) else Inr None | None \<Rightarrow> Inr None)"
| "levels_scan te (lh # lhs) key_ts best =
     and_then (level_get te lh key_ts) (\<lambda>r.
     case r of
       Some (txn, v) \<Rightarrow>
         if txn = kt_txn_ts key_ts then Inr (Some (txn, v))
         else levels_scan te lhs key_ts (if txn > fst best then (txn, Some v) else best)
     | None \<Rightarrow> levels_scan te lhs key_ts best)"

definition levels_get :: "table_env \<Rightarrow> level_handler list \<Rightarrow> nat \<Rightarrow> key_ts \<Rightarrow> (u64 \<times> value_meta) option outcome" where
  "levels_get te levels start_level key_ts =
     (if start_level \<le> length levels then levels_scan te (drop start_level levels) key_ts (0, None) else Inl Panic)"

section \<open>The tables of a level in order\<close>

text \<open>What \<open>validate\<close> accepts on a deeper level: tables in ascending, disjoint key ranges.\<close>

definition level_sorted :: "table list \<Rightarrow> bool" where
  "level_sorted ts \<longleftrightarrow> (\<forall>t \<in> set ts. tl_smallest t \<le> tl_biggest t) \<and> sorted_wrt (\<lambda>a b. tl_biggest a < tl_smallest b) ts"

lemma level_sorted_nth:
  assumes "level_sorted ts" "i < j" "j < length ts"
  shows "tl_biggest (ts ! i) < tl_smallest (ts ! j)" "tl_biggest (ts ! i) < tl_biggest (ts ! j)"
    "tl_smallest (ts ! i) < tl_smallest (ts ! j)"
proof -
  have le: "tl_smallest (ts ! i) \<le> tl_biggest (ts ! i)" "tl_smallest (ts ! j) \<le> tl_biggest (ts ! j)"
    using assms by (auto simp: level_sorted_def)
  show less: "tl_biggest (ts ! i) < tl_smallest (ts ! j)"
    using assms by (simp add: level_sorted_def sorted_wrt_iff_nth_less)
  with le show "tl_biggest (ts ! i) < tl_biggest (ts ! j)" "tl_smallest (ts ! i) < tl_smallest (ts ! j)" by auto
qed

lemma level_sorted_validates:
  assumes "level_sorted ts" shows "validate_pairs ts = Inr ()"
  using assms
proof (induction ts rule: validate_pairs.induct)
  case (1 prev now ts)
  then have "level_sorted (now # ts)" "\<not> tl_smallest now \<le> tl_biggest prev" "\<not> tl_biggest now < tl_smallest now"
    by (auto simp: level_sorted_def)
  with 1 show ?case by simp
qed simp_all

lemma validates_level_sorted:
  "validate_pairs (t # ts) = Inr () \<Longrightarrow> tl_smallest t \<le> tl_biggest t \<Longrightarrow> level_sorted (t # ts)"
proof (induction ts arbitrary: t)
  case (Cons u us)
  then have u: "tl_biggest t < tl_smallest u" "tl_smallest u \<le> tl_biggest u" "validate_pairs (u # us) = Inr ()"
    by (auto split: if_splits)
  note ih = Cons.IH [OF u(3,2)]
  have "tl_biggest t < tl_smallest x" if "x \<in> set us" for x
    using that u ih by (auto simp: level_sorted_def intro: less_trans less_le_trans)
  with u ih Cons.prems(2) show ?case by (auto simp: level_sorted_def)
qed (simp add: level_sorted_def)

text \<open>Searching a sorted level by the biggest or the smallest key of its tables.\<close>

lemma level_partitioned:
  assumes "level_sorted ts"
  shows "partitioned (\<lambda>i. KeyTs_cmp (tl_biggest (ts ! i)) k) (length ts)" "partitioned (\<lambda>i. KeyTs_cmp (tl_smallest (ts ! i)) k) (length ts)"
  unfolding partitioned_def KeyTs_cmp_compare compare_iff
  using level_sorted_nth(2,3) [OF assms] by (meson less_trans)+

lemma get_table_exact:
  assumes "level_sorted (lh_tables lh)" "lh_level lh \<noteq> LEVEL0"
  shows "get_table_for_key lh k =
    (case find (\<lambda>t. tl_biggest t = k) (lh_tables lh) of Some t \<Rightarrow> Inr (Some [t]) | None \<Rightarrow> Inl Panic)"
proof -
  let ?ts = "lh_tables lh"
  note spec = binary_search_by_spec [OF level_partitioned(1) [OF assms(1), of k]]
  show ?thesis
  proof (cases "binary_search_by (\<lambda>t. KeyTs_cmp (tl_biggest t) k) ?ts")
    case (Inl i)
    with spec have "tl_biggest (?ts ! j) < k \<or> k < tl_biggest (?ts ! j)" if "j < length ?ts" for j
      using that by (cases "j < i") (auto simp: KeyTs_cmp_compare not_less)
    then have "tl_biggest (?ts ! j) \<noteq> k" if "j < length ?ts" for j using that by blast
    then have "find (\<lambda>t. tl_biggest t = k) ?ts = None" by (auto simp: find_None_iff in_set_conv_nth)
    with Inl assms(2) show ?thesis by (simp add: get_table_for_key_def)
  next
    case (Inr i)
    with spec have i: "i < length ?ts" "tl_biggest (?ts ! i) = k" by (auto simp: KeyTs_cmp_compare)
    have "\<forall>j < i. tl_biggest (?ts ! j) \<noteq> k" using level_sorted_nth(2) [OF assms(1)] i by fastforce
    then have "find (\<lambda>t. tl_biggest t = k) ?ts = Some (?ts ! i)" using i by (auto simp: find_Some_iff)
    with Inr i assms(2) show ?thesis by (simp add: get_table_for_key_def index_def)
  qed
qed

section \<open>Reads through the levels\<close>

lemma level_get_some:
  assumes "level_get te lh k = Inr (Some (txn, v))"
  shows "txn \<noteq> 0" "\<not> meta_is_empty (vm_meta v)"
  using assms by (auto simp: level_get_def and_then_Inr split: option.splits if_splits prod.splits)

lemma levels_scan_sound:
  "levels_scan te lhs k best = Inr (Some (txn, v)) \<Longrightarrow>
   (best = (txn, Some v) \<and> txn \<noteq> 0 \<or> (\<exists>lh \<in> set lhs. level_get te lh k = Inr (Some (txn, v)))) \<and>
   (txn = kt_txn_ts k \<or> fst best \<le> txn \<and> (\<forall>lh \<in> set lhs. \<forall>t w. level_get te lh k = Inr (Some (t, w)) \<longrightarrow> t \<le> txn))"
proof (induction te lhs k best rule: levels_scan.induct)
  case (1 te k max_txn max_value)
  then show ?case by (auto split: option.splits if_splits)
next
  case (2 te lh lhs k best)
  obtain r where r: "level_get te lh k = Inr r" using "2.prems" by (auto simp: and_then_Inr)
  show ?case
  proof (cases r)
    case None
    with "2.IH"(1) [OF r None] "2.prems" r show ?thesis by auto
  next
    case (Some p)
    obtain t w where p: "p = (t, w)" by (cases p)
    show ?thesis
    proof (cases "t = kt_txn_ts k")
      case True
      with "2.prems" r Some p show ?thesis by auto
    next
      case False
      let ?best = "if t > fst best then (t, Some w) else best"
      have "levels_scan te lhs k ?best = Inr (Some (txn, v))" using "2.prems" r Some p False by simp
      note ih = "2.IH"(2) [OF r Some p [symmetric] False this]
      have "t \<le> fst ?best" "fst best \<le> fst ?best" by auto
      with ih r Some p show ?thesis by (auto split: if_splits)
    qed
  qed
qed

text \<open>What a read through the levels returns was returned by one of them, has a version and
  metadata, and is the newest any level returns unless it is the version asked for.\<close>

lemma levels_get_sound:
  assumes "levels_get te levels 0 k = Inr (Some (txn, v))"
  shows "(\<exists>lh \<in> set levels. level_get te lh k = Inr (Some (txn, v))) \<and> txn \<noteq> 0 \<and> \<not> meta_is_empty (vm_meta v) \<and>
    (txn = kt_txn_ts k \<or> (\<forall>lh \<in> set levels. \<forall>t w. level_get te lh k = Inr (Some (t, w)) \<longrightarrow> t \<le> txn))"
proof -
  have "levels_scan te levels k (0, None) = Inr (Some (txn, v))" using assms by (simp add: levels_get_def)
  from levels_scan_sound [OF this] show ?thesis by (auto dest: level_get_some)
qed

section \<open>Counting sizes\<close>

lemma fold_sum_sizes: "fold (\<lambda>t n. n + tl_table_size t) ts n = n + sum_list (map tl_table_size ts)"
  by (induction ts arbitrary: n) auto

lemma fold_last_stale: "fold (\<lambda>t _. table_stale_size t) (ts @ [t]) n = table_stale_size t"
  by simp

lemma init_tables_facts:
  "mset (lh_tables (init_tables ts lh)) = mset ts" "lh_level (init_tables ts lh) = lh_level lh"
  "lh_total_size (init_tables ts lh) = sum_list (map tl_table_size ts)"
  by (simp_all add: init_tables_def fold_sum_sizes)

text \<open>The total size of a level is the sum over its tables after every operation on it.\<close>

definition size_ok :: "level_handler \<Rightarrow> bool" where
  "size_ok lh \<longleftrightarrow> lh_total_size lh = sum_list (map tl_table_size (lh_tables lh))"

lemma sum_list_mset: "mset xs = mset ys \<Longrightarrow> sum_list (map f xs) = sum_list (map f ys)" for f :: "'a \<Rightarrow> nat"
  by (metis mset_map sum_mset_sum_list)

lemma sum_list_filter_split:
  "sum_list (map f xs) = sum_list (map f (filter P xs)) + sum_list (map f (filter (\<lambda>x. \<not> P x) xs))" for f :: "'a \<Rightarrow> nat"
  by (induction xs) auto

lemma init_tables_size_ok: "size_ok (init_tables ts lh)"
  using sum_list_mset [OF init_tables_facts(1)] by (simp add: size_ok_def init_tables_facts(3))

lemma replace_tables_size_ok: "replace_tables old_tables new_tables lh = Inr lh' \<Longrightarrow> size_ok lh'"
  by (auto simp: replace_tables_def Let_def and_then_Inr init_tables_size_ok)

lemma delete_tables_size_ok:
  assumes "size_ok lh" "delete_tables del_tables lh = Inr lh'" shows "size_ok lh'"
  using assms sum_list_filter_split [of tl_table_size "lh_tables lh" "\<lambda>t. tl_table_id t \<in> tl_table_id ` set del_tables"]
  by (auto simp: delete_tables_def Let_def and_then_Inr size_ok_def sub_usize_def split: if_splits)

lemma filter_one:
  assumes "distinct (map f xs)" "x \<in> set xs" shows "filter (\<lambda>y. f y = f x) xs = [x]"
  using assms
proof (induction xs)
  case (Cons y ys)
  show ?case
  proof (cases "x = y")
    case True
    with Cons.prems show ?thesis by (auto simp: filter_empty_conv) (metis imageI)
  next
    case False
    with Cons show ?thesis by auto
  qed
qed simp

text \<open>A table with given number, bounds and amount of stale data, for concrete levels.\<close>

definition demo_level_table :: "u32 \<Rightarrow> key_ts \<Rightarrow> key_ts \<Rightarrow> u32 \<Rightarrow> table" where
  "demo_level_table i smallest biggest stale =
     \<lparr>tl_table_id = i, tl_mmap_f = fst (MmapFile_open 4096 [] 0), tl_table_size = 100, tl_smallest = smallest, tl_biggest = biggest,
      tl_cheap_index = \<lparr>ci_max_version = 1, ci_key_count = 1, ci_uncompressed_size = 100, ci_on_disk_size = 100,
        ci_stale_data_size = stale, ci_offsets_len = 1, ci_bloom_filter_len = 0\<rparr>,
      tl_cipher = None, tl_index_start = 0, tl_index_len = 0, tl_config = demo_tc\<rparr>"

section \<open>Properties\<close>

text \<open>On a level below the first a read only looks at a table whose biggest key is the versioned key
  asked for; when there is none, in particular on an empty level, it panics.\<close>

theorem deep_level_read_panics:
  assumes "level_sorted (lh_tables lh)" "lh_level lh \<noteq> LEVEL0" "\<forall>t \<in> set (lh_tables lh). tl_biggest t \<noteq> k"
  shows "level_get te lh k = Inl Panic"
proof -
  have "find (\<lambda>t. tl_biggest t = k) (lh_tables lh) = None" using assms(3) by (auto simp: find_None_iff)
  with get_table_exact [OF assms(1,2), of k] show ?thesis by (simp add: level_get_def)
qed

theorem deep_level_read_panics_witness: "level_get demo_te (LevelHandler_new 1) (KeyTs [97] 3) = Inl Panic"
  by (rule deep_level_read_panics) (simp_all add: LevelHandler_new_def level_sorted_def LEVEL0_def)

text \<open>The stale size of a level is that of the last table it was initialised with, so deleting a table
  with more stale data than that one underflows and panics.\<close>

theorem stale_size_underflows:
  assumes "distinct (map tl_table_id (ts @ [t]))" "d \<in> set ts" "table_stale_size t < table_stale_size d"
  shows "delete_tables [d] (init_tables (ts @ [t]) (LevelHandler_new l)) = Inl Panic"
proof -
  define lh where "lh = init_tables (ts @ [t]) (LevelHandler_new l)"
  have m: "mset (lh_tables lh) = mset (ts @ [t])" unfolding lh_def by (rule init_tables_facts)
  then have "mset (map tl_table_id (lh_tables lh)) = mset (map tl_table_id (ts @ [t]))" by (metis mset_map)
  then have "distinct (map tl_table_id (lh_tables lh))" using assms(1) by (metis mset_eq_imp_distinct_iff)
  moreover have "d \<in> set (lh_tables lh)" using assms(2) m by (metis Un_iff set_append set_mset_mset)
  ultimately have one: "filter (\<lambda>x. tl_table_id x = tl_table_id d) (lh_tables lh) = [d]" by (rule filter_one)
  have st: "lh_total_stale_size lh = table_stale_size t" by (simp add: lh_def init_tables_def)
  have "sum_checked 0 [d] = Inr (table_stale_size d)" by (simp add: add_checked_def)
  with one st assms(3) have "delete_tables [d] lh = Inl Panic"
    by (auto simp: delete_tables_def Let_def sub_usize_def sub_checked_def)
  then show ?thesis by (simp add: lh_def)
qed

theorem stale_size_underflows_witness:
  "delete_tables [demo_level_table 1 (KeyTs [97] 1) (KeyTs [98] 1) 5]
     (init_tables ([demo_level_table 1 (KeyTs [97] 1) (KeyTs [98] 1) 5] @ [demo_level_table 2 (KeyTs [99] 1) (KeyTs [100] 1) 0])
        (LevelHandler_new 1)) = Inl Panic"
  by (rule stale_size_underflows) (simp_all add: demo_level_table_def)

end
