(* ===== verification/Compaction.thy ===== *)
theory Compaction
  imports Level
begin

text \<open>
  What compactions agree on (first half of the data in \<open>src/src/level/compaction.rs\<close>): ranges of
  versioned keys, the tables of a level that meet a range, and the record of the
  ranges and tables that running compactions hold. The status of the levels is one record,
  changed under its lock in one step.
\<close>

section \<open>Ranges of keys\<close>

record key_ts_range =
  kr_left :: key_ts
  kr_right :: key_ts
  kr_inf :: bool

definition KeyTsRange_default :: key_ts_range where
  "KeyTsRange_default = \<lparr>kr_left = KeyTs_default, kr_right = KeyTs_default, kr_inf = False\<rparr>"

definition inf_default :: key_ts_range where
  "inf_default = \<lparr>kr_left = KeyTs_default, kr_right = KeyTs_default, kr_inf = True\<rparr>"

definition KeyTsRange_from_tables :: "table list \<Rightarrow> key_ts_range" where
  "KeyTsRange_from_tables ts =
     (case ts of
        [] \<Rightarrow> KeyTsRange_default
      | t # ts \<Rightarrow>
          let smallest = fold (\<lambda>t k. min k (tl_smallest t)) ts (tl_smallest t);
              biggest = fold (\<lambda>t k. max k (tl_biggest t)) ts (tl_biggest t)
          in \<lparr>kr_left = KeyTs (kt_key smallest) (- 1), kr_right = KeyTs (kt_key biggest) 0, kr_inf = False\<rparr>)"

definition KeyTsRange_from_table :: "table \<Rightarrow> key_ts_range" where
  "KeyTsRange_from_table t =
     \<lparr>kr_left = KeyTs (kt_key (tl_smallest t)) (- 1), kr_right = KeyTs (kt_key (tl_biggest t)) 0, kr_inf = False\<rparr>"

definition range_is_empty :: "key_ts_range \<Rightarrow> bool" where
  "range_is_empty r \<longleftrightarrow> KeyTs_is_empty (kr_left r) \<and> KeyTs_is_empty (kr_right r) \<and> \<not> kr_inf r"

definition is_overlaps_with :: "key_ts_range \<Rightarrow> key_ts_range \<Rightarrow> bool" where
  "is_overlaps_with r target =
     (if range_is_empty r then True
      else if range_is_empty target then False
      else if kr_inf r \<or> kr_inf target then True
      else if kr_right target < kr_left r \<or> kr_right r < kr_left target then False
      else True)"

definition range_extend :: "key_ts_range \<Rightarrow> key_ts_range \<Rightarrow> key_ts_range" where
  "range_extend r other =
     (if range_is_empty other then r
      else if range_is_empty r then other
      else
        let r = (if KeyTs_is_empty (kr_left r) \<or> kr_left other < kr_left r then r\<lparr>kr_left := kr_left other\<rparr> else r);
            r = (if KeyTs_is_empty (kr_right r) \<or> kr_right r < kr_right other then r\<lparr>kr_right := kr_right other\<rparr> else r)
        in if kr_inf other then r\<lparr>kr_inf := True\<rparr> else r)"

text \<open>The half-open interval of positions of the tables that meet a range.\<close>

definition overlap_tables :: "table list \<Rightarrow> key_ts_range \<Rightarrow> nat \<times> nat" where
  "overlap_tables ts r =
     (if KeyTs_is_empty (kr_left r) \<or> KeyTs_is_empty (kr_right r) then (0, 0)
      else
        (case binary_search_by (\<lambda>t. KeyTs_cmp (tl_biggest t) (kr_left r)) ts of Inr i \<Rightarrow> i | Inl i \<Rightarrow> i,
         case binary_search_by (\<lambda>t. KeyTs_cmp (tl_smallest t) (kr_right r)) ts of Inr i \<Rightarrow> i + 1 | Inl i \<Rightarrow> i))"

section \<open>The status of compactions\<close>

record level_compact_status =
  ls_ranges :: "key_ts_range list"
  ls_del_size :: int

definition LevelCompactStatus_default :: level_compact_status where
  "LevelCompactStatus_default = \<lparr>ls_ranges = [], ls_del_size = 0\<rparr>"

record compact_status =
  cs_levels :: "level_compact_status list"
  cs_tables :: "u32 set"

definition level_overlaps_with :: "level_compact_status \<Rightarrow> key_ts_range \<Rightarrow> bool" where
  "level_overlaps_with ls target \<longleftrightarrow> list_ex (\<lambda>r. is_overlaps_with r target) (ls_ranges ls)"

definition status_overlaps_with :: "compact_status \<Rightarrow> level \<Rightarrow> key_ts_range \<Rightarrow> bool outcome" where
  "status_overlaps_with cs l target = and_then (index (cs_levels cs) (unat l)) (\<lambda>ls. Inr (level_overlaps_with ls target))"

definition status_push :: "level \<Rightarrow> key_ts_range \<Rightarrow> compact_status \<Rightarrow> compact_status outcome" where
  "status_push l r cs =
     and_then (index (cs_levels cs) (unat l)) (\<lambda>ls.
     Inr (cs\<lparr>cs_levels := (cs_levels cs)[unat l := ls\<lparr>ls_ranges := ls_ranges ls @ [r]\<rparr>]\<rparr>))"

text \<open>
  \<open>try_update\<close> with the parts of a plan it looks at: both levels with their ranges, and the
  tables of the plan.
\<close>

definition try_update ::
  "level \<Rightarrow> key_ts_range \<Rightarrow> level \<Rightarrow> key_ts_range \<Rightarrow> table list \<Rightarrow> table list \<Rightarrow> compact_status \<Rightarrow> (bool \<times> compact_status) outcome" where
  "try_update this_level this_range next_level next_range top_tables bottom_tables cs =
     and_then (status_overlaps_with cs this_level this_range) (\<lambda>a.
     if a then Inr (False, cs)
     else and_then (status_overlaps_with cs next_level next_range) (\<lambda>b.
       if b then Inr (False, cs)
       else and_then (status_push this_level this_range cs) (\<lambda>cs.
            and_then (status_push next_level next_range cs) (\<lambda>cs.
            Inr (True, cs\<lparr>cs_tables := cs_tables cs \<union> tl_table_id ` set top_tables \<union> tl_table_id ` set bottom_tables\<rparr>)))))"

section \<open>Ranges as intervals\<close>

text \<open>A range with both ends, as every range made from tables is.\<close>

definition proper :: "key_ts_range \<Rightarrow> bool" where
  "proper r \<longleftrightarrow> \<not> KeyTs_is_empty (kr_left r) \<and> \<not> KeyTs_is_empty (kr_right r) \<and> \<not> kr_inf r \<and> kr_left r \<le> kr_right r"

definition in_range :: "key_ts \<Rightarrow> key_ts_range \<Rightarrow> bool" where
  "in_range k r \<longleftrightarrow> kr_inf r \<or> kr_left r \<le> k \<and> k \<le> kr_right r"

lemma overlaps_proper:
  assumes "proper r" "proper q"
  shows "is_overlaps_with r q \<longleftrightarrow> (\<exists>k. in_range k r \<and> in_range k q)"
proof -
  have "\<not> range_is_empty r" "\<not> range_is_empty q" using assms by (auto simp: proper_def range_is_empty_def)
  then have "is_overlaps_with r q \<longleftrightarrow> kr_left r \<le> kr_right q \<and> kr_left q \<le> kr_right r"
    using assms by (auto simp: is_overlaps_with_def proper_def)
  also have "\<dots> \<longleftrightarrow> (\<exists>k. in_range k r \<and> in_range k q)"
    using assms by (auto simp: in_range_def proper_def intro: exI [of _ "max (kr_left r) (kr_left q)"])
  finally show ?thesis .
qed

lemma version_bounds: "KeyTs (kt_key k) (- 1) \<le> k" "k \<le> KeyTs (kt_key k) 0"
  by (simp_all add: less_eq_key_ts_iff word_order.extremum)

lemma key_range_mono: "a \<le> b \<Longrightarrow> KeyTs (kt_key a) (- 1) \<le> KeyTs (kt_key b) (- 1)" "a \<le> b \<Longrightarrow> KeyTs (kt_key a) 0 \<le> KeyTs (kt_key b) 0"
  by (auto simp: less_eq_key_ts_iff)

lemma from_table_in_range: "tl_smallest t \<le> k \<Longrightarrow> k \<le> tl_biggest t \<Longrightarrow> in_range k (KeyTsRange_from_table t)"
  using version_bounds [of "tl_smallest t"] version_bounds [of "tl_biggest t"]
  by (auto simp: in_range_def KeyTsRange_from_table_def intro: order_trans)

lemma fold_min_start: "fold (\<lambda>t k. min k (f t)) ts k \<le> k" for k :: key_ts
proof (induction ts arbitrary: k)
  case (Cons t ts)
  show ?case using Cons [of "min k (f t)"] by (auto intro: order_trans)
qed simp

lemma fold_max_start: "k \<le> fold (\<lambda>t k. max k (f t)) ts k" for k :: key_ts
proof (induction ts arbitrary: k)
  case (Cons t ts)
  show ?case using Cons [of "max k (f t)"] by (auto intro: order_trans)
qed simp

lemma fold_min_le: "t \<in> set ts \<Longrightarrow> fold (\<lambda>t k. min k (f t)) ts k \<le> f t" for k :: key_ts
proof (induction ts arbitrary: k)
  case (Cons u us)
  show ?case using Cons fold_min_start [of f us "min k (f u)"] by (cases "t = u") (auto intro: order_trans)
qed simp

lemma fold_max_ge: "t \<in> set ts \<Longrightarrow> f t \<le> fold (\<lambda>t k. max k (f t)) ts k" for k :: key_ts
proof (induction ts arbitrary: k)
  case (Cons u us)
  show ?case using Cons fold_max_start [of "max k (f u)" f us] by (cases "t = u") (auto intro: order_trans)
qed simp

lemma from_tables_in_range:
  assumes "t \<in> set ts" "tl_smallest t \<le> k" "k \<le> tl_biggest t"
  shows "in_range k (KeyTsRange_from_tables ts)"
proof -
  obtain u us where ts: "ts = u # us" using assms(1) by (cases ts) auto
  let ?s = "fold (\<lambda>t k. min k (tl_smallest t)) us (tl_smallest u)" and ?b = "fold (\<lambda>t k. max k (tl_biggest t)) us (tl_biggest u)"
  have "?s \<le> tl_smallest t" "tl_biggest t \<le> ?b"
    using assms(1) ts fold_min_start fold_max_start fold_min_le fold_max_ge by auto
  with assms(2,3) have "?s \<le> k" "k \<le> ?b" by auto
  then show ?thesis
    using version_bounds(1) [of ?s] version_bounds(2) [of ?b]
    by (auto simp: in_range_def KeyTsRange_from_tables_def ts Let_def intro: order_trans)
qed

lemma proper_from_key: "k \<le> l \<Longrightarrow> kt_key k \<noteq> [] \<Longrightarrow> kt_key l \<noteq> [] \<Longrightarrow>
    proper \<lparr>kr_left = KeyTs (kt_key k) (- 1), kr_right = KeyTs (kt_key l) 0, kr_inf = False\<rparr>"
  using version_bounds(1) [of k] version_bounds(2) [of l] by (auto simp: proper_def KeyTs_is_empty_iff)

text \<open>A table with keys: its bounds are in order and not the empty key.\<close>

definition keyed :: "table \<Rightarrow> bool" where
  "keyed t \<longleftrightarrow> tl_smallest t \<le> tl_biggest t \<and> kt_key (tl_smallest t) \<noteq> []"

lemma key_le_nonempty: "k \<le> l \<Longrightarrow> kt_key k \<noteq> [] \<Longrightarrow> kt_key l \<noteq> []"
  by (auto simp: less_eq_key_ts_iff)

lemma proper_from_table: "keyed t \<Longrightarrow> proper (KeyTsRange_from_table t)"
  using proper_from_key key_le_nonempty by (auto simp: keyed_def KeyTsRange_from_table_def)

lemma fold_min_mem: "fold (\<lambda>t k. min k (f t)) ts k \<in> insert k (f ` set ts)" for k :: key_ts
proof (induction ts arbitrary: k)
  case (Cons t ts)
  show ?case using Cons [of "min k (f t)"] by (auto simp: min_def split: if_splits)
qed simp

lemma proper_from_tables:
  assumes "ts \<noteq> []" "\<forall>t \<in> set ts. keyed t" shows "proper (KeyTsRange_from_tables ts)"
proof -
  obtain u us where ts: "ts = u # us" using assms(1) by (cases ts) auto
  let ?s = "fold (\<lambda>t k. min k (tl_smallest t)) us (tl_smallest u)" and ?b = "fold (\<lambda>t k. max k (tl_biggest t)) us (tl_biggest u)"
  have "?s \<in> insert (tl_smallest u) (tl_smallest ` set us)" by (rule fold_min_mem)
  then have "kt_key ?s \<noteq> []" using assms(2) ts by (auto simp: keyed_def)
  moreover have "?s \<le> ?b"
    using fold_min_start [of tl_smallest us "tl_smallest u"] fold_max_start [of "tl_biggest u" tl_biggest us] assms(2) ts
    by (auto simp: keyed_def intro: order_trans)
  ultimately show ?thesis
    using proper_from_key [of ?s ?b] key_le_nonempty by (auto simp: KeyTsRange_from_tables_def ts Let_def)
qed

lemma extend_proper:
  assumes "proper r" "proper q"
  shows "range_extend r q = \<lparr>kr_left = min (kr_left r) (kr_left q), kr_right = max (kr_right r) (kr_right q), kr_inf = False\<rparr>"
    "proper (range_extend r q)"
proof -
  show e: "range_extend r q = \<lparr>kr_left = min (kr_left r) (kr_left q), kr_right = max (kr_right r) (kr_right q), kr_inf = False\<rparr>"
    using assms by (auto simp: range_extend_def proper_def range_is_empty_def Let_def min_def max_def not_less less_imp_le
        intro: key_ts_range.equality)
  show "proper (range_extend r q)" unfolding e using assms by (auto simp: proper_def min_def max_def)
qed

section \<open>The tables that meet a range\<close>

lemma filter_interval:
  assumes "\<And>i. i < length xs \<Longrightarrow> P (xs ! i) \<longleftrightarrow> l \<le> i \<and> i < u" "l \<le> u" "u \<le> length xs"
  shows "filter P xs = take (u - l) (drop l xs)"
proof -
  have "xs = take l xs @ take (u - l) (drop l xs) @ drop u xs"
    using assms(2) by (metis append_take_drop_id drop_drop le_add_diff_inverse2)
  moreover have "filter P (take l xs) = []" "filter P (drop u xs) = []"
    using assms by (auto simp: filter_empty_conv in_set_conv_nth)
  moreover have "filter P (take (u - l) (drop l xs)) = take (u - l) (drop l xs)"
    using assms by (auto simp: filter_id_conv in_set_conv_nth)
  ultimately show ?thesis by (metis append_Nil append_Nil2 filter_append)
qed

text \<open>Where the search ends up in a list that is strictly increasing in \<open>f\<close>.\<close>

lemma search_position:
  fixes f :: "'a \<Rightarrow> 'b::linorder"
  assumes inc: "\<And>i j. i < j \<Longrightarrow> j < length xs \<Longrightarrow> f (xs ! i) < f (xs ! j)"
    and r: "binary_search_by (\<lambda>x. compare (f x) k) xs = r" and i: "i < length xs"
  shows "k \<le> f (xs ! i) \<longleftrightarrow> (case r of Inr j \<Rightarrow> j | Inl j \<Rightarrow> j) \<le> i"
    and "f (xs ! i) \<le> k \<longleftrightarrow> i < (case r of Inr j \<Rightarrow> j + 1 | Inl j \<Rightarrow> j)"
proof -
  have "partitioned (\<lambda>i. compare (f (xs ! i)) k) (length xs)"
    unfolding partitioned_def compare_iff using inc by (meson less_trans)
  note spec = binary_search_by_spec [OF this, unfolded r]
  have "(k \<le> f (xs ! i) \<longleftrightarrow> (case r of Inr j \<Rightarrow> j | Inl j \<Rightarrow> j) \<le> i) \<and>
    (f (xs ! i) \<le> k \<longleftrightarrow> i < (case r of Inr j \<Rightarrow> j + 1 | Inl j \<Rightarrow> j))"
  proof (cases r)
    case (Inl j)
    with spec i have "i < j \<Longrightarrow> f (xs ! i) < k" "\<not> i < j \<Longrightarrow> k < f (xs ! i)" by auto
    with Inl show ?thesis by (cases "i < j") auto
  next
    case (Inr j)
    with spec have j: "j < length xs" "f (xs ! j) = k" by auto
    consider "i < j" | "i = j" | "j < i" by linarith
    then show ?thesis
      using inc [of i j] inc [of j i] i j Inr by cases auto
  qed
  then show "k \<le> f (xs ! i) \<longleftrightarrow> (case r of Inr j \<Rightarrow> j | Inl j \<Rightarrow> j) \<le> i"
    "f (xs ! i) \<le> k \<longleftrightarrow> i < (case r of Inr j \<Rightarrow> j + 1 | Inl j \<Rightarrow> j)" by simp_all
qed

lemma search_bound:
  assumes "partitioned (\<lambda>i. g (xs ! i)) (length xs)"
  shows "(case binary_search_by g xs of Inr j \<Rightarrow> j + 1 | Inl j \<Rightarrow> j) \<le> length xs"
    "(case binary_search_by g xs of Inr j \<Rightarrow> j | Inl j \<Rightarrow> j) \<le> length xs"
  using binary_search_by_spec [OF assms] by (auto split: sum.splits)

text \<open>The tables of a sorted level at the positions found are those that meet the range.\<close>

lemma overlap_tables_filter:
  assumes ts: "level_sorted ts" and r: "proper r" and lu: "overlap_tables ts r = (l, u)"
  shows "l \<le> u" "u \<le> length ts"
    "take (u - l) (drop l ts) = filter (\<lambda>t. kr_left r \<le> tl_biggest t \<and> tl_smallest t \<le> kr_right r) ts"
proof -
  let ?b = "binary_search_by (\<lambda>t. compare (tl_biggest t) (kr_left r)) ts"
  let ?s = "binary_search_by (\<lambda>t. compare (tl_smallest t) (kr_right r)) ts"
  have lu': "l = (case ?b of Inr i \<Rightarrow> i | Inl i \<Rightarrow> i)" "u = (case ?s of Inr i \<Rightarrow> i + 1 | Inl i \<Rightarrow> i)"
    using r lu by (auto simp: overlap_tables_def proper_def KeyTs_cmp_compare)
  have bl: "kr_left r \<le> tl_biggest (ts ! i) \<longleftrightarrow> l \<le> i" if "i < length ts" for i
    unfolding lu' using search_position(1) [where f = tl_biggest and k = "kr_left r", OF level_sorted_nth(2) [OF ts] refl that] by blast
  have su: "tl_smallest (ts ! i) \<le> kr_right r \<longleftrightarrow> i < u" if "i < length ts" for i
    unfolding lu' using search_position(2) [where f = tl_smallest and k = "kr_right r", OF level_sorted_nth(3) [OF ts] refl that] by blast
  show u: "u \<le> length ts"
    unfolding lu' using search_bound(1) [OF level_partitioned(2) [OF ts, of "kr_right r"]] by (simp add: KeyTs_cmp_compare)
  have l: "l \<le> length ts"
    unfolding lu' using search_bound(2) [OF level_partitioned(1) [OF ts, of "kr_left r"]] by (simp add: KeyTs_cmp_compare)
  show le: "l \<le> u"
  proof (rule ccontr)
    assume "\<not> l \<le> u"
    then have i: "u < l" "u < length ts" using l by auto
    then have "tl_biggest (ts ! u) < kr_left r" "kr_right r < tl_smallest (ts ! u)" using bl su by force+
    moreover have "tl_smallest (ts ! u) \<le> tl_biggest (ts ! u)" using ts i(2) by (auto simp: level_sorted_def)
    ultimately show False using r by (auto simp: proper_def)
  qed
  show "take (u - l) (drop l ts) = filter (\<lambda>t. kr_left r \<le> tl_biggest t \<and> tl_smallest t \<le> kr_right r) ts"
    by (rule filter_interval [symmetric]) (use bl su le u in auto)
qed

section \<open>Exclusion\<close>

text \<open>A plan as the status sees it.\<close>

record claim =
  cl_this_level :: level
  cl_this_range :: key_ts_range
  cl_next_level :: level
  cl_next_range :: key_ts_range
  cl_tables :: "table list \<times> table list"

definition try_claim :: "claim \<Rightarrow> compact_status \<Rightarrow> (bool \<times> compact_status) outcome" where
  "try_claim c = try_update (cl_this_level c) (cl_this_range c) (cl_next_level c) (cl_next_range c) (fst (cl_tables c)) (snd (cl_tables c))"

text \<open>The ranges a claim takes on a level.\<close>

definition claimed :: "claim \<Rightarrow> level \<Rightarrow> key_ts_range set" where
  "claimed c l = (if l = cl_this_level c then {cl_this_range c} else {}) \<union> (if l = cl_next_level c then {cl_next_range c} else {})"

definition status_ranges :: "compact_status \<Rightarrow> level \<Rightarrow> key_ts_range set" where
  "status_ranges cs l = (if unat l < length (cs_levels cs) then set (ls_ranges (cs_levels cs ! unat l)) else {})"

lemma status_push_ranges:
  assumes "status_push l r cs = Inr cs'"
  shows "status_ranges cs' m = (if m = l then insert r (status_ranges cs m) else status_ranges cs m)"
    "length (cs_levels cs') = length (cs_levels cs)" "cs_tables cs' = cs_tables cs"
  using assms by (auto simp: status_push_def and_then_Inr index_def status_ranges_def nth_list_update word_unat_eq_iff split: if_splits)

lemma status_overlaps: "status_overlaps_with cs l r = Inr b \<Longrightarrow> b \<longleftrightarrow> (\<exists>q \<in> status_ranges cs l. is_overlaps_with q r)"
  by (auto simp: status_overlaps_with_def and_then_Inr index_def level_overlaps_with_def status_ranges_def list_ex_iff split: if_splits)

lemma try_claim_accepted:
  assumes "try_claim c cs = Inr (True, cs')"
  shows "status_ranges cs' l = status_ranges cs l \<union> claimed c l"
    "q \<in> status_ranges cs l \<Longrightarrow> p \<in> claimed c l \<Longrightarrow> \<not> is_overlaps_with q p"
    "cs_tables cs' = cs_tables cs \<union> tl_table_id ` (set (fst (cl_tables c)) \<union> set (snd (cl_tables c)))"
proof -
  obtain cs1 cs2 where o: "status_overlaps_with cs (cl_this_level c) (cl_this_range c) = Inr False"
    "status_overlaps_with cs (cl_next_level c) (cl_next_range c) = Inr False"
    and p: "status_push (cl_this_level c) (cl_this_range c) cs = Inr cs1"
      "status_push (cl_next_level c) (cl_next_range c) cs1 = Inr cs2"
    and cs': "cs' = cs2\<lparr>cs_tables := cs_tables cs2 \<union> tl_table_id ` set (fst (cl_tables c)) \<union> tl_table_id ` set (snd (cl_tables c))\<rparr>"
    using assms by (auto simp: try_claim_def try_update_def and_then_Inr split: if_splits)
  have s: "status_ranges cs' l = status_ranges cs2 l" by (simp add: cs' status_ranges_def)
  show "status_ranges cs' l = status_ranges cs l \<union> claimed c l"
    unfolding s claimed_def using status_push_ranges(1) [OF p(1)] status_push_ranges(1) [OF p(2)] by auto
  show "q \<in> status_ranges cs l \<Longrightarrow> p \<in> claimed c l \<Longrightarrow> \<not> is_overlaps_with q p" for p
    using status_overlaps [OF o(1)] status_overlaps [OF o(2)] by (auto simp: claimed_def split: if_splits)
  show "cs_tables cs' = cs_tables cs \<union> tl_table_id ` (set (fst (cl_tables c)) \<union> set (snd (cl_tables c)))"
    using status_push_ranges(3) [OF p(1)] status_push_ranges(3) [OF p(2)] by (auto simp: cs')
qed

lemma try_claim_refused: "try_claim c cs = Inr (False, cs') \<Longrightarrow> cs' = cs"
  by (auto simp: try_claim_def try_update_def and_then_Inr split: if_splits)

text \<open>Claims made one after the other, with those that were accepted, newest first.\<close>

inductive claims :: "nat \<Rightarrow> claim list \<Rightarrow> compact_status \<Rightarrow> bool" for n where
  claims_init: "claims n [] \<lparr>cs_levels = replicate n LevelCompactStatus_default, cs_tables = {}\<rparr>"
| claims_accept: "claims n acc cs \<Longrightarrow> try_claim c cs = Inr (True, cs') \<Longrightarrow> claims n (c # acc) cs'"
| claims_refuse: "claims n acc cs \<Longrightarrow> try_claim c cs = Inr (False, cs') \<Longrightarrow> claims n acc cs'"

lemma claims_ranges: "claims n acc cs \<Longrightarrow> status_ranges cs l = (\<Union>c \<in> set acc. claimed c l)"
proof (induction rule: claims.induct)
  case claims_init
  show ?case by (auto simp: status_ranges_def LevelCompactStatus_default_def)
next
  case (claims_accept acc cs c cs')
  then show ?case using try_claim_accepted(1) [OF claims_accept(2)] by auto
next
  case (claims_refuse acc cs c cs')
  then show ?case using try_claim_refused [OF claims_refuse(2)] by simp
qed

lemma claims_exclusive:
  "claims n acc cs \<Longrightarrow>
   sorted_wrt (\<lambda>new old. \<forall>l. \<forall>p \<in> claimed new l. \<forall>q \<in> claimed old l. \<not> is_overlaps_with q p) acc"
proof (induction rule: claims.induct)
  case (claims_accept acc cs c cs')
  then show ?case
    using try_claim_accepted(2) [OF claims_accept(2)] claims_ranges [OF claims_accept(1)] by fastforce
qed simp_all

section \<open>Properties\<close>

text \<open>C33: On a level whose tables are in order, the interval of positions found by two binary searches
  is valid and holds exactly the tables that have room for a key in the range.\<close>

theorem overlap_tables_spec:
  assumes "level_sorted ts" "proper r"
  shows "case overlap_tables ts r of (l, u) \<Rightarrow>
    l \<le> u \<and> u \<le> length ts \<and>
    take (u - l) (drop l ts) = filter (\<lambda>t. max (tl_smallest t) (kr_left r) \<le> min (tl_biggest t) (kr_right r)) ts"
proof -
  obtain l u where lu: "overlap_tables ts r = (l, u)" by fastforce
  have "max (tl_smallest t) (kr_left r) \<le> min (tl_biggest t) (kr_right r) \<longleftrightarrow>
    kr_left r \<le> tl_biggest t \<and> tl_smallest t \<le> kr_right r" if "t \<in> set ts" for t
    using assms that by (auto simp: level_sorted_def proper_def)
  then have "filter (\<lambda>t. max (tl_smallest t) (kr_left r) \<le> min (tl_biggest t) (kr_right r)) ts =
    filter (\<lambda>t. kr_left r \<le> tl_biggest t \<and> tl_smallest t \<le> kr_right r) ts" by (simp cong: filter_cong)
  with overlap_tables_filter [OF assms lu] show ?thesis by (simp add: lu)
qed

definition demo_level_tables :: "table list" where
  "demo_level_tables = [demo_level_table 1 (KeyTs [97] 1) (KeyTs [98] 1) 0, demo_level_table 2 (KeyTs [99] 1) (KeyTs [100] 1) 0,
     demo_level_table 3 (KeyTs [101] 1) (KeyTs [102] 1) 0]"

lemma demo_level_sorted: "level_sorted demo_level_tables" "\<forall>t \<in> set demo_level_tables. keyed t"
  by (simp_all add: demo_level_tables_def demo_level_table_def level_sorted_def keyed_def less_key_ts_iff less_eq_key_ts_iff)

definition demo_range :: key_ts_range where
  "demo_range = KeyTsRange_from_table (demo_level_table 7 (KeyTs [99] 5) (KeyTs [101] 5) 0)"

theorem overlap_tables_spec_witness:
  "case overlap_tables demo_level_tables demo_range of (l, u) \<Rightarrow>
     map tl_table_id (take (u - l) (drop l demo_level_tables)) = [2, 3]"
proof -
  have p: "proper demo_range"
    unfolding demo_range_def by (rule proper_from_table) (simp add: keyed_def demo_level_table_def less_eq_key_ts_iff)
  have "map tl_table_id (filter (\<lambda>t. max (tl_smallest t) (kr_left demo_range) \<le> min (tl_biggest t) (kr_right demo_range)) demo_level_tables) = [2, 3]"
    by (simp add: demo_level_tables_def demo_level_table_def demo_range_def KeyTsRange_from_table_def less_eq_key_ts_iff)
  with overlap_tables_spec [OF demo_level_sorted(1) p] show ?thesis by (auto split: prod.splits)
qed


definition demo_claim :: "table \<Rightarrow> claim" where
  "demo_claim t = \<lparr>cl_this_level = 1, cl_this_range = KeyTsRange_from_table t, cl_next_level = 2,
     cl_next_range = KeyTsRange_from_table t, cl_tables = ([t], [])\<rparr>"


end
