(* ===== verification/Plan.thy ===== *)
theory Plan
  imports Compaction
begin

text \<open>
  The levels controller (\<open>src/src/level/levels.rs\<close>), the sizes compactions aim at
  (\<open>level_targets\<close> of \<open>src/src/level/compaction.rs\<close>) and the plans they make
  (\<open>src/src/level/plan.rs\<close>). A plan names its two levels by their number and reads the
  handlers of the controller; the read locks it holds meanwhile make this one step. The
  reading of the clock, the time a table file was created, and the timestamp
  \<open>discard_at_or_below\<close> of the oracle are arguments; a time in the future panics. The
  floating point score of a priority enters only through the test whether it is strictly
  between 0 and 1. \<open>sort_unstable_by\<close> is a stable sort here.
\<close>

section \<open>The controller\<close>

record levels_controller_config =
  lg_read_only :: bool
  lg_memtable_size :: nat
  lg_num_level_zero_tables_stall :: nat
  lg_num_level_zero_tables :: nat
  lg_max_level :: level
  lg_base_level_size :: nat
  lg_level_size_multiplier :: nat
  lg_table_size_multiplier :: nat
  lg_num_compactors :: nat
  lg_compactl0_on_close :: bool
  lg_lmax_compaction :: bool
  lg_num_versions_to_keep :: nat

definition LevelsControllerConfig_default :: levels_controller_config where
  "LevelsControllerConfig_default = \<lparr>lg_read_only = False, lg_memtable_size = 64 * 2 ^ 20, lg_num_level_zero_tables_stall = 15,
     lg_num_level_zero_tables = 5, lg_max_level = 6, lg_base_level_size = 10 * 2 ^ 20, lg_level_size_multiplier = 10,
     lg_table_size_multiplier = 2, lg_num_compactors = 4, lg_compactl0_on_close = False, lg_lmax_compaction = False,
     lg_num_versions_to_keep = 1\<rparr>"

definition check_levels_controller_config :: "levels_controller_config \<Rightarrow> levels_controller_config outcome" where
  "check_levels_controller_config g =
     (if lg_num_compactors g = 1 then Inl (Anyhow ''Cannot have 1 compactor. Need at least 2'')
      else Inr (if lg_read_only g then g\<lparr>lg_compactl0_on_close := False\<rparr> else g))"

record levels_controller =
  lc_manifest :: manifest
  lc_next_file_id :: u32
  lc_levels :: "level_handler list"
  lc_status :: compact_status
  lc_config :: levels_controller_config
  lc_table_config :: table_config

definition lc_handler :: "levels_controller \<Rightarrow> level \<Rightarrow> level_handler outcome" where
  "lc_handler lc l = index (lc_levels lc) (unat l)"

definition last_level_handler :: "levels_controller \<Rightarrow> level_handler outcome" where
  "last_level_handler lc = (if lc_levels lc = [] then Inl Panic else Inr (last (lc_levels lc)))"

definition get_reserve_file_id :: "levels_controller \<Rightarrow> u32 \<times> levels_controller" where
  "get_reserve_file_id lc = (lc_next_file_id lc, lc\<lparr>lc_next_file_id := lc_next_file_id lc + 1\<rparr>)"

fun validate_levels :: "level_handler list \<Rightarrow> unit outcome" where
  "validate_levels [] = Inr ()"
| "validate_levels (lh # lhs) = and_then (validate_level lh) (\<lambda>_. validate_levels lhs)"

definition controller_validate :: "levels_controller \<Rightarrow> unit outcome" where
  "controller_validate lc = validate_levels (lc_levels lc)"

text \<open>
  \<open>revert_to_manifest\<close>: the files of the directory that stay. A table of the manifest without
  a file is an error, a file without a table is removed.
\<close>

definition revert_to_manifest :: "manifest_info \<Rightarrow> u32 set \<Rightarrow> u32 set outcome" where
  "revert_to_manifest mi sst_ids =
     (if \<not> set (map fst (mi_tables mi)) \<subseteq> sst_ids then Inl (Anyhow ''file does not exist for table'')
      else Inr (sst_ids \<inter> set (map fst (mi_tables mi))))"

section \<open>Targets\<close>

record compact_targets =
  ct_base_level :: level
  ct_target_size :: "nat list"
  ct_file_size :: "nat list"

fun target_sizes :: "levels_controller_config \<Rightarrow> nat \<Rightarrow> nat \<Rightarrow> compact_targets \<Rightarrow> compact_targets" where
  "target_sizes g 0 level_size targets = targets"
| "target_sizes g (Suc i) level_size targets =
     (if i = 0 then targets
      else
        let targets = targets\<lparr>ct_target_size := (ct_target_size targets)[i := max level_size (lg_base_level_size g)]\<rparr>;
            targets = (if ct_base_level targets = LEVEL0 \<and> level_size \<le> lg_base_level_size g
                       then targets\<lparr>ct_base_level := word_of_nat i\<rparr> else targets)
        in target_sizes g i (level_size div lg_level_size_multiplier g) targets)"

fun file_sizes :: "levels_controller_config \<Rightarrow> nat \<Rightarrow> nat \<Rightarrow> nat list \<Rightarrow> nat \<Rightarrow> nat list" where
  "file_sizes g base i [] table_size = []"
| "file_sizes g base i (_ # rest) table_size =
     (if i = 0 then lg_memtable_size g # file_sizes g base (i + 1) rest table_size
      else if i \<le> base then table_size # file_sizes g base (i + 1) rest table_size
      else let table_size = table_size * lg_table_size_multiplier g
           in table_size # file_sizes g base (i + 1) rest table_size)"

text \<open>From the base level on, over the levels that hold nothing.\<close>

fun skip_empty_levels :: "level_handler list \<Rightarrow> nat \<Rightarrow> nat \<Rightarrow> nat" where
  "skip_empty_levels [] l base = base"
| "skip_empty_levels (lh # lhs) l base =
     (if lh_total_size lh > 0 then base else skip_empty_levels lhs (l + 1) l)"

definition bump_base :: "level_handler list \<Rightarrow> nat list \<Rightarrow> nat \<Rightarrow> nat" where
  "bump_base levels sizes base =
     (if base < length levels - 1 \<and> lh_total_size (levels ! base) = 0 \<and>
         lh_total_size (levels ! (base + 1)) < sizes ! (base + 1)
      then base + 1 else base)"

definition level_targets :: "levels_controller \<Rightarrow> compact_targets outcome" where
  "level_targets lc =
     (let g = lc_config lc; levels = lc_levels lc; levels_len = length levels in
      if levels_len \<ge> 255 then Inl Panic
      else and_then (last_level_handler lc) (\<lambda>lst.
        if lg_level_size_multiplier g = 0 \<and> levels_len > 1 then Inl Panic
        else
          let targets = target_sizes g levels_len (lh_total_size lst)
                \<lparr>ct_base_level = LEVEL0, ct_target_size = replicate levels_len 0, ct_file_size = replicate levels_len 0\<rparr>;
              base = unat (ct_base_level targets);
              files = file_sizes g base 0 (ct_file_size targets) (tg_table_size (lc_table_config lc));
              base = skip_empty_levels (drop base levels) base base;
              base = bump_base levels (ct_target_size targets) base
          in Inr (targets\<lparr>ct_file_size := files, ct_base_level := word_of_nat base\<rparr>)))"

section \<open>Plans\<close>

record compact_priority =
  cp_level :: level
  cp_adjusted_low :: bool
  cp_drop_prefixes :: "bytes list"
  cp_targets :: compact_targets

record compact_plan =
  pl_task_id :: nat
  pl_priority :: compact_priority
  pl_this_level :: level
  pl_next_level :: level
  pl_top :: "table list"
  pl_this_range :: key_ts_range
  pl_bottom :: "table list"
  pl_next_range :: key_ts_range
  pl_this_size :: nat
  pl_drop_prefixes :: "bytes list"
  pl_splits :: "key_ts_range list"

definition CompactPlan_new :: "nat \<Rightarrow> compact_priority \<Rightarrow> level \<Rightarrow> level \<Rightarrow> compact_plan" where
  "CompactPlan_new task_id priority this_level next_level =
     \<lparr>pl_task_id = task_id, pl_priority = priority, pl_this_level = this_level, pl_next_level = next_level, pl_top = [],
      pl_this_range = KeyTsRange_default, pl_bottom = [], pl_next_range = KeyTsRange_default, pl_this_size = 0,
      pl_drop_prefixes = [], pl_splits = []\<rparr>"

definition plan_try_update :: "compact_plan \<Rightarrow> compact_status \<Rightarrow> (bool \<times> compact_status) outcome" where
  "plan_try_update pl = try_update (pl_this_level pl) (pl_this_range pl) (pl_next_level pl) (pl_next_range pl) (pl_top pl) (pl_bottom pl)"

text \<open>\<open>tables[index_range].to_vec()\<close>.\<close>

definition tables_in :: "table list \<Rightarrow> nat \<times> nat \<Rightarrow> table list outcome" where
  "tables_in ts lu = subslice (fst lu) (snd lu) ts"

type_synonym plan_result = "(bool \<times> compact_plan \<times> compact_status) outcome"

fun fill_tables_loop :: "table list \<Rightarrow> table list \<Rightarrow> compact_plan \<Rightarrow> compact_status \<Rightarrow> plan_result" where
  "fill_tables_loop next_tables [] pl cs = Inr (False, pl, cs)"
| "fill_tables_loop next_tables (t # ts) pl cs =
     (let pl = pl\<lparr>pl_this_size := tl_table_size t, pl_this_range := KeyTsRange_from_table t\<rparr> in
      and_then (status_overlaps_with cs (pl_this_level pl) (pl_this_range pl)) (\<lambda>busy.
      if busy then fill_tables_loop next_tables ts pl cs
      else
        let pl = pl\<lparr>pl_top := [t]\<rparr> in
        and_then (tables_in next_tables (overlap_tables next_tables (pl_this_range pl))) (\<lambda>bottom.
        let pl = pl\<lparr>pl_bottom := bottom\<rparr> in
        if bottom = [] then
          let pl = pl\<lparr>pl_next_range := pl_this_range pl\<rparr> in
          and_then (plan_try_update pl cs) (\<lambda>(ok, cs).
          if ok then Inr (True, pl, cs) else fill_tables_loop next_tables ts pl cs)
        else
          let pl = pl\<lparr>pl_next_range := KeyTsRange_from_tables bottom\<rparr> in
          and_then (status_overlaps_with cs (pl_next_level pl) (pl_next_range pl)) (\<lambda>busy.
          if busy then fill_tables_loop next_tables ts pl cs
          else and_then (plan_try_update pl cs) (\<lambda>(ok, cs).
               if ok then Inr (True, pl, cs) else fill_tables_loop next_tables ts pl cs)))))"

text \<open>Tables behind the chosen one, while the total size stays below the size of a file.\<close>

fun collect_bottom :: "table list \<Rightarrow> nat \<Rightarrow> nat \<Rightarrow> compact_plan \<Rightarrow> compact_plan" where
  "collect_bottom [] sz need_file_size pl = pl"
| "collect_bottom (t # ts) sz need_file_size pl =
     (let sz = sz + tl_table_size t in
      if sz \<ge> need_file_size then pl
      else collect_bottom ts sz need_file_size
             (pl\<lparr>pl_bottom := pl_bottom pl @ [t], pl_next_range := range_extend (pl_next_range pl) (KeyTsRange_from_table t)\<rparr>))"

text \<open>Arguments: \<open>discard_ts\<close>, the clock and the creation times in seconds.\<close>

fun fill_max_loop ::
  "u64 \<Rightarrow> nat \<Rightarrow> (u32 \<Rightarrow> nat) \<Rightarrow> table list \<Rightarrow> table list \<Rightarrow> compact_plan \<Rightarrow> compact_status \<Rightarrow> plan_result" where
  "fill_max_loop discard_ts now created tables [] pl cs =
     (if pl_top pl = [] then Inr (False, pl, cs)
      else and_then (plan_try_update pl cs) (\<lambda>(ok, cs). Inr (ok, pl, cs)))"
| "fill_max_loop discard_ts now created tables (t # ts) pl cs =
     (if \<not> table_max_version t \<le> discard_ts then fill_max_loop discard_ts now created tables ts pl cs
      else if now < created (tl_table_id t) then Inl Panic
      else if \<not> now - created (tl_table_id t) \<ge> 60 * 60 then fill_max_loop discard_ts now created tables ts pl cs
      else if \<not> table_stale_size t \<ge> 10 * 2 ^ 20 then fill_max_loop discard_ts now created tables ts pl cs
      else
        let pl = pl\<lparr>pl_this_size := tl_table_size t, pl_this_range := KeyTsRange_from_table t,
                    pl_next_range := KeyTsRange_from_table t\<rparr> in
        and_then (status_overlaps_with cs (pl_this_level pl) (pl_this_range pl)) (\<lambda>busy.
        if busy then fill_max_loop discard_ts now created tables ts pl cs
        else
          let pl = pl\<lparr>pl_top := [t]\<rparr> in
          and_then (index (ct_file_size (cp_targets (pl_priority pl))) (unat (pl_this_level pl))) (\<lambda>need_file_size.
          if tl_table_size t \<ge> need_file_size then
            and_then (plan_try_update pl cs) (\<lambda>(ok, cs). Inr (ok, pl, cs))
          else
            let j = (case binary_search_by (\<lambda>a. KeyTs_cmp (tl_smallest a) (tl_smallest t)) tables of Inr i \<Rightarrow> i | Inl i \<Rightarrow> i) in
            and_then (index tables j) (\<lambda>u.
            if tl_table_id u \<noteq> tl_table_id t then Inl Panic
            else
              let pl = collect_bottom (drop (j + 1) tables) (tl_table_size t) need_file_size pl in
              and_then (plan_try_update pl cs) (\<lambda>(ok, cs).
              if ok then Inr (True, pl, cs)
              else fill_max_loop discard_ts now created tables ts (pl\<lparr>pl_bottom := [], pl_next_range := KeyTsRange_default\<rparr>) cs)))))"

definition fill_max_level_tables ::
  "u64 \<Rightarrow> nat \<Rightarrow> (u32 \<Rightarrow> nat) \<Rightarrow> levels_controller \<Rightarrow> compact_plan \<Rightarrow> plan_result" where
  "fill_max_level_tables discard_ts now created lc pl =
     and_then (lc_handler lc (pl_this_level pl)) (\<lambda>this_level.
     let tables = lh_tables this_level;
         sorted_tables = sort_key (\<lambda>t. - int (unat (table_stale_size t))) tables
     in if sorted_tables \<noteq> [] \<and> table_stale_size (hd sorted_tables) = 0 then Inr (False, pl, lc_status lc)
        else fill_max_loop discard_ts now created tables sorted_tables (pl\<lparr>pl_bottom := []\<rparr>) (lc_status lc))"

definition level_minus_one :: "level \<Rightarrow> level outcome" where
  "level_minus_one l = sub_checked l 1"

definition fill_tables ::
  "u64 \<Rightarrow> nat \<Rightarrow> (u32 \<Rightarrow> nat) \<Rightarrow> levels_controller \<Rightarrow> compact_plan \<Rightarrow> plan_result" where
  "fill_tables discard_ts now created lc pl =
     and_then (lc_handler lc (pl_this_level pl)) (\<lambda>this_level.
     if lh_tables this_level = [] then Inr (False, pl, lc_status lc)
     else and_then (level_minus_one (lg_max_level (lc_config lc))) (\<lambda>last_level.
       if pl_this_level pl = last_level then fill_max_level_tables discard_ts now created lc pl
       else and_then (lc_handler lc (pl_next_level pl)) (\<lambda>next_level.
         fill_tables_loop (lh_tables next_level) (sort_key table_max_version (lh_tables this_level)) pl (lc_status lc))))"

text \<open>The tables of level 0 from the front, as long as their ranges hang together.\<close>

fun connected_tables :: "table list \<Rightarrow> key_ts_range \<Rightarrow> table list \<times> key_ts_range" where
  "connected_tables [] r = ([], r)"
| "connected_tables (t # ts) r =
     (let target = KeyTsRange_from_table t in
      if is_overlaps_with r target
      then (case connected_tables ts (range_extend r target) of (rest, r) \<Rightarrow> (t # rest, r))
      else ([], r))"

definition fill_tables_level0_to_levelbase :: "levels_controller \<Rightarrow> compact_plan \<Rightarrow> plan_result" where
  "fill_tables_level0_to_levelbase lc pl =
     (if pl_next_level pl = LEVEL0 then Inl Panic
      else if cp_adjusted_low (pl_priority pl) then Inr (False, pl, lc_status lc)
      else and_then (lc_handler lc (pl_this_level pl)) (\<lambda>this_level.
        and_then (lc_handler lc (pl_next_level pl)) (\<lambda>next_level.
        if lh_tables this_level = [] then Inr (False, pl, lc_status lc)
        else
          let (tops, this_range) =
                (if cp_drop_prefixes (pl_priority pl) \<noteq> [] then (lh_tables this_level, KeyTsRange_from_tables (lh_tables this_level))
                 else connected_tables (lh_tables this_level) KeyTsRange_default)
          in and_then (tables_in (lh_tables next_level) (overlap_tables (lh_tables next_level) this_range)) (\<lambda>bottom.
             let pl = pl\<lparr>pl_top := tops, pl_this_range := this_range, pl_bottom := bottom,
                         pl_next_range := (if bottom = [] then this_range else KeyTsRange_from_tables bottom)\<rparr>
             in and_then (plan_try_update pl (lc_status lc)) (\<lambda>(ok, cs). Inr (ok, pl, cs))))))"

fun level0_candidates :: "nat list \<Rightarrow> nat \<Rightarrow> (u32 \<Rightarrow> nat) \<Rightarrow> u32 set \<Rightarrow> table list \<Rightarrow> table list outcome" where
  "level0_candidates file_size now created held [] = Inr []"
| "level0_candidates file_size now created held (t # ts) =
     and_then (index file_size 0) (\<lambda>sz.
     if \<not> tl_table_size t < 2 * sz then level0_candidates file_size now created held ts
     else if now < created (tl_table_id t) then Inl Panic
     else and_then (level0_candidates file_size now created held ts) (\<lambda>out.
          Inr (if now - created (tl_table_id t) > 10 \<and> tl_table_id t \<notin> held then t # out else out)))"

definition fill_tables_level0_to_level0 :: "nat \<Rightarrow> (u32 \<Rightarrow> nat) \<Rightarrow> levels_controller \<Rightarrow> compact_plan \<Rightarrow> compact_status \<Rightarrow> plan_result" where
  "fill_tables_level0_to_level0 now created lc pl cs =
     (if pl_task_id pl \<noteq> 0 then Inr (False, pl, cs)
      else
        let pl = pl\<lparr>pl_next_level := LEVEL0, pl_next_range := KeyTsRange_default, pl_bottom := []\<rparr> in
        and_then (lc_handler lc (pl_this_level pl)) (\<lambda>this_level.
        and_then (level0_candidates (ct_file_size (cp_targets (pl_priority pl))) now created (cs_tables cs) (lh_tables this_level)) (\<lambda>out.
        if length out < 4 then Inr (False, pl, cs)
        else and_then (status_push (pl_this_level pl) inf_default cs) (\<lambda>cs.
          let targets = cp_targets (pl_priority pl);
              pl = pl\<lparr>pl_this_range := inf_default, pl_top := out,
                      pl_priority := (pl_priority pl)\<lparr>cp_targets := targets\<lparr>ct_file_size := (ct_file_size targets)[0 := 2 ^ 64 - 1]\<rparr>\<rparr>\<rparr>
          in Inr (True, pl, cs\<lparr>cs_tables := cs_tables cs \<union> tl_table_id ` set out\<rparr>)))))"

definition fill_tables_level0 :: "nat \<Rightarrow> (u32 \<Rightarrow> nat) \<Rightarrow> levels_controller \<Rightarrow> compact_plan \<Rightarrow> plan_result" where
  "fill_tables_level0 now created lc pl =
     and_then (fill_tables_level0_to_levelbase lc pl) (\<lambda>(ok, pl, cs).
     if ok then Inr (True, pl, cs) else fill_tables_level0_to_level0 now created lc pl cs)"

definition plan_fix :: "u64 \<Rightarrow> nat \<Rightarrow> (u32 \<Rightarrow> nat) \<Rightarrow> levels_controller \<Rightarrow> compact_plan \<Rightarrow> (compact_plan \<times> compact_status) outcome" where
  "plan_fix discard_ts now created lc pl =
     (if cp_level (pl_priority pl) = LEVEL0 then
        and_then (fill_tables_level0 now created lc pl) (\<lambda>(ok, pl, cs).
        if ok then Inr (pl, cs) else Inl (Anyhow ''Unable to fill tables for Level0''))
      else
        and_then (level_minus_one (lg_max_level (lc_config lc))) (\<lambda>last_level.
        and_then (if cp_level (pl_priority pl) \<noteq> last_level
                  then and_then (add_checked (cp_level (pl_priority pl)) 1) (\<lambda>l.
                       and_then (lc_handler lc l) (\<lambda>_. Inr (pl\<lparr>pl_next_level := l\<rparr>)))
                  else Inr pl) (\<lambda>pl.
        and_then (fill_tables discard_ts now created lc pl) (\<lambda>(ok, pl, cs).
        if ok then Inr (pl, cs) else Inl (Anyhow ''Unable to fill tables except Level0'')))))"

text \<open>The width is \<open>(len / 5.0).ceil()\<close>, at least three.\<close>

fun split_loop :: "nat \<Rightarrow> nat \<Rightarrow> nat \<Rightarrow> table list \<Rightarrow> key_ts_range \<Rightarrow> key_ts_range list" where
  "split_loop len width i [] skr = []"
| "split_loop len width i (t # ts) skr =
     (if i = len - 1 then [skr\<lparr>kr_right := KeyTs_default\<rparr>]
      else if i mod width = width - 1 then
        let right = KeyTs (kt_key (tl_biggest t)) 0; skr = skr\<lparr>kr_right := right\<rparr>
        in skr # split_loop len width (i + 1) ts (skr\<lparr>kr_left := right\<rparr>)
      else split_loop len width (i + 1) ts skr)"

definition add_splits :: "compact_plan \<Rightarrow> compact_plan" where
  "add_splits pl =
     (let width = max ((length (pl_bottom pl) + 4) div 5) 3
      in pl\<lparr>pl_splits := split_loop (length (pl_bottom pl)) width 0 (pl_bottom pl) (range_extend (pl_this_range pl) (pl_next_range pl))\<rparr>)"

text \<open>\<open>compact\<close> of \<open>compaction.rs\<close> up to running the plan: the targets are computed again when there is no base level.\<close>

definition refresh_targets :: "levels_controller \<Rightarrow> compact_priority \<Rightarrow> compact_priority outcome" where
  "refresh_targets lc priority =
     (if ct_base_level (cp_targets priority) = LEVEL0
      then and_then (level_targets lc) (\<lambda>targets. Inr (priority\<lparr>cp_targets := targets\<rparr>)) else Inr priority)"

definition prepare_compact :: "u64 \<Rightarrow> nat \<Rightarrow> (u32 \<Rightarrow> nat) \<Rightarrow> nat \<Rightarrow> compact_priority \<Rightarrow> levels_controller \<Rightarrow> (compact_plan \<times> compact_status) outcome" where
  "prepare_compact discard_ts now created task_id priority lc =
     (if \<not> cp_level priority < lg_max_level (lc_config lc) then Inl Panic
      else and_then (refresh_targets lc priority) (\<lambda>priority.
        and_then (lc_handler lc (cp_level priority)) (\<lambda>_.
        let next_level = (if cp_level priority = LEVEL0 then ct_base_level (cp_targets priority) else cp_level priority) in
        and_then (lc_handler lc next_level) (\<lambda>_.
        plan_fix discard_ts now created lc (CompactPlan_new task_id priority (cp_level priority) next_level)))))"

section \<open>Targets are in bounds\<close>

lemma target_sizes_lengths:
  "length (ct_target_size (target_sizes g n sz t)) = length (ct_target_size t)"
  "ct_file_size (target_sizes g n sz t) = ct_file_size t"
  by (induction g n sz t rule: target_sizes.induct) (auto simp: Let_def)

lemma target_sizes_keeps: "ct_base_level t \<noteq> LEVEL0 \<Longrightarrow> ct_base_level (target_sizes g n sz t) = ct_base_level t"
  by (induction g n sz t rule: target_sizes.induct) (auto simp: Let_def)

lemma target_sizes_above: "n \<le> j \<Longrightarrow> ct_target_size (target_sizes g n sz t) ! j = ct_target_size t ! j"
  by (induction g n sz t rule: target_sizes.induct) (auto simp: Let_def)

lemma target_sizes_ge:
  "1 \<le> j \<Longrightarrow> j < n \<Longrightarrow> n \<le> length (ct_target_size t) \<Longrightarrow>
   lg_base_level_size g \<le> ct_target_size (target_sizes g n sz t) ! j"
proof (induction g n sz t rule: target_sizes.induct)
  case (2 g i sz t)
  show ?case
  proof (cases "j = i")
    case True
    with "2.prems" show ?thesis by (simp add: Let_def target_sizes_above)
  next
    case False
    with "2.prems" have "j < i" "i \<noteq> 0" by auto
    with 2 show ?thesis by (simp add: Let_def)
  qed
qed simp

lemma unat_level_of_nat: "n < 255 \<Longrightarrow> unat (word_of_nat n :: level) = n"
  by (simp add: unat_of_nat take_bit_nat_eq_self)

lemma target_sizes_base:
  "0 < n \<Longrightarrow> n < 255 \<Longrightarrow> ct_base_level t = LEVEL0 \<Longrightarrow>
   unat (ct_base_level (target_sizes g n sz t)) < n \<and>
   (2 \<le> n \<and> sz div lg_level_size_multiplier g ^ (n - 2) \<le> lg_base_level_size g \<longrightarrow>
    0 < unat (ct_base_level (target_sizes g n sz t)))"
proof (induction g n sz t rule: target_sizes.induct)
  case (2 g i sz t)
  show ?case
  proof (cases "i = 0")
    case True
    with "2.prems" show ?thesis by (simp add: LEVEL0_def)
  next
    case False
    note u = unat_level_of_nat [of i]
    show ?thesis
    proof (cases "sz \<le> lg_base_level_size g")
      case True
      have "(word_of_nat i :: level) \<noteq> LEVEL0" using u False "2.prems" by (auto simp: LEVEL0_def unat_eq_0 [symmetric])
      with True False "2.prems" u show ?thesis by (simp add: Let_def target_sizes_keeps)
    next
      case over: False
      have "i - Suc 0 = Suc (i - 2)" if "2 \<le> i" using that by simp
      then have "sz div lg_level_size_multiplier g ^ (i - 1) = sz div lg_level_size_multiplier g div lg_level_size_multiplier g ^ (i - 2)"
        if "2 \<le> i" using that by (simp add: div_mult2_eq)
      with over False "2.prems" "2.IH" [OF False refl refl] show ?thesis
        by (cases "i = 1") (auto simp: Let_def LEVEL0_def)
    qed
  qed
qed simp

lemma skip_empty_bounds:
  "base < l + length lhs \<Longrightarrow> base \<le> l \<Longrightarrow> base \<le> skip_empty_levels lhs l base \<and> skip_empty_levels lhs l base < l + length lhs"
proof (induction lhs l base rule: skip_empty_levels.induct)
  case (2 lh lhs l base)
  show ?case
  proof (cases "lh_total_size lh > 0 \<or> lhs = []")
    case True
    with "2.prems" show ?thesis by auto
  next
    case False
    then have "skip_empty_levels (lh # lhs) l base = skip_empty_levels lhs (l + 1) l" "lhs \<noteq> []" by auto
    with "2.IH" False "2.prems" show ?thesis by (cases lhs) auto
  qed
qed simp

lemma bump_base_bounds: "base < length levels \<Longrightarrow> base \<le> bump_base levels ts base \<and> bump_base levels ts base < length levels"
  by (auto simp: bump_base_def)

lemma length_file_sizes [simp]: "length (file_sizes g b i xs sz) = length xs"
  by (induction g b i xs sz rule: file_sizes.induct) (auto simp: Let_def)

lemma level_targets_ok:
  "lc_levels lc \<noteq> [] \<Longrightarrow> length (lc_levels lc) < 255 \<Longrightarrow> lg_level_size_multiplier (lc_config lc) \<noteq> 0 \<Longrightarrow> is_ok (level_targets lc)"
  by (simp add: level_targets_def Let_def last_level_handler_def)

section \<open>Plans take in what they meet\<close>

text \<open>The tables of a level that meet a range.\<close>

definition meeting :: "key_ts_range \<Rightarrow> table list \<Rightarrow> table list" where
  "meeting r ts = filter (\<lambda>u. kr_left r \<le> tl_biggest u \<and> tl_smallest u \<le> kr_right r) ts"

lemma tables_in_meeting:
  assumes "level_sorted ts" "proper r" shows "tables_in ts (overlap_tables ts r) = Inr (meeting r ts)"
proof -
  obtain l u where lu: "overlap_tables ts r = (l, u)" by fastforce
  from overlap_tables_filter [OF assms lu] show ?thesis by (simp add: tables_in_def lu subslice_def meeting_def)
qed

lemma plan_refused: "plan_try_update pl cs = Inr (False, cs') \<Longrightarrow> cs' = cs"
  by (auto simp: plan_try_update_def try_update_def and_then_Inr split: if_splits)

lemma fill_tables_loop_sound:
  assumes srt: "level_sorted next_tables"
  shows "\<lbrakk>fill_tables_loop next_tables ts pl cs = Inr (True, pl', cs'); \<forall>t \<in> set ts. keyed t\<rbrakk> \<Longrightarrow>
    \<exists>t \<in> set ts. pl_top pl' = [t] \<and> pl_this_range pl' = KeyTsRange_from_table t \<and>
      pl_bottom pl' = meeting (pl_this_range pl') next_tables \<and>
      pl_this_level pl' = pl_this_level pl \<and> pl_next_level pl' = pl_next_level pl \<and> plan_try_update pl' cs = Inr (True, cs')"
proof (induction ts arbitrary: pl)
  case (Cons t ts)
  let ?r = "KeyTsRange_from_table t"
  let ?pl1 = "pl\<lparr>pl_this_size := tl_table_size t, pl_this_range := ?r\<rparr>"
  let ?pl2 = "?pl1\<lparr>pl_top := [t], pl_bottom := meeting ?r next_tables\<rparr>"
  let ?next = "if meeting ?r next_tables = [] then ?r else KeyTsRange_from_tables (meeting ?r next_tables)"
  let ?pl3 = "?pl2\<lparr>pl_next_range := ?next\<rparr>"
  have tin: "tables_in next_tables (overlap_tables next_tables ?r) = Inr (meeting ?r next_tables)"
    using Cons.prems(2) by (intro tables_in_meeting [OF srt] proper_from_table) simp
  obtain busy where b: "status_overlaps_with cs (pl_this_level pl) ?r = Inr busy"
    using Cons.prems(1) by (auto simp: Let_def and_then_Inr)
  have again: ?case if "fill_tables_loop next_tables ts q cs = Inr (True, pl', cs')" "pl_this_level q = pl_this_level pl"
      "pl_next_level q = pl_next_level pl" for q
    using Cons.IH [OF that(1)] that(2,3) Cons.prems(2) by auto
  show ?case
  proof (cases busy)
    case True
    with Cons.prems(1) b show ?thesis by (intro again [of ?pl1]) (simp_all add: Let_def)
  next
    case False
    consider "plan_try_update ?pl3 cs = Inr (True, cs')" "pl' = ?pl3" | "fill_tables_loop next_tables ts ?pl3 cs = Inr (True, pl', cs')"
      using Cons.prems(1) b False tin plan_refused [of ?pl3 cs]
      by (cases "meeting ?r next_tables = []") (auto simp: Let_def and_then_Inr split: if_splits)
    then show ?thesis
    proof cases
      case 1
      then show ?thesis by (intro bexI [of _ t]) simp_all
    next
      case 2
      then show ?thesis by (rule again) simp_all
    qed
  qed
qed simp

lemma connected_tables_prefix: "\<exists>n. fst (connected_tables ts r) = take n ts"
proof (induction ts r rule: connected_tables.induct)
  case (2 t ts r)
  show ?case
  proof (cases "is_overlaps_with r (KeyTsRange_from_table t)")
    case True
    then obtain n where "fst (connected_tables ts (range_extend r (KeyTsRange_from_table t))) = take n ts" using 2 by auto
    with True show ?thesis by (intro exI [of _ "Suc n"]) (simp add: Let_def case_prod_unfold)
  next
    case False
    then show ?thesis by (intro exI [of _ 0]) simp
  qed
qed simp

lemma connected_tables_proper:
  "proper r \<Longrightarrow> \<forall>t \<in> set ts. keyed t \<Longrightarrow> connected_tables ts r = (ts', r') \<Longrightarrow>
   proper r' \<and> (\<forall>k. in_range k r \<longrightarrow> in_range k r') \<and>
   (\<forall>t \<in> set ts'. \<forall>k. tl_smallest t \<le> k \<and> k \<le> tl_biggest t \<longrightarrow> in_range k r')"
proof (induction ts arbitrary: r ts')
  case (Cons t ts)
  let ?q = "KeyTsRange_from_table t" and ?e = "range_extend r (KeyTsRange_from_table t)"
  have q: "proper ?q" using Cons.prems by (intro proper_from_table) simp
  note e = extend_proper [OF Cons.prems(1) q]
  show ?case
  proof (cases "is_overlaps_with r ?q")
    case True
    then obtain ts1 where c: "connected_tables ts ?e = (ts1, r')" "ts' = t # ts1"
      using Cons.prems(3) by (auto simp: Let_def split: prod.splits)
    have sub: "in_range k r \<or> in_range k ?q \<Longrightarrow> in_range k ?e" for k
      unfolding e(1) using Cons.prems(1) q by (auto simp: in_range_def proper_def min_le_iff_disj le_max_iff_disj)
    note ih = Cons.IH [OF e(2) _ c(1)]
    show ?thesis using ih Cons.prems(2) sub from_table_in_range [of t] c(2) by auto
  next
    case False
    with Cons.prems show ?thesis by (auto simp: Let_def)
  qed
qed simp

text \<open>From the empty range: the first table is always taken.\<close>

lemma connected_tables_start:
  assumes "\<forall>t \<in> set ts. keyed t" "connected_tables ts KeyTsRange_default = (ts', r')" "ts \<noteq> []"
  shows "proper r' \<and> (\<forall>t \<in> set ts'. \<forall>k. tl_smallest t \<le> k \<and> k \<le> tl_biggest t \<longrightarrow> in_range k r')"
proof -
  obtain t us where ts: "ts = t # us" using assms(3) by (cases ts) auto
  let ?q = "KeyTsRange_from_table t"
  have q: "proper ?q" using assms(1) ts by (intro proper_from_table) simp
  then have "range_extend KeyTsRange_default ?q = ?q" "is_overlaps_with KeyTsRange_default ?q"
    by (auto simp: range_extend_def is_overlaps_with_def range_is_empty_def proper_def KeyTsRange_default_def KeyTs_is_empty_def)
  then obtain us' where c: "connected_tables us ?q = (us', r')" "ts' = t # us'"
    using assms(2) ts by (auto simp: Let_def split: prod.splits)
  have k: "\<forall>t \<in> set us. keyed t" using assms(1) ts by simp
  from connected_tables_proper [OF q k c(1)] c(2) from_table_in_range [of t] show ?thesis by auto
qed

text \<open>
  A plan from one level into the next is complete when the keys of its upper tables lie in its range
  and its lower tables are all tables of the next level that meet the range.
\<close>

definition plan_complete :: "table list \<Rightarrow> table list \<Rightarrow> compact_plan \<Rightarrow> bool" where
  "plan_complete this_tables next_tables pl \<longleftrightarrow> pl_top pl \<noteq> [] \<and> set (pl_top pl) \<subseteq> set this_tables \<and>
     (\<forall>t \<in> set (pl_top pl). \<forall>k. tl_smallest t \<le> k \<and> k \<le> tl_biggest t \<longrightarrow> in_range k (pl_this_range pl)) \<and>
     pl_bottom pl = meeting (pl_this_range pl) next_tables"

lemma fill_tables_complete:
  assumes "fill_tables discard_ts now created lc pl = Inr (True, pl', cs')" "pl_this_level pl \<noteq> lg_max_level (lc_config lc) - 1"
    and "lc_handler lc (pl_this_level pl) = Inr this" "lc_handler lc (pl_next_level pl) = Inr nxt"
    and "\<forall>t \<in> set (lh_tables this). keyed t" "level_sorted (lh_tables nxt)"
  shows "plan_complete (lh_tables this) (lh_tables nxt) pl' \<and> plan_try_update pl' (lc_status lc) = Inr (True, cs')"
proof -
  have "fill_tables_loop (lh_tables nxt) (sort_key table_max_version (lh_tables this)) pl (lc_status lc) = Inr (True, pl', cs')"
    using assms(1-4) by (auto simp: fill_tables_def and_then_Inr level_minus_one_def sub_one_checked split: if_splits)
  from fill_tables_loop_sound [OF assms(6) this] assms(5) show ?thesis
    using from_table_in_range by (auto simp: plan_complete_def)
qed

lemma fill_levelbase_complete:
  assumes "fill_tables_level0_to_levelbase lc pl = Inr (True, pl', cs')"
    and "lc_handler lc (pl_this_level pl) = Inr this" "lc_handler lc (pl_next_level pl) = Inr nxt"
    and "\<forall>t \<in> set (lh_tables this). keyed t" "level_sorted (lh_tables nxt)"
  shows "plan_complete (lh_tables this) (lh_tables nxt) pl' \<and> plan_try_update pl' (lc_status lc) = Inr (True, cs') \<and>
    pl_next_level pl' = pl_next_level pl"
proof -
  let ?c = "if cp_drop_prefixes (pl_priority pl) \<noteq> [] then (lh_tables this, KeyTsRange_from_tables (lh_tables this))
    else connected_tables (lh_tables this) KeyTsRange_default"
  obtain tops r where c: "?c = (tops, r)" by fastforce
  from assms(1-3) have ne: "lh_tables this \<noteq> []" by (auto simp: fill_tables_level0_to_levelbase_def split: if_splits)
  have pr: "proper r \<and> (\<forall>t \<in> set tops. \<forall>k. tl_smallest t \<le> k \<and> k \<le> tl_biggest t \<longrightarrow> in_range k r)"
    using c connected_tables_start [OF assms(4) _ ne] proper_from_tables [OF ne assms(4)] from_tables_in_range
    by (auto split: if_splits)
  have "tops \<noteq> []"
    using c ne by (cases "lh_tables this")
      (auto simp: Let_def is_overlaps_with_def range_is_empty_def KeyTsRange_default_def KeyTs_is_empty_def split: if_splits prod.splits)
  moreover have "set tops \<subseteq> set (lh_tables this)"
  proof (cases "cp_drop_prefixes (pl_priority pl) = []")
    case True
    with c connected_tables_prefix [of "lh_tables this" KeyTsRange_default] obtain n where "tops = take n (lh_tables this)" by auto
    then show ?thesis by (simp add: set_take_subset)
  qed (use c in auto)
  moreover have "tables_in (lh_tables nxt) (overlap_tables (lh_tables nxt) r) = Inr (meeting r (lh_tables nxt))"
    using tables_in_meeting [OF assms(5)] pr by blast
  ultimately show ?thesis
    using assms(1-3) c ne pr
    by (auto simp: fill_tables_level0_to_levelbase_def and_then_Inr Let_def plan_complete_def split: if_splits)
qed

lemma collect_bottom_levels [simp]:
  "pl_this_level (collect_bottom ts n m pl) = pl_this_level pl" "pl_next_level (collect_bottom ts n m pl) = pl_next_level pl"
  by (induction ts n m pl rule: collect_bottom.induct) (auto simp: Let_def)

lemma fill_max_loop_levels:
  "fill_max_loop discard_ts now created tables ts pl cs = Inr (ok, pl', cs') \<Longrightarrow>
   pl_this_level pl' = pl_this_level pl \<and> pl_next_level pl' = pl_next_level pl"
proof (induction ts arbitrary: pl cs)
  case Nil
  then show ?case by (auto simp: and_then_Inr split: if_splits)
next
  case (Cons t ts)
  from Cons.prems show ?case
    by (auto simp: Let_def and_then_Inr split: if_splits dest!: Cons.IH)
qed

lemma fill_tables_levels:
  assumes "fill_tables discard_ts now created lc pl = Inr (True, pl', cs')" "pl_this_level pl = lg_max_level (lc_config lc) - 1"
  shows "pl_this_level pl' = pl_this_level pl" "pl_next_level pl' = pl_next_level pl"
  using assms fill_max_loop_levels
  by (auto simp: fill_tables_def fill_max_level_tables_def and_then_Inr level_minus_one_def sub_one_checked Let_def split: if_splits)

lemma fill_levelbase_levels:
  assumes "fill_tables_level0_to_levelbase lc pl = Inr (ok, pl', cs')" shows "pl_this_level pl' = pl_this_level pl"
proof (cases "pl_next_level pl = LEVEL0 \<or> cp_adjusted_low (pl_priority pl)")
  case True
  with assms show ?thesis by (auto simp: fill_tables_level0_to_levelbase_def split: if_splits)
next
  case False
  with assms obtain this nxt where h: "lc_handler lc (pl_this_level pl) = Inr this" "lc_handler lc (pl_next_level pl) = Inr nxt"
    by (auto simp: fill_tables_level0_to_levelbase_def and_then_Inr)
  obtain tops r where "(if cp_drop_prefixes (pl_priority pl) \<noteq> [] then (lh_tables this, KeyTsRange_from_tables (lh_tables this))
    else connected_tables (lh_tables this) KeyTsRange_default) = (tops, r)" by fastforce
  with assms False h show ?thesis
    by (cases "lh_tables this = []") (auto simp: fill_tables_level0_to_levelbase_def and_then_Inr Let_def)
qed

lemma fill_level0_levels:
  "fill_tables_level0_to_level0 now created lc pl cs = Inr (True, pl', cs') \<Longrightarrow>
   pl_this_level pl' = pl_this_level pl \<and> pl_next_level pl' = LEVEL0"
  by (auto simp: fill_tables_level0_to_level0_def and_then_Inr Let_def split: if_splits)

text \<open>The tables of the controller: with keys, and in order on every level but the first.\<close>

definition levels_ok :: "levels_controller \<Rightarrow> bool" where
  "levels_ok lc \<longleftrightarrow> (\<forall>lh \<in> set (lc_levels lc). \<forall>t \<in> set (lh_tables lh). keyed t) \<and>
     (\<forall>lh \<in> set (tl (lc_levels lc)). level_sorted (lh_tables lh))"

lemma levels_ok_handler:
  assumes "levels_ok lc" "lc_handler lc l = Inr lh"
  shows "\<forall>t \<in> set (lh_tables lh). keyed t" "l \<noteq> LEVEL0 \<Longrightarrow> level_sorted (lh_tables lh)"
proof -
  show "\<forall>t \<in> set (lh_tables lh). keyed t"
    using assms by (auto simp: levels_ok_def lc_handler_def index_def split: if_splits)
  assume "l \<noteq> LEVEL0"
  then have "unat l \<noteq> 0" by (simp add: LEVEL0_def unat_eq_0)
  then obtain i where "unat l = Suc i" by (cases "unat l") auto
  then have "lh \<in> set (tl (lc_levels lc))"
    using assms(2) by (cases "lc_levels lc") (auto simp: lc_handler_def index_def split: if_splits)
  with assms(1) show "level_sorted (lh_tables lh)" by (simp add: levels_ok_def)
qed

lemma fill_tables_keep_levels:
  assumes "fill_tables discard_ts now created lc pl = Inr (True, pl', cs')" "levels_ok lc" "pl_next_level pl \<noteq> LEVEL0"
  shows "pl_this_level pl' = pl_this_level pl \<and> pl_next_level pl' = pl_next_level pl"
proof (cases "pl_this_level pl = lg_max_level (lc_config lc) - 1")
  case True
  with fill_tables_levels [OF assms(1)] show ?thesis by simp
next
  case False
  then obtain this nxt where h: "lc_handler lc (pl_this_level pl) = Inr this" "lc_handler lc (pl_next_level pl) = Inr nxt"
    and f: "fill_tables_loop (lh_tables nxt) (sort_key table_max_version (lh_tables this)) pl (lc_status lc) = Inr (True, pl', cs')"
    using assms(1) by (auto simp: fill_tables_def and_then_Inr level_minus_one_def sub_one_checked split: if_splits)
  show ?thesis
    using fill_tables_loop_sound [OF levels_ok_handler(2) [OF assms(2) h(2) assms(3)] f] levels_ok_handler(1) [OF assms(2) h(1)] by auto
qed

lemma level_succ: "add_checked l 1 = Inr l' \<Longrightarrow> l' \<noteq> LEVEL0 \<and> l' \<noteq> l" for l :: level
  using eq_neg_iff_add_eq_0 [of l 1] by (simp add: add_one_checked LEVEL0_def)

lemma meeting_rest:
  "proper r \<Longrightarrow> u \<in> set ts \<Longrightarrow> u \<notin> set (meeting r ts) \<Longrightarrow> tl_smallest u \<le> k \<Longrightarrow> k \<le> tl_biggest u \<Longrightarrow> \<not> in_range k r"
  by (auto simp: meeting_def in_range_def proper_def not_le dest: le_less_trans less_le_trans)

lemma plan_fix_level0:
  assumes "plan_fix discard_ts now created lc pl = Inr (pl', cs')" "cp_level (pl_priority pl) = LEVEL0" "pl_this_level pl = LEVEL0"
    and "pl_next_level pl' \<noteq> pl_this_level pl'"
  shows "fill_tables_level0_to_levelbase lc pl = Inr (True, pl', cs')"
  using assms fill_level0_levels fill_levelbase_levels
  by (fastforce simp: plan_fix_def fill_tables_level0_def and_then_Inr split: if_splits)

lemma plan_fix_deeper:
  assumes "plan_fix discard_ts now created lc pl = Inr (pl', cs')" "cp_level (pl_priority pl) = pl_this_level pl" "pl_this_level pl \<noteq> LEVEL0"
    and "pl_next_level pl = pl_this_level pl" "pl_next_level pl' \<noteq> pl_this_level pl'" "levels_ok lc"
  obtains l where "pl_this_level pl \<noteq> lg_max_level (lc_config lc) - 1" "l \<noteq> LEVEL0"
    "fill_tables discard_ts now created lc (pl\<lparr>pl_next_level := l\<rparr>) = Inr (True, pl', cs')"
proof -
  obtain q where q: "fill_tables discard_ts now created lc q = Inr (True, pl', cs')"
    and c: "if pl_this_level pl \<noteq> lg_max_level (lc_config lc) - 1
      then \<exists>l. add_checked (pl_this_level pl) 1 = Inr l \<and> q = pl\<lparr>pl_next_level := l\<rparr> else q = pl"
    using assms(1-3) by (auto simp: plan_fix_def and_then_Inr level_minus_one_def sub_one_checked split: if_splits)
  have ne: "pl_this_level pl \<noteq> lg_max_level (lc_config lc) - 1"
  proof
    assume last: "pl_this_level pl = lg_max_level (lc_config lc) - 1"
    with c q have "fill_tables discard_ts now created lc pl = Inr (True, pl', cs')" by simp
    from fill_tables_levels [OF this last] assms(4,5) show False by simp
  qed
  with c q show ?thesis using that level_succ by (metis (no_types, lifting))
qed

lemma prepared_plan_complete:
  assumes "prepare_compact discard_ts now created task_id priority lc = Inr (pl, cs)" "levels_ok lc" "pl_next_level pl \<noteq> pl_this_level pl"
    and h: "lc_handler lc (pl_this_level pl) = Inr this" "lc_handler lc (pl_next_level pl) = Inr nxt"
  shows "plan_complete (lh_tables this) (lh_tables nxt) pl \<and> plan_try_update pl (lc_status lc) = Inr (True, cs)"
proof -
  obtain pr where f: "plan_fix discard_ts now created lc (CompactPlan_new task_id pr (cp_level pr)
      (if cp_level pr = LEVEL0 then ct_base_level (cp_targets pr) else cp_level pr)) = Inr (pl, cs)"
    using assms(1) unfolding prepare_compact_def Let_def
    by (cases "cp_level priority < lg_max_level (lc_config lc)") (simp_all only: and_then_Inr not_True_eq_False not_False_eq_True if_True if_False, auto)
  define nl where "nl = (if cp_level pr = LEVEL0 then ct_base_level (cp_targets pr) else cp_level pr)"
  note f = f [folded nl_def]
  let ?p = "CompactPlan_new task_id pr (cp_level pr) nl"
  have p: "cp_level (pl_priority ?p) = cp_level pr" "pl_this_level ?p = cp_level pr" "pl_next_level ?p = nl"
    by (simp_all add: CompactPlan_new_def)
  show ?thesis
  proof (cases "cp_level pr = LEVEL0")
    case True
    then have l: "cp_level (pl_priority ?p) = LEVEL0" "pl_this_level ?p = LEVEL0" using p by simp_all
    note b = plan_fix_level0 [OF f l assms(3)]
    then have nz: "pl_next_level ?p \<noteq> LEVEL0" by (auto simp: fill_tables_level0_to_levelbase_def split: if_splits)
    have lv: "pl_this_level pl = pl_this_level ?p" by (rule fill_levelbase_levels [OF b])
    have "\<exists>nxt'. lc_handler lc (pl_next_level ?p) = Inr nxt'"
      using b by (auto simp: fill_tables_level0_to_levelbase_def and_then_Inr split: if_splits)
    then obtain nxt' where nx: "lc_handler lc (pl_next_level ?p) = Inr nxt'" by blast
    have th: "lc_handler lc (pl_this_level ?p) = Inr this" using h(1) lv by simp
    from fill_levelbase_complete [OF b th nx levels_ok_handler(1) [OF assms(2) th] levels_ok_handler(2) [OF assms(2) nx nz]] h(2) nx
    show ?thesis by simp
  next
    case False
    then have nl: "pl_next_level ?p = pl_this_level ?p" "pl_this_level ?p \<noteq> LEVEL0" using p by (simp_all add: nl_def)
    obtain l where l: "pl_this_level ?p \<noteq> lg_max_level (lc_config lc) - 1" "l \<noteq> LEVEL0"
      "fill_tables discard_ts now created lc (?p\<lparr>pl_next_level := l\<rparr>) = Inr (True, pl, cs)"
      by (rule plan_fix_deeper [OF f _ nl(2,1) assms(3,2)]) (use p in auto)
    have nz: "pl_next_level (?p\<lparr>pl_next_level := l\<rparr>) \<noteq> LEVEL0" using l(2) by simp
    note k = fill_tables_keep_levels [OF l(3) assms(2) nz]
    have th: "lc_handler lc (pl_this_level (?p\<lparr>pl_next_level := l\<rparr>)) = Inr this" and nx: "lc_handler lc (pl_next_level (?p\<lparr>pl_next_level := l\<rparr>)) = Inr nxt"
      using h k by simp_all
    show ?thesis
      by (rule fill_tables_complete [OF l(3) _ th nx levels_ok_handler(1) [OF assms(2) th] levels_ok_handler(2) [OF assms(2) nx nz]])
        (use l(1) in simp)
  qed
qed

lemma complete_rest:
  assumes "plan_complete ts us pl" "\<not> kr_inf (pl_this_range pl)" "u \<in> set us" "u \<notin> set (pl_bottom pl)" "tl_smallest u \<le> k" "k \<le> tl_biggest u"
  shows "\<not> in_range k (pl_this_range pl)"
  using assms by (auto simp: plan_complete_def meeting_def in_range_def not_le dest: le_less_trans less_le_trans)

section \<open>Splits\<close>

text \<open>What a part of a compaction works on: from the left end, up to the right end if there is one.\<close>

definition in_split :: "key_ts \<Rightarrow> key_ts_range \<Rightarrow> bool" where
  "in_split k r \<longleftrightarrow> kr_left r \<le> k \<and> (KeyTs_is_empty (kr_right r) \<or> k < kr_right r)"

lemma split_loop_cover:
  assumes "ts \<noteq> []" "i + length ts = len" "kr_left r \<le> k"
  shows "\<exists>q \<in> set (split_loop len width i ts r). in_split k q"
  using assms
proof (induction len width i ts r rule: split_loop.induct)
  case (2 len width i t ts r)
  show ?case
  proof (cases "i = len - 1")
    case True
    with "2.prems" show ?thesis by (simp add: in_split_def KeyTs_is_empty_def)
  next
    case False
    then have ts: "ts \<noteq> []" "i + 1 + length ts = len" using "2.prems" by auto
    show ?thesis
    proof (cases "i mod width = width - 1")
      case split: True
      let ?right = "KeyTs (kt_key (tl_biggest t)) 0"
      show ?thesis
      proof (cases "k < ?right")
        case True
        with False split "2.prems"(3) show ?thesis by (simp add: in_split_def Let_def)
      next
        case ge: False
        have "\<exists>q \<in> set (split_loop len width (i + 1) ts (r\<lparr>kr_right := ?right, kr_left := ?right\<rparr>)). in_split k q"
          by (rule "2.IH"(1) [OF False split refl refl ts]) (use ge in simp)
        with False split show ?thesis by (simp add: Let_def)
      qed
    next
      case nosplit: False
      with "2.IH"(2) [OF False nosplit ts "2.prems"(3)] False show ?thesis by simp
    qed
  qed
qed simp

lemma split_loop_left: "q \<in> set (split_loop len width i ts r) \<Longrightarrow> (\<forall>t \<in> set ts. kr_left r \<le> KeyTs (kt_key (tl_biggest t)) 0) \<Longrightarrow>
    sorted (map (\<lambda>t. KeyTs (kt_key (tl_biggest t)) 0) ts) \<Longrightarrow> kr_left r \<le> kr_left q"
proof (induction len width i ts r rule: split_loop.induct)
  case (2 len width i t ts r)
  show ?case
  proof (cases "i = len - 1")
    case True
    with "2.prems" show ?thesis by simp
  next
    case False
    show ?thesis
    proof (cases "i mod width = width - 1")
      case split: True
      let ?right = "KeyTs (kt_key (tl_biggest t)) 0"
      consider "q = r\<lparr>kr_right := ?right\<rparr>" | "q \<in> set (split_loop len width (i + 1) ts (r\<lparr>kr_right := ?right, kr_left := ?right\<rparr>))"
        using "2.prems"(1) False split by (auto simp: Let_def)
      then show ?thesis
      proof cases
        case 2
        have "kr_left (r\<lparr>kr_right := ?right, kr_left := ?right\<rparr>) \<le> kr_left q"
          by (rule "2.IH"(1) [OF False split refl refl 2]) (use "2.prems"(3) in auto)
        with "2.prems"(2) show ?thesis by auto
      qed simp
    next
      case nosplit: False
      with "2.IH"(2) [OF False nosplit] "2.prems" False show ?thesis by simp
    qed
  qed
qed simp

abbreviation split_end :: "table \<Rightarrow> key_ts" where
  "split_end t \<equiv> KeyTs (kt_key (tl_biggest t)) 0"

lemma split_loop_chain:
  "\<forall>t \<in> set ts. kt_key (tl_biggest t) \<noteq> [] \<Longrightarrow> sorted (map split_end ts) \<Longrightarrow>
   sorted_wrt (\<lambda>q q'. \<not> KeyTs_is_empty (kr_right q) \<and> kr_right q \<le> kr_left q') (split_loop len width i ts r)"
proof (induction len width i ts r rule: split_loop.induct)
  case (2 len width i t ts r)
  show ?case
  proof (cases "i \<noteq> len - 1 \<and> i mod width = width - 1")
    case True
    let ?r = "r\<lparr>kr_right := split_end t, kr_left := split_end t\<rparr>"
    have ih: "sorted_wrt (\<lambda>q q'. \<not> KeyTs_is_empty (kr_right q) \<and> kr_right q \<le> kr_left q') (split_loop len width (i + 1) ts ?r)"
      using 2 True by (simp add: Let_def)
    have "split_end t \<le> kr_left q" if "q \<in> set (split_loop len width (i + 1) ts ?r)" for q
      using split_loop_left [OF that] "2.prems"(2) by simp
    with ih True "2.prems"(1) show ?thesis by (simp add: Let_def KeyTs_is_empty_iff)
  next
    case False
    with 2 show ?thesis by auto
  qed
qed simp

lemma sorted_split_ends: "level_sorted ts \<Longrightarrow> sorted (map split_end ts)"
  unfolding sorted_iff_nth_mono_less using level_sorted_nth(2) by (auto intro!: key_range_mono(2) [OF less_imp_le])

lemma splits_unique:
  assumes "sorted_wrt (\<lambda>q q'. \<not> KeyTs_is_empty (kr_right q) \<and> kr_right q \<le> kr_left q') qs"
    "i < length qs" "j < length qs" "in_split k (qs ! i)" "in_split k (qs ! j)"
  shows "i = j"
proof (rule ccontr)
  assume "i \<noteq> j"
  then consider "i < j" | "j < i" by linarith
  then show False
    using assms by cases (force simp: sorted_wrt_iff_nth_less in_split_def)+
qed

section \<open>Properties\<close>

text \<open>C19: A compaction from a level into another one takes in everything it meets: the keys of its upper
  tables lie in its range, it holds all tables of the lower level that meet the range, no key
  of any other table there lies in the range, and the status has accepted it.\<close>

theorem compaction_plan_complete:
  assumes "prepare_compact discard_ts now created task_id priority lc = Inr (pl, cs)" "levels_ok lc"
    and "pl_next_level pl \<noteq> pl_this_level pl" "\<not> kr_inf (pl_this_range pl)"
    and "lc_handler lc (pl_this_level pl) = Inr this" "lc_handler lc (pl_next_level pl) = Inr nxt"
  shows "set (pl_top pl) \<subseteq> set (lh_tables this) \<and> pl_top pl \<noteq> [] \<and> set (pl_bottom pl) \<subseteq> set (lh_tables nxt) \<and>
    (\<forall>t \<in> set (pl_top pl). \<forall>k. tl_smallest t \<le> k \<and> k \<le> tl_biggest t \<longrightarrow> in_range k (pl_this_range pl)) \<and>
    (\<forall>u \<in> set (lh_tables nxt) - set (pl_bottom pl). \<forall>k. tl_smallest u \<le> k \<and> k \<le> tl_biggest u \<longrightarrow> \<not> in_range k (pl_this_range pl)) \<and>
    plan_try_update pl (lc_status lc) = Inr (True, cs)"
proof -
  note c = prepared_plan_complete [OF assms(1-3,5,6)]
  then have "set (pl_bottom pl) \<subseteq> set (lh_tables nxt)" by (auto simp: plan_complete_def meeting_def)
  with c complete_rest [OF conjunct1 [OF c] assms(4)] show ?thesis by (auto simp: plan_complete_def)
qed

text \<open>The ranges a compaction is divided into are a partition: every key from the left end on lies in
  exactly one of them.\<close>

theorem splits_partition:
  assumes "pl_bottom pl \<noteq> []" "level_sorted (pl_bottom pl)" "\<forall>t \<in> set (pl_bottom pl). keyed t"
    and "proper (pl_this_range pl)" "pl_next_range pl = KeyTsRange_from_tables (pl_bottom pl)"
    and "kr_left (range_extend (pl_this_range pl) (pl_next_range pl)) \<le> k"
  shows "\<exists>!i. i < length (pl_splits (add_splits pl)) \<and> in_split k (pl_splits (add_splits pl) ! i)"
proof -
  let ?ts = "pl_bottom pl" and ?r = "range_extend (pl_this_range pl) (pl_next_range pl)"
  let ?w = "max ((length ?ts + 4) div 5) 3"
  have s: "pl_splits (add_splits pl) = split_loop (length ?ts) ?w 0 ?ts ?r" by (simp add: add_splits_def Let_def)
  have "\<forall>t \<in> set ?ts. kt_key (tl_biggest t) \<noteq> []" using assms(3) key_le_nonempty by (auto simp: keyed_def)
  note u = splits_unique [OF split_loop_chain [OF this sorted_split_ends [OF assms(2)], of "length ?ts" ?w 0 ?r]]
  have "\<exists>q \<in> set (split_loop (length ?ts) ?w 0 ?ts ?r). in_split k q"
    by (rule split_loop_cover) (use assms in auto)
  then obtain i where "i < length (split_loop (length ?ts) ?w 0 ?ts ?r)" "in_split k (split_loop (length ?ts) ?w 0 ?ts ?r ! i)"
    by (metis in_set_conv_nth)
  then show ?thesis unfolding s using u by blast
qed

text \<open>C34: The targets of the compactions have an entry for every level, none below the base size, and a base
  level that exists. It is not level 0, to which no table can be moved down, as long as the
  last level is not larger than the base size times the multiplier to the number of levels between.\<close>

theorem level_targets_bounds:
  assumes "level_targets lc = Inr targets" "n = length (lc_levels lc)" "2 \<le> n"
  shows "length (ct_target_size targets) = n \<and> length (ct_file_size targets) = n \<and> unat (ct_base_level targets) < n \<and>
    (\<forall>j \<in> {1 ..< n}. lg_base_level_size (lc_config lc) \<le> ct_target_size targets ! j) \<and>
    (lh_total_size (last (lc_levels lc)) div lg_level_size_multiplier (lc_config lc) ^ (n - 2) \<le> lg_base_level_size (lc_config lc)
       \<longrightarrow> ct_base_level targets \<noteq> LEVEL0)"
proof -
  let ?g = "lc_config lc" and ?sz = "lh_total_size (last (lc_levels lc))"
  let ?init = "\<lparr>ct_base_level = LEVEL0, ct_target_size = replicate n 0, ct_file_size = replicate n (0 :: nat)\<rparr>"
  let ?t = "target_sizes ?g n ?sz ?init"
  let ?base = "unat (ct_base_level ?t)"
  let ?skip = "skip_empty_levels (drop ?base (lc_levels lc)) ?base ?base"
  have n: "n < 255" "lc_levels lc \<noteq> []" using assms by (auto simp: level_targets_def Let_def last_level_handler_def split: if_splits)
  have m: "lg_level_size_multiplier ?g \<noteq> 0"
    using assms n by (auto simp: level_targets_def Let_def last_level_handler_def split: if_splits)
  have b0: "?base < n" "?sz div lg_level_size_multiplier ?g ^ (n - 2) \<le> lg_base_level_size ?g \<Longrightarrow> 0 < ?base"
    using target_sizes_base [of n ?init ?g ?sz] assms(3) n by simp_all
  have b1: "?base \<le> ?skip" "?skip < n" using skip_empty_bounds [of ?base ?base "drop ?base (lc_levels lc)"] b0(1) assms(2) by simp_all
  define b where "b = bump_base (lc_levels lc) (ct_target_size ?t) ?skip"
  have b: "?skip \<le> b" "b < n" using bump_base_bounds [of ?skip "lc_levels lc" "ct_target_size ?t"] b1(2) assms(2) by (simp_all add: b_def)
  have t: "targets = ?t\<lparr>ct_file_size := file_sizes ?g ?base 0 (ct_file_size ?t) (tg_table_size (lc_table_config lc)), ct_base_level := word_of_nat b\<rparr>"
    using assms(1) n m unfolding assms(2) b_def by (simp add: level_targets_def Let_def last_level_handler_def)
  have ub: "unat (word_of_nat b :: level) = b" using b n by (intro unat_level_of_nat) simp
  have "\<forall>j \<in> {1 ..< n}. lg_base_level_size ?g \<le> ct_target_size targets ! j"
    using target_sizes_ge [of _ n ?init ?g ?sz] by (simp add: t)
  moreover have "ct_base_level targets \<noteq> LEVEL0" if "?sz div lg_level_size_multiplier ?g ^ (n - 2) \<le> lg_base_level_size ?g"
    using b0(2) [OF that] b1 b ub by (auto simp: t LEVEL0_def)
  ultimately show ?thesis using b ub by (simp add: t target_sizes_lengths)
qed

section \<open>A concrete tree\<close>

definition demo_config :: levels_controller_config where
  "demo_config = LevelsControllerConfig_default\<lparr>lg_max_level := 3\<rparr>"

definition demo_handler :: "level \<Rightarrow> table list \<Rightarrow> level_handler" where
  "demo_handler l ts = init_tables ts (LevelHandler_new l)"

definition demo_lc :: levels_controller where
  "demo_lc = \<lparr>lc_manifest = demo_mf0, lc_next_file_id = 9,
     lc_levels = [demo_handler 0 [], demo_handler 1 [demo_level_table 7 (KeyTs [99] 5) (KeyTs [101] 5) 0], demo_handler 2 demo_level_tables],
     lc_status = \<lparr>cs_levels = replicate 3 LevelCompactStatus_default, cs_tables = {}\<rparr>, lc_config = demo_config, lc_table_config = demo_tc\<rparr>"

definition demo_priority :: compact_priority where
  "demo_priority = \<lparr>cp_level = 1, cp_adjusted_low = False, cp_drop_prefixes = [],
     cp_targets = \<lparr>ct_base_level = 2, ct_target_size = [0, 0, 0], ct_file_size = [0, 0, 0]\<rparr>\<rparr>"

lemma demo_tables: "lh_tables (demo_handler 2 demo_level_tables) = demo_level_tables"
  by (simp add: demo_handler_def init_tables_def LevelHandler_new_def LEVEL0_def demo_level_tables_def demo_level_table_def
      less_eq_key_ts_iff)

lemma demo_levels_ok: "levels_ok demo_lc"
  using demo_level_sorted demo_tables
  by (simp add: levels_ok_def demo_lc_def) (simp add: demo_handler_def init_tables_def LevelHandler_new_def LEVEL0_def level_sorted_def keyed_def
      demo_level_table_def less_eq_key_ts_iff)

theorem level_targets_bounds_witness:
  "\<exists>targets. level_targets demo_lc = Inr targets \<and> ct_base_level targets \<noteq> LEVEL0 \<and> unat (ct_base_level targets) < 3"
proof -
  have "is_ok (level_targets demo_lc)"
    by (rule level_targets_ok) (simp_all add: demo_lc_def demo_config_def LevelsControllerConfig_default_def)
  then obtain targets where t: "level_targets demo_lc = Inr targets" by (auto simp: is_ok_iff)
  have "lh_total_size (last (lc_levels demo_lc)) = 300" "length (lc_levels demo_lc) = 3"
    "lg_base_level_size (lc_config demo_lc) = 10 * 2 ^ 20"
    by (simp_all add: demo_lc_def demo_handler_def init_tables_def demo_level_tables_def demo_level_table_def demo_config_def
        LevelsControllerConfig_default_def)
  with level_targets_bounds [OF t refl] t show ?thesis by (auto simp: demo_lc_def demo_config_def LevelsControllerConfig_default_def)
qed

definition demo_plan :: compact_plan where
  "demo_plan = (CompactPlan_new 1 demo_priority 1 2)\<lparr>pl_top := [demo_level_table 7 (KeyTs [99] 5) (KeyTs [101] 5) 0],
     pl_this_range := demo_range, pl_bottom := drop 1 demo_level_tables, pl_next_range := KeyTsRange_from_tables (drop 1 demo_level_tables),
     pl_this_size := 100\<rparr>"

lemma demo_meeting: "meeting demo_range demo_level_tables = drop 1 demo_level_tables"
  by (simp add: meeting_def demo_range_def KeyTsRange_from_table_def demo_level_tables_def demo_level_table_def less_eq_key_ts_iff)

lemma demo_range_proper: "proper demo_range"
  unfolding demo_range_def by (rule proper_from_table) (simp add: keyed_def demo_level_table_def less_eq_key_ts_iff)

lemma demo_prepared: "\<exists>cs. prepare_compact 0 0 (\<lambda>_. 0) 1 demo_priority demo_lc = Inr (demo_plan, cs)"
proof -
  note tin = tables_in_meeting [OF demo_level_sorted(1) demo_range_proper, unfolded demo_meeting]
  have h: "lc_handler demo_lc 1 = Inr (demo_handler 1 [demo_level_table 7 (KeyTs [99] 5) (KeyTs [101] 5) 0])"
    "lc_handler demo_lc 2 = Inr (demo_handler 2 demo_level_tables)" by (simp_all add: lc_handler_def demo_lc_def index_def)
  have t1: "lh_tables (demo_handler 1 [t]) = [t]" for t by (simp add: demo_handler_def init_tables_def)
  have tl_size: "tl_table_size (demo_level_table i a b c) = 100" for i a b c by (simp add: demo_level_table_def)
  have ne: "length demo_level_tables = 3" by (simp add: demo_level_tables_def)
  have m: "lg_max_level (lc_config demo_lc) = 3" by (simp add: demo_lc_def demo_config_def)
  have busy: "status_overlaps_with (lc_status demo_lc) l r = Inr False" if "unat l < 3" for l r
    using that by (simp add: demo_lc_def status_overlaps_with_def index_def level_overlaps_with_def LevelCompactStatus_default_def)
  have acc: "\<exists>cs. plan_try_update demo_plan (lc_status demo_lc) = Inr (True, cs)"
    using busy by (simp add: plan_try_update_def try_update_def demo_plan_def CompactPlan_new_def status_push_def index_def demo_lc_def)
  then obtain cs where acc: "plan_try_update demo_plan (lc_status demo_lc) = Inr (True, cs)" by blast
  show ?thesis
    using acc by (simp add: m busy prepare_compact_def refresh_targets_def h plan_fix_def fill_tables_def level_minus_one_def sub_checked_def add_checked_def t1 demo_tables
        tin [simplified] ne Let_def demo_priority_def LEVEL0_def CompactPlan_new_def demo_plan_def demo_range_def [symmetric] tl_size)
qed

theorem compaction_plan_complete_witness:
  "\<exists>pl cs. prepare_compact 0 0 (\<lambda>_. 0) 1 demo_priority demo_lc = Inr (pl, cs) \<and> map tl_table_id (pl_bottom pl) = [2, 3] \<and>
     (\<forall>u \<in> set demo_level_tables - set (pl_bottom pl). \<forall>k. tl_smallest u \<le> k \<and> k \<le> tl_biggest u \<longrightarrow> \<not> in_range k (pl_this_range pl))"
proof -
  obtain cs where p: "prepare_compact 0 0 (\<lambda>_. 0) 1 demo_priority demo_lc = Inr (demo_plan, cs)" using demo_prepared by blast
  have l: "pl_this_level demo_plan = 1" "pl_next_level demo_plan = 2" by (simp_all add: demo_plan_def CompactPlan_new_def)
  have h: "lc_handler demo_lc 1 = Inr (demo_handler 1 [demo_level_table 7 (KeyTs [99] 5) (KeyTs [101] 5) 0])"
    "lc_handler demo_lc 2 = Inr (demo_handler 2 demo_level_tables)" by (simp_all add: lc_handler_def demo_lc_def index_def)
  have "\<not> kr_inf (pl_this_range demo_plan)" using demo_range_proper by (simp add: demo_plan_def proper_def)
  from compaction_plan_complete [OF p demo_levels_ok _ this, unfolded l, OF _ h] demo_tables p
  have "\<forall>u \<in> set demo_level_tables - set (pl_bottom demo_plan). \<forall>k. tl_smallest u \<le> k \<and> k \<le> tl_biggest u \<longrightarrow> \<not> in_range k (pl_this_range demo_plan)"
    by simp
  moreover have "map tl_table_id (pl_bottom demo_plan) = [2, 3]" by (simp add: demo_plan_def demo_level_tables_def demo_level_table_def)
  ultimately show ?thesis using p by (intro exI [of _ demo_plan] exI [of _ cs] conjI)
qed

theorem splits_partition_witness:
  "\<exists>!i. i < length (pl_splits (add_splits demo_plan)) \<and> in_split (KeyTs [100] 4) (pl_splits (add_splits demo_plan) ! i)"
proof (rule splits_partition)
  show b: "pl_bottom demo_plan \<noteq> []" "level_sorted (pl_bottom demo_plan)" "\<forall>t \<in> set (pl_bottom demo_plan). keyed t"
    by (simp_all add: demo_plan_def demo_level_tables_def demo_level_table_def level_sorted_def keyed_def less_eq_key_ts_iff less_key_ts_iff)
  show r: "proper (pl_this_range demo_plan)" "pl_next_range demo_plan = KeyTsRange_from_tables (pl_bottom demo_plan)"
    using demo_range_proper by (simp_all add: demo_plan_def)
  have q: "proper (pl_next_range demo_plan)" unfolding r(2) by (rule proper_from_tables [OF b(1,3)])
  show "kr_left (range_extend (pl_this_range demo_plan) (pl_next_range demo_plan)) \<le> KeyTs [100] 4"
    unfolding extend_proper(1) [OF r(1) q] key_ts_range.simps min_le_iff_disj
    by (simp add: demo_plan_def demo_range_def KeyTsRange_from_table_def demo_level_table_def less_eq_key_ts_iff)
qed

end
