(* ===== verification/TableIter.thy ===== *)
theory TableIter
  imports Table
begin

text \<open>
  Iterating over several tables (\<open>src/src/table/iter.rs\<close>): one table after the other, and the binary
  merge of iterators that compactions read from. A merge holds nodes, a node an iterator, which may
  be a merge again; the three types are mutually recursive as in the code. Asking for a side
  that is not there is the panic of \<open>unwrap\<close>. The loops of the merge take fuel, which every call
  uses up, and out of fuel they are \<open>None\<close>; on a failure the iterator is gone, as callers
  pass the failure on. Keys are compared as the encoded keys of \<open>KV\<close>.
\<close>

section \<open>Fallible steps with fuel\<close>

definition ok_then :: "'a outcome option \<Rightarrow> ('a \<Rightarrow> 'b outcome option) \<Rightarrow> 'b outcome option" where
  "ok_then r f = (case r of None \<Rightarrow> None | Some (Inl e) \<Rightarrow> Some (Inl e) | Some (Inr x) \<Rightarrow> f x)"

lemma ok_then_simps [simp]:
  "ok_then None f = None" "ok_then (Some (Inl e)) f = Some (Inl e)" "ok_then (Some (Inr x)) f = f x"
  by (simp_all add: ok_then_def)

lemma ok_then_Inr: "ok_then r f = Some (Inr y) \<longleftrightarrow> (\<exists>x. r = Some (Inr x) \<and> f x = Some (Inr y))"
  by (auto simp: ok_then_def split: option.splits sum.splits)

section \<open>Keys and values of a table iterator\<close>

definition table_key :: "table_iter \<Rightarrow> bytes option" where
  "table_key it = (case tt_block_iter it of None \<Rightarrow> None | Some b \<Rightarrow> block_key b)"

definition table_value :: "table_env \<Rightarrow> table_iter \<Rightarrow> value_meta option outcome" where
  "table_value te it = (case tt_block_iter it of None \<Rightarrow> Inr None | Some b \<Rightarrow> block_value (te_enc te) (te_dec te) b)"

definition table_key_back :: "table_iter \<Rightarrow> bytes option" where
  "table_key_back it = (case tt_back_block_iter it of None \<Rightarrow> None | Some b \<Rightarrow> block_key_back b)"

definition table_value_back :: "table_env \<Rightarrow> table_iter \<Rightarrow> value_meta option outcome" where
  "table_value_back te it = (case tt_back_block_iter it of None \<Rightarrow> Inr None | Some b \<Rightarrow> block_value_back (te_enc te) (te_dec te) b)"

section \<open>One table after the other\<close>

record concat_iter =
  ct_index :: "nat option"
  ct_back_index :: "nat option"
  ct_iters :: "table_iter option list"
  ct_tables :: "table list"

definition SinkTableConcatIter_new :: "table list \<Rightarrow> concat_iter" where
  "SinkTableConcatIter_new tables =
     \<lparr>ct_index = None, ct_back_index = None, ct_iters = replicate (length tables) None, ct_tables = tables\<rparr>"

definition concat_get :: "concat_iter \<Rightarrow> nat option \<Rightarrow> table_iter option" where
  "concat_get ci i = (case i of Some i \<Rightarrow> if i < length (ct_iters ci) then ct_iters ci ! i else None | None \<Rightarrow> None)"

definition concat_item :: "concat_iter \<Rightarrow> table_iter option" where
  "concat_item ci = concat_get ci (ct_index ci)"

definition concat_item_back :: "concat_iter \<Rightarrow> table_iter option" where
  "concat_item_back ci = concat_get ci (ct_back_index ci)"

definition concat_key :: "concat_iter \<Rightarrow> bytes option" where
  "concat_key ci = (case concat_item ci of None \<Rightarrow> None | Some it \<Rightarrow> table_key it)"

definition concat_value :: "table_env \<Rightarrow> concat_iter \<Rightarrow> value_meta option outcome" where
  "concat_value te ci = (case concat_item ci of None \<Rightarrow> Inr None | Some it \<Rightarrow> table_value te it)"

text \<open>The back end asks the iterator it stands on for the key at its front.\<close>

definition concat_key_back :: "concat_iter \<Rightarrow> bytes option" where
  "concat_key_back ci = (case concat_item_back ci of None \<Rightarrow> None | Some it \<Rightarrow> table_key it)"

definition concat_value_back :: "table_env \<Rightarrow> concat_iter \<Rightarrow> value_meta option outcome" where
  "concat_value_back te ci = (case concat_item_back ci of None \<Rightarrow> Inr None | Some it \<Rightarrow> table_value te it)"

definition concat_double_ended_eq :: "table_env \<Rightarrow> concat_iter \<Rightarrow> bool outcome" where
  "concat_double_ended_eq te ci =
     (if concat_key ci = concat_key_back ci then
        and_then (concat_value te ci) (\<lambda>v. and_then (concat_value_back te ci) (\<lambda>w. Inr (v = w)))
      else Inr False)"

definition concat_unless_met :: "table_env \<Rightarrow> concat_iter \<Rightarrow> (bool \<times> concat_iter) outcome" where
  "concat_unless_met te ci = and_then (concat_double_ended_eq te ci) (\<lambda>met. Inr (\<not> met, ci))"

text \<open>A new iterator on the table with a given number, moved by a step, is put in its place; the
  number the concatenation stands on is not changed.\<close>

definition concat_enter ::
  "table_env \<Rightarrow> (table_iter \<Rightarrow> (bool \<times> table_iter) outcome) \<Rightarrow> nat \<Rightarrow> concat_iter \<Rightarrow> (bool \<times> concat_iter) outcome" where
  "concat_enter te step new_index ci =
     and_then (index (ct_tables ci) new_index) (\<lambda>t.
     and_then (step (table_iter_new t)) (\<lambda>(more, it).
     if \<not> more then Inr (False, ci)
     else if new_index < length (ct_iters ci) then concat_unless_met te (ci\<lparr>ct_iters := (ct_iters ci)[new_index := Some it]\<rparr>)
     else Inl Panic))"

definition concat_next :: "table_env \<Rightarrow> concat_iter \<Rightarrow> (bool \<times> concat_iter) outcome" where
  "concat_next te ci =
     and_then (concat_double_ended_eq te ci) (\<lambda>met.
     if met then Inr (False, ci)
     else case ct_index ci of
       Some i \<Rightarrow>
         and_then (index (ct_iters ci) i) (\<lambda>cur.
         case cur of
           Some it \<Rightarrow>
             and_then (table_next te it) (\<lambda>(more, it).
             let ci = ci\<lparr>ct_iters := (ct_iters ci)[i := Some it]\<rparr> in
             if more then concat_unless_met te ci
             else and_then (sub_usize (length (ct_tables ci)) 1) (\<lambda>l.
                  if i = l then Inr (False, ci) else concat_enter te (table_next te) (i + 1) ci))
         | None \<Rightarrow> concat_enter te (table_next te) i ci)
     | None \<Rightarrow> if length (ct_tables ci) = 0 then Inr (False, ci) else concat_enter te (table_next te) 0 ci)"

text \<open>Backwards, the current table is moved forwards, and the table before any other is the first.\<close>

definition concat_next_back :: "table_env \<Rightarrow> concat_iter \<Rightarrow> (bool \<times> concat_iter) outcome" where
  "concat_next_back te ci =
     and_then (concat_double_ended_eq te ci) (\<lambda>met.
     if met then Inr (False, ci)
     else case ct_back_index ci of
       Some i \<Rightarrow>
         and_then (index (ct_iters ci) i) (\<lambda>cur.
         case cur of
           Some it \<Rightarrow>
             and_then (table_next te it) (\<lambda>(more, it).
             let ci = ci\<lparr>ct_iters := (ct_iters ci)[i := Some it]\<rparr> in
             if more then concat_unless_met te ci
             else if i = 0 then Inr (False, ci) else concat_enter te (table_next_back te) 0 ci)
         | None \<Rightarrow> concat_enter te (table_next_back te) i ci)
     | None \<Rightarrow>
         if length (ct_tables ci) = 0 then Inr (False, ci)
         else concat_enter te (table_next_back te) (length (ct_tables ci) - 1) ci)"

definition concat_seek :: "table_env \<Rightarrow> bytes \<Rightarrow> concat_iter \<Rightarrow> (bool \<times> concat_iter) outcome" where
  "concat_seek te k ci =
     (let i = (case binary_search_by (\<lambda>t. KeyTs_partial_cmp_borrow (tl_biggest t) k) (ct_tables ci) of Inl i \<Rightarrow> i | Inr i \<Rightarrow> i) in
      if i = length (ct_tables ci) then Inr (False, ci)
      else and_then (index (ct_iters ci) i) (\<lambda>cur.
        case cur of
          Some it \<Rightarrow> and_then (table_seek te k it) (\<lambda>(found, it). Inr (found, ci\<lparr>ct_iters := (ct_iters ci)[i := Some it]\<rparr>))
        | None \<Rightarrow>
            and_then (index (ct_tables ci) i) (\<lambda>t.
            and_then (table_seek te k (table_iter_new t)) (\<lambda>(found, it).
            if found then Inr (True, ci\<lparr>ct_index := Some i, ct_iters := (ct_iters ci)[i := Some it]\<rparr>)
            else Inr (False, ci)))))"

section \<open>Merging\<close>

text \<open>The enum \<open>SinkMergeNodeIter\<close> and the structs \<open>SinkMergeNode\<close> and \<open>SinkMergeIter\<close> contain each other, so they are
  declared together.\<close>

datatype merge_node_iter =
    TableNode table_iter
  | TableConcatNode concat_iter
  | MergeNode merge_iter
and merge_node =
    SinkMergeNode (mn_valid: bool) (mn_valid_back: bool) (mn_iter: merge_node_iter)
and merge_iter =
    SinkMergeIter (mi_left: merge_node) (mi_right: "merge_node option") (mi_temp_key: bytes)
      (mi_back_temp_key: bytes) (mi_left_small: bool) (mi_back_left_big: bool)

definition merge_node_from :: "merge_node_iter \<Rightarrow> merge_node" where
  "merge_node_from it = SinkMergeNode True True it"

lemma halves_less: "n \<noteq> 0 \<Longrightarrow> n \<noteq> Suc 0 \<Longrightarrow> n - n div 2 < n" for n :: nat
  by arith

function SinkMergeIter_new :: "merge_node_iter list \<Rightarrow> merge_iter option outcome" where
  "SinkMergeIter_new iters =
     (let mk = (\<lambda>left right. SinkMergeIter left right [] [] True True) in
      if length iters = 0 then Inr None
      else if length iters = 1 then Inr (Some (mk (merge_node_from (last iters)) None))
      else if length iters = 2 then
        Inr (Some (mk (merge_node_from (last (butlast iters))) (Some (merge_node_from (last iters)))))
      else
        let mid = length iters div 2 in
        and_then (SinkMergeIter_new (take mid iters)) (\<lambda>l. and_then (unwrap l) (\<lambda>left.
        and_then (SinkMergeIter_new (drop mid iters)) (\<lambda>r. and_then (unwrap r) (\<lambda>right.
        Inr (Some (mk (merge_node_from (MergeNode left)) (Some (merge_node_from (MergeNode right))))))))))"
  by pat_completeness auto

termination
  by (relation "measure length") (auto intro!: halves_less)

declare SinkMergeIter_new.simps [simp del]

definition merge_smaller :: "merge_iter \<Rightarrow> merge_node outcome" where
  "merge_smaller m = (if mi_left_small m then Inr (mi_left m) else unwrap (mi_right m))"

definition merge_bigger :: "merge_iter \<Rightarrow> merge_node outcome" where
  "merge_bigger m = (if mi_left_small m then unwrap (mi_right m) else Inr (mi_left m))"

definition merge_back_smaller :: "merge_iter \<Rightarrow> merge_node outcome" where
  "merge_back_smaller m = (if mi_back_left_big m then unwrap (mi_right m) else Inr (mi_left m))"

definition merge_back_bigger :: "merge_iter \<Rightarrow> merge_node outcome" where
  "merge_back_bigger m = (if mi_back_left_big m then Inr (mi_left m) else unwrap (mi_right m))"

text \<open>What the mutable references to the two sides are for: putting a node back.\<close>

fun set_side :: "bool \<Rightarrow> merge_node \<Rightarrow> merge_iter \<Rightarrow> merge_iter" where
  "set_side is_left n (SinkMergeIter l r tk bk ls bl) =
     (if is_left then SinkMergeIter n r tk bk ls bl else SinkMergeIter l (Some n) tk bk ls bl)"

definition set_smaller :: "merge_node \<Rightarrow> merge_iter \<Rightarrow> merge_iter" where
  "set_smaller n m = set_side (mi_left_small m) n m"

definition set_bigger :: "merge_node \<Rightarrow> merge_iter \<Rightarrow> merge_iter" where
  "set_bigger n m = set_side (\<not> mi_left_small m) n m"

definition set_back_smaller :: "merge_node \<Rightarrow> merge_iter \<Rightarrow> merge_iter" where
  "set_back_smaller n m = set_side (\<not> mi_back_left_big m) n m"

definition set_back_bigger :: "merge_node \<Rightarrow> merge_iter \<Rightarrow> merge_iter" where
  "set_back_bigger n m = set_side (mi_back_left_big m) n m"

fun flip :: "merge_iter \<Rightarrow> merge_iter" where
  "flip (SinkMergeIter l r tk bk ls bl) = SinkMergeIter l r tk bk (\<not> ls) bl"

fun back_flip :: "merge_iter \<Rightarrow> merge_iter" where
  "back_flip (SinkMergeIter l r tk bk ls bl) = SinkMergeIter l r tk bk ls (\<not> bl)"

fun set_temp_key :: "bytes \<Rightarrow> merge_iter \<Rightarrow> merge_iter" where
  "set_temp_key k (SinkMergeIter l r tk bk ls bl) = SinkMergeIter l r k bk ls bl"

fun set_back_temp_key :: "bytes \<Rightarrow> merge_iter \<Rightarrow> merge_iter" where
  "set_back_temp_key k (SinkMergeIter l r tk bk ls bl) = SinkMergeIter l r tk k ls bl"

definition merge_valid :: "merge_iter \<Rightarrow> bool outcome" where
  "merge_valid m = and_then (merge_smaller m) (\<lambda>n. Inr (mn_valid n))"

fun node_iter_key :: "merge_node_iter \<Rightarrow> bytes option outcome"
  and node_key :: "merge_node \<Rightarrow> bytes option outcome"
  and merge_key :: "merge_iter \<Rightarrow> bytes option outcome" where
  "node_iter_key (TableNode it) = Inr (table_key it)"
| "node_iter_key (TableConcatNode ci) = Inr (concat_key ci)"
| "node_iter_key (MergeNode m) = merge_key m"
| "node_key (SinkMergeNode v vb it) = (if v then node_iter_key it else Inr None)"
| "merge_key (SinkMergeIter l r tk bk ls bl) =
     (if ls then node_key l else case r of None \<Rightarrow> Inl Panic | Some n \<Rightarrow> node_key n)"

fun node_iter_value :: "table_env \<Rightarrow> merge_node_iter \<Rightarrow> value_meta option outcome"
  and node_value :: "table_env \<Rightarrow> merge_node \<Rightarrow> value_meta option outcome"
  and merge_value :: "table_env \<Rightarrow> merge_iter \<Rightarrow> value_meta option outcome" where
  "node_iter_value te (TableNode it) = table_value te it"
| "node_iter_value te (TableConcatNode ci) = concat_value te ci"
| "node_iter_value te (MergeNode m) = merge_value te m"
| "node_value te (SinkMergeNode v vb it) = (if v then node_iter_value te it else Inr None)"
| "merge_value te (SinkMergeIter l r tk bk ls bl) =
     (if ls then node_value te l else case r of None \<Rightarrow> Inl Panic | Some n \<Rightarrow> node_value te n)"

fun node_iter_key_back :: "merge_node_iter \<Rightarrow> bytes option outcome"
  and node_key_back :: "merge_node \<Rightarrow> bytes option outcome"
  and merge_key_back :: "merge_iter \<Rightarrow> bytes option outcome" where
  "node_iter_key_back (TableNode it) = Inr (table_key_back it)"
| "node_iter_key_back (TableConcatNode ci) = Inr (concat_key_back ci)"
| "node_iter_key_back (MergeNode m) = merge_key_back m"
| "node_key_back (SinkMergeNode v vb it) = (if vb then node_iter_key_back it else Inr None)"
| "merge_key_back (SinkMergeIter l r tk bk ls bl) =
     (if bl then node_key_back l else case r of None \<Rightarrow> Inl Panic | Some n \<Rightarrow> node_key_back n)"

fun node_iter_value_back :: "table_env \<Rightarrow> merge_node_iter \<Rightarrow> value_meta option outcome"
  and node_value_back :: "table_env \<Rightarrow> merge_node \<Rightarrow> value_meta option outcome"
  and merge_value_back :: "table_env \<Rightarrow> merge_iter \<Rightarrow> value_meta option outcome" where
  "node_iter_value_back te (TableNode it) = table_value_back te it"
| "node_iter_value_back te (TableConcatNode ci) = concat_value_back te ci"
| "node_iter_value_back te (MergeNode m) = merge_value_back te m"
| "node_value_back te (SinkMergeNode v vb it) = (if vb then node_iter_value_back te it else Inr None)"
| "merge_value_back te (SinkMergeIter l r tk bk ls bl) =
     (if bl then node_value_back te l else case r of None \<Rightarrow> Inl Panic | Some n \<Rightarrow> node_value_back te n)"

text \<open>\<open>Option::cmp\<close> on keys: nothing is less than any key.\<close>

fun compare_keys :: "bytes option \<Rightarrow> bytes option \<Rightarrow> ordering" where
  "compare_keys None None = Equal"
| "compare_keys None (Some _) = Less"
| "compare_keys (Some _) None = Greater"
| "compare_keys (Some a) (Some b) = KeyTsBorrow_cmp a b"

subsection \<open>The loop of next\<close>

type_synonym node_step = "merge_node \<Rightarrow> (bool \<times> merge_node) outcome option"

text \<open>Ordering the two sides by their keys; of two equal keys the bigger side's is passed over.\<close>

definition merge_order :: "node_step \<Rightarrow> merge_iter \<Rightarrow> merge_iter outcome option" where
  "merge_order step m =
     ok_then (Some (and_then (merge_smaller m) node_key)) (\<lambda>ks.
     ok_then (Some (merge_bigger m)) (\<lambda>big.
     ok_then (Some (node_key big)) (\<lambda>kb.
     case compare_keys ks kb of
       Less \<Rightarrow> Some (Inr m)
     | Equal \<Rightarrow> ok_then (step big) (\<lambda>(_, big). Some (Inr (set_bigger big m)))
     | Greater \<Rightarrow> Some (Inr (flip m)))))"

definition merge_round :: "node_step \<Rightarrow> merge_iter \<Rightarrow> merge_iter outcome option" where
  "merge_round step m =
     ok_then (Some (merge_smaller m)) (\<lambda>small.
     ok_then (step small) (\<lambda>(more, small).
     let m = set_smaller small m in
     ok_then (Some (merge_bigger m)) (\<lambda>big.
     if mn_valid big then
       if more then
         ok_then (Some (node_key big)) (\<lambda>kb.
         if kb = None then
           ok_then (step big) (\<lambda>(more, big).
           let m = set_bigger big m in if more then merge_order step m else Some (Inr m))
         else merge_order step m)
       else Some (Inr (flip m))
     else Some (Inr m))))"

text \<open>Whether the side to be read has a key that is not the last one returned, or the loop has to go on.\<close>

definition merge_ready :: "merge_iter \<Rightarrow> (bool \<times> merge_iter) option outcome" where
  "merge_ready m =
     and_then (merge_smaller m) (\<lambda>small.
     if \<not> mn_valid small then Inr (Some (False, m))
     else and_then (node_key small) (\<lambda>k.
       case k of
         Some k \<Rightarrow>
           if mi_temp_key m \<noteq> k then
             if mi_back_temp_key m \<noteq> [] \<and> mi_back_temp_key m = k then Inr (Some (False, m))
             else Inr (Some (True, set_temp_key k m))
           else Inr None
       | None \<Rightarrow> Inr None))"

fun node_iter_next :: "table_env \<Rightarrow> nat \<Rightarrow> merge_node_iter \<Rightarrow> (bool \<times> merge_node_iter) outcome option"
  and node_next :: "table_env \<Rightarrow> nat \<Rightarrow> merge_node \<Rightarrow> (bool \<times> merge_node) outcome option"
  and merge_next :: "table_env \<Rightarrow> nat \<Rightarrow> merge_iter \<Rightarrow> (bool \<times> merge_iter) outcome option" where
  "node_iter_next te 0 it = None"
| "node_iter_next te (Suc n) it =
     (case it of
        TableNode t \<Rightarrow> Some (and_then (table_next te t) (\<lambda>(more, t). Inr (more, TableNode t)))
      | TableConcatNode c \<Rightarrow> Some (and_then (concat_next te c) (\<lambda>(more, c). Inr (more, TableConcatNode c)))
      | MergeNode m \<Rightarrow> ok_then (merge_next te n m) (\<lambda>(more, m). Some (Inr (more, MergeNode m))))"
| "node_next te 0 nd = None"
| "node_next te (Suc n) nd =
     ok_then (node_iter_next te n (mn_iter nd)) (\<lambda>(more, it).
     Some (Inr (more, SinkMergeNode (mn_valid nd \<and> more) (mn_valid_back nd) it)))"
| "merge_next te 0 m = None"
| "merge_next te (Suc n) m =
     ok_then (Some (merge_ready m)) (\<lambda>r.
     case r of
       Some r \<Rightarrow> Some (Inr r)
     | None \<Rightarrow> ok_then (merge_round (\<lambda>nd. node_next te n nd) m) (\<lambda>m. merge_next te n m))"

subsection \<open>The loop of next back, and seek\<close>

definition merge_order_back :: "node_step \<Rightarrow> merge_iter \<Rightarrow> merge_iter outcome option" where
  "merge_order_back step m =
     ok_then (Some (and_then (merge_back_bigger m) node_key_back)) (\<lambda>kb.
     ok_then (Some (merge_back_smaller m)) (\<lambda>small.
     ok_then (Some (node_key_back small)) (\<lambda>ks.
     case compare_keys kb ks of
       Less \<Rightarrow> Some (Inr (back_flip m))
     | Equal \<Rightarrow> ok_then (step small) (\<lambda>(_, small). Some (Inr (set_back_smaller small m)))
     | Greater \<Rightarrow> Some (Inr m))))"

definition merge_round_back :: "node_step \<Rightarrow> merge_iter \<Rightarrow> merge_iter outcome option" where
  "merge_round_back step m =
     ok_then (Some (merge_back_bigger m)) (\<lambda>big.
     ok_then (step big) (\<lambda>(more, big).
     let m = set_back_bigger big m in
     ok_then (Some (merge_back_smaller m)) (\<lambda>small.
     if mn_valid small then
       if more then
         ok_then (Some (node_key_back small)) (\<lambda>ks.
         if ks = None then
           ok_then (step small) (\<lambda>(more, small).
           let m = set_back_smaller small m in if more then merge_order_back step m else Some (Inr m))
         else merge_order_back step m)
       else Some (Inr (back_flip m))
     else Some (Inr m))))"

text \<open>The test on the last key returned is for equality here, and the validity is that of the front.\<close>

definition merge_ready_back :: "merge_iter \<Rightarrow> (bool \<times> merge_iter) option outcome" where
  "merge_ready_back m =
     and_then (merge_back_bigger m) (\<lambda>big.
     if \<not> mn_valid big then Inr (Some (False, m))
     else and_then (node_key_back big) (\<lambda>k.
       case k of
         Some k \<Rightarrow>
           if mi_back_temp_key m = k then
             if mi_temp_key m \<noteq> [] \<and> mi_temp_key m = k then Inr (Some (False, m))
             else Inr (Some (True, set_back_temp_key k m))
           else Inr None
       | None \<Rightarrow> Inr None))"

fun node_iter_next_back :: "table_env \<Rightarrow> nat \<Rightarrow> merge_node_iter \<Rightarrow> (bool \<times> merge_node_iter) outcome option"
  and node_next_back :: "table_env \<Rightarrow> nat \<Rightarrow> merge_node \<Rightarrow> (bool \<times> merge_node) outcome option"
  and merge_next_back :: "table_env \<Rightarrow> nat \<Rightarrow> merge_iter \<Rightarrow> (bool \<times> merge_iter) outcome option" where
  "node_iter_next_back te 0 it = None"
| "node_iter_next_back te (Suc n) it =
     (case it of
        TableNode t \<Rightarrow> Some (and_then (table_next_back te t) (\<lambda>(more, t). Inr (more, TableNode t)))
      | TableConcatNode c \<Rightarrow> Some (and_then (concat_next_back te c) (\<lambda>(more, c). Inr (more, TableConcatNode c)))
      | MergeNode m \<Rightarrow> ok_then (merge_next_back te n m) (\<lambda>(more, m). Some (Inr (more, MergeNode m))))"
| "node_next_back te 0 nd = None"
| "node_next_back te (Suc n) nd =
     ok_then (node_iter_next_back te n (mn_iter nd)) (\<lambda>(more, it).
     Some (Inr (more, SinkMergeNode (mn_valid nd) (mn_valid_back nd \<and> more) it)))"
| "merge_next_back te 0 m = None"
| "merge_next_back te (Suc n) m =
     ok_then (Some (merge_ready_back m)) (\<lambda>r.
     case r of
       Some r \<Rightarrow> Some (Inr r)
     | None \<Rightarrow> ok_then (merge_round_back (\<lambda>nd. node_next_back te n nd) m) (\<lambda>m. merge_next_back te n m))"

text \<open>After both sides have been moved: when both are valid the sides are exchanged without
  comparing their keys.\<close>

definition merge_settle :: "node_step \<Rightarrow> merge_iter \<Rightarrow> merge_iter outcome option" where
  "merge_settle step m =
     ok_then (Some (merge_bigger m)) (\<lambda>big.
     if mn_valid big then
       ok_then (Some (merge_smaller m)) (\<lambda>small.
       if mn_valid small then Some (Inr (flip m))
       else
         ok_then (Some (node_key big)) (\<lambda>kb.
         ok_then (if kb = None then ok_then (step big) (\<lambda>(_, big). Some (Inr big)) else Some (Inr big)) (\<lambda>big.
         let m = set_bigger big m in
         ok_then (Some (node_key big)) (\<lambda>kb.
         if kb \<noteq> None then merge_order step m else Some (Inr m)))))
     else Some (Inr m))"

fun node_iter_seek :: "table_env \<Rightarrow> nat \<Rightarrow> bytes \<Rightarrow> merge_node_iter \<Rightarrow> (bool \<times> merge_node_iter) outcome option"
  and node_seek :: "table_env \<Rightarrow> nat \<Rightarrow> bytes \<Rightarrow> merge_node \<Rightarrow> (bool \<times> merge_node) outcome option"
  and merge_seek :: "table_env \<Rightarrow> nat \<Rightarrow> bytes \<Rightarrow> merge_iter \<Rightarrow> (bool \<times> merge_iter) outcome option" where
  "node_iter_seek te 0 k it = None"
| "node_iter_seek te (Suc n) k it =
     (case it of
        TableNode t \<Rightarrow> Some (and_then (table_seek te k t) (\<lambda>(found, t). Inr (found, TableNode t)))
      | TableConcatNode c \<Rightarrow> Some (and_then (concat_seek te k c) (\<lambda>(found, c). Inr (found, TableConcatNode c)))
      | MergeNode m \<Rightarrow> ok_then (merge_seek te n k m) (\<lambda>(found, m). Some (Inr (found, MergeNode m))))"
| "node_seek te 0 k nd = None"
| "node_seek te (Suc n) k nd =
     ok_then (node_iter_seek te n k (mn_iter nd)) (\<lambda>(found, it).
     Some (Inr (found, SinkMergeNode (mn_valid nd) (mn_valid_back nd) it)))"
| "merge_seek te 0 k m = None"
| "merge_seek te (Suc n) k m =
     ok_then (node_seek te n k (mi_left m)) (\<lambda>(l, left).
     ok_then (case mi_right m of
         Some right \<Rightarrow> ok_then (node_seek te n k right) (\<lambda>(r, right). Some (Inr (r, Some right)))
       | None \<Rightarrow> Some (Inr (False, None))) (\<lambda>(r, right).
     let m = SinkMergeIter left right (mi_temp_key m) (mi_back_temp_key m) (mi_left_small m) (mi_back_left_big m) in
     ok_then (merge_settle (\<lambda>nd. node_next te n nd) m) (\<lambda>m.
     if l \<or> r then
       Some (and_then (merge_key m) (\<lambda>key. and_then (unwrap key) (\<lambda>key. Inr (True, set_temp_key key m))))
     else Some (Inr (False, m)))))"

section \<open>What stepping a node yields\<close>

type_synonym ktvs = "(key_ts \<times> value_meta) list"

definition at_entry :: "table_env \<Rightarrow> merge_node \<Rightarrow> key_ts \<times> value_meta \<Rightarrow> bool" where
  "at_entry te nd x \<longleftrightarrow> mn_valid nd \<and> node_key nd = Inr (Some (KeyTs_serialize (fst x))) \<and> node_value te nd = Inr (Some (snd x))"

definition steps_to :: "table_env \<Rightarrow> merge_node \<Rightarrow> bool \<Rightarrow> merge_node \<Rightarrow> bool" where
  "steps_to te nd mb nd' \<longleftrightarrow> (\<exists>n0. \<forall>n \<ge> n0. node_next te n nd = Some (Inr (mb, nd')))"

text \<open>With enough fuel the node steps through exactly the given entries and then reports the end.\<close>

primrec runs :: "table_env \<Rightarrow> ktvs \<Rightarrow> merge_node \<Rightarrow> bool" where
  "runs te [] nd \<longleftrightarrow> (\<exists>nd'. steps_to te nd False nd')"
| "runs te (x # xs) nd \<longleftrightarrow> (\<exists>nd'. steps_to te nd True nd' \<and> at_entry te nd' x \<and> runs te xs nd')"

definition fresh_node :: "table_env \<Rightarrow> ktvs \<Rightarrow> merge_node \<Rightarrow> bool" where
  "fresh_node te xs nd \<longleftrightarrow> mn_valid nd \<and> node_key nd = Inr None \<and> runs te xs nd"

text \<open>A side that still has the given entries: not started, standing on the first, or at its end.\<close>

definition holds :: "table_env \<Rightarrow> ktvs \<Rightarrow> merge_node \<Rightarrow> bool" where
  "holds te ys nd \<longleftrightarrow> fresh_node te ys nd \<or> (\<exists>y zs. ys = y # zs \<and> at_entry te nd y \<and> runs te zs nd) \<or> ys = [] \<and> \<not> mn_valid nd"

definition in_order :: "ktvs \<Rightarrow> bool" where
  "in_order xs \<longleftrightarrow> (\<forall>x \<in> set xs. kt_key (fst x) \<noteq> []) \<and> sorted_wrt (<) (map fst xs)"

lemma steps_to_False_invalid: "steps_to te nd False nd' \<Longrightarrow> \<not> mn_valid nd'"
proof -
  assume "steps_to te nd False nd'"
  then obtain n0 where "node_next te (Suc n0) nd = Some (Inr (False, nd'))"
    unfolding steps_to_def by (meson le_SucI order_refl)
  then show ?thesis by (auto simp: ok_then_Inr)
qed

lemma steps_to_end_holds: "steps_to te nd False nd' \<Longrightarrow> holds te [] nd'"
  using steps_to_False_invalid by (auto simp: holds_def)

lemma runs_Nil_step: "runs te ys nd \<Longrightarrow> \<exists>mb nd'. steps_to te nd mb nd' \<and> holds te ys nd' \<and> mb = (ys \<noteq> [])"
  by (cases ys) (auto simp: holds_def dest: steps_to_False_invalid)

text \<open>An iterator over a table.\<close>

definition ser :: "ktvs \<Rightarrow> kvs" where
  "ser xs = map (\<lambda>(k, v). (KeyTs_serialize k, v)) xs"

lemma table_node_steps:
  "table_next te it = Inr (mb, it') \<Longrightarrow>
    steps_to te (SinkMergeNode v vb (TableNode it)) mb (SinkMergeNode (v \<and> mb) vb (TableNode it'))"
proof -
  assume a: "table_next te it = Inr (mb, it')"
  have "node_next te n (SinkMergeNode v vb (TableNode it)) = Some (Inr (mb, SinkMergeNode (v \<and> mb) vb (TableNode it')))"
    if n: "n \<ge> 2" for n
  proof -
    obtain k where "n = Suc (Suc k)" using n by (metis add_2_eq_Suc le_Suc_ex)
    with a show ?thesis by simp
  qed
  then show ?thesis unfolding steps_to_def by blast
qed

lemma table_item_split:
  assumes "table_item te it = Some (k, v)" shows "table_key it = Some k" "table_value te it = Inr (Some v)"
  using assms by (auto simp: table_item_def table_key_def table_value_def block_item_def split: option.splits sum.splits)

lemma table_node_runs:
  "table_at te ess it As (ser xs) \<Longrightarrow> As \<noteq> [] \<or> xs \<noteq> [] \<Longrightarrow> runs te xs (SinkMergeNode True vb (TableNode it))"
proof (induction xs arbitrary: it As)
  case Nil
  then have "table_next te it = Inr (False, it)" by (intro table_step_end) (auto simp: ser_def)
  then show ?case using table_node_steps by fastforce
next
  case (Cons x xs)
  obtain k v where x: "x = (k, v)" by (cases x)
  obtain it' where it': "table_next te it = Inr (True, it')" "table_at te ess it' (As @ [(KeyTs_serialize k, v)]) (ser xs)"
    using table_step_more Cons.prems(1) x by (fastforce simp: ser_def)
  let ?nd = "SinkMergeNode True vb (TableNode it')"
  have "at_entry te ?nd x" using table_item_split [OF table_item_at [OF it'(2)]] x by (simp add: at_entry_def)
  moreover have "steps_to te (SinkMergeNode True vb (TableNode it)) True ?nd"
    using table_node_steps [OF it'(1), of True vb] by simp
  ultimately show ?case using Cons.IH [OF it'(2)] by auto
qed

lemma table_node_fresh:
  assumes "table_of te ess t" "varint_laws (te_enc te) (te_dec te)" "concat ess = ser xs" "xs \<noteq> []"
  shows "fresh_node te xs (merge_node_from (TableNode (table_iter_new t)))"
proof -
  have "table_at te ess (table_iter_new t) [] (ser xs)" using assms by (simp add: table_at_def table_iter_new_def)
  from table_node_runs [OF this] assms(4) show ?thesis
    by (simp add: fresh_node_def merge_node_from_def table_key_def table_iter_new_def)
qed

section \<open>What a merge yields\<close>

text \<open>The first list is that of the side read last: of two equal keys its entry is kept.\<close>

function merge_runs :: "ktvs \<Rightarrow> ktvs \<Rightarrow> ktvs" where
  "merge_runs [] bs = bs"
| "merge_runs (x # xs) [] = x # xs"
| "merge_runs (x # xs) (y # ys) =
     (if fst x < fst y then x # merge_runs xs (y # ys)
      else if fst x = fst y then x # merge_runs xs ys
      else y # merge_runs ys (x # xs))"
  by pat_completeness auto

termination
  by (relation "measure (\<lambda>(xs, ys). length xs + length ys)") auto

lemma merge_runs_Nil [simp]: "merge_runs xs [] = xs"
  by (cases xs) auto

lemma merge_runs_keys: "fst ` set (merge_runs xs ys) = fst ` set xs \<union> fst ` set ys"
  by (induction xs ys rule: merge_runs.induct) auto

lemma merge_runs_sub: "set (merge_runs xs ys) \<subseteq> set xs \<union> set ys"
  by (induction xs ys rule: merge_runs.induct) auto

lemma in_order_Cons: "in_order (x # xs) \<longleftrightarrow> kt_key (fst x) \<noteq> [] \<and> (\<forall>y \<in> set xs. fst x < fst y) \<and> in_order xs"
  by (auto simp: in_order_def)

lemma merge_runs_in_order: "in_order xs \<Longrightarrow> in_order ys \<Longrightarrow> in_order (merge_runs xs ys)"
proof (induction xs ys rule: merge_runs.induct)
  case IH: (3 x xs y ys)
  have sub: "\<forall>e \<in> set (merge_runs as bs). fst z < fst e" if "\<forall>e \<in> set as. fst z < fst e" "\<forall>e \<in> set bs. fst z < fst e"
    for z :: "key_ts \<times> value_meta" and as bs using that merge_runs_sub [of as bs] by blast
  consider "fst x < fst y" | "fst x = fst y" | "fst y < fst x" by force
  then show ?case
  proof cases
    case 1
    with IH 1 sub [of xs x "y # ys"] show ?thesis by (auto simp: in_order_Cons intro: less_trans)
  next
    case 2
    with IH 2 sub [of xs x ys] show ?thesis by (auto simp: in_order_Cons)
  next
    case 3
    then have "\<forall>e \<in> set (x # xs). fst y < fst e" using IH.prems(1) by (auto simp: in_order_Cons intro: less_trans)
    with 3 IH sub [of ys y "x # xs"] show ?thesis by (auto simp: in_order_Cons)
  qed
qed (auto simp: in_order_Cons)

text \<open>A merge with both sides, none of which has been read from the back.\<close>

definition two_armed :: "merge_iter \<Rightarrow> bool" where
  "two_armed m \<longleftrightarrow> mi_right m \<noteq> None \<and> mi_back_temp_key m = []"

lemma two_armed_sides:
  assumes "two_armed m"
  shows "two_armed (set_smaller nd m)" "two_armed (set_bigger nd m)" "two_armed (flip m)" "two_armed (set_temp_key k m)"
    "merge_smaller (set_smaller nd m) = Inr nd" "merge_bigger (set_smaller nd m) = merge_bigger m"
    "merge_bigger (set_bigger nd m) = Inr nd" "merge_smaller (set_bigger nd m) = merge_smaller m"
    "merge_smaller (flip m) = merge_bigger m" "merge_bigger (flip m) = merge_smaller m"
    "merge_smaller (set_temp_key k m) = merge_smaller m" "merge_bigger (set_temp_key k m) = merge_bigger m"
    "mi_temp_key (set_smaller nd m) = mi_temp_key m" "mi_temp_key (set_bigger nd m) = mi_temp_key m"
    "mi_temp_key (flip m) = mi_temp_key m" "mi_temp_key (set_temp_key k m) = k"
  using assms by (cases m; auto simp: two_armed_def merge_smaller_def merge_bigger_def set_smaller_def set_bigger_def)+

text \<open>The merge has just found the entry \<open>x\<close>; its sides hold \<open>xs\<close> and \<open>ys\<close> besides.\<close>

definition found :: "table_env \<Rightarrow> merge_iter \<Rightarrow> key_ts \<times> value_meta \<Rightarrow> ktvs \<Rightarrow> ktvs \<Rightarrow> bool" where
  "found te m x xs ys \<longleftrightarrow> two_armed m \<and>
     (\<exists>small big. merge_smaller m = Inr small \<and> merge_bigger m = Inr big \<and> at_entry te small x \<and> runs te xs small \<and> holds te ys big)"

text \<open>The merge has to read on: its sides hold \<open>xs\<close> and \<open>ys\<close>, and the last key returned is none of theirs.\<close>

definition pending :: "table_env \<Rightarrow> merge_iter \<Rightarrow> ktvs \<Rightarrow> ktvs \<Rightarrow> bool" where
  "pending te m xs ys \<longleftrightarrow> two_armed m \<and> merge_ready m = Inr None \<and>
     (\<forall>e \<in> set xs \<union> set ys. mi_temp_key m \<noteq> KeyTs_serialize (fst e)) \<and>
     (\<exists>small big. merge_smaller m = Inr small \<and> merge_bigger m = Inr big \<and> mn_valid small \<and> runs te xs small \<and> holds te ys big)"

definition rounds_to :: "table_env \<Rightarrow> merge_iter \<Rightarrow> merge_iter \<Rightarrow> bool" where
  "rounds_to te m m' \<longleftrightarrow> (\<exists>n0. \<forall>n \<ge> n0. merge_round (\<lambda>nd. node_next te n nd) m = Some (Inr m'))"

definition merges_to :: "table_env \<Rightarrow> merge_iter \<Rightarrow> bool \<Rightarrow> merge_iter \<Rightarrow> bool" where
  "merges_to te m b m' \<longleftrightarrow> (\<exists>n0. \<forall>n \<ge> n0. merge_next te n m = Some (Inr (b, m')))"

lemma ready_found:
  assumes "found te m x xs ys" "mi_temp_key m \<noteq> KeyTs_serialize (fst x)"
  shows "merge_ready m = Inr (Some (True, set_temp_key (KeyTs_serialize (fst x)) m))"
  using assms by (auto simp: found_def merge_ready_def at_entry_def two_armed_def)

lemma found_pending:
  assumes "found te m x xs ys" "\<forall>e \<in> set xs \<union> set ys. fst x < fst e"
  shows "pending te (set_temp_key (KeyTs_serialize (fst x)) m) xs ys"
proof -
  have "\<forall>e \<in> set xs \<union> set ys. fst x \<noteq> fst e" using assms(2) less_irrefl by metis
  moreover obtain small big where m: "two_armed m" "merge_smaller m = Inr small" "merge_bigger m = Inr big"
    "at_entry te small x" "runs te xs small" "holds te ys big" using assms(1) by (auto simp: found_def)
  ultimately show ?thesis by (simp add: pending_def two_armed_sides [OF m(1)] merge_ready_def at_entry_def)
qed

lemma merges_to_ready: "merge_ready m = Inr (Some (b, m')) \<Longrightarrow> merges_to te m b m'"
proof -
  assume "merge_ready m = Inr (Some (b, m'))"
  then have "merge_next te (Suc n) m = Some (Inr (b, m'))" for n by simp
  then show ?thesis unfolding merges_to_def by (metis Suc_le_D)
qed

lemma merges_to_round:
  assumes "merge_ready m = Inr None" "rounds_to te m m1" "merges_to te m1 b m'" shows "merges_to te m b m'"
proof -
  obtain n1 n2 where n: "\<And>n. n \<ge> n1 \<Longrightarrow> merge_round (\<lambda>nd. node_next te n nd) m = Some (Inr m1)"
    "\<And>n. n \<ge> n2 \<Longrightarrow> merge_next te n m1 = Some (Inr (b, m'))" using assms by (auto simp: rounds_to_def merges_to_def)
  have "merge_next te n m = Some (Inr (b, m'))" if l: "n \<ge> Suc (max n1 n2)" for n
  proof -
    obtain k where "n = Suc k" "k \<ge> max n1 n2" using l by (metis Suc_le_D Suc_le_mono)
    with n assms(1) show ?thesis by simp
  qed
  then show ?thesis unfolding merges_to_def by blast
qed

lemma merges_to_end: "merge_smaller m = Inr nd \<Longrightarrow> \<not> mn_valid nd \<Longrightarrow> merges_to te m False m"
  by (rule merges_to_ready) (simp add: merge_ready_def)

definition orders_to :: "table_env \<Rightarrow> merge_iter \<Rightarrow> merge_iter \<Rightarrow> bool" where
  "orders_to te m m' \<longleftrightarrow> (\<exists>n0. \<forall>n \<ge> n0. merge_order (\<lambda>nd. node_next te n nd) m = Some (Inr m'))"

lemma orders_to_cmp:
  assumes "two_armed m" "merge_smaller m = Inr small" "merge_bigger m = Inr big" "at_entry te small x" "at_entry te big y"
    "kt_key (fst x) \<noteq> []" "kt_key (fst y) \<noteq> []"
  shows "fst x < fst y \<Longrightarrow> orders_to te m m" "fst y < fst x \<Longrightarrow> orders_to te m (flip m)"
    "fst x = fst y \<Longrightarrow> steps_to te big b big' \<Longrightarrow> orders_to te m (set_bigger big' m)"
proof -
  note c = KeyTsBorrow_cmp_serialize [OF assms(6,7)]
  note f = merge_order_def orders_to_def assms at_entry_def c
  show "fst x < fst y \<Longrightarrow> orders_to te m m" using assms(4,5) by (simp add: f compare_def)
  show "fst y < fst x \<Longrightarrow> orders_to te m (flip m)" using assms(4,5) c by (auto simp: merge_order_def orders_to_def assms at_entry_def compare_def)
  show "fst x = fst y \<Longrightarrow> steps_to te big b big' \<Longrightarrow> orders_to te m (set_bigger big' m)"
    using assms(4,5) c by (fastforce simp: merge_order_def orders_to_def assms at_entry_def steps_to_def)
qed

lemma rounds_to_cases:
  assumes "two_armed m" "merge_smaller m = Inr small" "merge_bigger m = Inr big" "steps_to te small b small'"
  shows "\<not> mn_valid big \<Longrightarrow> rounds_to te m (set_smaller small' m)"
    "mn_valid big \<Longrightarrow> \<not> b \<Longrightarrow> rounds_to te m (flip (set_smaller small' m))"
    "b \<Longrightarrow> at_entry te big y \<Longrightarrow> orders_to te (set_smaller small' m) m' \<Longrightarrow> rounds_to te m m'"
    "b \<Longrightarrow> fresh_node te ys big \<Longrightarrow> steps_to te big False big' \<Longrightarrow> rounds_to te m (set_bigger big' (set_smaller small' m))"
    "b \<Longrightarrow> fresh_node te ys big \<Longrightarrow> steps_to te big True big' \<Longrightarrow> orders_to te (set_bigger big' (set_smaller small' m)) m' \<Longrightarrow> rounds_to te m m'"
proof -
  obtain n0 where n0: "\<And>n. n \<ge> n0 \<Longrightarrow> node_next te n small = Some (Inr (b, small'))"
    using assms(4) by (auto simp: steps_to_def)
  note f = merge_round_def rounds_to_def two_armed_sides [OF assms(1)] assms(2,3) Let_def
  show "\<not> mn_valid big \<Longrightarrow> rounds_to te m (set_smaller small' m)"
    using n0 by (auto simp: f intro!: exI [of _ n0])
  show "mn_valid big \<Longrightarrow> \<not> b \<Longrightarrow> rounds_to te m (flip (set_smaller small' m))"
    using n0 by (auto simp: f intro!: exI [of _ n0])
  show "rounds_to te m m'" if p: "b" "at_entry te big y" "orders_to te (set_smaller small' m) m'"
  proof -
    obtain n1 where n1: "\<And>n. n \<ge> n1 \<Longrightarrow> merge_order (\<lambda>nd. node_next te n nd) (set_smaller small' m) = Some (Inr m')"
      using p(3) by (auto simp: orders_to_def)
    have "merge_round (\<lambda>nd. node_next te n nd) m = Some (Inr m')" if "n \<ge> max n0 n1" for n
      using n0 [of n] n1 [of n] that p by (simp add: f at_entry_def)
    then show ?thesis unfolding rounds_to_def by blast
  qed
  show "rounds_to te m (set_bigger big' (set_smaller small' m))" if p: "b" "fresh_node te ys big" "steps_to te big False big'"
  proof -
    obtain n1 where n1: "\<And>n. n \<ge> n1 \<Longrightarrow> node_next te n big = Some (Inr (False, big'))"
      using p(3) by (auto simp: steps_to_def)
    have "merge_round (\<lambda>nd. node_next te n nd) m = Some (Inr (set_bigger big' (set_smaller small' m)))" if "n \<ge> max n0 n1" for n
      using n0 [of n] n1 [of n] that p by (simp add: f fresh_node_def)
    then show ?thesis unfolding rounds_to_def by blast
  qed
  show "rounds_to te m m'" if p: "b" "fresh_node te ys big" "steps_to te big True big'"
    "orders_to te (set_bigger big' (set_smaller small' m)) m'"
  proof -
    obtain n1 n2 where n: "\<And>n. n \<ge> n1 \<Longrightarrow> node_next te n big = Some (Inr (True, big'))"
      "\<And>n. n \<ge> n2 \<Longrightarrow> merge_order (\<lambda>nd. node_next te n nd) (set_bigger big' (set_smaller small' m)) = Some (Inr m')"
      using p(3,4) by (auto simp: steps_to_def orders_to_def)
    have "merge_round (\<lambda>nd. node_next te n nd) m = Some (Inr m')" if "n \<ge> max n0 (max n1 n2)" for n
      using n0 [of n] n(1) [of n] n(2) [of n] that p by (simp add: f fresh_node_def)
    then show ?thesis unfolding rounds_to_def by blast
  qed
qed

text \<open>What a round leads to: an entry found, the end of both sides, or the side not yet started being the one to read.\<close>

definition finds :: "table_env \<Rightarrow> merge_iter \<Rightarrow> ktvs \<Rightarrow> ktvs \<Rightarrow> merge_iter \<Rightarrow> bool" where
  "finds te m xs ys m1 \<longleftrightarrow> mi_temp_key m1 = mi_temp_key m \<and>
     (\<exists>x us vs. found te m1 x us vs \<and> merge_runs xs ys = x # merge_runs us vs \<and> in_order us \<and> in_order vs \<and>
        (\<forall>e \<in> set us \<union> set vs. fst x < fst e))"

definition ends :: "ktvs \<Rightarrow> ktvs \<Rightarrow> merge_iter \<Rightarrow> bool" where
  "ends xs ys m1 \<longleftrightarrow> merge_runs xs ys = [] \<and> (\<exists>nd. merge_smaller m1 = Inr nd \<and> \<not> mn_valid nd)"

lemma findsI:
  assumes "found te m1 x us vs" "mi_temp_key m1 = mi_temp_key m" "merge_runs xs ys = x # merge_runs us vs" "in_order us" "in_order vs"
    "\<forall>e \<in> set us. fst x < fst e" "\<forall>e \<in> set vs. fst x < fst e"
  shows "finds te m xs ys m1"
  using assms unfolding finds_def by blast

lemma pendingE:
  assumes "pending te m xs ys"
  obtains small big where "two_armed m" "merge_smaller m = Inr small" "merge_bigger m = Inr big" "mn_valid small"
    "runs te xs small" "holds te ys big" "merge_ready m = Inr None"
    "\<forall>e \<in> set xs \<union> set ys. mi_temp_key m \<noteq> KeyTs_serialize (fst e)"
  using assms by (auto simp: pending_def)

lemma round_both:
  assumes p: "pending te m (x # xs) (y # ys)" and o: "in_order (x # xs)" "in_order (y # ys)"
  shows "\<exists>m1. rounds_to te m m1 \<and> finds te m (x # xs) (y # ys) m1"
proof -
  obtain small big where m: "two_armed m" "merge_smaller m = Inr small" "merge_bigger m = Inr big"
    "runs te (x # xs) small" "holds te (y # ys) big" using p by (rule pendingE)
  obtain small' where s: "steps_to te small True small'" "at_entry te small' x" "runs te xs small'" using m(4) by auto
  note sides = two_armed_sides [OF m(1)] two_armed_sides [OF two_armed_sides(1) [OF m(1)]]
  obtain m2 big' where m2: "two_armed m2" "merge_smaller m2 = Inr small'" "merge_bigger m2 = Inr big'"
    "mi_temp_key m2 = mi_temp_key m" "at_entry te big' y" "runs te ys big'" "\<And>m'. orders_to te m2 m' \<Longrightarrow> rounds_to te m m'"
  proof (cases "fresh_node te (y # ys) big")
    case True
    then obtain big' where b: "steps_to te big True big'" "at_entry te big' y" "runs te ys big'" by (auto simp: fresh_node_def)
    show ?thesis
      by (rule that [of "set_bigger big' (set_smaller small' m)" big'])
        (use b sides rounds_to_cases(5) [OF m(1-3) s(1) TrueI True b(1)] in auto)
  next
    case False
    with m(5) have b: "at_entry te big y" "runs te ys big" by (auto simp: holds_def)
    show ?thesis
      by (rule that [of "set_smaller small' m" big])
        (use b m sides rounds_to_cases(3) [OF m(1-3) s(1) TrueI b(1)] in auto)
  qed
  note keys = o [unfolded in_order_Cons]
  note ord = orders_to_cmp [OF m2(1-3) s(2) m2(5)]
  note sides2 = two_armed_sides [OF m2(1)]
  consider "fst x < fst y" | "fst x = fst y" | "fst y < fst x" by force
  then show ?thesis
  proof cases
    case 1
    then have "rounds_to te m m2" using ord(1) keys m2(7) by blast
    moreover have "found te m2 x xs (y # ys)" using m2 s by (auto simp: found_def holds_def)
    then have "finds te m (x # xs) (y # ys) m2" using 1 keys o m2(4) by (auto intro!: findsI intro: less_trans)
    ultimately show ?thesis by blast
  next
    case 2
    obtain b big'' where b: "steps_to te big' b big''" "holds te ys big''" using runs_Nil_step [OF m2(6)] by blast
    then have "rounds_to te m (set_bigger big'' m2)" using ord(3) [OF _ _ 2] keys m2(7) by blast
    moreover have "found te (set_bigger big'' m2) x xs ys" using m2 s b sides2 by (auto simp: found_def)
    then have "finds te m (x # xs) (y # ys) (set_bigger big'' m2)" using 2 keys m2(4) by (auto simp: sides2 intro!: findsI)
    ultimately show ?thesis by blast
  next
    case 3
    then have "rounds_to te m (flip m2)" using ord(2) keys m2(7) by blast
    moreover have "found te (flip m2) y ys (x # xs)" using m2 s sides2 by (auto simp: found_def holds_def)
    then have "finds te m (x # xs) (y # ys) (flip m2)" using 3 keys o m2(4) by (auto simp: sides2 intro!: findsI intro: less_trans)
    ultimately show ?thesis by blast
  qed
qed

lemma round_left:
  assumes p: "pending te m (x # xs) []" and o: "in_order (x # xs)"
  shows "\<exists>m1. rounds_to te m m1 \<and> finds te m (x # xs) [] m1"
proof -
  obtain small big where m: "two_armed m" "merge_smaller m = Inr small" "merge_bigger m = Inr big"
    "runs te (x # xs) small" "holds te [] big" using p by (rule pendingE)
  obtain small' where s: "steps_to te small True small'" "at_entry te small' x" "runs te xs small'" using m(4) by auto
  note sides = two_armed_sides [OF m(1)] two_armed_sides [OF two_armed_sides(1) [OF m(1)]]
  have "\<exists>m1. rounds_to te m m1 \<and> mi_temp_key m1 = mi_temp_key m \<and> found te m1 x xs []"
  proof (cases "fresh_node te [] big")
    case True
    then obtain big' where b: "steps_to te big False big'" by (auto simp: fresh_node_def)
    have "found te (set_bigger big' (set_smaller small' m)) x xs []"
      using s sides steps_to_end_holds [OF b] by (auto simp: found_def)
    with rounds_to_cases(4) [OF m(1-3) s(1) TrueI True b] sides show ?thesis by metis
  next
    case False
    with m(5) have "\<not> mn_valid big" by (auto simp: holds_def)
    moreover have "found te (set_smaller small' m) x xs []" using s sides m by (auto simp: found_def)
    ultimately show ?thesis using rounds_to_cases(1) [OF m(1-3) s(1)] sides by metis
  qed
  then obtain m1 where m1: "rounds_to te m m1" "mi_temp_key m1 = mi_temp_key m" "found te m1 x xs []" by blast
  have "finds te m (x # xs) [] m1" using m1 o by (intro findsI [where us = xs and vs = "[]"]) (auto simp: in_order_Cons in_order_def)
  with m1(1) show ?thesis by blast
qed

lemma round_right:
  assumes p: "pending te m [] ys" and o: "in_order ys"
  shows "\<exists>m1. rounds_to te m m1 \<and> (finds te m [] ys m1 \<or> ends [] ys m1 \<or>
    pending te m1 ys [] \<and> (\<exists>big. merge_bigger m = Inr big \<and> mn_valid big) \<and> (\<exists>big. merge_bigger m1 = Inr big \<and> \<not> mn_valid big))"
proof -
  obtain small big where m: "two_armed m" "merge_smaller m = Inr small" "merge_bigger m = Inr big" "holds te ys big"
    "runs te [] small" "merge_ready m = Inr None" "\<forall>e \<in> set [] \<union> set ys. mi_temp_key m \<noteq> KeyTs_serialize (fst e)"
    using p by (rule pendingE)
  obtain small' where s: "steps_to te small False small'" using m(5) by auto
  note inv = steps_to_False_invalid [OF s]
  note sides = two_armed_sides [OF m(1)] two_armed_sides [OF two_armed_sides(1) [OF m(1)]]
  let ?m1 = "flip (set_smaller small' m)"
  note cs = rounds_to_cases(1,2) [OF m(1-3) s]
  consider "fresh_node te ys big" | y zs where "ys = y # zs" "at_entry te big y" "runs te zs big" | "ys = []" "\<not> mn_valid big"
    using m(4) by (auto simp: holds_def)
  then show ?thesis
  proof cases
    case 1
    then have v: "mn_valid big" "node_key big = Inr None" "runs te ys big" by (auto simp: fresh_node_def)
    have "pending te ?m1 ys []"
      using v m inv by (auto simp: pending_def sides merge_ready_def holds_def)
    then show ?thesis using cs(2) v(1) m(3) inv by (intro exI [of _ ?m1]) (simp add: sides)
  next
    case 2
    then have v: "mn_valid big" by (auto simp: at_entry_def)
    have "found te ?m1 y zs []" using 2 m inv by (auto simp: found_def sides holds_def)
    then have "finds te m [] ys ?m1"
      using o 2 by (intro findsI [where us = zs and vs = "[]"]) (auto simp: sides in_order_Cons in_order_def)
    with cs(2) v show ?thesis by blast
  next
    case 3
    then have "ends [] ys (set_smaller small' m)" using inv by (simp add: ends_def sides)
    with cs(1) 3 show ?thesis by blast
  qed
qed

text \<open>One step of a merge: the next entry of the merged runs, or the end.\<close>

definition emits :: "table_env \<Rightarrow> merge_iter \<Rightarrow> ktvs \<Rightarrow> bool" where
  "emits te m zs \<longleftrightarrow>
     (case zs of
        [] \<Rightarrow> \<exists>m'. merges_to te m False m' \<and> merge_valid m' = Inr False
      | x # ws \<Rightarrow> \<exists>m' us vs nd. merges_to te m True m' \<and> merge_smaller m' = Inr nd \<and> at_entry te nd x \<and>
          pending te m' us vs \<and> ws = merge_runs us vs \<and> in_order us \<and> in_order vs)"

lemma emits_finds:
  assumes "merge_ready m = Inr None" "rounds_to te m m1" "finds te m xs ys m1"
    "\<forall>e \<in> set xs \<union> set ys. mi_temp_key m \<noteq> KeyTs_serialize (fst e)"
  shows "emits te m (merge_runs xs ys)"
proof -
  obtain x us vs where f: "found te m1 x us vs" "merge_runs xs ys = x # merge_runs us vs" "in_order us" "in_order vs"
    "\<forall>e \<in> set us \<union> set vs. fst x < fst e" "mi_temp_key m1 = mi_temp_key m" using assms(3) by (auto simp: finds_def)
  have "x \<in> set xs \<union> set ys" using merge_runs_sub [of xs ys] f(2) by auto
  with assms(4) f(6) have t: "mi_temp_key m1 \<noteq> KeyTs_serialize (fst x)" by auto
  let ?m' = "set_temp_key (KeyTs_serialize (fst x)) m1"
  obtain nd where nd: "two_armed m1" "merge_smaller m1 = Inr nd" "at_entry te nd x" using f(1) by (auto simp: found_def)
  have "merges_to te m True ?m'"
    using merges_to_round [OF assms(1,2) merges_to_ready [OF ready_found [OF f(1) t]]] .
  moreover have "pending te ?m' us vs" by (rule found_pending [OF f(1,5)])
  ultimately show ?thesis using nd f unfolding emits_def by (auto simp: two_armed_sides [OF nd(1)])
qed

lemma emits_ends:
  assumes "merge_ready m = Inr None" "rounds_to te m m1" "ends xs ys m1" shows "emits te m (merge_runs xs ys)"
proof -
  have e: "merge_runs xs ys = []" and m: "merges_to te m1 False m1" "merge_valid m1 = Inr False"
    using assms(3) merges_to_end by (auto simp: ends_def merge_valid_def)
  from merges_to_round [OF assms(1,2) m(1)] e m(2) show ?thesis by (auto simp: emits_def)
qed

lemma emits_round:
  assumes "merge_ready m = Inr None" "rounds_to te m m1" "emits te m1 zs" shows "emits te m zs"
proof (cases zs)
  case Nil
  with assms show ?thesis using merges_to_round by (fastforce simp: emits_def)
next
  case (Cons x ws)
  with assms(3) obtain m' us vs nd where "merges_to te m1 True m'" "merge_smaller m' = Inr nd" "at_entry te nd x"
    "pending te m' us vs" "ws = merge_runs us vs" "in_order us" "in_order vs" by (auto simp: emits_def)
  with merges_to_round [OF assms(1,2)] Cons show ?thesis by (auto simp: emits_def)
qed

lemma pending_emits:
  assumes p: "pending te m xs ys" and o: "in_order xs" "in_order ys"
  shows "emits te m (merge_runs xs ys)"
proof -
  have r: "merge_ready m = Inr None" "\<forall>e \<in> set xs \<union> set ys. mi_temp_key m \<noteq> KeyTs_serialize (fst e)"
    if "pending te m xs ys" for m xs ys using that by (auto simp: pending_def)
  have left: "emits te m xs" if q: "pending te m xs []" "in_order xs" "\<exists>big. merge_bigger m = Inr big \<and> \<not> mn_valid big" for m xs
  proof (cases xs)
    case Nil
    obtain m1 where "rounds_to te m m1" "finds te m [] [] m1 \<or> ends [] [] m1"
      using round_right [of te m "[]"] q Nil by auto
    then show ?thesis using emits_finds [of m te m1 "[]" "[]"] emits_ends [of m te m1 "[]" "[]"] r [OF q(1)] Nil by auto
  next
    case (Cons x zs)
    with round_left [of te m x zs] q obtain m1 where "rounds_to te m m1" "finds te m xs [] m1" by auto
    with emits_finds [of m te m1 xs "[]"] r [OF q(1)] show ?thesis by simp
  qed
  show ?thesis
  proof (cases xs)
    case Nil
    obtain m1 where m1: "rounds_to te m m1" "finds te m [] ys m1 \<or> ends [] ys m1 \<or>
      pending te m1 ys [] \<and> (\<exists>big. merge_bigger m1 = Inr big \<and> \<not> mn_valid big)"
      using round_right [of te m ys] p o(2) Nil by auto
    from m1(2) show ?thesis
    proof (elim disjE conjE)
      assume "finds te m [] ys m1"
      with emits_finds m1(1) r [OF p] Nil show ?thesis by blast
    next
      assume "ends [] ys m1"
      with emits_ends m1(1) r [OF p] Nil show ?thesis by blast
    next
      assume "pending te m1 ys []" "\<exists>big. merge_bigger m1 = Inr big \<and> \<not> mn_valid big"
      from emits_round [OF r(1) [OF p] m1(1) left [OF this(1) o(2) this(2)]] Nil show ?thesis by simp
    qed
  next
    case (Cons x zs)
    have "\<exists>m1. rounds_to te m m1 \<and> finds te m xs ys m1"
      using round_left [of te m x zs] round_both [of te m x zs] p o Cons by (cases ys) auto
    with emits_finds r [OF p] show ?thesis by blast
  qed
qed

section \<open>Merges of merges\<close>

lemma merge_node_steps:
  assumes "merges_to te m b m'"
  shows "steps_to te (SinkMergeNode v vb (MergeNode m)) b (SinkMergeNode (v \<and> b) vb (MergeNode m'))"
proof -
  obtain n0 where n0: "\<And>n. n \<ge> n0 \<Longrightarrow> merge_next te n m = Some (Inr (b, m'))" using assms by (auto simp: merges_to_def)
  have "node_next te n (SinkMergeNode v vb (MergeNode m)) = Some (Inr (b, SinkMergeNode (v \<and> b) vb (MergeNode m')))"
    if n: "n \<ge> Suc (Suc n0)" for n
  proof -
    obtain k where "n = Suc (Suc k)" "k \<ge> n0" using n by (metis Suc_le_D Suc_le_mono)
    with n0 [of k] show ?thesis by simp
  qed
  then show ?thesis unfolding steps_to_def by blast
qed

lemma merge_key_smaller: "merge_smaller m = Inr nd \<Longrightarrow> merge_key m = node_key nd \<and> merge_value te m = node_value te nd"
  by (cases m) (auto simp: merge_smaller_def unwrap_def split: if_splits option.splits)

lemma pending_runs:
  "pending te m xs ys \<Longrightarrow> in_order xs \<Longrightarrow> in_order ys \<Longrightarrow> zs = merge_runs xs ys \<Longrightarrow>
   runs te zs (SinkMergeNode True vb (MergeNode m))"
proof (induction zs arbitrary: m xs ys)
  case Nil
  with pending_emits [of te m xs ys] obtain m' where "merges_to te m False m'" by (auto simp: emits_def)
  then show ?case using merge_node_steps by fastforce
next
  case (Cons x ws)
  then have "emits te m (x # ws)" using pending_emits by metis
  then obtain m' us vs nd where m': "merges_to te m True m'" "merge_smaller m' = Inr nd"
    "at_entry te nd x" "pending te m' us vs" "ws = merge_runs us vs" "in_order us" "in_order vs"
    by (auto simp: emits_def)
  let ?nd = "SinkMergeNode True vb (MergeNode m')"
  have "at_entry te ?nd x" using m'(3) merge_key_smaller [OF m'(2), of te] by (simp add: at_entry_def)
  moreover have "runs te ws ?nd" using Cons.IH m'(4-7) by blast
  ultimately show ?case using merge_node_steps [OF m'(1), of True vb] by auto
qed

text \<open>The merge stands on the first of the given entries, and stepping it leads through the others to its end.\<close>

primrec cursor :: "table_env \<Rightarrow> ktvs \<Rightarrow> merge_iter \<Rightarrow> bool" where
  "cursor te [] m \<longleftrightarrow> merge_valid m = Inr False"
| "cursor te (x # xs) m \<longleftrightarrow> merge_valid m = Inr True \<and> merge_key m = Inr (Some (KeyTs_serialize (fst x))) \<and>
     merge_value te m = Inr (Some (snd x)) \<and> (\<exists>b m'. merges_to te m b m' \<and> cursor te xs m')"

lemma pending_cursor:
  "pending te m xs ys \<Longrightarrow> in_order xs \<Longrightarrow> in_order ys \<Longrightarrow> zs = merge_runs xs ys \<Longrightarrow>
   \<exists>b m'. merges_to te m b m' \<and> cursor te zs m'"
proof (induction zs arbitrary: m xs ys)
  case Nil
  with pending_emits [of te m xs ys] show ?case by (auto simp: emits_def)
next
  case (Cons x ws)
  then have "emits te m (x # ws)" using pending_emits by metis
  then obtain m' us vs nd where m': "merges_to te m True m'" "merge_smaller m' = Inr nd"
    "at_entry te nd x" "pending te m' us vs" "ws = merge_runs us vs" "in_order us" "in_order vs"
    by (auto simp: emits_def)
  have "cursor te (x # ws) m'"
    using Cons.IH [OF m'(4,6,7,5)] m'(2,3) merge_key_smaller [OF m'(2), of te] by (simp add: at_entry_def merge_valid_def)
  with m'(1) show ?case by blast
qed

definition merge_two :: "merge_node \<Rightarrow> merge_node \<Rightarrow> merge_iter" where
  "merge_two l r = SinkMergeIter l (Some r) [] [] True True"

lemma merge_two_pending:
  assumes "fresh_node te xs l" "fresh_node te ys r" shows "pending te (merge_two l r) xs ys"
proof -
  have "[] \<noteq> KeyTs_serialize k" for k by (metis add_is_0 length_serialize list.size(3) zero_neq_numeral)
  then show ?thesis using assms
    by (auto simp: pending_def two_armed_def merge_two_def merge_ready_def merge_smaller_def merge_bigger_def fresh_node_def holds_def)
qed

lemma merge_two_fresh:
  assumes "fresh_node te xs l" "fresh_node te ys r" "in_order xs" "in_order ys"
  shows "fresh_node te (merge_runs xs ys) (merge_node_from (MergeNode (merge_two l r)))"
proof -
  note merge_two_pending [OF assms(1,2)]
  from pending_runs [OF this assms(3,4) refl] assms(1) show ?thesis
    by (simp add: fresh_node_def merge_node_from_def merge_two_def)
qed

text \<open>The merge is balanced where the number of iterators is a power of two.\<close>

lemma new_two: "SinkMergeIter_new [a, b] = Inr (Some (merge_two (merge_node_from a) (merge_node_from b)))"
  by (subst SinkMergeIter_new.simps) (simp add: merge_two_def)

lemma new_more:
  assumes "length iters > 2" "SinkMergeIter_new (take (length iters div 2) iters) = Inr (Some l)"
    "SinkMergeIter_new (drop (length iters div 2) iters) = Inr (Some r)"
  shows "SinkMergeIter_new iters = Inr (Some (merge_two (merge_node_from (MergeNode l)) (merge_node_from (MergeNode r))))"
  using assms by (subst SinkMergeIter_new.simps) (auto simp: merge_two_def)

definition run_of :: "table_env \<Rightarrow> merge_node_iter \<Rightarrow> ktvs \<Rightarrow> bool" where
  "run_of te it xs \<longleftrightarrow> in_order xs \<and> fresh_node te xs (merge_node_from it)"

lemma run_of_merge_two:
  "run_of te a xs \<Longrightarrow> run_of te b ys \<Longrightarrow>
   run_of te (MergeNode (merge_two (merge_node_from a) (merge_node_from b))) (merge_runs xs ys)"
  using merge_two_fresh merge_runs_in_order by (simp add: run_of_def)

lemma merge_tree:
  "length iters = 2 ^ Suc k \<Longrightarrow> list_all2 (run_of te) iters xss \<Longrightarrow>
   \<exists>m zs. SinkMergeIter_new iters = Inr (Some m) \<and> run_of te (MergeNode m) zs \<and>
     fst ` set zs = (\<Union>xs \<in> set xss. fst ` set xs) \<and> set zs \<subseteq> (\<Union>xs \<in> set xss. set xs)"
proof (induction k arbitrary: iters xss)
  case 0
  then obtain a b where i: "iters = [a, b]" by (auto simp: length_Suc_conv numeral_2_eq_2)
  with 0 obtain xs ys where x: "xss = [xs, ys]" "run_of te a xs" "run_of te b ys" by (auto simp: list_all2_Cons1)
  have "run_of te (MergeNode (merge_two (merge_node_from a) (merge_node_from b))) (merge_runs xs ys)"
    using run_of_merge_two [OF x(2,3)] .
  moreover have "fst ` set (merge_runs xs ys) = (\<Union>xs \<in> set xss. fst ` set xs)" using merge_runs_keys x(1) by simp
  moreover have "set (merge_runs xs ys) \<subseteq> (\<Union>xs \<in> set xss. set xs)" using merge_runs_sub [of xs ys] x(1) by simp
  ultimately show ?case unfolding i new_two by blast
next
  case (Suc k)
  let ?n = "length iters div 2"
  have n: "?n = 2 ^ Suc k" "length iters - ?n = 2 ^ Suc k" "length iters > 2"
    using Suc.prems(1) one_less_power [of "2 :: nat" "Suc k"] by simp_all
  have parts: "length (take ?n iters) = 2 ^ Suc k" "length (drop ?n iters) = 2 ^ Suc k"
    "list_all2 (run_of te) (take ?n iters) (take ?n xss)" "list_all2 (run_of te) (drop ?n iters) (drop ?n xss)"
    using n Suc.prems by (simp_all add: list_all2_takeI list_all2_dropI)
  obtain l ls where l: "SinkMergeIter_new (take ?n iters) = Inr (Some l)" "run_of te (MergeNode l) ls"
    "fst ` set ls = (\<Union>xs \<in> set (take ?n xss). fst ` set xs)" "set ls \<subseteq> (\<Union>xs \<in> set (take ?n xss). set xs)"
    using Suc.IH [OF parts(1,3)] by blast
  obtain r rs where r: "SinkMergeIter_new (drop ?n iters) = Inr (Some r)" "run_of te (MergeNode r) rs"
    "fst ` set rs = (\<Union>xs \<in> set (drop ?n xss). fst ` set xs)" "set rs \<subseteq> (\<Union>xs \<in> set (drop ?n xss). set xs)"
    using Suc.IH [OF parts(2,4)] by blast
  let ?m = "merge_two (merge_node_from (MergeNode l)) (merge_node_from (MergeNode r))"
  have x: "set xss = set (take ?n xss) \<union> set (drop ?n xss)" by (metis append_take_drop_id set_append)
  have "run_of te (MergeNode ?m) (merge_runs ls rs)" using run_of_merge_two [OF l(2) r(2)] .
  moreover have "fst ` set (merge_runs ls rs) = (\<Union>xs \<in> set xss. fst ` set xs)"
    unfolding merge_runs_keys l(3) r(3) x UN_Un ..
  moreover have "set (merge_runs ls rs) \<subseteq> (\<Union>xs \<in> set xss. set xs)"
    unfolding x UN_Un by (rule order_trans [OF merge_runs_sub Un_mono [OF l(4) r(4)]])
  ultimately show ?case using new_more [OF n(3) l(1) r(1)] by (intro exI [of _ ?m] exI [of _ "merge_runs ls rs"] conjI)
qed

text \<open>The loop \<open>while merge.next()?\<close> that collects the entries.\<close>

fun merge_entries :: "table_env \<Rightarrow> nat \<Rightarrow> merge_iter \<Rightarrow> kvs outcome option" where
  "merge_entries te 0 m = None"
| "merge_entries te (Suc n) m =
     ok_then (merge_next te n m) (\<lambda>(b, m).
     if b then
       ok_then (Some (and_then (merge_key m) unwrap)) (\<lambda>k.
       ok_then (Some (and_then (merge_value te m) unwrap)) (\<lambda>v.
       ok_then (merge_entries te n m) (\<lambda>es. Some (Inr ((k, v) # es)))))
     else Some (Inr []))"

lemma steps_to_merge:
  assumes "steps_to te (SinkMergeNode v vb (MergeNode m)) b nd'"
  shows "\<exists>m'. nd' = SinkMergeNode (v \<and> b) vb (MergeNode m') \<and> merges_to te m b m'"
proof -
  obtain n0 where n0: "\<And>n. n \<ge> n0 \<Longrightarrow> node_next te n (SinkMergeNode v vb (MergeNode m)) = Some (Inr (b, nd'))"
    using assms by (auto simp: steps_to_def)
  have ex: "\<exists>m'. merge_next te n m = Some (Inr (b, m')) \<and> nd' = SinkMergeNode (v \<and> b) vb (MergeNode m')" if "n \<ge> n0" for n
    using n0 [of "Suc (Suc n)"] that by (auto simp: ok_then_Inr)
  then obtain m' where m': "nd' = SinkMergeNode (v \<and> b) vb (MergeNode m')" by blast
  have "merge_next te n m = Some (Inr (b, m'))" if n: "n \<ge> n0" for n
    using ex [OF n] unfolding m' by simp
  then have "merges_to te m b m'" unfolding merges_to_def by blast
  with m' show ?thesis by blast
qed

lemma runs_entries:
  "runs te zs (SinkMergeNode True vb (MergeNode m)) \<Longrightarrow> \<exists>n0. \<forall>n \<ge> n0. merge_entries te n m = Some (Inr (ser zs))"
proof (induction zs arbitrary: m)
  case Nil
  then obtain m' n0 where "\<And>n. n \<ge> n0 \<Longrightarrow> merge_next te n m = Some (Inr (False, m'))"
    using steps_to_merge by (fastforce simp: merges_to_def)
  then have "merge_entries te (Suc n) m = Some (Inr [])" if "n \<ge> n0" for n using that by simp
  then show ?case by (metis Suc_le_D Suc_le_mono ser_def list.simps(8))
next
  case (Cons x zs)
  then obtain m' where m': "merges_to te m True m'" "at_entry te (SinkMergeNode True vb (MergeNode m')) x"
    "runs te zs (SinkMergeNode True vb (MergeNode m'))" using steps_to_merge by fastforce
  obtain n1 n2 where n: "\<And>n. n \<ge> n1 \<Longrightarrow> merge_next te n m = Some (Inr (True, m'))"
    "\<And>n. n \<ge> n2 \<Longrightarrow> merge_entries te n m' = Some (Inr (ser zs))"
    using m'(1) Cons.IH [OF m'(3)] by (auto simp: merges_to_def)
  have "merge_entries te (Suc n) m = Some (Inr (ser (x # zs)))" if "n \<ge> max n1 n2" for n
    using that n m'(2) by (cases x) (simp add: at_entry_def ser_def)
  then show ?case by (metis Suc_le_D Suc_le_mono)
qed

section \<open>Merges with one side\<close>

fun lame_iter :: "merge_node_iter \<Rightarrow> bool" and lame_node :: "merge_node \<Rightarrow> bool" and lame :: "merge_iter \<Rightarrow> bool" where
  "lame_iter (TableNode it) = False"
| "lame_iter (TableConcatNode ci) = False"
| "lame_iter (MergeNode m) = lame m"
| "lame_node (SinkMergeNode v vb it) = lame_iter it"
| "lame (SinkMergeIter l r tk bk ls bl) = (lame_node l \<or> (case r of None \<Rightarrow> True | Some n \<Rightarrow> lame_node n))"

text \<open>No node of the merge has been stepped.\<close>

fun unread_iter :: "merge_node_iter \<Rightarrow> bool" and unread_node :: "merge_node \<Rightarrow> bool" and unread :: "merge_iter \<Rightarrow> bool" where
  "unread_iter (TableNode it) = (table_key it = None)"
| "unread_iter (TableConcatNode ci) = (concat_key ci = None)"
| "unread_iter (MergeNode m) = unread m"
| "unread_node (SinkMergeNode v vb it) = (v \<and> unread_iter it)"
| "unread (SinkMergeIter l r tk bk ls bl) = (ls \<and> unread_node l \<and> (case r of None \<Rightarrow> True | Some n \<Rightarrow> unread_node n))"

lemma unread_key:
  "unread_iter it \<Longrightarrow> node_iter_key it = Inr None" "unread_node nd \<Longrightarrow> node_key nd = Inr None" "unread m \<Longrightarrow> merge_key m = Inr None"
  by (induction it and nd and m rule: unread_iter_unread_node_unread.induct) auto

lemma lame_never_steps:
  "(\<forall>it r. unread_iter it \<longrightarrow> lame_iter it \<longrightarrow> node_iter_next te n it \<noteq> Some (Inr r)) \<and>
   (\<forall>nd r. unread_node nd \<longrightarrow> lame_node nd \<longrightarrow> node_next te n nd \<noteq> Some (Inr r)) \<and>
   (\<forall>m r. unread m \<longrightarrow> lame m \<longrightarrow> merge_next te n m \<noteq> Some (Inr r))"
proof (induction n rule: less_induct)
  case (less n0)
  show ?case
  proof (cases n0)
    case (Suc n)
    have ih: "\<And>m r. unread m \<Longrightarrow> lame m \<Longrightarrow> merge_next te n m \<noteq> Some (Inr r)"
      "\<And>it r. unread_iter it \<Longrightarrow> lame_iter it \<Longrightarrow> node_iter_next te n it \<noteq> Some (Inr r)"
      "\<And>nd k r. k \<le> n \<Longrightarrow> unread_node nd \<Longrightarrow> lame_node nd \<Longrightarrow> node_next te k nd \<noteq> Some (Inr r)"
      using less Suc by auto
    have "node_iter_next te n0 it \<noteq> Some (Inr r)" if "unread_iter it" "lame_iter it" for it r
      using that ih(1) Suc by (cases it) (auto simp: ok_then_Inr)
    moreover have "node_next te n0 nd \<noteq> Some (Inr r)" if "unread_node nd" "lame_node nd" for nd r
      using that ih(2) Suc by (cases nd) (auto simp: ok_then_Inr)
    moreover have "merge_next te n0 m \<noteq> Some (Inr res)" if um: "unread m" "lame m" for m res
    proof
      assume ok: "merge_next te n0 m = Some (Inr res)"
      obtain l r tk bk bl where m: "m = SinkMergeIter l r tk bk True bl" using um by (cases m) auto
      then have l: "mn_valid l" "node_key l = Inr None" using um unread_key(2) by (auto elim: unread_node.elims)
      have rd: "merge_ready m = Inr None" using m l by (simp add: merge_ready_def merge_smaller_def)
      with ok obtain m1 where m1: "merge_round (\<lambda>nd. node_next te n nd) m = Some (Inr m1)" "merge_next te n m1 = Some (Inr res)"
        using Suc by (auto simp: ok_then_Inr)
      from m1(1) obtain b small where s: "node_next te n l = Some (Inr (b, small))" "r \<noteq> None"
        by (cases r) (auto simp: merge_round_def ok_then_Inr m merge_smaller_def merge_bigger_def set_smaller_def)
      then obtain q where q: "r = Some q" by auto
      with um m s(1) ih(3) [of n l] have u: "unread_node q" "lame_node q" by auto
      then have v: "mn_valid q" "node_key q = Inr None" using unread_key(2) by (auto elim: unread_node.elims)
      note f = merge_round_def merge_smaller_def merge_bigger_def set_smaller_def
      show False
      proof (cases b)
        case True
        with m1(1) s q v ih(3) [OF order_refl u] show False by (auto simp: f m ok_then_Inr)
      next
        case False
        with m1(1) s q v have "m1 = SinkMergeIter small r tk bk False bl" by (auto simp: f m ok_then_Inr)
        with m1(2) q v ih(3) [OF _ u, of "n - 1"] show False by (cases n) (auto simp: f merge_ready_def ok_then_Inr)
      qed
    qed
    ultimately show ?thesis by blast
  qed simp
qed

lemma powers_adjacent:
  fixes n :: nat
  assumes "n > 2" "n div 2 = 2 ^ Suc i" "n - n div 2 = 2 ^ Suc j" shows "\<exists>k. n = 2 ^ Suc k"
proof -
  have "even (n div 2)" "even (n - n div 2)" using assms by simp_all
  then have "even n" using assms(1) by (metis dvd_diffD div_le_dividend)
  then have "n = 2 ^ Suc (Suc i)" using assms(2) by auto
  then show ?thesis by blast
qed

lemma new_unread:
  "SinkMergeIter_new iters = Inr (Some m) \<Longrightarrow> \<forall>it \<in> set iters. unread_iter it \<Longrightarrow>
   unread m \<and> (\<not> (\<exists>k. length iters = 2 ^ Suc k) \<longrightarrow> lame m)"
proof (induction iters arbitrary: m rule: SinkMergeIter_new.induct)
  case (1 iters)
  let ?n = "length iters div 2"
  consider "iters = []" | a where "iters = [a]" | a b where "iters = [a, b]" | "length iters > 2"
    by (cases iters rule: remdups_adj.cases) (auto simp: length_greater_0_conv [symmetric] simp del: length_greater_0_conv)
  then show ?case
  proof cases
    case 1
    with "1.prems" show ?thesis by (simp add: SinkMergeIter_new.simps)
  next
    case 2
    with "1.prems" show ?thesis by (auto simp: SinkMergeIter_new.simps merge_node_from_def)
  next
    case 3
    then have "length iters = 2 ^ Suc 0" by simp
    then have "\<exists>k. length iters = 2 ^ Suc k" by blast
    with 3 "1.prems" new_two [of a b for a b] show ?thesis by (auto simp: merge_two_def merge_node_from_def)
  next
    case 4
    then have ne: "length iters \<noteq> 0" "length iters \<noteq> 1" "length iters \<noteq> 2" by auto
    obtain l r where lr: "SinkMergeIter_new (take ?n iters) = Inr (Some l)" "SinkMergeIter_new (drop ?n iters) = Inr (Some r)"
      "m = merge_two (merge_node_from (MergeNode l)) (merge_node_from (MergeNode r))"
      using "1.prems"(1) ne by (subst (asm) SinkMergeIter_new.simps) (auto simp: Let_def and_then_Inr unwrap_def merge_two_def split: option.splits)
    have l: "unread l \<and> (\<not> (\<exists>k. length (take ?n iters) = 2 ^ Suc k) \<longrightarrow> lame l)"
      by (rule "1.IH"(1)) (use ne lr "1.prems"(2) in \<open>auto dest: in_set_takeD\<close>)
    have r: "unread r \<and> (\<not> (\<exists>k. length (drop ?n iters) = 2 ^ Suc k) \<longrightarrow> lame r)"
      by (rule "1.IH"(2)) (use ne lr "1.prems"(2) in \<open>auto dest: in_set_dropD\<close>)
    have "\<exists>k. length iters = 2 ^ Suc k" if "\<not> lame l" "\<not> lame r"
      using powers_adjacent [OF 4] l r that by auto
    with l r lr(3) show ?thesis by (auto simp: merge_two_def merge_node_from_def)
  qed
qed

section \<open>Properties\<close>

text \<open>C15: A merge over iterators of a power of two of tables, two at least, each of which holds its
  entries in order, yields every key and version of the tables exactly once, in order, with a value that
  one of them has for it, and then ends.\<close>

theorem merge_yields_sorted_union:
  assumes "varint_laws (te_enc te) (te_dec te)" "length ts = 2 ^ Suc k"
    "list_all2 (\<lambda>t xs. xs \<noteq> [] \<and> in_order xs \<and> (\<exists>ess. table_of te ess t \<and> concat ess = ser xs)) ts xss"
  shows "\<exists>m zs. SinkMergeIter_new (map (\<lambda>t. TableNode (table_iter_new t)) ts) = Inr (Some m) \<and>
    (\<exists>n0. \<forall>n \<ge> n0. merge_entries te n m = Some (Inr (ser zs))) \<and> in_order zs \<and>
    fst ` set zs = (\<Union>xs \<in> set xss. fst ` set xs) \<and> set zs \<subseteq> (\<Union>xs \<in> set xss. set xs)"
proof -
  have "list_all2 (run_of te) (map (\<lambda>t. TableNode (table_iter_new t)) ts) xss"
    using assms(3) table_node_fresh [OF _ assms(1)] by (auto simp: list_all2_map1 run_of_def elim!: list_all2_mono)
  then obtain m zs where m: "SinkMergeIter_new (map (\<lambda>t. TableNode (table_iter_new t)) ts) = Inr (Some m)" "run_of te (MergeNode m) zs"
    "fst ` set zs = (\<Union>xs \<in> set xss. fst ` set xs)" "set zs \<subseteq> (\<Union>xs \<in> set xss. set xs)"
    using merge_tree [of _ k] assms(2) by (metis (no_types, lifting) length_map)
  have "in_order zs" "runs te zs (SinkMergeNode True True (MergeNode m))"
    using m(2) by (simp_all add: run_of_def fresh_node_def merge_node_from_def)
  with runs_entries m show ?thesis by (intro exI [of _ m] exI [of _ zs] conjI) auto
qed

lemma demo_kts_order: "in_order demo_kts" "ser demo_kts = demo_kvs"
  by (simp_all add: in_order_def demo_kts_def ser_def demo_kvs_def less_key_ts_iff)

theorem merge_yields_sorted_union_witness:
  "\<exists>t m zs. SinkMergeIter_new [TableNode (table_iter_new t), TableNode (table_iter_new t)] = Inr (Some m) \<and>
    (\<exists>n. merge_entries demo_te n m = Some (Inr (ser zs))) \<and> fst ` set zs = {KeyTs [97] 1, KeyTs [97, 98] 1}"
proof -
  obtain t where t: "table_of demo_te [demo_kvs] t" using demo_table_file table_file_of [OF _ demo_te_laws] by blast
  have "list_all2 (\<lambda>t xs. xs \<noteq> [] \<and> in_order xs \<and> (\<exists>ess. table_of demo_te ess t \<and> concat ess = ser xs)) [t, t] [demo_kts, demo_kts]"
    using t demo_kts_order demo_kts_facts(1) by (auto intro!: exI [of _ "[demo_kvs]"])
  from merge_yields_sorted_union [OF _ _ this, of 0] demo_te_laws obtain m zs n0 where
    "SinkMergeIter_new [TableNode (table_iter_new t), TableNode (table_iter_new t)] = Inr (Some m)"
    "\<forall>n \<ge> n0. merge_entries demo_te n m = Some (Inr (ser zs))" "fst ` set zs = fst ` set demo_kts"
    by (auto simp: table_laws_def)
  moreover have "fst ` set demo_kts = {KeyTs [97] 1, KeyTs [97, 98] 1}" by (auto simp: demo_kts_def)
  ultimately show ?thesis by (intro exI [of _ t] exI [of _ m] exI [of _ zs] conjI exI [of _ n0]) auto
qed

text \<open>C36: A merge over any other number of iterators holds a merge with one side only, and its first step never
  succeeds: it panics, unless one of the iterators fails before.\<close>

theorem unbalanced_merge_never_steps:
  assumes "SinkMergeIter_new iters = Inr (Some m)" "\<forall>it \<in> set iters. node_iter_key it = Inr None \<and> (\<forall>m. it \<noteq> MergeNode m)"
    "\<not> (\<exists>k. length iters = 2 ^ Suc k)"
  shows "merge_next te n m \<noteq> Some (Inr r)"
proof -
  have "unread_iter it" if "it \<in> set iters" for it using assms(2) that by (cases it) auto
  with new_unread [OF assms(1)] assms(3) have "unread m" "lame m" by auto
  with lame_never_steps show ?thesis by blast
qed

theorem unbalanced_merge_never_steps_witness:
  "\<exists>t m. SinkMergeIter_new [TableNode (table_iter_new t), TableNode (table_iter_new t), TableConcatNode (SinkTableConcatIter_new [t])] = Inr (Some m) \<and>
    (\<forall>n r. merge_next demo_te n m \<noteq> Some (Inr r))"
proof -
  fix t
  let ?its = "[TableNode (table_iter_new t), TableNode (table_iter_new t), TableConcatNode (SinkTableConcatIter_new [t])]"
  obtain m where m: "SinkMergeIter_new ?its = Inr (Some m)"
    by (simp add: SinkMergeIter_new.simps)
  have "\<forall>it \<in> set ?its. node_iter_key it = Inr None \<and> (\<forall>m. it \<noteq> MergeNode m)"
    by (simp add: table_key_def table_iter_new_def concat_key_def concat_item_def concat_get_def SinkTableConcatIter_new_def)
  moreover have "odd (length ?its)" by simp
  then have "\<not> (\<exists>k. length ?its = 2 ^ Suc k)" by (metis even_mult_iff even_numeral power_Suc)
  ultimately have "merge_next demo_te n m \<noteq> Some (Inr r)" for n r using unbalanced_merge_never_steps [OF m] by blast
  with m show ?thesis by blast
qed

text \<open>A new iterator over a sequence of tables ends at once, whatever the tables hold: both its ends stand
  nowhere, which counts as having met.\<close>

theorem concat_yields_nothing:
  "concat_next te (SinkTableConcatIter_new ts) = Inr (False, SinkTableConcatIter_new ts) \<and>
   concat_next_back te (SinkTableConcatIter_new ts) = Inr (False, SinkTableConcatIter_new ts)"
  by (simp add: concat_next_def concat_next_back_def concat_double_ended_eq_def concat_key_def concat_key_back_def concat_value_def
      concat_value_back_def concat_item_def concat_item_back_def concat_get_def SinkTableConcatIter_new_def)

end
