(* ===== verification/Discard.thy ===== *)
theory Discard
  imports Mmap Search
begin

text \<open>
  The discard statistics of the value log (\<open>src/src/vlog/discard.rs\<close>): a memory-mapped file of slots
  of sixteen bytes, the number of a log file and the bytes discarded in it, meant to be kept
  sorted by number in front of an empty slot; and the search of \<open>src/src/util/mod.rs\<close> that
  looks a number up. The mapping is that of \<open>Mmap\<close>: \<open>set\<close> writes through its buffer, \<open>get\<close>
  reads behind it. \<open>sort_unstable_by\<close> is a stable sort here. A discarded amount is an \<open>i64\<close>, as
  an integer.
\<close>

section \<open>The code\<close>

function search_loop :: "(nat \<Rightarrow> ordering outcome) \<Rightarrow> nat \<Rightarrow> nat \<Rightarrow> (nat + nat) outcome" where
  "search_loop f left right =
     (if left < right then
        let mid = (left + right) div 2 in
        case f mid of
          Inl e \<Rightarrow> Inl e
        | Inr Greater \<Rightarrow> search_loop f left mid
        | Inr Less \<Rightarrow> search_loop f (mid + 1) right
        | Inr Equal \<Rightarrow> Inr (Inr mid)
      else Inr (Inl left))"
  by pat_completeness auto

termination
  by (relation "measure (\<lambda>(f, left, right). right - left)") auto

declare search_loop.simps [simp del]

definition search :: "nat \<Rightarrow> (nat \<Rightarrow> ordering outcome) \<Rightarrow> (nat + nat) outcome" where
  "search n f = search_loop f 0 n"

definition DISCARD_FILE_SIZE :: nat where "DISCARD_FILE_SIZE = 2 ^ 20"
definition DISCARD_MAX_SLOT :: nat where "DISCARD_MAX_SLOT = DISCARD_FILE_SIZE div 16"

record discard_stats =
  ds_mmap_f :: mmap_file
  ds_next_empty_slot :: nat

definition ds_get :: "nat \<Rightarrow> discard_stats \<Rightarrow> u64 outcome" where
  "ds_get offset ds =
     (if offset + 8 \<le> length (mm_raw (ds_mmap_f ds))
      then Inr (word_of_nat (from_be (take 8 (drop offset (mm_raw (ds_mmap_f ds)))))) else Inl Panic)"

definition ds_set :: "nat \<Rightarrow> u64 \<Rightarrow> discard_stats \<Rightarrow> discard_stats outcome" where
  "ds_set offset val ds =
     and_then (write_slice offset (put_u64 val) (ds_mmap_f ds)) (\<lambda>f. Inr (ds\<lparr>ds_mmap_f := f\<rparr>))"

fun chunks :: "nat \<Rightarrow> bytes \<Rightarrow> bytes list" where
  "chunks 0 bs = []"
| "chunks (Suc n) bs = take 16 bs # chunks n (drop 16 bs)"

definition ds_sort :: "discard_stats \<Rightarrow> discard_stats outcome" where
  "ds_sort ds =
     (let n = ds_next_empty_slot ds; raw = mm_raw (ds_mmap_f ds) in
      if n * 16 \<le> length raw
      then Inr (ds\<lparr>ds_mmap_f := (ds_mmap_f ds)\<lparr>mm_raw :=
             concat (sort_key (\<lambda>c. from_be (take 8 c)) (chunks n raw)) @ drop (n * 16) raw\<rparr>\<rparr>)
      else Inl Panic)"

definition ds_max_slot :: "discard_stats \<Rightarrow> nat" where
  "ds_max_slot ds = length (mm_raw (ds_mmap_f ds)) div 16"

fun find_empty_slot :: "discard_stats \<Rightarrow> nat list \<Rightarrow> nat outcome" where
  "find_empty_slot ds [] = Inr 0"
| "find_empty_slot ds (slot # slots) =
     and_then (ds_get (slot * 16) ds) (\<lambda>v. if v = 0 then Inr slot else find_empty_slot ds slots)"

definition DiscardStats_new :: "nat \<Rightarrow> bytes \<Rightarrow> discard_stats outcome" where
  "DiscardStats_new page file =
     (let ds = \<lparr>ds_mmap_f = fst (MmapFile_open page file DISCARD_FILE_SIZE), ds_next_empty_slot = 0\<rparr> in
      and_then (find_empty_slot ds [0 ..< DISCARD_MAX_SLOT]) (\<lambda>slot. ds_sort (ds\<lparr>ds_next_empty_slot := slot\<rparr>)))"

lemma grow_measure: "l div 16 \<le> n \<Longrightarrow> 0 < l \<Longrightarrow> 16 + 16 * n - (l + l) < 16 + 16 * n - l" for l n :: nat
  using dividend_less_div_times [of 16 l] by linarith

text \<open>Doubling the file; an empty one, which opening does not produce, would be doubled for ever.\<close>

function grow :: "discard_stats \<Rightarrow> discard_stats" where
  "grow ds =
     (let len = length (mm_raw (ds_mmap_f ds)) in
      if ds_next_empty_slot ds \<ge> len div 16 \<and> 0 < len
      then grow (ds\<lparr>ds_mmap_f := set_len (2 * len) (ds_mmap_f ds)\<rparr>) else ds)"
  by pat_completeness auto

termination
  by (relation "measure (\<lambda>ds. 16 * Suc (ds_next_empty_slot ds) - length (mm_raw (ds_mmap_f ds)))")
    (auto simp: set_len_def intro!: grow_measure)

declare grow.simps [simp del]

definition ds_update :: "u64 \<Rightarrow> int \<Rightarrow> discard_stats \<Rightarrow> (u64 \<times> discard_stats) outcome" where
  "ds_update fid discard ds =
     and_then (search (ds_next_empty_slot ds) (\<lambda>slot. and_then (ds_get (slot * 16) ds) (\<lambda>v. Inr (compare v fid)))) (\<lambda>r.
     case r of
       Inr index \<Rightarrow>
         let offset = index * 16 + 8 in
         and_then (ds_get offset ds) (\<lambda>cur_disc.
         if discard = 0 then Inr (cur_disc, ds)
         else if discard < 0 then and_then (ds_set offset 0 ds) (\<lambda>ds. Inr (0, ds))
         else and_then (add_checked cur_disc (word_of_int discard)) (\<lambda>cur_disc.
              and_then (ds_set offset cur_disc ds) (\<lambda>ds. Inr (cur_disc, ds))))
     | Inl _ \<Rightarrow>
         if discard \<le> 0 then Inr (0, ds)
         else
           let index = ds_next_empty_slot ds in
           and_then (ds_set (index * 16) fid ds) (\<lambda>ds.
           and_then (ds_set (index * 16 + 8) (word_of_int discard) ds) (\<lambda>ds.
           and_then (ds_sort (grow ds)) (\<lambda>ds. Inr (word_of_int discard, ds)))))"

section \<open>The empty slot stays where it is\<close>

lemma ds_set_slot: "ds_set offset v ds = Inr ds' \<Longrightarrow> ds_next_empty_slot ds' = ds_next_empty_slot ds"
  by (auto simp: ds_set_def and_then_Inr)

lemma ds_sort_slot: "ds_sort ds = Inr ds' \<Longrightarrow> ds_next_empty_slot ds' = ds_next_empty_slot ds"
  by (auto simp: ds_sort_def Let_def split: if_splits)

lemma grow_slot: "ds_next_empty_slot (grow ds) = ds_next_empty_slot ds"
proof (induction ds rule: grow.induct)
  case (1 ds)
  then show ?case by (subst grow.simps) (simp add: Let_def)
qed

lemma ds_update_slot:
  assumes "ds_update fid discard ds = Inr (v, ds')" shows "ds_next_empty_slot ds' = ds_next_empty_slot ds"
proof -
  obtain r where "search (ds_next_empty_slot ds) (\<lambda>slot. and_then (ds_get (slot * 16) ds) (\<lambda>v. Inr (compare v fid))) = Inr r"
    using assms by (auto simp: ds_update_def and_then_Inr)
  with assms show ?thesis
    by (cases r) (auto simp: ds_update_def and_then_Inr Let_def grow_slot split: if_splits dest!: ds_set_slot ds_sort_slot)
qed

section \<open>A new file\<close>

text \<open>The state of a store opened on a new file that has had nothing written, or one record, in its buffer.\<close>

definition fresh :: "nat \<Rightarrow> bytes \<Rightarrow> discard_stats" where
  "fresh page buf = \<lparr>ds_mmap_f = \<lparr>mm_w_buf = buf, mm_w_pos = 0, mm_r_buf = [], mm_r_pos = 0, mm_r_buf_pos = 0,
     mm_last_flush_pos = 0, mm_raw = replicate DISCARD_FILE_SIZE 0, mm_cap = page\<rparr>, ds_next_empty_slot = 0\<rparr>"

lemma slots: "[0 ..< DISCARD_MAX_SLOT] = 0 # [1 ..< DISCARD_MAX_SLOT]"
proof -
  have "0 < DISCARD_MAX_SLOT" by (simp add: DISCARD_MAX_SLOT_def DISCARD_FILE_SIZE_def)
  then show ?thesis using upt_conv_Cons [of 0 DISCARD_MAX_SLOT] by simp
qed

lemma from_be_zeros: "from_be (replicate n 0) = 0"
  by (induction n) auto

lemma get_zero: "offset + 8 \<le> DISCARD_FILE_SIZE \<Longrightarrow> ds_get offset (fresh page buf) = Inr 0"
  by (simp add: ds_get_def fresh_def from_be_zeros min_def)

lemma sort_fresh [simp]: "ds_sort (fresh page buf) = Inr (fresh page buf)"
  by (simp add: ds_sort_def fresh_def Let_def)

lemma grow_fresh [simp]: "grow (fresh page buf) = fresh page buf"
  by (subst grow.simps) (simp add: fresh_def Let_def DISCARD_FILE_SIZE_def)

lemma new_fresh: "DiscardStats_new page [] = Inr (fresh page [])"
proof -
  have "fst (MmapFile_open page [] DISCARD_FILE_SIZE) = ds_mmap_f (fresh page [])"
    by (simp add: MmapFile_open_def fresh_def Let_def DISCARD_FILE_SIZE_def)
  moreover have "\<lparr>ds_mmap_f = ds_mmap_f (fresh page []), ds_next_empty_slot = 0\<rparr> = fresh page []" by (simp add: fresh_def)
  moreover have "find_empty_slot (fresh page []) [0 ..< DISCARD_MAX_SLOT] = Inr 0"
    using get_zero [of 0 page "[]"] by (simp add: slots DISCARD_FILE_SIZE_def)
  ultimately show ?thesis
    using sort_fresh [of page "[]"] by (simp add: DiscardStats_new_def Let_def fresh_def)
qed

lemma write_front:
  assumes "16 < page" "length buf \<in> {0, 16}"
  shows "write_slice 0 (put_u64 a) (ds_mmap_f (fresh page buf)) = Inr (ds_mmap_f (fresh page (put_u64 a @ drop 8 buf)))"
  using assms by (auto simp: write_slice_def fresh_def mm_write_def Let_def)

lemma write_second:
  assumes "16 < page" "length buf \<in> {8, 16}"
  shows "write_slice 8 (put_u64 a) (ds_mmap_f (fresh page buf)) = Inr (ds_mmap_f (fresh page (take 8 buf @ put_u64 a)))"
  using assms by (auto simp: write_slice_def fresh_def mm_write_def Let_def)

lemma fresh_upd [simp]: "(fresh page buf)\<lparr>ds_mmap_f := ds_mmap_f (fresh page buf')\<rparr> = fresh page buf'"
  by (simp add: fresh_def)

lemma update_fresh:
  assumes "16 < page" "length buf \<in> {0, 16}" "0 < discard"
  shows "ds_update fid discard (fresh page buf) = Inr (word_of_int discard, fresh page (put_u64 fid @ put_u64 (word_of_int discard)))"
proof -
  have s: "search 0 f = Inr (Inl 0)" for f by (simp add: search_def search_loop.simps)
  have n: "ds_next_empty_slot (fresh page b) = 0" for b by (simp add: fresh_def)
  have a: "ds_set 0 fid (fresh page buf) = Inr (fresh page (put_u64 fid @ drop 8 buf))"
    using write_front [OF assms(1,2)] by (simp add: ds_set_def)
  have "length (put_u64 fid @ drop 8 buf) \<in> {8, 16}" using assms(2) by auto
  from write_second [OF assms(1) this] have b: "ds_set 8 v (fresh page (put_u64 fid @ drop 8 buf)) = Inr (fresh page (put_u64 fid @ put_u64 v))" for v
    by (simp add: ds_set_def)
  show ?thesis unfolding ds_update_def n s using assms(3) a b by (simp add: Let_def n)
qed

lemma drop_fresh: "0 < page \<Longrightarrow> length buf < DISCARD_FILE_SIZE \<Longrightarrow>
    mm_drop (ds_mmap_f (fresh page buf)) = buf @ replicate (DISCARD_FILE_SIZE - length buf) 0"
  by (simp add: mm_drop_def flush_buf_def check_len_satisfied_def fresh_def raw_write_def Let_def)

fun ds_updates :: "(u64 \<times> int) list \<Rightarrow> discard_stats \<Rightarrow> (u64 list \<times> discard_stats) outcome" where
  "ds_updates [] ds = Inr ([], ds)"
| "ds_updates ((fid, discard) # us) ds =
     and_then (ds_update fid discard ds) (\<lambda>(v, ds). and_then (ds_updates us ds) (\<lambda>(vs, ds). Inr (v # vs, ds)))"

lemma updates_fresh:
  assumes "16 < page"
  shows "length buf \<in> {0, 16} \<Longrightarrow> \<forall>(fid, d) \<in> set us. 0 < d \<Longrightarrow>
    ds_updates us (fresh page buf) = Inr (map (\<lambda>(fid, d). word_of_int d) us,
      fresh page (if us = [] then buf else put_u64 (fst (last us)) @ put_u64 (word_of_int (snd (last us)))))"
proof (induction us arbitrary: buf)
  case (Cons u us)
  obtain fid d where u: "u = (fid, d)" by (cases u)
  have "ds_updates us (fresh page (put_u64 fid @ put_u64 (word_of_int d))) = Inr (map (\<lambda>(fid, d). word_of_int d) us,
      fresh page (if us = [] then put_u64 fid @ put_u64 (word_of_int d) else put_u64 (fst (last us)) @ put_u64 (word_of_int (snd (last us)))))"
    by (rule Cons.IH) (use Cons.prems in auto)
  with update_fresh [OF assms Cons.prems(1), of d fid] Cons.prems(2) u show ?case by simp
qed simp

section \<open>Properties\<close>

text \<open>C35: In a store opened on a new file every report of discarded bytes returns just the amount
  reported, whatever was reported before for the same file, and when the store is closed
  its file holds one record, the last one, and zeros: the empty slot is never moved on.\<close>

theorem discard_stats_keep_last:
  assumes "16 < page" "us \<noteq> []" "\<forall>(fid, d) \<in> set us. 0 < d"
  shows "\<exists>ds0 ds. DiscardStats_new page [] = Inr ds0 \<and> ds_updates us ds0 = Inr (map (\<lambda>(fid, d). word_of_int d) us, ds) \<and>
    mm_drop (ds_mmap_f ds) = put_u64 (fst (last us)) @ put_u64 (word_of_int (snd (last us))) @ replicate (DISCARD_FILE_SIZE - 16) 0"
proof -
  let ?buf = "put_u64 (fst (last us)) @ put_u64 (word_of_int (snd (last us)))"
  have "mm_drop (ds_mmap_f (fresh page ?buf)) = ?buf @ replicate (DISCARD_FILE_SIZE - 16) 0"
    using drop_fresh [of page ?buf] assms(1) by (simp add: DISCARD_FILE_SIZE_def)
  with updates_fresh [OF assms(1) _ assms(3), of "[]"] new_fresh [of page] assms(2)
  show ?thesis by (intro exI [of _ "fresh page []"] exI [of _ "fresh page ?buf"]) simp
qed

theorem discard_stats_keep_last_witness:
  "\<exists>ds0 ds. DiscardStats_new 4096 [] = Inr ds0 \<and> ds_updates [(1, 100), (2, 50), (1, 30)] ds0 = Inr ([100, 50, 30], ds) \<and>
    mm_drop (ds_mmap_f ds) = put_u64 1 @ put_u64 30 @ replicate (DISCARD_FILE_SIZE - 16) 0"
  using discard_stats_keep_last [of 4096 "[(1, 100), (2, 50), (1, 30)]"] by simp

end
