(* ===== verification/Compact.thy ===== *)
theory Compact
  imports Plan TableIter Discard
begin

text \<open>
  Running a compaction (\<open>src/src/level/compact.rs\<close>): the merge of the tables of a plan is read from the start of each
  split, the entries that are still needed go into new tables, what is passed over is reported
  to the discard statistics, and the manifest and the two levels are changed. The tasks of the
  splits run one after the other here; a panic in a task is a failure of the one that awaits it. The
  clock is read once for a whole compaction. Counters that are only logged, and the range of
  the table being built, which is never read, are left out. As in \<open>TableIter\<close> loops take fuel.
  A compaction that fails gives its failure only: what it changed before (file numbers, keys,
  statistics, the manifest in memory) is not followed further.
\<close>

section \<open>What a compaction is given\<close>

text \<open>\<open>ce_capacity\<close> is the floating point product of \<open>set_table_size\<close>, \<open>ce_order\<close> the order in which a hash map is
  walked, \<open>ce_key\<close> and \<open>ce_nonce\<close> the random bytes for a new data key.\<close>

record compact_env =
  ce_te :: table_env
  ce_me :: manifest_env
  ce_capacity :: "nat \<Rightarrow> nat"
  ce_page :: nat
  ce_now :: u64
  ce_now_nanos :: nat
  ce_key :: bytes
  ce_nonce :: bytes
  ce_order :: "(u32 \<times> u64) list \<Rightarrow> (u32 \<times> u64) list"

text \<open>The state that compactions share.\<close>

record compact_context =
  cc_controller :: levels_controller
  cc_registry :: key_registry
  cc_discard_stats :: discard_stats

definition set_table_size :: "compact_env \<Rightarrow> nat \<Rightarrow> table_config \<Rightarrow> table_config" where
  "set_table_size ce table_size config = config\<lparr>tg_table_size := table_size, tg_table_capacity := ce_capacity ce table_size\<rparr>"

text \<open>\<open>TableBuilder::build\<close>: the file has the computed size and is written in one go.\<close>

definition tb_build :: "table_env \<Rightarrow> nat \<Rightarrow> u32 \<Rightarrow> table_builder \<Rightarrow> table outcome" where
  "tb_build te page tid tb =
     and_then (tb_done te tb) (\<lambda>(td, tb).
     if length (read_all td) \<noteq> td_size td then Inl Panic
     else table_open te (tb_config tb) tid ((fst (MmapFile_open page [] (td_size td)))\<lparr>mm_raw := read_all td\<rparr>) (tb_cipher tb))"

section \<open>Adding keys to a table\<close>

record add_key_context =
  ac_last_key_ts :: key_ts
  ac_skip_key :: key_ts
  ac_num_versions :: nat
  ac_discard_stats :: "(u32 \<times> u64) list"
  ac_first_key_has_discard_set :: bool

definition AddKeyContext_default :: add_key_context where
  "AddKeyContext_default = \<lparr>ac_last_key_ts = KeyTs_default, ac_skip_key = KeyTs_default, ac_num_versions = 0, ac_discard_stats = [],
     ac_first_key_has_discard_set = False\<rparr>"

definition pointer_of :: "value_meta \<Rightarrow> value_pointer option outcome" where
  "pointer_of v =
     (if meta_contains (vm_meta v) VALUE_POINTER
      then and_then (unwrap (ValuePointer_deserialize (vm_value v))) (\<lambda>vp. Inr (Some vp)) else Inr None)"

definition note_discard :: "value_meta \<Rightarrow> (u32 \<times> u64) list \<Rightarrow> (u32 \<times> u64) list outcome" where
  "note_discard v stats =
     and_then (pointer_of v) (\<lambda>vp.
     case vp of
       None \<Rightarrow> Inr stats
     | Some vp \<Rightarrow>
         (case map_of stats (vp_fid vp) of
            Some n \<Rightarrow> and_then (add_checked n (ucast (vp_len vp))) (\<lambda>n. Inr (map (\<lambda>(f, k). (f, if f = vp_fid vp then n else k)) stats))
          | None \<Rightarrow> Inr (stats @ [(vp_fid vp, ucast (vp_len vp))])))"

definition update_discard :: "value_meta \<Rightarrow> add_key_context \<Rightarrow> add_key_context outcome" where
  "update_discard v ac = and_then (note_discard v (ac_discard_stats ac)) (\<lambda>stats. Inr (ac\<lparr>ac_discard_stats := stats\<rparr>))"

text \<open>\<open>range.count()\<close> of a half-open interval.\<close>

definition range_count :: "nat \<times> nat \<Rightarrow> nat" where
  "range_count r = snd r - fst r"

definition exceeds_allowed_overlap :: "levels_controller \<Rightarrow> compact_plan \<Rightarrow> key_ts_range \<Rightarrow> bool" where
  "exceeds_allowed_overlap lc pl key_range =
     (let n2n = unat (pl_next_level pl) + 1 in
      if n2n \<le> 1 \<or> n2n \<ge> length (lc_levels lc) then False
      else range_count (overlap_tables (lh_tables (lc_levels lc ! n2n)) key_range) \<ge> 10)"

fun check_overlap_levels :: "key_ts_range \<Rightarrow> level_handler list \<Rightarrow> bool" where
  "check_overlap_levels r [] = False"
| "check_overlap_levels r (lh # lhs) = (range_count (overlap_tables (lh_tables lh) r) > 0 \<or> check_overlap_levels r lhs)"

definition check_overlap :: "levels_controller \<Rightarrow> table list \<Rightarrow> nat \<Rightarrow> bool outcome" where
  "check_overlap lc tables target_level =
     (if target_level \<le> length (lc_levels lc)
      then Inr (check_overlap_levels (KeyTsRange_from_tables tables) (drop target_level (lc_levels lc))) else Inl Panic)"

text \<open>Whether a key lies behind the range of the split.\<close>

definition behind :: "key_ts_range \<Rightarrow> bytes option \<Rightarrow> bool outcome" where
  "behind key_range key =
     (if KeyTs_is_empty (kr_right key_range) then Inr False
      else and_then (unwrap key) (\<lambda>k. Inr (KeyTsBorrow_partial_cmp_owned k (kr_right key_range) \<noteq> Less)))"

text \<open>What one round of the loop does: step over the entry, leave the loop, or add the entry.\<close>

datatype add_action = Advance add_key_context | Leave add_key_context | Added table_builder add_key_context

text \<open>The first version of a key. The result says whether to leave the loop, with the new count of keys.\<close>

definition first_version ::
  "levels_controller \<Rightarrow> compact_plan \<Rightarrow> key_ts_range \<Rightarrow> nat \<Rightarrow> table_builder \<Rightarrow> bytes option \<Rightarrow> value_meta \<Rightarrow> add_key_context
     \<Rightarrow> (bool \<times> nat \<times> add_key_context) outcome" where
  "first_version lc pl key_range range_check tb key v ac =
     (let key_ts = (case key of Some k \<Rightarrow> k | None \<Rightarrow> []); ac = ac\<lparr>ac_first_key_has_discard_set := False\<rparr> in
      and_then (behind key_range key) (\<lambda>out.
      if out then Inr (True, range_check, ac)
      else if reacded_capacity tb then Inr (True, range_check, ac)
      else
        let ac = ac\<lparr>ac_last_key_ts := KeyTs_from_borrow key_ts, ac_num_versions := 0,
                    ac_first_key_has_discard_set := meta_contains (vm_meta v) DISCARD_EARLIER_VERSIONS\<rparr>;
            range_check = range_check + 1
        in Inr (range_check mod 5000 = 0 \<and> exceeds_allowed_overlap lc pl key_range, range_check, ac)))"

text \<open>Whether a version that no reader needs any more is dropped; it may be the last one of its key.\<close>

definition drop_version ::
  "levels_controller \<Rightarrow> u64 \<Rightarrow> bool \<Rightarrow> bool \<Rightarrow> bytes \<Rightarrow> value_meta \<Rightarrow> add_key_context \<Rightarrow> bool \<times> add_key_context" where
  "drop_version lc discard_ts has_overlap is_expired key_ts v ac =
     (if KeyTsBorrow_txn_ts key_ts \<le> discard_ts \<and> \<not> meta_contains (vm_meta v) MERGE_ENTRY then
        let ac = ac\<lparr>ac_num_versions := ac_num_versions ac + 1\<rparr>;
            last_valid_version = (meta_contains (vm_meta v) DISCARD_EARLIER_VERSIONS \<or>
              ac_num_versions ac = lg_num_versions_to_keep (lc_config lc))
        in if is_expired \<or> last_valid_version
           then ((is_expired \<or> \<not> last_valid_version) \<and> \<not> has_overlap, ac\<lparr>ac_skip_key := KeyTs_from_borrow key_ts\<rparr>)
           else (False, ac)
      else (False, ac))"

definition add_version ::
  "compact_env \<Rightarrow> levels_controller \<Rightarrow> u64 \<Rightarrow> bool \<Rightarrow> table_builder \<Rightarrow> bytes \<Rightarrow> value_meta \<Rightarrow> add_key_context \<Rightarrow> add_action outcome" where
  "add_version ce lc discard_ts has_overlap tb key_ts v ac =
     (let is_expired = ValueMeta_is_deleted_or_expired (ce_now ce) v;
          (dropped, ac) = drop_version lc discard_ts has_overlap is_expired key_ts v ac
      in if dropped then and_then (update_discard v ac) (\<lambda>ac. Inr (Advance ac))
         else and_then (pointer_of v) (\<lambda>vp.
              and_then ((if ac_first_key_has_discard_set ac \<or> is_expired then tb_push_stale else tb_push)
                          (ce_te ce) key_ts v (map_option vp_len vp) tb) (\<lambda>tb.
              Inr (Added tb ac))))"

definition add_keys_round ::
  "compact_env \<Rightarrow> levels_controller \<Rightarrow> compact_plan \<Rightarrow> u64 \<Rightarrow> key_ts_range \<Rightarrow> bool \<Rightarrow> nat \<Rightarrow> table_builder \<Rightarrow> bytes option \<Rightarrow> value_meta
     \<Rightarrow> add_key_context \<Rightarrow> (add_action \<times> nat) outcome" where
  "add_keys_round ce lc pl discard_ts key_range has_overlap range_check tb key v ac =
     (let key_ts = (case key of Some k \<Rightarrow> k | None \<Rightarrow> []) in
      if list_ex (\<lambda>p. take (length p) key_ts = p) (pl_drop_prefixes pl) then
        and_then (update_discard v ac) (\<lambda>ac. Inr (Advance ac, range_check))
      else if \<not> KeyTs_is_empty (ac_skip_key ac) \<and> KeyTsBorrow_key key_ts = kt_key (ac_skip_key ac) then
        and_then (update_discard v ac) (\<lambda>ac. Inr (Advance ac, range_check))
      else
        let ac = ac\<lparr>ac_skip_key := KeyTs_default\<rparr> in
        and_then (if KeyTsBorrow_key key_ts \<noteq> kt_key (ac_last_key_ts ac)
                  then first_version lc pl key_range range_check tb key v ac
                  else Inr (False, range_check, ac)) (\<lambda>(leave, range_check, ac).
        if leave then Inr (Leave ac, range_check)
        else and_then (add_version ce lc discard_ts has_overlap tb key_ts v ac) (\<lambda>a. Inr (a, range_check))))"

text \<open>After an entry has been added the iterator is not moved.\<close>

fun add_keys ::
  "compact_env \<Rightarrow> nat \<Rightarrow> levels_controller \<Rightarrow> compact_plan \<Rightarrow> u64 \<Rightarrow> key_ts_range \<Rightarrow> bool \<Rightarrow> nat \<Rightarrow> table_builder \<Rightarrow> merge_iter
     \<Rightarrow> add_key_context \<Rightarrow> (table_builder \<times> merge_iter \<times> add_key_context) outcome option" where
  "add_keys ce 0 lc pl discard_ts key_range has_overlap range_check tb m ac = None"
| "add_keys ce (Suc n) lc pl discard_ts key_range has_overlap range_check tb m ac =
     ok_then (Some (merge_valid m)) (\<lambda>valid.
     if \<not> valid then Some (Inr (tb, m, ac))
     else
       ok_then (Some (merge_key m)) (\<lambda>key.
       ok_then (Some (merge_value (ce_te ce) m)) (\<lambda>v.
       ok_then (Some (add_keys_round ce lc pl discard_ts key_range has_overlap range_check tb key
                        (case v of Some v \<Rightarrow> v | None \<Rightarrow> ValueMeta_default) ac)) (\<lambda>(a, range_check).
       case a of
         Advance ac \<Rightarrow> ok_then (merge_next (ce_te ce) n m) (\<lambda>(_, m).
           add_keys ce n lc pl discard_ts key_range has_overlap range_check tb m ac)
       | Leave ac \<Rightarrow> Some (Inr (tb, m, ac))
       | Added tb ac \<Rightarrow> add_keys ce n lc pl discard_ts key_range has_overlap range_check tb m ac))))"

section \<open>Compacting one split\<close>

text \<open>The tables built, each with the outcome of its task, and the number of the file taken before it is built.\<close>

fun sub_compact_loop ::
  "compact_env \<Rightarrow> nat \<Rightarrow> compact_plan \<Rightarrow> table_config \<Rightarrow> u64 \<Rightarrow> key_ts_range \<Rightarrow> bool \<Rightarrow> merge_iter \<Rightarrow> add_key_context \<Rightarrow> compact_context
     \<Rightarrow> (table outcome list \<times> add_key_context \<times> compact_context) outcome option" where
  "sub_compact_loop ce 0 pl config discard_ts key_range has_overlap m ac cc = None"
| "sub_compact_loop ce (Suc n) pl config discard_ts key_range has_overlap m ac cc =
     ok_then (Some (merge_valid m)) (\<lambda>valid.
     if \<not> valid then Some (Inr ([], ac, cc))
     else
       ok_then (Some (merge_key m)) (\<lambda>key.
       ok_then (Some (behind key_range key)) (\<lambda>out.
       if out then Some (Inr ([], ac, cc))
       else
         ok_then (Some (index (ct_file_size (cp_targets (pl_priority pl))) (unat (pl_next_level pl)))) (\<lambda>table_size.
         ok_then (Some (latest_cipher (te_crypto (ce_te ce)) (ce_key ce) (ce_nonce ce) (ce_now_nanos ce) (cc_registry cc))) (\<lambda>(cipher, kr).
         let cc = cc\<lparr>cc_registry := kr\<rparr>; builder = TableBuilder_new (set_table_size ce table_size config) cipher in
         ok_then (add_keys ce n (cc_controller cc) pl discard_ts key_range has_overlap 0 builder m ac) (\<lambda>(builder, m, ac).
         if tb_is_empty builder then
           ok_then (Some (tb_finish (ce_te ce) builder)) (\<lambda>_.
           sub_compact_loop ce n pl config discard_ts key_range has_overlap m ac cc)
         else
           let (tid, lc) = get_reserve_file_id (cc_controller cc); cc = cc\<lparr>cc_controller := lc\<rparr> in
           ok_then (sub_compact_loop ce n pl config discard_ts key_range has_overlap m ac cc) (\<lambda>(tasks, ac, cc).
           Some (Inr (tb_build (ce_te ce) (ce_page ce) tid builder # tasks, ac, cc)))))))))"

fun report_discards :: "(u32 \<times> u64) list \<Rightarrow> discard_stats \<Rightarrow> discard_stats outcome" where
  "report_discards [] ds = Inr ds"
| "report_discards ((fid, discard) # rest) ds =
     and_then (ds_update (ucast fid) (sint discard) ds) (\<lambda>(_, ds). report_discards rest ds)"

definition sub_compact ::
  "compact_env \<Rightarrow> nat \<Rightarrow> compact_plan \<Rightarrow> table_config \<Rightarrow> u64 \<Rightarrow> merge_iter \<Rightarrow> key_ts_range \<Rightarrow> compact_context
     \<Rightarrow> (table outcome list \<times> compact_context) outcome option" where
  "sub_compact ce n pl config discard_ts m key_range cc =
     ok_then (Some (check_overlap (cc_controller cc) (pl_top pl @ pl_bottom pl) (unat (pl_next_level pl) + 1))) (\<lambda>has_overlap.
     ok_then (if \<not> KeyTs_is_empty (kr_left key_range) then merge_seek (ce_te ce) n (KeyTs_serialize (kr_left key_range)) m
              else merge_next (ce_te ce) n m) (\<lambda>(_, m).
     ok_then (sub_compact_loop ce n pl config discard_ts key_range has_overlap m AddKeyContext_default cc) (\<lambda>(tasks, ac, cc).
     ok_then (Some (report_discards (ce_order ce (ac_discard_stats ac)) (cc_discard_stats cc))) (\<lambda>ds.
     Some (Inr (tasks, cc\<lparr>cc_discard_stats := ds\<rparr>))))))"

section \<open>Running a plan\<close>

definition drops_table :: "bytes list \<Rightarrow> table \<Rightarrow> bool" where
  "drops_table prefixes t \<longleftrightarrow>
     list_ex (\<lambda>p. take (length p) (kt_key (tl_smallest t)) = p \<and> take (length p) (kt_key (tl_biggest t)) = p) prefixes"

definition compact_iters :: "level \<Rightarrow> compact_plan \<Rightarrow> merge_node_iter list outcome" where
  "compact_iters l pl =
     (let valid = filter (\<lambda>t. \<not> drops_table (cp_drop_prefixes (pl_priority pl)) t) (pl_bottom pl);
          rest = [TableConcatNode (SinkTableConcatIter_new valid)] in
      if l = LEVEL0 then Inr (map (\<lambda>t. TableNode (table_iter_new t)) (rev (pl_top pl)) @ rest)
      else if pl_top pl = [] then Inr rest
      else if length (pl_top pl) \<noteq> 1 then Inl Panic
      else Inr (TableNode (table_iter_new (hd (pl_top pl))) # rest))"

fun compact_splits ::
  "compact_env \<Rightarrow> nat \<Rightarrow> level \<Rightarrow> compact_plan \<Rightarrow> table_config \<Rightarrow> u64 \<Rightarrow> key_ts_range list \<Rightarrow> compact_context
     \<Rightarrow> (table outcome list \<times> compact_context) outcome option" where
  "compact_splits ce n l pl config discard_ts [] cc = Some (Inr ([], cc))"
| "compact_splits ce n l pl config discard_ts (kr # krs) cc =
     ok_then (Some (and_then (compact_iters l pl) SinkMergeIter_new)) (\<lambda>m.
     ok_then (case m of Some m \<Rightarrow> sub_compact ce n pl config discard_ts m kr cc | None \<Rightarrow> Some (Inr ([], cc))) (\<lambda>(ts, cc).
     ok_then (compact_splits ce n l pl config discard_ts krs cc) (\<lambda>(us, cc). Some (Inr (ts @ us, cc)))))"

definition compact_build_tables ::
  "compact_env \<Rightarrow> nat \<Rightarrow> level \<Rightarrow> compact_plan \<Rightarrow> table_config \<Rightarrow> u64 \<Rightarrow> compact_context \<Rightarrow> (table list \<times> compact_context) outcome option" where
  "compact_build_tables ce n l pl config discard_ts cc =
     ok_then (compact_splits ce n l pl config discard_ts (pl_splits pl) cc) (\<lambda>(tasks, cc).
     ok_then (Some (await_tasks tasks)) (\<lambda>tables. Some (Inr (sort_key tl_biggest tables, cc))))"

definition table_key_id :: "table \<Rightarrow> u64" where
  "table_key_id t = (case tl_cipher t of Some c \<Rightarrow> cipher_key_id c | None \<Rightarrow> 0)"

definition compaction_changes :: "compact_plan \<Rightarrow> table list \<Rightarrow> manifest_change list" where
  "compaction_changes pl new_tables =
     map (\<lambda>t. new_create (tl_table_id t) (pl_next_level pl) (table_key_id t) (tg_compression (tl_config t))) new_tables @
     map (\<lambda>t. new_delete (tl_table_id t)) (pl_top pl) @ map (\<lambda>t. new_delete (tl_table_id t)) (pl_bottom pl)"

text \<open>A handler of the controller changed under its lock.\<close>

definition change_level :: "level \<Rightarrow> (level_handler \<Rightarrow> level_handler outcome) \<Rightarrow> levels_controller \<Rightarrow> levels_controller outcome" where
  "change_level l f lc =
     and_then (lc_handler lc l) (\<lambda>lh. and_then (f lh) (\<lambda>lh. Inr (lc\<lparr>lc_levels := (lc_levels lc)[unat l := lh]\<rparr>)))"

text \<open>The second half of \<open>run_compact\<close>: the manifest first, then the lower and the upper level.\<close>

definition install_tables :: "manifest_env \<Rightarrow> compact_plan \<Rightarrow> table list \<Rightarrow> levels_controller \<Rightarrow> levels_controller outcome" where
  "install_tables me pl new_tables lc =
     (case push_changes me (compaction_changes pl new_tables) (lc_manifest lc) of
        (Inl e, mf) \<Rightarrow> Inl e
      | (Inr _, mf) \<Rightarrow>
          and_then (change_level (pl_next_level pl) (replace_tables (pl_bottom pl) new_tables) (lc\<lparr>lc_manifest := mf\<rparr>)) (\<lambda>lc.
          change_level (pl_this_level pl) (delete_tables (pl_top pl)) lc))"

definition run_compact ::
  "compact_env \<Rightarrow> nat \<Rightarrow> level \<Rightarrow> compact_plan \<Rightarrow> table_config \<Rightarrow> u64 \<Rightarrow> compact_context \<Rightarrow> compact_context outcome option" where
  "run_compact ce n l pl config discard_ts cc =
     (if ct_file_size (cp_targets (pl_priority pl)) = [] then Some (Inl (Anyhow ''Filesizes cannot be zero. Targets are not set''))
      else if pl_splits pl \<noteq> [] then Some (Inl Panic)
      else
        let pl = (if pl_this_level pl \<noteq> pl_next_level pl then add_splits pl else pl);
            pl = (if pl_splits pl = [] then pl\<lparr>pl_splits := [KeyTsRange_default]\<rparr> else pl)
        in ok_then (compact_build_tables ce n l pl config discard_ts cc) (\<lambda>(new_tables, cc).
           ok_then (Some (install_tables (ce_me ce) pl new_tables (cc_controller cc))) (\<lambda>lc.
           Some (Inr (cc\<lparr>cc_controller := lc\<rparr>)))))"

section \<open>Adding keys that every reader has seen\<close>

text \<open>
  What the loop comes to when no version is above \<open>discard_ts\<close> and one version of a key is kept: of
  every key the newest version, unless it is deleted or expired and no lower level has the key, up to the end
  of the split or of the room in the table. The second component is what is left for the next table.
\<close>

function keep_newest ::
  "compact_env \<Rightarrow> key_ts_range \<Rightarrow> bool \<Rightarrow> ktvs \<Rightarrow> table_builder \<Rightarrow> (table_builder \<times> ktvs) outcome" where
  "keep_newest ce r has_overlap [] tb = Inr (tb, [])"
| "keep_newest ce r has_overlap (x # xs) tb =
     (if \<not> KeyTs_is_empty (kr_right r) \<and> kr_right r \<le> fst x \<or> reacded_capacity tb then Inr (tb, x # xs)
      else
        let rest = dropWhile (\<lambda>y. kt_key (fst y) = kt_key (fst x)) xs;
            is_expired = ValueMeta_is_deleted_or_expired (ce_now ce) (snd x)
        in if is_expired \<and> \<not> has_overlap then keep_newest ce r has_overlap rest tb
           else and_then (pointer_of (snd x)) (\<lambda>vp.
                and_then ((if meta_contains (vm_meta (snd x)) DISCARD_EARLIER_VERSIONS \<or> is_expired then tb_push_stale else tb_push)
                            (ce_te ce) (KeyTs_serialize (fst x)) (snd x) (map_option vp_len vp) tb) (\<lambda>tb.
                keep_newest ce r has_overlap rest tb)))"
  by pat_completeness auto

termination
  by (relation "measure (\<lambda>(ce, r, has_overlap, xs, tb). length xs)") (auto simp: less_Suc_eq_le length_dropWhile_le)

text \<open>The entries reported to the discard statistics, one after the other.\<close>

fun note_discards :: "ktvs \<Rightarrow> (u32 \<times> u64) list \<Rightarrow> (u32 \<times> u64) list outcome" where
  "note_discards [] stats = Inr stats"
| "note_discards (x # xs) stats = and_then (note_discard (snd x) stats) (note_discards xs)"

lemma note_discards_append: "note_discards (xs @ ys) stats = and_then (note_discards xs stats) (note_discards ys)"
proof (induction xs arbitrary: stats)
  case (Cons x xs)
  then show ?case by (cases "note_discard (snd x) stats") auto
qed simp

definition adds ::
  "compact_env \<Rightarrow> levels_controller \<Rightarrow> compact_plan \<Rightarrow> u64 \<Rightarrow> key_ts_range \<Rightarrow> bool \<Rightarrow> nat \<Rightarrow> table_builder \<Rightarrow> merge_iter \<Rightarrow> add_key_context
     \<Rightarrow> table_builder \<times> merge_iter \<times> add_key_context \<Rightarrow> bool" where
  "adds ce lc pl discard_ts r ov rc tb m ac res \<longleftrightarrow>
     (\<exists>n0. \<forall>n \<ge> n0. add_keys ce n lc pl discard_ts r ov rc tb m ac = Some (Inr res))"

lemma eventually_Suc: "(\<And>n. n \<ge> n0 \<Longrightarrow> P (Suc n)) \<Longrightarrow> \<exists>k. \<forall>n \<ge> k. P n"
  by (metis Suc_le_D Suc_le_mono)

lemma adds_end: "merge_valid m = Inr False \<Longrightarrow> adds ce lc pl discard_ts r ov rc tb m ac (tb, m, ac)"
  unfolding adds_def by (rule eventually_Suc) simp

lemma adds_round:
  assumes "merge_valid m = Inr True" "merge_key m = Inr (Some k)" "merge_value (ce_te ce) m = Inr (Some v)"
    "add_keys_round ce lc pl discard_ts r ov rc tb (Some k) v ac = Inr (a, rc')"
  shows "a = Leave ac' \<Longrightarrow> adds ce lc pl discard_ts r ov rc tb m ac (tb, m, ac')"
    "a = Added tb' ac' \<Longrightarrow> adds ce lc pl discard_ts r ov rc' tb' m ac' res \<Longrightarrow> adds ce lc pl discard_ts r ov rc tb m ac res"
    "a = Advance ac' \<Longrightarrow> merges_to (ce_te ce) m b m' \<Longrightarrow> adds ce lc pl discard_ts r ov rc' tb m' ac' res \<Longrightarrow>
       adds ce lc pl discard_ts r ov rc tb m ac res"
proof -
  show "adds ce lc pl discard_ts r ov rc tb m ac (tb, m, ac')" if "a = Leave ac'"
    unfolding adds_def by (rule eventually_Suc) (use assms that in simp)
  show "adds ce lc pl discard_ts r ov rc tb m ac res" if p: "a = Added tb' ac'" "adds ce lc pl discard_ts r ov rc' tb' m ac' res"
  proof -
    obtain n0 where "\<And>n. n \<ge> n0 \<Longrightarrow> add_keys ce n lc pl discard_ts r ov rc' tb' m ac' = Some (Inr res)" using p(2) by (auto simp: adds_def)
    then show ?thesis unfolding adds_def by (intro eventually_Suc [of n0]) (use assms p(1) in simp)
  qed
  show "adds ce lc pl discard_ts r ov rc tb m ac res"
    if p: "a = Advance ac'" "merges_to (ce_te ce) m b m'" "adds ce lc pl discard_ts r ov rc' tb m' ac' res"
  proof -
    obtain n0 n1 where "\<And>n. n \<ge> n0 \<Longrightarrow> add_keys ce n lc pl discard_ts r ov rc' tb m' ac' = Some (Inr res)"
      "\<And>n. n \<ge> n1 \<Longrightarrow> merge_next (ce_te ce) n m = Some (Inr (b, m'))" using p(2,3) by (auto simp: adds_def merges_to_def)
    then show ?thesis unfolding adds_def by (intro eventually_Suc [of "max n0 n1"]) (use assms p(1) in simp)
  qed
qed

text \<open>The versions of the key to be skipped are passed over and reported.\<close>

lemma adds_skip:
  assumes "pl_drop_prefixes pl = []"
  shows "\<not> KeyTs_is_empty (ac_skip_key ac) \<Longrightarrow> kt_key (ac_skip_key ac) = k \<Longrightarrow> cursor (ce_te ce) xs m \<Longrightarrow>
    note_discards (takeWhile (\<lambda>y. kt_key (fst y) = k) xs) (ac_discard_stats ac) = Inr stats \<Longrightarrow>
    (\<And>m'. cursor (ce_te ce) (dropWhile (\<lambda>y. kt_key (fst y) = k) xs) m' \<Longrightarrow>
       \<exists>res. P res \<and> adds ce lc pl discard_ts r ov rc tb m' (ac\<lparr>ac_discard_stats := stats\<rparr>) res) \<Longrightarrow>
    \<exists>res. P res \<and> adds ce lc pl discard_ts r ov rc tb m ac res"
proof (induction xs arbitrary: m ac)
  case Nil
  then have st: "stats = ac_discard_stats ac" by simp
  from Nil(5) [of m] Nil(3) show ?case unfolding st by simp
next
  case (Cons x xs)
  show ?case
  proof (cases "kt_key (fst x) = k")
    case False
    then have st: "stats = ac_discard_stats ac" using Cons.prems(4) by simp
    from Cons.prems(5) [of m] Cons.prems(3) False show ?thesis unfolding st by simp
  next
    case True
    obtain s1 where s1: "note_discard (snd x) (ac_discard_stats ac) = Inr s1"
      "note_discards (takeWhile (\<lambda>y. kt_key (fst y) = k) xs) s1 = Inr stats"
      using Cons.prems(4) True by (auto simp: and_then_Inr)
    obtain b m1 where m1: "merges_to (ce_te ce) m b m1" "cursor (ce_te ce) xs m1" using Cons.prems(3) by auto
    let ?ac = "ac\<lparr>ac_discard_stats := s1\<rparr>"
    have "\<exists>res. P res \<and> adds ce lc pl discard_ts r ov rc tb m1 ?ac res"
      by (rule Cons.IH [OF _ _ m1(2)]) (use s1(2) Cons.prems True in auto)
    moreover have "add_keys_round ce lc pl discard_ts r ov rc tb (Some (KeyTs_serialize (fst x))) (snd x) ac = Inr (Advance ?ac, rc)"
      using assms Cons.prems(1,2) True s1(1) by (simp add: add_keys_round_def update_discard_def)
    ultimately show ?thesis using adds_round(3) [OF _ _ _ _ refl m1(1)] Cons.prems(3) by fastforce
  qed
qed

lemma keep_newest_suffix: "keep_newest ce r ov es tb = Inr (tb', rest) \<Longrightarrow> \<exists>used. es = used @ rest"
proof (induction ce r ov es tb rule: keep_newest.induct)
  case (2 ce r ov x xs tb)
  let ?rest = "dropWhile (\<lambda>y. kt_key (fst y) = kt_key (fst x)) xs"
  have "rest = x # xs \<or> (\<exists>used. ?rest = used @ rest)"
    using "2.prems" "2.IH" by (auto simp: Let_def and_then_Inr split: if_splits)
  then show ?case
  proof
    assume "\<exists>used. ?rest = used @ rest"
    then obtain used where "?rest = used @ rest" by blast
    then have "x # xs = (x # takeWhile (\<lambda>y. kt_key (fst y) = kt_key (fst x)) xs @ used) @ rest"
      by (metis append_Cons append_assoc takeWhile_dropWhile_id)
    then show ?thesis by blast
  qed auto
qed simp

text \<open>The context fits when neither the last key nor the key to be skipped is that of the next entry.\<close>

definition next_key_new :: "add_key_context \<Rightarrow> ktvs \<Rightarrow> bool" where
  "next_key_new ac es \<longleftrightarrow> (case es of [] \<Rightarrow> True | x # _ \<Rightarrow>
     kt_key (fst x) \<noteq> kt_key (ac_last_key_ts ac) \<and> (KeyTs_is_empty (ac_skip_key ac) \<or> kt_key (ac_skip_key ac) \<noteq> kt_key (fst x)))"

text \<open>One version of each key is kept, nothing is dropped by prefix, and no lower level is in the way.\<close>

definition plain_plan :: "levels_controller \<Rightarrow> compact_plan \<Rightarrow> key_ts_range \<Rightarrow> bool" where
  "plain_plan lc pl r \<longleftrightarrow> pl_drop_prefixes pl = [] \<and> lg_num_versions_to_keep (lc_config lc) = 1 \<and> \<not> exceeds_allowed_overlap lc pl r"

definition seen :: "u64 \<Rightarrow> ktvs \<Rightarrow> bool" where
  "seen discard_ts es \<longleftrightarrow> (\<forall>e \<in> set es. kt_txn_ts (fst e) \<le> discard_ts \<and> \<not> meta_contains (vm_meta (snd e)) MERGE_ENTRY)"

definition new_key_context :: "key_ts \<times> value_meta \<Rightarrow> add_key_context \<Rightarrow> add_key_context" where
  "new_key_context x ac = ac\<lparr>ac_skip_key := fst x, ac_last_key_ts := fst x, ac_num_versions := 1,
     ac_first_key_has_discard_set := meta_contains (vm_meta (snd x)) DISCARD_EARLIER_VERSIONS\<rparr>"

lemma behind_serialize:
  "behind r (Some (KeyTs_serialize k)) = Inr (\<not> KeyTs_is_empty (kr_right r) \<and> kr_right r \<le> k)"
proof -
  have "KeyTsBorrow_partial_cmp_owned (KeyTs_serialize k) (kr_right r) = compare k (kr_right r)"
    by (auto simp: KeyTsBorrow_partial_cmp_owned_def KeyTs_cmp_compare [symmetric] KeyTs_cmp_def split: ordering.split)
  then show ?thesis by (auto simp: behind_def)
qed

definition stops :: "key_ts_range \<Rightarrow> table_builder \<Rightarrow> key_ts \<times> value_meta \<Rightarrow> bool" where
  "stops r tb x \<longleftrightarrow> \<not> KeyTs_is_empty (kr_right r) \<and> kr_right r \<le> fst x \<or> reacded_capacity tb"

lemma round_new_key:
  assumes "plain_plan lc pl r" "next_key_new ac (x # xs)" "seen discard_ts [x]"
  shows "stops r tb x \<Longrightarrow>
      \<exists>ac'. add_keys_round ce lc pl discard_ts r ov rc tb (Some (KeyTs_serialize (fst x))) (snd x) ac = Inr (Leave ac', rc) \<and>
        ac_discard_stats ac' = ac_discard_stats ac" (is "_ \<Longrightarrow> ?leave")
    and "\<not> stops r tb x \<Longrightarrow> ValueMeta_is_deleted_or_expired (ce_now ce) (snd x) \<and> \<not> ov \<Longrightarrow>
      update_discard (snd x) (new_key_context x ac) = Inr ac' \<Longrightarrow>
      add_keys_round ce lc pl discard_ts r ov rc tb (Some (KeyTs_serialize (fst x))) (snd x) ac = Inr (Advance ac', rc + 1)"
    and "\<not> stops r tb x \<Longrightarrow> \<not> (ValueMeta_is_deleted_or_expired (ce_now ce) (snd x) \<and> \<not> ov) \<Longrightarrow> pointer_of (snd x) = Inr vp \<Longrightarrow>
      (if meta_contains (vm_meta (snd x)) DISCARD_EARLIER_VERSIONS \<or> ValueMeta_is_deleted_or_expired (ce_now ce) (snd x)
        then tb_push_stale else tb_push) (ce_te ce) (KeyTs_serialize (fst x)) (snd x) (map_option vp_len vp) tb = Inr tb' \<Longrightarrow>
      add_keys_round ce lc pl discard_ts r ov rc tb (Some (KeyTs_serialize (fst x))) (snd x) ac = Inr (Added tb' (new_key_context x ac), rc + 1)"
proof -
  have p: "pl_drop_prefixes pl = []" "lg_num_versions_to_keep (lc_config lc) = 1" "\<not> exceeds_allowed_overlap lc pl r"
    "kt_key (fst x) = kt_key (ac_skip_key ac) \<Longrightarrow> KeyTs_is_empty (ac_skip_key ac)" "kt_key (fst x) \<noteq> kt_key (ac_last_key_ts ac)"
    "kt_txn_ts (fst x) \<le> discard_ts" "\<not> meta_contains (vm_meta (snd x)) MERGE_ENTRY"
    using assms by (auto simp: plain_plan_def next_key_new_def seen_def)
  let ?k = "KeyTs_serialize (fst x)" and ?ac0 = "ac\<lparr>ac_skip_key := KeyTs_default\<rparr>"
  have first: "add_keys_round ce lc pl discard_ts r ov rc tb (Some ?k) (snd x) ac =
    and_then (first_version lc pl r rc tb (Some ?k) (snd x) ?ac0) (\<lambda>(leave, rc, ac).
      if leave then Inr (Leave ac, rc)
      else and_then (add_version ce lc discard_ts ov tb ?k (snd x) ac) (\<lambda>a. Inr (a, rc)))"
    using p(1,4,5) by (auto simp: add_keys_round_def Let_def)
  show ?leave if "stops r tb x"
    using that unfolding first first_version_def behind_serialize stops_def by (auto simp: Let_def)
  let ?ac1 = "?ac0\<lparr>ac_first_key_has_discard_set := False, ac_last_key_ts := fst x, ac_num_versions := 0,
    ac_first_key_has_discard_set := meta_contains (vm_meta (snd x)) DISCARD_EARLIER_VERSIONS\<rparr>"
  have "first_version lc pl r rc tb (Some ?k) (snd x) ?ac0 = Inr (False, rc + 1, ?ac1)" if "\<not> stops r tb x"
  proof -
    have "behind r (Some ?k) = Inr False" using that unfolding behind_serialize stops_def by simp
    then show ?thesis using that p(3) by (simp add: stops_def first_version_def Let_def serialize_from_borrow)
  qed
  with first have go: "add_keys_round ce lc pl discard_ts r ov rc tb (Some ?k) (snd x) ac =
      and_then (add_version ce lc discard_ts ov tb ?k (snd x) ?ac1) (\<lambda>a. Inr (a, rc + 1))" if "\<not> stops r tb x" using that by simp
  have dv: "drop_version lc discard_ts ov e ?k (snd x) ?ac1 = (e \<and> \<not> ov, new_key_context x ac)" for e
    using p(2,6,7) by (simp add: drop_version_def Let_def serialize_from_borrow new_key_context_def)
  have f1: "ac_first_key_has_discard_set (new_key_context x ac) = meta_contains (vm_meta (snd x)) DISCARD_EARLIER_VERSIONS"
    by (simp add: new_key_context_def)
  show "add_keys_round ce lc pl discard_ts r ov rc tb (Some ?k) (snd x) ac = Inr (Advance ac', rc + 1)"
    if "\<not> stops r tb x" "ValueMeta_is_deleted_or_expired (ce_now ce) (snd x) \<and> \<not> ov" "update_discard (snd x) (new_key_context x ac) = Inr ac'"
    unfolding go [OF that(1)] add_version_def Let_def dv using that by simp
  show "add_keys_round ce lc pl discard_ts r ov rc tb (Some ?k) (snd x) ac = Inr (Added tb' (new_key_context x ac), rc + 1)"
    if "\<not> stops r tb x" "\<not> (ValueMeta_is_deleted_or_expired (ce_now ce) (snd x) \<and> \<not> ov)" "pointer_of (snd x) = Inr vp"
      "(if meta_contains (vm_meta (snd x)) DISCARD_EARLIER_VERSIONS \<or> ValueMeta_is_deleted_or_expired (ce_now ce) (snd x)
        then tb_push_stale else tb_push) (ce_te ce) ?k (snd x) (map_option vp_len vp) tb = Inr tb'"
    unfolding go [OF that(1)] add_version_def Let_def dv prod.case f1 using that(2-4) by (simp only: if_False and_then_simps)
qed

text \<open>What the newest version of a key does to the table: nothing when it is dropped, a push otherwise.\<close>

definition newest_version :: "compact_env \<Rightarrow> bool \<Rightarrow> key_ts \<times> value_meta \<Rightarrow> table_builder \<Rightarrow> table_builder \<Rightarrow> bool" where
  "newest_version ce ov x tb tb1 \<longleftrightarrow> (if ValueMeta_is_deleted_or_expired (ce_now ce) (snd x) \<and> \<not> ov then tb1 = tb
     else \<exists>vp. pointer_of (snd x) = Inr vp \<and>
       (if meta_contains (vm_meta (snd x)) DISCARD_EARLIER_VERSIONS \<or> ValueMeta_is_deleted_or_expired (ce_now ce) (snd x)
        then tb_push_stale else tb_push) (ce_te ce) (KeyTs_serialize (fst x)) (snd x) (map_option vp_len vp) tb = Inr tb1)"

lemma keep_newest_first:
  assumes "keep_newest ce r ov (x # xs) tb = Inr (tb', rest)" "\<not> stops r tb x"
  obtains tb1 where "newest_version ce ov x tb tb1" "keep_newest ce r ov (dropWhile (\<lambda>y. kt_key (fst y) = kt_key (fst x)) xs) tb1 = Inr (tb', rest)"
  using assms by (cases "ValueMeta_is_deleted_or_expired (ce_now ce) (snd x) \<and> \<not> ov")
    (auto simp: newest_version_def stops_def Let_def and_then_Inr)

lemma adds_newest_version:
  assumes plan: "plain_plan lc pl r" and new: "next_key_new ac (x # xs)" "seen discard_ts [x]" "\<not> stops r tb x" "kt_key (fst x) \<noteq> []"
    and x: "merge_valid m = Inr True" "merge_key m = Inr (Some (KeyTs_serialize (fst x)))" "merge_value (ce_te ce) m = Inr (Some (snd x))"
    and m1: "merges_to (ce_te ce) m b m1" and tb1: "newest_version ce ov x tb tb1" and s1: "note_discard (snd x) (ac_discard_stats ac) = Inr s1"
    and rest: "\<And>rc'. \<exists>res. P res \<and> adds ce lc pl discard_ts r ov rc' tb1 m1 ((new_key_context x ac)\<lparr>ac_discard_stats := s1\<rparr>) res"
  shows "\<exists>res. P res \<and> adds ce lc pl discard_ts r ov rc tb m ac res"
proof (cases "ValueMeta_is_deleted_or_expired (ce_now ce) (snd x) \<and> \<not> ov")
  case True
  let ?ac1 = "(new_key_context x ac)\<lparr>ac_discard_stats := s1\<rparr>"
  have "update_discard (snd x) (new_key_context x ac) = Inr ?ac1" using s1 by (simp add: update_discard_def new_key_context_def)
  moreover have "tb1 = tb" using tb1 True by (simp add: newest_version_def)
  ultimately show ?thesis using round_new_key(2) [OF plan new(1,2,3) True] rest adds_round(3) [OF x _ refl m1] by metis
next
  case False
  let ?ac1 = "(new_key_context x ac)\<lparr>ac_discard_stats := s1\<rparr>"
  obtain vp where vp: "pointer_of (snd x) = Inr vp"
    "(if meta_contains (vm_meta (snd x)) DISCARD_EARLIER_VERSIONS \<or> ValueMeta_is_deleted_or_expired (ce_now ce) (snd x)
      then tb_push_stale else tb_push) (ce_te ce) (KeyTs_serialize (fst x)) (snd x) (map_option vp_len vp) tb = Inr tb1"
    using tb1 unfolding newest_version_def if_not_P [OF False] by blast
  note added = round_new_key(3) [OF plan new(1,2,3) False vp]
  have again: "add_keys_round ce lc pl discard_ts r ov rc' tb1 (Some (KeyTs_serialize (fst x))) (snd x) (new_key_context x ac) =
      Inr (Advance ?ac1, rc')" for rc'
    using plan new(4) s1 by (simp add: add_keys_round_def update_discard_def plain_plan_def new_key_context_def KeyTs_is_empty_iff)
  show ?thesis using rest adds_round(2) [OF x added refl] adds_round(3) [OF x again refl m1] by metis
qed

lemma adds_keep_newest:
  "plain_plan lc pl r \<Longrightarrow> keep_newest ce r ov es tb = Inr (tb', rest) \<Longrightarrow> cursor (ce_te ce) es m \<Longrightarrow> in_order es \<Longrightarrow> seen discard_ts es \<Longrightarrow>
   es = used @ rest \<Longrightarrow> note_discards used (ac_discard_stats ac) = Inr stats \<Longrightarrow> next_key_new ac es \<Longrightarrow>
   \<exists>res. (\<exists>m' ac'. res = (tb', m', ac') \<and> cursor (ce_te ce) rest m' \<and> ac_discard_stats ac' = stats) \<and>
     adds ce lc pl discard_ts r ov rc tb m ac res"
proof (induction "length es" arbitrary: es tb m used ac rc rule: less_induct)
  case less
  note plan = less.prems(1)
  show ?case
  proof (cases es)
    case Nil
    with less.prems have "adds ce lc pl discard_ts r ov rc tb m ac (tb, m, ac)" by (intro adds_end) simp
    with Nil less.prems show ?thesis by (intro exI [of _ "(tb, m, ac)"]) simp
  next
    case es: (Cons x xs)
    let ?same = "\<lambda>y. kt_key (fst y) = kt_key (fst x)"
    have x: "merge_valid m = Inr True" "merge_key m = Inr (Some (KeyTs_serialize (fst x)))" "merge_value (ce_te ce) m = Inr (Some (snd x))"
      and sx: "seen discard_ts [x]" using less.prems(3,5) es by (auto simp: seen_def)
    obtain b m1 where m1: "merges_to (ce_te ce) m b m1" "cursor (ce_te ce) xs m1" using less.prems(3) es by auto
    note rounds = round_new_key [OF plan less.prems(8) [unfolded es] sx]
    show ?thesis
    proof (cases "stops r tb x")
      case True
      then have k: "tb' = tb" "rest = x # xs" using less.prems(2) es by (auto simp: stops_def)
      then have "used = []" using less.prems(6) es by simp
      obtain ac' where a: "add_keys_round ce lc pl discard_ts r ov rc tb (Some (KeyTs_serialize (fst x))) (snd x) ac = Inr (Leave ac', rc)"
        "ac_discard_stats ac' = ac_discard_stats ac" using rounds(1) [OF True] by blast
      with adds_round(1) [OF x a(1) refl] k \<open>used = []\<close> less.prems(3,7) es show ?thesis by (intro exI [of _ "(tb, m, ac')"]) auto
    next
      case False
      obtain tb1 where tb1: "newest_version ce ov x tb tb1" "keep_newest ce r ov (dropWhile ?same xs) tb1 = Inr (tb', rest)"
        using keep_newest_first [OF less.prems(2) [unfolded es] False] .
      obtain used' where u: "dropWhile ?same xs = used' @ rest" using keep_newest_suffix [OF tb1(2)] by blast
      have "x # xs = (x # takeWhile ?same xs @ used') @ rest" by (metis append_Cons append_assoc takeWhile_dropWhile_id u)
      then have used: "used = x # takeWhile ?same xs @ used'" using less.prems(6) es by (metis append_same_eq)
      obtain s1 s2 where st: "note_discard (snd x) (ac_discard_stats ac) = Inr s1" "note_discards (takeWhile ?same xs) s1 = Inr s2"
        "note_discards used' s2 = Inr stats" using less.prems(7) by (auto simp: used note_discards_append and_then_Inr)
      let ?ac1 = "(new_key_context x ac)\<lparr>ac_discard_stats := s1\<rparr>"
      have key: "kt_key (fst x) \<noteq> []" "in_order xs" "in_order (dropWhile ?same xs)"
        using less.prems(4) es by (auto simp: in_order_def sorted_wrt_map sorted_wrt_dropWhile dest: set_dropWhileD)
      have skip: "\<not> KeyTs_is_empty (ac_skip_key ?ac1)" "kt_key (ac_skip_key ?ac1) = kt_key (fst x)"
        using key(1) by (auto simp: new_key_context_def KeyTs_is_empty_iff)
      show ?thesis
      proof (rule adds_newest_version [OF plan less.prems(8) [unfolded es] sx False key(1) x m1(1) tb1(1) st(1)], rule adds_skip [OF _ skip m1(2)])
        fix rc'
        show "pl_drop_prefixes pl = []" using plan by (simp add: plain_plan_def)
        show "note_discards (takeWhile ?same xs) (ac_discard_stats ?ac1) = Inr s2" using st(2) by simp
        fix m' assume m': "cursor (ce_te ce) (dropWhile ?same xs) m'"
        have "length (dropWhile ?same xs) < length es" using es length_dropWhile_le [of ?same xs] by simp
        moreover have "seen discard_ts (dropWhile ?same xs)" using less.prems(5) es by (auto simp: seen_def dest: set_dropWhileD)
        moreover have "next_key_new (?ac1\<lparr>ac_discard_stats := s2\<rparr>) (dropWhile ?same xs)"
          by (auto simp: next_key_new_def new_key_context_def dropWhile_eq_Cons_conv split: list.split)
        ultimately show "\<exists>res. (\<exists>m' ac'. res = (tb', m', ac') \<and> cursor (ce_te ce) rest m' \<and> ac_discard_stats ac' = stats) \<and>
            adds ce lc pl discard_ts r ov rc' tb1 m' (?ac1\<lparr>ac_discard_stats := s2\<rparr>) res"
          using less.hyps [OF _ plan tb1(2) m' key(3) _ u, of "?ac1\<lparr>ac_discard_stats := s2\<rparr>" rc'] st(3) by simp
      qed
    qed
  qed
qed

section \<open>Adding a key that a reader may still need\<close>

text \<open>After a version of the last key has been added, it is found again.\<close>

definition stuck :: "compact_plan \<Rightarrow> u64 \<Rightarrow> bytes \<Rightarrow> value_meta \<Rightarrow> add_key_context \<Rightarrow> bool" where
  "stuck pl discard_ts k v ac \<longleftrightarrow> \<not> list_ex (\<lambda>p. take (length p) k = p) (pl_drop_prefixes pl) \<and>
     (KeyTs_is_empty (ac_skip_key ac) \<or> KeyTsBorrow_key k \<noteq> kt_key (ac_skip_key ac)) \<and>
     (discard_ts < KeyTsBorrow_txn_ts k \<or> meta_contains (vm_meta v) MERGE_ENTRY)"

lemma add_version_stuck:
  "stuck pl discard_ts k v ac \<Longrightarrow> add_version ce lc discard_ts ov tb k v ac = Inr a \<Longrightarrow> \<exists>tb'. a = Added tb' ac"
  by (auto simp: stuck_def add_version_def drop_version_def Let_def and_then_Inr split: if_splits)

lemma stuck_add_keys:
  assumes "merge_valid m = Inr True" "merge_key m = Inr (Some k)" "merge_value (ce_te ce) m = Inr (Some v)"
  shows "stuck pl discard_ts k v ac \<Longrightarrow> KeyTsBorrow_key k = kt_key (ac_last_key_ts ac) \<Longrightarrow>
    add_keys ce n lc pl discard_ts r ov rc tb m ac \<noteq> Some (Inr res)"
proof (induction n arbitrary: tb ac)
  case (Suc n)
  let ?ac = "ac\<lparr>ac_skip_key := KeyTs_default\<rparr>"
  have st: "stuck pl discard_ts k v ?ac" using Suc.prems(1) by (simp add: stuck_def KeyTs_is_empty_def)
  have round: "add_keys_round ce lc pl discard_ts r ov rc tb (Some k) v ac =
      and_then (add_version ce lc discard_ts ov tb k v ?ac) (\<lambda>a. Inr (a, rc))"
    using Suc.prems by (auto simp: add_keys_round_def stuck_def Let_def)
  show ?case
  proof (cases "add_version ce lc discard_ts ov tb k v ?ac")
    case (Inl e)
    with round assms show ?thesis by simp
  next
    case (Inr a)
    with add_version_stuck [OF st] obtain tb' where "a = Added tb' ?ac" by blast
    with round Inr assms Suc.IH [OF st] Suc.prems(2) show ?thesis by simp
  qed
qed simp

section \<open>Tables move together with the manifest\<close>

text \<open>The catalogue of the manifest lists exactly the tables of the levels, each at its level.\<close>

definition levels_agree :: "levels_controller \<Rightarrow> bool" where
  "levels_agree lc \<longleftrightarrow> (\<forall>i l. (\<exists>tm. catalog (mf_info (lc_manifest lc)) i = Some tm \<and> unat (tm_level tm) = l) \<longleftrightarrow>
     l < length (lc_levels lc) \<and> i \<in> tl_table_id ` set (lh_tables (lc_levels lc ! l)))"

abbreviation level_ids :: "levels_controller \<Rightarrow> nat \<Rightarrow> u32 set" where
  "level_ids lc l \<equiv> tl_table_id ` set (lh_tables (lc_levels lc ! l))"

lemma level_narrow: "ucast (ucast l :: u32) = l" for l :: byte
  by (rule bit_eqI) (auto simp: bit_unsigned_iff)

lemma catalog_creates:
  "catalog_steps (map (\<lambda>t. new_create (tl_table_id t) l (table_key_id t) (tg_compression (tl_config t))) ts @ cs) m = Some m' \<Longrightarrow>
   \<exists>m1. catalog_steps cs m1 = Some m' \<and> (\<forall>i \<in> tl_table_id ` set ts. m i = None \<and> (\<exists>tm. m1 i = Some tm \<and> tm_level tm = l)) \<and>
     (\<forall>i. i \<notin> tl_table_id ` set ts \<longrightarrow> m1 i = m i)"
proof (induction ts arbitrary: m)
  case (Cons t ts)
  let ?c = "new_create (tl_table_id t) l (table_key_id t) (tg_compression (tl_config t))"
  have "change_op ?c = Create" by (simp add: change_op_def new_create_def)
  then have n: "m (tl_table_id t) = None" and
    "catalog_steps (map (\<lambda>t. new_create (tl_table_id t) l (table_key_id t) (tg_compression (tl_config t))) ts @ cs)
      (m(tl_table_id t \<mapsto> table_of_change ?c)) = Some m'"
    using Cons.prems by (auto simp: catalog_step_def new_create_def split: if_splits)
  from Cons.IH [OF this(2)] obtain m1 where m1: "catalog_steps cs m1 = Some m'"
    "\<forall>i \<in> tl_table_id ` set ts. (m(tl_table_id t \<mapsto> table_of_change ?c)) i = None \<and> (\<exists>tm. m1 i = Some tm \<and> tm_level tm = l)"
    "\<forall>i. i \<notin> tl_table_id ` set ts \<longrightarrow> m1 i = (m(tl_table_id t \<mapsto> table_of_change ?c)) i" by blast
  have "tl_table_id t \<notin> tl_table_id ` set ts" using m1(2) by auto
  then have "m1 (tl_table_id t) = Some (table_of_change ?c)" using m1(3) by simp
  moreover have "tm_level (table_of_change ?c) = l" by (simp add: table_of_change_def new_create_def level_narrow)
  ultimately show ?case using m1 n by (intro exI [of _ m1] conjI) (auto split: if_splits)
qed auto

lemma catalog_deletes:
  "catalog_steps (map (\<lambda>t. new_delete (tl_table_id t)) ts) m = Some m' \<Longrightarrow> m' = m |` (- tl_table_id ` set ts)"
proof (induction ts arbitrary: m)
  case (Cons t ts)
  have "change_op (new_delete i) = Delete" "mc_id (new_delete i) = i" for i by (simp_all add: change_op_def new_delete_def)
  with Cons.prems have "catalog_steps (map (\<lambda>t. new_delete (tl_table_id t)) ts) (m(tl_table_id t := None)) = Some m'"
    by (auto simp: catalog_step_def split: if_splits)
  from Cons.IH [OF this] show ?case by (auto simp: restrict_map_def fun_eq_iff)
qed (simp add: restrict_map_def)

lemma change_level_ids:
  assumes "change_level l f lc = Inr lc'"
  shows "\<exists>lh. unat l < length (lc_levels lc) \<and> f (lc_levels lc ! unat l) = Inr lh \<and> lc' = lc\<lparr>lc_levels := (lc_levels lc)[unat l := lh]\<rparr>"
  using assms by (auto simp: change_level_def lc_handler_def index_def and_then_Inr split: if_splits)

lemma replace_ids:
  "replace_tables old_tables new_tables lh = Inr lh' \<Longrightarrow>
   tl_table_id ` set (lh_tables lh') = tl_table_id ` set (lh_tables lh) - tl_table_id ` set old_tables \<union> tl_table_id ` set new_tables"
proof -
  assume "replace_tables old_tables new_tables lh = Inr lh'"
  then have "lh' = init_tables (filter (\<lambda>t. tl_table_id t \<notin> tl_table_id ` set old_tables) (lh_tables lh) @ new_tables) lh"
    by (auto simp: replace_tables_def Let_def and_then_Inr)
  then have "set (lh_tables lh') = set (filter (\<lambda>t. tl_table_id t \<notin> tl_table_id ` set old_tables) (lh_tables lh) @ new_tables)"
    by (metis init_tables_facts(1) set_mset_mset)
  then show ?thesis by auto
qed

lemma delete_ids:
  "delete_tables del_tables lh = Inr lh' \<Longrightarrow>
   tl_table_id ` set (lh_tables lh') = tl_table_id ` set (lh_tables lh) - tl_table_id ` set del_tables"
  by (auto simp: delete_tables_def Let_def and_then_Inr)

lemma install_ids:
  assumes "install_tables me pl new_tables lc = Inr lc'"
  shows "length (lc_levels lc') = length (lc_levels lc)" "unat (pl_next_level pl) < length (lc_levels lc)" "unat (pl_this_level pl) < length (lc_levels lc)"
    "l < length (lc_levels lc) \<Longrightarrow> level_ids lc' l =
      (if l = unat (pl_next_level pl) then level_ids lc l - tl_table_id ` set (pl_bottom pl) \<union> tl_table_id ` set new_tables else level_ids lc l) -
      (if l = unat (pl_this_level pl) then tl_table_id ` set (pl_top pl) else {})"
    "catalog_steps (compaction_changes pl new_tables) (catalog (mf_info (lc_manifest lc))) = Some (catalog (mf_info (lc_manifest lc')))"
proof -
  obtain mf lc1 where p: "push_changes me (compaction_changes pl new_tables) (lc_manifest lc) = (Inr (), mf)"
    "change_level (pl_next_level pl) (replace_tables (pl_bottom pl) new_tables) (lc\<lparr>lc_manifest := mf\<rparr>) = Inr lc1"
    "change_level (pl_this_level pl) (delete_tables (pl_top pl)) lc1 = Inr lc'"
    using assms by (auto simp: install_tables_def and_then_Inr split: prod.splits sum.splits)
  obtain lh where lh: "unat (pl_next_level pl) < length (lc_levels lc)" "replace_tables (pl_bottom pl) new_tables (lc_levels lc ! unat (pl_next_level pl)) = Inr lh"
    "lc1 = lc\<lparr>lc_manifest := mf, lc_levels := (lc_levels lc)[unat (pl_next_level pl) := lh]\<rparr>" using change_level_ids [OF p(2)] by auto
  obtain lh' where lh': "unat (pl_this_level pl) < length (lc_levels lc1)" "delete_tables (pl_top pl) (lc_levels lc1 ! unat (pl_this_level pl)) = Inr lh'"
    "lc' = lc1\<lparr>lc_levels := (lc_levels lc1)[unat (pl_this_level pl) := lh']\<rparr>" using change_level_ids [OF p(3)] by auto
  show "length (lc_levels lc') = length (lc_levels lc)" "unat (pl_next_level pl) < length (lc_levels lc)" "unat (pl_this_level pl) < length (lc_levels lc)"
    using lh lh' by simp_all
  have one: "level_ids lc1 l = (if l = unat (pl_next_level pl) then level_ids lc l - tl_table_id ` set (pl_bottom pl) \<union> tl_table_id ` set new_tables else level_ids lc l)" for l
    using lh(1,3) replace_ids [OF lh(2)] by (auto simp: nth_list_update)
  have "level_ids lc' l = level_ids lc1 l - (if l = unat (pl_this_level pl) then tl_table_id ` set (pl_top pl) else {})" for l
    using lh'(1,3) delete_ids [OF lh'(2)] by (auto simp: nth_list_update)
  with one show "level_ids lc' l =
      (if l = unat (pl_next_level pl) then level_ids lc l - tl_table_id ` set (pl_bottom pl) \<union> tl_table_id ` set new_tables else level_ids lc l) -
      (if l = unat (pl_this_level pl) then tl_table_id ` set (pl_top pl) else {})" by simp
  show "catalog_steps (compaction_changes pl new_tables) (catalog (mf_info (lc_manifest lc))) = Some (catalog (mf_info (lc_manifest lc')))"
    using push_refines_catalog [OF p(1)] lh(3) lh'(3) by simp
qed

lemma install_catalog:
  assumes "install_tables me pl new_tables lc = Inr lc'"
  shows "\<forall>i \<in> tl_table_id ` set new_tables. catalog (mf_info (lc_manifest lc)) i = None"
    "(\<exists>tm. catalog (mf_info (lc_manifest lc')) i = Some tm \<and> unat (tm_level tm) = l) \<longleftrightarrow>
     i \<notin> tl_table_id ` set (pl_top pl) \<union> tl_table_id ` set (pl_bottom pl) \<and>
     (if i \<in> tl_table_id ` set new_tables then l = unat (pl_next_level pl)
      else \<exists>tm. catalog (mf_info (lc_manifest lc)) i = Some tm \<and> unat (tm_level tm) = l)"
proof -
  obtain m1 where m1: "catalog_steps (map (\<lambda>t. new_delete (tl_table_id t)) (pl_top pl @ pl_bottom pl)) m1 = Some (catalog (mf_info (lc_manifest lc')))"
    "\<forall>i \<in> tl_table_id ` set new_tables. catalog (mf_info (lc_manifest lc)) i = None \<and> (\<exists>tm. m1 i = Some tm \<and> tm_level tm = pl_next_level pl)"
    "\<forall>i. i \<notin> tl_table_id ` set new_tables \<longrightarrow> m1 i = catalog (mf_info (lc_manifest lc)) i"
    using catalog_creates [OF install_ids(5) [OF assms, unfolded compaction_changes_def]] by auto
  show "\<forall>i \<in> tl_table_id ` set new_tables. catalog (mf_info (lc_manifest lc)) i = None" using m1(2) by simp
  have c: "catalog (mf_info (lc_manifest lc')) = m1 |` (- tl_table_id ` set (pl_top pl @ pl_bottom pl))" by (rule catalog_deletes [OF m1(1)])
  show "(\<exists>tm. catalog (mf_info (lc_manifest lc')) i = Some tm \<and> unat (tm_level tm) = l) \<longleftrightarrow>
     i \<notin> tl_table_id ` set (pl_top pl) \<union> tl_table_id ` set (pl_bottom pl) \<and>
     (if i \<in> tl_table_id ` set new_tables then l = unat (pl_next_level pl)
      else \<exists>tm. catalog (mf_info (lc_manifest lc)) i = Some tm \<and> unat (tm_level tm) = l)"
    using m1(2,3) unfolding c restrict_map_def by (cases "i \<in> tl_table_id ` set new_tables") auto
qed

lemma moved_ids:
  assumes "\<And>i l l'. i \<in> L l \<Longrightarrow> i \<in> L l' \<Longrightarrow> l = l'" "\<And>i l. i \<in> N \<Longrightarrow> i \<notin> L l" "A \<subseteq> L t" "B \<subseteq> L x"
  shows "i \<notin> A \<union> B \<and> (if i \<in> N then l = x else i \<in> L l) \<longleftrightarrow>
    i \<in> (if l = x then L l - B \<union> N else L l) - (if l = t then A else {})"
proof (cases "i \<in> N")
  case True
  then have "i \<notin> A" "i \<notin> B" "i \<notin> L l" using assms(2-4) by blast+
  with True show ?thesis by simp
next
  case False
  have "i \<in> L l \<Longrightarrow> i \<in> A \<Longrightarrow> l = t" "i \<in> L l \<Longrightarrow> i \<in> B \<Longrightarrow> l = x" using assms(1,3,4) by blast+
  with False assms(3,4) show ?thesis by auto
qed

section \<open>Where a compaction starts\<close>

lemma split_loop_first:
  "ts \<noteq> [] \<Longrightarrow> length ts + i = len \<Longrightarrow> \<exists>kr krs. split_loop len width i ts skr = kr # krs \<and> kr_left kr = kr_left skr"
proof (induction ts arbitrary: i)
  case (Cons t ts)
  show ?case
  proof (cases "i = len - 1 \<or> i mod width = width - 1")
    case True
    then show ?thesis by (auto simp: Let_def)
  next
    case False
    then have "ts \<noteq> []" using Cons.prems(2) by auto
    with Cons.IH [of "i + 1"] Cons.prems(2) False show ?thesis by simp
  qed
qed simp

lemma seek_panics:
  "table_seek te k it = Inl Panic \<Longrightarrow> merge_seek te n k (SinkMergeIter (SinkMergeNode v vb (TableNode it)) q tk bk ls bl) \<noteq> Some (Inr x)"
proof
  assume p: "table_seek te k it = Inl Panic" "merge_seek te n k (SinkMergeIter (SinkMergeNode v vb (TableNode it)) q tk bk ls bl) = Some (Inr x)"
  then obtain n' y where n: "n = Suc n'" "node_seek te n' k (SinkMergeNode v vb (TableNode it)) = Some (Inr y)"
    by (cases n) (auto simp: ok_then_Inr)
  then obtain n2 z where "n' = Suc n2" "node_iter_seek te n2 k (TableNode it) = Some (Inr z)" by (cases n') (auto simp: ok_then_Inr)
  with p(1) show False by (cases n2) auto
qed

section \<open>Properties\<close>

text \<open>A compaction that installs its tables keeps the manifest and the levels in step: when the catalogue
  lists exactly the tables of the levels, each at its level, and the plan's tables are those of its levels,
  this is so again afterwards.\<close>

theorem compaction_keeps_levels_agree:
  assumes "levels_agree lc" "install_tables me pl new_tables lc = Inr lc'"
    "tl_table_id ` set (pl_top pl) \<subseteq> level_ids lc (unat (pl_this_level pl))"
    "tl_table_id ` set (pl_bottom pl) \<subseteq> level_ids lc (unat (pl_next_level pl))"
  shows "levels_agree lc'"
proof -
  let ?L = "\<lambda>l. if l < length (lc_levels lc) then level_ids lc l else {}"
  let ?A = "tl_table_id ` set (pl_top pl)" and ?B = "tl_table_id ` set (pl_bottom pl)" and ?N = "tl_table_id ` set new_tables"
  note ids = install_ids [OF assms(2)] and cat = install_catalog [OF assms(2)]
  have old: "(\<exists>tm. catalog (mf_info (lc_manifest lc)) i = Some tm \<and> unat (tm_level tm) = l) \<longleftrightarrow> i \<in> ?L l" for i l
    using assms(1) unfolding levels_agree_def by simp
  have one: "l = l'" if "i \<in> ?L l" "i \<in> ?L l'" for i l l' using that unfolding old [symmetric] by auto
  have new: "i \<notin> ?L l" if "i \<in> ?N" for i l using cat(1) that unfolding old [symmetric] by auto
  have AB: "?A \<subseteq> ?L (unat (pl_this_level pl))" "?B \<subseteq> ?L (unat (pl_next_level pl))" using assms(3,4) ids(2,3) by simp_all
  have "(\<exists>tm. catalog (mf_info (lc_manifest lc')) i = Some tm \<and> unat (tm_level tm) = l) \<longleftrightarrow>
     l < length (lc_levels lc') \<and> i \<in> level_ids lc' l" for i l
  proof -
    have "i \<notin> ?A \<union> ?B \<and> (if i \<in> ?N then l = unat (pl_next_level pl) else i \<in> ?L l) \<longleftrightarrow>
      i \<in> (if l = unat (pl_next_level pl) then ?L l - ?B \<union> ?N else ?L l) - (if l = unat (pl_this_level pl) then ?A else {})"
      by (rule moved_ids [where L = ?L]) (fact one new AB)+
    moreover have "i \<in> (if l = unat (pl_next_level pl) then ?L l - ?B \<union> ?N else ?L l) - (if l = unat (pl_this_level pl) then ?A else {}) \<longleftrightarrow>
      l < length (lc_levels lc') \<and> i \<in> level_ids lc' l"
      unfolding ids(1) using ids(2,3) ids(4) [of l] by (cases "l < length (lc_levels lc)") simp_all
    ultimately show ?thesis unfolding cat(2) old by (rule trans)
  qed
  then show ?thesis unfolding levels_agree_def by blast
qed

text \<open>C37: On entries that every reader has seen, with one version to keep, the loop that fills a table comes
  to taking the newest version of every key, without deleted and expired ones that hide nothing
  below. It ends, and stands on the first entry it left for the next table. But every
  entry it passed, also each one it took, has been reported to the discard statistics.\<close>

theorem add_keys_keeps_newest:
  assumes "plain_plan lc pl r" "cursor (ce_te ce) es m" "in_order es" "seen discard_ts es"
    "keep_newest ce r ov es tb = Inr (tb', rest)" "es = used @ rest" "note_discards used [] = Inr stats"
  shows "\<exists>m' ac' n0. cursor (ce_te ce) rest m' \<and> ac_discard_stats ac' = stats \<and>
    (\<forall>n \<ge> n0. add_keys ce n lc pl discard_ts r ov 0 tb m AddKeyContext_default = Some (Inr (tb', m', ac')))"
proof -
  have "next_key_new AddKeyContext_default es"
    using assms(3) by (auto simp: next_key_new_def AddKeyContext_default_def KeyTs_is_empty_iff KeyTs_default_def in_order_Cons split: list.split)
  with adds_keep_newest [OF assms(1,5,2,3,4,6), of AddKeyContext_default stats 0] assms(7)
  show ?thesis by (auto simp: AddKeyContext_default_def adds_def)
qed

text \<open>C38: When the entry a new table starts with may still be read, because it is newer than every finished read
  or a merge entry, the loop never ends: the entry is added over and over, until a
  panic at best.\<close>

theorem add_keys_never_returns:
  assumes "merge_valid m = Inr True" "merge_key m = Inr (Some k)" "merge_value (ce_te ce) m = Inr (Some v)"
    "pl_drop_prefixes pl = []" "behind r (Some k) = Inr False" "20 \<le> tg_table_capacity config"
    "discard_ts < KeyTsBorrow_txn_ts k \<or> meta_contains (vm_meta v) MERGE_ENTRY"
  shows "add_keys ce n lc pl discard_ts r ov 0 (TableBuilder_new config cipher) m AddKeyContext_default \<noteq> Some (Inr res)"
proof (cases n)
  case (Suc n')
  let ?tb = "TableBuilder_new config cipher"
  define ac where "ac = (if KeyTsBorrow_key k = [] then AddKeyContext_default else
    AddKeyContext_default\<lparr>ac_last_key_ts := KeyTs_from_borrow k,
      ac_first_key_has_discard_set := meta_contains (vm_meta v) DISCARD_EARLIER_VERSIONS\<rparr>)"
  have ac: "stuck pl discard_ts k v ac" "KeyTsBorrow_key k = kt_key (ac_last_key_ts ac)"
    using assms(4,7) by (auto simp: ac_def stuck_def AddKeyContext_default_def KeyTs_is_empty_def KeyTs_default_def KeyTs_from_borrow_def)
  have "\<not> reacded_capacity ?tb" using assms(6) by (simp add: reacded_capacity_def TableBuilder_new_def BlockBuilder_new_def)
  then have round: "\<exists>rc. add_keys_round ce lc pl discard_ts r ov 0 ?tb (Some k) v AddKeyContext_default =
      and_then (add_version ce lc discard_ts ov ?tb k v ac) (\<lambda>a. Inr (a, rc))"
    using assms(4,5) by (auto simp: add_keys_round_def first_version_def ac_def Let_def AddKeyContext_default_def KeyTs_is_empty_def KeyTs_default_def)
  show ?thesis
  proof (cases "add_version ce lc discard_ts ov ?tb k v ac")
    case (Inl e)
    with round Suc assms(1-3) show ?thesis by auto
  next
    case (Inr a)
    with add_version_stuck [OF ac(1)] obtain tb' where "a = Added tb' ac" by blast
    with round Inr Suc assms(1-3) stuck_add_keys [OF assms(1-3) ac, of n' lc r ov _ tb' res] show ?thesis by auto
  qed
qed simp

text \<open>C39: A compaction of a table into a level where other tables meet its range never succeeds: the first
  split starts below the table's first key, and seeking it there panics.\<close>

theorem compaction_onto_tables_fails:
  assumes "table_file (ce_te ce) ess sbs ti t" "sorted_wrt (<) (map (\<lambda>es. KeyTs_from (fst (hd es))) ess)"
    "tl_smallest t = KeyTs_from (fst (hd (hd ess)))" "kt_txn_ts (tl_smallest t) < - 1"
    "pl_top pl = [t]" "pl_this_range pl = KeyTsRange_from_table t" "pl_bottom pl \<noteq> []" "pl_next_range pl = KeyTsRange_from_tables (pl_bottom pl)"
    "pl_this_level pl \<noteq> pl_next_level pl" "l \<noteq> LEVEL0"
  shows "run_compact ce n l pl config discard_ts cc \<noteq> Some (Inr res)"
proof -
  define R where "R = range_extend (pl_this_range pl) (pl_next_range pl)"
  have R: "kr_left R \<le> KeyTs (kt_key (tl_smallest t)) (- 1)" "\<not> KeyTs_is_empty (kr_left R)"
    using assms(6-8) by (auto simp: R_def range_extend_def Let_def KeyTsRange_from_table_def KeyTsRange_from_tables_def range_is_empty_def
        KeyTs_is_empty_iff neq_Nil_conv)
  have "KeyTs (kt_key (tl_smallest t)) (- 1) < tl_smallest t" using assms(4) by (simp add: less_key_ts_iff)
  with R(1) assms(3) have "kr_left R < KeyTs_from (fst (hd (hd ess)))" by simp
  note panic = seek_before_first [OF assms(1,2) this]
  obtain kr krs where sp: "pl_splits (add_splits pl) = kr # krs" "kr_left kr = kr_left R"
    using split_loop_first [OF assms(7), of 0 "length (pl_bottom pl)" "max ((length (pl_bottom pl) + 4) div 5) 3" R]
    by (auto simp: add_splits_def Let_def R_def)
  have "sub_compact ce n pl' config discard_ts (merge_two (merge_node_from (TableNode (table_iter_new t))) q) kr cc \<noteq> Some (Inr x)" for pl' q x
    using R(2) sp(2) seek_panics [OF panic] by (auto simp: sub_compact_def ok_then_Inr merge_two_def merge_node_from_def)
  then have "compact_splits ce n l (add_splits pl) config discard_ts (kr # krs) cc \<noteq> Some (Inr x)" for x
    using assms(5,10) by (auto simp: compact_iters_def add_splits_def Let_def ok_then_Inr new_two)
  then show ?thesis
    using assms(9) sp(1) by (auto simp: run_compact_def compact_build_tables_def ok_then_Inr Let_def simp del: compact_splits.simps)
qed

section \<open>Instances\<close>

definition demo_ce :: compact_env where
  "demo_ce = \<lparr>ce_te = demo_te, ce_me = demo_me, ce_capacity = (\<lambda>n. n * 95 div 100), ce_page = 4096, ce_now = 0, ce_now_nanos = 0,
     ce_key = [], ce_nonce = [], ce_order = rev\<rparr>"

text \<open>Two levels with one table each, both in the manifest.\<close>

definition demo_old :: "table list" where
  "demo_old = [demo_level_table 1 (KeyTs [97] 1) (KeyTs [98] 1) 0, demo_level_table 2 (KeyTs [97] 1) (KeyTs [99] 1) 0]"

definition demo_two :: levels_controller where
  "demo_two = demo_lc\<lparr>
     lc_manifest := demo_mf0\<lparr>mf_info := \<lparr>mi_levels = [{1}, {2}], mi_tables = [
         (1, \<lparr>tm_level = 0, tm_keyid = 0, tm_compression = No_compression\<rparr>), (2, \<lparr>tm_level = 1, tm_keyid = 0, tm_compression = No_compression\<rparr>)],
       mi_creations = 2, mi_deletions = 0\<rparr>\<rparr>,
     lc_levels := [init_tables [demo_old ! 0] (LevelHandler_new 0), init_tables [demo_old ! 1] (LevelHandler_new 1)]\<rparr>"

definition demo_move :: compact_plan where
  "demo_move = (CompactPlan_new 1 demo_priority 0 1)\<lparr>pl_top := [demo_old ! 0], pl_bottom := [demo_old ! 1]\<rparr>"

lemma demo_two_ids: "length (lc_levels demo_two) = 2" "level_ids demo_two 0 = {1}" "level_ids demo_two (Suc 0) = {2}"
  by (simp_all add: demo_two_def demo_old_def init_tables_def demo_level_table_def)

lemma demo_two_agrees: "levels_agree demo_two"
proof -
  have "catalog (mf_info (lc_manifest demo_two)) = [1 \<mapsto> \<lparr>tm_level = 0, tm_keyid = 0, tm_compression = No_compression\<rparr>,
      2 \<mapsto> \<lparr>tm_level = 1, tm_keyid = 0, tm_compression = No_compression\<rparr>]"
    by (simp add: demo_two_def catalog_def fun_upd_twist)
  then have "(\<exists>tm. catalog (mf_info (lc_manifest demo_two)) i = Some tm \<and> unat (tm_level tm) = l) \<longleftrightarrow> i = 1 \<and> l = 0 \<or> i = 2 \<and> l = Suc 0" for i l
    by (cases "i = 2") auto
  moreover have "l < length (lc_levels demo_two) \<and> i \<in> level_ids demo_two l \<longleftrightarrow> i = 1 \<and> l = 0 \<or> i = 2 \<and> l = Suc 0" for i l
  proof (cases "l < 2")
    case True
    then consider "l = 0" | "l = Suc 0" by linarith
    then show ?thesis by cases (simp_all add: demo_two_ids)
  qed (auto simp: demo_two_ids(1))
  ultimately show ?thesis unfolding levels_agree_def by simp
qed

theorem compaction_keeps_levels_agree_witness:
  "\<exists>lc'. install_tables demo_me demo_move [demo_level_table 3 (KeyTs [97] 1) (KeyTs [99] 1) 0] demo_two = Inr lc' \<and> levels_agree lc'"
proof -
  obtain lc' where i: "install_tables demo_me demo_move [demo_level_table 3 (KeyTs [97] 1) (KeyTs [99] 1) 0] demo_two = Inr lc'"
    by (simp add: install_tables_def push_changes_def compaction_changes_def demo_move_def demo_two_def CompactPlan_new_def demo_old_def demo_level_table_def
        apply_manifest_change_def change_op_def new_create_def new_delete_def demo_mf0_def DELETIONS_REWRITE_THRESHOLD_def change_level_def
        lc_handler_def index_def demo_lc_def replace_tables_def sub_usize_def init_tables_def delete_tables_def LevelHandler_new_def
        add_checked_def sub_checked_def Let_def)
  have "levels_agree lc'" by (rule compaction_keeps_levels_agree [OF demo_two_agrees i])
      (simp_all add: demo_move_def CompactPlan_new_def demo_two_def init_tables_def)
  with i show ?thesis by blast
qed

text \<open>A merge that stands on the first entry of the table of \<open>Table\<close>.\<close>

lemma demo_cursor: "\<exists>m. cursor demo_te demo_kts m"
proof -
  obtain t where "table_of demo_te [demo_kvs] t" using demo_table_file table_file_of [OF _ demo_te_laws] by blast
  then have "fresh_node demo_te demo_kts (merge_node_from (TableNode (table_iter_new t)))"
    using demo_te_laws demo_kts_order demo_kts_facts(1) by (intro table_node_fresh [of _ "[demo_kvs]"]) (auto simp: table_laws_def)
  from pending_cursor [OF merge_two_pending [OF this this] demo_kts_order(1) demo_kts_order(1)]
  have "\<exists>m. cursor demo_te (merge_runs demo_kts demo_kts) m" by blast
  moreover have "merge_runs demo_kts demo_kts = demo_kts" by (simp add: demo_kts_def less_key_ts_iff)
  ultimately show ?thesis by simp
qed

lemma demo_kts_old: "seen 1 demo_kts" "note_discards demo_kts [] = Inr []"
  by (simp_all add: seen_def demo_kts_def ValueMeta_default_def note_discard_def pointer_of_def meta_contains_def meta_flags)

lemma demo_keep: "keep_newest demo_ce KeyTsRange_default False demo_kts (TableBuilder_new demo_tc None) = Inr (demo_tb, [])"
proof -
  have v: "ValueMeta_is_deleted_or_expired now ValueMeta_default = False" "meta_contains (vm_meta ValueMeta_default) DISCARD_EARLIER_VERSIONS = False"
    "pointer_of ValueMeta_default = Inr None" for now
    by (simp_all add: ValueMeta_is_deleted_or_expired_def ValueMeta_default_def meta_contains_def meta_flags pointer_of_def)
  obtain tb1 where p: "tb_push demo_te (KeyTs_serialize (KeyTs [97] 1)) ValueMeta_default None (TableBuilder_new demo_tc None) = Inr tb1"
    "tb_push demo_te (KeyTs_serialize (KeyTs [97, 98] 1)) ValueMeta_default None tb1 = Inr demo_tb"
    using demo_push by (auto simp: demo_kvs_def and_then_Inr)
  have cap: "\<not> reacded_capacity (TableBuilder_new demo_tc None)"
    by (simp add: reacded_capacity_def TableBuilder_new_def BlockBuilder_new_def demo_tc_def TableConfig_default_def)
  have "tb_uncompressed_size tb1 = 0 \<and> tb_compressed_size tb1 = 0 \<and> tb_len_offsets tb1 = 0 \<and> length (bb_entry_offsets (tb_cur_block tb1)) = 1 \<and>
      tb_config tb1 = demo_tc"
    using p(1) by (auto simp: tb_push_def push_internal_def and_then_Inr TableBuilder_new_def should_finish_block_def BlockBuilder_new_def
        push_entry_def Let_def split: if_splits)
  then have "\<not> reacded_capacity tb1" by (simp add: reacded_capacity_def demo_tc_def TableConfig_default_def)
  with cap p show ?thesis by (simp add: demo_kts_def v demo_ce_def KeyTsRange_default_def KeyTs_is_empty_def)
qed

lemma demo_plain: "plain_plan (demo_lc\<lparr>lc_config := LevelsControllerConfig_default\<rparr>) (CompactPlan_new 0 demo_priority 0 5) KeyTsRange_default"
  by (simp add: plain_plan_def CompactPlan_new_def LevelsControllerConfig_default_def exceeds_allowed_overlap_def demo_lc_def)

theorem add_keys_keeps_newest_witness:
  "\<exists>m m' ac' n. merge_valid m' = Inr False \<and>
    add_keys demo_ce n (demo_lc\<lparr>lc_config := LevelsControllerConfig_default\<rparr>) (CompactPlan_new 0 demo_priority 0 5) 1 KeyTsRange_default False 0
      (TableBuilder_new demo_tc None) m AddKeyContext_default = Some (Inr (demo_tb, m', ac'))"
proof -
  obtain m where "cursor (ce_te demo_ce) demo_kts m" using demo_cursor by (auto simp: demo_ce_def)
  from add_keys_keeps_newest [OF demo_plain this demo_kts_order(1) demo_kts_old(1) demo_keep _ demo_kts_old(2)]
  obtain m' ac' n0 where r: "merge_valid m' = Inr False" "\<forall>n \<ge> n0. add_keys demo_ce n (demo_lc\<lparr>lc_config := LevelsControllerConfig_default\<rparr>)
      (CompactPlan_new 0 demo_priority 0 5) 1 KeyTsRange_default False 0 (TableBuilder_new demo_tc None) m AddKeyContext_default =
      Some (Inr (demo_tb, m', ac'))" by auto
  from r(2) [rule_format, OF order_refl] r(1) show ?thesis by blast
qed

theorem add_keys_never_returns_witness:
  "\<exists>m. \<forall>n lc r. add_keys demo_ce n lc (CompactPlan_new 0 demo_priority 0 5) 0 KeyTsRange_default False 0
      (TableBuilder_new demo_tc None) m AddKeyContext_default \<noteq> Some (Inr r)"
proof -
  obtain m where m: "cursor (ce_te demo_ce) demo_kts m" using demo_cursor by (auto simp: demo_ce_def)
  then have k: "merge_valid m = Inr True" "merge_key m = Inr (Some (KeyTs_serialize (KeyTs [97] 1)))"
    "merge_value (ce_te demo_ce) m = Inr (Some ValueMeta_default)" by (simp_all add: demo_kts_def)
  have "pl_drop_prefixes (CompactPlan_new 0 demo_priority 0 5) = []" "behind KeyTsRange_default (Some (KeyTs_serialize (KeyTs [97] 1))) = Inr False"
    "20 \<le> tg_table_capacity demo_tc"
    by (simp_all add: CompactPlan_new_def behind_def KeyTsRange_default_def KeyTs_is_empty_def demo_tc_def TableConfig_default_def)
  from add_keys_never_returns [OF k this, of 0] show ?thesis by (intro exI [of _ m]) simp
qed

theorem compaction_onto_tables_fails_witness:
  "\<exists>t. \<forall>n cc r. run_compact demo_ce n 1 ((CompactPlan_new 0 demo_priority 1 2)\<lparr>pl_top := [t], pl_this_range := KeyTsRange_from_table t,
      pl_bottom := demo_old, pl_next_range := KeyTsRange_from_tables demo_old\<rparr>) demo_tc 0 cc \<noteq> Some (Inr r)"
proof -
  obtain t ti sbs where t: "table_file (ce_te demo_ce) [demo_kvs] sbs ti t" "tl_smallest t = KeyTs [97] 1"
    using demo_table_file by (auto simp: demo_ce_def)
  have one: "(1 :: u64) < - 1" by (simp add: word_less_nat_alt unsigned_minus_1_eq_mask mask_eq_exp_minus_1)
  have "run_compact demo_ce n 1 ((CompactPlan_new 0 demo_priority 1 2)\<lparr>pl_top := [t], pl_this_range := KeyTsRange_from_table t,
      pl_bottom := demo_old, pl_next_range := KeyTsRange_from_tables demo_old\<rparr>) demo_tc 0 cc \<noteq> Some (Inr r)" for n cc r
    by (rule compaction_onto_tables_fails [OF t(1)])
      (use t(2) one in \<open>simp_all add: demo_kvs_def KeyTs_from_serialize CompactPlan_new_def demo_old_def LEVEL0_def\<close>)
  then show ?thesis by blast
qed

end
