(* ===== verification/Flush.thy ===== *)
theory Flush
  imports Compact Db
begin

text \<open>
  Flushing a memtable (\<open>src/src/level/flush.rs\<close> with \<open>TableBuilder::build_l0_table\<close> of
  \<open>src/src/table/write.rs\<close>): the entries of the skip list go into a table, the manifest is told,
  and the table is appended to level 0, where a full level makes the flush wait. What other
  tasks do to the levels while it waits is a list of steps; \<open>None\<close> means that the loop has used up
  its fuel or that the flush still waits after these steps. An attempt that fails gives its failure only;
  the retry a second later is not followed. The environment is that of \<open>Compact\<close>.
\<close>

section \<open>Reading the memtable\<close>

definition iter_value :: "table_env \<Rightarrow> skip_list \<Rightarrow> skl_iter \<Rightarrow> value_meta option outcome" where
  "iter_value te sk it =
     (case iter_item sk it of None \<Rightarrow> Inr None | Some p \<Rightarrow>
     (case ar_nodes (sk_arena sk) p of None \<Rightarrow> Inr None | Some nd \<Rightarrow>
     (case get_value nd (sk_arena sk) of None \<Rightarrow> Inr None
      | Some data \<Rightarrow> and_then (unwrap (ValueMeta_deserialize (te_enc te) (te_dec te) data)) (\<lambda>v. Inr (Some v)))))"

definition vptr_len_of :: "value_meta \<Rightarrow> u32 option outcome" where
  "vptr_len_of v =
     (if meta_contains (vm_meta v) VALUE_POINTER
      then and_then (unwrap (ValuePointer_deserialize (vm_value v))) (\<lambda>vp. Inr (Some (vp_len vp)))
      else Inr None)"

fun build_l0_loop ::
  "table_env \<Rightarrow> skip_list \<Rightarrow> bytes list \<Rightarrow> nat \<Rightarrow> skl_iter \<Rightarrow> table_builder \<Rightarrow> table_builder outcome option" where
  "build_l0_loop te sk drop_prefixed 0 it tb = None"
| "build_l0_loop te sk drop_prefixed (Suc n) it tb =
     (case iter_next sk it of (went, it) \<Rightarrow>
      if \<not> went then Some (Inr tb)
      else ok_then (Some (unwrap (iter_key sk it))) (\<lambda>key_ts.
        if list_ex (\<lambda>x. take (length x) key_ts = x) drop_prefixed then build_l0_loop te sk drop_prefixed n it tb
        else ok_then (Some (and_then (iter_value te sk it) unwrap)) (\<lambda>v.
             ok_then (Some (vptr_len_of v)) (\<lambda>vptr_len.
             ok_then (Some (tb_push te key_ts v vptr_len tb)) (\<lambda>tb. build_l0_loop te sk drop_prefixed n it tb)))))"

definition build_l0_table ::
  "table_env \<Rightarrow> nat \<Rightarrow> skip_list \<Rightarrow> bytes list \<Rightarrow> table_config \<Rightarrow> aes_cipher option \<Rightarrow> table_builder outcome option" where
  "build_l0_table te n sk drop_prefixed config cipher =
     build_l0_loop te sk drop_prefixed n (SkipListIter_new sk) (TableBuilder_new config cipher)"

section \<open>Level 0\<close>

text \<open>One attempt to append: the stale size is assigned, not added up.\<close>

definition push_level0 :: "table \<Rightarrow> nat \<Rightarrow> level_handler \<Rightarrow> (bool \<times> level_handler) outcome" where
  "push_level0 t level0_tables_stall lh =
     (if lh_level lh \<noteq> LEVEL0 then Inl Panic
      else if length (lh_tables lh) \<ge> level0_tables_stall then Inr (False, lh)
      else Inr (True, lh\<lparr>lh_tables := lh_tables lh @ [t], lh_total_size := lh_total_size lh + tl_table_size t,
                         lh_total_stale_size := table_stale_size t\<rparr>))"

type_synonym other_step = "levels_controller \<Rightarrow> levels_controller"

fun push_level0_loop :: "table \<Rightarrow> other_step list \<Rightarrow> levels_controller \<Rightarrow> levels_controller outcome option" where
  "push_level0_loop t others lc =
     ok_then (Some (index (lc_levels lc) 0)) (\<lambda>handler.
     ok_then (Some (push_level0 t (lg_num_level_zero_tables_stall (lc_config lc)) handler)) (\<lambda>(pushed, handler).
     if pushed then Some (Inr (lc\<lparr>lc_levels := (lc_levels lc)[0 := handler]\<rparr>))
     else case others of [] \<Rightarrow> None | f # others \<Rightarrow> push_level0_loop t others (f lc)))"

definition push_level0_table :: "manifest_env \<Rightarrow> other_step list \<Rightarrow> table \<Rightarrow> levels_controller \<Rightarrow> levels_controller outcome option" where
  "push_level0_table me others t lc =
     (case push_changes me [new_create (tl_table_id t) LEVEL0 (table_key_id t) (tg_compression (tl_config t))] (lc_manifest lc) of
        (Inl e, mf) \<Rightarrow> Some (Inl e)
      | (Inr _, mf) \<Rightarrow> push_level0_loop t others (lc\<lparr>lc_manifest := mf\<rparr>))"

section \<open>The flush\<close>

text \<open>A failure to close an empty builder is dropped, unless it is a panic.\<close>

definition handle_memtable_flush ::
  "compact_env \<Rightarrow> nat \<Rightarrow> other_step list \<Rightarrow> table_config \<Rightarrow> memtable \<Rightarrow> key_registry \<Rightarrow> levels_controller
     \<Rightarrow> (key_registry \<times> levels_controller) outcome option" where
  "handle_memtable_flush ce n others table_opt mt kr lc =
     ok_then (Some (latest_cipher (te_crypto (ce_te ce)) (ce_key ce) (ce_nonce ce) (ce_now_nanos ce) kr)) (\<lambda>(cipher, kr).
     ok_then (build_l0_table (ce_te ce) n (mt_skip_list mt) [] table_opt cipher) (\<lambda>tb.
     if tb_is_empty tb then (if tb_finish (ce_te ce) tb = Inl Panic then Some (Inl Panic) else Some (Inr (kr, lc)))
     else
       let (file_id, lc) = get_reserve_file_id lc in
       ok_then (Some (tb_build (ce_te ce) (ce_page ce) file_id tb)) (\<lambda>t.
       ok_then (push_level0_table (ce_me ce) others t lc) (\<lambda>lc. Some (Inr (kr, lc))))))"

text \<open>One memtable from the channel, whose first attempt settles it. The oldest immutable memtable is released.
  \<open>table_opt\<close> is the table configuration of the database's options.\<close>

definition flush_memtable ::
  "compact_env \<Rightarrow> nat \<Rightarrow> other_step list \<Rightarrow> table_config \<Rightarrow> db \<times> levels_controller \<Rightarrow> (db \<times> levels_controller) outcome option" where
  "flush_memtable ce n others table_opt s =
     (case s of (d, lc) \<Rightarrow>
      case db_flush_memtable d of
        [] \<Rightarrow> None
      | mt # rest \<Rightarrow>
        ok_then (handle_memtable_flush ce n others table_opt mt (vl_kr (db_vlog d)) lc) (\<lambda>(kr, lc).
        let d = d\<lparr>db_flush_memtable := rest, db_vlog := (db_vlog d)\<lparr>vl_kr := kr\<rparr>\<rparr> in
        case db_immut_memtable d of
          [] \<Rightarrow> Some (Inr (d, lc))
        | s # immut \<Rightarrow>
            if lf_fid (mt_wal s) \<noteq> lf_fid (mt_wal mt) then Some (Inl Panic)
            else Some (Inr (d\<lparr>db_immut_memtable := immut\<rparr>, lc))))"

section \<open>The loop over the memtable\<close>

text \<open>The entries pushed one after the other.\<close>

fun l0_push_all :: "table_env \<Rightarrow> kvs \<Rightarrow> table_builder \<Rightarrow> table_builder outcome" where
  "l0_push_all te [] tb = Inr tb"
| "l0_push_all te ((k, v) # es) tb = and_then (vptr_len_of v) (\<lambda>l. and_then (tb_push te k v l tb) (l0_push_all te es))"

lemma iter_at_entry:
  assumes at: "skl_at KeyTsBorrow_cmp encoded_key sk it (As @ [p]) Ms Bs" and laws: "varint_laws (te_enc te) (te_dec te)"
    and e: "(nkey (sk_arena sk) p, nval (sk_arena sk) p) = enc_kv (te_enc te) kv"
  shows "iter_key sk it = Some (KeyTs_serialize (fst kv))" "iter_value te sk it = Inr (Some (snd kv))"
proof -
  have repr: "skl_repr KeyTsBorrow_cmp encoded_key sk ((As @ [p]) @ Ms @ Bs)" using at by (simp add: skl_at_def)
  have ok: "arena_ok (sk_arena sk)" using repr by (simp add: skl_repr_def)
  have "node_ok (sk_arena sk) p" using mem_order.repr_nodes [OF repr] by simp
  then obtain nd where nd: "ar_nodes (sk_arena sk) p = Some nd" "get_key nd (sk_arena sk) = Some (nkey (sk_arena sk) p)"
    "get_value nd (sk_arena sk) = Some (nval (sk_arena sk) p)"
    using ok by (auto elim: node_okD)
  with skl.item_at [OF at] e show "iter_key sk it = Some (KeyTs_serialize (fst kv))"
    by (simp add: iter_key_def enc_kv_def)
  from nd skl.item_at [OF at] e show "iter_value te sk it = Inr (Some (snd kv))"
    by (simp add: iter_value_def enc_kv_def ValueMeta_deserialize_serialize [OF laws] unwrap_def)
qed

lemma build_l0_loop_at:
  assumes "skl_at KeyTsBorrow_cmp encoded_key sk it As Ms []" "As \<noteq> [] \<or> Ms \<noteq> []" "length Ms < n" "varint_laws (te_enc te) (te_dec te)"
    "map (\<lambda>p. (nkey (sk_arena sk) p, nval (sk_arena sk) p)) Ms = map (enc_kv (te_enc te)) kts"
  shows "build_l0_loop te sk [] n it tb = Some (l0_push_all te (map (\<lambda>(k, v). (KeyTs_serialize k, v)) kts) tb)"
  using assms
proof (induction n arbitrary: it As Ms kts tb)
  case (Suc n)
  show ?case
  proof (cases Ms)
    case Nil
    with Suc.prems(1,2,5) have "iter_next sk it = (False, it)" "kts = []" using skl.step_end by auto
    then show ?thesis by simp
  next
    case (Cons p Ms')
    then obtain kv kts' where k: "kts = kv # kts'" "(nkey (sk_arena sk) p, nval (sk_arena sk) p) = enc_kv (te_enc te) kv"
      "map (\<lambda>p. (nkey (sk_arena sk) p, nval (sk_arena sk) p)) Ms' = map (enc_kv (te_enc te)) kts'"
      using Suc.prems(5) by (cases kts) auto
    obtain it' where it: "iter_next sk it = (True, it')" "skl_at KeyTsBorrow_cmp encoded_key sk it' (As @ [p]) Ms' []"
      using skl.step_more Suc.prems(1) Cons by blast
    note e = iter_at_entry [OF it(2) Suc.prems(4) k(2)]
    have "build_l0_loop te sk [] n it' tb' = Some (l0_push_all te (map (\<lambda>(k, v). (KeyTs_serialize k, v)) kts') tb')" for tb'
      using Suc.IH [OF it(2) _ _ Suc.prems(4) k(3)] Suc.prems(3) Cons by simp
    then show ?thesis
      using it(1) e k(1) by (cases kv) (auto simp: unwrap_def and_then_def ok_then_def split: sum.split)
  qed
qed simp

lemma build_l0_table_spec:
  assumes "mem_inv sk (map (enc_kv (te_enc te)) kts)" "kts \<noteq> []" "length kts < n" "varint_laws (te_enc te) (te_dec te)"
  shows "build_l0_table te n sk [] config cipher =
    Some (l0_push_all te (map (\<lambda>(k, v). (KeyTs_serialize k, v)) kts) (TableBuilder_new config cipher))"
proof -
  obtain L where L: "skl_repr KeyTsBorrow_cmp encoded_key sk L" "map (\<lambda>p. (nkey (sk_arena sk) p, nval (sk_arena sk) p)) L = map (enc_kv (te_enc te)) kts"
    using assms(1) by (auto simp: skl_inv_def)
  have "skl_at KeyTsBorrow_cmp encoded_key sk (SkipListIter_new sk) [] L []"
    using L(1) mem_order.repr_head(1) [OF L(1)] by (simp add: skl_at_def SkipListIter_new_def)
  moreover have "length L = length kts" using map_eq_imp_length_eq [OF L(2)] .
  ultimately show ?thesis
    unfolding build_l0_table_def using assms(2-4) L(2) by (intro build_l0_loop_at) auto
qed

definition pointers_ok :: "(key_ts \<times> value_meta) list \<Rightarrow> bool" where
  "pointers_ok kts \<longleftrightarrow> (\<forall>e \<in> set kts. is_ok (vptr_len_of (snd e)))"

lemma l0_push_all_built:
  "tbuilt te config cipher pre tb ess bbs cur \<Longrightarrow> keys_ok es \<Longrightarrow> 3 * run_size (te_enc te) (pre @ es) + 100 < 2 ^ 32 \<Longrightarrow>
    (\<forall>e \<in> set es. is_ok (vptr_len_of (snd e))) \<Longrightarrow>
    \<exists>tb' ess' bbs' cur'. l0_push_all te es tb = Inr tb' \<and> tbuilt te config cipher (pre @ es) tb' ess' bbs' cur'"
proof (induction es arbitrary: pre tb ess bbs cur)
  case (Cons e es)
  obtain k v where e: "e = (k, v)" by (cases e)
  have k: "k \<noteq> []" "length k < 2 ^ 16" "keys_ok es" using Cons.prems(2) e by (auto simp: keys_ok_def)
  have sz: "3 * run_size (te_enc te) (pre @ [(k, v)]) + 100 < 2 ^ 32" "3 * run_size (te_enc te) ((pre @ [(k, v)]) @ es) + 100 < 2 ^ 32"
    using Cons.prems(3) e by (auto simp: run_size_def)
  obtain l where l: "vptr_len_of v = Inr l" using Cons.prems(4) e by (auto simp: is_ok_iff)
  obtain tb1 ess1 bbs1 cur1 where 1: "tb_push te k v l tb = Inr tb1" "tbuilt te config cipher (pre @ [(k, v)]) tb1 ess1 bbs1 cur1"
    using tb_push_built [OF Cons.prems(1) k(1,2) sz(1)] by blast
  from Cons.IH [OF 1(2) k(3) sz(2)] Cons.prems(4) 1(1) e l show ?case by simp
qed auto

section \<open>The table of a flush\<close>

lemma tb_build_ok:
  assumes laws: "table_laws te" and t: "tbuilt te config cipher es tb ess0 bbs cur" and ne: "es \<noteq> []"
    and sz: "3 * run_size (te_enc te) es + 100 < 2 ^ 32" and cfg: "tg_block_size config \<noteq> 0 \<or> tg_compression config = No_compression"
    and small: "\<And>td tb'. tb_done te tb = Inr (td, tb') \<Longrightarrow> length (read_all td) < 2 ^ 32"
  obtains t ess where "tb_build te page tid tb = Inr t" "table_of te ess t" "concat ess = es" "tl_table_id t = tid"
    "tl_smallest t = KeyTs_from (fst (hd es))" "tl_biggest t = KeyTs_from (fst (last es))"
proof -
  obtain td tb' ess sbs fi where td: "tb_done te tb = Inr (td, tb')" "list_all2 (stored te config cipher) ess sbs"
    "concat ess = es" "ess \<noteq> []" "[] \<notin> set ess" "td_block_list td = sbs"
    "try_decrypt_table te cipher (td_index td) = Inr (te_fb_encode te fi)" "fi_offsets fi = block_offsets 0 sbs"
    "td_checksum td = se_encode (te_sum te) (Checksum_new (te_sum te) (tg_checksum_algo config) (td_index td))"
    "td_size td = unat (word_of_nat (length (concat (map bb_data sbs))) :: u32) + length (td_index td) + 4 + length (td_checksum td) + 4"
    by (rule tb_done_ok [OF laws t ne])
  note runs = total_size_runs [OF td(3) sz td(5)]
  let ?f = "(fst (MmapFile_open page [] (td_size td)))\<lparr>mm_raw := read_all td\<rparr>"
  have raw: "mm_raw ?f = concat (map bb_data sbs) @ td_index td @ put_u32 (word_of_nat (length (td_index td))) @
        td_checksum td @ put_u32 (word_of_nat (length (td_checksum td)))" using td(6) by (simp add: read_all_def)
  have len: "length (mm_raw ?f) < 2 ^ 32" using small [OF td(1)] by simp
  obtain t ti where t': "table_open te config tid ?f cipher = Inr t" "table_file te ess sbs ti t"
    "tl_smallest t = KeyTs_from (fst (hd (hd ess)))" "tl_biggest t = KeyTs_from (fst (last (last ess)))" "tl_table_id t = tid"
    by (rule table_open_ok [OF laws td(2,4) raw len runs td(7-9) cfg])
  have "tb_config tb' = config" "tb_cipher tb' = cipher" using tb_done_keeps [OF td(1)] t by (simp_all add: tbuilt_def)
  moreover have "length (read_all td) = td_size td" using small [OF td(1)] td(6,10) by (simp add: read_all_def)
  ultimately have "tb_build te page tid tb = Inr t" using td(1) t'(1) by (simp add: tb_build_def)
  with table_file_of [OF t'(2) laws] td(3) t'(3-5) concat_ends [OF td(4,5)] show ?thesis by (intro that) simp_all
qed

text \<open>What a flush needs of the entries: keys that fit, a run that fits, readable value pointers.\<close>

definition flushable :: "table_env \<Rightarrow> (key_ts \<times> value_meta) list \<Rightarrow> bool" where
  "flushable te kts \<longleftrightarrow> kts \<noteq> [] \<and> (\<forall>e \<in> set kts. kt_key (fst e) \<noteq> [] \<and> KeyTs_len (fst e) < 2 ^ 16) \<and>
     (\<forall>e \<in> set kts. is_ok (vptr_len_of (snd e))) \<and>
     3 * run_size (te_enc te) (map (\<lambda>(k, v). (KeyTs_serialize k, v)) kts) + 100 < 2 ^ 32"

lemma flush_table:
  assumes laws: "table_laws te" and mem: "mem_inv sk (map (enc_kv (te_enc te)) kts)" and ok: "flushable te kts" and n: "length kts < n"
    and cfg: "tg_block_size config \<noteq> 0 \<or> tg_compression config = No_compression"
    and small: "\<And>tb td tb'. build_l0_table te n sk [] config cipher = Some (Inr tb) \<Longrightarrow> tb_done te tb = Inr (td, tb') \<Longrightarrow> length (read_all td) < 2 ^ 32"
  obtains tb t ess where "build_l0_table te n sk [] config cipher = Some (Inr tb)" "\<not> tb_is_empty tb" "tb_build te page tid tb = Inr t"
    "table_of te ess t" "concat ess = map (\<lambda>(k, v). (KeyTs_serialize k, v)) kts" "tl_table_id t = tid"
    "tl_smallest t = fst (hd kts)" "tl_biggest t = fst (last kts)"
proof -
  let ?es = "map (\<lambda>(k, v). (KeyTs_serialize k, v)) kts"
  have ne: "kts \<noteq> []" and keys: "\<forall>e \<in> set kts. kt_key (fst e) \<noteq> [] \<and> KeyTs_len (fst e) < 2 ^ 16"
    and vp: "\<forall>e \<in> set ?es. is_ok (vptr_len_of (snd e))" and sz: "3 * run_size (te_enc te) ?es + 100 < 2 ^ 32"
    using ok by (auto simp: flushable_def)
  have v: "varint_laws (te_enc te) (te_dec te)" using laws by (simp add: table_laws_def)
  have ks: "keys_ok ?es" using keys by (auto simp: keys_ok_def KeyTs_len_def KeyTs_serialize_def)
  have "tbuilt te config cipher [] (TableBuilder_new config cipher) [] [] []"
    by (simp add: tbuilt_def TableBuilder_new_def built_new)
  from l0_push_all_built [OF this ks _ vp] sz obtain tb ess0 bbs cur where
    tb: "l0_push_all te ?es (TableBuilder_new config cipher) = Inr tb" "tbuilt te config cipher ?es tb ess0 bbs cur" by auto
  have b: "build_l0_table te n sk [] config cipher = Some (Inr tb)" using build_l0_table_spec [OF mem ne n v] tb(1) by simp
  have "?es \<noteq> []" using ne by simp
  obtain t ess where
    t: "tb_build te page tid tb = Inr t" "table_of te ess t" "concat ess = ?es" "tl_table_id t = tid"
    "tl_smallest t = KeyTs_from (fst (hd ?es))" "tl_biggest t = KeyTs_from (fst (last ?es))"
    by (rule tb_build_ok [OF laws tb(2) \<open>?es \<noteq> []\<close> sz cfg]) (use small [OF b] in auto)
  have rt: "KeyTs_from (KeyTs_serialize (fst e)) = fst e" if "e \<in> set kts" for e
    using that keys KeyTs_from_serialize by auto
  have "\<not> tb_is_empty tb" using tb(2) ne by (simp add: tbuilt_def tb_is_empty_def)
  with b t ne rt show ?thesis by (intro that [of tb t ess]) (simp_all add: hd_map last_map case_prod_unfold)
qed

section \<open>The manifest and level 0\<close>

lemma push_level0_table_ok:
  assumes agree: "levels_agree lc" and lh: "lc_levels lc = lh # lhs" "lh_level lh = LEVEL0"
    "length (lh_tables lh) < lg_num_level_zero_tables_stall (lc_config lc)"
    and mf: "push_changes me [new_create (tl_table_id t) LEVEL0 (table_key_id t) (tg_compression (tl_config t))] (lc_manifest lc) = (Inr (), mf)"
  shows "\<exists>lc'. push_level0_table me others t lc = Some (Inr lc') \<and> levels_agree lc' \<and>
    lh_tables (hd (lc_levels lc')) = lh_tables lh @ [t] \<and> tl (lc_levels lc') = lhs"
proof -
  let ?lh = "lh\<lparr>lh_tables := lh_tables lh @ [t], lh_total_size := lh_total_size lh + tl_table_size t, lh_total_stale_size := table_stale_size t\<rparr>"
  let ?lc = "lc\<lparr>lc_manifest := mf, lc_levels := ?lh # lhs\<rparr>"
  have p: "push_level0_table me others t lc = Some (Inr ?lc)"
    using mf lh by (subst push_level0_table_def) (simp add: push_level0_def index_def)
  obtain m1 where m1: "catalog (mf_info mf) = m1" "catalog (mf_info (lc_manifest lc)) (tl_table_id t) = None"
    "\<exists>tm. m1 (tl_table_id t) = Some tm \<and> tm_level tm = LEVEL0"
    "\<forall>i. i \<noteq> tl_table_id t \<longrightarrow> m1 i = catalog (mf_info (lc_manifest lc)) i"
    using catalog_creates [where ts = "[t]" and l = LEVEL0 and cs = "[]"] push_refines_catalog [OF mf] by auto
  have old: "(\<exists>tm. catalog (mf_info (lc_manifest lc)) i = Some tm \<and> unat (tm_level tm) = l) \<longleftrightarrow>
     l < length (lc_levels lc) \<and> i \<in> level_ids lc l" for i l using agree unfolding levels_agree_def by blast
  have "(\<exists>tm. catalog (mf_info mf) i = Some tm \<and> unat (tm_level tm) = l) \<longleftrightarrow>
     l < length (lc_levels ?lc) \<and> i \<in> level_ids ?lc l" for i l
  proof (cases "i = tl_table_id t")
    case True
    have "\<not> (l < length (lc_levels lc) \<and> i \<in> level_ids lc l)" using old [of i l] m1(2) True by simp
    then show ?thesis using m1(1,3) True lh(1) by (cases l) (auto simp: LEVEL0_def)
  next
    case False
    then show ?thesis using old [of i l] m1(1,4) lh(1) by (cases l) auto
  qed
  then have "levels_agree ?lc" unfolding levels_agree_def by simp
  with p show ?thesis by auto
qed

lemma level0_create_accepted:
  assumes "manifest_ok (mf_info mf)" "catalog (mf_info mf) i = None"
  shows "\<exists>mf'. push_changes me [new_create i LEVEL0 kid c] mf = (Inr (), mf')"
proof -
  have "fst (apply_manifest_change (new_create i LEVEL0 kid c) (mf_info mf)) = Inr ()"
    using assms(2) by (cases "mi_levels (mf_info mf)")
      (simp_all add: apply_manifest_change_def change_op_def new_create_def LEVEL0_def catalog_def Let_def)
  then obtain mi where mi: "apply_manifest_change (new_create i LEVEL0 kid c) (mf_info mf) = (Inr (), mi)" by (metis prod.collapse)
  have "mi_deletions mi \<le> mi_creations mi" using apply_change_ok [OF assms(1) mi] by (simp add: manifest_ok_def)
  with mi show ?thesis by (auto simp: push_changes_def Let_def split: prod.splits)
qed

section \<open>Properties\<close>

text \<open>C10: A flush moves a memtable to disk. When the entries fit a table, a new file number is reserved, and
  level 0 has room, the flush ends; a table that scans to exactly the entries of the memtable, in order, is
  appended to level 0 and listed in the manifest; manifest and levels stay in step, the other
  levels are untouched, and the memtable is released.\<close>

theorem flush_moves_memtable:
  assumes "table_laws (ce_te ce)" "db_flush_memtable d = mt # rest" "db_immut_memtable d = mt # immut"
    and mem: "mem_inv (mt_skip_list mt) (map (enc_kv (te_enc (ce_te ce))) kts)" "flushable (ce_te ce) kts" "length kts < n"
    and cfg: "tg_block_size config \<noteq> 0 \<or> tg_compression config = No_compression"
    and cipher: "latest_cipher (te_crypto (ce_te ce)) (ce_key ce) (ce_nonce ce) (ce_now_nanos ce) (vl_kr (db_vlog d)) = Inr (cipher, kr)"
    and small: "\<And>tb td tb'. build_l0_table (ce_te ce) n (mt_skip_list mt) [] config cipher = Some (Inr tb) \<Longrightarrow>
      tb_done (ce_te ce) tb = Inr (td, tb') \<Longrightarrow> length (read_all td) < 2 ^ 32"
    and lc: "levels_agree lc" "manifest_ok (mf_info (lc_manifest lc))" "catalog (mf_info (lc_manifest lc)) (lc_next_file_id lc) = None"
    and lh: "lc_levels lc = lh # lhs" "lh_level lh = LEVEL0" "length (lh_tables lh) < lg_num_level_zero_tables_stall (lc_config lc)"
  shows "\<exists>t d' lc'. flush_memtable ce n others config (d, lc) = Some (Inr (d', lc')) \<and>
    db_flush_memtable d' = rest \<and> db_immut_memtable d' = immut \<and>
    lh_tables (hd (lc_levels lc')) = lh_tables lh @ [t] \<and> tl (lc_levels lc') = lhs \<and> levels_agree lc' \<and>
    collect (\<lambda>c. step_of (table_next (ce_te ce) c)) (table_item (ce_te ce)) (Suc (length kts)) (table_iter_new t) =
      map (\<lambda>(k, v). Some (KeyTs_serialize k, v)) kts \<and>
    tl_smallest t = fst (hd kts) \<and> tl_biggest t = fst (last kts)"
proof -
  obtain tb t ess where t: "build_l0_table (ce_te ce) n (mt_skip_list mt) [] config cipher = Some (Inr tb)" "\<not> tb_is_empty tb"
    "tb_build (ce_te ce) (ce_page ce) (lc_next_file_id lc) tb = Inr t" "table_of (ce_te ce) ess t"
    "concat ess = map (\<lambda>(k, v). (KeyTs_serialize k, v)) kts" "tl_table_id t = lc_next_file_id lc"
    "tl_smallest t = fst (hd kts)" "tl_biggest t = fst (last kts)"
    by (rule flush_table [OF assms(1) mem cfg small])
  let ?lc = "lc\<lparr>lc_next_file_id := lc_next_file_id lc + 1\<rparr>"
  obtain mf where mf: "push_changes (ce_me ce) [new_create (tl_table_id t) LEVEL0 (table_key_id t) (tg_compression (tl_config t))] (lc_manifest ?lc) = (Inr (), mf)"
    using level0_create_accepted lc(2,3) t(6) by fastforce
  have "levels_agree ?lc" "lc_levels ?lc = lh # lhs" "length (lh_tables lh) < lg_num_level_zero_tables_stall (lc_config ?lc)"
    using lc(1) lh by (simp_all add: levels_agree_def)
  from push_level0_table_ok [OF this(1,2) lh(2) this(3) mf] obtain lc' where
    p: "push_level0_table (ce_me ce) others t ?lc = Some (Inr lc')" "levels_agree lc'"
    "lh_tables (hd (lc_levels lc')) = lh_tables lh @ [t]" "tl (lc_levels lc') = lhs" by blast
  let ?d = "d\<lparr>db_flush_memtable := rest, db_vlog := (db_vlog d)\<lparr>vl_kr := kr\<rparr>, db_immut_memtable := immut\<rparr>"
  have "flush_memtable ce n others config (d, lc) = Some (Inr (?d, lc'))"
    using assms(2,3) cipher t(1-3) p(1) by (simp add: flush_memtable_def handle_memtable_flush_def get_reserve_file_id_def)
  moreover have "varint_laws (te_enc (ce_te ce)) (te_dec (ce_te ce))" using assms(1) by (simp add: table_laws_def)
  from table_scan [OF t(4) this] t(5)
  have "collect (\<lambda>c. step_of (table_next (ce_te ce) c)) (table_item (ce_te ce)) (Suc (length kts)) (table_iter_new t) =
      map (\<lambda>(k, v). Some (KeyTs_serialize k, v)) kts" by (simp add: case_prod_unfold comp_def)
  ultimately show ?thesis using p(2-4) t(7,8) by (intro exI [of _ t] exI [of _ ?d] exI [of _ lc'] conjI) simp_all
qed

section \<open>An instance\<close>

definition flush_kts :: "(key_ts \<times> value_meta) list" where
  "flush_kts = [(KeyTs [97] 1, ValueMeta_default)]"

definition flush_tb :: table_builder where
  "flush_tb = \<lparr>tb_cur_block = \<lparr>bb_data = [0, 0, 0, 9, 97, 0, 0, 0, 0, 0, 0, 0, 1, 0, 0, 0],
       bb_base_keyts = [97, 0, 0, 0, 0, 0, 0, 0, 1], bb_entry_offsets = [0]\<rparr>,
     tb_compressed_size = 0, tb_uncompressed_size = 0, tb_cipher = None, tb_len_offsets = 0,
     tb_key_hashes = [Bloom_hash [97]], tb_max_version = 1, tb_on_disk_size = 0, tb_stale_data_size = 0,
     tb_config = demo_tc, tb_compress_task = []\<rparr>"

lemma flush_pushed: "l0_push_all demo_te (map (\<lambda>(k, v). (KeyTs_serialize k, v)) flush_kts) (TableBuilder_new demo_tc None) = Inr flush_tb"
  by (simp add: flush_kts_def tb_push_def push_internal_def TableBuilder_new_def should_finish_block_def BlockBuilder_new_def
      push_entry_def demo_te_def KeyTs_serialize_def ValueMeta_serialize_def ValueMeta_default_def leb_enc_def leb.simps diff_base_key_def
      Let_def demo_tc_def TableConfig_default_def ValueMeta_serialized_size_def NONCE_SIZE_def EntryHeader_serialize_def put_u64_def
      put_u16_def to_be_def KeyTsBorrow_key_def KeyTsBorrow_txn_ts_def flush_tb_def vptr_len_of_def meta_contains_def VALUE_POINTER_def)

lemma flush_done: "tb_done demo_te flush_tb = Inr (td, tb') \<Longrightarrow> length (read_all td) < 2 ^ 32"
  by (auto simp: tb_done_def finish_cur_block_def flush_tb_def demo_te_def demo_tc_def TableConfig_default_def Let_def
      compress_task_def try_encrypt_table_def build_index_def read_all_def finish_block_def demo_sum_def demo_fb_encode_def
      put_offset_def put_bytes_def)

lemma flush_memory: "\<exists>sk. mem_inv sk (map (enc_kv leb_enc) flush_kts)"
proof -
  let ?k = "KeyTs_serialize (KeyTs [97] 1)" and ?v = "ValueMeta_serialize leb_enc ValueMeta_default"
  have "encoded_key ?k" "length ?k < 2 ^ 16" by (simp_all add: encoded_key_def)
  moreover have "length ?v = 3" by (simp add: ValueMeta_serialize_def ValueMeta_default_def leb_enc_def leb.simps)
  ultimately show ?thesis
    using mem_order.push_inv [OF demo_list_inv, of ?k ?v]
    by (auto simp: flush_kts_def enc_kv_def put_sorted_def demo_list_def rounded_def SKL_MAX_NODE_SIZE_def)
qed

theorem flush_moves_memtable_witness:
  "\<exists>mt t d lc'. flush_memtable demo_ce 9 [] demo_tc (demo_db\<lparr>db_immut_memtable := [mt], db_flush_memtable := [mt]\<rparr>, demo_two) = Some (Inr (d, lc')) \<and>
     db_immut_memtable d = [] \<and> levels_agree lc' \<and> lh_tables (hd (lc_levels lc')) = [demo_old ! 0, t] \<and> tl_smallest t = KeyTs [97] 1"
proof -
  obtain sk where sk: "mem_inv sk (map (enc_kv leb_enc) flush_kts)" using flush_memory by blast
  define mt where "mt = demo_mt\<lparr>mt_skip_list := sk\<rparr>"
  define d where "d = demo_db\<lparr>db_immut_memtable := [mt], db_flush_memtable := [mt]\<rparr>"
  have te: "ce_te demo_ce = demo_te" "te_enc demo_te = leb_enc" "te_dec demo_te = leb_dec" by (simp_all add: demo_ce_def demo_te_def)
  have b: "build_l0_table (ce_te demo_ce) 9 (mt_skip_list mt) [] demo_tc None = Some (Inr flush_tb)"
    using build_l0_table_spec [of sk demo_te flush_kts 9] sk leb_laws flush_pushed te by (simp add: flush_kts_def mt_def)
  have "flushable demo_te flush_kts"
    by (simp add: flushable_def flush_kts_def KeyTs_len_def run_size_def te ValueMeta_serialize_def ValueMeta_default_def leb_enc_def
        leb.simps vptr_len_of_def meta_contains_def VALUE_POINTER_def)
  moreover have "latest_cipher (te_crypto demo_te) [] [] 0 (vl_kr (db_vlog d)) = Inr (None, vl_kr (db_vlog d))"
    by (simp add: latest_cipher_def latest_datakey_def d_def demo_db_def demo_vlog_def ValueLog_new_def demo_registry_def)
  ultimately have "\<exists>t d' lc'. flush_memtable demo_ce 9 [] demo_tc (d, demo_two) = Some (Inr (d', lc')) \<and>
      db_flush_memtable d' = [] \<and> db_immut_memtable d' = [] \<and>
      lh_tables (hd (lc_levels lc')) = lh_tables (hd (lc_levels demo_two)) @ [t] \<and> tl (lc_levels lc') = tl (lc_levels demo_two) \<and> levels_agree lc' \<and>
      collect (\<lambda>c. step_of (table_next (ce_te demo_ce) c)) (table_item (ce_te demo_ce)) (Suc (length flush_kts)) (table_iter_new t) =
        map (\<lambda>(k, v). Some (KeyTs_serialize k, v)) flush_kts \<and> tl_smallest t = fst (hd flush_kts) \<and> tl_biggest t = fst (last flush_kts)"
    by (intro flush_moves_memtable [where mt = mt and cipher = None and kr = "vl_kr (db_vlog d)"])
      (use sk demo_te_laws demo_two_agrees b flush_done te demo_kts_facts(5) in
        \<open>auto simp: d_def mt_def flush_kts_def demo_ce_def demo_two_def manifest_ok_def demo_mf0_def catalog_def demo_lc_def LEVEL0_def
          LevelHandler_new_def init_tables_def demo_old_def demo_config_def LevelsControllerConfig_default_def\<close>)
  then show ?thesis
    by (intro exI [of _ mt]) (auto simp: d_def flush_kts_def demo_two_def init_tables_def LevelHandler_new_def LEVEL0_def demo_old_def)
qed

end
