(* ===== verification/Opening.thy ===== *)
theory Opening
  imports Flush Trie "HOL-Library.Product_Lexorder"
begin

text \<open>
  Opening the levels (\<open>LevelsControllerConfig::build\<close> and \<open>open_tables_by_manifest\<close> of
  \<open>src/src/level/levels.rs\<close>) with the file names and the throttle of \<open>src/src/util/mod.rs\<close>: every table
  of the manifest is opened from its file by a task of its own, at most three at a time, and the
  tables are sorted into their levels. A directory is a map from the numbers of table files to
  their contents; file names are strings. The tasks are pure, so that their results do not
  depend on the schedule; the schedule of the throttle, which a failing task can block, is the step relation below.
\<close>

section \<open>File names\<close>

definition MEM_SUFFIX :: string where "MEM_SUFFIX = ''.mem''"
definition SST_SUFFIX :: string where "SST_SUFFIX = ''.sst''"
definition VLOG_SUFFIX :: string where "VLOG_SUFFIX = ''.vlog''"

fun decimal :: "nat \<Rightarrow> string" where
  "decimal n = (if n < 10 then [char_of (48 + n)] else decimal (n div 10) @ [char_of (48 + n mod 10)])"

declare decimal.simps [simp del]

text \<open>\<open>join_dir\<close> without the directory: at least six digits.\<close>

definition join_dir :: "string \<Rightarrow> u32 \<Rightarrow> string" where
  "join_dir suff fid = (let d = decimal (unat fid) in replicate (6 - length d) (CHR ''0'') @ d @ suff)"

text \<open>\<open>str::parse::<u32>\<close>.\<close>

definition parse_u32 :: "string \<Rightarrow> u32 option" where
  "parse_u32 s = (case parse_usize s of Some n \<Rightarrow> if n < 2 ^ 32 then Some (word_of_nat n) else None | None \<Rightarrow> None)"

definition ends_with :: "string \<Rightarrow> string \<Rightarrow> bool" where
  "ends_with s suff \<longleftrightarrow> length suff \<le> length s \<and> drop (length s - length suff) s = suff"

text \<open>\<open>trim_end_matches\<close> takes the suffix off as often as it is there.\<close>

function trim_end_matches :: "string \<Rightarrow> string \<Rightarrow> string" where
  "trim_end_matches suff s =
     (if suff \<noteq> [] \<and> ends_with s suff then trim_end_matches suff (take (length s - length suff) s) else s)"
  by pat_completeness auto

termination
  by (relation "measure (\<lambda>(suff, s). length s)") (auto simp: ends_with_def intro!: diff_less)

declare trim_end_matches.simps [simp del]

definition parse_name :: "string \<Rightarrow> string \<Rightarrow> u32 outcome" where
  "parse_name suff name =
     (if ends_with name suff then
        case parse_u32 (trim_end_matches suff name) of Some fid \<Rightarrow> Inr fid | None \<Rightarrow> Inl (Anyhow ''failed parse PathBuf'')
      else Inl (Anyhow ''failed parse PathBuf''))"

text \<open>The entries of a directory are names with whether they are files.\<close>

fun parse_set_from_dir :: "(string \<times> bool) list \<Rightarrow> u32 set" where
  "parse_set_from_dir [] = {}"
| "parse_set_from_dir ((name, is_file) # es) =
     (case parse_name SST_SUFFIX name of Inr fid \<Rightarrow> if is_file then insert fid (parse_set_from_dir es) else parse_set_from_dir es
      | Inl _ \<Rightarrow> parse_set_from_dir es)"

section \<open>Level numbers\<close>

definition Level_from_u32 :: "u32 \<Rightarrow> level" where "Level_from_u32 v = ucast v"

definition Level_from_usize :: "nat \<Rightarrow> level" where "Level_from_usize n = word_of_nat n"

definition Level_add :: "level \<Rightarrow> byte \<Rightarrow> level outcome" where "Level_add l rhs = add_checked l rhs"

definition Level_sub :: "level \<Rightarrow> byte \<Rightarrow> level outcome" where "Level_sub l rhs = sub_checked l rhs"

definition steps_between :: "level \<Rightarrow> level \<Rightarrow> nat option" where
  "steps_between start stop = (if start \<le> stop then Some (unat (stop - start)) else None)"

definition forward_checked :: "level \<Rightarrow> nat \<Rightarrow> level option" where
  "forward_checked start n =
     (if n < 255 \<and> unat start + n < 256 then Some (start + word_of_nat n) else None)"

definition backward_checked :: "level \<Rightarrow> nat \<Rightarrow> level option" where
  "backward_checked start n = (if n < 255 \<and> n \<le> unat start then Some (start - word_of_nat n) else None)"

section \<open>The throttle\<close>

text \<open>
  \<open>th_todo\<close> are the tasks not yet started, \<open>th_running\<close> those with a permit, by what they will return,
  \<open>th_errors\<close> the channel for errors, which has room for one. A task whose error finds the channel full keeps
  its permit. \<open>th_result\<close> is what the opener has returned: an error it received, or success.
\<close>

record throttle =
  th_max :: nat
  th_todo :: "unit outcome list"
  th_running :: "unit outcome list"
  th_errors :: "failure list"
  th_result :: "unit outcome option"

definition Throttle_new :: "nat \<Rightarrow> unit outcome list \<Rightarrow> throttle" where
  "Throttle_new n tasks = \<lparr>th_max = n, th_todo = tasks, th_running = [], th_errors = [], th_result = None\<rparr>"

inductive throttle_step :: "throttle \<Rightarrow> throttle \<Rightarrow> bool" where
  acquire: "th_result th = None \<Longrightarrow> th_todo th = t # ts \<Longrightarrow> length (th_running th) < th_max th \<Longrightarrow>
    throttle_step th (th\<lparr>th_todo := ts, th_running := t # th_running th\<rparr>)"
| acquire_error: "th_result th = None \<Longrightarrow> th_todo th \<noteq> [] \<Longrightarrow> th_errors th = e # es \<Longrightarrow>
    throttle_step th (th\<lparr>th_errors := es, th_result := Some (Inl e)\<rparr>)"
| done_ok: "th_running th = xs @ Inr () # ys \<Longrightarrow> throttle_step th (th\<lparr>th_running := xs @ ys\<rparr>)"
| done_panic: "th_running th = xs @ Inl Panic # ys \<Longrightarrow> throttle_step th (th\<lparr>th_running := xs @ ys\<rparr>)"
| done_error: "th_running th = xs @ Inl e # ys \<Longrightarrow> e \<noteq> Panic \<Longrightarrow> th_errors th = [] \<Longrightarrow>
    throttle_step th (th\<lparr>th_running := xs @ ys, th_errors := [e]\<rparr>)"
| finish_ok: "th_result th = None \<Longrightarrow> th_todo th = [] \<Longrightarrow> th_running th = [] \<Longrightarrow> th_errors th = [] \<Longrightarrow>
    throttle_step th (th\<lparr>th_result := Some (Inr ())\<rparr>)"
| finish_error: "th_result th = None \<Longrightarrow> th_todo th = [] \<Longrightarrow> th_running th = [] \<Longrightarrow> th_errors th = e # es \<Longrightarrow>
    throttle_step th (th\<lparr>th_errors := es, th_result := Some (Inl e)\<rparr>)"

section \<open>Opening the tables\<close>

text \<open>A table whose checksum is wrong is left out.\<close>

definition opened :: "table outcome \<Rightarrow> table option outcome" where
  "opened r =
     (case r of
        Inr t \<Rightarrow> Inr (Some t)
      | Inl f \<Rightarrow> if f = Anyhow ''checksum mismatch'' then Inr None
                 else if f = Panic then Inl Panic else Inl (Anyhow ''Opening table''))"

text \<open>One task.\<close>

definition open_table ::
  "table_env \<Rightarrow> nat \<Rightarrow> table_config \<Rightarrow> key_registry \<Rightarrow> (u32 \<rightharpoonup> bytes) \<Rightarrow> u32 \<times> table_manifest \<Rightarrow> table option outcome" where
  "open_table te page config kr disk e =
     (case e of (file_id, tm) \<Rightarrow>
      and_then (get_cipher (tm_keyid tm) kr) (\<lambda>cipher.
      let config = config\<lparr>tg_compression := tm_compression tm\<rparr> in
      case disk file_id of
        None \<Rightarrow> Inl (Anyhow ''No such file or directory'')
      | Some content \<Rightarrow> opened (table_open te config file_id (fst (MmapFile_open page content 0)) cipher)))"

text \<open>The level a table goes to: those behind the last level go to the last one.\<close>

definition task_level :: "level \<Rightarrow> table_manifest \<Rightarrow> nat" where
  "task_level max_level tm = (if tm_level tm < max_level then unat (tm_level tm) else unat max_level - 1)"

text \<open>The error the throttle reports when there is one; a panic of a task is an error where it is awaited.\<close>

fun first_error :: "'a outcome list \<Rightarrow> failure option" where
  "first_error [] = None"
| "first_error (Inl f # rs) = (if f = Panic then first_error rs else Some f)"
| "first_error (Inr _ # rs) = first_error rs"

fun await_tables :: "table option outcome list \<Rightarrow> table list outcome" where
  "await_tables [] = Inr []"
| "await_tables (r # rs) =
     (case r of
        Inl _ \<Rightarrow> Inl (Anyhow ''JoinError'')
      | Inr t \<Rightarrow> and_then (await_tables rs) (\<lambda>ts. Inr (case t of Some t \<Rightarrow> t # ts | None \<Rightarrow> ts)))"

definition open_tables_by_manifest ::
  "table_env \<Rightarrow> nat \<Rightarrow> levels_controller_config \<Rightarrow> table_config \<Rightarrow> manifest_info \<Rightarrow> key_registry \<Rightarrow> (u32 \<rightharpoonup> bytes) \<Rightarrow>
     (u32 \<times> table list list) outcome" where
  "open_tables_by_manifest te page g config mi kr disk =
     and_then (revert_to_manifest mi (dom disk)) (\<lambda>_.
     if mi_tables mi \<noteq> [] \<and> lg_max_level g = 0 then Inl Panic
     else
       let max_file_id = fold (\<lambda>(i, _) m. max m i) (mi_tables mi) 0;
           tasks = map (\<lambda>e. (task_level (lg_max_level g) (snd e), open_table te page config kr disk e)) (mi_tables mi)
       in case first_error (map snd tasks) of
            Some f \<Rightarrow> Inl f
          | None \<Rightarrow>
              and_then (await_tasks (map (\<lambda>l. await_tables (map snd (filter (\<lambda>t. fst t = l) tasks))) [0 ..< unat (lg_max_level g)]))
                (\<lambda>level_tables. Inr (max_file_id, level_tables)))"

fun init_handlers :: "level \<Rightarrow> table list list \<Rightarrow> level_handler list outcome" where
  "init_handlers l [] = Inr []"
| "init_handlers l (tables # rest) =
     and_then (Level_add l 1) (\<lambda>l'. and_then (init_handlers l' rest) (\<lambda>lhs. Inr (init_tables tables (LevelHandler_new l) # lhs)))"

definition LevelsController_build ::
  "table_env \<Rightarrow> nat \<Rightarrow> levels_controller_config \<Rightarrow> table_config \<Rightarrow> manifest \<Rightarrow> key_registry \<Rightarrow> (u32 \<rightharpoonup> bytes) \<Rightarrow> levels_controller outcome" where
  "LevelsController_build te page g config mf kr disk =
     (if \<not> lg_num_level_zero_tables_stall g > lg_num_level_zero_tables g then Inl Panic
      else
        and_then (open_tables_by_manifest te page g config (mf_info mf) kr disk) (\<lambda>(max_file_id, level_tables).
        and_then (add_checked max_file_id 1) (\<lambda>next_file_id.
        and_then (init_handlers LEVEL0 level_tables) (\<lambda>levels.
        let lc = \<lparr>lc_manifest = mf, lc_next_file_id = next_file_id, lc_levels = levels,
                  lc_status = \<lparr>cs_levels = replicate (unat (lg_max_level g)) LevelCompactStatus_default, cs_tables = {}\<rparr>,
                  lc_config = g, lc_table_config = config\<rparr>
        in and_then (controller_validate lc) (\<lambda>_. Inr lc)))))"

section \<open>Table information\<close>

record table_info =
  in_table_id :: u32
  in_level :: level
  in_left :: key_ts
  in_right :: key_ts
  in_key_count :: u32
  in_on_disk_size :: u32
  in_stale_data_size :: u32
  in_index_len :: nat
  in_bloom_filter_len :: nat
  in_uncompressed_size :: u32
  in_max_version :: u64

fun table_infos :: "table_env \<Rightarrow> level \<Rightarrow> table list \<Rightarrow> table_info list outcome" where
  "table_infos te l [] = Inr []"
| "table_infos te l (t # ts) =
     and_then (get_index te t) (\<lambda>ti.
     and_then (table_infos te l ts) (\<lambda>infos.
     Inr (\<lparr>in_table_id = tl_table_id t, in_level = l, in_left = tl_smallest t, in_right = tl_biggest t,
           in_key_count = ci_key_count (tl_cheap_index t), in_on_disk_size = ci_on_disk_size (tl_cheap_index t),
           in_stale_data_size = ti_stale_data_size ti, in_index_len = tl_index_len t,
           in_bloom_filter_len = ci_bloom_filter_len (tl_cheap_index t),
           in_uncompressed_size = ci_uncompressed_size (tl_cheap_index t), in_max_version = table_max_version t\<rparr> # infos)))"

fun level_infos :: "table_env \<Rightarrow> level_handler list \<Rightarrow> table_info list outcome" where
  "level_infos te [] = Inr []"
| "level_infos te (lh # lhs) =
     and_then (table_infos te (lh_level lh) (lh_tables lh)) (\<lambda>xs. and_then (level_infos te lhs) (\<lambda>ys. Inr (xs @ ys)))"

definition get_table_info :: "table_env \<Rightarrow> levels_controller \<Rightarrow> table_info list outcome" where
  "get_table_info te lc = and_then (level_infos te (lc_levels lc)) (\<lambda>infos. Inr (sort_key (\<lambda>i. (in_level i, in_table_id i)) infos))"

section \<open>Names read back\<close>

lemma digit_char: "d < 10 \<Longrightarrow> digit (char_of (48 + d)) = Some d"
  by (simp add: digit_def Let_def)

lemma digits_append: "digits acc (xs @ ys) = (case digits acc xs of None \<Rightarrow> None | Some a \<Rightarrow> digits a ys)"
  by (induction xs arbitrary: acc) (auto split: option.split)

lemma digits_decimal: "n < 2 ^ 64 \<Longrightarrow> digits 0 (decimal n) = Some n"
proof (induction n rule: decimal.induct)
  case (1 n)
  show ?case
  proof (cases "n < 10")
    case True
    then show ?thesis by (simp add: decimal.simps [of n] digit_char)
  next
    case False
    then have "digits 0 (decimal (n div 10)) = Some (n div 10)" using 1 by simp
    then show ?thesis using False 1(2) by (simp add: decimal.simps [of n] digits_append digit_char)
  qed
qed

lemma decimal_digits: "c \<in> set (decimal n) \<Longrightarrow> digit c \<noteq> None"
proof (induction n rule: decimal.induct)
  case (1 n)
  then show ?case by (cases "n < 10") (auto simp: decimal.simps [of n] digit_char)
qed

lemma decimal_nonempty: "decimal n \<noteq> []"
  by (simp add: decimal.simps [of n])

lemma padded_digits:
  fixes fid :: u32
  defines "s \<equiv> replicate (6 - length (decimal (unat fid))) (CHR ''0'') @ decimal (unat fid)"
  shows "parse_u32 s = Some fid" "\<forall>c \<in> set s. digit c \<noteq> None" "s \<noteq> []"
proof -
  show d: "\<forall>c \<in> set s. digit c \<noteq> None" using decimal_digits by (auto simp: s_def digit_def)
  show ne: "s \<noteq> []" by (simp add: s_def decimal_nonempty)
  have b: "unat fid < 2 ^ 32" using unat_bound [of fid] by simp
  have "digits 0 (replicate k (CHR ''0'')) = Some 0" for k by (induction k) (simp_all add: digit_def)
  then have "digits 0 s = Some (unat fid)" using b by (simp add: s_def digits_append digits_decimal)
  moreover have "hd s \<noteq> CHR ''+''" using d ne by (cases s) (auto simp: digit_def)
  ultimately have "parse_usize s = Some (unat fid)" using ne by (cases s) (simp_all add: parse_usize_def)
  with b show "parse_u32 s = Some fid" by (simp add: parse_u32_def)
qed

lemma suffix_not_digit:
  assumes "suff \<in> {MEM_SUFFIX, SST_SUFFIX, VLOG_SUFFIX}"
  shows "suff \<noteq> []" "digit (last suff) = None"
  using assms by (auto simp: MEM_SUFFIX_def SST_SUFFIX_def VLOG_SUFFIX_def digit_def)

lemma trim_once:
  assumes "suff \<noteq> []" "\<not> ends_with s suff"
  shows "trim_end_matches suff (s @ suff) = s"
proof -
  have "trim_end_matches suff s = s" using assms by (subst trim_end_matches.simps) simp
  then show ?thesis using assms(1) by (subst trim_end_matches.simps) (simp add: ends_with_def)
qed

text \<open>Every file number survives its file name: \<open>parse\<close> reads back the number that \<open>join_dir\<close> wrote, for
  all three kinds of files.\<close>

theorem file_name_roundtrip:
  assumes "suff \<in> {MEM_SUFFIX, SST_SUFFIX, VLOG_SUFFIX}"
  shows "parse_name suff (join_dir suff fid) = Inr fid"
proof -
  let ?s = "replicate (6 - length (decimal (unat fid))) (CHR ''0'') @ decimal (unat fid)"
  note s = padded_digits [of fid] and suff = suffix_not_digit [OF assms]
  have name: "join_dir suff fid = ?s @ suff" by (simp add: join_dir_def Let_def)
  have "\<not> ends_with ?s suff"
  proof
    assume "ends_with ?s suff"
    then have "last suff \<in> set ?s" using suff(1) by (metis ends_with_def in_set_dropD last_in_set)
    with s(2) suff(2) show False by blast
  qed
  with suff(1) have "trim_end_matches suff (?s @ suff) = ?s" by (rule trim_once)
  with s(1) show ?thesis by (simp add: parse_name_def name ends_with_def)
qed

theorem file_name_roundtrip_witness: "parse_name SST_SUFFIX (join_dir SST_SUFFIX 1234567) = Inr 1234567"
  by (rule file_name_roundtrip) simp

section \<open>A throttle that hangs\<close>

inductive_cases throttle_stepE: "throttle_step th th'"

definition failing :: "unit outcome list \<Rightarrow> nat" where
  "failing rs = length (filter (\<lambda>r. r \<noteq> Inr () \<and> r \<noteq> Inl Panic) rs)"

lemma failing_simps [simp]:
  "failing [] = 0" "failing (xs @ ys) = failing xs + failing ys" "failing (Inr () # xs) = failing xs"
  "failing (Inl Panic # xs) = failing xs" "e \<noteq> Panic \<Longrightarrow> failing (Inl e # xs) = Suc (failing xs)"
  by (simp_all add: failing_def)

definition jammed :: "throttle \<Rightarrow> bool" where
  "jammed th \<longleftrightarrow> th_todo th = [] \<and> th_result th = None \<and> length (th_errors th) \<le> 1 \<and> 2 \<le> length (th_errors th) + failing (th_running th)"

lemma jammed_step: "throttle_step th th' \<Longrightarrow> jammed th \<Longrightarrow> jammed th'"
  by (erule throttle_stepE) (auto simp: jammed_def)

text \<open>When two tasks fail after the last one was started, the opener never returns: the channel for errors has
  room for one, the task with the second keeps its permit while it waits for room, and \<open>finish\<close> takes the error
  out only when it has all permits.\<close>

theorem two_failures_jam_throttle:
  assumes "throttle_step\<^sup>*\<^sup>* (Throttle_new n tasks) th" "th_todo th = []" "th_result th = None" "th_errors th = []"
    and "2 \<le> failing (th_running th)" "throttle_step\<^sup>*\<^sup>* th th'"
  shows "th_result th' = None"
proof -
  have "jammed th" using assms(2-5) by (simp add: jammed_def)
  with assms(6) have "jammed th'" by (induction rule: rtranclp_induct) (auto intro: jammed_step)
  then show ?thesis by (simp add: jammed_def)
qed

theorem two_failures_jam_throttle_witness:
  "\<exists>th. throttle_step\<^sup>*\<^sup>* (Throttle_new 3 [Inl (Anyhow []), Inl (Anyhow [])]) th \<and> (\<forall>th'. throttle_step\<^sup>*\<^sup>* th th' \<longrightarrow> th_result th' = None)"
proof -
  let ?f = "Inl (Anyhow []) :: unit outcome" and ?th0 = "Throttle_new 3 [Inl (Anyhow []), Inl (Anyhow [])]"
  let ?th1 = "?th0\<lparr>th_todo := [?f], th_running := [?f]\<rparr>" and ?th2 = "?th0\<lparr>th_todo := [], th_running := [?f, ?f]\<rparr>"
  have "throttle_step ?th0 ?th1" "throttle_step ?th1 ?th2"
    using throttle_step.acquire [of ?th0 ?f "[?f]"] throttle_step.acquire [of ?th1 ?f "[]"] by (simp_all add: Throttle_new_def)
  then have r: "throttle_step\<^sup>*\<^sup>* ?th0 ?th2" by (meson r_into_rtranclp rtranclp_trans)
  have "th_result th' = None" if "throttle_step\<^sup>*\<^sup>* ?th2 th'" for th'
    by (rule two_failures_jam_throttle [OF r _ _ _ _ that]) (simp_all add: Throttle_new_def)
  with r show ?thesis by blast
qed

section \<open>What is opened\<close>

lemma await_tasks_nth: "await_tasks rs = Inr xs \<Longrightarrow> length xs = length rs \<and> (\<forall>i < length rs. rs ! i = Inr (xs ! i))"
proof (induction rs arbitrary: xs)
  case (Cons r rs)
  then show ?case by (auto simp: and_then_Inr nth_Cons split: nat.split)
qed simp

lemma await_tables_set: "await_tables rs = Inr ts \<Longrightarrow> set ts = {t. Inr (Some t) \<in> set rs}"
  by (induction rs arbitrary: ts) (auto simp: and_then_Inr split: sum.splits option.splits)

lemma await_tables_ok: "await_tables rs = Inr ts \<Longrightarrow> r \<in> set rs \<Longrightarrow> \<exists>x. r = Inr x"
  by (induction rs arbitrary: ts) (auto simp: and_then_Inr split: sum.splits)

lemma table_open_id: "table_open te config tid f cipher = Inr t \<Longrightarrow> tl_table_id t = tid"
  by (auto simp: table_open_def and_then_Inr Let_def split: if_splits prod.splits)

lemma opened_Some: "opened r = Inr (Some t) \<longleftrightarrow> r = Inr t"
  by (simp add: opened_def split: sum.split)

lemma open_table_id: "open_table te page config kr disk e = Inr (Some t) \<Longrightarrow> tl_table_id t = fst e"
  by (cases e) (auto simp: open_table_def and_then_Inr Let_def opened_Some dest: table_open_id split: option.splits)

lemma init_handlers_nth:
  "init_handlers l tss = Inr lhs \<Longrightarrow> length lhs = length tss \<and>
     (\<forall>i < length tss. \<exists>l'. lhs ! i = init_tables (tss ! i) (LevelHandler_new l') \<and> (i = 0 \<longrightarrow> l' = l))"
proof (induction l tss arbitrary: lhs rule: init_handlers.induct)
  case (2 l tables rest)
  then obtain l' lhs' where r: "Level_add l 1 = Inr l'" "init_handlers l' rest = Inr lhs'" "lhs = init_tables tables (LevelHandler_new l) # lhs'"
    by (auto simp: and_then_Inr)
  from "2.IH" [OF r(1,2)] show ?case by (auto simp: r(3) nth_Cons split: nat.split)
qed simp

lemma max_file_id: "i \<in> fst ` set ts \<Longrightarrow> i \<le> fold (\<lambda>(i, _) m. max m i) ts m0" "m0 \<le> fold (\<lambda>(i, _) m. max m i) ts (m0 :: u32)"
proof -
  show m: "m0 \<le> fold (\<lambda>(i, _) m. max m i) ts (m0 :: u32)" for ts m0
    by (induction ts arbitrary: m0) (auto intro: order_trans [OF max.cobounded1])
  show "i \<in> fst ` set ts \<Longrightarrow> i \<le> fold (\<lambda>(i, _) m. max m i) ts m0"
  proof (induction ts arbitrary: m0)
    case (Cons x ts)
    then show ?case using order_trans [OF _ m, of i "max m0 (fst x)" ts] by (auto simp: case_prod_unfold)
  qed simp
qed

text \<open>What a successful \<open>build\<close> gives, level by level.\<close>

lemma build_levels:
  assumes "LevelsController_build te page g config mf kr disk = Inr lc"
  shows "lc_manifest lc = mf" "length (lc_levels lc) = unat (lg_max_level g)" "lc_config lc = g"
    "l < length (lc_levels lc) \<Longrightarrow> set (lh_tables (lc_levels lc ! l)) =
      {t. \<exists>e \<in> set (mi_tables (mf_info mf)). task_level (lg_max_level g) (snd e) = l \<and> open_table te page config kr disk e = Inr (Some t)}"
    "0 < length (lc_levels lc) \<Longrightarrow> lh_level (lc_levels lc ! 0) = LEVEL0"
    "i \<in> fst ` set (mi_tables (mf_info mf)) \<Longrightarrow> i < lc_next_file_id lc"
    "controller_validate lc = Inr ()"
    "e \<in> set (mi_tables (mf_info mf)) \<Longrightarrow> \<exists>x. open_table te page config kr disk e = Inr x"
proof -
  let ?tasks = "map (\<lambda>e. (task_level (lg_max_level g) (snd e), open_table te page config kr disk e)) (mi_tables (mf_info mf))"
  let ?max = "fold (\<lambda>(i, _) m. max m i) (mi_tables (mf_info mf)) 0"
  obtain mx lts levels where o: "open_tables_by_manifest te page g config (mf_info mf) kr disk = Inr (mx, lts)"
    and h: "init_handlers LEVEL0 lts = Inr levels" and n: "add_checked mx 1 = Inr (lc_next_file_id lc)"
    and lc: "lc_levels lc = levels" "lc_manifest lc = mf" "lc_config lc = g" "controller_validate lc = Inr ()"
    using assms by (auto simp: LevelsController_build_def and_then_Inr Let_def split: if_splits)
  show "lc_manifest lc = mf" "lc_config lc = g" "controller_validate lc = Inr ()" by (fact lc)+
  have a: "await_tasks (map (\<lambda>l. await_tables (map snd (filter (\<lambda>t. fst t = l) ?tasks))) [0 ..< unat (lg_max_level g)]) = Inr lts"
    and mx: "mx = ?max" and nz: "mi_tables (mf_info mf) \<noteq> [] \<Longrightarrow> lg_max_level g \<noteq> 0"
    using o by (auto simp: open_tables_by_manifest_def and_then_Inr Let_def split: if_splits option.splits)
  note lts = await_tasks_nth [OF a] and hs = init_handlers_nth [OF h]
  show len: "length (lc_levels lc) = unat (lg_max_level g)" using lts hs lc(1) by simp
  show "0 < length (lc_levels lc) \<Longrightarrow> lh_level (lc_levels lc ! 0) = LEVEL0"
    using hs lc(1) by (fastforce simp: init_tables_def LevelHandler_new_def)
  show "i \<in> fst ` set (mi_tables (mf_info mf)) \<Longrightarrow> i < lc_next_file_id lc"
    using max_file_id(1) [of i "mi_tables (mf_info mf)" 0] n word_incr_less [of mx mx]
    by (auto simp: mx [symmetric] add_one_checked)
  show "\<exists>x. open_table te page config kr disk e = Inr x" if e: "e \<in> set (mi_tables (mf_info mf))"
  proof -
    let ?l = "task_level (lg_max_level g) (snd e)"
    have "mi_tables (mf_info mf) \<noteq> []" using e by auto
    then have "0 < unat (lg_max_level g)" using nz by (simp add: unat_gt_0)
    then have "?l < unat (lg_max_level g)" by (auto simp: task_level_def word_less_nat_alt)
    then have "await_tables (map snd (filter (\<lambda>t. fst t = ?l) ?tasks)) = Inr (lts ! ?l)" using lts by simp
    from await_tables_ok [OF this, of "open_table te page config kr disk e"] e show ?thesis by force
  qed
  show "set (lh_tables (lc_levels lc ! l)) =
      {t. \<exists>e \<in> set (mi_tables (mf_info mf)). task_level (lg_max_level g) (snd e) = l \<and> open_table te page config kr disk e = Inr (Some t)}"
    if l: "l < length (lc_levels lc)"
  proof -
    have "await_tables (map snd (filter (\<lambda>t. fst t = l) ?tasks)) = Inr (lts ! l)" using lts l len by simp
    from await_tables_set [OF this]
    have "set (lts ! l) = {t. \<exists>e \<in> set (mi_tables (mf_info mf)). task_level (lg_max_level g) (snd e) = l \<and> open_table te page config kr disk e = Inr (Some t)}"
      by (force simp: image_iff)
    moreover obtain l' where "lc_levels lc ! l = init_tables (lts ! l) (LevelHandler_new l')" using hs l lc(1) by auto
    then have "set (lh_tables (lc_levels lc ! l)) = set (lts ! l)" by (metis init_tables_facts(1) set_mset_mset)
    ultimately show ?thesis by simp
  qed
qed

lemma task_level_below: "tm_level tm < g \<Longrightarrow> task_level g tm = unat (tm_level tm)"
  by (simp add: task_level_def)

text \<open>
  When \<open>build\<close> succeeds, every table of the manifest is at a level that there is and none was left out for
  its checksum, then the catalogue and the levels agree and the next file number is not in use.
\<close>

lemma build_agrees:
  assumes b: "LevelsController_build te page g config mf kr disk = Inr lc" and ok: "manifest_ok (mf_info mf)"
    and e: "\<forall>e \<in> set (mi_tables (mf_info mf)). tm_level (snd e) < lg_max_level g \<and> open_table te page config kr disk e \<noteq> Inr None"
  shows "levels_agree lc \<and> catalog (mf_info (lc_manifest lc)) (lc_next_file_id lc) = None \<and> controller_validate lc = Inr ()"
proof -
  note bl = build_levels [OF b]
  let ?ts = "mi_tables (mf_info mf)"
  have "\<exists>t. open_table te page config kr disk x = Inr (Some t) \<and> tl_table_id t = fst x" if x: "x \<in> set ?ts" for x
    using bl(8) [OF x] e x open_table_id [of te page config kr disk x] by (metis not_None_eq)
  note opens = this
  have ids: "i \<in> level_ids lc l \<longleftrightarrow> (\<exists>x \<in> set ?ts. fst x = i \<and> task_level (lg_max_level g) (snd x) = l)"
    if l: "l < length (lc_levels lc)" for i l
  proof
    assume "i \<in> level_ids lc l"
    then obtain t x where "x \<in> set ?ts" "task_level (lg_max_level g) (snd x) = l" "open_table te page config kr disk x = Inr (Some t)" "i = tl_table_id t"
      unfolding bl(4) [OF l] by blast
    then show "\<exists>x \<in> set ?ts. fst x = i \<and> task_level (lg_max_level g) (snd x) = l" by (auto dest!: open_table_id)
  next
    assume "\<exists>x \<in> set ?ts. fst x = i \<and> task_level (lg_max_level g) (snd x) = l"
    then show "i \<in> level_ids lc l" unfolding bl(4) [OF l] using opens by (metis (mono_tags, lifting) image_eqI mem_Collect_eq)
  qed
  have "(\<exists>tm. catalog (mf_info mf) i = Some tm \<and> unat (tm_level tm) = l) \<longleftrightarrow> l < length (lc_levels lc) \<and> i \<in> level_ids lc l" for i l
  proof -
    have d: "distinct (map fst ?ts)" using ok by (simp add: manifest_ok_def)
    have "(\<exists>tm. catalog (mf_info mf) i = Some tm \<and> unat (tm_level tm) = l) \<longleftrightarrow> (\<exists>x \<in> set ?ts. fst x = i \<and> unat (tm_level (snd x)) = l)"
      unfolding catalog_def map_of_eq_Some_iff [OF d] by force
    also have "\<dots> \<longleftrightarrow> l < length (lc_levels lc) \<and> (\<exists>x \<in> set ?ts. fst x = i \<and> task_level (lg_max_level g) (snd x) = l)"
      unfolding bl(2) using e task_level_below by (auto simp: word_less_nat_alt)
    also have "\<dots> \<longleftrightarrow> l < length (lc_levels lc) \<and> i \<in> level_ids lc l" using ids by blast
    finally show ?thesis .
  qed
  moreover have "catalog (mf_info mf) (lc_next_file_id lc) = None"
    using bl(6) [of "lc_next_file_id lc"] by (auto simp: catalog_def map_of_eq_None_iff)
  ultimately show ?thesis using bl(1,7) by (simp add: levels_agree_def)
qed

section \<open>Restart\<close>

text \<open>Every table of the levels is what opening its file gives.\<close>

definition on_disk :: "table_env \<Rightarrow> nat \<Rightarrow> table_config \<Rightarrow> key_registry \<Rightarrow> (u32 \<rightharpoonup> bytes) \<Rightarrow> levels_controller \<Rightarrow> bool" where
  "on_disk te page config kr disk lc \<longleftrightarrow> (\<forall>l < length (lc_levels lc). \<forall>t \<in> set (lh_tables (lc_levels lc ! l)).
     \<exists>tm. catalog (mf_info (lc_manifest lc)) (tl_table_id t) = Some tm \<and> open_table te page config kr disk (tl_table_id t, tm) = Inr (Some t))"

text \<open>A table that was just built is.\<close>

lemma built_table_reopens:
  assumes "tb_build te page tid tb = Inr t" "tb_done te tb = Inr (td, tb')" "disk tid = Some (read_all td)"
    "get_cipher (tm_keyid tm) kr = Inr (tb_cipher tb)" "tb_config tb = config\<lparr>tg_compression := tm_compression tm\<rparr>"
  shows "open_table te page config kr disk (tid, tm) = Inr (Some t)"
proof -
  have "(fst (MmapFile_open page [] (td_size td)))\<lparr>mm_raw := read_all td\<rparr> = fst (MmapFile_open page (read_all td) 0)"
    by (simp add: MmapFile_open_def Let_def)
  moreover have "table_open te (tb_config tb') tid ((fst (MmapFile_open page [] (td_size td)))\<lparr>mm_raw := read_all td\<rparr>) (tb_cipher tb') = Inr t"
    using assms(1,2) by (auto simp: tb_build_def split: if_splits)
  ultimately show ?thesis using tb_done_keeps [OF assms(2)] assms(3-5) by (simp add: open_table_def opened_def Let_def)
qed

lemma agree_entry:
  assumes "levels_agree lc" "manifest_ok (mf_info (lc_manifest lc))" "e \<in> set (mi_tables (mf_info (lc_manifest lc)))"
  shows "catalog (mf_info (lc_manifest lc)) (fst e) = Some (snd e)" "unat (tm_level (snd e)) < length (lc_levels lc)"
    "fst e \<in> level_ids lc (unat (tm_level (snd e)))"
proof -
  show c: "catalog (mf_info (lc_manifest lc)) (fst e) = Some (snd e)" using assms(2,3) by (simp add: catalog_def manifest_ok_def)
  then have "unat (tm_level (snd e)) < length (lc_levels lc) \<and> fst e \<in> level_ids lc (unat (tm_level (snd e)))"
    using assms(1) unfolding levels_agree_def by blast
  then show "unat (tm_level (snd e)) < length (lc_levels lc)" "fst e \<in> level_ids lc (unat (tm_level (snd e)))" by simp_all
qed

lemma on_disk_entry:
  assumes "levels_agree lc" "manifest_ok (mf_info (lc_manifest lc))" "on_disk te page config kr disk lc"
    "e \<in> set (mi_tables (mf_info (lc_manifest lc)))"
  shows "\<exists>t \<in> set (lh_tables (lc_levels lc ! unat (tm_level (snd e)))). open_table te page config kr disk e = Inr (Some t) \<and> tl_table_id t = fst e"
proof -
  note a = agree_entry [OF assms(1,2,4)]
  obtain t where t: "t \<in> set (lh_tables (lc_levels lc ! unat (tm_level (snd e))))" "tl_table_id t = fst e" using a(3) by auto
  then obtain tm where "catalog (mf_info (lc_manifest lc)) (fst e) = Some tm" "open_table te page config kr disk (fst e, tm) = Inr (Some t)"
    using assms(3) a(2) unfolding on_disk_def by metis
  with a(1) t show ?thesis by auto
qed

text \<open>C8: A restart restores the levels. When the manifest's file is up to date, the levels and the manifest agree and every
  table is on disk, then opening the manifest and building the controller from it gives, if it succeeds, the
  same tables at every level, in agreement with the manifest, in order without overlap below level 0, and a file number that is not in use.\<close>

theorem restart_restores_tables:
  assumes lc: "in_sync me (lc_manifest lc)" "mf_threshold (lc_manifest lc) = DELETIONS_REWRITE_THRESHOLD" "manifest_ok (mf_info (lc_manifest lc))"
    "levels_agree lc" "on_disk te page config kr disk lc" "length (lc_levels lc) = unat (lg_max_level g)"
    and re: "manifest_open me (mf_ext (lc_manifest lc)) read_only (Some (mf_file (lc_manifest lc))) = Inr mf"
    "LevelsController_build te page g config mf kr disk = Inr lc'"
  shows "length (lc_levels lc') = length (lc_levels lc) \<and>
    (\<forall>l < length (lc_levels lc). set (lh_tables (lc_levels lc' ! l)) = set (lh_tables (lc_levels lc ! l))) \<and>
    levels_agree lc' \<and> controller_validate lc' = Inr () \<and> catalog (mf_info (lc_manifest lc')) (lc_next_file_id lc') = None"
proof -
  have mf: "mf = lc_manifest lc" using in_sync_reopen [OF lc(1,2)] re(1) by simp
  note e = on_disk_entry [OF lc(4,3,5)] and a = agree_entry [OF lc(4,3)] and bl = build_levels [OF re(2)]
  let ?ts = "mi_tables (mf_info mf)"
  have below: "tm_level (snd x) < lg_max_level g" if "x \<in> set ?ts" for x
    using a(2) [of x] that lc(6) mf by (simp add: word_less_nat_alt)
  have "set (lh_tables (lc_levels lc' ! l)) = set (lh_tables (lc_levels lc ! l))" if l: "l < length (lc_levels lc)" for l
  proof -
    have l': "l < length (lc_levels lc')" using l lc(6) bl(2) by simp
    show ?thesis
    proof (intro equalityI subsetI)
      fix t assume "t \<in> set (lh_tables (lc_levels lc' ! l))"
      then obtain x where x: "x \<in> set ?ts" "task_level (lg_max_level g) (snd x) = l" "open_table te page config kr disk x = Inr (Some t)"
        unfolding bl(4) [OF l'] by blast
      then have "unat (tm_level (snd x)) = l" using below task_level_below by metis
      with e [of x] x mf show "t \<in> set (lh_tables (lc_levels lc ! l))" by auto
    next
      fix t assume t: "t \<in> set (lh_tables (lc_levels lc ! l))"
      then obtain tm where tm: "catalog (mf_info mf) (tl_table_id t) = Some tm" "open_table te page config kr disk (tl_table_id t, tm) = Inr (Some t)"
        using lc(5) l unfolding on_disk_def mf by metis
      have "\<exists>tm'. catalog (mf_info mf) (tl_table_id t) = Some tm' \<and> unat (tm_level tm') = l"
        using lc(4) l t unfolding levels_agree_def mf by blast
      then have "unat (tm_level tm) = l" using tm(1) by simp
      moreover have "(tl_table_id t, tm) \<in> set ?ts" using tm(1) by (simp add: catalog_def map_of_SomeD)
      moreover from this below [of "(tl_table_id t, tm)"] have "task_level (lg_max_level g) tm = unat (tm_level tm)"
        by (simp add: task_level_below)
      ultimately show "t \<in> set (lh_tables (lc_levels lc' ! l))"
        unfolding bl(4) [OF l'] mem_Collect_eq using tm(2) by (intro bexI [of _ "(tl_table_id t, tm)"]) simp_all
    qed
  qed
  moreover have "levels_agree lc' \<and> catalog (mf_info (lc_manifest lc')) (lc_next_file_id lc') = None \<and> controller_validate lc' = Inr ()"
    using e below lc(3) mf by (intro build_agrees [OF re(2)]) (simp, fastforce)
  ultimately show ?thesis using bl(2) lc(6) by simp
qed

section \<open>An instance\<close>

text \<open>One table at level 0, the one a flush of \<open>Flush\<close> builds.\<close>

lemma flush_built: "\<exists>t td tb'. tb_build demo_te 4096 9 flush_tb = Inr t \<and> tb_done demo_te flush_tb = Inr (td, tb')"
proof -
  obtain sk where sk: "mem_inv sk (map (enc_kv leb_enc) flush_kts)" using flush_memory by blast
  have te: "te_enc demo_te = leb_enc" "te_dec demo_te = leb_dec" by (simp_all add: demo_te_def)
  have "flushable demo_te flush_kts"
    by (simp add: flushable_def flush_kts_def KeyTs_len_def run_size_def te ValueMeta_serialize_def ValueMeta_default_def leb_enc_def
        leb.simps vptr_len_of_def meta_contains_def VALUE_POINTER_def)
  have b: "build_l0_table demo_te 9 sk [] demo_tc None = Some (Inr flush_tb)"
    using build_l0_table_spec [of sk demo_te flush_kts 9] sk leb_laws flush_pushed te by (simp add: flush_kts_def)
  have small: "length (read_all td) < 2 ^ 32"
    if "build_l0_table demo_te 9 sk [] demo_tc None = Some (Inr tb)" "tb_done demo_te tb = Inr (td, tb')" for tb td tb'
    using that b flush_done by simp
  have n: "length flush_kts < 9" by (simp add: flush_kts_def)
  obtain tb t where "build_l0_table demo_te 9 sk [] demo_tc None = Some (Inr tb)" "tb_build demo_te 4096 9 tb = Inr t"
    by (rule flush_table [OF demo_te_laws sk [folded te(1)] \<open>flushable demo_te flush_kts\<close> n demo_kts_facts(5) small])
  then have t: "tb_build demo_te 4096 9 flush_tb = Inr t" using b by simp
  then obtain td tb' where "tb_done demo_te flush_tb = Inr (td, tb')" by (auto simp: tb_build_def and_then_Inr)
  with t show ?thesis by blast
qed

definition demo_nine :: table_manifest where "demo_nine = \<lparr>tm_level = 0, tm_keyid = 0, tm_compression = No_compression\<rparr>"

theorem restart_restores_tables_witness:
  "\<exists>t mf disk lc'. manifest_open demo_me 5 False (Some (mf_file mf)) = Inr mf \<and>
     LevelsController_build demo_te 4096 demo_config demo_tc mf demo_registry disk = Inr lc' \<and>
     set (lh_tables (lc_levels lc' ! 0)) = {t} \<and> levels_agree lc'"
proof -
  obtain t td tb' where t: "tb_build demo_te 4096 9 flush_tb = Inr t" "tb_done demo_te flush_tb = Inr (td, tb')" using flush_built by blast
  define disk where "disk = [9 :: u32 \<mapsto> read_all td]"
  define r where "r = push_changes demo_me [new_create 9 0 0 No_compression] demo_mf0"
  have fr: "fst r = Inr ()" by (simp add: r_def demo_mf0_def push_changes_def apply_manifest_change_def change_op_def new_create_def
      ManifestInfo_default_def Let_def DELETIONS_REWRITE_THRESHOLD_def)
  define mf where "mf = snd r"
  have push: "push_changes demo_me [new_create 9 0 0 No_compression] demo_mf0 = (Inr (), mf)" using fr by (metis r_def mf_def prod.collapse)
  have ts: "mi_tables (mf_info mf) = [(9, demo_nine)]"
    by (simp add: mf_def r_def demo_mf0_def push_changes_def apply_manifest_change_def change_op_def new_create_def
      ManifestInfo_default_def Let_def DELETIONS_REWRITE_THRESHOLD_def table_of_change_def demo_nine_def)
  have "in_sync demo_me demo_mf0" "mf_threshold demo_mf0 = DELETIONS_REWRITE_THRESHOLD" "mf_ext demo_mf0 = 5" "mi_deletions (mf_info demo_mf0) = 0"
    using in_sync_new [OF demo_me_laws _ demo_open] by (simp_all add: demo_me_def demo_mf0_def ManifestInfo_default_def)
  note sync = push_appends [OF demo_me_laws this(1) _ push] and this
  have s: "in_sync demo_me mf" "mf_ext mf = 5" "mf_threshold mf = DELETIONS_REWRITE_THRESHOLD"
    using sync \<open>mf_threshold demo_mf0 = _\<close> \<open>mf_ext demo_mf0 = 5\<close> \<open>mi_deletions (mf_info demo_mf0) = 0\<close>
    by (simp_all add: demo_me_def change_op_def new_create_def)
  have o: "open_table demo_te 4096 demo_tc demo_registry disk (9, demo_nine) = Inr (Some t)"
    by (rule built_table_reopens [OF t]) (simp_all add: disk_def get_cipher_def get_data_key_def demo_nine_def flush_tb_def demo_tc_def TableConfig_default_def)
  have "\<exists>lc'. LevelsController_build demo_te 4096 demo_config demo_tc mf demo_registry disk = Inr lc'"
    using ts o by (simp add: LevelsController_build_def open_tables_by_manifest_def revert_to_manifest_def disk_def demo_config_def
        LevelsControllerConfig_default_def task_level_def demo_nine_def upt_rec Level_add_def add_checked_def LEVEL0_def controller_validate_def
        validate_level_def init_tables_def LevelHandler_new_def Let_def)
  then obtain lc' where lc': "LevelsController_build demo_te 4096 demo_config demo_tc mf demo_registry disk = Inr lc'" by blast
  define lc where "lc = demo_lc\<lparr>lc_manifest := mf, lc_levels := [init_tables [t] (LevelHandler_new 0), LevelHandler_new 1, LevelHandler_new 2]\<rparr>"
  have id: "tl_table_id t = 9" using open_table_id [OF o] by simp
  have lv: "l < 3 \<Longrightarrow> set (lh_tables (lc_levels lc ! l)) = (if l = 0 then {t} else {})" for l
    by (cases l; cases "l - 1"; cases "l - 2") (auto simp: lc_def init_tables_def LevelHandler_new_def nth_Cons split: nat.split)
  have len: "length (lc_levels lc) = 3" and lm: "lc_manifest lc = mf" by (simp_all add: lc_def)
  have "l < length (lc_levels lc) \<and> i \<in> level_ids lc l \<longleftrightarrow> l = 0 \<and> i = 9" for i l
    using lv [of l] id by (cases "l < 3"; cases "l = 0") (auto simp: len)
  moreover have "(\<exists>tm. catalog (mf_info mf) i = Some tm \<and> unat (tm_level tm) = l) \<longleftrightarrow> l = 0 \<and> i = 9" for i l
    using ts by (auto simp: catalog_def demo_nine_def)
  ultimately have agree: "levels_agree lc" unfolding levels_agree_def lm by simp
  have disk: "on_disk demo_te 4096 demo_tc demo_registry disk lc"
    unfolding on_disk_def len lm using lv ts id o by (auto simp: catalog_def split: if_splits)
  have ok: "manifest_ok (mf_info mf)" by (rule manifest_open_ok [OF in_sync_reopen [OF s(1,3), of False]])
  have re: "manifest_open demo_me (mf_ext (lc_manifest lc)) False (Some (mf_file (lc_manifest lc))) = Inr mf"
    using in_sync_reopen [OF s(1,3), of False] by (simp add: lc_def)
  have "length (lc_levels lc') = length (lc_levels lc) \<and>
    (\<forall>l < length (lc_levels lc). set (lh_tables (lc_levels lc' ! l)) = set (lh_tables (lc_levels lc ! l))) \<and>
    levels_agree lc' \<and> controller_validate lc' = Inr () \<and> catalog (mf_info (lc_manifest lc')) (lc_next_file_id lc') = None"
    by (rule restart_restores_tables [OF _ _ _ agree disk _ re lc']) (use s ok in \<open>simp_all add: lc_def demo_config_def LevelsControllerConfig_default_def\<close>)
  then have "set (lh_tables (lc_levels lc' ! 0)) = {t}" "levels_agree lc'" using lv [of 0] len by auto
  with re lc' s(2) show ?thesis by (auto simp: lc_def)
qed

end
