(* ===== verification/Compactor.thy ===== *)
theory Compactor
  imports Compact "HOL-Library.Multiset"
begin

text \<open>
  The compaction tasks (\<open>src/src/level/compaction.rs\<close>: \<open>spawn_compact\<close>, \<open>pre_compact\<close>, \<open>pick_compact_levels\<close>,
  \<open>start_compact\<close>, \<open>compact\<close>): on every tick a task scores the levels and tries them from the most urgent one down until
  a compaction succeeds. Scores are floating point numbers; their type is a parameter, its operations are those of
  \<open>pick_env\<close>. The wait before the first tick and the end of a task by its closer do not touch the state.
\<close>

section \<open>Scores\<close>

record 'f scored_priority =
  sp_level :: level
  sp_score :: 'f
  sp_adjusted :: 'f
  sp_drop_prefixes :: "bytes list"
  sp_targets :: compact_targets

text \<open>The conversion \<open>as f64\<close>, the division, \<open>partial_cmp\<close>, the constant 0.01, and \<open>sort_unstable_by\<close>, which leaves open
  the order of what compares equal.\<close>

record 'f pick_env =
  pe_of_usize :: "nat \<Rightarrow> 'f"
  pe_div :: "'f \<Rightarrow> 'f \<Rightarrow> 'f"
  pe_cmp :: "'f \<Rightarrow> 'f \<Rightarrow> ordering option"
  pe_min_score :: 'f
  pe_sort :: "('f scored_priority \<Rightarrow> 'f scored_priority \<Rightarrow> ordering) \<Rightarrow> 'f scored_priority list \<Rightarrow> 'f scored_priority list"

definition float_ge :: "'f pick_env \<Rightarrow> 'f \<Rightarrow> 'f \<Rightarrow> bool" where
  "float_ge pe a b \<longleftrightarrow> pe_cmp pe a b = Some Greater \<or> pe_cmp pe a b = Some Equal"

definition float_less :: "'f pick_env \<Rightarrow> 'f \<Rightarrow> 'f \<Rightarrow> bool" where
  "float_less pe a b \<longleftrightarrow> pe_cmp pe a b = Some ordering.Less"

text \<open>What a plan reads of a priority.\<close>

definition priority_of :: "'f pick_env \<Rightarrow> 'f scored_priority \<Rightarrow> compact_priority" where
  "priority_of pe sp = \<lparr>cp_level = sp_level sp,
     cp_adjusted_low = (float_less pe (pe_of_usize pe 0) (sp_adjusted sp) \<and> float_less pe (sp_adjusted sp) (pe_of_usize pe 1)),
     cp_drop_prefixes = sp_drop_prefixes sp, cp_targets = sp_targets sp\<rparr>"

definition push_priority :: "compact_targets \<Rightarrow> level \<Rightarrow> 'f \<Rightarrow> 'f scored_priority" where
  "push_priority targets l score = \<lparr>sp_level = l, sp_score = score, sp_adjusted = score, sp_drop_prefixes = [], sp_targets = targets\<rparr>"

definition status_del_size :: "compact_status \<Rightarrow> nat \<Rightarrow> int outcome" where
  "status_del_size cs l = and_then (index (cs_levels cs) l) (\<lambda>ls. Inr (ls_del_size ls))"

text \<open>\<open>as usize\<close> of the signed counter.\<close>

definition level_score :: "'f pick_env \<Rightarrow> levels_controller \<Rightarrow> compact_targets \<Rightarrow> nat \<Rightarrow> 'f outcome" where
  "level_score pe lc targets i =
     (if i = 0 then and_then (index (lc_levels lc) 0) (\<lambda>lh.
        Inr (pe_div pe (pe_of_usize pe (length (lh_tables lh))) (pe_of_usize pe (lg_num_level_zero_tables (lc_config lc)))))
      else and_then (index (lc_levels lc) i) (\<lambda>lh.
        and_then (status_del_size (lc_status lc) i) (\<lambda>del.
        and_then (sub_usize (lh_total_size lh) (unat (word_of_int del :: u64))) (\<lambda>sz.
        and_then (index (ct_target_size targets) i) (\<lambda>tsz.
        Inr (pe_div pe (pe_of_usize pe sz) (pe_of_usize pe tsz)))))))"

fun score_levels :: "'f pick_env \<Rightarrow> levels_controller \<Rightarrow> compact_targets \<Rightarrow> nat list \<Rightarrow> 'f scored_priority list outcome" where
  "score_levels pe lc targets [] = Inr []"
| "score_levels pe lc targets (i # is) =
     and_then (level_score pe lc targets i) (\<lambda>score.
     and_then (score_levels pe lc targets is) (\<lambda>prios. Inr (push_priority targets (word_of_nat i) score # prios)))"

text \<open>A level is less urgent the more urgent the level it goes to is. \<open>pre_level\<close> is 0 or the level before.\<close>

definition adjust_level :: "'f pick_env \<Rightarrow> nat \<Rightarrow> nat \<times> 'f scored_priority list \<Rightarrow> nat \<times> 'f scored_priority list" where
  "adjust_level pe l s = (case s of (pre_level, prios) \<Rightarrow>
     let p = prios ! pre_level; q = prios ! l in
     (l, if float_ge pe (sp_adjusted p) (pe_of_usize pe 1)
         then prios[pre_level := p\<lparr>sp_adjusted := pe_div pe (sp_adjusted p)
                (if float_ge pe (sp_score q) (pe_min_score pe) then sp_adjusted q else pe_min_score pe)\<rparr>]
         else prios))"

definition more_urgent :: "'f pick_env \<Rightarrow> 'f scored_priority \<Rightarrow> 'f scored_priority \<Rightarrow> ordering" where
  "more_urgent pe a b = (case pe_cmp pe (sp_adjusted b) (sp_adjusted a) of Some c \<Rightarrow> c | None \<Rightarrow> Greater)"

definition pick_compact_levels :: "'f pick_env \<Rightarrow> levels_controller \<Rightarrow> 'f scored_priority list outcome" where
  "pick_compact_levels pe lc =
     and_then (level_targets lc) (\<lambda>targets.
     let n = length (lc_levels lc) in
     and_then (score_levels pe lc targets (0 # [1 ..< n])) (\<lambda>prios.
     if length prios \<noteq> n then Inl Panic
     else
       let prios = snd (fold (adjust_level pe) [unat (ct_base_level targets) ..< n] (0, prios));
           prios = filter (\<lambda>p. float_ge pe (sp_score p) (pe_of_usize pe 1)) (take (length prios - 1) prios)
       in Inr (pe_sort pe (more_urgent pe) prios)))"

definition move_l0_to_front :: "'f scored_priority list \<Rightarrow> 'f scored_priority list" where
  "move_l0_to_front prios =
     (let before = takeWhile (\<lambda>p. sp_level p \<noteq> LEVEL0) prios; rest = dropWhile (\<lambda>p. sp_level p \<noteq> LEVEL0) prios in
      case rest of [] \<Rightarrow> prios | p # ps \<Rightarrow> if before = [] then prios else p # before @ ps)"

section \<open>Compactions\<close>

text \<open>The clock and the creation times of the tables, as in \<open>Plan\<close>, and what \<open>Compact\<close> is given.\<close>

record tick_env =
  ke_ce :: compact_env
  ke_now :: nat
  ke_created :: "u32 \<Rightarrow> nat"
  ke_config :: table_config
  ke_discard_ts :: u64

text \<open>\<open>compact\<close>: the claims of a plan stay in the status whether it can be run or not. \<open>None\<close>: it does not return.\<close>

definition compact_level ::
  "tick_env \<Rightarrow> nat \<Rightarrow> nat \<Rightarrow> compact_priority \<Rightarrow> compact_context \<Rightarrow> (unit outcome \<times> compact_context) option" where
  "compact_level ke n task_id priority cc =
     (case prepare_compact (ke_discard_ts ke) (ke_now ke) (ke_created ke) task_id priority (cc_controller cc) of
        Inl f \<Rightarrow> Some (Inl f, cc)
      | Inr (pl, cs) \<Rightarrow>
          let cc = cc\<lparr>cc_controller := (cc_controller cc)\<lparr>lc_status := cs\<rparr>\<rparr> in
          (case run_compact (ke_ce ke) n (cp_level priority) pl (ke_config ke) (ke_discard_ts ke) cc of
             None \<Rightarrow> None
           | Some (Inl f) \<Rightarrow> Some (Inl f, cc)
           | Some (Inr cc) \<Rightarrow> Some (Inr (), cc)))"

text \<open>Errors are logged; a panic ends the task.\<close>

definition start_compact ::
  "tick_env \<Rightarrow> nat \<Rightarrow> nat \<Rightarrow> compact_priority \<Rightarrow> compact_context \<Rightarrow> (bool outcome \<times> compact_context) option" where
  "start_compact ke n task_id priority cc =
     map_option (\<lambda>(r, cc). (case r of Inr _ \<Rightarrow> Inr True | Inl Panic \<Rightarrow> Inl Panic | Inl _ \<Rightarrow> Inr False, cc))
       (compact_level ke n task_id priority cc)"

fun try_priorities ::
  "'f pick_env \<Rightarrow> tick_env \<Rightarrow> nat \<Rightarrow> nat \<Rightarrow> 'f scored_priority list \<Rightarrow> compact_context \<Rightarrow> (unit outcome \<times> compact_context) option" where
  "try_priorities pe ke n task_id [] cc = Some (Inr (), cc)"
| "try_priorities pe ke n task_id (p # ps) cc =
     (if float_less pe (sp_adjusted p) (pe_of_usize pe 1) then Some (Inr (), cc)
      else case start_compact ke n task_id (priority_of pe p) cc of
        None \<Rightarrow> None
      | Some (Inl f, cc) \<Rightarrow> Some (Inl f, cc)
      | Some (Inr True, cc) \<Rightarrow> Some (Inr (), cc)
      | Some (Inr False, cc) \<Rightarrow> try_priorities pe ke n task_id ps cc)"

text \<open>One tick of \<open>pre_compact\<close>; the number counts the ticks since the last level was compacted.\<close>

definition pre_compact_tick ::
  "'f pick_env \<Rightarrow> tick_env \<Rightarrow> nat \<Rightarrow> nat \<Rightarrow> nat \<times> compact_context \<Rightarrow> (unit outcome \<times> nat \<times> compact_context) option" where
  "pre_compact_tick pe ke n task_id s = (case s of (ticks, cc) \<Rightarrow>
     let ticks = ticks + 1; lc = cc_controller cc in
     if lg_lmax_compaction (lc_config lc) \<and> task_id = 2 \<and> ticks \<ge> 200 then
       (case and_then (last_level_handler lc) (\<lambda>lh. and_then (level_targets lc) (\<lambda>targets. Inr (lh_level lh, targets))) of
          Inl f \<Rightarrow> Some (Inl f, ticks, cc)
        | Inr (l, targets) \<Rightarrow>
            map_option (\<lambda>(r, cc). (and_then r (\<lambda>_. Inr ()), 0, cc))
              (start_compact ke n task_id (priority_of pe (push_priority targets l (pe_of_usize pe 0))) cc))
     else
       (case pick_compact_levels pe lc of
          Inl f \<Rightarrow> Some (Inl f, ticks, cc)
        | Inr prios \<Rightarrow>
            map_option (\<lambda>(r, cc). (r, ticks, cc))
              (try_priorities pe ke n task_id (if task_id = 0 then move_l0_to_front prios else prios) cc)))"

text \<open>Ticks of any of the tasks, one after another; a task that panicked is gone, the others go on.\<close>

inductive compacted :: "'f pick_env \<Rightarrow> compact_context \<Rightarrow> compact_context \<Rightarrow> bool" for pe where
  refl: "compacted pe cc cc"
| tick: "compacted pe cc cc' \<Longrightarrow> pre_compact_tick pe ke n task_id (ticks, cc') = Some (r, ticks', cc'') \<Longrightarrow> compacted pe cc cc''"

section \<open>Building tables leaves the levels alone\<close>

definition same_levels :: "compact_context \<Rightarrow> compact_context \<Rightarrow> bool" where
  "same_levels cc cc' \<longleftrightarrow> lc_levels (cc_controller cc') = lc_levels (cc_controller cc) \<and>
     lc_manifest (cc_controller cc') = lc_manifest (cc_controller cc)"

lemma same_levels_refl [simp]: "same_levels cc cc"
  by (simp add: same_levels_def)

lemma same_levels_trans: "same_levels cc cc1 \<Longrightarrow> same_levels cc1 cc2 \<Longrightarrow> same_levels cc cc2"
  by (simp add: same_levels_def)

lemma sub_compact_loop_same:
  "sub_compact_loop ce n pl config discard_ts kr ov m ac cc = Some (Inr (ts, ac', cc')) \<Longrightarrow> same_levels cc cc'"
proof (induction n arbitrary: m ac cc ts ac' cc')
  case (Suc n)
  from Suc.prems show ?case
    by (auto simp: ok_then_Inr Let_def get_reserve_file_id_def same_levels_def split: if_splits prod.splits dest!: Suc.IH [unfolded same_levels_def])
qed simp

lemma compact_splits_same:
  "compact_splits ce n l pl config discard_ts krs cc = Some (Inr (ts, cc')) \<Longrightarrow> same_levels cc cc'"
proof (induction krs arbitrary: cc ts)
  case (Cons kr krs)
  have sub: "same_levels cc cc'" if "sub_compact ce n pl config discard_ts m kr cc = Some (Inr (us, cc'))" for m us cc'
    using that by (auto simp: sub_compact_def ok_then_Inr same_levels_def split: if_splits dest!: sub_compact_loop_same)
  from Cons.prems show ?case
    by (auto simp: ok_then_Inr split: option.splits dest!: Cons.IH sub intro: same_levels_trans)
qed simp

lemma compact_build_same:
  "compact_build_tables ce n l pl config discard_ts cc = Some (Inr (ts, cc')) \<Longrightarrow> same_levels cc cc'"
  by (auto simp: compact_build_tables_def ok_then_Inr dest!: compact_splits_same)

section \<open>A plan takes its tables from its levels\<close>

definition plan_tables :: "levels_controller \<Rightarrow> compact_plan \<Rightarrow> bool" where
  "plan_tables lc pl \<longleftrightarrow> (\<exists>this nxt. lc_handler lc (pl_this_level pl) = Inr this \<and> lc_handler lc (pl_next_level pl) = Inr nxt \<and>
     set (pl_top pl) \<subseteq> set (lh_tables this) \<and> set (pl_bottom pl) \<subseteq> set (lh_tables nxt))"

lemma tables_in_subset: "tables_in ts lu = Inr us \<Longrightarrow> set us \<subseteq> set ts"
  by (auto simp: tables_in_def subslice_def split: if_splits dest: in_set_takeD in_set_dropD)

text \<open>The plan \<open>pl'\<close> is between the levels of \<open>pl\<close> and has tables of \<open>ts\<close> on top of tables of \<open>us\<close>.\<close>

definition drawn :: "table set \<Rightarrow> table set \<Rightarrow> compact_plan \<Rightarrow> compact_plan \<Rightarrow> bool" where
  "drawn T U pl pl' \<longleftrightarrow> set (pl_top pl') \<subseteq> T \<and> set (pl_bottom pl') \<subseteq> U \<and> pl_this_level pl' = pl_this_level pl \<and> pl_next_level pl' = pl_next_level pl"

lemma drawn_levels: "drawn T U q pl' \<Longrightarrow> T \<subseteq> T' \<Longrightarrow> pl_this_level q = pl_this_level pl \<Longrightarrow> pl_next_level q = pl_next_level pl \<Longrightarrow> drawn T' U pl pl'"
  by (auto simp: drawn_def)

lemma fill_tables_loop_drawn:
  "fill_tables_loop us ts pl cs = Inr (True, pl', cs') \<Longrightarrow> drawn (set ts) (set us) pl pl'"
proof (induction ts arbitrary: pl cs)
  case (Cons t ts)
  let ?r = "KeyTsRange_from_table t"
  let ?pl1 = "pl\<lparr>pl_this_size := tl_table_size t, pl_this_range := ?r\<rparr>"
  have again: "drawn (set (t # ts)) (set us) pl pl'" if "fill_tables_loop us ts q c = Inr (True, pl', cs')"
      "pl_this_level q = pl_this_level pl" "pl_next_level q = pl_next_level pl" for q c
    by (rule drawn_levels [OF Cons.IH [OF that(1)] _ that(2,3)]) auto
  obtain busy where b: "status_overlaps_with cs (pl_this_level pl) ?r = Inr busy"
    using Cons.prems by (auto simp: Let_def and_then_Inr)
  show ?case
  proof (cases busy)
    case True
    with Cons.prems b show ?thesis by (intro again [of ?pl1 cs]) (simp_all add: Let_def)
  next
    case False
    with Cons.prems b obtain bottom where bo: "tables_in us (overlap_tables us ?r) = Inr bottom" by (auto simp: Let_def and_then_Inr)
    let ?pl3 = "?pl1\<lparr>pl_top := [t], pl_bottom := bottom, pl_next_range := (if bottom = [] then ?r else KeyTsRange_from_tables bottom)\<rparr>"
    consider "pl' = ?pl3" | c where "fill_tables_loop us ts ?pl3 c = Inr (True, pl', cs')"
      using Cons.prems b False bo by (cases "bottom = []") (auto simp: Let_def and_then_Inr split: if_splits)
    then show ?thesis
    proof cases
      case 1
      then show ?thesis using tables_in_subset [OF bo] by (simp add: drawn_def)
    next
      case 2
      then show ?thesis by (rule again) simp_all
    qed
  qed
qed simp

lemma collect_bottom_subset:
  "set (pl_bottom (collect_bottom ts sz need pl)) \<subseteq> set (pl_bottom pl) \<union> set ts \<and> pl_top (collect_bottom ts sz need pl) = pl_top pl \<and>
     pl_this_level (collect_bottom ts sz need pl) = pl_this_level pl \<and> pl_next_level (collect_bottom ts sz need pl) = pl_next_level pl"
  by (induction ts sz need pl rule: collect_bottom.induct) (auto simp: Let_def)

lemma fill_max_loop_drawn:
  "fill_max_loop discard_ts now created tables ts pl cs = Inr (True, pl', cs') \<Longrightarrow> set ts \<subseteq> set tables \<Longrightarrow> drawn (set tables) (set tables) pl pl \<Longrightarrow>
     drawn (set tables) (set tables) pl pl'"
proof (induction ts arbitrary: pl cs)
  case Nil
  then show ?case by (auto simp: and_then_Inr split: if_splits)
next
  case (Cons t ts)
  let ?r = "KeyTsRange_from_table t"
  let ?pl1 = "pl\<lparr>pl_this_size := tl_table_size t, pl_this_range := ?r, pl_next_range := ?r\<rparr>"
  let ?pl2 = "?pl1\<lparr>pl_top := [t]\<rparr>"
  have again: "drawn (set tables) (set tables) pl pl'" if "fill_max_loop discard_ts now created tables ts q c = Inr (True, pl', cs')"
      "drawn (set tables) (set tables) pl q" for q c
    using Cons.IH [OF that(1)] Cons.prems(2) that(2) by (auto simp: drawn_def)
  have d1: "drawn (set tables) (set tables) pl ?pl1" "drawn (set tables) (set tables) pl ?pl2" using Cons.prems(2,3) by (simp_all add: drawn_def)
  have cb: "drawn (set tables) (set tables) pl (collect_bottom (drop k tables) sz need ?pl2)" for k sz need
    using collect_bottom_subset [of "drop k tables" sz need ?pl2] d1(2) by (auto simp: drawn_def dest: in_set_dropD)
  have cb': "drawn (set tables) (set tables) pl (collect_bottom (drop k tables) sz need ?pl2\<lparr>pl_bottom := [], pl_next_range := KeyTsRange_default\<rparr>)" for k sz need
    using cb [of k sz need] by (simp add: drawn_def)
  consider q c where "fill_max_loop discard_ts now created tables ts q c = Inr (True, pl', cs')" "q = pl \<or> q = ?pl1"
    | "pl' = ?pl2"
    | k sz need where "pl' = collect_bottom (drop k tables) sz need ?pl2"
    | k sz need c where "fill_max_loop discard_ts now created tables ts
          (collect_bottom (drop k tables) sz need ?pl2\<lparr>pl_bottom := [], pl_next_range := KeyTsRange_default\<rparr>) c = Inr (True, pl', cs')"
    using Cons.prems(1) by (auto simp: Let_def and_then_Inr split: if_splits)
  then show ?case
  proof cases
    case 1
    then show ?thesis using d1(1) Cons.prems(3) by (auto intro: again)
  next
    case 2
    then show ?thesis using d1(2) by simp
  next
    case 3
    then show ?thesis using cb by simp
  next
    case 4
    then show ?thesis using cb' by (rule again)
  qed
qed

lemma connected_tables_subset: "set (fst (connected_tables ts r)) \<subseteq> set ts"
  by (induction ts r rule: connected_tables.induct) (auto simp: Let_def split: prod.splits)

lemma fill_levelbase_tables:
  assumes "fill_tables_level0_to_levelbase lc pl = Inr (True, pl', cs)" shows "plan_tables lc pl'"
proof -
  obtain this nxt where h: "lc_handler lc (pl_this_level pl) = Inr this" "lc_handler lc (pl_next_level pl) = Inr nxt" "lh_tables this \<noteq> []"
    using assms by (auto simp: fill_tables_level0_to_levelbase_def and_then_Inr split: if_splits)
  define s where "s = (if cp_drop_prefixes (pl_priority pl) \<noteq> [] then (lh_tables this, KeyTsRange_from_tables (lh_tables this))
      else connected_tables (lh_tables this) KeyTsRange_default)"
  have "set (fst s) \<subseteq> set (lh_tables this)" unfolding s_def using connected_tables_subset by auto
  moreover obtain bottom where "tables_in (lh_tables nxt) (overlap_tables (lh_tables nxt) (snd s)) = Inr bottom"
    "pl_top pl' = fst s" "pl_bottom pl' = bottom" "pl_this_level pl' = pl_this_level pl" "pl_next_level pl' = pl_next_level pl"
    using assms h by (auto simp: fill_tables_level0_to_levelbase_def and_then_Inr Let_def s_def [symmetric] split: if_splits prod.splits)
  ultimately show ?thesis using h tables_in_subset by (auto simp: plan_tables_def)
qed

lemma level0_candidates_subset: "level0_candidates fs now created held ts = Inr out \<Longrightarrow> set out \<subseteq> set ts"
  by (induction ts arbitrary: out) (auto simp: and_then_Inr split: if_splits)

lemma fill_level0_tables:
  assumes "fill_tables_level0_to_level0 now created lc pl cs = Inr (True, pl', cs')" shows "pl_this_level pl = LEVEL0 \<Longrightarrow> plan_tables lc pl'"
  using assms by (auto simp: fill_tables_level0_to_level0_def plan_tables_def and_then_Inr Let_def split: if_splits dest!: level0_candidates_subset)

lemma fill_tables_tables:
  assumes "fill_tables discard_ts now created lc pl = Inr (True, pl', cs')" "lc_handler lc (pl_next_level pl) = Inr nxt"
    "pl_this_level pl = lg_max_level (lc_config lc) - 1 \<longrightarrow> pl_next_level pl = pl_this_level pl" "pl_top pl = []"
  shows "plan_tables lc pl'"
proof -
  obtain this where th: "lc_handler lc (pl_this_level pl) = Inr this" using assms(1) by (auto simp: fill_tables_def and_then_Inr)
  have "drawn (set (lh_tables this)) (set (lh_tables nxt)) pl pl'"
  proof (cases "pl_this_level pl = lg_max_level (lc_config lc) - 1")
    case True
    then have m: "fill_max_level_tables discard_ts now created lc pl = Inr (True, pl', cs')"
      using assms(1) th by (auto simp: fill_tables_def and_then_Inr level_minus_one_def sub_one_checked split: if_splits)
    let ?ts = "sort_key (\<lambda>t. - int (unat (table_stale_size t))) (lh_tables this)"
    have "fill_max_loop discard_ts now created (lh_tables this) ?ts (pl\<lparr>pl_bottom := []\<rparr>) (lc_status lc) = Inr (True, pl', cs')"
      using m th unfolding fill_max_level_tables_def Let_def
      by (cases "?ts \<noteq> [] \<and> table_stale_size (hd ?ts) = 0") (simp_all only: and_then_simps if_True if_False, simp)
    then have "drawn (set (lh_tables this)) (set (lh_tables this)) (pl\<lparr>pl_bottom := []\<rparr>) pl'"
      by (rule fill_max_loop_drawn) (simp_all add: drawn_def assms(4))
    then show ?thesis using assms(2,3) th True by (simp add: drawn_def)
  next
    case False
    then show ?thesis using assms(1,2) th fill_tables_loop_drawn [of "lh_tables nxt" "sort_key table_max_version (lh_tables this)"]
      by (auto simp: fill_tables_def and_then_Inr level_minus_one_def sub_one_checked split: if_splits)
  qed
  then show ?thesis using th assms(2) by (auto simp: plan_tables_def drawn_def)
qed

lemma plan_fix_tables:
  assumes "plan_fix discard_ts now created lc pl = Inr (pl', cs')" "pl_this_level pl = cp_level (pl_priority pl)"
    "cp_level (pl_priority pl) \<noteq> LEVEL0 \<longrightarrow> pl_next_level pl = pl_this_level pl" "lc_handler lc (pl_next_level pl) = Inr nxt" "pl_top pl = []"
  shows "plan_tables lc pl'"
proof (cases "cp_level (pl_priority pl) = LEVEL0")
  case True
  have keep: "pl_this_level q = pl_this_level pl" if "fill_tables_level0_to_levelbase lc pl = Inr (ok, q, cs)" for ok q cs
    by (rule fill_levelbase_levels [OF that])
  from True assms(1) show ?thesis
    using fill_levelbase_tables fill_level0_tables keep assms(2)
    by (fastforce simp: plan_fix_def fill_tables_level0_def and_then_Inr split: if_splits)
next
  case False
  show ?thesis
  proof (cases "pl_this_level pl = lg_max_level (lc_config lc) - 1")
    case True
    then show ?thesis using assms False
      by (auto simp: plan_fix_def and_then_Inr level_minus_one_def sub_one_checked split: if_splits intro: fill_tables_tables)
  next
    case other: False
    then obtain l lh where f: "fill_tables discard_ts now created lc (pl\<lparr>pl_next_level := l\<rparr>) = Inr (True, pl', cs')" "lc_handler lc l = Inr lh"
      using assms(1,2) False by (auto simp: plan_fix_def and_then_Inr level_minus_one_def sub_one_checked split: if_splits)
    show ?thesis by (rule fill_tables_tables [OF f(1), of lh]) (use f(2) other assms(5) in auto)
  qed
qed

lemma prepared_tables:
  assumes "prepare_compact discard_ts now created task_id priority lc = Inr (pl, cs)" shows "plan_tables lc pl"
proof -
  obtain pr nl nxt where f: "plan_fix discard_ts now created lc (CompactPlan_new task_id pr (cp_level pr) nl) = Inr (pl, cs)"
    and n: "lc_handler lc nl = Inr nxt" "cp_level pr \<noteq> LEVEL0 \<longrightarrow> nl = cp_level pr"
    using assms unfolding prepare_compact_def Let_def
    by (cases "cp_level priority < lg_max_level (lc_config lc)") (simp_all only: and_then_Inr not_True_eq_False not_False_eq_True if_True if_False, auto)
  show ?thesis by (rule plan_fix_tables [OF f]) (use n in \<open>simp_all add: CompactPlan_new_def\<close>)
qed

section \<open>Ticks keep the manifest and the levels in step\<close>

lemma install_agrees:
  assumes "levels_agree lc" "plan_tables lc pl" "install_tables me pl new_tables lc' = Inr lc''"
    "lc_levels lc' = lc_levels lc" "lc_manifest lc' = lc_manifest lc"
  shows "levels_agree lc''"
proof (rule compaction_keeps_levels_agree [OF _ assms(3)])
  show "levels_agree lc'" using assms(1,4,5) by (simp add: levels_agree_def)
  show "tl_table_id ` set (pl_top pl) \<subseteq> level_ids lc' (unat (pl_this_level pl))"
    "tl_table_id ` set (pl_bottom pl) \<subseteq> level_ids lc' (unat (pl_next_level pl))"
    using assms(2,4) by (auto simp: plan_tables_def lc_handler_def index_def split: if_splits)
qed

lemma run_compact_agrees:
  assumes "levels_agree (cc_controller cc)" "plan_tables (cc_controller cc) pl"
    "run_compact ce n l pl config discard_ts cc = Some (Inr cc')"
  shows "levels_agree (cc_controller cc')"
proof -
  define q where "q = (let pl = (if pl_this_level pl \<noteq> pl_next_level pl then add_splits pl else pl)
      in if pl_splits pl = [] then pl\<lparr>pl_splits := [KeyTsRange_default]\<rparr> else pl)"
  have q: "pl_top q = pl_top pl" "pl_bottom q = pl_bottom pl" "pl_this_level q = pl_this_level pl" "pl_next_level q = pl_next_level pl"
    by (simp_all add: q_def Let_def add_splits_def)
  obtain ts cc1 lc where b: "compact_build_tables ce n l q config discard_ts cc = Some (Inr (ts, cc1))"
    and i: "install_tables (ce_me ce) q ts (cc_controller cc1) = Inr lc" "cc' = cc1\<lparr>cc_controller := lc\<rparr>"
    using assms(3) by (auto simp: run_compact_def Let_def ok_then_Inr q_def split: if_splits)
  have "same_levels cc cc1" by (rule compact_build_same [OF b])
  moreover have "plan_tables (cc_controller cc) q" using assms(2) q by (simp add: plan_tables_def)
  ultimately show ?thesis using install_agrees [OF assms(1) _ i(1)] i(2) by (simp add: same_levels_def)
qed

lemma compact_level_agrees:
  assumes "levels_agree (cc_controller cc)" "compact_level ke n task_id priority cc = Some (r, cc')"
  shows "levels_agree (cc_controller cc')"
proof (cases "prepare_compact (ke_discard_ts ke) (ke_now ke) (ke_created ke) task_id priority (cc_controller cc)")
  case (Inr x)
  obtain pl cs where x: "x = (pl, cs)" by (cases x)
  let ?cc = "cc\<lparr>cc_controller := (cc_controller cc)\<lparr>lc_status := cs\<rparr>\<rparr>"
  have "levels_agree (cc_controller ?cc)" using assms(1) by (simp add: levels_agree_def)
  moreover have "plan_tables (cc_controller ?cc) pl" using prepared_tables [OF Inr [unfolded x]] by (simp add: plan_tables_def lc_handler_def)
  moreover have "cc' = ?cc \<or> run_compact (ke_ce ke) n (cp_level priority) pl (ke_config ke) (ke_discard_ts ke) ?cc = Some (Inr cc')"
    using assms(2) Inr x by (auto simp: compact_level_def Let_def split: option.splits sum.splits)
  ultimately show ?thesis using run_compact_agrees by blast
qed (use assms in \<open>auto simp: compact_level_def\<close>)

lemma try_priorities_agrees:
  "levels_agree (cc_controller cc) \<Longrightarrow> try_priorities pe ke n task_id ps cc = Some (r, cc') \<Longrightarrow> levels_agree (cc_controller cc')"
proof (induction ps arbitrary: cc)
  case (Cons p ps)
  have sc: "levels_agree (cc_controller c)" if "start_compact ke n task_id (priority_of pe p) cc = Some (r, c)" for r c
    using that compact_level_agrees [OF Cons.prems(1)] by (auto simp: start_compact_def)
  from Cons.prems show ?case
    by (auto split: if_splits option.splits prod.splits sum.splits bool.splits dest!: sc intro: Cons.IH)
qed simp

lemma tick_agrees:
  "levels_agree (cc_controller cc) \<Longrightarrow> pre_compact_tick pe ke n task_id (ticks, cc) = Some (r, ticks', cc') \<Longrightarrow> levels_agree (cc_controller cc')"
  by (auto simp: pre_compact_tick_def Let_def start_compact_def split: if_splits sum.splits
      dest: compact_level_agrees try_priorities_agrees)

lemma move_l0_mset [simp]: "mset (move_l0_to_front ps) = mset ps"
proof -
  have "mset ps = mset (takeWhile (\<lambda>p. sp_level p \<noteq> LEVEL0) ps) + mset (dropWhile (\<lambda>p. sp_level p \<noteq> LEVEL0) ps)"
    unfolding mset_append [symmetric] by simp
  then show ?thesis by (auto simp: move_l0_to_front_def Let_def split: list.split)
qed

lemma move_l0_first:
  assumes "p \<in> set ps" "sp_level p = LEVEL0" shows "\<exists>q qs. move_l0_to_front ps = q # qs \<and> sp_level q = LEVEL0"
proof -
  obtain q qs where q: "dropWhile (\<lambda>p. sp_level p \<noteq> LEVEL0) ps = q # qs"
    using assms by (cases "dropWhile (\<lambda>p. sp_level p \<noteq> LEVEL0) ps") (auto simp: dropWhile_eq_Nil_conv)
  have l: "sp_level q = LEVEL0" using hd_dropWhile [of "\<lambda>p. sp_level p \<noteq> LEVEL0" ps] q by simp
  show ?thesis
  proof (cases "takeWhile (\<lambda>p. sp_level p \<noteq> LEVEL0) ps = []")
    case True
    then have "ps = q # qs" using takeWhile_dropWhile_id [of "\<lambda>p. sp_level p \<noteq> LEVEL0" ps] q by simp
    with l True q show ?thesis by (simp add: move_l0_to_front_def Let_def)
  qed (use l q in \<open>simp add: move_l0_to_front_def Let_def\<close>)
qed

section \<open>The levels picked\<close>

lemma adjust_keeps:
  "map sp_level (snd (fold (adjust_level pe) is s)) = map sp_level (snd s)"
  "map sp_score (snd (fold (adjust_level pe) is s)) = map sp_score (snd s)"
proof -
  have one: "map sp_level (snd (adjust_level pe l s)) = map sp_level (snd s) \<and> map sp_score (snd (adjust_level pe l s)) = map sp_score (snd s)" for l s
  proof (cases s)
    case (Pair pre ps)
    show ?thesis by (cases "pre < length ps") (simp_all add: Pair adjust_level_def Let_def map_update list_update_beyond list_update_same_conv)
  qed
  show "map sp_level (snd (fold (adjust_level pe) is s)) = map sp_level (snd s)"
    "map sp_score (snd (fold (adjust_level pe) is s)) = map sp_score (snd s)"
    by (induction "is" arbitrary: s) (simp_all add: one)
qed

lemma score_levels_map:
  "(\<And>i. i \<in> set is \<Longrightarrow> level_score pe lc targets i = Inr (f i)) \<Longrightarrow>
     score_levels pe lc targets is = Inr (map (\<lambda>i. push_priority targets (word_of_nat i) (f i)) is)"
  by (induction "is") simp_all

lemma level_targets_facts:
  assumes "level_targets lc = Inr targets"
  shows "length (ct_target_size targets) = length (lc_levels lc)" "length (lc_levels lc) < 255" "lc_levels lc \<noteq> []"
  using assms by (auto simp: level_targets_def Let_def last_level_handler_def target_sizes_lengths split: if_splits)

lemma level_score_ok:
  assumes "level_targets lc = Inr targets" "i < length (lc_levels lc)"
    "length (lc_levels lc) \<le> length (cs_levels (lc_status lc))" "\<forall>ls \<in> set (cs_levels (lc_status lc)). ls_del_size ls = 0"
  shows "\<exists>x. level_score pe lc targets i = Inr x"
  using assms(2-) level_targets_facts [OF assms(1)] nth_mem [of i "cs_levels (lc_status lc)"]
  by (auto simp: level_score_def index_def status_del_size_def sub_usize_def)

text \<open>The levels in their order, with their scores, before the filter and the sort.\<close>

lemma picked_form:
  assumes "level_targets lc = Inr targets" "length (lc_levels lc) \<le> length (cs_levels (lc_status lc))"
    "\<forall>ls \<in> set (cs_levels (lc_status lc)). ls_del_size ls = 0" "n = length (lc_levels lc)"
  obtains adj where "length adj = n" "\<And>i. i < n \<Longrightarrow> sp_level (adj ! i) = word_of_nat i \<and> level_score pe lc targets i = Inr (sp_score (adj ! i))"
    "pick_compact_levels pe lc =
       Inr (pe_sort pe (more_urgent pe) (filter (\<lambda>p. float_ge pe (sp_score p) (pe_of_usize pe 1)) (take (n - 1) adj)))"
proof -
  define g where "g i = (case level_score pe lc targets i of Inr x \<Rightarrow> x | Inl _ \<Rightarrow> undefined)" for i
  have sc: "level_score pe lc targets i = Inr (g i)" if i: "i < n" for i
  proof -
    obtain x where "level_score pe lc targets i = Inr x" using level_score_ok [OF assms(1) i [unfolded assms(4)] assms(2,3), of pe] by blast
    then show ?thesis by (simp add: g_def)
  qed
  have ns: "0 # [1 ..< n] = [0 ..< n]" using level_targets_facts(3) [OF assms(1)] upt_conv_Cons [of 0 n] by (simp add: assms(4))
  define prios where "prios = map (\<lambda>i. push_priority targets (word_of_nat i) (g i)) [0 ..< n]"
  define adj where "adj = snd (fold (adjust_level pe) [unat (ct_base_level targets) ..< n] (0, prios))"
  have adj: "map sp_level adj = map word_of_nat [0 ..< n]" "map sp_score adj = map g [0 ..< n]"
    using adjust_keeps [of pe "[unat (ct_base_level targets) ..< n]" "(0, prios)"] by (simp_all add: adj_def prios_def push_priority_def comp_def)
  have len: "length adj = n" using arg_cong [OF adj(1), of length] by simp
  show ?thesis
  proof (rule that [OF len])
    fix i assume "i < n"
    then show "sp_level (adj ! i) = word_of_nat i \<and> level_score pe lc targets i = Inr (sp_score (adj ! i))"
      using arg_cong [OF adj(1), of "\<lambda>xs. xs ! i"] arg_cong [OF adj(2), of "\<lambda>xs. xs ! i"] len sc by simp
  next
    have "score_levels pe lc targets [0 ..< n] = Inr prios" unfolding prios_def by (rule score_levels_map) (simp add: sc)
    then show "pick_compact_levels pe lc =
       Inr (pe_sort pe (more_urgent pe) (filter (\<lambda>p. float_ge pe (sp_score p) (pe_of_usize pe 1)) (take (n - 1) adj)))"
      unfolding pick_compact_levels_def assms(1) and_then_simps Let_def assms(4) [symmetric] ns using len
      by (simp add: adj_def [symmetric]) (simp add: prios_def)
  qed
qed

section \<open>Properties\<close>


text \<open>Scoring the levels never fails, and the levels picked are exactly those above the last one whose score is at least one:
  the number of tables for level 0, the size against the target for the others. The first task tries level 0
  before the others whenever it is picked.\<close>

theorem levels_picked:
  assumes "level_targets lc = Inr targets" "length (lc_levels lc) \<le> length (cs_levels (lc_status lc))"
    "\<forall>ls \<in> set (cs_levels (lc_status lc)). ls_del_size ls = 0" "\<And>c xs. mset (pe_sort pe c xs) = mset xs"
  shows "\<exists>ps. pick_compact_levels pe lc = Inr ps \<and> distinct (map sp_level ps) \<and>
    (\<forall>l. l \<in> sp_level ` set ps \<longleftrightarrow> unat l < length (lc_levels lc) - 1 \<and>
       (\<exists>score. level_score pe lc targets (unat l) = Inr score \<and> float_ge pe score (pe_of_usize pe 1))) \<and>
    (LEVEL0 \<in> sp_level ` set ps \<longrightarrow> (\<exists>q qs. move_l0_to_front ps = q # qs \<and> sp_level q = LEVEL0))"
proof -
  define n where "n = length (lc_levels lc)"
  obtain adj where a: "length adj = n" "\<And>i. i < n \<Longrightarrow> sp_level (adj ! i) = word_of_nat i \<and> level_score pe lc targets i = Inr (sp_score (adj ! i))"
    "pick_compact_levels pe lc =
       Inr (pe_sort pe (more_urgent pe) (filter (\<lambda>p. float_ge pe (sp_score p) (pe_of_usize pe 1)) (take (n - 1) adj)))"
    using picked_form [OF assms(1-3) n_def, of pe] by blast
  define keep where "keep = filter (\<lambda>p. float_ge pe (sp_score p) (pe_of_usize pe 1)) (take (n - 1) adj)"
  define ps where "ps = pe_sort pe (more_urgent pe) keep"
  have ms: "mset ps = mset keep" unfolding ps_def by (rule assms(4))
  have un: "unat (word_of_nat i :: level) = i" if "i < n" for i
    using that level_targets_facts(2) [OF assms(1)] by (simp add: n_def unat_level_of_nat)
  have "map sp_level adj = map word_of_nat [0 ..< n]" using a(1,2) by (auto intro: nth_equalityI)
  moreover have "inj_on (word_of_nat :: nat \<Rightarrow> level) {0 ..< n}" by (rule inj_on_inverseI [of _ unat]) (simp add: un)
  ultimately have "distinct (map sp_level adj)" by (simp add: distinct_map)
  then have "distinct (map sp_level keep)" unfolding keep_def by (metis distinct_map_filter distinct_take take_map)
  then have d: "distinct (map sp_level ps)" using ms by (metis mset_eq_imp_distinct_iff mset_map)
  have m1: "l \<in> sp_level ` set ps \<longleftrightarrow> (\<exists>i < n - 1. sp_level (adj ! i) = l \<and> float_ge pe (sp_score (adj ! i)) (pe_of_usize pe 1))" for l
    unfolding mset_eq_setD [OF ms] keep_def using a(1) by (force simp: in_set_conv_nth image_iff)
  have m2: "(\<exists>i < n - 1. sp_level (adj ! i) = l \<and> float_ge pe (sp_score (adj ! i)) (pe_of_usize pe 1)) \<longleftrightarrow>
    unat l < n - 1 \<and> (\<exists>score. level_score pe lc targets (unat l) = Inr score \<and> float_ge pe score (pe_of_usize pe 1))" for l
  proof -
    have lv: "i < n - 1 \<Longrightarrow> sp_level (adj ! i) = l \<longleftrightarrow> i = unat l" for i using a(2) [of i] un [of i] by auto
    have "(\<exists>i < n - 1. sp_level (adj ! i) = l \<and> float_ge pe (sp_score (adj ! i)) (pe_of_usize pe 1)) \<longleftrightarrow>
        unat l < n - 1 \<and> float_ge pe (sp_score (adj ! unat l)) (pe_of_usize pe 1)" using lv by metis
    then show ?thesis using a(2) [of "unat l"] by auto
  qed
  have m3: "\<exists>q qs. move_l0_to_front ps = q # qs \<and> sp_level q = LEVEL0" if "LEVEL0 \<in> sp_level ` set ps"
    using that move_l0_first by (metis imageE)
  show ?thesis unfolding n_def [symmetric]
    by (intro exI [of _ ps] conjI allI impI a(3) [folded keep_def, folded ps_def] d trans [OF m1 m2] m3)
qed

section \<open>An instance\<close>

text \<open>Whole numbers stand for the scores. Level 0 of \<open>demo_full\<close> holds one table, which is all it may hold.\<close>

definition demo_pe :: "nat pick_env" where
  "demo_pe = \<lparr>pe_of_usize = (\<lambda>n. n), pe_div = (div), pe_cmp = (\<lambda>a b. Some (compare a b)), pe_min_score = 1, pe_sort = (\<lambda>_ xs. xs)\<rparr>"

definition demo_full :: levels_controller where
  "demo_full = demo_two\<lparr>lc_config := demo_config\<lparr>lg_num_level_zero_tables := 1\<rparr>\<rparr>"

lemma demo_full_targets: "\<exists>targets. level_targets demo_full = Inr targets"
proof -
  have "is_ok (level_targets demo_full)"
    by (rule level_targets_ok) (simp_all add: demo_full_def demo_two_def demo_config_def LevelsControllerConfig_default_def)
  then show ?thesis by (simp add: is_ok_iff)
qed

theorem levels_picked_witness:
  "\<exists>ps. pick_compact_levels demo_pe demo_full = Inr ps \<and> sp_level ` set ps = {LEVEL0}"
proof -
  obtain targets where t: "level_targets demo_full = Inr targets" using demo_full_targets by blast
  have n: "length (lc_levels demo_full) = 2" by (simp add: demo_full_def demo_two_def)
  have s: "level_score demo_pe demo_full targets 0 = Inr 1"
    by (simp add: level_score_def index_def demo_full_def demo_two_def demo_pe_def demo_config_def LevelsControllerConfig_default_def init_tables_def)
  have "\<exists>ps. pick_compact_levels demo_pe demo_full = Inr ps \<and> distinct (map sp_level ps) \<and>
    (\<forall>l. l \<in> sp_level ` set ps \<longleftrightarrow> unat l < length (lc_levels demo_full) - 1 \<and>
       (\<exists>score. level_score demo_pe demo_full targets (unat l) = Inr score \<and> float_ge demo_pe score (pe_of_usize demo_pe 1))) \<and>
    (LEVEL0 \<in> sp_level ` set ps \<longrightarrow> (\<exists>q qs. move_l0_to_front ps = q # qs \<and> sp_level q = LEVEL0))"
    by (rule levels_picked [OF t])
      (simp_all add: n, simp_all add: demo_full_def demo_two_def demo_lc_def LevelCompactStatus_default_def demo_pe_def)
  then obtain ps where ps: "pick_compact_levels demo_pe demo_full = Inr ps"
    "\<And>l. l \<in> sp_level ` set ps \<longleftrightarrow> unat l < 1 \<and> (\<exists>score. level_score demo_pe demo_full targets (unat l) = Inr score \<and> float_ge demo_pe score (pe_of_usize demo_pe 1))"
    unfolding n by auto
  have "float_ge demo_pe 1 (pe_of_usize demo_pe 1)" by (simp add: float_ge_def demo_pe_def compare_def)
  then have "l \<in> sp_level ` set ps \<longleftrightarrow> l \<in> {LEVEL0}" for l unfolding ps(2) using s by (auto simp: LEVEL0_def unat_eq_0)
  with ps(1) show ?thesis by blast
qed

text \<open>With room for five tables nothing is picked, and the tick ends.\<close>

lemma demo_two_picks: "pick_compact_levels demo_pe demo_two = Inr []"
proof -
  have "is_ok (level_targets demo_two)"
    by (rule level_targets_ok) (simp_all add: demo_two_def demo_lc_def demo_config_def LevelsControllerConfig_default_def)
  then obtain targets where t: "level_targets demo_two = Inr targets" by (auto simp: is_ok_iff)
  have st: "length (lc_levels demo_two) \<le> length (cs_levels (lc_status demo_two))" "\<forall>ls \<in> set (cs_levels (lc_status demo_two)). ls_del_size ls = 0"
    by (simp_all add: demo_two_def demo_lc_def LevelCompactStatus_default_def)
  obtain adj where a: "length adj = 2"
    "\<And>i. i < 2 \<Longrightarrow> sp_level (adj ! i) = word_of_nat i \<and> level_score demo_pe demo_two targets i = Inr (sp_score (adj ! i))"
    "pick_compact_levels demo_pe demo_two =
       Inr (pe_sort demo_pe (more_urgent demo_pe) (filter (\<lambda>p. float_ge demo_pe (sp_score p) (pe_of_usize demo_pe 1)) (take (2 - 1) adj)))"
    using picked_form [OF t st demo_two_ids(1) [symmetric], of demo_pe] by blast
  have "level_score demo_pe demo_two targets 0 = Inr 0"
    by (simp add: level_score_def index_def demo_two_def demo_lc_def demo_pe_def demo_config_def LevelsControllerConfig_default_def init_tables_def)
  then have z: "sp_score (adj ! 0) = 0" using a(2) [of 0] by simp
  obtain x y where "adj = [x, y]" using a(1) by (auto simp: length_Suc_conv numeral_2_eq_2)
  with a(3) z show ?thesis by (simp add: demo_pe_def float_ge_def compare_def)
qed


end
