(* ===== verification/Startup.thy ===== *)
theory Startup
  imports WriteTask Opening Compactor Oracle
begin

text \<open>
  Opening a database (\<open>DB::open\<close> of \<open>src/src/db.rs\<close>, \<open>Config::set_read_only\<close> of \<open>src/src/config.rs\<close>, \<open>max_txn_ts\<close> of
  \<open>src/src/txn/oracle.rs\<close>): every component is opened from what its files hold, and the oracle starts behind
  the largest version found. Creating the directories, the lock file, the caches, the thread pool and
  the metrics of directory sizes touch nothing of the state and are left out.
\<close>

section \<open>Configuration, disk, environment\<close>

definition set_read_only :: "bool \<Rightarrow> config \<Rightarrow> config" where
  "set_read_only b c = c\<lparr>cf_read_only := b, cf_memtable := (cf_memtable c)\<lparr>mc_read_only := b\<rparr>, cf_vlog := (cf_vlog c)\<lparr>vc_read_only := b\<rparr>\<rparr>"

text \<open>The manifest and the key registry carry the same \<open>read_only\<close>. \<open>oc_cached\<close>: a block cache is configured or not needed.\<close>

record open_config =
  oc_opt :: config
  oc_levels :: levels_controller_config
  oc_table :: table_config
  oc_txn :: txn_config
  oc_encrypt_key :: bytes
  oc_rotation :: nat
  oc_external_magic :: u16
  oc_cached :: bool

text \<open>What is in the directory: memtable and value log files by ascending number.\<close>

record disk =
  dk_manifest :: "bytes option"
  dk_registry :: "bytes option"
  dk_memtables :: "(u32 \<times> bytes) list"
  dk_tables :: "u32 \<rightharpoonup> bytes"
  dk_vlogs :: "(u32 \<times> bytes) list"
  dk_discard :: bytes

record open_env =
  oe_host :: db_host
  oe_te :: table_env
  oe_me :: manifest_env
  oe_nonce :: bytes

abbreviation oe_page :: "open_env \<Rightarrow> nat" where "oe_page oe \<equiv> vh_page (dh_vlog (oe_host oe))"

section \<open>The largest version\<close>

text \<open>The call of \<open>max_txn_ts\<close> with what it reads of the memtables and of the controller.\<close>

definition max_stored_ts :: "table_env \<Rightarrow> memtable list \<Rightarrow> levels_controller \<Rightarrow> u64 outcome" where
  "max_stored_ts te immut lc =
     and_then (get_table_info te lc) (\<lambda>infos. Inr (max_txn_ts (map mt_max_version immut) (map in_max_version infos)))"

section \<open>Opening\<close>

text \<open>What the open database consists of; the write task carries the \<open>db\<close> and the publisher.\<close>

record opened_db =
  od_task :: write_task
  od_controller :: levels_controller
  od_oracle :: oracle_inner
  od_discard_stats :: discard_stats

definition open_memory ::
  "open_env \<Rightarrow> config \<Rightarrow> key_registry \<Rightarrow> (u32 \<times> bytes) list \<Rightarrow> (memtable option \<times> memtable list \<times> config \<times> key_registry) outcome option" where
  "open_memory oe c kr files =
     (let host = oe_host oe in
      ok_then (open_many (dh_env host) (dh_coins host) (oe_page oe) (dh_mem_draws host) (cf_memtable c) kr files) (\<lambda>(immut, mc, kr).
      let c = c\<lparr>cf_memtable := mc\<rparr> in
      if cf_read_only c then Some (Inr (None, immut, c, kr))
      else ok_then (memtable_new (dh_env host) (dh_coins host) (oe_page oe) (dh_mem_draws host) mc kr []) (\<lambda>(mt, mc, kr).
        Some (Inr (Some mt, immut, c\<lparr>cf_memtable := mc\<rparr>, kr)))))"

text \<open>The handles besides the write task's are the one returned and that of the flush task.\<close>

definition DB_open :: "open_env \<Rightarrow> open_config \<Rightarrow> disk \<Rightarrow> opened_db outcome option" where
  "DB_open oe oc dk =
     ok_then (Some (check_set_config (is_ok (check_levels_controller_config (oc_levels oc))) (oc_cached oc) (oc_opt oc))) (\<lambda>c.
     ok_then (Some (check_levels_controller_config (oc_levels oc))) (\<lambda>g.
     ok_then (Some (manifest_open (oe_me oe) (oc_external_magic oc) (cf_read_only c) (dk_manifest dk))) (\<lambda>mf.
     ok_then (Some (KeyRegistry_open (te_crypto (oe_te oe)) (oe_nonce oe) (oc_encrypt_key oc) (oc_rotation oc) (cf_read_only c) (dk_registry dk))) (\<lambda>kr.
     ok_then (open_memory oe c kr (dk_memtables dk)) (\<lambda>(memtable, immut, c, kr).
     ok_then (Some (LevelsController_build (oe_te oe) (oe_page oe) g (oc_table oc) mf kr (dk_tables dk))) (\<lambda>lc.
     ok_then (Some (max_stored_ts (oe_te oe) immut lc)) (\<lambda>max_version.
     ok_then (Some (OracleInner_new (oc_txn oc) max_version)) (\<lambda>orc.
     ok_then (Some (DiscardStats_new (oe_page oe) (dk_discard dk))) (\<lambda>ds.
     ok_then (Some (vlog_open (dh_vlog (oe_host oe)) (dk_vlogs dk) (ValueLog_new (vt_value_threshold (cf_vlog_threshold c)) kr (cf_vlog c)))) (\<lambda>vl.
     let d = \<lparr>db_memtable = memtable, db_immut_memtable = immut, db_flush_memtable = [], db_vlog = vl, db_banned_namespaces = {},
              db_is_closed = False, db_block_writes = False, db_opt = c\<rparr>
     in Some (Inr \<lparr>od_task = do_writes_init d PublisherInner_new 2, od_controller = lc, od_oracle = orc, od_discard_stats = ds\<rparr>)))))))))))"

section \<open>Every stored version is below the next timestamp\<close>

lemma fold_max_list: "fold max xs m \<in> insert m (set xs) \<and> (\<forall>x \<in> insert m (set xs). x \<le> fold max xs m)" for m :: "'a::linorder"
proof (induction xs arbitrary: m)
  case (Cons x xs)
  from Cons [of "max x m"] show ?case by (auto simp: max_def split: if_splits)
qed simp

lemma table_infos_versions: "table_infos te l ts = Inr infos \<Longrightarrow> in_max_version ` set infos = table_max_version ` set ts"
proof (induction ts arbitrary: infos)
  case (Cons t ts)
  then obtain ys i where "table_infos te l ts = Inr ys" "infos = i # ys" "in_max_version i = table_max_version t"
    by (auto simp: and_then_Inr)
  with Cons.IH show ?case by simp
qed simp

lemma level_infos_versions:
  "level_infos te lhs = Inr infos \<Longrightarrow> in_max_version ` set infos = (\<Union>lh \<in> set lhs. table_max_version ` set (lh_tables lh))"
proof (induction lhs arbitrary: infos)
  case (Cons lh lhs)
  then obtain xs ys where "table_infos te (lh_level lh) (lh_tables lh) = Inr xs" "level_infos te lhs = Inr ys" "infos = xs @ ys"
    by (auto simp: and_then_Inr)
  with Cons.IH table_infos_versions show ?case by (simp add: image_Un)
qed simp

text \<open>The versions of the immutable memtables and of the tables.\<close>

definition stored_versions :: "memtable list \<Rightarrow> levels_controller \<Rightarrow> u64 set" where
  "stored_versions immut lc = mt_max_version ` set immut \<union> (\<Union>lh \<in> set (lc_levels lc). table_max_version ` set (lh_tables lh))"

lemma max_stored_ts_max:
  assumes "max_stored_ts te immut lc = Inr m"
  shows "(\<forall>v \<in> stored_versions immut lc. v \<le> m) \<and> (m = 0 \<or> m \<in> stored_versions immut lc)"
proof -
  obtain infos where i: "level_infos te (lc_levels lc) = Inr infos"
    and m: "m = fold max (map in_max_version (sort_key (\<lambda>i. (in_level i, in_table_id i)) infos)) (fold max (map mt_max_version immut) 0)"
    using assms by (auto simp: max_stored_ts_def max_txn_ts_def get_table_info_def and_then_Inr)
  let ?m0 = "fold max (map mt_max_version immut) 0" and ?vs = "map in_max_version (sort_key (\<lambda>i. (in_level i, in_table_id i)) infos)"
  have sv: "stored_versions immut lc = set (map mt_max_version immut) \<union> set ?vs"
    using level_infos_versions [OF i] by (simp add: stored_versions_def)
  have "?m0 \<in> insert 0 (set (map mt_max_version immut))" "\<forall>x \<in> set (map mt_max_version immut). x \<le> ?m0"
    "m \<in> insert ?m0 (set ?vs)" "?m0 \<le> m" "\<forall>x \<in> set ?vs. x \<le> m"
    using fold_max_list [of "map mt_max_version immut" 0] fold_max_list [of ?vs ?m0] unfolding m by blast+
  then show ?thesis unfolding sv by (auto intro: order_trans)
qed


section \<open>A new database\<close>

definition Config_default :: config where
  "Config_default = \<lparr>cf_sync_writes = False, cf_read_only = False, cf_num_memtables = 5, cf_name_space_offset = None,
     cf_memtable = MemTableConfig_default, cf_vlog = ValueLogConfig_default,
     cf_vlog_threshold = \<lparr>vt_max_value_threshold = MAX_VALUE_THRESHOLD, vt_percentile_ok = True, vt_value_threshold = MAX_VALUE_THRESHOLD\<rparr>,
     cf_max_batch_count = 0, cf_max_batch_size = 0\<rparr>"

definition default_open :: open_config where
  "default_open = \<lparr>oc_opt = Config_default, oc_levels = LevelsControllerConfig_default, oc_table = TableConfig_default, oc_txn = TxnConfig_default,
     oc_encrypt_key = [], oc_rotation = 10 * 24 * 60 * 60 * 10 ^ 9, oc_external_magic = 0, oc_cached = True\<rparr>"

definition empty_disk :: disk where
  "empty_disk = \<lparr>dk_manifest = None, dk_registry = None, dk_memtables = [], dk_tables = Map.empty, dk_vlogs = [], dk_discard = []\<rparr>"

text \<open>The configuration as \<open>check_set_config\<close> completes it.\<close>

definition checked_default :: config where
  "checked_default = Config_default\<lparr>cf_max_batch_size := 10066329, cf_max_batch_count := 96791,
     cf_memtable := MemTableConfig_default\<lparr>mc_arena_size := 87241457\<rparr>\<rparr>"

lemma check_default: "check_set_config True True Config_default = Inr checked_default"
  by (simp add: check_set_config_def Config_default_def MemTableConfig_default_def check_threshold_config_def MAX_VALUE_THRESHOLD_def
      check_vlog_config_def ValueLogConfig_default_def SKL_MAX_NODE_SIZE_def checked_default_def)

lemma default_list: "\<exists>sk. SkipList_new 4096 87241457 = Inr sk"
  by (simp add: SkipList_new_def Arena_new_def round_up_to_def alloc_with_def alloc_layout_def
      CHUNK_ALIGN_def DEFAULT_ALIGN_def SKL_MAX_NODE_SIZE_def Let_def)

lemma new_memory:
  assumes "oe_page oe = 4096" "\<And>i. length (dr_nonce (dh_mem_draws (oe_host oe) i)) = 12" "kr_cipher kr = None"
  shows "\<exists>mt c. open_memory oe checked_default kr [] = Some (Inr (Some mt, [], c, kr)) \<and> cf_vlog c = ValueLogConfig_default"
proof -
  obtain sk where sk: "SkipList_new 4096 87241457 = Inr sk" using default_list by blast
  obtain lf where lf: "LogFile_open (dh_env (oe_host oe)) 4096 (dh_mem_draws (oe_host oe) fid) fid [] (2 * (64 * 2 ^ 20)) kr = Inr ((lf fid, True), kr)" for fid
  proof -
    have "\<forall>fid. \<exists>lf. LogFile_open (dh_env (oe_host oe)) 4096 (dh_mem_draws (oe_host oe) fid) fid [] (2 * (64 * 2 ^ 20)) kr = Inr ((lf, True), kr)"
      using logfile_open_plain [OF assms(3) _ assms(2), of 4096 "2 * (64 * 2 ^ 20)"] by (metis zero_less_numeral zero_less_power mult_pos_pos)
    then show ?thesis using that by metis
  qed
  show ?thesis using sk lf
    by (simp add: open_memory_def open_many_def memtable_new_def memtable_open_def checked_default_def Config_default_def MemTableConfig_default_def assms(1) Let_def)
qed

lemma new_manifest:
  assumes "manifest_laws me" obtains mf where "manifest_open me ext False None = Inr mf" "mf_info mf = ManifestInfo_default"
proof -
  have "me_order me [] = []" using assms unfolding manifest_laws_def by (metis mset.simps(1) mset_zero_iff)
  then show ?thesis using that by (simp add: manifest_open_def help_rewrite_def ManifestInfo_default_def as_changes_def)
qed

lemma new_levels:
  assumes "mf_info mf = ManifestInfo_default"
  shows "\<exists>lc. LevelsController_build te page LevelsControllerConfig_default config mf kr Map.empty = Inr lc \<and>
    lc_manifest lc = mf \<and> length (lc_levels lc) = 6 \<and> (\<forall>lh \<in> set (lc_levels lc). lh_tables lh = [])"
  by (simp add: LevelsController_build_def open_tables_by_manifest_def assms ManifestInfo_default_def LevelsControllerConfig_default_def
      revert_to_manifest_def Let_def upt_rec Level_add_def add_checked_def LEVEL0_def controller_validate_def validate_level_def
      init_tables_def LevelHandler_new_def)

text \<open>With the default configuration an empty directory opens, whatever the host draws: there is a memtable to write to,
  six levels without tables that agree with the manifest, and the first commit gets the timestamp one.\<close>

theorem new_database_opens:
  assumes "crypto_laws (te_crypto (oe_te oe))" "manifest_laws (oe_me oe)" "length (oe_nonce oe) = 12" "host_ok (dh_vlog (oe_host oe))" "oe_page oe = 4096"
    "\<And>i. length (dr_nonce (dh_mem_draws (oe_host oe) i)) = 12"
  shows "\<exists>od. DB_open oe default_open empty_disk = Some (Inr od) \<and> db_memtable (wt_db (od_task od)) \<noteq> None \<and> plain_ok (db_vlog (wt_db (od_task od))) \<and>
    length (lc_levels (od_controller od)) = 6 \<and> (\<forall>lh \<in> set (lc_levels (od_controller od)). lh_tables lh = []) \<and>
    levels_agree (od_controller od) \<and> o_next_txn_ts (od_oracle od) = 1"
proof -
  obtain mf where mf: "manifest_open (oe_me oe) 0 False None = Inr mf" "mf_info mf = ManifestInfo_default"
    by (rule new_manifest [OF assms(2)])
  define rot :: nat where "rot = 864000000000000"
  obtain kr where kr: "KeyRegistry_open (te_crypto (oe_te oe)) (oe_nonce oe) [] rot False None = Inr kr" "kr_cipher kr = None"
    using open_fresh [OF assms(1,3), of "[]" rot] by (simp add: KeyRegistry_new_def)
  obtain mt c where mem: "open_memory oe checked_default kr [] = Some (Inr (Some mt, [], c, kr))" "cf_vlog c = ValueLogConfig_default"
    using new_memory [OF assms(5,6) kr(2)] by blast
  obtain lc where lc: "LevelsController_build (oe_te oe) 4096 LevelsControllerConfig_default TableConfig_default mf kr Map.empty = Inr lc"
    "lc_manifest lc = mf" "length (lc_levels lc) = 6" "\<forall>lh \<in> set (lc_levels lc). lh_tables lh = []"
    using new_levels [OF mf(2)] by blast
  have "level_infos te lhs = Inr []" if "\<forall>lh \<in> set lhs. lh_tables lh = []" for te lhs using that by (induction lhs) simp_all
  then have mx: "max_stored_ts (oe_te oe) [] lc = Inr 0" using lc(4) by (simp add: max_stored_ts_def max_txn_ts_def get_table_info_def)
  obtain orc where orc: "OracleInner_new TxnConfig_default 0 = Inr orc" "o_next_txn_ts orc = 1" by (simp add: OracleInner_new_def add_checked_def)
  let ?vl = "ValueLog_new (vt_value_threshold (cf_vlog_threshold c)) kr ValueLogConfig_default"
  obtain vl where vl: "create_vlog_file (dh_vlog (oe_host oe)) ?vl = Inr vl" "plain_ok vl"
    using create_file_plain [of ?vl "dh_vlog (oe_host oe)"] kr(2) assms(4) by (auto simp: ValueLog_new_def ValueLogConfig_default_def)
  have vo: "vlog_open (dh_vlog (oe_host oe)) [] ?vl = Inr vl" using vl(1) by (simp add: vlog_open_def ValueLog_new_def ValueLogConfig_default_def)
  have lv: "check_levels_controller_config LevelsControllerConfig_default = Inr LevelsControllerConfig_default"
    by (simp add: check_levels_controller_config_def LevelsControllerConfig_default_def)
  have ro: "\<not> cf_read_only checked_default" by (simp add: checked_default_def Config_default_def)
  define d where "d = \<lparr>db_memtable = Some mt, db_immut_memtable = [], db_flush_memtable = [], db_vlog = vl, db_banned_namespaces = {},
      db_is_closed = False, db_block_writes = False, db_opt = c\<rparr>"
  have "DB_open oe default_open empty_disk = Some (Inr \<lparr>od_task = do_writes_init d PublisherInner_new 2, od_controller = lc, od_oracle = orc,
      od_discard_stats = fresh 4096 []\<rparr>)"
    by (simp add: DB_open_def default_open_def empty_disk_def check_default lv mf(1) kr(1) [unfolded rot_def] mem lc(1) mx orc(1) new_fresh vo assms(5) ro d_def)
  moreover have "levels_agree lc" unfolding levels_agree_def using lc mf(2) by (auto simp: catalog_def ManifestInfo_default_def)
  ultimately show ?thesis using lc orc(2) vl(2) by (simp add: do_writes_init_def d_def)
qed

definition demo_oe :: open_env where
  "demo_oe = \<lparr>oe_host = demo_db_host\<lparr>dh_vlog := demo_host\<lparr>vh_page := 4096\<rparr>\<rparr>, oe_te = demo_te, oe_me = demo_me, oe_nonce = replicate 12 0\<rparr>"


end
