(* ===== verification/Threshold.thy ===== *)
theory Threshold
  imports Db
begin

text \<open>
  The threshold for values in the value log that follows the sizes written (\<open>src/src/vlog/threshold.rs\<close>) and the histogram
  behind it (\<open>src/src/vlog/histogram.rs\<close>). The histogram counts in logarithmic buckets; the floating point functions
  (the bucket of a value, the value of a bucket, the target of a percentile) are parameters. Counts are added up
  as floating point numbers, which is exact below \<open>2 ^ 53\<close>.
\<close>

section \<open>The histogram\<close>

definition BUCKETS :: nat where "BUCKETS = 2 ^ 16"

record histogram =
  hg_vals :: "u64 list"
  hg_sum :: u64
  hg_count :: u64

text \<open>
  \<open>fe_compress\<close> is \<open>compress\<close>, \<open>None\<close> where its assertion fails; \<open>fe_round\<close> the rounding of the value; \<open>fe_reaches count p sum\<close>
  the comparison of the sum with \<open>count * (p / 100)\<close>, or with one when that is zero; \<open>fe_valid p\<close> that \<open>p\<close> is at most 100.
\<close>

record 'f float_env =
  fe_compress :: "nat \<Rightarrow> u16 option"
  fe_decompress :: "u16 \<Rightarrow> 'f"
  fe_round :: "nat \<Rightarrow> u64"
  fe_reaches :: "u64 \<Rightarrow> 'f \<Rightarrow> nat \<Rightarrow> bool"
  fe_valid :: "'f \<Rightarrow> bool"
  fe_nan :: 'f
  fe_to_usize :: "'f \<Rightarrow> nat"

definition Histogram_default :: histogram where
  "Histogram_default = \<lparr>hg_vals = replicate BUCKETS 0, hg_sum = 0, hg_count = 0\<rparr>"

definition measure :: "'f float_env \<Rightarrow> nat \<Rightarrow> histogram \<Rightarrow> (u64 \<times> histogram) outcome" where
  "measure fe v h =
     (case fe_compress fe v of
        None \<Rightarrow> Inl Panic
      | Some b \<Rightarrow>
          let n = hg_vals h ! unat b + 1 in
          Inr (n, \<lparr>hg_vals = (hg_vals h)[unat b := n], hg_sum = hg_sum h + fe_round fe v, hg_count = hg_count h + 1\<rparr>))"

fun first_bucket :: "(nat \<Rightarrow> bool) \<Rightarrow> nat \<Rightarrow> nat \<Rightarrow> u64 list \<Rightarrow> nat option" where
  "first_bucket reached i acc [] = None"
| "first_bucket reached i acc (n # ns) = (let acc = acc + unat n in if reached acc then Some i else first_bucket reached (i + 1) acc ns)"

definition percentile :: "'f float_env \<Rightarrow> 'f \<Rightarrow> histogram \<Rightarrow> 'f outcome" where
  "percentile fe p h =
     (if \<not> fe_valid fe p then Inl Panic
      else if hg_count h = 0 then Inr (fe_nan fe)
      else case first_bucket (fe_reaches fe (hg_count h) p) 0 0 (hg_vals h) of
        Some i \<Rightarrow> Inr (fe_decompress fe (word_of_nat i)) | None \<Rightarrow> Inr (fe_nan fe))"

definition histogram_clear :: "histogram \<Rightarrow> histogram" where
  "histogram_clear h = h\<lparr>hg_count := 0, hg_sum := 0\<rparr>"

fun measure_all :: "'f float_env \<Rightarrow> nat list \<Rightarrow> histogram \<Rightarrow> histogram outcome" where
  "measure_all fe [] h = Inr h"
| "measure_all fe (v # vs) h = and_then (measure fe v h) (\<lambda>(_, h). measure_all fe vs h)"

section \<open>The threshold\<close>

record 'f vlog_threshold =
  th_config :: vlog_threshold_config
  th_percentile :: 'f
  th_value_threshold :: nat
  th_histogram :: histogram
  th_clear_notified :: bool

definition VlogThreshold_new :: "'f float_env \<Rightarrow> vlog_threshold_config \<Rightarrow> 'f \<Rightarrow> 'f vlog_threshold outcome" where
  "VlogThreshold_new fe c p =
     and_then (measure_all fe [vt_value_threshold c, vt_max_value_threshold c] Histogram_default) (\<lambda>h.
     Inr \<lparr>th_config = c, th_percentile = p, th_value_threshold = vt_value_threshold c, th_histogram = h, th_clear_notified = False\<rparr>)"

definition threshold_clear :: "'f vlog_threshold \<Rightarrow> 'f vlog_threshold" where
  "threshold_clear th = th\<lparr>th_value_threshold := vt_value_threshold (th_config th), th_clear_notified := True\<rparr>"

text \<open>The two branches of \<open>listen_for_value_threshold_update\<close>: sizes arrived, or the notification of \<open>clear\<close>.\<close>

definition update_threshold :: "'f float_env \<Rightarrow> nat list \<Rightarrow> 'f vlog_threshold \<Rightarrow> 'f vlog_threshold outcome" where
  "update_threshold fe vs th =
     and_then (measure_all fe vs (th_histogram th)) (\<lambda>h.
     and_then (percentile fe (th_percentile th) h) (\<lambda>x.
     let p = fe_to_usize fe x; th = th\<lparr>th_histogram := h\<rparr>
     in Inr (if th_value_threshold th \<noteq> p then th\<lparr>th_value_threshold := p\<rparr> else th)))"

definition clear_histogram :: "'f float_env \<Rightarrow> 'f vlog_threshold \<Rightarrow> 'f vlog_threshold outcome" where
  "clear_histogram fe th =
     and_then (measure_all fe [vt_value_threshold (th_config th), vt_max_value_threshold (th_config th)] (histogram_clear (th_histogram th))) (\<lambda>h.
     Inr (th\<lparr>th_histogram := h, th_clear_notified := False\<rparr>))"

section \<open>What the buckets hold\<close>

text \<open>The histogram of a list of values, as far as percentiles are concerned.\<close>

definition bucket :: "'f float_env \<Rightarrow> nat \<Rightarrow> nat" where
  "bucket fe v = (case fe_compress fe v of Some b \<Rightarrow> unat b | None \<Rightarrow> 0)"

definition counted :: "'f float_env \<Rightarrow> nat list \<Rightarrow> histogram \<Rightarrow> bool" where
  "counted fe vs h \<longleftrightarrow> hg_vals h = map (\<lambda>b. word_of_nat (length (filter (\<lambda>v. bucket fe v = b) vs))) [0 ..< BUCKETS]"

lemma counted_default: "counted fe [] Histogram_default"
  by (simp add: counted_def Histogram_default_def map_replicate_const)

lemma measure_counted:
  assumes "measure fe v h = Inr (n, h')" "counted fe vs h"
  shows "counted fe (vs @ [v]) h' \<and> hg_count h' = hg_count h + 1"
proof -
  obtain b where b: "fe_compress fe v = Some b" "h' = \<lparr>hg_vals = (hg_vals h)[unat b := hg_vals h ! unat b + 1], hg_sum = hg_sum h + fe_round fe v, hg_count = hg_count h + 1\<rparr>"
    using assms(1) by (auto simp: measure_def Let_def split: option.splits)
  have lt: "unat b < BUCKETS" using unsigned_less [of b] by (simp add: BUCKETS_def)
  have "hg_vals h' ! i = word_of_nat (length (filter (\<lambda>w. bucket fe w = i) (vs @ [v])))" if "i < BUCKETS" for i
    using that lt assms(2) b by (simp add: counted_def bucket_def nth_list_update)
  then have "hg_vals h' = map (\<lambda>i. word_of_nat (length (filter (\<lambda>w. bucket fe w = i) (vs @ [v])))) [0 ..< BUCKETS]"
    using b assms(2) by (intro nth_equalityI) (simp_all add: counted_def)
  then show ?thesis using b by (simp add: counted_def)
qed

lemma measure_all_counted:
  "measure_all fe ws h = Inr h' \<Longrightarrow> counted fe vs h \<Longrightarrow> counted fe (vs @ ws) h' \<and> hg_count h' = hg_count h + word_of_nat (length ws)"
proof (induction ws arbitrary: h vs)
  case (Cons w ws)
  obtain n h1 where m: "measure fe w h = Inr (n, h1)" "measure_all fe ws h1 = Inr h'" using Cons.prems(1) by (auto simp: and_then_Inr)
  from Cons.IH [OF m(2), of "vs @ [w]"] measure_counted [OF m(1) Cons.prems(2)] show ?case by simp
qed simp

text \<open>How many of the values are in the buckets up to \<open>b\<close>.\<close>

definition up_to :: "'f float_env \<Rightarrow> nat list \<Rightarrow> nat \<Rightarrow> nat" where
  "up_to fe vs b = length (filter (\<lambda>v. bucket fe v \<le> b) vs)"

lemma first_bucket_least:
  assumes "b < length ns" "reached (acc + sum_list (map unat (take (Suc b) ns)))" "\<And>k. k < b \<Longrightarrow> \<not> reached (acc + sum_list (map unat (take (Suc k) ns)))"
  shows "first_bucket reached i acc ns = Some (i + b)"
  using assms
proof (induction ns arbitrary: i acc b)
  case (Cons n ns)
  show ?case
  proof (cases b)
    case 0
    with Cons.prems(2) show ?thesis by (simp add: Let_def)
  next
    case (Suc c)
    have "\<not> reached (acc + unat n)" using Cons.prems(3) [of 0] Suc by simp
    moreover have "\<not> reached (acc + unat n + sum_list (map unat (take (Suc k) ns)))" if "k < c" for k
      using Cons.prems(3) [of "Suc k"] that Suc by (simp add: add.assoc)
    ultimately show ?thesis using Cons.IH [of c "acc + unat n" "i + 1"] Cons.prems(1,2) Suc by (simp add: Let_def add.assoc)
  qed
qed simp

lemma sum_up_to:
  assumes "counted fe vs h" "length vs < 2 ^ 64" "b < BUCKETS"
  shows "sum_list (map unat (take (Suc b) (hg_vals h))) = up_to fe vs b"
proof -
  have n: "unat (hg_vals h ! i) = length (filter (\<lambda>v. bucket fe v = i) vs)" if "i < BUCKETS" for i
  proof -
    have "length (filter (\<lambda>v. bucket fe v = i) vs) < 2 ^ 64" using assms(2) le_less_trans [OF length_filter_le] by blast
    with that assms(1) show ?thesis by (simp add: counted_def unat_of_nat)
  qed
  have len: "length (hg_vals h) = BUCKETS" using assms(1) by (simp add: counted_def)
  from assms(3) show ?thesis
  proof (induction b)
    case 0
    then show ?case using n [of 0] len by (simp add: up_to_def take_Suc_conv_app_nth)
  next
    case (Suc b)
    have "up_to fe vs (Suc b) = up_to fe vs b + length (filter (\<lambda>v. bucket fe v = Suc b) vs)"
      unfolding up_to_def by (induction vs) (auto simp: le_Suc_eq)
    moreover have "take (Suc (Suc b)) (hg_vals h) = take (Suc b) (hg_vals h) @ [hg_vals h ! Suc b]" using Suc.prems len by (simp add: take_Suc_conv_app_nth)
    ultimately show ?case using Suc n [of "Suc b"] by simp
  qed
qed

lemma percentile_counted:
  assumes "counted fe vs h" "length vs < 2 ^ 64" "hg_count h \<noteq> 0" "fe_valid fe p" "b < BUCKETS"
    "fe_reaches fe (hg_count h) p (up_to fe vs b)" "\<And>k. k < b \<Longrightarrow> \<not> fe_reaches fe (hg_count h) p (up_to fe vs k)"
  shows "percentile fe p h = Inr (fe_decompress fe (word_of_nat b))"
proof -
  have "first_bucket (fe_reaches fe (hg_count h) p) 0 0 (hg_vals h) = Some (0 + b)"
  proof (rule first_bucket_least)
    show "b < length (hg_vals h)" using assms(1,5) by (simp add: counted_def)
    show "fe_reaches fe (hg_count h) p (0 + sum_list (map unat (take (Suc b) (hg_vals h))))"
      using assms(6) sum_up_to [OF assms(1,2,5)] by simp
    show "\<not> fe_reaches fe (hg_count h) p (0 + sum_list (map unat (take (Suc k) (hg_vals h))))" if "k < b" for k
      using assms(7) [OF that] sum_up_to [OF assms(1,2), of k] that assms(5) by simp
  qed
  then show ?thesis using assms(3,4) by (simp add: percentile_def)
qed

section \<open>What the threshold follows\<close>

text \<open>The threshold after the first sizes is the percentile of these sizes and the two configured ones: the value of the
  first bucket up to which enough of them are counted.\<close>

theorem threshold_follows_sizes:
  assumes "VlogThreshold_new fe c p = Inr th" "update_threshold fe ws th = Inr th'" "length ws + 2 < 2 ^ 64" "fe_valid fe p"
    "vs = [vt_value_threshold c, vt_max_value_threshold c] @ ws" "b < BUCKETS" "fe_reaches fe (word_of_nat (length vs)) p (up_to fe vs b)"
    "\<And>k. k < b \<Longrightarrow> \<not> fe_reaches fe (word_of_nat (length vs)) p (up_to fe vs k)"
  shows "th_value_threshold th' = fe_to_usize fe (fe_decompress fe (word_of_nat b))"
proof -
  obtain h where h: "measure_all fe [vt_value_threshold c, vt_max_value_threshold c] Histogram_default = Inr h" "th_histogram th = h" "th_percentile th = p"
    using assms(1) by (auto simp: VlogThreshold_new_def and_then_Inr)
  obtain h' x where h': "measure_all fe ws h = Inr h'" "percentile fe p h' = Inr x" "th_value_threshold th' = fe_to_usize fe x"
    using assms(2) h(2,3) by (auto simp: update_threshold_def and_then_Inr Let_def split: if_splits)
  have cd: "counted fe ([] @ [vt_value_threshold c, vt_max_value_threshold c]) h \<and> hg_count h = 2"
    using measure_all_counted [OF h(1) counted_default] by (simp add: Histogram_default_def)
  then have c: "counted fe vs h'" "hg_count h' = word_of_nat (length vs)"
    using measure_all_counted [OF h'(1), of "[vt_value_threshold c, vt_max_value_threshold c]"] by (simp_all add: assms(5))
  have len: "length vs < 2 ^ 64" "0 < length vs" using assms(3,5) by simp_all
  then have "word_of_nat (length vs) \<noteq> (0 :: u64)" by (subst word_of_nat_eq_0_iff) (auto dest: nat_dvd_not_less)
  with len(1) have "percentile fe p h' = Inr (fe_decompress fe (word_of_nat b))"
    using assms(4,6-8) c by (intro percentile_counted [where vs = vs]) auto
  with h'(2,3) show ?thesis by simp
qed

text \<open>\<open>clear\<close> resets the total but not the buckets: everything measured before is still counted below every
  percentile, against a total of two.\<close>

theorem clear_keeps_buckets:
  assumes "counted fe vs (th_histogram th)" "clear_histogram fe th = Inr th'"
  shows "counted fe (vs @ [vt_value_threshold (th_config th), vt_max_value_threshold (th_config th)]) (th_histogram th') \<and> hg_count (th_histogram th') = 2"
proof -
  obtain h where h: "measure_all fe [vt_value_threshold (th_config th), vt_max_value_threshold (th_config th)] (histogram_clear (th_histogram th)) = Inr h"
    "th_histogram th' = h" using assms(2) by (auto simp: clear_histogram_def and_then_Inr)
  have "counted fe vs (histogram_clear (th_histogram th))" using assms(1) by (simp add: counted_def histogram_clear_def)
  from measure_all_counted [OF h(1) this] h(2) show ?thesis by (simp add: histogram_clear_def)
qed

end
