(* ===== verification/Spec2Isabelle.thy ===== *)
theory Spec2Isabelle
  imports KV Txn Startup Threshold
begin

text \<open>
  Mors (crate \<open>src/\<close>), an embedded key-value store built as a log-structured merge tree after Badger:
  a verification development.

  \<^bold>\<open>The program and its model.\<close> A transaction buffers writes and reads at a timestamp given out by an
  oracle; a commit takes a new timestamp and sends its entries to the write task, which moves large values
  into the value log and puts the rest into the memtable; full memtables become table files of level 0, and
  compactions move tables down the levels; a manifest file lists the tables. One theory models each part,
  and imports the parts it calls:

  \<^item> \<open>Prelude\<close>: machine types, the outcome type (errors of \<open>errors.rs\<close>, other errors, panics), big-endian
    integers, three-way comparison. \<open>Search\<close>: the binary search of the standard library and what it returns.
  \<^item> \<open>KV\<close> (\<open>kv.rs\<close>): versioned keys with their order, metadata bits, values, value pointers, entries.
  \<^item> \<open>WaterMark\<close> (\<open>txn/water_mark.rs\<close>): the task that learns of begun and finished timestamps.
    \<open>Oracle\<close> (\<open>txn/oracle.rs\<close>): timestamps and conflict detection, and a step relation that interleaves
    transactions, the oracle's locked sections and the two watermark tasks. \<open>Txn\<close> (\<open>txn/mod.rs\<close>,
    \<open>txn/item.rs\<close>): transactions and their commit.
  \<^item> \<open>Arena\<close>, \<open>SkipList\<close> (\<open>util/arena.rs\<close>, \<open>util/skip_list.rs\<close>): the skip list of a memtable, with
    towers and back links in the arena. \<open>Iter\<close> (\<open>iter.rs\<close>): what an iterator from both ends promises.
  \<^item> \<open>Mmap\<close> (\<open>util/mmap.rs\<close>), \<open>KeyRegistry\<close> (\<open>key_registry.rs\<close>), \<open>LogFile\<close> (\<open>util/log_file.rs\<close>,
    \<open>vlog/header.rs\<close>, \<open>vlog/read.rs\<close>), \<open>ValueLog\<close> (\<open>vlog/mod.rs\<close>, \<open>vlog/write.rs\<close>), \<open>MemTable\<close>
    (\<open>memtable/\<close>), \<open>Db\<close> (\<open>write.rs\<close>, \<open>read.rs\<close>, parts of \<open>db.rs\<close> and \<open>config.rs\<close>): files, encryption
    keys, logs, memtables, and the write and read path through them.
  \<^item> \<open>Block\<close>, \<open>Bloom\<close>, \<open>Table\<close> (\<open>table/write.rs\<close>, \<open>table/mod.rs\<close>, \<open>table/read.rs\<close>, \<open>util/bloom.rs\<close>):
    building, opening and iterating tables.
  \<^item> \<open>Manifest\<close> (\<open>manifest.rs\<close>): the catalogue of tables and its file. \<open>Level\<close>
    (\<open>level/level_handler.rs\<close>, \<open>level/read.rs\<close>): the tables of a level and reads. \<open>Compaction\<close>
    (\<open>level/compaction.rs\<close>): ranges of keys and the status that keeps compactions apart. \<open>Plan\<close>
    (\<open>level/levels.rs\<close>, \<open>level/plan.rs\<close>, \<open>level/compaction.rs\<close>): targets and plans of compactions.
  \<^item> \<open>TableIter\<close> (\<open>table/iter.rs\<close>): iterators over several tables and their merge. \<open>Discard\<close>
    (\<open>vlog/discard.rs\<close>): how many bytes of each value log file are stale. \<open>Compact\<close> (\<open>level/compact.rs\<close>): running a plan,
    the new tables, the changes of manifest and levels. \<open>Compactor\<close> (\<open>level/compaction.rs\<close>): the tasks that score the
    levels and start compactions. \<open>Flush\<close> (\<open>level/flush.rs\<close>): a memtable becomes a table of level 0.
  \<^item> \<open>Trie\<close> (\<open>util/tire.rs\<close>), \<open>Publisher\<close> (\<open>util/publisher.rs\<close>, \<open>util/closer.rs\<close>): subscriptions to key patterns and the
    updates sent to them.
  \<^item> \<open>WriteTask\<close> (\<open>write.rs\<close>): the task that collects requests into batches, as a step relation over senders, batches,
    publisher and closer. \<open>Threshold\<close> (\<open>vlog/threshold.rs\<close>, \<open>vlog/histogram.rs\<close>): the threshold of values for the value log.
  \<^item> \<open>Opening\<close> (\<open>level/levels.rs\<close>, \<open>util/mod.rs\<close>): file names, the throttle, building the levels from the manifest.
    \<open>Startup\<close> (\<open>db.rs\<close>, \<open>config.rs\<close>): opening a database over all components.

  A struct is a record, an enum a datatype, a machine integer a word or, where it only counts or measures
  memory, a natural number; \<open>Result\<close> and the panics of the language are the sum type \<open>outcome\<close>, an
  exhausted buffer, a loop out of fuel or a task that waits is \<open>None\<close>. A section under a lock is one step.

  \<^bold>\<open>Interfaces.\<close> The locale \<open>watermark_service\<close> states what the oracle relies on of a watermark
  (interpreted as \<open>wm\<close>), \<open>key_order\<close> what the skip list relies on of its comparison (\<open>mem_order\<close>, the
  order of encoded keys), and \<open>double_ended_cursor\<close> what walking a container from both ends gives
  (\<open>skl\<close> for skip lists, \<open>blk\<close> for blocks); the lemmas on whole traversals are proved once there. \<open>pattern_index\<close>
  is what the publisher relies on of the trie (\<open>pub\<close>), \<open>kept_by\<close> what holds along every run of a step relation that
  keeps it (\<open>stranding\<close> and \<open>losing\<close> for the write task).

  \<^bold>\<open>Code of other crates\<close> is an argument of the definitions, with what is relied on as a named law:
  \<open>varint_laws\<close> (variable-length integers), \<open>crypto_laws\<close>, \<open>log_laws\<close> (ciphers, checksums), \<open>sum_laws\<close>
  (checksums of blocks), \<open>table_laws\<close> (compressors, the flat buffer index), \<open>manifest_laws\<close> (the protocol
  buffer of a change set, the iteration order of a hash map). Each law is shown to hold of a concrete
  instance (\<open>leb_laws\<close>, \<open>demo_te_laws\<close>, \<open>demo_me_laws\<close> and others), which the witnesses use. Clocks,
  random numbers and page sizes are arguments as well.

  \<^bold>\<open>What is shown.\<close> Refinement: a skip list and a memtable implement a sorted map, a commit is a run of the
  oracle's system, a pushed change set updates the catalogue. Round trips: keys, values, records, blocks,
  tables, the key registry and the manifest are read back as written, and a restart finds the same tables at
  the same levels. Safety: snapshots are complete, watermarks never pass an open timestamp, compactions hold
  disjoint ranges and take in all they meet, an opened database goes on behind every stored version.
  Functional behaviour: reads return the newest version, pointers point at their records, a balanced merge yields
  the sorted union of its tables, a compaction of versions that every reader has seen keeps what the reference
  definition keeps, a flush moves a memtable into a table, updates reach exactly the subscribers whose patterns
  find them. Invariants: requests are written in the order in which they were sent, one batch at a time;
  whatever the compaction tasks do, manifest and levels list the same tables. Bounds on transactions and on
  the targets of compactions, termination of the log scan and of every loop that is a function.

  Where the code does not do what it means to, the theorem says what it does: reads of deep levels panic, a seek
  misses the last block, a log replays nothing, a level gap in the manifest panics, torn records can make it
  unreadable; an unbalanced merge panics, adding a version that a reader may need never ends, a compaction onto
  tables fails, the discard statistics keep one record; a refused subscription stops updates, two failures jam the
  throttle, a closing write task strands its requests and a panicking batch stops all later ones.

  \<^bold>\<open>Bounds.\<close> The loops of the skip list take fuel, and enough of it is shown to be the number of nodes; the
  loops of merges and compactions take fuel because they may not end, and the theorems on what they
  return show that from some amount of fuel on they do. All other loops are functions with termination proofs.
  Lengths are assumed below \<open>2 ^ 32\<close> where the format stores them in four bytes, key lengths below \<open>2 ^ 16\<close>;
  these bounds are hypotheses of the theorems that need them.

  \<^bold>\<open>Not modelled.\<close> Generated code (\<open>fb/\<close>, the messages in \<open>pb/badgerpb4.rs\<close> beyond their fields), which is an
  argument; metrics, caches, the thread pool, directory locks and creation, system calls, which hold no data of the store
  and are thin wrappers of other crates; formatting of messages. Left out of modelled parts: compactions of
  different splits and ticks of different tasks run one after another; a compaction, flush or batch that fails
  gives its error, and the files it left behind are not followed; floating point scores and percentiles are
  parameters, since HOL has no IEEE arithmetic here.
\<close>

end
